(* ===== verification/Prelude.thy ===== *)
theory Prelude
  imports Main "HOL-Library.Word"
begin

unbundle bit_operations_syntax

text \<open>
  The shared vocabulary of the development. The first group models what the sources use of
  Rust itself: fixed-width integers as words, \<open>Result\<close> with a third value for a panic, byte
  strings, little-endian conversions, UTF-8 validation and its lossy variant, radix-16 number
  parsing, \<open>str::split\<close> and its relatives, and the binary search behind
  \<open>slice::partition_point\<close>. The second group is the lemma library that the component
  theories use.
\<close>

section \<open>Types\<close>

type_synonym u8 = "8 word"
type_synonym u16 = "16 word"
type_synonym u32 = "32 word"
type_synonym u64 = "64 word"

type_synonym bytes = "u8 list"

named_theorems rust_simps \<open>executable rules for the modelled part of the Rust standard library\<close>
named_theorems inv_intros \<open>preservation of the component invariants\<close>

text \<open>
  \<open>Result<T, E>\<close>, with one more value for an execution that panics (an out-of-range slice, a
  failed assertion, \<open>unwrap\<close> on \<open>None\<close>): no code of the program catches a panic.
\<close>

datatype ('a, 'e) result = Ok 'a | Err 'e | Panic

fun rbind :: "('a, 'e) result \<Rightarrow> ('a \<Rightarrow> ('b, 'e) result) \<Rightarrow> ('b, 'e) result" where
  "rbind (Ok a) k = k a"
| "rbind (Err e) k = Err e"
| "rbind Panic k = Panic"

fun is_Ok :: "('a, 'e) result \<Rightarrow> bool" where
  "is_Ok (Ok a) = True"
| "is_Ok (Err e) = False"
| "is_Ok Panic = False"

lemma rbind_eq_Ok [simp]: "rbind m k = Ok b \<longleftrightarrow> (\<exists>a. m = Ok a \<and> k a = Ok b)"
  by (cases m) auto

lemma rbind_eq_Panic: "rbind m k = Panic \<longleftrightarrow> m = Panic \<or> (\<exists>a. m = Ok a \<and> k a = Panic)"
  by (cases m) auto

text \<open>
  Methods that take \<open>&mut self\<close> and return a \<open>Result\<close> keep what they changed even when
  they fail, so the state is returned beside the result. \<open>sbind\<close> is the question-mark operator.
\<close>

type_synonym ('s, 'a, 'e) sres = "'s \<Rightarrow> ('a, 'e) result \<times> 's"

fun sbind :: "('s, 'a, 'e) sres \<Rightarrow> ('a \<Rightarrow> ('s, 'b, 'e) sres) \<Rightarrow> ('s, 'b, 'e) sres" where
  "sbind m k s = (case m s of
      (Ok a, s') \<Rightarrow> k a s'
    | (Err e, s') \<Rightarrow> (Err e, s')
    | (Panic, s') \<Rightarrow> (Panic, s'))"

definition sret :: "'a \<Rightarrow> ('s, 'a, 'e) sres" where
  "sret a s = (Ok a, s)"

definition sthrow :: "'e \<Rightarrow> ('s, 'a, 'e) sres" where
  "sthrow e s = (Err e, s)"

definition slift :: "('a, 'e) result \<Rightarrow> ('s, 'a, 'e) sres" where
  "slift r s = (r, s)"

declare sret_def [rust_simps] sthrow_def [rust_simps] slift_def [rust_simps]

lemma sbind_Ok:
  "sbind m k s = (Ok b, t) \<longleftrightarrow> (\<exists>a s'. m s = (Ok a, s') \<and> k a s' = (Ok b, t))"
  by (auto split: prod.splits result.splits)

text \<open>
  A property of the state that \<open>m\<close> keeps and that every continuation keeps is kept by the
  sequence. Every frame lemma about a method with several question marks is an instance.
\<close>

lemma sbind_snd_induct:
  assumes "P (snd (m s))"
    and "\<And>a s'. m s = (Ok a, s') \<Longrightarrow> P s' \<Longrightarrow> P (snd (k a s'))"
  shows "P (snd (sbind m k s))"
  using assms by (auto split: prod.splits result.splits)

section \<open>Byte strings\<close>

definition bytes_of :: "string \<Rightarrow> bytes" where
  "bytes_of s = map of_char s"

abbreviation "byte c \<equiv> (of_char c :: u8)"

lemma bytes_of_Nil [simp]: "bytes_of [] = []"
  and bytes_of_Cons [simp]: "bytes_of (c # s) = of_char c # bytes_of s"
  by (simp_all add: bytes_of_def)

lemma length_bytes_of [simp]: "length (bytes_of s) = length s"
  by (simp add: bytes_of_def)

lemma bytes_of_append [simp]: "bytes_of (s @ t) = bytes_of s @ bytes_of t"
  by (simp add: bytes_of_def)

text \<open>\<open>to_le_bytes\<close> and \<open>from_le_bytes\<close> on an integer of \<open>n\<close> bytes.\<close>

definition to_le_bytes :: "nat \<Rightarrow> 'a::len word \<Rightarrow> bytes" where
  "to_le_bytes n x = map (\<lambda>i. ucast (drop_bit (8 * i) x)) [0..<n]"

fun from_le_bytes :: "bytes \<Rightarrow> 'a::len word" where
  "from_le_bytes [] = 0"
| "from_le_bytes (b # bs) = ucast b OR push_bit 8 (from_le_bytes bs)"

lemma length_to_le_bytes [simp]: "length (to_le_bytes n x) = n"
  by (simp add: to_le_bytes_def)

lemma bit_from_le_bytes:
  "bit (from_le_bytes bs :: 'a::len word) k \<longleftrightarrow>
     k < LENGTH('a) \<and> k div 8 < length bs \<and> bit (bs ! (k div 8)) (k mod 8)"
proof (induction bs arbitrary: k)
  case Nil
  then show ?case by simp
next
  case (Cons b bs)
  show ?case
  proof (cases "k < 8")
    case True
    then show ?thesis by (auto simp: bit_simps)
  next
    case False
    then have "k div 8 = Suc ((k - 8) div 8)" "k mod 8 = (k - 8) mod 8"
      by (auto simp: le_div_geq le_mod_geq)
    moreover have "\<not> bit b k" using False by (auto dest: bit_imp_le_length)
    ultimately show ?thesis
      using False Cons.IH [of "k - 8"] by (auto simp: bit_simps)
  qed
qed

lemma from_to_le_bytes:
  assumes "LENGTH('a) \<le> 8 * n"
  shows "from_le_bytes (to_le_bytes n (x :: 'a::len word)) = x"
proof (rule bit_word_eqI)
  fix k assume k: "k < LENGTH('a)"
  then have "k div 8 < n" using assms by auto
  moreover have "bit (to_le_bytes n x ! (k div 8)) (k mod 8) = bit x k"
    using k \<open>k div 8 < n\<close> by (simp add: to_le_bytes_def bit_simps)
  ultimately show "bit (from_le_bytes (to_le_bytes n x) :: 'a word) k = bit x k"
    using k by (simp add: bit_from_le_bytes)
qed

lemma to_from_le_bytes:
  assumes "length bs = n" and "8 * n \<le> LENGTH('a)"
  shows "to_le_bytes n (from_le_bytes bs :: 'a::len word) = bs"
proof (rule nth_equalityI)
  show "length (to_le_bytes n (from_le_bytes bs :: 'a word)) = length bs" by (simp add: assms)
next
  fix i assume i: "i < length (to_le_bytes n (from_le_bytes bs :: 'a word))"
  show "to_le_bytes n (from_le_bytes bs :: 'a word) ! i = bs ! i"
  proof (rule bit_word_eqI)
    fix k :: nat assume k: "k < LENGTH(8)"
    have "(8 * i + k) div 8 = i" "(8 * i + k) mod 8 = k" "8 * i + k < LENGTH('a)"
      using k i assms by auto
    then show "bit (to_le_bytes n (from_le_bytes bs :: 'a word) ! i) k = bit (bs ! i) k"
      using k i assms by (auto simp: to_le_bytes_def bit_simps bit_from_le_bytes add.commute)
  qed
qed

section \<open>UTF-8\<close>

text \<open>
  One step of \<open>core::str::lossy\<close>: for a non-empty input, whether it starts with a valid
  scalar value and how many bytes the scalar value, or the maximal invalid prefix, takes. A
  missing byte reads as zero, which is no continuation byte.
\<close>

definition is_cont :: "u8 \<Rightarrow> bool" where
  "is_cont b \<longleftrightarrow> 0x80 \<le> b \<and> b \<le> 0xBF"

definition get0 :: "bytes \<Rightarrow> nat \<Rightarrow> u8" where
  "get0 bs i = (if i < length bs then bs ! i else 0)"

definition utf8_step :: "bytes \<Rightarrow> bool \<times> nat" where
  "utf8_step bs = (let b0 = get0 bs 0; b1 = get0 bs 1; b2 = get0 bs 2; b3 = get0 bs 3 in
     if b0 < 0x80 then (True, 1)
     else if 0xC2 \<le> b0 \<and> b0 \<le> 0xDF then
       (if is_cont b1 then (True, 2) else (False, 1))
     else if 0xE0 \<le> b0 \<and> b0 \<le> 0xEF then
       (if (b0 = 0xE0 \<and> 0xA0 \<le> b1 \<and> b1 \<le> 0xBF) \<or> (0xE1 \<le> b0 \<and> b0 \<le> 0xEC \<and> is_cont b1)
           \<or> (b0 = 0xED \<and> 0x80 \<le> b1 \<and> b1 \<le> 0x9F) \<or> (0xEE \<le> b0 \<and> is_cont b1)
        then (if is_cont b2 then (True, 3) else (False, 2))
        else (False, 1))
     else if 0xF0 \<le> b0 \<and> b0 \<le> 0xF4 then
       (if (b0 = 0xF0 \<and> 0x90 \<le> b1 \<and> b1 \<le> 0xBF) \<or> (0xF1 \<le> b0 \<and> b0 \<le> 0xF3 \<and> is_cont b1)
           \<or> (b0 = 0xF4 \<and> 0x80 \<le> b1 \<and> b1 \<le> 0x8F)
        then (if is_cont b2 then (if is_cont b3 then (True, 4) else (False, 3)) else (False, 2))
        else (False, 1))
     else (False, 1))"

lemma get0_0 [simp]: "get0 (b # bs) 0 = b"
  by (simp add: get0_def)

lemma utf8_step_ascii: "b < 0x80 \<Longrightarrow> utf8_step (b # bs) = (True, 1)"
  by (simp add: utf8_step_def Let_def)

lemma if_snd_pos: "0 < snd a \<Longrightarrow> 0 < snd b \<Longrightarrow> 0 < snd (if c then a else b)" for a b :: "'a \<times> nat"
  by simp

lemma utf8_step_pos: "0 < snd (utf8_step bs)"
  unfolding utf8_step_def Let_def by (intro if_snd_pos) simp_all

lemma utf8_step_decr:
  assumes "bs \<noteq> []" "utf8_step bs = (ok, n)" shows "length bs - n < length bs"
  using utf8_step_pos [of bs] assms by (cases bs) auto

text \<open>\<open>String::from_utf8_lossy\<close>: each maximal invalid prefix becomes U+FFFD.\<close>

function utf8_lossy :: "bytes \<Rightarrow> bytes" where
  "utf8_lossy bs = (if bs = [] then [] else
     (let (ok, n) = utf8_step bs in
      (if ok then take n bs else [0xEF, 0xBF, 0xBD]) @ utf8_lossy (drop n bs)))"
  by pat_completeness auto
termination
proof (relation "measure length")
  fix bs ok n x assume "bs \<noteq> []" "x = utf8_step bs" "(ok, n) = x"
  then show "(drop n bs, bs) \<in> measure length"
    using utf8_step_decr [of bs ok n] by simp
qed simp

text \<open>\<open>str::from_utf8\<close> succeeds.\<close>

function is_utf8 :: "bytes \<Rightarrow> bool" where
  "is_utf8 bs = (if bs = [] then True else
     (let (ok, n) = utf8_step bs in if ok then is_utf8 (drop n bs) else False))"
  by pat_completeness auto
termination
proof (relation "measure length")
  fix bs x ok n assume "bs \<noteq> []" "x = utf8_step bs" "(ok, n) = x" "ok"
  then show "(drop n bs, bs) \<in> measure length"
    using utf8_step_decr [of bs ok n] by simp
qed simp

declare utf8_lossy.simps [simp del] is_utf8.simps [simp del]

definition ascii :: "bytes \<Rightarrow> bool" where
  "ascii bs \<longleftrightarrow> (\<forall>b \<in> set bs. b < 0x80)"

lemma ascii_simps [simp]:
  "ascii []" "ascii (b # bs) \<longleftrightarrow> b < 0x80 \<and> ascii bs" "ascii (xs @ ys) \<longleftrightarrow> ascii xs \<and> ascii ys"
  by (auto simp: ascii_def)

lemma utf8_lossy_Nil [simp]: "utf8_lossy [] = []"
  by (simp add: utf8_lossy.simps)

lemma utf8_lossy_ascii_Cons [simp]: "b < 0x80 \<Longrightarrow> utf8_lossy (b # bs) = b # utf8_lossy bs"
  by (subst utf8_lossy.simps) (simp add: utf8_step_ascii)

lemma utf8_lossy_ascii: "ascii bs \<Longrightarrow> utf8_lossy bs = bs"
  by (induction bs) auto

lemma is_utf8_Nil [simp]: "is_utf8 []"
  by (simp add: is_utf8.simps)

lemma is_utf8_ascii_Cons [simp]: "b < 0x80 \<Longrightarrow> is_utf8 (b # bs) = is_utf8 bs"
  by (subst is_utf8.simps) (simp add: utf8_step_ascii)

lemma is_utf8_ascii: "ascii bs \<Longrightarrow> is_utf8 bs"
  by (induction bs) auto

section \<open>Numbers in text\<close>

text \<open>\<open>char::to_digit(16)\<close> and its inverse on the lowercase digits (\<open>{:x}\<close>).\<close>

definition digit16 :: "u8 \<Rightarrow> nat option" where
  "digit16 c = (if 0x30 \<le> c \<and> c \<le> 0x39 then Some (unat (c - 0x30))
     else if 0x61 \<le> c \<and> c \<le> 0x66 then Some (unat (c - 0x61) + 10)
     else if 0x41 \<le> c \<and> c \<le> 0x46 then Some (unat (c - 0x41) + 10)
     else None)"

definition hexd :: "nat \<Rightarrow> u8" where
  "hexd n = (if n < 10 then word_of_nat (0x30 + n) else word_of_nat (0x57 + n))"

lemma digit16_hexd [simp]:
  assumes "n < 16" shows "digit16 (hexd n) = Some n"
proof -
  have "n \<in> set [0..<16]" using assms by simp
  then show ?thesis by (simp add: upt_rec) (elim disjE; simp add: digit16_def hexd_def)
qed

lemma hexd_ascii [simp]: assumes "n < 16" shows "hexd n < 0x80"
proof -
  have "n \<in> set [0..<16]" using assms by simp
  then show ?thesis by (simp add: upt_rec) (elim disjE; simp add: hexd_def)
qed

text \<open>\<open>format!("{:x}", n)\<close>.\<close>

fun fmt_hex :: "nat \<Rightarrow> bytes" where
  "fmt_hex n = (if n < 16 then [hexd n] else fmt_hex (n div 16) @ [hexd (n mod 16)])"

declare fmt_hex.simps [simp del]

text \<open>\<open>format!("{:02x}", b)\<close> of one byte.\<close>

definition fmt_02x :: "u8 \<Rightarrow> bytes" where
  "fmt_02x b = [hexd (unat b div 16), hexd (unat b mod 16)]"

text \<open>
  \<open>from_str_radix(s, 16)\<close> for an unsigned type of \<open>w\<close> bits: one leading plus is skipped
  unless it is the whole string, a minus is no digit of an unsigned type, and a value that does
  not fit is an error.
\<close>

fun digits16 :: "nat \<Rightarrow> nat \<Rightarrow> bytes \<Rightarrow> nat option" where
  "digits16 w acc [] = Some acc"
| "digits16 w acc (c # cs) = (case digit16 c of
      None \<Rightarrow> None
    | Some d \<Rightarrow> if acc * 16 + d < 2 ^ w then digits16 w (acc * 16 + d) cs else None)"

definition from_str_radix16 :: "nat \<Rightarrow> bytes \<Rightarrow> nat option" where
  "from_str_radix16 w s = (case s of
      [] \<Rightarrow> None
    | c # cs \<Rightarrow> if c = 0x2B \<and> cs \<noteq> [] then digits16 w 0 cs else digits16 w 0 s)"

lemma digits16_append:
  "digits16 w acc (xs @ ys) = Option.bind (digits16 w acc xs) (\<lambda>a. digits16 w a ys)"
  by (induction w acc xs rule: digits16.induct) (auto split: option.splits)

lemma digits16_fmt_hex: "n < 2 ^ w \<Longrightarrow> digits16 w 0 (fmt_hex n) = Some n"
proof (induction n rule: fmt_hex.induct)
  case (1 n)
  show ?case
  proof (cases "n < 16")
    case True
    with "1.prems" show ?thesis by (simp add: fmt_hex.simps [of n])
  next
    case False
    with "1.prems" have "n div 16 < 2 ^ w" by (meson div_le_dividend le_less_trans)
    with "1.IH" False have "digits16 w 0 (fmt_hex (n div 16)) = Some (n div 16)" by simp
    moreover have "n div 16 * 16 + n mod 16 = n" by simp
    ultimately show ?thesis
      using False "1.prems" by (simp add: fmt_hex.simps [of n] digits16_append)
  qed
qed

lemma fmt_hex_nonempty [simp]: "fmt_hex n \<noteq> []"
  by (subst fmt_hex.simps) simp

lemma digit16_plus [simp]: "digit16 0x2B = None"
  by (simp add: digit16_def)

lemma ascii_fmt_hex [simp]: "ascii (fmt_hex n)"
  by (induction n rule: fmt_hex.induct) (subst fmt_hex.simps, simp)

lemma from_str_radix16_fmt_hex:
  assumes "n < 2 ^ w" shows "from_str_radix16 w (fmt_hex n) = Some n"
proof -
  obtain c cs where c: "fmt_hex n = c # cs" by (cases "fmt_hex n") auto
  have d: "digits16 w 0 (c # cs) = Some n" using digits16_fmt_hex [OF assms] c by simp
  then have "c \<noteq> 0x2B" by auto
  with d c show ?thesis by (simp add: from_str_radix16_def)
qed

section \<open>Splitting strings\<close>

text \<open>\<open>s.split(c)\<close>, \<open>s.split_once(c)\<close>, \<open>s.strip_prefix(p)\<close>, \<open>s.contains(p)\<close>.\<close>

fun split_on :: "'a \<Rightarrow> 'a list \<Rightarrow> 'a list list" where
  "split_on c [] = [[]]"
| "split_on c (x # xs) = (if x = c then [] # split_on c xs
     else (x # hd (split_on c xs)) # tl (split_on c xs))"

definition split_once :: "'a \<Rightarrow> 'a list \<Rightarrow> ('a list \<times> 'a list) option" where
  "split_once c xs = (if c \<in> set xs
     then Some (takeWhile (\<lambda>x. x \<noteq> c) xs, tl (dropWhile (\<lambda>x. x \<noteq> c) xs)) else None)"

fun strip_prefix :: "'a list \<Rightarrow> 'a list \<Rightarrow> 'a list option" where
  "strip_prefix [] xs = Some xs"
| "strip_prefix (p # ps) [] = None"
| "strip_prefix (p # ps) (x # xs) = (if p = x then strip_prefix ps xs else None)"

definition starts_with :: "'a list \<Rightarrow> 'a list \<Rightarrow> bool" where
  "starts_with xs p \<longleftrightarrow> strip_prefix p xs \<noteq> None"

fun contains :: "'a list \<Rightarrow> 'a list \<Rightarrow> bool" where
  "contains [] p = starts_with [] p"
| "contains (x # xs) p = (starts_with (x # xs) p \<or> contains xs p)"

lemma split_on_nonempty [simp]: "split_on c xs \<noteq> []"
  by (induction xs) auto

lemma split_on_no_sep: "c \<notin> set xs \<Longrightarrow> split_on c xs = [xs]"
  by (induction xs) auto

lemma split_on_append: "c \<notin> set xs \<Longrightarrow> split_on c (xs @ c # ys) = xs # split_on c ys"
  by (induction xs) auto

lemma strip_prefix_append [simp]: "strip_prefix p (p @ xs) = Some xs"
  by (induction p) auto

lemma strip_prefix_Some: "strip_prefix p xs = Some ys \<longleftrightarrow> xs = p @ ys"
  by (induction p xs rule: strip_prefix.induct) auto

lemma split_once_append: "c \<notin> set xs \<Longrightarrow> split_once c (xs @ c # ys) = Some (xs, ys)"
  by (simp add: split_once_def takeWhile_append dropWhile_append)

section \<open>Binary search\<close>

text \<open>
  \<open>slice::partition_point(p)\<close>: the number of elements before the first one that fails
  \<open>p\<close>, for a slice that \<open>p\<close> partitions; found by bisection.
\<close>

function bisect :: "('a \<Rightarrow> bool) \<Rightarrow> 'a list \<Rightarrow> nat \<Rightarrow> nat \<Rightarrow> nat" where
  "bisect p xs lo hi = (if lo < hi then
      (let mid = (lo + hi) div 2 in
       if p (xs ! mid) then bisect p xs (Suc mid) hi else bisect p xs lo mid)
    else lo)"
  by pat_completeness auto
termination
  by (relation "measure (\<lambda>(p, xs, lo, hi). hi - lo)") auto

declare bisect.simps [simp del]

definition partition_point :: "('a \<Rightarrow> bool) \<Rightarrow> 'a list \<Rightarrow> nat" where
  "partition_point p xs = bisect p xs 0 (length xs)"

lemma bisect_bounds: "lo \<le> hi \<Longrightarrow> lo \<le> bisect p xs lo hi \<and> bisect p xs lo hi \<le> hi"
proof (induction p xs lo hi rule: bisect.induct)
  case (1 p xs lo hi)
  show ?case
  proof (cases "lo < hi")
    case True
    then have "Suc ((lo + hi) div 2) \<le> hi" "lo \<le> (lo + hi) div 2" by auto
    with "1.IH" [OF True refl] show ?thesis
      by (cases "p (xs ! ((lo + hi) div 2))") (auto simp: bisect.simps [of p xs lo hi] Let_def)
  next
    case False
    with "1.prems" show ?thesis by (simp add: bisect.simps)
  qed
qed

lemma bisect_spec:
  assumes "lo \<le> hi" "\<And>i j. i \<le> j \<Longrightarrow> j < hi \<Longrightarrow> p (xs ! j) \<Longrightarrow> p (xs ! i)"
    "\<And>i. i < lo \<Longrightarrow> p (xs ! i)"
  shows "(\<forall>i < bisect p xs lo hi. p (xs ! i)) \<and>
         (\<forall>i. bisect p xs lo hi \<le> i \<and> i < hi \<longrightarrow> \<not> p (xs ! i))"
  using assms
proof (induction p xs lo hi rule: bisect.induct)
  case (1 p xs lo hi)
  let ?m = "(lo + hi) div 2"
  show ?case
  proof (cases "lo < hi")
    case False
    then have "bisect p xs lo hi = lo" by (simp add: bisect.simps [of p xs lo hi])
    with False "1.prems"(3) show ?thesis by auto
  next
    case True
    show ?thesis
    proof (cases "p (xs ! ?m)")
      case pm: True
      have "\<And>i. i < Suc ?m \<Longrightarrow> p (xs ! i)"
        using "1.prems"(2) [of _ ?m] pm True by auto
      moreover have "Suc ?m \<le> hi" using True by auto
      ultimately have "(\<forall>i < bisect p xs (Suc ?m) hi. p (xs ! i)) \<and>
          (\<forall>i. bisect p xs (Suc ?m) hi \<le> i \<and> i < hi \<longrightarrow> \<not> p (xs ! i))"
        using "1.IH"(1) [OF True refl pm] "1.prems"(2) by blast
      moreover have "bisect p xs lo hi = bisect p xs (Suc ?m) hi"
        using True pm by (simp add: bisect.simps [of p xs lo hi] Let_def)
      ultimately show ?thesis by simp
    next
      case pm: False
      have ge: "\<not> p (xs ! i)" if "?m \<le> i" "i < hi" for i
        using "1.prems"(2) [of ?m i] pm that by auto
      have "(\<forall>i < bisect p xs lo ?m. p (xs ! i)) \<and>
            (\<forall>i. bisect p xs lo ?m \<le> i \<and> i < ?m \<longrightarrow> \<not> p (xs ! i))"
        using "1.IH"(2) [OF True refl pm] True "1.prems"(2,3) by auto
      moreover have "bisect p xs lo hi = bisect p xs lo ?m"
        using True pm by (simp add: bisect.simps [of p xs lo hi] Let_def)
      ultimately show ?thesis using ge by (metis not_less)
    qed
  qed
qed

lemma partition_point_le: "partition_point p xs \<le> length xs"
  using bisect_bounds [of 0 "length xs" p xs] by (simp add: partition_point_def)

lemma partition_point_spec:
  assumes "\<And>i j. i \<le> j \<Longrightarrow> j < length xs \<Longrightarrow> p (xs ! j) \<Longrightarrow> p (xs ! i)"
  shows "i < partition_point p xs \<Longrightarrow> p (xs ! i)"
    and "partition_point p xs \<le> i \<Longrightarrow> i < length xs \<Longrightarrow> \<not> p (xs ! i)"
  using bisect_spec [of 0 "length xs" p xs] assms unfolding partition_point_def by auto

end
