(* ===== verification/Gdbproto.thy ===== *)
theory Gdbproto
  imports Prelude
begin

text \<open>
  The framing codec of the GDB remote serial protocol, \<open>src/gdbproto.rs\<close>: checksum, packet
  encoding, the binary escape of the \<open>X\<close> packet, and the incremental decoder
  \<open>Decoder::feed\<close>, one step per byte. The lemmas show that the decoder inverts the encoder,
  that the way the stream is cut into reads does not matter, that the decoder never panics and
  that it resynchronises from any state.
\<close>

section \<open>Encoding\<close>

definition checksum :: "bytes \<Rightarrow> u8" where
  "checksum payload = foldl (\<lambda>a b. a + b) 0 payload"

definition hex_digit :: "u8 \<Rightarrow> u8" where
  "hex_digit n = (if n < 10 then 0x30 + n else 0x61 + (n - 10))"

definition hex_val :: "u8 \<Rightarrow> u8 option" where
  "hex_val c = (if 0x30 \<le> c \<and> c \<le> 0x39 then Some (c - 0x30)
     else if 0x61 \<le> c \<and> c \<le> 0x66 then Some (c - 0x61 + 10)
     else if 0x41 \<le> c \<and> c \<le> 0x46 then Some (c - 0x41 + 10)
     else None)"

definition encode_packet :: "bytes \<Rightarrow> bytes" where
  "encode_packet payload = (let cs = checksum payload in
     0x24 # payload @ [0x23, hex_digit (drop_bit 4 cs), hex_digit (cs AND 0xf)])"

fun escape :: "bytes \<Rightarrow> bytes" where
  "escape [] = []"
| "escape (b # data) = (if b = 0x7d \<or> b = 0x7e \<or> b = 0x23 \<or> b = 0x24
     then 0x7d # (b XOR 0x20) # escape data else b # escape data)"

datatype unescape_error = TrailingEscape

fun unescape :: "bytes \<Rightarrow> (bytes, unescape_error) result" where
  "unescape [] = Ok []"
| "unescape [b] = (if b = 0x7d then Err TrailingEscape else Ok [b])"
| "unescape (b # c # data) = (if b = 0x7d then rbind (unescape data) (\<lambda>r. Ok ((c XOR 0x20) # r))
     else rbind (unescape (c # data)) (\<lambda>r. Ok (b # r)))"

section \<open>The decoder\<close>

datatype Decoded = Packet bytes | Ack | Nack | Interrupt

text \<open>\<open>Checksum {chars, n}\<close> carries the two-byte array and how much of it is filled.\<close>

datatype State = Idle | Data | Checksum bytes nat

record Decoder =
  dstate :: State
  payload :: bytes
  no_ack :: bool
  bad_checksums :: nat

definition decoder_new :: Decoder where
  "decoder_new = \<lparr>dstate = Idle, payload = [], no_ack = False, bad_checksums = 0\<rparr>"

definition set_no_ack :: "bool \<Rightarrow> Decoder \<Rightarrow> Decoder" where
  "set_no_ack b d = d\<lparr>no_ack := b\<rparr>"

text \<open>
  One iteration of the loop in \<open>feed\<close>. \<open>None\<close> is the out-of-range index panic of
  \<open>chars[n] = b\<close>.
\<close>

definition checksum_byte :: "Decoder \<Rightarrow> bytes \<Rightarrow> nat \<Rightarrow> u8 \<Rightarrow> (Decoder \<times> Decoded list) option" where
  "checksum_byte d chars n b =
     (if n \<ge> length chars then None
      else (let chars = chars[n := b]; n = Suc n in
        if n < 2 then Some (d\<lparr>dstate := Checksum chars n\<rparr>, [])
        else (let got = push_bit 4 (case hex_val (chars ! 0) of Some v \<Rightarrow> v | None \<Rightarrow> 0)
                        OR (case hex_val (chars ! 1) of Some v \<Rightarrow> v | None \<Rightarrow> 0);
                  expect = checksum (payload d) in
          if got = expect
          then Some (d\<lparr>dstate := Idle, payload := []\<rparr>, [Packet (payload d)])
          else Some (d\<lparr>dstate := Idle, bad_checksums := Suc (bad_checksums d), payload := []\<rparr>, []))))"

definition feed_byte :: "Decoder \<Rightarrow> u8 \<Rightarrow> (Decoder \<times> Decoded list) option" where
  "feed_byte d b = (case dstate d of
      Idle \<Rightarrow> Some (
        if b = 0x24 then (d\<lparr>payload := [], dstate := Data\<rparr>, [])
        else if b = 0x2B \<and> \<not> no_ack d then (d, [Ack])
        else if b = 0x2D \<and> \<not> no_ack d then (d, [Nack])
        else if b = 0x03 then (d, [Interrupt])
        else (d, []))
    | Data \<Rightarrow> Some (
        if b = 0x23 then (d\<lparr>dstate := Checksum [0, 0] 0\<rparr>, [])
        else if b = 0x24 then (d\<lparr>payload := []\<rparr>, [])
        else (d\<lparr>payload := payload d @ [b]\<rparr>, []))
    | Checksum chars n \<Rightarrow> checksum_byte d chars n b)"

fun feed :: "Decoder \<Rightarrow> bytes \<Rightarrow> (Decoder \<times> Decoded list) option" where
  "feed d [] = Some (d, [])"
| "feed d (b # bs) = (case feed_byte d b of
      None \<Rightarrow> None
    | Some (d', out) \<Rightarrow> (case feed d' bs of
        None \<Rightarrow> None
      | Some (d'', out') \<Rightarrow> Some (d'', out @ out')))"

section \<open>Invariant\<close>

text \<open>While the checksum is collected, the array has two bytes and at most one is filled.\<close>

definition decoder_inv :: "Decoder \<Rightarrow> bool" where
  "decoder_inv d \<longleftrightarrow> (case dstate d of Checksum chars n \<Rightarrow> length chars = 2 \<and> n < 2 | _ \<Rightarrow> True)"

lemma decoder_inv_new [inv_intros]: "decoder_inv decoder_new"
  by (simp add: decoder_inv_def decoder_new_def)

lemma decoder_inv_set_no_ack [inv_intros]: "decoder_inv d \<Longrightarrow> decoder_inv (set_no_ack b d)"
  by (simp add: decoder_inv_def set_no_ack_def)

lemma feed_byte_inv:
  assumes "decoder_inv d"
  shows "\<exists>d' out. feed_byte d b = Some (d', out) \<and> decoder_inv d'"
  using assms
  by (cases "dstate d") (auto simp: feed_byte_def checksum_byte_def decoder_inv_def Let_def)

lemma feed_total:
  assumes "decoder_inv d"
  shows "\<exists>d' out. feed d bs = Some (d', out) \<and> decoder_inv d'"
  using assms
proof (induction bs arbitrary: d)
  case Nil
  then show ?case by simp
next
  case (Cons b bs)
  from feed_byte_inv [OF Cons.prems] obtain d' out
    where *: "feed_byte d b = Some (d', out)" "decoder_inv d'" by blast
  from Cons.IH [OF *(2)] * show ?case by auto
qed

lemma feed_inv: "decoder_inv d \<Longrightarrow> feed d bs = Some (d', out) \<Longrightarrow> decoder_inv d'"
  using feed_total [of d bs] by auto

section \<open>Reassembly\<close>

lemma feed_append_bind:
  "feed d (xs @ ys) = Option.bind (feed d xs)
     (\<lambda>(d', out). map_option (\<lambda>(d'', out'). (d'', out @ out')) (feed d' ys))"
proof (induction xs arbitrary: d)
  case Nil
  then show ?case by (cases "feed d ys") auto
next
  case (Cons x xs)
  show ?case
  proof (cases "feed_byte d x")
    case (Some r)
    then show ?thesis
      by (cases r; cases "feed (fst r) xs")
        (auto simp: Cons.IH split: option.splits)
  qed simp
qed

lemma feed_append_Some:
  assumes "feed d xs = Some (d', out)" "feed d' ys = Some (d'', out')"
  shows "feed d (xs @ ys) = Some (d'', out @ out')"
  using assms by (simp add: feed_append_bind)

text \<open>A sequence of reads, as the socket delivers them: the decoder runs once per read.\<close>

fun run_reads :: "('d \<Rightarrow> bytes \<Rightarrow> ('d \<times> 'm list) option) \<Rightarrow> 'd \<Rightarrow> bytes list \<Rightarrow> ('d \<times> 'm list) option"
where
  "run_reads dec d [] = Some (d, [])"
| "run_reads dec d (r # rs) = (case dec d r of
      None \<Rightarrow> None
    | Some (d', out) \<Rightarrow> (case run_reads dec d' rs of
        None \<Rightarrow> None
      | Some (d'', out') \<Rightarrow> Some (d'', out @ out')))"

section \<open>The contract of a framed transport\<close>

text \<open>
  What a client of the codec relies on: \<open>dec\<close> is a state machine over bytes that turns one
  encoded payload back into one message when it is between messages.
\<close>

locale packet_codec =
  fixes enc :: "bytes \<Rightarrow> bytes"
    and dec :: "'d \<Rightarrow> bytes \<Rightarrow> ('d \<times> 'm list) option"
    and ready :: "'d \<Rightarrow> bool"
    and acceptable :: "bytes \<Rightarrow> bool"
    and pkt :: "bytes \<Rightarrow> 'm"
  assumes dec_Nil: "dec d [] = Some (d, [])"
    and dec_append: "dec d (xs @ ys) = Option.bind (dec d xs)
        (\<lambda>(d', out). map_option (\<lambda>(d'', out'). (d'', out @ out')) (dec d' ys))"
    and dec_enc: "ready d \<Longrightarrow> acceptable p \<Longrightarrow> \<exists>d'. dec d (enc p) = Some (d', [pkt p]) \<and> ready d'"
begin

lemma run_reads_concat: "run_reads dec d rs = dec d (concat rs)"
  by (induction rs arbitrary: d)
    (auto simp: dec_Nil dec_append split: option.splits bind_splits)

lemma dec_stream:
  assumes "ready d" "\<forall>p \<in> set ps. acceptable p"
  shows "\<exists>d'. dec d (concat (map enc ps)) = Some (d', map pkt ps) \<and> ready d'"
  using assms
proof (induction ps arbitrary: d)
  case Nil
  then show ?case by (simp add: dec_Nil)
next
  case (Cons p ps)
  then obtain d' where d': "dec d (enc p) = Some (d', [pkt p])" "ready d'"
    using dec_enc [of d p] by auto
  with Cons.IH [of d'] Cons.prems obtain d''
    where "dec d' (concat (map enc ps)) = Some (d'', map pkt ps)" "ready d''" by auto
  with d' show ?case by (auto simp: dec_append)
qed

lemma reads_stream:
  assumes "ready d" "\<forall>p \<in> set ps. acceptable p" "concat rs = concat (map enc ps)"
  shows "\<exists>d'. run_reads dec d rs = Some (d', map pkt ps) \<and> ready d'"
  using dec_stream [OF assms(1,2)] assms(3) by (simp add: run_reads_concat)

end

section \<open>Frames\<close>

definition clean :: "bytes \<Rightarrow> bool" where
  "clean p \<longleftrightarrow> 0x23 \<notin> set p \<and> 0x24 \<notin> set p"

lemma clean_simps [simp]:
  "clean []" "clean (b # p) \<longleftrightarrow> b \<noteq> 0x23 \<and> b \<noteq> 0x24 \<and> clean p"
  "clean (p @ q) \<longleftrightarrow> clean p \<and> clean q"
  by (auto simp: clean_def)

text \<open>In the data state the decoder collects bytes up to the number sign.\<close>

lemma feed_payload:
  assumes "dstate d = Data" "clean p"
  shows "feed d p = Some (d\<lparr>payload := payload d @ p\<rparr>, [])"
  using assms
  by (induction p arbitrary: d) (auto simp: feed_byte_def)

lemma nibble_cases:
  assumes "v < (16 :: u8)" shows "v \<in> set (map word_of_nat [0..<16])"
proof -
  have "unat v < 16" using assms by (simp add: word_less_nat_alt)
  then have "v = word_of_nat (unat v)" "unat v \<in> set [0..<16]" by auto
  then show ?thesis by (metis imageI set_map)
qed

lemma hex_val_digit [simp]:
  assumes "v < 16" shows "hex_val (hex_digit v) = Some v"
  using nibble_cases [OF assms]
  by (simp add: upt_rec) (elim disjE; simp add: hex_val_def hex_digit_def)

lemma nibble_hi [simp]: "drop_bit 4 (c :: u8) < 16"
proof -
  have "unat (drop_bit 4 c) = drop_bit 4 (unat c)" by (rule unat_drop_bit_eq)
  also have "\<dots> = unat c div 16" by (simp add: drop_bit_eq_div)
  also have "\<dots> < 16" using unsigned_less [where 'a = nat, of c] by simp
  finally show ?thesis by (simp add: word_less_nat_alt)
qed

lemma nibble_lo [simp]: "(c :: u8) AND 0xf < 16"
  using word_and_le1 [of c "0xf"] by (simp add: word_le_nat_alt word_less_nat_alt)

lemma nibbles_join: "push_bit 4 (drop_bit 4 c) OR (c AND 0xf) = (c :: u8)"
proof (rule bit_word_eqI)
  fix n :: nat assume "n < LENGTH(8)"
  moreover have "bit (0xf :: u8) n \<longleftrightarrow> n < 4"
    using bit_mask_iff [where 'a = u8, of 4 n] \<open>n < LENGTH(8)\<close> by (simp add: mask_numeral)
  ultimately show "bit (push_bit 4 (drop_bit 4 c) OR (c AND 0xf)) n = bit c n"
    by (auto simp: bit_simps)
qed

text \<open>What the two checksum digits decode to.\<close>

definition digits_value :: "u8 \<Rightarrow> u8 \<Rightarrow> u8" where
  "digits_value x y = push_bit 4 (case hex_val x of Some v \<Rightarrow> v | None \<Rightarrow> 0)
     OR (case hex_val y of Some v \<Rightarrow> v | None \<Rightarrow> 0)"

lemma digits_value_checksum:
  "digits_value (hex_digit (drop_bit 4 c)) (hex_digit (c AND 0xf)) = c"
  by (simp add: digits_value_def nibbles_join)

lemma feed_trailer:
  assumes "dstate d = Data"
  shows "feed d [0x23, x, y] = Some
    (if digits_value x y = checksum (payload d)
     then (d\<lparr>dstate := Idle, payload := []\<rparr>, [Packet (payload d)])
     else (d\<lparr>dstate := Idle, bad_checksums := Suc (bad_checksums d), payload := []\<rparr>, []))"
  using assms by (simp add: feed_byte_def checksum_byte_def digits_value_def Let_def)

text \<open>A frame is accepted in both states that see its dollar sign.\<close>

lemma feed_frame:
  assumes "dstate d = Idle \<or> dstate d = Data" "clean p"
  shows "feed d (0x24 # p @ [0x23, x, y]) = Some
    (if digits_value x y = checksum p
     then (d\<lparr>dstate := Idle, payload := []\<rparr>, [Packet p])
     else (d\<lparr>dstate := Idle, bad_checksums := Suc (bad_checksums d), payload := []\<rparr>, []))"
proof -
  let ?d = "d\<lparr>dstate := Data, payload := []\<rparr>"
  have s: "feed_byte d 0x24 = Some (?d, [])"
    using assms(1) by (auto simp: feed_byte_def)
  have f: "feed ?d (p @ [0x23, x, y]) = Some
    (if digits_value x y = checksum p
     then (d\<lparr>dstate := Idle, payload := []\<rparr>, [Packet p])
     else (d\<lparr>dstate := Idle, bad_checksums := Suc (bad_checksums d), payload := []\<rparr>, []))"
    by (subst feed_append_bind) (simp add: feed_payload assms(2) feed_trailer del: feed.simps)
  show ?thesis by (simp add: s f)
qed

definition idle :: "Decoder \<Rightarrow> bool" where
  "idle d \<longleftrightarrow> dstate d = Idle"

lemma feed_encode:
  assumes "dstate d = Idle \<or> dstate d = Data" "clean p"
  shows "feed d (encode_packet p) = Some (d\<lparr>dstate := Idle, payload := []\<rparr>, [Packet p])"
  using feed_frame [OF assms] by (simp add: encode_packet_def Let_def digits_value_checksum del: feed.simps)

interpretation rsp: packet_codec encode_packet feed idle clean Packet
proof
  fix d p assume "idle d" "clean p"
  then show "\<exists>d'. feed d (encode_packet p) = Some (d', [Packet p]) \<and> idle d'"
    by (auto simp: feed_encode idle_def)
qed (simp_all add: feed_append_bind)

section \<open>Properties of the codec\<close>

text \<open>
  (C11) Whatever way the bytes of a sequence of encoded packets are cut into reads, feeding the
  reads to an idle decoder yields exactly these packets in order and leaves it idle, for payloads
  without the two framing bytes.
\<close>

theorem decoder_recovers_packets:
  assumes "dstate d = Idle" "\<forall>p \<in> set ps. clean p" "concat reads = concat (map encode_packet ps)"
  shows "\<exists>d'. run_reads feed d reads = Some (d', map Packet ps) \<and> dstate d' = Idle"
  using rsp.reads_stream [of d ps reads] assms by (simp add: idle_def)

theorem decoder_recovers_packets_witness:
  "\<exists>d'. run_reads feed decoder_new [[0x24, 0x4f], [0x4b, 0x23, 0x39], [0x61]]
     = Some (d', [Packet [0x4f, 0x4b]]) \<and> dstate d' = Idle"
proof -
  have "dstate decoder_new = Idle" "\<forall>p \<in> set [[0x4f, 0x4b]]. clean p"
    "concat [[0x24, 0x4f], [0x4b, 0x23, 0x39], [0x61]] = concat (map encode_packet [[0x4f, 0x4b]])"
    by (simp_all add: decoder_new_def encode_packet_def checksum_def hex_digit_def drop_bit_eq_div)
  from decoder_recovers_packets [OF this] show ?thesis by simp
qed

text \<open>
  (C12) The decoder never panics and never depends on how its input is cut into reads: from the
  state \<open>Decoder::new\<close> makes, every sequence of reads is consumed with the outcome of feeding
  the whole stream at once.
\<close>

theorem decoder_total_and_chunking_independent:
  "\<exists>d' out. run_reads feed decoder_new reads = Some (d', out)
     \<and> feed decoder_new (concat reads) = Some (d', out) \<and> decoder_inv d'"
  using feed_total [OF decoder_inv_new, of "concat reads"] by (simp add: rsp.run_reads_concat)

lemma unescape_Cons:
  "b \<noteq> 0x7d \<Longrightarrow> unescape (b # data) = rbind (unescape data) (\<lambda>r. Ok (b # r))"
  by (cases data) auto

lemma unescape_escape: "unescape (escape data) = Ok data"
  by (induction data rule: escape.induct) (auto simp: unescape_Cons xor.assoc)

lemma escape_clean: "clean (escape data) \<and> 0x7e \<notin> set (escape data)"
  by (induction data rule: escape.induct) auto

text \<open>
  Binary data that is escaped, framed and sent in any pieces is received as one packet whose
  unescaping is the data: no byte of the data can be mistaken for framing.
\<close>

lemma escaped_data_survives_transport:
  assumes "dstate d = Idle" "concat reads = encode_packet (escape data)"
  shows "\<exists>d' p. run_reads feed d reads = Some (d', [Packet p]) \<and> unescape p = Ok data"
  using rsp.reads_stream [of d "[escape data]" reads] assms escape_clean [of data]
  by (auto simp: idle_def unescape_escape)

lemma escaped_data_survives_transport_example:
  "\<exists>d' p. run_reads feed decoder_new [encode_packet (escape [0x23, 0x24, 0x7d])]
     = Some (d', [Packet p]) \<and> unescape p = Ok [0x23, 0x24, 0x7d]"
  by (rule escaped_data_survives_transport) (simp_all add: decoder_new_def)

lemma foldl_plus: "foldl (\<lambda>a b. a + b) (c :: u8) xs = c + sum_list xs"
  by (induction xs arbitrary: c) (auto simp: ac_simps)

lemma checksum_sum: "checksum p = sum_list p"
  by (simp add: checksum_def foldl_plus)

text \<open>
  (C13) A frame in which one payload byte was altered in transit, other than into a framing byte,
  is dropped: nothing is delivered, the drop is counted, and the decoder is idle again.
\<close>

theorem corrupted_byte_detected:
  assumes "dstate d = Idle" "clean (p @ x # q)" "x \<noteq> y" "y \<noteq> 0x23" "y \<noteq> 0x24"
  shows "feed d (take (Suc (length p)) (encode_packet (p @ x # q)) @ y
           # drop (Suc (Suc (length p))) (encode_packet (p @ x # q)))
     = Some (d\<lparr>dstate := Idle, bad_checksums := Suc (bad_checksums d), payload := []\<rparr>, [])"
proof -
  let ?c = "checksum (p @ x # q)"
  have "checksum (p @ y # q) \<noteq> ?c" using assms(3) by (simp add: checksum_sum)
  moreover have "clean (p @ y # q)" using assms(2,4,5) by simp
  ultimately show ?thesis
    using feed_frame [of d "p @ y # q" "hex_digit (drop_bit 4 ?c)" "hex_digit (?c AND 0xf)"] assms(1)
    by (simp add: encode_packet_def Let_def digits_value_checksum del: feed.simps)
qed

theorem corrupted_byte_detected_witness:
  "feed decoder_new [0x24, 0x4f, 0x4c, 0x23, 0x39, 0x61]
     = Some (decoder_new\<lparr>dstate := Idle, bad_checksums := 1, payload := []\<rparr>, [])"
  using corrupted_byte_detected [of decoder_new "[0x4f]" "0x4b" "[]" "0x4c"]
  by (simp add: decoder_new_def encode_packet_def checksum_def hex_digit_def drop_bit_eq_div
      del: feed.simps)

text \<open>Outside a packet, anything but a dollar sign leaves the decoder as it is.\<close>

lemma feed_idle_noise:
  assumes "dstate d = Idle" "0x24 \<notin> set xs"
  shows "\<exists>out. feed d xs = Some (d, out)"
  using assms(2)
proof (induction xs)
  case Nil
  then show ?case by simp
next
  case (Cons b xs)
  have "\<exists>out. feed_byte d b = Some (d, out)"
    using assms(1) Cons.prems by (auto simp: feed_byte_def)
  with Cons show ?case by auto
qed

lemma no_dollar_tail: "clean p \<Longrightarrow> 0x24 \<notin> set (p @ [0x23, hex_digit (drop_bit 4 c), hex_digit (c AND 0xf)])"
proof -
  have "hex_digit v \<noteq> 0x24" if "v < 16" for v
    using nibble_cases [OF that] by (simp add: upt_rec) (elim disjE; simp add: hex_digit_def)
  then show "clean p \<Longrightarrow> ?thesis" by (simp add: clean_def)
qed

lemma feed_byte_first_digit:
  assumes "dstate d = Checksum chars 0" "length chars = 2"
  shows "feed_byte d b = Some (d\<lparr>dstate := Checksum (chars[0 := b]) 1\<rparr>, [])"
proof -
  have "chars \<noteq> []" using assms(2) by auto
  with assms(1) show ?thesis by (simp add: feed_byte_def checksum_byte_def Let_def)
qed

lemma feed_byte_second_digit:
  assumes "dstate d = Checksum chars 1" "length chars = 2"
  shows "\<exists>e out. feed_byte d b = Some (e, out) \<and> dstate e = Idle"
  using assms by (simp add: feed_byte_def checksum_byte_def Let_def)

lemma feed_checksum_to_idle:
  assumes "decoder_inv d" "dstate d = Checksum chars n" "0x24 \<notin> set (y # zs)"
  shows "\<exists>d' out. feed d (x # y # zs) = Some (d', out) \<and> dstate d' = Idle"
proof -
  have len: "length chars = 2" and "n = 0 \<or> n = 1"
    using assms(1,2) by (auto simp: decoder_inv_def)
  then show ?thesis
  proof (elim disjE)
    assume "n = 0"
    with feed_byte_first_digit [of d chars x] len assms(2)
    have 1: "feed_byte d x = Some (d\<lparr>dstate := Checksum (chars[0 := x]) 1\<rparr>, [])" by simp
    obtain e out where 2: "feed_byte (d\<lparr>dstate := Checksum (chars[0 := x]) 1\<rparr>) y = Some (e, out)"
      "dstate e = Idle"
      using feed_byte_second_digit [of "d\<lparr>dstate := Checksum (chars[0 := x]) 1\<rparr>" "chars[0 := x]" y] len
      by auto
    obtain out' where "feed e zs = Some (e, out')"
      using feed_idle_noise [OF 2(2), of zs] assms(3) by auto
    with 1 2 show ?thesis by simp
  next
    assume "n = 1"
    then obtain e out where 1: "feed_byte d x = Some (e, out)" "dstate e = Idle"
      using feed_byte_second_digit [of d chars x] len assms(2) by auto
    obtain out' where "feed e (y # zs) = Some (e, out')"
      using feed_idle_noise [OF 1(2), of "y # zs"] assms(3) by auto
    with 1 show ?thesis by (simp del: feed.simps(2) add: feed.simps(2) [of d])
  qed
qed

text \<open>
  (C14) The decoder resynchronises: whatever the state an interrupted stream left it in, a packet
  that is sent twice is delivered, as the last thing it outputs.
\<close>

theorem decoder_resynchronises:
  assumes "decoder_inv d" "clean p"
  shows "\<exists>d' out. feed d (encode_packet p @ encode_packet p) = Some (d', out @ [Packet p])
    \<and> dstate d' = Idle"
proof -
  have "\<exists>d' out. feed d (encode_packet p) = Some (d', out) \<and> dstate d' = Idle"
  proof (cases "dstate d")
    case (Checksum chars n)
    let ?t = "p @ [0x23, hex_digit (drop_bit 4 (checksum p)), hex_digit (checksum p AND 0xf)]"
    obtain y zs where t: "?t = y # zs" by (cases ?t) auto
    then have "encode_packet p = 0x24 # y # zs" "0x24 \<notin> set (y # zs)"
      using no_dollar_tail [OF assms(2), of "checksum p"] by (simp_all add: encode_packet_def Let_def)
    then show ?thesis
      using feed_checksum_to_idle [OF assms(1) Checksum, of y zs "0x24"] by (simp del: feed.simps)
  qed (use feed_encode assms(2) in auto)
  then obtain d' out where d': "feed d (encode_packet p) = Some (d', out)" "dstate d' = Idle"
    by blast
  show ?thesis
    using feed_append_Some [OF d'(1) feed_encode [of d' p]] d'(2) assms(2) by simp
qed

theorem decoder_resynchronises_witness:
  "\<exists>d' out. feed (decoder_new\<lparr>dstate := Checksum [0, 0] 0\<rparr>)
       (encode_packet [0x67] @ encode_packet [0x67]) = Some (d', out @ [Packet [0x67]])
    \<and> dstate d' = Idle"
  by (rule decoder_resynchronises) (simp_all add: decoder_inv_def)

end
