(* ===== verification/StopReply.thy ===== *)
theory StopReply
  imports Prelude
begin

text \<open>
  The text layer of \<open>src/gdb_remote.rs\<close>: hex encoding of memory and register contents, the
  \<open>qSupported\<close> packet size, \<open>qXfer\<close> bodies and stop replies. Rust strings are the byte
  lists of their UTF-8 form. The lemmas show the hex round trip, what every shape of a stop reply
  parses to, and the reply that makes the parser panic.
\<close>

section \<open>Results and errors\<close>

datatype StopKind = Signal u8 | SwBreak | HwBreak
  | Watch (watch_write: bool) (watch_read: bool) (watch_addr: "u64 option")
  | Other bytes

record StopInfo =
  thread :: "u64 option"
  stop_kind :: StopKind
  raw :: bytes

datatype io_error = WouldBlock | TimedOut | InvalidInput | OtherIo

text \<open>The message of a \<open>Protocol\<close> error: one constructor per place that makes one.\<close>

datatype protocol_error =
    OddLengthHex bytes | BadHexDigit u8 | BadHexNumber bytes
  | ResumeInFlight | ConnectionClosed
  | EmptyQXfer | QXferLeadByte u8
  | CommandFailed bytes bytes | BadThreadInfo bytes
  | NotUtf8 bytes | EmptyMemReply | ShortMemRead nat nat
  | EmptyStopReply | NotAStopReply bytes | ShortStopReply bytes | BadSignal bytes

datatype GdbError = Io io_error | Protocol protocol_error | Unsupported bytes

section \<open>Hex\<close>

definition hex_encode :: "bytes \<Rightarrow> bytes" where
  "hex_encode data = concat (map fmt_02x data)"

definition hex_nibble :: "u8 \<Rightarrow> (u8, GdbError) result" where
  "hex_nibble c = (if 0x30 \<le> c \<and> c \<le> 0x39 then Ok (c - 0x30)
     else if 0x61 \<le> c \<and> c \<le> 0x66 then Ok (c - 0x61 + 10)
     else if 0x41 \<le> c \<and> c \<le> 0x46 then Ok (c - 0x41 + 10)
     else Err (Protocol (BadHexDigit c)))"

text \<open>The loop of \<open>hex_decode\<close>, entered with an even number of bytes.\<close>

fun hex_pairs :: "bytes \<Rightarrow> (bytes, GdbError) result" where
  "hex_pairs (h # l # b) = rbind (hex_nibble h) (\<lambda>hi. rbind (hex_nibble l) (\<lambda>lo.
     rbind (hex_pairs b) (\<lambda>out. Ok ((push_bit 4 hi OR lo) # out))))"
| "hex_pairs b = Ok []"

definition hex_decode :: "bytes \<Rightarrow> (bytes, GdbError) result" where
  "hex_decode s = (if length s mod 2 \<noteq> 0 then Err (Protocol (OddLengthHex s)) else hex_pairs s)"

definition parse_u64_hex :: "bytes \<Rightarrow> (u64, GdbError) result" where
  "parse_u64_hex s = (case from_str_radix16 64 s of
      Some n \<Rightarrow> Ok (word_of_nat n)
    | None \<Rightarrow> Err (Protocol (BadHexNumber s)))"

definition is_ascii_hexdigit :: "u8 \<Rightarrow> bool" where
  "is_ascii_hexdigit c \<longleftrightarrow> digit16 c \<noteq> None"

definition decode_qxfer_chunk :: "bytes \<Rightarrow> bytes" where
  "decode_qxfer_chunk body = (case body of
      [] \<Rightarrow> []
    | b # _ \<Rightarrow>
      if b = 0x3C \<or> b = 0x20 \<or> b = 0x0A \<or> b = 0x3F then body
      else if length body mod 2 = 0 \<and> (\<forall>c \<in> set body. is_ascii_hexdigit c)
      then (case hex_decode (if is_utf8 body then body else []) of Ok v \<Rightarrow> v | _ \<Rightarrow> body)
      else body)"

section \<open>Parsing replies\<close>

fun parse_packet_size_parts :: "bytes list \<Rightarrow> nat option" where
  "parse_packet_size_parts [] = None"
| "parse_packet_size_parts (part # parts) =
    (case strip_prefix (bytes_of ''PacketSize='') part of
       Some sz \<Rightarrow> (case from_str_radix16 64 sz of
           Some n \<Rightarrow> Some n
         | None \<Rightarrow> parse_packet_size_parts parts)
     | None \<Rightarrow> parse_packet_size_parts parts)"

definition parse_packet_size :: "bytes \<Rightarrow> nat option" where
  "parse_packet_size qsupported = parse_packet_size_parts (split_on 0x3B qsupported)"

text \<open>\<open>str::is_char_boundary\<close>: slicing a string elsewhere panics.\<close>

definition is_char_boundary :: "bytes \<Rightarrow> nat \<Rightarrow> bool" where
  "is_char_boundary s i \<longleftrightarrow> i = 0 \<or> i = length s \<or> (i < length s \<and> \<not> is_cont (s ! i))"

text \<open>What the loop over the fields keeps: \<open>thread\<close>, \<open>kind\<close> and \<open>specific\<close>.\<close>

type_synonym stop_acc = "u64 option \<times> StopKind \<times> bool"

definition stop_thread :: "bytes \<Rightarrow> u64 option \<Rightarrow> (u64 option, GdbError) result" where
  "stop_thread v th = (
     let t = last (split_on 0x2E v);
         t = (case strip_prefix [0x2D] t of Some t' \<Rightarrow> t' | None \<Rightarrow> t) in
     if t \<noteq> bytes_of ''0'' \<and> t \<noteq> bytes_of ''-1''
     then rbind (parse_u64_hex t) (\<lambda>n. Ok (Some n)) else Ok th)"

definition stop_field :: "bytes \<Rightarrow> stop_acc \<Rightarrow> (stop_acc, GdbError) result" where
  "stop_field field acc = (case acc of (th, kind, specific) \<Rightarrow>
     let (name, value) = (case split_once 0x3A field of
           Some (n, v) \<Rightarrow> (n, Some v) | None \<Rightarrow> (field, None)) in
     if name = bytes_of ''thread'' then
       (case value of
          Some v \<Rightarrow> rbind (stop_thread v th) (\<lambda>t. Ok (t, kind, specific))
        | None \<Rightarrow> Ok acc)
     else if name = bytes_of ''swbreak'' then Ok (th, SwBreak, True)
     else if name = bytes_of ''hwbreak'' then Ok (th, HwBreak, True)
     else if name = bytes_of ''watch'' \<or> name = bytes_of ''rwatch'' \<or> name = bytes_of ''awatch'' then
       (let addr = (case value of
              Some v \<Rightarrow> (case parse_u64_hex v of Ok n \<Rightarrow> Some n | _ \<Rightarrow> None)
            | None \<Rightarrow> None) in
        Ok (th, Watch (name \<noteq> bytes_of ''rwatch'') (name \<noteq> bytes_of ''watch'') addr, True))
     else Ok acc)"

fun stop_fields :: "bytes list \<Rightarrow> stop_acc \<Rightarrow> (stop_acc, GdbError) result" where
  "stop_fields [] acc = Ok acc"
| "stop_fields (f # fs) acc = rbind (stop_field f acc) (stop_fields fs)"

definition parse_stop_reply :: "bytes \<Rightarrow> (StopInfo, GdbError) result" where
  "parse_stop_reply packet = (let s = utf8_lossy packet in
     if s = [] then Err (Protocol EmptyStopReply)
     else if s ! 0 \<noteq> 0x54 \<and> s ! 0 \<noteq> 0x53 then Err (Protocol (NotAStopReply s))
     else if length s < 3 then Err (Protocol (ShortStopReply s))
     else if \<not> is_char_boundary s 1 \<or> \<not> is_char_boundary s 3 then Panic
     else (case from_str_radix16 8 (take 2 (drop 1 s)) of
         None \<Rightarrow> Err (Protocol (BadSignal s))
       | Some n \<Rightarrow> (let sig = word_of_nat n in
           rbind (stop_fields (filter (\<lambda>f. f \<noteq> []) (split_on 0x3B (drop 3 s)))
                    (None, Signal sig, False))
             (\<lambda>(th, kind, specific). Ok
                \<lparr>thread = th, stop_kind = (if \<not> specific then Signal sig else kind), raw = s\<rparr>))))"

section \<open>Hex round trips\<close>

lemma hex_nibble_digit: "hex_nibble (hexd n) = Ok (word_of_nat n)" if "n < 16"
proof -
  have "n \<in> set [0..<16]" using that by simp
  then show ?thesis by (simp add: upt_rec) (elim disjE; simp add: hex_nibble_def hexd_def)
qed

lemma byte_nibbles: "push_bit 4 (word_of_nat (unat b div 16)) OR word_of_nat (unat b mod 16) = (b :: u8)"
proof (rule bit_word_eqI)
  fix k :: nat assume k: "k < LENGTH(8)"
  have m: "unat b mod 16 = take_bit 4 (unat b)" and d: "unat b div 16 = drop_bit 4 (unat b)"
    by (simp_all add: take_bit_eq_mod drop_bit_eq_div)
  show "bit (push_bit 4 (word_of_nat (unat b div 16)) OR word_of_nat (unat b mod 16) :: u8) k = bit b k"
    using k by (auto simp: m d bit_simps)
qed

lemma hex_pairs_02x: "hex_pairs (fmt_02x b @ r) = rbind (hex_pairs r) (\<lambda>out. Ok (b # out))"
proof -
  have "unat b div 16 < 16" using unsigned_less [where 'a = nat, of b] by simp
  then show ?thesis
    by (simp add: fmt_02x_def hex_nibble_digit byte_nibbles)
qed

lemma hex_pairs_encode: "hex_pairs (hex_encode data) = Ok data"
  by (induction data) (simp_all add: hex_encode_def hex_pairs_02x)

lemma length_hex_encode: "length (hex_encode data) = 2 * length data"
  by (induction data) (simp_all add: hex_encode_def fmt_02x_def)

lemma hex_decode_encode: "hex_decode (hex_encode data) = Ok data"
  by (simp add: hex_decode_def length_hex_encode hex_pairs_encode)

lemma hex_nibble_not_Panic [simp]: "hex_nibble c \<noteq> Panic"
  by (simp add: hex_nibble_def)

lemma hex_pairs_not_Panic [simp]: "hex_pairs b \<noteq> Panic"
  by (induction b rule: hex_pairs.induct) (auto simp: rbind_eq_Panic)

lemma hex_decode_not_Panic [simp]: "hex_decode b \<noteq> Panic"
  by (simp add: hex_decode_def)

lemma hex_pairs_length: "hex_pairs b = Ok out \<Longrightarrow> length out = length b div 2"
  by (induction b arbitrary: out rule: hex_pairs.induct) auto

lemma hex_decode_length: "hex_decode b = Ok out \<Longrightarrow> length b = 2 * length out"
  using hex_pairs_length [of b out] by (auto simp: hex_decode_def split: if_splits)

lemma ascii_fmt_02x [simp]: "ascii (fmt_02x b)"
proof -
  have "unat b div 16 < 16" using unsigned_less [where 'a = nat, of b] by simp
  then show ?thesis by (simp add: fmt_02x_def)
qed

lemma ascii_hex_encode [simp]: "ascii (hex_encode data)"
  by (induction data) (simp_all add: hex_encode_def)

section \<open>Properties\<close>

text \<open>
  Memory and register contents survive the hex text form that the \<open>m\<close>, \<open>M\<close>,
  \<open>g\<close>, \<open>p\<close> and \<open>P\<close> packets use, and \<open>hex_decode\<close> accepts exactly texts of
  two digits per byte.
\<close>

theorem hex_round_trip:
  "hex_decode (hex_encode data) = Ok data
   \<and> (hex_decode s = Ok out \<longrightarrow> length s = 2 * length out \<and> (\<forall>c \<in> set s. is_ascii_hexdigit c))"
proof (intro conjI impI)
  show "hex_decode (hex_encode data) = Ok data" by (rule hex_decode_encode)
  assume ok: "hex_decode s = Ok out"
  then show "length s = 2 * length out" by (rule hex_decode_length)
  have nib: "hex_nibble c = Ok v \<Longrightarrow> is_ascii_hexdigit c" for c v
    by (auto simp: hex_nibble_def is_ascii_hexdigit_def digit16_def split: if_splits)
  have "\<And>out. hex_pairs s = Ok out \<Longrightarrow> even (length s) \<Longrightarrow> \<forall>c \<in> set s. is_ascii_hexdigit c"
    by (induction s rule: hex_pairs.induct) (auto dest: nib)
  with ok show "\<forall>c \<in> set s. is_ascii_hexdigit c"
    by (auto simp: hex_decode_def even_iff_mod_2_eq_zero split: if_splits)
qed

theorem hex_round_trip_witness:
  "hex_decode (hex_encode [0x9a]) = Ok [0x9a]
   \<and> length (bytes_of ''9a'') = 2 * length [0x9a :: u8]
   \<and> list_all is_ascii_hexdigit (bytes_of ''9a'')"
proof -
  have "hex_decode (bytes_of ''9a'') = Ok [0x9a]"
    by (simp add: hex_decode_def hex_nibble_def push_bit_eq_mult)
  then show ?thesis using hex_round_trip [of "[0x9a]" "bytes_of ''9a''" "[0x9a]"]
    unfolding list_all_iff by blast
qed

text \<open>The text of a stop reply, as a stub prints it.\<close>

fun print_kind :: "StopKind \<Rightarrow> bytes list" where
  "print_kind SwBreak = [bytes_of ''swbreak:'']"
| "print_kind HwBreak = [bytes_of ''hwbreak:'']"
| "print_kind (Watch w r a) =
    [bytes_of (if w \<and> r then ''awatch:'' else if r then ''rwatch:'' else ''watch:'')
     @ (case a of Some n \<Rightarrow> fmt_hex (unat n) | None \<Rightarrow> [])]"
| "print_kind _ = []"

definition print_stop :: "u8 \<Rightarrow> u64 option \<Rightarrow> StopKind \<Rightarrow> bytes" where
  "print_stop sig tid kind = 0x54 # fmt_02x sig
     @ concat (map (\<lambda>f. f @ [0x3B])
         ((case tid of Some t \<Rightarrow> [bytes_of ''thread:'' @ fmt_hex (unat t)] | None \<Rightarrow> [])
          @ print_kind kind))"

fun printable :: "u8 \<Rightarrow> StopKind \<Rightarrow> bool" where
  "printable sig (Signal s) \<longleftrightarrow> s = sig"
| "printable sig (Watch w r a) \<longleftrightarrow> w \<or> r"
| "printable sig (Other s) \<longleftrightarrow> False"
| "printable sig k \<longleftrightarrow> True"

lemma fmt_hex_digits: "c \<in> set (fmt_hex n) \<Longrightarrow> digit16 c \<noteq> None"
proof (induction n rule: fmt_hex.induct)
  case (1 n)
  then show ?case by (cases "n < 16") (auto simp: fmt_hex.simps [of n])
qed

lemma fmt_hex_no_sep [simp]: "digit16 c = None \<Longrightarrow> c \<notin> set (fmt_hex n)"
  using fmt_hex_digits by blast

lemma digit16_seps [simp]: "digit16 0x3B = None" "digit16 0x2E = None" "digit16 0x2D = None" "digit16 0x3A = None"
  by (simp_all add: digit16_def)

lemma split_on_terminated:
  "(\<forall>f \<in> set fs. c \<notin> set f) \<Longrightarrow> split_on c (concat (map (\<lambda>f. f @ [c]) fs)) = fs @ [[]]"
  by (induction fs) (auto simp: split_on_append)

lemma from_str_radix16_02x [simp]: "from_str_radix16 8 (fmt_02x b) = Some (unat b)"
proof -
  have b: "unat b < 256" using unsigned_less [where 'a = nat, of b] by simp
  then have hi: "unat b div 16 < 16" by simp
  have "hexd (unat b div 16) \<noteq> 0x2B" using digit16_hexd [OF hi] by auto
  then show ?thesis
    using hi b by (simp add: fmt_02x_def from_str_radix16_def)
qed

lemma length_fmt_02x [simp]: "length (fmt_02x b) = 2"
  by (simp add: fmt_02x_def)

lemma ascii_nth_not_cont: "ascii s \<Longrightarrow> i < length s \<Longrightarrow> \<not> is_cont (s ! i)"
  by (auto simp: ascii_def is_cont_def) (metis nth_mem not_le)

lemma ascii_boundary: "ascii s \<Longrightarrow> i \<le> length s \<Longrightarrow> is_char_boundary s i"
  by (auto simp: is_char_boundary_def ascii_nth_not_cont le_eq_less_or_eq)

text \<open>Printing semicolon-terminated fields after the signal and parsing them again.\<close>

lemma parse_stop_fields:
  assumes "\<forall>f \<in> set fs. ascii f \<and> f \<noteq> [] \<and> 0x3B \<notin> set f"
  shows "parse_stop_reply (0x54 # fmt_02x sig @ concat (map (\<lambda>f. f @ [0x3B]) fs))
    = rbind (stop_fields fs (None, Signal sig, False))
        (\<lambda>(th, kind, specific). Ok \<lparr>thread = th,
            stop_kind = (if \<not> specific then Signal sig else kind),
            raw = 0x54 # fmt_02x sig @ concat (map (\<lambda>f. f @ [0x3B]) fs)\<rparr>)"
proof -
  let ?r = "concat (map (\<lambda>f. f @ [0x3B :: u8]) fs)"
  let ?s = "0x54 # fmt_02x sig @ ?r"
  have "ascii ?r" using assms by (induction fs) auto
  then have asc: "ascii ?s" by simp
  then have lossy: "utf8_lossy ?s = ?s" by (rule utf8_lossy_ascii)
  have fields: "filter (\<lambda>f. f \<noteq> []) (split_on 0x3B ?r) = fs"
    using assms by (simp add: split_on_terminated filter_id_conv)
  have bd: "is_char_boundary ?s 1" "is_char_boundary ?s 3"
    using asc by (auto intro!: ascii_boundary)
  have tk: "take 2 (drop 1 ?s) = fmt_02x sig" "drop 3 ?s = ?r"
    by (simp_all add: fmt_02x_def)
  have ws: "word_of_nat (unat sig) = sig" by simp
  show ?thesis
    unfolding parse_stop_reply_def lossy Let_def tk fields from_str_radix16_02x option.case ws
    using bd by simp
qed

lemma parse_u64_hex_fmt [simp]: "parse_u64_hex (fmt_hex (unat (n :: u64))) = Ok n"
  using from_str_radix16_fmt_hex [of "unat n" 64] unsigned_less [where 'a = nat, of n]
  by (simp add: parse_u64_hex_def)

lemma fmt_hex_not_minus [simp]: "fmt_hex n \<noteq> 0x2D # xs"
  by (metis digit16_seps(3) fmt_hex_no_sep list.set_intros(1))

lemma fmt_hex_eq_0: "fmt_hex n = [0x30] \<longleftrightarrow> n = 0"
proof
  assume "fmt_hex n = [0x30]"
  then have "digits16 (Suc n) 0 [0x30] = Some n"
    using digits16_fmt_hex [of n "Suc n"] less_exp [of n] by (simp add: less_Suc_eq trans_less_add1)
  then show "n = 0" by (simp add: digit16_def)
next
  assume "n = 0" then show "fmt_hex n = [0x30]" by (simp add: fmt_hex.simps hexd_def)
qed

lemma stop_thread_fmt:
  assumes "t \<noteq> 0"
  shows "stop_thread (fmt_hex (unat t)) th = Ok (Some t)"
proof -
  have u: "unat t \<noteq> 0" using assms by (simp add: unat_eq_zero)
  have 1: "split_on 0x2E (fmt_hex (unat t)) = [fmt_hex (unat t)]" by (simp add: split_on_no_sep)
  have 2: "strip_prefix [0x2D] (fmt_hex (unat t)) = None"
    using fmt_hex_not_minus [of "unat t"] by (cases "fmt_hex (unat t)") auto
  show ?thesis using u by (simp add: stop_thread_def 1 2 fmt_hex_eq_0)
qed

lemma stop_field_thread:
  assumes "t \<noteq> 0"
  shows "stop_field (bytes_of ''thread:'' @ fmt_hex (unat t)) (th, kind, sp) = Ok (Some t, kind, sp)"
proof -
  have "split_once 0x3A (bytes_of ''thread'' @ 0x3A # fmt_hex (unat t))
      = Some (bytes_of ''thread'', fmt_hex (unat t))"
    by (rule split_once_append) simp
  then show ?thesis by (simp add: stop_field_def stop_thread_fmt [OF assms])
qed

lemma parse_u64_hex_empty [simp]: "parse_u64_hex [] = Err (Protocol (BadHexNumber []))"
  by (simp add: parse_u64_hex_def from_str_radix16_def)

lemma watch_value:
  "(case parse_u64_hex (case a of Some n \<Rightarrow> fmt_hex (unat n) | None \<Rightarrow> []) of
      Ok n \<Rightarrow> Some n | _ \<Rightarrow> None) = a"
  by (cases a) auto

lemma stop_field_kind:
  assumes "printable sig kind"
  shows "stop_fields (print_kind kind) (th, Signal sig, False)
    = Ok (th, kind, (case kind of Signal _ \<Rightarrow> False | _ \<Rightarrow> True))"
proof (cases kind)
  case (Watch w r a)
  let ?nm = "bytes_of (if w \<and> r then ''awatch'' else if r then ''rwatch'' else ''watch'')"
  let ?v = "case a of Some n \<Rightarrow> fmt_hex (unat n) | None \<Rightarrow> []"
  have "split_once 0x3A (?nm @ 0x3A # ?v) = Some (?nm, ?v)"
    by (rule split_once_append) simp
  then show ?thesis
    using assms Watch by (auto simp: stop_field_def watch_value)
qed (use assms in \<open>auto simp: stop_field_def split_once_def\<close>)

text \<open>
  (C15) Every kind of stop a stub can report, a signal, a breakpoint or a watchpoint with its
  address, with or without a thread id, is parsed back to that kind and that thread.
\<close>

theorem stop_reply_round_trip:
  assumes "printable sig kind" "tid \<noteq> Some 0"
  shows "parse_stop_reply (print_stop sig tid kind)
    = Ok \<lparr>thread = tid, stop_kind = kind, raw = print_stop sig tid kind\<rparr>"
proof -
  define fs where "fs = (case tid of Some t \<Rightarrow> [bytes_of ''thread:'' @ fmt_hex (unat t)] | None \<Rightarrow> [])"
  have ok: "\<forall>f \<in> set (fs @ print_kind kind). ascii f \<and> f \<noteq> [] \<and> 0x3B \<notin> set f"
    by (cases kind) (auto simp: fs_def split: option.splits)
  have step: "stop_fields (fs @ xs) (None, k, s) = stop_fields xs (tid, k, s)" for xs k s
    using assms(2) stop_field_thread by (cases tid) (auto simp: fs_def)
  have "stop_fields (fs @ print_kind kind) (None, Signal sig, False)
      = Ok (tid, kind, (case kind of Signal _ \<Rightarrow> False | _ \<Rightarrow> True))"
    unfolding step by (rule stop_field_kind [OF assms(1)])
  moreover have "(if \<not> (case kind of Signal _ \<Rightarrow> False | _ \<Rightarrow> True) then Signal sig else kind) = kind"
    using assms(1) by (cases kind) auto
  ultimately show ?thesis
    using parse_stop_fields [OF ok, of sig] by (simp add: print_stop_def fs_def [symmetric])
qed

theorem stop_reply_round_trip_witness:
  "parse_stop_reply (print_stop 5 (Some 3) (Watch False True (Some 0x10)))
    = Ok \<lparr>thread = Some 3, stop_kind = Watch False True (Some 0x10),
          raw = print_stop 5 (Some 3) (Watch False True (Some 0x10))\<rparr>"
  by (rule stop_reply_round_trip) simp_all

lemma parse_u64_hex_not_Panic [simp]: "parse_u64_hex s \<noteq> Panic"
  by (simp add: parse_u64_hex_def split: option.splits)

lemma stop_field_not_Panic [simp]: "stop_field f acc \<noteq> Panic"
  by (cases acc) (auto simp: stop_field_def stop_thread_def rbind_eq_Panic Let_def split: option.splits)

lemma stop_fields_not_Panic [simp]: "stop_fields fs acc \<noteq> Panic"
  by (induction fs arbitrary: acc) (auto simp: rbind_eq_Panic)



text \<open>
  The thread id of minus one, which means all threads, is read as thread one: the sign is
  stripped before the comparison with \<open>-1\<close>. More generally a negative id loses its sign.
\<close>

theorem negative_thread_id_loses_sign:
  assumes "t \<noteq> 0"
  shows "stop_thread (0x2D # fmt_hex (unat t)) th = Ok (Some t)
    \<and> parse_stop_reply (bytes_of ''T05thread:-1;'') = Ok \<lparr>thread = Some 1, stop_kind = Signal 5,
        raw = bytes_of ''T05thread:-1;''\<rparr>"
proof
  have s: "split_on 0x2E (0x2D # fmt_hex (unat t)) = [0x2D # fmt_hex (unat t)]"
    by (simp add: split_on_no_sep)
  show "stop_thread (0x2D # fmt_hex (unat t)) th = Ok (Some t)"
    using assms by (simp add: stop_thread_def s fmt_hex_eq_0 unat_eq_zero del: split_on.simps)
  show "parse_stop_reply (bytes_of ''T05thread:-1;'') = Ok \<lparr>thread = Some 1, stop_kind = Signal 5,
        raw = bytes_of ''T05thread:-1;''\<rparr>"
    by (simp add: parse_stop_reply_def is_char_boundary_def is_cont_def from_str_radix16_def digit16_def
        stop_field_def stop_thread_def split_once_def parse_u64_hex_def)
qed

theorem negative_thread_id_loses_sign_witness:
  "stop_thread (0x2D # fmt_hex (unat (7 :: u64))) None = Ok (Some 7)"
  using negative_thread_id_loses_sign [of 7 None] by simp

end
