(* ===== verification/GdbRemote.thy ===== *)
theory GdbRemote
  imports Gdbproto StopReply
begin

text \<open>
  The client of \<open>src/gdb_remote.rs\<close>, every method of \<open>GdbRemote\<close> as a function on an
  explicit state. The TCP stream is the environment: a script of what the coming reads return
  and how long each takes, a script of the coming writes that fail, the bytes written so far, and
  the clock. A read with nothing scripted blocks for the read timeout. All loops end because each
  turn uses up some of the script, of the queued messages or of the time left; the termination
  proofs are here. Stop replies that the client waits for, and nothing else, end the time during
  which it refuses to send commands.
\<close>

section \<open>State\<close>

datatype read_result = RData bytes | RErr io_error

record GdbRemote =
  reads :: "(nat \<times> read_result) list"
  write_fails :: "nat option list"
  written :: bytes
  now :: nat
  read_timeout :: nat
  decoder :: Decoder
  client_no_ack :: bool
  packet_size :: nat
  qsupported :: bytes
  pending :: "Decoded list"
  orphan_replies :: "bytes list"
  resume_in_flight :: bool

type_synonym 'a client_op = "(GdbRemote, 'a, GdbError) sres"

text \<open>\<open>GdbRemote::connect\<close> after the connection is made; 5 s timeouts.\<close>

definition connect :: "(nat \<times> read_result) list \<Rightarrow> nat option list \<Rightarrow> GdbRemote" where
  "connect rs ws = \<lparr>reads = rs, write_fails = ws, written = [], now = 0, read_timeout = 5000,
     decoder = decoder_new, client_no_ack = False, packet_size = 0x4000, qsupported = [],
     pending = [], orphan_replies = [], resume_in_flight = False\<rparr>"

section \<open>The stream\<close>

text \<open>\<open>write_all\<close>: success, or an error after some of the bytes went out.\<close>

definition stream_write :: "bytes \<Rightarrow> unit client_op" where
  "stream_write bs s = (case write_fails s of
      [] \<Rightarrow> (Ok (), s\<lparr>written := written s @ bs\<rparr>)
    | None # ws \<Rightarrow> (Ok (), s\<lparr>written := written s @ bs, write_fails := ws\<rparr>)
    | Some k # ws \<Rightarrow> (Err (Io OtherIo), s\<lparr>written := written s @ take k bs, write_fails := ws\<rparr>))"

definition set_read_timeout :: "nat \<Rightarrow> unit client_op" where
  "set_read_timeout t s = (if t = 0 then (Err (Io InvalidInput), s) else (Ok (), s\<lparr>read_timeout := t\<rparr>))"

text \<open>\<open>read\<close> into a buffer of 4096 bytes; what does not fit stays in the stream.\<close>

definition stream_read :: "bytes client_op" where
  "stream_read s = (case reads s of
      [] \<Rightarrow> (Err (Io WouldBlock), s\<lparr>now := now s + read_timeout s\<rparr>)
    | (dt, RErr e) # rs \<Rightarrow> (Err (Io e), s\<lparr>reads := rs, now := now s + dt\<rparr>)
    | (dt, RData bs) # rs \<Rightarrow>
        (Ok (take 4096 bs), s\<lparr>now := now s + dt,
           reads := (if length bs \<le> 4096 then rs else (0, RData (drop 4096 bs)) # rs)\<rparr>))"

definition read_once :: "unit client_op" where
  "read_once s = (case stream_read s of
      (Err e, s') \<Rightarrow> (Err e, s')
    | (Panic, s') \<Rightarrow> (Panic, s')
    | (Ok buf, s') \<Rightarrow>
        if buf = [] then (Err (Protocol ConnectionClosed), s')
        else (case feed (decoder s') buf of
            None \<Rightarrow> (Panic, s')
          | Some (d, out) \<Rightarrow> (Ok (), s'\<lparr>decoder := d, pending := pending s' @ out\<rparr>)))"

text \<open>How much the script of the reads still holds; the measure of the loops.\<close>

fun read_size :: "(nat \<times> read_result) list \<Rightarrow> nat" where
  "read_size [] = 0"
| "read_size ((dt, RErr e) # rs) = Suc (read_size rs)"
| "read_size ((dt, RData bs) # rs) = Suc (length bs) + read_size rs"

abbreviation insize :: "GdbRemote \<Rightarrow> nat" where
  "insize s \<equiv> read_size (reads s)"

lemma stream_read_size: "insize (snd (stream_read s)) \<le> insize s"
  by (auto simp: stream_read_def split: list.splits prod.splits read_result.splits)

lemma read_once_decr: "read_once s = (Ok (), s') \<Longrightarrow> insize s' < insize s"
  by (auto simp: read_once_def stream_read_def split: list.splits prod.splits read_result.splits if_splits option.splits)

lemma read_once_size: "insize (snd (read_once s)) \<le> insize s"
  using stream_read_size [of s]
  by (auto simp: read_once_def split: prod.splits result.splits if_splits option.splits)

lemma read_once_Err_decr:
  "read_once s = (Err e, s') \<Longrightarrow> reads s = [] \<or> insize s' < insize s"
  by (auto simp: read_once_def stream_read_def split: list.splits prod.splits read_result.splits if_splits option.splits)

section \<open>Receiving\<close>

definition is_timeout :: "GdbError \<Rightarrow> bool" where
  "is_timeout e \<longleftrightarrow> e = Io WouldBlock \<or> e = Io TimedOut"

function drain_loop :: "unit client_op" where
  "drain_loop s = (case read_once s of
      (Ok _, s') \<Rightarrow> drain_loop s'
    | (Err e, s') \<Rightarrow> (if is_timeout e then (Ok (), s') else (Err e, s'))
    | (Panic, s') \<Rightarrow> (Panic, s'))"
  by pat_completeness auto
termination
  by (relation "measure insize") (auto dest: read_once_decr [OF sym])

definition drain_ready :: "unit client_op" where
  "drain_ready s = (let old = read_timeout s in
     sbind (set_read_timeout 50) (\<lambda>_ s1.
       case drain_loop s1 of (result, s2) \<Rightarrow>
         sbind (set_read_timeout old) (\<lambda>_. slift result) s2) s)"

function next_decoded :: "Decoded client_op" where
  "next_decoded s = (case pending s of
      d # ds \<Rightarrow> (Ok d, s\<lparr>pending := ds\<rparr>)
    | [] \<Rightarrow> (case read_once s of
        (Ok _, s') \<Rightarrow> next_decoded s'
      | (Err e, s') \<Rightarrow> (Err e, s')
      | (Panic, s') \<Rightarrow> (Panic, s')))"
  by pat_completeness auto
termination
  by (relation "measure insize") (auto dest: read_once_decr [OF sym])

declare drain_loop.simps [simp del] next_decoded.simps [simp del]

definition ack_packet :: "unit client_op" where
  "ack_packet s = (if \<not> client_no_ack s then stream_write (bytes_of ''+'') s else (Ok (), s))"

text \<open>The order in which each received message makes the client's queues smaller.\<close>

definition queue_less :: "GdbRemote rel" where
  "queue_less = measures [insize, \<lambda>s. length (pending s)]"

lemma wf_queue_less [simp]: "wf queue_less"
  by (simp add: queue_less_def)

lemma next_decoded_pending: "pending s = d # ds \<Longrightarrow> next_decoded s = (Ok d, s\<lparr>pending := ds\<rparr>)"
  by (subst next_decoded.simps) simp

lemma next_decoded_read:
  "pending s = [] \<Longrightarrow> next_decoded s = sbind read_once (\<lambda>_. next_decoded) s"
  by (subst next_decoded.simps) (simp split: prod.splits result.splits)

lemma next_decoded_decr: "next_decoded s = (Ok d, s') \<Longrightarrow> (s', s) \<in> queue_less"
proof (induction s rule: next_decoded.induct)
  case (1 s)
  show ?case
  proof (cases "pending s")
    case (Cons d ds)
    with "1.prems" show ?thesis by (auto simp: next_decoded_pending queue_less_def)
  next
    case Nil
    with "1.prems" obtain s1 where s1: "read_once s = (Ok (), s1)" "next_decoded s1 = (Ok d, s')"
      unfolding next_decoded_read [OF Nil] sbind_Ok by auto
    from "1.IH" [OF Nil s1(1) [symmetric] refl s1(2)] have "(s', s1) \<in> queue_less" .
    with read_once_decr [OF s1(1)] show ?thesis by (auto simp: queue_less_def)
  qed
qed

lemma stream_write_frame [simp]:
  "reads (snd (stream_write bs s)) = reads s" "pending (snd (stream_write bs s)) = pending s"
  "orphan_replies (snd (stream_write bs s)) = orphan_replies s"
  "resume_in_flight (snd (stream_write bs s)) = resume_in_flight s"
  "decoder (snd (stream_write bs s)) = decoder s" "now (snd (stream_write bs s)) = now s"
  "packet_size (snd (stream_write bs s)) = packet_size s"
  "client_no_ack (snd (stream_write bs s)) = client_no_ack s"
  by (auto simp: stream_write_def split: list.splits option.splits)

lemma ack_packet_frame [simp]:
  "reads (snd (ack_packet s)) = reads s" "pending (snd (ack_packet s)) = pending s"
  "orphan_replies (snd (ack_packet s)) = orphan_replies s"
  "resume_in_flight (snd (ack_packet s)) = resume_in_flight s"
  "decoder (snd (ack_packet s)) = decoder s"
  "packet_size (snd (ack_packet s)) = packet_size s"
  "client_no_ack (snd (ack_packet s)) = client_no_ack s"
  by (simp_all add: ack_packet_def)

lemma ack_packet_queues: "ack_packet s = (r, s') \<Longrightarrow> reads s' = reads s \<and> pending s' = pending s"
  by (metis ack_packet_frame(1,2) snd_conv)

function wait_reply_loop :: "bytes client_op" where
  "wait_reply_loop s = (case next_decoded s of
      (Ok (Packet p), s') \<Rightarrow> sbind ack_packet (\<lambda>_. sret p) s'
    | (Ok _, s') \<Rightarrow> wait_reply_loop s'
    | (Err e, s') \<Rightarrow> (Err e, s')
    | (Panic, s') \<Rightarrow> (Panic, s'))"
  by pat_completeness auto
termination
  by (relation queue_less) (auto dest: next_decoded_decr [OF sym])

declare wait_reply_loop.simps [simp del]

definition wait_reply :: "bytes client_op" where
  "wait_reply s = (case orphan_replies s of
      p # ps \<Rightarrow> (Ok p, s\<lparr>orphan_replies := ps\<rparr>)
    | [] \<Rightarrow> wait_reply_loop s)"

text \<open>The scan of the queued messages for a packet, which drops everything before it.\<close>

fun pop_packet :: "Decoded list \<Rightarrow> bytes option \<times> Decoded list" where
  "pop_packet [] = (None, [])"
| "pop_packet (Packet p # ds) = (Some p, ds)"
| "pop_packet (d # ds) = pop_packet ds"

definition poll_read :: "bytes option client_op" where
  "poll_read s = (case read_once s of
      (Ok _, s') \<Rightarrow> (case pop_packet (pending s') of (r, ds) \<Rightarrow> (Ok r, s'\<lparr>pending := ds\<rparr>))
    | (Err e, s') \<Rightarrow> (if is_timeout e then (Ok None, s') else (Err e, s'))
    | (Panic, s') \<Rightarrow> (Panic, s'))"

definition poll_packet :: "nat \<Rightarrow> bytes option client_op" where
  "poll_packet timeout s = (case pop_packet (pending s) of
      (Some p, ds) \<Rightarrow> (Ok (Some p), s\<lparr>pending := ds\<rparr>)
    | (None, ds) \<Rightarrow> (let s0 = s\<lparr>pending := ds\<rparr>; old = read_timeout s0 in
        sbind (set_read_timeout timeout) (\<lambda>_ s1.
          case poll_read s1 of (result, s2) \<Rightarrow>
            sbind (set_read_timeout old) (\<lambda>_. slift result) s2) s0))"

section \<open>Commands\<close>

definition send_packet :: "bytes \<Rightarrow> bytes client_op" where
  "send_packet pl s = (if resume_in_flight s then (Err (Protocol ResumeInFlight), s)
     else sbind (stream_write (encode_packet pl)) (\<lambda>_. wait_reply) s)"

definition handshake :: "unit client_op" where
  "handshake = sbind drain_ready (\<lambda>_.
     sbind (send_packet (bytes_of ''qSupported:swbreak+;hwbreak+;qXfer:features:read+;QStartNoAckMode+''))
       (\<lambda>reply s. let q = utf8_lossy reply;
            s1 = s\<lparr>qsupported := q, packet_size :=
                    (case parse_packet_size q of Some sz \<Rightarrow> sz | None \<Rightarrow> packet_size s)\<rparr> in
          sbind (if contains q (bytes_of ''QStartNoAckMode'')
                 then sbind (send_packet (bytes_of ''QStartNoAckMode'')) (\<lambda>r s2.
                   if r = bytes_of ''OK''
                   then (Ok (), s2\<lparr>client_no_ack := True, decoder := set_no_ack True (decoder s2)\<rparr>)
                   else (Ok (), s2))
                 else sret ())
            (\<lambda>_. sbind (send_packet (bytes_of ''?'')) (\<lambda>st.
               sbind (slift (parse_stop_reply st)) (\<lambda>_. sret ()))) s1))"

definition qxfer_request :: "bytes \<Rightarrow> nat \<Rightarrow> nat \<Rightarrow> bytes" where
  "qxfer_request annex offset len =
     bytes_of ''qXfer:features:read:'' @ annex @ bytes_of '':'' @ fmt_hex offset @ bytes_of '','' @ fmt_hex len"

definition expect_ok :: "bytes \<Rightarrow> bytes \<Rightarrow> unit client_op" where
  "expect_ok what r = (if r \<noteq> bytes_of ''OK''
     then sthrow (Protocol (CommandFailed what (utf8_lossy r))) else sret ())"

definition set_thread :: "u64 \<Rightarrow> unit client_op" where
  "set_thread tid = sbind (send_packet (bytes_of ''Hg'' @ fmt_hex (unat tid))) (expect_ok (bytes_of ''Hg''))"

definition reply_text :: "bytes \<Rightarrow> bytes \<Rightarrow> (bytes, GdbError) result" where
  "reply_text what r = (if is_utf8 r then Ok r else Err (Protocol (NotUtf8 what)))"

definition write_mem :: "u64 \<Rightarrow> bytes \<Rightarrow> unit client_op" where
  "write_mem addr data = sbind
     (send_packet (bytes_of ''M'' @ fmt_hex (unat addr) @ bytes_of '','' @ fmt_hex (length data)
        @ bytes_of '':'' @ hex_encode data))
     (expect_ok (bytes_of ''M''))"

definition read_regs_raw :: "bytes client_op" where
  "read_regs_raw = sbind (send_packet (bytes_of ''g'')) (\<lambda>r.
     if r \<noteq> [] \<and> hd r = 0x45 then sthrow (Protocol (CommandFailed (bytes_of ''g'') (utf8_lossy r)))
     else slift (rbind (reply_text (bytes_of ''g'') r) hex_decode))"

definition read_reg_raw :: "u64 \<Rightarrow> bytes client_op" where
  "read_reg_raw regnum = sbind (send_packet (bytes_of ''p'' @ fmt_hex (unat regnum))) (\<lambda>r.
     if r \<noteq> [] \<and> hd r = 0x45 then sthrow (Protocol (CommandFailed (bytes_of ''p'') (utf8_lossy r)))
     else if r = bytes_of ''xxxxxxxxxxxxxxxx'' \<or> (\<forall>c \<in> set r. c = 0x78)
     then sthrow (Unsupported (bytes_of ''register unavailable''))
     else slift (rbind (reply_text (bytes_of ''p'') r) hex_decode))"

definition write_reg_raw :: "u64 \<Rightarrow> bytes \<Rightarrow> unit client_op" where
  "write_reg_raw regnum val = sbind
     (send_packet (bytes_of ''P'' @ fmt_hex (unat regnum) @ bytes_of ''='' @ hex_encode val))
     (expect_ok (bytes_of ''P''))"

definition vcont :: "string \<Rightarrow> u64 option \<Rightarrow> unit client_op" where
  "vcont action tid = sbind
     (stream_write (encode_packet (case tid of
         Some t \<Rightarrow> bytes_of action @ bytes_of '':'' @ fmt_hex (unat t)
       | None \<Rightarrow> bytes_of action)))
     (\<lambda>_ s. (Ok (), s\<lparr>resume_in_flight := True\<rparr>))"

definition cont :: "u64 option \<Rightarrow> unit client_op" where
  "cont tid = vcont ''vCont;c'' tid"

definition step :: "u64 option \<Rightarrow> unit client_op" where
  "step tid = vcont ''vCont;s'' tid"

fun fmt_dec :: "nat \<Rightarrow> bytes" where
  "fmt_dec n = (if n < 10 then [hexd n] else fmt_dec (n div 10) @ [hexd (n mod 10)])"

declare fmt_dec.simps [simp del]

definition z_packet :: "string \<Rightarrow> u8 \<Rightarrow> u64 \<Rightarrow> u64 \<Rightarrow> unit client_op" where
  "z_packet z kind addr sz = sbind
     (send_packet (bytes_of z @ fmt_dec (unat kind) @ bytes_of '','' @ fmt_hex (unat addr)
        @ bytes_of '','' @ fmt_hex (unat sz)))
     (\<lambda>r. if r = [] then sthrow (Unsupported (bytes_of z @ fmt_dec (unat kind)))
          else expect_ok (bytes_of z @ fmt_dec (unat kind)) r)"

definition insert_breakpoint :: "u8 \<Rightarrow> u64 \<Rightarrow> u64 \<Rightarrow> unit client_op" where
  "insert_breakpoint kind addr sz = z_packet ''Z'' kind addr sz"

definition remove_breakpoint :: "u8 \<Rightarrow> u64 \<Rightarrow> u64 \<Rightarrow> unit client_op" where
  "remove_breakpoint kind addr sz = z_packet ''z'' kind addr sz"

definition interrupt :: "unit client_op" where
  "interrupt = stream_write [0x03]"

definition kill :: "unit client_op" where
  "kill = stream_write (encode_packet (bytes_of ''k''))"

definition detach :: "unit client_op" where
  "detach = sbind (send_packet (bytes_of ''D'')) (expect_ok (bytes_of ''D''))"

section \<open>Waiting for a stop\<close>

definition is_stop :: "bytes \<Rightarrow> bool" where
  "is_stop p \<longleftrightarrow> (case p of [] \<Rightarrow> False | b # _ \<Rightarrow> b = 0x54 \<or> b = 0x53 \<or> b = 0x57 \<or> b = 0x58)"

definition clear_resume_if_stop :: "bytes \<Rightarrow> GdbRemote \<Rightarrow> GdbRemote" where
  "clear_resume_if_stop p s = (if \<not> resume_in_flight s then s
     else if is_stop p then s\<lparr>resume_in_flight := False\<rparr> else s)"

text \<open>
  What a received packet means while waiting: a stop reply, an exit (\<open>W\<close> or \<open>X\<close>), or
  neither.
\<close>

definition classify_stop :: "bytes \<Rightarrow> (StopInfo, GdbError) result option" where
  "classify_stop p = (let s = utf8_lossy p in
     if starts_with s (bytes_of ''T'') \<or> starts_with s (bytes_of ''S'') then Some (parse_stop_reply p)
     else if starts_with s (bytes_of ''W'') \<or> starts_with s (bytes_of ''X'')
     then Some (Ok \<lparr>thread = None, stop_kind = Other s, raw = s\<rparr>)
     else None)"

lemma queue_less_ack:
  assumes "(r, s2) = ack_packet s1" "(s1, s) \<in> queue_less"
  shows "(clear_resume_if_stop p s2, s) \<in> queue_less"
proof -
  have "reads s2 = reads s1" "pending s2 = pending s1"
    using assms(1) ack_packet_frame(1,2) [of s1] by (metis snd_conv)+
  with assms(2) show ?thesis by (auto simp: clear_resume_if_stop_def queue_less_def)
qed

function wait_stop :: "StopInfo client_op" where
  "wait_stop s = (case next_decoded s of
      (Ok (Packet p), s') \<Rightarrow> (case ack_packet s' of
          (Ok _, s2) \<Rightarrow> (let s3 = clear_resume_if_stop p s2 in
             case classify_stop p of
               Some r \<Rightarrow> (r, s3)
             | None \<Rightarrow> wait_stop s3)
        | (Err e, s2) \<Rightarrow> (Err e, s2)
        | (Panic, s2) \<Rightarrow> (Panic, s2))
    | (Ok _, s') \<Rightarrow> wait_stop s'
    | (Err e, s') \<Rightarrow> (Err e, s')
    | (Panic, s') \<Rightarrow> (Panic, s'))"
  by pat_completeness auto
termination
  by (relation queue_less)
    (auto dest: next_decoded_decr [OF sym] intro: queue_less_ack)

declare wait_stop.simps [simp del]

lemma pop_packet_length:
  "pop_packet ds = (r, ds') \<Longrightarrow> length ds' \<le> length ds \<and> (r \<noteq> None \<longrightarrow> length ds' < length ds)
     \<and> (r = None \<longrightarrow> ds' = [])"
  by (induction ds arbitrary: r ds' rule: pop_packet.induct) fastforce+

lemma poll_packet_Some:
  assumes "poll_packet t s = (Ok (Some p), s')"
  shows "(s', s) \<in> queue_less"
proof (cases "pop_packet (pending s)")
  case (Pair r ds)
  show ?thesis
  proof (cases r)
    case (Some q)
    with assms Pair show ?thesis
      using pop_packet_length [OF Pair] by (auto simp: poll_packet_def queue_less_def)
  next
    case None
    let ?s1 = "s\<lparr>pending := ds, read_timeout := t\<rparr>"
    from assms Pair None obtain s2 where "read_once ?s1 = (Ok (), s2)" "reads s' = reads s2"
      by (auto simp: poll_packet_def poll_read_def set_read_timeout_def slift_def Let_def
          split: if_splits prod.splits result.splits)
    then have "insize s' < insize s" using read_once_decr [of ?s1 s2] by simp
    then show ?thesis by (simp add: queue_less_def)
  qed
qed

lemma poll_packet_None:
  assumes "poll_packet t s = (Ok None, s')"
  shows "(s', s) \<in> queue_less \<or> now s + t \<le> now s'"
proof -
  obtain ds where pp: "pop_packet (pending s) = (None, ds)"
    using assms by (auto simp: poll_packet_def split: prod.splits option.splits)
  let ?s1 = "s\<lparr>pending := ds, read_timeout := t\<rparr>"
  obtain r s2 where ro: "read_once ?s1 = (r, s2)" by (cases "read_once ?s1")
  have s': "reads s' = reads s2" "now s' = now s2"
    using assms pp ro by (auto simp: poll_packet_def poll_read_def set_read_timeout_def slift_def Let_def
        split: if_splits prod.splits result.splits)
  consider (ok) "r = Ok ()" | (err) e where "r = Err e" | (panic) "r = Panic"
    by (cases r) auto
  then show ?thesis
  proof cases
    case ok
    with read_once_decr [of ?s1 s2] ro s' show ?thesis by (simp add: queue_less_def)
  next
    case err
    show ?thesis
    proof (cases "reads s = []")
      case True
      then show ?thesis using ro s' by (auto simp: read_once_def stream_read_def)
    next
      case False
      with read_once_Err_decr [of ?s1 e s2] ro err s' show ?thesis by (simp add: queue_less_def)
    qed
  next
    case panic
    with assms pp ro show ?thesis
      by (auto simp: poll_packet_def poll_read_def set_read_timeout_def slift_def Let_def split: if_splits)
  qed
qed

lemma try_wait_decr:
  "(Ok None, s') = poll_packet (max (d - now s) (Suc 0)) s \<Longrightarrow> \<not> d \<le> now s' \<Longrightarrow> (s', s) \<in> queue_less"
  "(Ok (Some p), s') = poll_packet t s \<Longrightarrow> (s'\<lparr>orphan_replies := ps\<rparr>, s) \<in> queue_less"
  using poll_packet_None [of "max (d - now s) (Suc 0)" s s'] poll_packet_Some [of t s p s']
  by (auto simp: queue_less_def)

function try_wait_loop :: "nat \<Rightarrow> StopInfo option client_op" where
  "try_wait_loop deadline s = (case poll_packet (max (deadline - now s) 1) s of
      (Ok None, s') \<Rightarrow> (if deadline \<le> now s' then (Ok None, s') else try_wait_loop deadline s')
    | (Ok (Some p), s') \<Rightarrow> (case classify_stop p of
          Some r \<Rightarrow> (rbind r (\<lambda>i. Ok (Some i)), s'\<lparr>resume_in_flight := False\<rparr>)
        | None \<Rightarrow> try_wait_loop deadline (s'\<lparr>orphan_replies := orphan_replies s' @ [p]\<rparr>))
    | (Err e, s') \<Rightarrow> (Err e, s')
    | (Panic, s') \<Rightarrow> (Panic, s'))"
  by pat_completeness auto
termination
  by (relation "inv_image queue_less snd") (auto simp: wf_inv_image intro: try_wait_decr)

declare try_wait_loop.simps [simp del]

definition try_wait_stop :: "nat \<Rightarrow> StopInfo option client_op" where
  "try_wait_stop timeout s = try_wait_loop (now s + timeout) s"

section \<open>Commands in several packets\<close>

text \<open>Every answered command uses up a message.\<close>

definition reply_less :: "GdbRemote rel" where
  "reply_less = measures [\<lambda>s. length (orphan_replies s), insize, \<lambda>s. length (pending s)]"

lemma wf_reply_less [simp]: "wf reply_less"
  by (simp add: reply_less_def)

lemma read_once_frame:
  "read_once s = (r, s') \<Longrightarrow> orphan_replies s' = orphan_replies s \<and> written s' = written s
     \<and> resume_in_flight s' = resume_in_flight s \<and> client_no_ack s' = client_no_ack s
     \<and> packet_size s' = packet_size s \<and> read_timeout s' = read_timeout s \<and> write_fails s' = write_fails s"
  by (auto simp: read_once_def stream_read_def
      split: list.splits prod.splits read_result.splits if_splits option.splits)

lemma next_decoded_frame:
  "next_decoded s = (r, s') \<Longrightarrow> orphan_replies s' = orphan_replies s \<and> written s' = written s
     \<and> resume_in_flight s' = resume_in_flight s \<and> client_no_ack s' = client_no_ack s
     \<and> packet_size s' = packet_size s \<and> read_timeout s' = read_timeout s \<and> write_fails s' = write_fails s"
proof (induction s rule: next_decoded.induct)
  case (1 s)
  show ?case
  proof (cases "pending s")
    case (Cons d ds)
    with "1.prems" show ?thesis by (auto simp: next_decoded_pending)
  next
    case Nil
    obtain q s1 where q: "read_once s = (q, s1)" by (cases "read_once s")
    show ?thesis
    proof (cases q)
      case (Ok u)
      with "1.prems" q have "next_decoded s1 = (r, s')" by (simp add: next_decoded_read [OF Nil])
      from "1.IH" [OF Nil q [symmetric] Ok this] read_once_frame [OF q] show ?thesis by simp
    qed (use "1.prems" q read_once_frame [OF q] in \<open>auto simp: next_decoded_read [OF Nil]\<close>)
  qed
qed

text \<open>
  What receiving leaves alone, and that it writes nothing but acknowledgements.
\<close>

definition only_acks :: "GdbRemote \<Rightarrow> GdbRemote \<Rightarrow> bool" where
  "only_acks s s' \<longleftrightarrow> (\<exists>k. written s' = written s @ replicate k 0x2B)"

lemma only_acks_refl [simp]: "only_acks s s"
  by (auto simp: only_acks_def intro: exI [of _ 0])

lemma only_acks_same: "written s' = written s \<Longrightarrow> only_acks s s'"
  by (auto simp: only_acks_def intro: exI [of _ 0])

lemma only_acks_trans [trans]: "only_acks s t \<Longrightarrow> only_acks t u \<Longrightarrow> only_acks s u"
  unfolding only_acks_def by (metis append_assoc replicate_add)

lemma ack_packet_only_acks: "only_acks s (snd (ack_packet s))"
proof -
  have "take k [0x2B :: u8] = replicate (min k 1) 0x2B" for k by (cases k) auto
  then show ?thesis
    by (auto simp: ack_packet_def stream_write_def only_acks_def split: list.splits option.splits
        intro: exI [of _ 0] exI [of _ "Suc 0"])
qed

definition recv_frame :: "GdbRemote \<Rightarrow> GdbRemote \<Rightarrow> bool" where
  "recv_frame s s' \<longleftrightarrow> orphan_replies s' = orphan_replies s \<and> only_acks s s'
     \<and> resume_in_flight s' = resume_in_flight s \<and> packet_size s' = packet_size s
     \<and> client_no_ack s' = client_no_ack s"

lemma recv_frame_refl [simp]: "recv_frame s s"
  by (simp add: recv_frame_def)

lemma recv_frame_trans [trans]: "recv_frame s t \<Longrightarrow> recv_frame t u \<Longrightarrow> recv_frame s u"
  by (auto simp: recv_frame_def intro: only_acks_trans)

lemma recv_frame_next: "next_decoded s = (r, s') \<Longrightarrow> recv_frame s s'"
  by (drule next_decoded_frame) (auto simp: recv_frame_def intro: only_acks_same)

lemma recv_frame_ack: "ack_packet s = (r, s') \<Longrightarrow> recv_frame s s'"
  using ack_packet_only_acks [of s] ack_packet_frame [of s] by (auto simp: recv_frame_def)

lemma wait_reply_loop_unfold:
  "wait_reply_loop s = sbind next_decoded (\<lambda>d. case d of
      Packet p \<Rightarrow> sbind ack_packet (\<lambda>_. sret p) | _ \<Rightarrow> wait_reply_loop) s"
  by (subst wait_reply_loop.simps) (auto split: prod.splits result.splits Decoded.splits)

lemma recv_frame_sbind:
  assumes "sbind m k s = (r, s')" "\<And>q s1. m s = (q, s1) \<Longrightarrow> recv_frame s s1"
    "\<And>a s1. m s = (Ok a, s1) \<Longrightarrow> k a s1 = (r, s') \<Longrightarrow> recv_frame s1 s'"
  shows "recv_frame s s'"
proof (cases "m s")
  case (Pair q s1)
  show ?thesis
  proof (cases q)
    case (Ok a)
    with assms(1) Pair have "k a s1 = (r, s')" by simp
    with assms(2,3) Pair Ok show ?thesis by (blast intro: recv_frame_trans)
  qed (use assms Pair in auto)
qed

lemma recv_frame_wait_reply_loop: "wait_reply_loop s = (r, s') \<Longrightarrow> recv_frame s s'"
proof (induction s arbitrary: r s' rule: wait_reply_loop.induct)
  case (1 s)
  note IH = "1.IH" [OF sym refl]
  show ?case
  proof (rule recv_frame_sbind [OF "1.prems" [unfolded wait_reply_loop_unfold [of s]]])
    show "recv_frame s s1" if "next_decoded s = (q, s1)" for q s1
      using that by (rule recv_frame_next)
    fix d s1
    assume d: "next_decoded s = (Ok d, s1)"
      and k: "(case d of Packet p \<Rightarrow> sbind ack_packet (\<lambda>_. sret p) | _ \<Rightarrow> wait_reply_loop) s1 = (r, s')"
    show "recv_frame s1 s'"
    proof (cases d)
      case (Packet p)
      with k show ?thesis
        using recv_frame_ack [of s1] by (auto simp: sret_def split: prod.splits result.splits)
    qed (use k d IH in auto)
  qed
qed

lemma wait_reply_loop_decr: "wait_reply_loop s = (Ok p, s') \<Longrightarrow> (s', s) \<in> queue_less"
proof (induction s rule: wait_reply_loop.induct)
  case (1 s)
  from "1.prems" obtain d s1 where d: "next_decoded s = (Ok d, s1)"
    and k: "(case d of Packet p \<Rightarrow> sbind ack_packet (\<lambda>_. sret p) | _ \<Rightarrow> wait_reply_loop) s1 = (Ok p, s')"
    unfolding wait_reply_loop_unfold [of s] sbind_Ok by blast
  note less = next_decoded_decr [OF d]
  show ?case
  proof (cases d)
    case (Packet q)
    with k have "reads s' = reads s1 \<and> pending s' = pending s1"
      by (auto simp: sret_def dest: ack_packet_queues split: prod.splits result.splits)
    with less show ?thesis by (auto simp: queue_less_def)
  next
    case Ack
    with k "1.IH"(1) [OF d [symmetric] refl] less show ?thesis by (auto simp: queue_less_def)
  next
    case Nack
    with k "1.IH"(2) [OF d [symmetric] refl] less show ?thesis by (auto simp: queue_less_def)
  next
    case Interrupt
    with k "1.IH"(3) [OF d [symmetric] refl] less show ?thesis by (auto simp: queue_less_def)
  qed
qed

lemma send_packet_decr: "send_packet pl s = (Ok r, s') \<Longrightarrow> (s', s) \<in> reply_less"
proof -
  assume "send_packet pl s = (Ok r, s')"
  then obtain s1 where s1: "stream_write (encode_packet pl) s = (Ok (), s1)" "wait_reply s1 = (Ok r, s')"
    by (auto simp: send_packet_def split: if_splits prod.splits result.splits)
  have same: "reads s1 = reads s" "pending s1 = pending s" "orphan_replies s1 = orphan_replies s"
    using s1(1) stream_write_frame [of "encode_packet pl" s] by auto
  show ?thesis
  proof (cases "orphan_replies s1")
    case (Cons p ps)
    with s1(2) have "s' = s1\<lparr>orphan_replies := ps\<rparr>" by (simp add: wait_reply_def)
    with Cons same(3) show ?thesis by (simp add: reply_less_def)
  next
    case Nil
    with s1(2) have w: "wait_reply_loop s1 = (Ok r, s')" by (simp add: wait_reply_def)
    from wait_reply_loop_decr [OF w] recv_frame_wait_reply_loop [OF w] Nil same show ?thesis
      by (auto simp: reply_less_def queue_less_def recv_frame_def)
  qed
qed

function fetch_qxfer_loop :: "bytes \<Rightarrow> nat \<Rightarrow> bytes \<Rightarrow> bytes client_op" where
  "fetch_qxfer_loop annex offset out s =
    (case send_packet (qxfer_request annex offset (min (packet_size s - 64) 0xfffe)) s of
       (Ok reply, s') \<Rightarrow>
         (case reply of
            [] \<Rightarrow> (Err (Protocol EmptyQXfer), s')
          | lead # body \<Rightarrow>
             if lead = 0x6C then (Ok (utf8_lossy (out @ decode_qxfer_chunk body)), s')
             else if lead = 0x6D then
               fetch_qxfer_loop annex (offset + length (decode_qxfer_chunk body))
                 (out @ decode_qxfer_chunk body) s'
             else (Err (Protocol (QXferLeadByte lead)), s'))
     | (Err e, s') \<Rightarrow> (Err e, s')
     | (Panic, s') \<Rightarrow> (Panic, s'))"
  by pat_completeness auto
termination
  by (relation "inv_image reply_less (\<lambda>(a, b, c, s). s)")
    (auto simp: wf_inv_image dest: send_packet_decr [OF sym])

definition fetch_qxfer :: "bytes \<Rightarrow> bytes client_op" where
  "fetch_qxfer annex = fetch_qxfer_loop annex 0 []"

definition fetch_target_xml :: "bytes client_op" where
  "fetch_target_xml = fetch_qxfer (bytes_of ''target.xml'')"

fun parse_tids :: "bytes list \<Rightarrow> u64 list \<Rightarrow> (u64 list, GdbError) result" where
  "parse_tids [] out = Ok out"
| "parse_tids (part # parts) out = (if part = [] then parse_tids parts out
     else rbind (parse_u64_hex part) (\<lambda>t. parse_tids parts (out @ [t])))"

function threads_loop :: "bytes \<Rightarrow> u64 list \<Rightarrow> u64 list client_op" where
  "threads_loop reply out s = (case reply of
      [] \<Rightarrow> (Ok out, s)
    | lead # rest \<Rightarrow>
       if lead = 0x6D then
         (case parse_tids (split_on 0x2C (utf8_lossy rest)) out of
            Ok out' \<Rightarrow> (case send_packet (bytes_of ''qsThreadInfo'') s of
                (Ok reply', s') \<Rightarrow> threads_loop reply' out' s'
              | (Err e, s') \<Rightarrow> (Err e, s')
              | (Panic, s') \<Rightarrow> (Panic, s'))
          | Err e \<Rightarrow> (Err e, s)
          | Panic \<Rightarrow> (Panic, s))
       else if lead = 0x6C then (Ok out, s)
       else (Err (Protocol (BadThreadInfo (utf8_lossy reply))), s))"
  by pat_completeness auto
termination
  by (relation "inv_image reply_less (\<lambda>(a, b, s). s)")
    (auto simp: wf_inv_image dest: send_packet_decr [OF sym])

definition threads :: "u64 list client_op" where
  "threads = sbind (send_packet (bytes_of ''qfThreadInfo'')) (\<lambda>first. threads_loop first [])"

text \<open>
  The loop of \<open>read_mem\<close>: \<open>addr + off\<close> is checked arithmetic, so an address range that
  runs past the top of the address space panics.
\<close>

function read_mem_loop :: "u64 \<Rightarrow> nat \<Rightarrow> nat \<Rightarrow> nat \<Rightarrow> bytes \<Rightarrow> bytes client_op" where
  "read_mem_loop addr len max_chunk off out s =
    (if off < len then
       (let n = min (len - off) max_chunk in
        if unat addr + off \<ge> 2 ^ 64 then (Panic, s)
        else (case send_packet (bytes_of ''m'' @ fmt_hex (unat addr + off) @ bytes_of '','' @ fmt_hex n) s of
           (Ok reply, s') \<Rightarrow>
             if reply \<noteq> [] \<and> hd reply = 0x45
             then (Err (Protocol (CommandFailed (bytes_of ''m'') (utf8_lossy reply))), s')
             else (case rbind (reply_text (bytes_of ''mem'') reply) hex_decode of
                 Ok bytes \<Rightarrow>
                   if bytes = [] then (Err (Protocol EmptyMemReply), s')
                   else if length bytes < n then (Err (Protocol (ShortMemRead (length bytes) n)), s')
                   else read_mem_loop addr len max_chunk (off + length bytes) (out @ bytes) s'
               | Err e \<Rightarrow> (Err e, s')
               | Panic \<Rightarrow> (Panic, s'))
         | (Err e, s') \<Rightarrow> (Err e, s')
         | (Panic, s') \<Rightarrow> (Panic, s')))
     else (Ok out, s))"
  by pat_completeness auto
termination
  by (relation "inv_image reply_less (\<lambda>(a, b, c, d, e, s). s)")
    (auto simp: wf_inv_image dest: send_packet_decr [OF sym])

declare fetch_qxfer_loop.simps [simp del] threads_loop.simps [simp del] read_mem_loop.simps [simp del]

definition read_mem :: "u64 \<Rightarrow> nat \<Rightarrow> bytes client_op" where
  "read_mem addr len s = read_mem_loop addr len (max ((packet_size s - 32) div 2) 16) 0 [] s"

end
