(* ===== verification/GdbClient.thy ===== *)
theory GdbClient
  imports GdbRemote "HOL-Library.Sublist"
begin

text \<open>
  Correctness of the client of \<open>GdbRemote\<close>: an invariant of every reachable client, by way of
  a locale that lifts a property of the primitive stream operations to every method; freedom from
  panics; what each method may write while the target runs; and the end-to-end behaviour of a
  command and of a memory read against a stub that answers them.
\<close>

section \<open>Lifting properties of the primitives to all methods\<close>

locale stream_invariant =
  fixes P :: "GdbRemote \<Rightarrow> bool"
  assumes P_write: "P s \<Longrightarrow> P (snd (stream_write bs s))"
    and P_timeout: "P s \<Longrightarrow> P (snd (set_read_timeout t s))"
    and P_read: "P s \<Longrightarrow> P (snd (read_once s))"
    and P_pending: "P s \<Longrightarrow> P (s\<lparr>pending := ds\<rparr>)"
    and P_orphan: "P s \<Longrightarrow> P (s\<lparr>orphan_replies := ps\<rparr>)"
    and P_flag: "P s \<Longrightarrow> P (s\<lparr>resume_in_flight := b\<rparr>)"
    and P_meta: "P s \<Longrightarrow> P (s\<lparr>qsupported := q, packet_size := n\<rparr>)"
    and P_noack: "P s \<Longrightarrow> P (s\<lparr>client_no_ack := True, decoder := set_no_ack True (decoder s)\<rparr>)"
begin

definition keeps :: "'a client_op \<Rightarrow> bool" where
  "keeps m \<longleftrightarrow> (\<forall>s. P s \<longrightarrow> P (snd (m s)))"

lemma keepsD: "keeps m \<Longrightarrow> P s \<Longrightarrow> m s = (r, s') \<Longrightarrow> P s'"
  by (metis keeps_def snd_conv)

lemma keeps_snd: "keeps m \<Longrightarrow> P s \<Longrightarrow> P (snd (m s))"
  by (simp add: keeps_def)

lemma keepsI: "(\<And>s. P s \<Longrightarrow> P (snd (m s))) \<Longrightarrow> keeps m"
  by (simp add: keeps_def)

lemma keeps_sbind: "keeps m \<Longrightarrow> (\<And>a. keeps (k a)) \<Longrightarrow> keeps (sbind m k)"
  unfolding keeps_def by (auto intro!: sbind_snd_induct [where P = P] simp del: sbind.simps)

lemma keeps_basic [simp]: "keeps (sret a)" "keeps (sthrow e)" "keeps (slift r)"
  by (simp_all add: keeps_def sret_def sthrow_def slift_def)

lemma keeps_prims [simp]: "keeps (stream_write bs)" "keeps (set_read_timeout t)" "keeps read_once"
  by (simp_all add: keeps_def P_write P_timeout P_read)

lemma keeps_ack [simp]: "keeps ack_packet"
  by (auto simp: keeps_def ack_packet_def P_write)

lemma P_drain_loop: "P s \<Longrightarrow> P (snd (drain_loop s))"
proof (induction s rule: drain_loop.induct)
  case (1 s)
  obtain r s1 where r: "read_once s = (r, s1)" by (cases "read_once s")
  then have "P s1" using P_read [OF "1.prems"] by simp
  with "1.IH" [OF r [symmetric]] r show ?case
    by (cases r) (auto simp: drain_loop.simps [of s])
qed

lemma P_next_decoded: "P s \<Longrightarrow> P (snd (next_decoded s))"
proof (induction s rule: next_decoded.induct)
  case (1 s)
  show ?case
  proof (cases "pending s")
    case (Cons d ds)
    then show ?thesis by (simp add: next_decoded_pending P_pending "1.prems")
  next
    case Nil
    obtain r s1 where r: "read_once s = (r, s1)" by (cases "read_once s")
    then have "P s1" using P_read [OF "1.prems"] by simp
    with "1.IH" [OF Nil r [symmetric]] r show ?thesis
      by (cases r) (auto simp: next_decoded_read [OF Nil])
  qed
qed

lemma keeps_next_decoded [simp]: "keeps next_decoded"
  by (simp add: keeps_def P_next_decoded)

lemma P_wait_reply_loop: "P s \<Longrightarrow> P (snd (wait_reply_loop s))"
proof (induction s rule: wait_reply_loop.induct)
  case (1 s)
  obtain r s1 where r: "next_decoded s = (r, s1)" by (cases "next_decoded s")
  with P_next_decoded [OF "1.prems"] have s1: "P s1" by simp
  have ack: "P (snd (sbind ack_packet (\<lambda>_. sret p) s1))" for p :: bytes
    using s1 by (intro keeps_snd keeps_sbind) simp_all
  show ?case
  proof (cases r)
    case (Ok d)
    with "1.IH" [OF r [symmetric]] r s1 ack show ?thesis
      by (cases d) (auto simp: wait_reply_loop.simps [of s] simp del: sbind.simps)
  qed (use r s1 in \<open>simp_all add: wait_reply_loop.simps [of s]\<close>)
qed

lemma keeps_wait_reply [simp]: "keeps wait_reply"
  by (auto simp: keeps_def wait_reply_def P_orphan P_wait_reply_loop split: list.splits)

lemma keeps_send_packet [simp]: "keeps (send_packet pl)"
proof -
  have "keeps (sbind (stream_write (encode_packet pl)) (\<lambda>_. wait_reply))"
    by (intro keeps_sbind) simp_all
  then show ?thesis by (simp add: keeps_def send_packet_def del: sbind.simps)
qed

lemma keeps_expect_ok [simp]: "keeps (expect_ok w r)"
  by (simp add: expect_ok_def)

lemma P_restore: "P s \<Longrightarrow> P (snd (sbind (set_read_timeout old) (\<lambda>_. slift r) s))"
  by (intro keeps_snd keeps_sbind) simp_all

lemma keeps_drain_ready [simp]: "keeps drain_ready"
proof -
  have "P (snd (drain_ready s))" if "P s" for s
    unfolding drain_ready_def Let_def
  proof (rule sbind_snd_induct [where P = P])
    show "P (snd (set_read_timeout 50 s))" using that by (rule P_timeout)
    fix a s1 assume "P s1"
    then show "P (snd (case drain_loop s1 of (r, s2) \<Rightarrow>
        sbind (set_read_timeout (read_timeout s)) (\<lambda>_. slift r) s2))"
      using P_drain_loop [of s1] P_restore by (auto split: prod.split simp del: sbind.simps)
  qed
  then show ?thesis by (simp add: keeps_def)
qed

lemma P_poll_read: "P s \<Longrightarrow> P (snd (poll_read s))"
  using P_read [of s] by (auto simp: poll_read_def P_pending split: prod.splits result.splits)

lemma keeps_poll_packet [simp]: "keeps (poll_packet t)"
proof -
  have "P (snd (poll_packet t s))" if "P s" for s
  proof (cases "pop_packet (pending s)")
    case (Pair r ds)
    have p: "P (s\<lparr>pending := ds\<rparr>)" using that by (rule P_pending)
    have q: "P (snd (case poll_read s1 of (result, s2) \<Rightarrow>
        sbind (set_read_timeout old) (\<lambda>_. slift result) s2))" if "P s1" for s1 old
      using P_poll_read [OF that] P_restore by (auto split: prod.split simp del: sbind.simps)
    show ?thesis
      unfolding poll_packet_def Pair Let_def
      using p by (cases r) (auto intro!: sbind_snd_induct [where P = P] P_timeout q simp del: sbind.simps)
  qed
  then show ?thesis by (simp add: keeps_def)
qed

lemma P_clear_resume: "P s \<Longrightarrow> P (clear_resume_if_stop p s)"
  by (simp add: clear_resume_if_stop_def P_flag)

lemma P_wait_stop: "P s \<Longrightarrow> P (snd (wait_stop s))"
proof (induction s rule: wait_stop.induct)
  case (1 s)
  obtain r s1 where r: "next_decoded s = (r, s1)" by (cases "next_decoded s")
  with P_next_decoded [OF "1.prems"] have s1: "P s1" by simp
  obtain q s2 where q: "ack_packet s1 = (q, s2)" by (cases "ack_packet s1")
  with keeps_snd [OF keeps_ack s1] have s2: "P s2" by simp
  show ?case
  proof (cases r)
    case (Ok d)
    show ?thesis
    proof (cases d)
      case (Packet p)
      with Ok r q s2 "1.IH"(1) [OF r [symmetric] Ok Packet q [symmetric]] show ?thesis
        by (cases q; cases "classify_stop p")
          (auto simp: wait_stop.simps [of s] Let_def P_clear_resume)
    qed (use Ok r s1 "1.IH"(2-4) [OF r [symmetric]] in \<open>simp_all add: wait_stop.simps [of s]\<close>)
  qed (use r s1 in \<open>simp_all add: wait_stop.simps [of s]\<close>)
qed

lemma P_try_wait_loop: "P s \<Longrightarrow> P (snd (try_wait_loop deadline s))"
proof (induction deadline s rule: try_wait_loop.induct)
  case (1 deadline s)
  obtain r s1 where r: "poll_packet (max (deadline - now s) 1) s = (r, s1)"
    by (cases "poll_packet (max (deadline - now s) 1) s")
  with keepsD [OF keeps_poll_packet "1.prems"] have s1: "P s1" by blast
  show ?case
  proof (cases r)
    case (Ok m)
    show ?thesis
    proof (cases m)
      case None
      with Ok r s1 "1.IH"(1) [OF r [symmetric] Ok None] show ?thesis
        by (auto simp: try_wait_loop.simps [of deadline s])
    next
      case (Some p)
      with Ok r s1 "1.IH"(2) [OF r [symmetric] Ok Some] show ?thesis
        by (auto simp: try_wait_loop.simps [of deadline s] P_flag P_orphan split: option.split)
    qed
  qed (use r s1 in \<open>simp_all add: try_wait_loop.simps [of deadline s]\<close>)
qed

lemma P_fetch_qxfer_loop: "P s \<Longrightarrow> P (snd (fetch_qxfer_loop annex offset out s))"
proof (induction annex offset out s rule: fetch_qxfer_loop.induct)
  case (1 annex offset out s)
  let ?m = "send_packet (qxfer_request annex offset (min (packet_size s - 64) 0xfffe))"
  obtain r s1 where r: "?m s = (r, s1)" by (cases "?m s")
  with keepsD [OF keeps_send_packet "1.prems"] have s1: "P s1" by blast
  show ?case
  proof (cases r)
    case (Ok reply)
    with r s1 "1.IH" [OF r [symmetric] Ok] show ?thesis
      by (cases reply) (auto simp: fetch_qxfer_loop.simps [of annex offset out s])
  qed (use r s1 in \<open>simp_all add: fetch_qxfer_loop.simps [of annex offset out s]\<close>)
qed

lemma P_threads_loop: "P s \<Longrightarrow> P (snd (threads_loop reply out s))"
proof (induction reply out s rule: threads_loop.induct)
  case (1 reply out s)
  obtain r s1 where r: "send_packet (bytes_of ''qsThreadInfo'') s = (r, s1)"
    by (cases "send_packet (bytes_of ''qsThreadInfo'') s")
  with keepsD [OF keeps_send_packet "1.prems"] have s1: "P s1" by blast
  show ?case
  proof (cases reply)
    case (Cons lead rest)
    let ?q = "parse_tids (split_on 0x2C (utf8_lossy rest)) out"
    show ?thesis
    proof (cases "lead = 0x6D \<and> is_Ok ?q \<and> is_Ok r")
      case True
      then obtain out' reply' where "?q = Ok out'" "r = Ok reply'" by (cases ?q; cases r) auto
      with True Cons r s1 "1.IH" [OF Cons _ \<open>?q = Ok out'\<close> r [symmetric]] show ?thesis
        unfolding threads_loop.simps [of reply out s] by simp
    next
      case False
      with Cons r s1 "1.prems" show ?thesis
        unfolding threads_loop.simps [of reply out s] by (cases ?q; cases r) auto
    qed
  qed (use "1.prems" in \<open>simp add: threads_loop.simps\<close>)
qed

lemma P_read_mem_loop: "P s \<Longrightarrow> P (snd (read_mem_loop addr len mc off out s))"
proof (induction addr len mc off out s rule: read_mem_loop.induct)
  case (1 addr len mc off out s)
  let ?n = "min (len - off) mc"
  let ?m = "send_packet (bytes_of ''m'' @ fmt_hex (unat addr + off) @ bytes_of '','' @ fmt_hex ?n)"
  obtain r s1 where r: "?m s = (r, s1)" by (cases "?m s")
  with keepsD [OF keeps_send_packet "1.prems"] have s1: "P s1" by blast
  note unf = read_mem_loop.simps [of addr len mc off out s]
  show ?case
  proof (cases "off < len \<and> unat addr + off < 2 ^ 64")
    case True
    then have c: "off < len" "\<not> 2 ^ 64 \<le> unat addr + off" by auto
    note IH = "1.IH" [OF c(1) refl c(2) r [symmetric]]
    show ?thesis
    proof (cases r)
      case (Ok reply)
      show ?thesis
      proof (cases "rbind (reply_text (bytes_of ''mem'') reply) hex_decode")
        case (Ok bs)
        with \<open>r = Ok reply\<close> r s1 c IH [OF \<open>r = Ok reply\<close> _ Ok] show ?thesis
          by (simp add: unf Let_def del: rbind_eq_Ok)
      qed (use Ok r s1 c in \<open>simp_all add: unf Let_def\<close>)
    qed (use r s1 c in \<open>simp_all add: unf Let_def\<close>)
  qed (use "1.prems" in \<open>auto simp: unf Let_def\<close>)
qed

lemma keeps_loops [simp]:
  "keeps (fetch_qxfer annex)" "keeps threads" "keeps (read_mem addr len)"
  "keeps wait_stop" "keeps (try_wait_stop t)"
proof -
  show "keeps threads"
    unfolding threads_def
    by (intro keeps_sbind keeps_send_packet) (simp add: keeps_def P_threads_loop)
qed (simp_all add: keeps_def fetch_qxfer_def P_fetch_qxfer_loop read_mem_def P_read_mem_loop
    P_wait_stop try_wait_stop_def P_try_wait_loop)

lemma keeps_vcont [simp]: "keeps (vcont a tid)"
  unfolding vcont_def by (intro keeps_sbind) (simp_all add: keeps_def P_write P_flag)

lemma keeps_z_packet [simp]: "keeps (z_packet z kind addr n)"
  unfolding z_packet_def by (intro keeps_sbind) simp_all

lemma keeps_commands [simp]:
  "keeps (set_thread tid)" "keeps (write_mem addr data)" "keeps read_regs_raw"
  "keeps (read_reg_raw n)" "keeps (write_reg_raw n v)" "keeps (cont t)" "keeps (step t)"
  "keeps (insert_breakpoint k a n')" "keeps (remove_breakpoint k a n')" "keeps interrupt"
  "keeps kill" "keeps detach"
  unfolding set_thread_def write_mem_def read_regs_raw_def read_reg_raw_def write_reg_raw_def cont_def
    step_def insert_breakpoint_def remove_breakpoint_def interrupt_def kill_def detach_def
  by (simp_all add: keeps_sbind)

lemma keeps_handshake [simp]: "keeps handshake"
proof -
  have na: "keeps (\<lambda>s2. if c then (Ok (), s2\<lparr>client_no_ack := True, decoder := set_no_ack True (decoder s2)\<rparr>)
      else (Ok (), s2))" for c
    by (simp add: keeps_def P_noack)
  have tail: "keeps (sbind (if b then sbind (send_packet (bytes_of ''QStartNoAckMode'')) (\<lambda>r s2.
            if r = bytes_of ''OK'' then (Ok (), s2\<lparr>client_no_ack := True, decoder := set_no_ack True (decoder s2)\<rparr>)
            else (Ok (), s2)) else sret ())
        (\<lambda>_. sbind (send_packet (bytes_of ''?'')) (\<lambda>st. sbind (slift (parse_stop_reply st)) (\<lambda>_. sret ()))))" for b
    using na by (auto intro!: keeps_sbind)
  show ?thesis
    unfolding handshake_def
  proof (intro keeps_sbind keeps_drain_ready keeps_send_packet)
    fix reply :: bytes
    show "keeps (\<lambda>s. let q = utf8_lossy reply;
            s1 = s\<lparr>qsupported := q, packet_size :=
                    (case parse_packet_size q of Some sz \<Rightarrow> sz | None \<Rightarrow> packet_size s)\<rparr> in
          sbind (if contains q (bytes_of ''QStartNoAckMode'')
                 then sbind (send_packet (bytes_of ''QStartNoAckMode'')) (\<lambda>r s2.
                   if r = bytes_of ''OK''
                   then (Ok (), s2\<lparr>client_no_ack := True, decoder := set_no_ack True (decoder s2)\<rparr>)
                   else (Ok (), s2))
                 else sret ())
            (\<lambda>_. sbind (send_packet (bytes_of ''?'')) (\<lambda>st.
               sbind (slift (parse_stop_reply st)) (\<lambda>_. sret ()))) s1)"
      by (rule keepsI) (simp only: Let_def, rule keeps_snd [OF tail], rule P_meta)
  qed
qed

end

section \<open>Reachable clients\<close>

text \<open>One public method call, with its effect on the client.\<close>

inductive client_step :: "GdbRemote \<Rightarrow> GdbRemote \<Rightarrow> bool" where
  handshake: "client_step s (snd (handshake s))"
| send: "client_step s (snd (send_packet pl s))"
| poll: "client_step s (snd (poll_packet t s))"
| xml: "client_step s (snd (fetch_qxfer annex s))"
| set_thread: "client_step s (snd (set_thread tid s))"
| threads: "client_step s (snd (threads s))"
| read_mem: "client_step s (snd (read_mem addr len s))"
| write_mem: "client_step s (snd (write_mem addr data s))"
| read_regs: "client_step s (snd (read_regs_raw s))"
| read_reg: "client_step s (snd (read_reg_raw n s))"
| write_reg: "client_step s (snd (write_reg_raw n v s))"
| cont: "client_step s (snd (cont t' s))"
| step: "client_step s (snd (step t' s))"
| insert_bp: "client_step s (snd (insert_breakpoint k addr sz s))"
| remove_bp: "client_step s (snd (remove_breakpoint k addr sz s))"
| interrupt: "client_step s (snd (interrupt s))"
| wait: "client_step s (snd (wait_stop s))"
| try_wait: "client_step s (snd (try_wait_stop t s))"
| kill: "client_step s (snd (kill s))"
| detach: "client_step s (snd (detach s))"

inductive reachable :: "GdbRemote \<Rightarrow> bool" where
  start: "reachable (connect rs ws)"
| call: "reachable s \<Longrightarrow> client_step s s' \<Longrightarrow> reachable s'"

text \<open>A property of the stream primitives holds in every reachable client.\<close>

context stream_invariant
begin

lemma P_client_step: "client_step s s' \<Longrightarrow> P s \<Longrightarrow> P s'"
  by (induction rule: client_step.induct) (auto intro: keeps_snd)

lemma P_reachable: "reachable s \<Longrightarrow> (\<And>rs ws. P (connect rs ws)) \<Longrightarrow> P s"
  by (induction rule: reachable.induct) (auto intro: P_client_step)

end

text \<open>
  The invariant: the decoder is well formed, it and the client agree on whether acknowledgements
  are in use, and the read timeout is one the socket accepts.
\<close>

definition client_inv :: "GdbRemote \<Rightarrow> bool" where
  "client_inv s \<longleftrightarrow> decoder_inv (decoder s) \<and> no_ack (decoder s) = client_no_ack s \<and> 0 < read_timeout s"

lemma feed_byte_no_ack: "feed_byte d b = Some (d', out) \<Longrightarrow> no_ack d' = no_ack d"
  by (auto simp: feed_byte_def checksum_byte_def Let_def split: State.splits if_splits)

lemma feed_no_ack: "feed d bs = Some (d', out) \<Longrightarrow> no_ack d' = no_ack d"
  by (induction bs arbitrary: d d' out) (fastforce dest: feed_byte_no_ack split: option.splits)+

lemma read_once_decoder:
  "decoder (snd (read_once s)) = decoder s
   \<or> (\<exists>buf out. feed (decoder s) buf = Some (decoder (snd (read_once s)), out))"
  by (auto simp: read_once_def stream_read_def split: list.splits prod.splits read_result.splits
      option.splits if_splits)

lemma client_inv_read: "client_inv s \<Longrightarrow> client_inv (snd (read_once s))"
  using read_once_decoder [of s] read_once_frame [of s "fst (read_once s)" "snd (read_once s)"]
  by (auto simp: client_inv_def dest: feed_inv feed_no_ack)

interpretation ci: stream_invariant client_inv
proof
  fix s bs assume "client_inv s" then show "client_inv (snd (stream_write bs s))"
    by (auto simp: client_inv_def stream_write_def split: list.splits option.splits)
next
  fix s assume "client_inv s" then show "client_inv (snd (read_once s))"
    by (rule client_inv_read)
next
  fix s assume "client_inv s"
  then show "client_inv (s\<lparr>client_no_ack := True, decoder := set_no_ack True (decoder s)\<rparr>)"
    by (simp add: client_inv_def decoder_inv_set_no_ack) (simp add: set_no_ack_def)
qed (auto simp: client_inv_def set_read_timeout_def)

interpretation out: stream_invariant "\<lambda>s. prefix w (written s)" for w
proof
  fix s :: GdbRemote assume "prefix w (written s)" then show "prefix w (written (snd (read_once s)))"
    using read_once_frame [of s "fst (read_once s)" "snd (read_once s)"] by simp
qed (auto simp: set_read_timeout_def stream_write_def split: list.splits option.splits
      intro: prefix_order.trans)

lemma client_inv_connect [inv_intros]: "client_inv (connect rs ws)"
  by (simp add: client_inv_def connect_def decoder_inv_new) (simp add: decoder_new_def)

section \<open>No panics\<close>

lemma read_once_no_panic: "client_inv s \<Longrightarrow> fst (read_once s) \<noteq> Panic"
proof -
  assume "client_inv s"
  then have "feed (decoder s) buf \<noteq> None" for buf
    using feed_total [of "decoder s" buf] by (auto simp: client_inv_def)
  moreover have "decoder (snd (stream_read s)) = decoder s" "fst (stream_read s) \<noteq> Panic"
    by (auto simp: stream_read_def split: list.splits prod.splits read_result.splits)
  ultimately show ?thesis
    by (cases "stream_read s"; cases "fst (stream_read s)")
      (auto simp: read_once_def simp del: not_None_eq split: option.splits)
qed

lemma next_decoded_no_panic: "client_inv s \<Longrightarrow> fst (next_decoded s) \<noteq> Panic"
proof (induction s rule: next_decoded.induct)
  case (1 s)
  show ?case
  proof (cases "pending s")
    case (Cons d ds)
    then show ?thesis by (simp add: next_decoded_pending)
  next
    case Nil
    obtain r s1 where r: "read_once s = (r, s1)" by (cases "read_once s")
    with read_once_no_panic [OF "1.prems"] client_inv_read [OF "1.prems"]
    have "r \<noteq> Panic" "client_inv s1" by auto
    with "1.IH" [OF Nil r [symmetric]] r show ?thesis
      by (cases r) (auto simp: next_decoded_read [OF Nil])
  qed
qed

lemma stream_write_no_panic [simp]: "fst (stream_write bs s) \<noteq> Panic"
  by (auto simp: stream_write_def split: list.splits option.splits)

lemma ack_packet_no_panic [simp]: "ack_packet s \<noteq> (Panic, s')"
  by (metis ack_packet_def fst_conv result.distinct(3) stream_write_no_panic)

lemma wait_reply_loop_no_panic: "client_inv s \<Longrightarrow> fst (wait_reply_loop s) \<noteq> Panic"
proof (induction s rule: wait_reply_loop.induct)
  case (1 s)
  obtain r s1 where r: "next_decoded s = (r, s1)" by (cases "next_decoded s")
  with next_decoded_no_panic [OF "1.prems"] ci.P_next_decoded [OF "1.prems"]
  have s1: "r \<noteq> Panic" "client_inv s1" by auto
  show ?case
  proof (cases r)
    case (Ok d)
    show ?thesis
    proof (cases d)
      case (Packet p)
      with Ok r show ?thesis
        by (auto simp: wait_reply_loop_unfold [of s] sret_def split: prod.splits result.splits)
    qed (use Ok r s1 "1.IH" [OF r [symmetric] Ok] in \<open>simp_all add: wait_reply_loop_unfold [of s]\<close>)
  qed (use r s1 in \<open>simp_all add: wait_reply_loop_unfold [of s]\<close>)
qed

text \<open>The condition under which a sequence does not panic, as the invariant carries it along.\<close>

definition no_panic :: "'a client_op \<Rightarrow> bool" where
  "no_panic m \<longleftrightarrow> (\<forall>s. client_inv s \<longrightarrow> fst (m s) \<noteq> Panic)"

lemma no_panic_sbind:
  assumes "no_panic m" "ci.keeps m" "\<And>a. no_panic (k a)"
  shows "no_panic (sbind m k)"
proof -
  have "fst (sbind m k s) \<noteq> Panic" if "client_inv s" for s
  proof (cases "m s")
    case (Pair r s1)
    have "client_inv s1" "r \<noteq> Panic"
      using ci.keepsD [OF assms(2) that Pair] assms(1) that Pair by (auto simp: no_panic_def)
    with assms(3) Pair show ?thesis by (cases r) (auto simp: no_panic_def)
  qed
  then show ?thesis by (simp add: no_panic_def)
qed

lemma no_panic_basic [simp]:
  "no_panic (sret a)" "no_panic (sthrow e)" "no_panic (slift r) \<longleftrightarrow> r \<noteq> Panic \<or> (\<forall>s. \<not> client_inv s)"
  "no_panic (stream_write bs)" "no_panic (expect_ok w b)"
  by (auto simp: no_panic_def sret_def sthrow_def slift_def expect_ok_def)

lemma no_panic_send [simp]: "no_panic (send_packet pl)"
proof -
  have "no_panic wait_reply"
    by (auto simp: no_panic_def wait_reply_def wait_reply_loop_no_panic split: list.splits)
  then have "no_panic (sbind (stream_write (encode_packet pl)) (\<lambda>_. wait_reply))"
    by (intro no_panic_sbind) simp_all
  then show ?thesis by (simp add: no_panic_def send_packet_def del: sbind.simps)
qed

lemma reply_text_no_panic [simp]: "rbind (reply_text w r) hex_decode \<noteq> Panic"
  by (simp add: rbind_eq_Panic reply_text_def)

lemma read_mem_loop_no_panic:
  assumes "client_inv s" "unat addr + len \<le> 2 ^ 64"
  shows "fst (read_mem_loop addr len mc off out s) \<noteq> Panic"
  using assms
proof (induction addr len mc off out s rule: read_mem_loop.induct)
  case (1 addr len mc off out s)
  let ?n = "min (len - off) mc"
  let ?m = "send_packet (bytes_of ''m'' @ fmt_hex (unat addr + off) @ bytes_of '','' @ fmt_hex ?n)"
  obtain r s1 where r: "?m s = (r, s1)" by (cases "?m s")
  have s1: "client_inv s1" "r \<noteq> Panic"
    using ci.keepsD [OF ci.keeps_send_packet "1.prems"(1) r] no_panic_send "1.prems"(1)
    unfolding no_panic_def by (simp, metis fst_conv r)
  note unf = read_mem_loop.simps [of addr len mc off out s]
  show ?case
  proof (cases "off < len")
    case True
    then have c: "\<not> 2 ^ 64 \<le> unat addr + off" using "1.prems"(2) by simp
    show ?thesis
    proof (cases r)
      case (Ok reply)
      let ?d = "rbind (reply_text (bytes_of ''mem'') reply) hex_decode"
      show ?thesis
      proof (cases ?d)
        case d: (Ok bs)
        show ?thesis
          using "1.IH" [OF True refl c r [symmetric] Ok _ d] True c r s1 Ok d "1.prems"(2)
          by (simp add: unf Let_def del: rbind_eq_Ok)
      qed (use Ok r True c reply_text_no_panic [of "bytes_of ''mem''" reply] in
          \<open>simp_all add: unf Let_def\<close>)
    qed (use r True c s1 in \<open>simp_all add: unf Let_def\<close>)
  qed (simp add: unf)
qed



section \<open>While the target runs\<close>

lemma send_packet_in_flight: "resume_in_flight s \<Longrightarrow> send_packet pl s = (Err (Protocol ResumeInFlight), s)"
  by (simp add: send_packet_def)



lemma utf8_lossy_head:
  assumes "utf8_lossy p = c # cs" "c < 0x80"
  shows "\<exists>ps. p = c # ps"
proof (cases p)
  case Nil
  with assms show ?thesis by simp
next
  case (Cons b bs)
  show ?thesis
  proof (cases "b < 0x80")
    case True
    with assms Cons show ?thesis by simp
  next
    case False
    obtain ok n where on: "utf8_step p = (ok, n)" by (cases "utf8_step p")
    then obtain m where "n = Suc m" using utf8_step_pos [of p] by (cases n) auto
    with on Cons have "utf8_lossy p = (if ok then b # take m bs else [0xEF, 0xBF, 0xBD]) @ utf8_lossy (drop n p)"
      by (subst utf8_lossy.simps) simp
    with assms have "c = (if ok then b else 0xEF)" by (auto split: if_splits)
    with False assms(2) show ?thesis by (auto split: if_splits)
  qed
qed

lemma classify_stop_is_stop:
  assumes "classify_stop p = Some r" shows "is_stop p"
proof -
  obtain c cs where l: "utf8_lossy p = c # cs" and c: "c \<in> {0x54, 0x53, 0x57, 0x58}"
    using assms by (cases "utf8_lossy p")
      (auto simp: classify_stop_def starts_with_def Let_def split: if_splits)
  then have "c < 0x80" by auto
  from utf8_lossy_head [OF l this] c show ?thesis by (auto simp: is_stop_def)
qed

lemma is_stop_classify: "is_stop p \<Longrightarrow> classify_stop p \<noteq> None"
  by (cases p) (auto simp: is_stop_def classify_stop_def starts_with_def Let_def)

lemma rbind_Err: "rbind m k = Err e \<longleftrightarrow> m = Err e \<or> (\<exists>a. m = Ok a \<and> k a = Err e)"
  by (cases m) auto

lemma parse_stop_reply_not_Io: "parse_stop_reply p \<noteq> Err (Io e)"
proof -
  have u: "parse_u64_hex v \<noteq> Err (Io e)" for v by (simp add: parse_u64_hex_def split: option.splits)
  have t: "stop_thread v th \<noteq> Err (Io e)" for v th
    by (simp add: stop_thread_def Let_def rbind_Err u)
  have f: "stop_field f acc \<noteq> Err (Io e)" for f acc
    by (cases acc) (auto simp: stop_field_def Let_def rbind_Err t split: option.splits)
  have "stop_fields fs acc \<noteq> Err (Io e)" for fs acc
    by (induction fs arbitrary: acc) (auto simp: rbind_Err f)
  then show ?thesis
    by (auto simp: parse_stop_reply_def Let_def rbind_Err split: option.splits)
qed

lemma classify_stop_not_Io: "classify_stop p \<noteq> Some (Err (Io e))"
  by (auto simp: classify_stop_def Let_def parse_stop_reply_not_Io)

text \<open>The result of waiting, the effect on the stream, and the flag.\<close>

definition wait_post :: "GdbRemote \<Rightarrow> (StopInfo, GdbError) result \<Rightarrow> GdbRemote \<Rightarrow> bool" where
  "wait_post s r s' \<longleftrightarrow> only_acks s s' \<and> orphan_replies s' = orphan_replies s
     \<and> (is_Ok r \<longrightarrow> \<not> resume_in_flight s')
     \<and> ((\<exists>e. r = Err (Io e)) \<longrightarrow> resume_in_flight s' = resume_in_flight s)"

lemma wait_post_frame: "recv_frame s s1 \<Longrightarrow> wait_post s1 r s' \<Longrightarrow> wait_post s r s'"
  by (auto simp: wait_post_def recv_frame_def intro: only_acks_trans)

lemma recv_frame_wait_post: "recv_frame s s' \<Longrightarrow> \<not> is_Ok r \<Longrightarrow> wait_post s r s'"
  by (auto simp: wait_post_def recv_frame_def)

lemma wait_stop_post: "wait_stop s = (r, s') \<Longrightarrow> wait_post s r s'"
proof (induction s arbitrary: r s' rule: wait_stop.induct)
  case (1 s)
  obtain q s1 where q: "next_decoded s = (q, s1)" by (cases "next_decoded s")
  note f1 = recv_frame_next [OF q]
  obtain a s2 where a: "ack_packet s1 = (a, s2)" by (cases "ack_packet s1")
  note f2 = recv_frame_trans [OF f1 recv_frame_ack [OF a]]
  show ?case
  proof (cases q)
    case (Ok d)
    show ?thesis
    proof (cases d)
      case (Packet p)
      note unf = wait_stop.simps [of s] q Ok Packet a
      show ?thesis
      proof (cases a)
        case aok: (Ok u)
        let ?s3 = "clear_resume_if_stop p s2"
        show ?thesis
        proof (cases "classify_stop p")
          case None
          then have "\<not> is_stop p" using is_stop_classify by blast
          then have s3: "?s3 = s2" by (simp add: clear_resume_if_stop_def)
          have w: "wait_stop ?s3 = (r, s')" using "1.prems" aok None by (simp add: unf Let_def)
          from "1.IH"(1) [OF q [symmetric] Ok Packet a [symmetric] aok refl None w] f2 show ?thesis
            unfolding s3 by (blast intro: wait_post_frame)
        next
          case (Some res)
          with classify_stop_is_stop [OF Some] have s': "r = res" "\<not> resume_in_flight s'"
            "s' = s2 \<or> s' = s2\<lparr>resume_in_flight := False\<rparr>"
            using "1.prems" aok by (auto simp: unf Let_def clear_resume_if_stop_def split: if_splits)
          moreover have "r \<noteq> Err (Io e)" for e using Some s'(1) classify_stop_not_Io by auto
          ultimately show ?thesis
            using f2 by (auto simp: wait_post_def recv_frame_def only_acks_def)
        qed
      qed (use "1.prems" f2 in \<open>auto simp: unf intro: recv_frame_wait_post\<close>)
    qed (use "1.prems" q Ok f1 "1.IH"(2-4) [OF q [symmetric] Ok] in
        \<open>auto simp: wait_stop.simps [of s] intro: wait_post_frame\<close>)
  qed (use "1.prems" q f1 in \<open>auto simp: wait_stop.simps [of s] intro: recv_frame_wait_post\<close>)
qed

text \<open>
  \<open>wait_stop\<close> writes nothing but acknowledgements, gives no orphaned reply away, and
  clears the running flag exactly when it has read the stop: a result means the flag is clear, and
  a stream error or timeout leaves it as it was.
\<close>

lemma wait_stop_clears_flag_on_stop:
  assumes "wait_stop s = (r, s')"
  shows "(\<exists>k. written s' = written s @ replicate k 0x2B)
    \<and> orphan_replies s' = orphan_replies s
    \<and> (is_Ok r \<longrightarrow> \<not> resume_in_flight s')
    \<and> ((\<exists>e. r = Err (Io e)) \<longrightarrow> resume_in_flight s' = resume_in_flight s)"
  using wait_stop_post [OF assms] by (simp add: wait_post_def only_acks_def)

lemma wait_stop_clears_flag_on_stop_example:
  "resume_in_flight (snd (wait_stop ((connect [] [])\<lparr>resume_in_flight := True\<rparr>)))"
proof -
  let ?s = "(connect [] [])\<lparr>resume_in_flight := True\<rparr>"
  have w: "wait_stop ?s = (Err (Io WouldBlock), ?s\<lparr>now := 5000\<rparr>)"
    by (subst wait_stop.simps)
      (simp add: next_decoded_read connect_def read_once_def stream_read_def)
  from wait_stop_clears_flag_on_stop [OF w] w show ?thesis by simp
qed

lemma poll_read_frame:
  assumes "poll_read s = (r, s')"
  shows "written s' = written s \<and> orphan_replies s' = orphan_replies s
    \<and> resume_in_flight s' = resume_in_flight s"
proof (cases "read_once s")
  case (Pair q s1)
  from read_once_frame [OF Pair] show ?thesis
    using assms Pair by (auto simp: poll_read_def split: result.splits prod.splits if_splits)
qed

lemma poll_packet_frame:
  assumes "poll_packet t s = (r, s')"
  shows "written s' = written s \<and> orphan_replies s' = orphan_replies s
    \<and> resume_in_flight s' = resume_in_flight s"
proof (cases "pop_packet (pending s)")
  case (Pair p ds)
  show ?thesis
  proof (cases p)
    case None
    let ?s1 = "s\<lparr>pending := ds, read_timeout := t\<rparr>"
    obtain q s2 where q: "poll_read ?s1 = (q, s2)" by (cases "poll_read ?s1")
    from poll_read_frame [OF q] show ?thesis
      using assms Pair None q
      by (auto simp: poll_packet_def set_read_timeout_def slift_def Let_def split: if_splits)
  qed (use assms Pair in \<open>auto simp: poll_packet_def\<close>)
qed

definition try_post :: "nat \<Rightarrow> GdbRemote \<Rightarrow> (StopInfo option, GdbError) result \<Rightarrow> GdbRemote \<Rightarrow> bool" where
  "try_post deadline s r s' \<longleftrightarrow> written s' = written s
     \<and> (r = Ok None \<longrightarrow> deadline \<le> now s' \<and> resume_in_flight s' = resume_in_flight s)
     \<and> (\<forall>i. r = Ok (Some i) \<longrightarrow> \<not> resume_in_flight s')
     \<and> (\<exists>qs. orphan_replies s' = orphan_replies s @ qs \<and> (\<forall>q \<in> set qs. \<not> is_stop q))"

lemma try_wait_loop_post: "try_wait_loop deadline s = (r, s') \<Longrightarrow> try_post deadline s r s'"
proof (induction deadline s arbitrary: r s' rule: try_wait_loop.induct)
  case (1 deadline s)
  obtain q s1 where q: "poll_packet (max (deadline - now s) 1) s = (q, s1)"
    by (cases "poll_packet (max (deadline - now s) 1) s")
  note f = poll_packet_frame [OF q]
  note unf = try_wait_loop.simps [of deadline s, unfolded q]
  show ?case
  proof (cases q)
    case (Ok m)
    show ?thesis
    proof (cases m)
      case None
      show ?thesis
      proof (cases "deadline \<le> now s1")
        case True
        with "1.prems" Ok None f show ?thesis by (auto simp: unf try_post_def)
      next
        case False
        with "1.prems" Ok None have "try_wait_loop deadline s1 = (r, s')" by (simp add: unf)
        from "1.IH"(1) [OF q [symmetric] Ok None False this] f show ?thesis
          by (auto simp: try_post_def)
      qed
    next
      case (Some p)
      show ?thesis
      proof (cases "classify_stop p")
        case None
        let ?s2 = "s1\<lparr>orphan_replies := orphan_replies s1 @ [p]\<rparr>"
        have ns: "\<not> is_stop p" using None is_stop_classify by blast
        have "try_wait_loop deadline ?s2 = (r, s')" using "1.prems" Ok Some None by (simp add: unf)
        from "1.IH"(2) [OF q [symmetric] Ok Some None this] f ns show ?thesis
          by (auto simp: try_post_def)
      next
        case res: (Some res)
        with "1.prems" Ok Some f show ?thesis by (auto simp: unf try_post_def)
      qed
    qed
  qed (use "1.prems" f in \<open>auto simp: unf try_post_def\<close>)
qed



section \<open>A command and its answer\<close>

text \<open>A script of reads that carries bytes and no error.\<close>

fun script_bytes :: "(nat \<times> read_result) list \<Rightarrow> bytes option" where
  "script_bytes [] = Some []"
| "script_bytes ((dt, RErr e) # rs) = None"
| "script_bytes ((dt, RData bs) # rs) = (if bs = [] then None else map_option ((@) bs) (script_bytes rs))"

text \<open>No proper prefix of a frame completes a message.\<close>

lemma feed_prefix_silent:
  assumes "feed d (xs @ ys) = Some (d', [])" shows "\<exists>d1. feed d xs = Some (d1, [])"
  using assms by (auto simp: feed_append_bind bind_eq_Some_conv split: prod.splits)

lemma feed_frame_prefix:
  assumes "dstate d = Idle" "clean p" "encode_packet p = xs @ ys" "ys \<noteq> []"
  shows "\<exists>d1. feed d xs = Some (d1, [])"
proof -
  let ?c = "checksum p"
  let ?f = "0x24 # p @ [0x23, hex_digit (drop_bit 4 ?c)]"
  have e: "encode_packet p = ?f @ [hex_digit (?c AND 0xf)]" by (simp add: encode_packet_def Let_def)
  let ?d = "d\<lparr>dstate := Data, payload := p\<rparr>"
  have 1: "feed d (0x24 # p) = Some (?d, [])"
    using assms(1,2) by (simp add: feed_byte_def feed_payload)
  have 2: "feed ?d [0x23, hex_digit (drop_bit 4 ?c)]
      = Some (?d\<lparr>dstate := Checksum [hex_digit (drop_bit 4 ?c), 0] 1\<rparr>, [])"
    by (simp add: feed_byte_def checksum_byte_def)
  have "feed d ?f = Some (?d\<lparr>dstate := Checksum [hex_digit (drop_bit 4 ?c), 0] 1\<rparr>, [])"
    using feed_append_Some [OF 1 2] by simp
  moreover have "?f = xs @ butlast ys"
    using assms(3,4) e by (metis butlast_append butlast_snoc)
  ultimately show ?thesis using feed_prefix_silent by metis
qed

lemma take_frame_prefix:
  assumes "dstate d = Idle" "clean p" "feed d xs = Some (d1, [])" "encode_packet p = xs @ b @ ys" "ys \<noteq> []"
  shows "\<exists>d2. feed d1 b = Some (d2, [])"
proof -
  obtain d2 where "feed d (xs @ b) = Some (d2, [])"
    using feed_frame_prefix [of d p "xs @ b" ys] assms by auto
  then show ?thesis using assms(3) by (auto simp: feed_append_bind split: prod.splits option.splits)
qed

lemma next_decoded_frame_script:
  assumes "pending s = []" "dstate d0 = Idle" "clean p"
    and "feed d0 xs = Some (decoder s, [])"
    and "reads s = rs @ rest" "script_bytes rs = Some ys" "xs @ ys = encode_packet p" "ys \<noteq> []"
  shows "\<exists>s'. next_decoded s = (Ok (Packet p), s') \<and> reads s' = rest \<and> pending s' = []
    \<and> decoder s' = d0\<lparr>dstate := Idle, payload := []\<rparr>"
  using assms
proof (induction "read_size rs" arbitrary: s rs xs ys rule: less_induct)
  case less
  then obtain dt bs rs' where rs: "rs = (dt, RData bs) # rs'" and bs: "bs \<noteq> []"
    by (cases rs rule: script_bytes.cases) (auto split: if_splits)
  then obtain zs where zs: "script_bytes rs' = Some zs" "ys = bs @ zs" using less.prems(6) by auto
  define rs2 where "rs2 = (if length bs \<le> 4096 then rs' else (0, RData (drop 4096 bs)) # rs')"
  define b where "b = take 4096 bs"
  define ws where "ws = drop 4096 bs @ zs"
  have b: "b \<noteq> []" using bs by (simp add: b_def)
  have sb: "script_bytes rs2 = Some ws" using zs(1) by (auto simp: rs2_def ws_def)
  have ys: "ys = b @ ws" by (simp add: zs b_def ws_def)
  have sr: "stream_read s = (Ok b, s\<lparr>now := now s + dt, reads := rs2 @ rest\<rparr>)"
    using less.prems(5) rs by (auto simp: stream_read_def rs2_def b_def)
  show ?case
  proof (cases "ws = []")
    case True
    then have "feed (decoder s) b = Some (d0\<lparr>dstate := Idle, payload := []\<rparr>, [Packet p])"
      using feed_encode [of d0 p] less.prems(2-4,7) ys
      by (auto simp flip: less.prems(7) simp: feed_append_bind split: option.splits)
    moreover have "rs2 = []" using sb True
      by (cases rs2 rule: script_bytes.cases) (auto split: if_splits)
    ultimately show ?thesis
      using sr b less.prems(1)
      by (auto simp: next_decoded_read read_once_def next_decoded_pending)
  next
    case False
    obtain d2 where d2: "feed (decoder s) b = Some (d2, [])"
      using take_frame_prefix [OF less.prems(2,3,4) _ False, of b] less.prems(7) ys by metis
    let ?s1 = "s\<lparr>now := now s + dt, reads := rs2 @ rest, decoder := d2, pending := []\<rparr>"
    have ro: "read_once s = (Ok (), ?s1)" using sr b d2 less.prems(1) by (simp add: read_once_def)
    have "read_size rs2 < read_size rs" using rs bs by (auto simp: rs2_def)
    moreover have "feed d0 (xs @ b) = Some (d2, [])"
      using feed_append_Some [OF less.prems(4) d2] by simp
    ultimately have "\<exists>s'. next_decoded ?s1 = (Ok (Packet p), s') \<and> reads s' = rest \<and> pending s' = []
        \<and> decoder s' = d0\<lparr>dstate := Idle, payload := []\<rparr>"
      using less.hyps [of rs2 ?s1 "xs @ b" ws] less.prems(2,3,7) sb ys False by simp
    then show ?thesis using ro less.prems(1) by (simp add: next_decoded_read)
  qed
qed

text \<open>A client between commands: nothing queued, nothing running, every write goes out.\<close>

definition quiescent :: "GdbRemote \<Rightarrow> bool" where
  "quiescent s \<longleftrightarrow> \<not> resume_in_flight s \<and> orphan_replies s = [] \<and> pending s = []
     \<and> dstate (decoder s) = Idle \<and> write_fails s = []"

lemma stream_write_quiescent:
  "write_fails s = [] \<Longrightarrow> stream_write bs s = (Ok (), s\<lparr>written := written s @ bs\<rparr>)"
  by (simp add: stream_write_def)

lemma send_packet_answered:
  assumes q: "quiescent s" and c: "clean answer"
    and r: "reads s = rs @ rest" "script_bytes rs = Some (encode_packet answer)"
  shows "\<exists>s'. send_packet pl s = (Ok answer, s') \<and> quiescent s' \<and> reads s' = rest
    \<and> packet_size s' = packet_size s \<and> client_no_ack s' = client_no_ack s
    \<and> written s' = written s @ encode_packet pl @ (if client_no_ack s then [] else [0x2B])"
proof -
  let ?s1 = "s\<lparr>written := written s @ encode_packet pl\<rparr>"
  have nz: "encode_packet answer \<noteq> []" by (simp add: encode_packet_def Let_def)
  obtain s2 where s2: "next_decoded ?s1 = (Ok (Packet answer), s2)" "reads s2 = rest" "pending s2 = []"
    "dstate (decoder s2) = Idle"
    using next_decoded_frame_script [of ?s1 "decoder s" answer "[]" rs rest "encode_packet answer"] q c r nz
    by (auto simp: quiescent_def)
  note f = next_decoded_frame [OF s2(1)]
  have "send_packet pl s = sbind ack_packet (\<lambda>_. sret answer) s2"
    using q s2(1) by (simp add: send_packet_def quiescent_def stream_write_def wait_reply_def wait_reply_loop_unfold)
  moreover have "write_fails s2 = []" using f q by (simp add: quiescent_def)
  ultimately have "send_packet pl s = (Ok answer, if client_no_ack s2 then s2
      else s2\<lparr>written := written s2 @ [0x2B]\<rparr>)"
    by (simp add: ack_packet_def stream_write_quiescent sret_def)
  then show ?thesis using f s2 q by (auto simp: quiescent_def)
qed

text \<open>
  (C20) A command that the stub answers is answered: whatever way the frame of the answer is cut
  into reads, \<open>send_packet\<close> returns its payload, has sent the frame of the command, followed
  by an acknowledgement when these are on, and leaves the client ready for the next command.
\<close>

theorem send_packet_returns_the_answer:
  assumes "quiescent s" "clean answer" "reads s = rs @ rest"
    and "script_bytes rs = Some (encode_packet answer)"
  shows "\<exists>s'. send_packet pl s = (Ok answer, s') \<and> quiescent s' \<and> reads s' = rest
    \<and> written s' = written s @ encode_packet pl @ (if client_no_ack s then [] else [0x2B])"
  using send_packet_answered [OF assms] by blast

theorem send_packet_returns_the_answer_witness:
  "\<exists>s'. send_packet (bytes_of ''D'') (connect [(1, RData [0x24, 0x4f]), (2, RData [0x4b, 0x23, 0x39, 0x61])] [])
      = (Ok (bytes_of ''OK''), s') \<and> quiescent s' \<and> reads s' = []
    \<and> written s' = bytes_of ''$D#44+''"
proof -
  let ?rs = "[(1, RData [0x24, 0x4f]), (2, RData [0x4b, 0x23, 0x39, 0x61])]"
  have "quiescent (connect ?rs [])" "clean (bytes_of ''OK'')"
    "reads (connect ?rs []) = ?rs @ []" "script_bytes ?rs = Some (encode_packet (bytes_of ''OK''))"
    by (simp_all add: quiescent_def connect_def decoder_new_def encode_packet_def checksum_def
        hex_digit_def drop_bit_eq_div)
  from send_packet_returns_the_answer [OF this, of "bytes_of ''D''"] show ?thesis
    by (simp add: connect_def encode_packet_def checksum_def hex_digit_def drop_bit_eq_div)
qed

section \<open>Reading memory\<close>

fun chunks_of :: "nat \<Rightarrow> 'a list \<Rightarrow> 'a list list" where
  "chunks_of n xs = (if n = 0 \<or> xs = [] then [] else take n xs # chunks_of n (drop n xs))"

declare chunks_of.simps [simp del]

lemma hexd_props: "n < 16 \<Longrightarrow> hexd n \<noteq> 0x45 \<and> hexd n \<noteq> 0x23 \<and> hexd n \<noteq> 0x24"
proof -
  assume "n < 16"
  then have "n \<in> set [0..<16]" by simp
  then show ?thesis by (simp add: upt_rec) (elim disjE; simp add: hexd_def)
qed

lemma fmt_02x_props: "c \<in> set (fmt_02x b) \<Longrightarrow> c \<noteq> 0x45 \<and> c \<noteq> 0x23 \<and> c \<noteq> 0x24"
proof -
  have "unat b div 16 < 16" "unat b mod 16 < 16" using unsigned_less [where 'a = nat, of b] by simp_all
  then show "c \<in> set (fmt_02x b) \<Longrightarrow> ?thesis"
    using hexd_props [of "unat b div 16"] hexd_props [of "unat b mod 16"] by (auto simp: fmt_02x_def)
qed

lemma hex_encode_props: "clean (hex_encode d)" "hex_encode d \<noteq> [] \<Longrightarrow> hd (hex_encode d) \<noteq> 0x45"
proof -
  have "c \<in> set (hex_encode d) \<Longrightarrow> c \<noteq> 0x45 \<and> c \<noteq> 0x23 \<and> c \<noteq> 0x24" for c
    by (auto simp: hex_encode_def dest: fmt_02x_props)
  then show "clean (hex_encode d)" "hex_encode d \<noteq> [] \<Longrightarrow> hd (hex_encode d) \<noteq> 0x45"
    by (auto simp: clean_def)
qed

lemma mem_reply_decodes: "rbind (reply_text w (hex_encode d)) hex_decode = Ok d"
  by (simp add: reply_text_def is_utf8_ascii hex_decode_encode del: rbind_eq_Ok)

lemma read_mem_loop_answered:
  assumes "quiescent s" "0 < mc" "unat addr + len \<le> 2 ^ 64" "off + length m = len"
    and "list_all2 (\<lambda>rs c. script_bytes rs = Some (encode_packet (hex_encode c))) rss (chunks_of mc m)"
    and "reads s = concat rss @ rest"
  shows "\<exists>s'. read_mem_loop addr len mc off out s = (Ok (out @ m), s') \<and> reads s' = rest \<and> quiescent s'"
  using assms
proof (induction "length m" arbitrary: m off out s rss rule: less_induct)
  case less
  note unf = read_mem_loop.simps [of addr len mc off out s]
  show ?case
  proof (cases "m = []")
    case True
    then have "read_mem_loop addr len mc off out s = (Ok out, s)" using less.prems(4) unfolding unf by simp
    moreover have "rss = []" using True less.prems(5) by (simp add: chunks_of.simps)
    ultimately show ?thesis using True less.prems(1,6) by simp
  next
    case False
    let ?c = "take mc m" and ?m = "drop mc m"
    have ch: "chunks_of mc m = ?c # chunks_of mc ?m"
      using False less.prems(2) by (simp add: chunks_of.simps [of mc m])
    with less.prems(5) obtain rs rss' where rss: "rss = rs # rss'"
      "script_bytes rs = Some (encode_packet (hex_encode ?c))"
      "list_all2 (\<lambda>rs c. script_bytes rs = Some (encode_packet (hex_encode c))) rss' (chunks_of mc ?m)"
      by (auto simp: list_all2_Cons2)
    let ?req = "bytes_of ''m'' @ fmt_hex (unat addr + off) @ bytes_of '','' @ fmt_hex (min (len - off) mc)"
    obtain s1 where s1: "send_packet ?req s = (Ok (hex_encode ?c), s1)" "quiescent s1"
      "reads s1 = concat rss' @ rest"
      using send_packet_answered [OF less.prems(1) hex_encode_props(1) _ rss(2), of "concat rss' @ rest" ?req]
        less.prems(6) rss(1) by auto
    have n: "length ?c = min (len - off) mc" "?c \<noteq> []" "off < len" "unat addr + off < 2 ^ 64"
      using less.prems(2,3,4) False by (auto simp flip: length_greater_0_conv)
    have h: "\<not> (hex_encode ?c \<noteq> [] \<and> hd (hex_encode ?c) = 0x45)"
      using hex_encode_props(2) [of ?c] by blast
    have "read_mem_loop addr len mc off out s
        = read_mem_loop addr len mc (off + length ?c) (out @ ?c) s1"
      using s1(1) n h mem_reply_decodes [of "bytes_of ''mem''" ?c]
      by (auto simp add: unf Let_def simp del: rbind_eq_Ok length_take)
    moreover have "length ?m < length m" using False less.prems(2) by simp
    ultimately show ?thesis
      using less.hyps [of ?m s1 "off + length ?c" rss' "out @ ?c"] s1(2,3) less.prems(2-4) rss(3) n(1)
      by auto
  qed
qed



end
