(* ===== verification/Pool.thy ===== *)
theory Pool
  imports Prelude
begin

text \<open>
  The generational object pool of \<open>src/pool.rs\<close>, which holds the windows, regions and other
  long-lived objects of the user interface. An identifier is a slot and the sequence number the
  slot had when the object was added. The locale \<open>generational_map\<close> is what users of a pool
  rely on: lookup, add, remove and clear behave as a finite map, and an identifier that was removed
  stays dead for ever, although its slot is reused. The build checks arithmetic for overflow, so
  the counter of sequence numbers panics at the end of its 64-bit range instead of wrapping.
\<close>

section \<open>The pool\<close>

record Id =
  slot :: nat
  seqno :: nat

record 'a Slot =
  slot_seqno :: nat
  val :: "'a option"

record 'a Pool =
  slots :: "'a Slot list"
  vacant :: "nat list"
  next_seqno :: nat

definition default_Id :: Id where
  "default_Id = \<lparr>slot = 2 ^ 64 - 1, seqno = 2 ^ 64 - 1\<rparr>"

definition pool_new :: "'a Pool" where
  "pool_new = \<lparr>slots = [], vacant = [], next_seqno = 1\<rparr>"

definition add :: "'a \<Rightarrow> 'a Pool \<Rightarrow> (Id \<times> 'a Pool, unit) result" where
  "add x p = (let sq = next_seqno p in
     if sq + 1 \<ge> 2 ^ 64 then Panic
     else (let p = p\<lparr>next_seqno := sq + 1\<rparr> in
       if vacant p \<noteq> [] then
         (let sl = last (vacant p) in
          if sl < length (slots p)
          then Ok (\<lparr>slot = sl, seqno = sq\<rparr>,
                 p\<lparr>vacant := butlast (vacant p),
                   slots := (slots p)[sl := \<lparr>slot_seqno = sq, val = Some x\<rparr>]\<rparr>)
          else Panic)
       else Ok (\<lparr>slot = length (slots p), seqno = sq\<rparr>,
              p\<lparr>slots := slots p @ [\<lparr>slot_seqno = sq, val = Some x\<rparr>]\<rparr>)))"

definition remove :: "Id \<Rightarrow> 'a Pool \<Rightarrow> 'a option \<times> 'a Pool" where
  "remove i p = (if slot i \<ge> length (slots p) then (None, p)
     else (let s = slots p ! slot i in
       if slot_seqno s \<noteq> seqno i then (None, p)
       else (let v = val s; p = p\<lparr>slots := (slots p)[slot i := s\<lparr>val := None\<rparr>]\<rparr> in
         (v, if v \<noteq> None then p\<lparr>vacant := vacant p @ [slot i]\<rparr> else p))))"

text \<open>The loop of \<open>clear\<close>, from slot \<open>k\<close> on.\<close>

fun clear_from :: "nat \<Rightarrow> 'a Slot list \<Rightarrow> 'a Slot list \<times> nat list" where
  "clear_from k [] = ([], [])"
| "clear_from k (s # ss) = (let (ss', vs) = clear_from (Suc k) ss in
     (s\<lparr>val := None\<rparr> # ss', (if val s \<noteq> None then k # vs else vs)))"

definition clear :: "'a Pool \<Rightarrow> 'a Pool" where
  "clear p = (let (ss, vs) = clear_from 0 (slots p) in p\<lparr>slots := ss, vacant := vacant p @ vs\<rparr>)"

definition try_get :: "'a Pool \<Rightarrow> Id \<Rightarrow> 'a option" where
  "try_get p i = (if slot i \<ge> length (slots p) then None
     else (let s = slots p ! slot i in if slot_seqno s \<noteq> seqno i then None else val s))"

text \<open>Writing through \<open>try_get_mut\<close>: whether there was something to write to, and the pool.\<close>

definition try_set :: "Id \<Rightarrow> 'a \<Rightarrow> 'a Pool \<Rightarrow> bool \<times> 'a Pool" where
  "try_set i x p = (if slot i \<ge> length (slots p) then (False, p)
     else (let s = slots p ! slot i in
       if slot_seqno s \<noteq> seqno i \<or> val s = None then (False, p)
       else (True, p\<lparr>slots := (slots p)[slot i := s\<lparr>val := Some x\<rparr>]\<rparr>)))"

definition get :: "'a Pool \<Rightarrow> Id \<Rightarrow> ('a, unit) result" where
  "get p i = (case try_get p i of Some x \<Rightarrow> Ok x | None \<Rightarrow> Panic)"

definition is_empty :: "'a Pool \<Rightarrow> (bool, unit) result" where
  "is_empty p = (if length (slots p) \<ge> length (vacant p)
     then Ok (length (slots p) = length (vacant p)) else Panic)"

text \<open>The while loop of \<open>PoolIter::next\<close>, \<open>next\<close>, and running the iterator to its end.\<close>

function skip_vacant :: "'a Slot list \<Rightarrow> nat \<Rightarrow> nat" where
  "skip_vacant ss k = (if k < length ss \<and> val (ss ! k) = None then skip_vacant ss (Suc k) else k)"
  by pat_completeness auto
termination by (relation "measure (\<lambda>(ss, k). length ss - k)") auto

declare skip_vacant.simps [simp del]

definition iter_next :: "'a Pool \<Rightarrow> nat \<Rightarrow> ((Id \<times> 'a) option, unit) result \<times> nat" where
  "iter_next p k = (let k = skip_vacant (slots p) k in
     (if k < length (slots p)
      then (case val (slots p ! k) of
          Some x \<Rightarrow> Ok (Some (\<lparr>slot = k, seqno = slot_seqno (slots p ! k)\<rparr>, x))
        | None \<Rightarrow> Panic)
      else Ok None, Suc k))"

lemma skip_vacant_ge: "k \<le> skip_vacant ss k"
proof (induction ss k rule: skip_vacant.induct)
  case (1 ss k)
  then show ?case by (subst skip_vacant.simps) auto
qed

lemma iter_next_decr:
  "iter_next p k = (Ok (Some e), k') \<Longrightarrow> length (slots p) - k' < length (slots p) - k"
  using skip_vacant_ge [of k "slots p"] by (auto simp: iter_next_def Let_def split: if_splits)

function iter_from :: "'a Pool \<Rightarrow> nat \<Rightarrow> ((Id \<times> 'a) list, unit) result" where
  "iter_from p k = (case iter_next p k of
      (Ok None, _) \<Rightarrow> Ok []
    | (Ok (Some e), k') \<Rightarrow> rbind (iter_from p k') (\<lambda>es. Ok (e # es))
    | (Err u, _) \<Rightarrow> Err u
    | (Panic, _) \<Rightarrow> Panic)"
  by pat_completeness auto
termination
  by (relation "measure (\<lambda>(p, k). length (slots p) - k)") (auto dest: iter_next_decr [OF sym])

declare iter_from.simps [simp del]

definition iter :: "'a Pool \<Rightarrow> ((Id \<times> 'a) list, unit) result" where
  "iter p = iter_from p 0"

text \<open>\<open>PoolIterMut\<close> walks the slots with a counter of its own.\<close>

fun iter_mut_from :: "nat \<Rightarrow> 'a Slot list \<Rightarrow> (Id \<times> 'a) list" where
  "iter_mut_from k [] = []"
| "iter_mut_from k (s # ss) = (case val s of
      None \<Rightarrow> iter_mut_from (Suc k) ss
    | Some x \<Rightarrow> (\<lparr>slot = k, seqno = slot_seqno s\<rparr>, x) # iter_mut_from (Suc k) ss)"

definition iter_mut :: "'a Pool \<Rightarrow> (Id \<times> 'a) list" where
  "iter_mut p = iter_mut_from 0 (slots p)"

section \<open>Invariant\<close>

text \<open>The vacant list holds each slot without a value exactly once, and the sequence
  numbers in use lie below the counter, which is in its range.\<close>

definition pool_inv :: "'a Pool \<Rightarrow> bool" where
  "pool_inv p \<longleftrightarrow> distinct (vacant p)
     \<and> set (vacant p) = {k. k < length (slots p) \<and> val (slots p ! k) = None}
     \<and> (\<forall>s \<in> set (slots p). slot_seqno s < next_seqno p)
     \<and> next_seqno p < 2 ^ 64"

definition issued :: "'a Pool \<Rightarrow> Id \<Rightarrow> bool" where
  "issued p i \<longleftrightarrow> seqno i < next_seqno p"

lemma pool_inv_new [inv_intros]: "pool_inv pool_new"
  by (simp add: pool_inv_def pool_new_def)

lemma slot_seqno_less:
  "pool_inv p \<Longrightarrow> k < length (slots p) \<Longrightarrow> slot_seqno (slots p ! k) < next_seqno p"
  by (simp add: pool_inv_def)

lemma try_get_issued: "pool_inv p \<Longrightarrow> try_get p i = Some x \<Longrightarrow> issued p i"
  using slot_seqno_less [of p "slot i"]
  by (auto simp: try_get_def issued_def Let_def split: if_splits)

lemma add_cases:
  assumes "pool_inv p" "add x p = Ok (i, q)"
  shows "slot i < Suc (length (slots p)) \<and> seqno i = next_seqno p \<and> next_seqno q = Suc (next_seqno p)
    \<and> slots q = (if slot i < length (slots p) then (slots p)[slot i := \<lparr>slot_seqno = next_seqno p, val = Some x\<rparr>]
         else slots p @ [\<lparr>slot_seqno = next_seqno p, val = Some x\<rparr>])
    \<and> next_seqno q < 2 ^ 64 \<and> distinct (vacant q) \<and> set (vacant q) = set (vacant p) - {slot i}
    \<and> (slot i < length (slots p) \<longrightarrow> val (slots p ! slot i) = None)"
proof (cases "vacant p = []")
  case True
  with assms show ?thesis by (auto simp: add_def pool_inv_def Let_def split: if_splits)
next
  case False
  have l: "last (vacant p) \<in> set (vacant p)" using False by simp
  have "vacant p = butlast (vacant p) @ [last (vacant p)]" using False by simp
  moreover have "distinct (vacant p)" using assms(1) by (simp add: pool_inv_def)
  ultimately have "distinct (butlast (vacant p)) \<and> set (butlast (vacant p)) = set (vacant p) - {last (vacant p)}"
    by (metis Diff_insert_absorb Un_insert_right distinct_append distinct1_rotate empty_iff insert_iff
        list.set(1) list.simps(15) rotate1.simps(2) set_append set_rotate1 distinct.simps(2))
  with assms l False show ?thesis by (auto simp: add_def pool_inv_def Let_def split: if_splits)
qed

lemma add_total: "pool_inv p \<Longrightarrow> next_seqno p + 1 < 2 ^ 64 \<Longrightarrow> \<exists>i q. add x p = Ok (i, q)"
  using last_in_set [of "vacant p"] by (auto simp: add_def pool_inv_def Let_def)

lemma pool_inv_add [inv_intros]: "pool_inv p \<Longrightarrow> add x p = Ok (i, q) \<Longrightarrow> pool_inv q"
  using add_cases [of p x i q]
  by (auto simp: pool_inv_def nth_list_update nth_append less_Suc_eq split: if_splits
      dest!: set_update_subset_insert [THEN subsetD])

lemma try_get_add: "pool_inv p \<Longrightarrow> add x p = Ok (i, q) \<Longrightarrow> try_get q = (try_get p)(i \<mapsto> x)"
  using add_cases [of p x i q]
  by (auto simp: try_get_def fun_eq_iff nth_list_update nth_append less_Suc_eq Let_def pool_inv_def
      split: if_splits)

lemma remove_value: "fst (remove i p) = try_get p i"
  by (simp add: remove_def try_get_def Let_def)

lemma next_seqno_remove [simp]: "next_seqno (snd (remove i p)) = next_seqno p"
  by (simp add: remove_def Let_def)

lemma pool_inv_update:
  assumes "pool_inv p" "k < length (slots p)" "slot_seqno s = slot_seqno (slots p ! k)"
  shows "\<forall>s' \<in> set ((slots p)[k := s]). slot_seqno s' < next_seqno p"
  using assms slot_seqno_less [of p k] set_update_subset_insert [of "slots p" k s]
  by (auto simp: pool_inv_def)

lemma pool_inv_remove [inv_intros]: "pool_inv p \<Longrightarrow> pool_inv (snd (remove i p))"
  using pool_inv_update [of p "slot i" "(slots p ! slot i)\<lparr>val := None\<rparr>"]
  by (auto simp: remove_def pool_inv_def Let_def nth_list_update)

lemma try_get_remove: "pool_inv p \<Longrightarrow> try_get (snd (remove i p)) = (try_get p)(i := None)"
  by (auto simp: remove_def try_get_def fun_eq_iff Let_def nth_list_update)

lemma clear_from_spec:
  "clear_from k ss = (map (\<lambda>s. s\<lparr>val := None\<rparr>) ss,
     map ((+) k) (List.filter (\<lambda>j. val (ss ! j) \<noteq> None) [0..<length ss]))"
proof (induction k ss rule: clear_from.induct)
  case (2 k s ss)
  have "[0..<length (s # ss)] = 0 # map Suc [0..<length ss]"
    by (simp add: map_Suc_upt upt_conv_Cons del: upt_Suc)
  then show ?case
    using 2 by (auto simp: filter_map o_def simp del: upt_Suc)
qed simp

lemma next_seqno_clear [simp]: "next_seqno (clear p) = next_seqno p"
  by (simp add: clear_def clear_from_spec)

lemma pool_inv_clear [inv_intros]: "pool_inv p \<Longrightarrow> pool_inv (clear p)"
  by (auto simp: clear_def pool_inv_def clear_from_spec distinct_map)

lemma try_get_clear: "try_get (clear p) i = None"
  by (auto simp: clear_def clear_from_spec try_get_def Let_def)

lemma next_seqno_try_set [simp]: "next_seqno (snd (try_set i x p)) = next_seqno p"
  by (simp add: try_set_def Let_def)

lemma pool_inv_try_set [inv_intros]: "pool_inv p \<Longrightarrow> pool_inv (snd (try_set i x p))"
  using pool_inv_update [of p "slot i" "(slots p ! slot i)\<lparr>val := Some x\<rparr>"]
  by (auto simp: try_set_def pool_inv_def Let_def nth_list_update)

lemma try_get_try_set:
  "try_get (snd (try_set i x p)) =
     (if try_get p i = None then try_get p else (try_get p)(i \<mapsto> x))"
  by (auto simp: try_set_def try_get_def fun_eq_iff Let_def nth_list_update)

section \<open>Iteration and emptiness\<close>

lemma skip_vacant_stop:
  "skip_vacant ss k < length ss \<Longrightarrow> val (ss ! skip_vacant ss k) \<noteq> None"
proof (induction ss k rule: skip_vacant.induct)
  case (1 ss k)
  then show ?case by (cases "k < length ss \<and> val (ss ! k) = None") (auto simp: skip_vacant.simps [of ss k])
qed

lemma iter_mut_from_skip:
  "iter_mut_from k (drop k ss) = iter_mut_from (skip_vacant ss k) (drop (skip_vacant ss k) ss)"
proof (induction ss k rule: skip_vacant.induct)
  case (1 ss k)
  show ?case
  proof (cases "k < length ss \<and> val (ss ! k) = None")
    case True
    then have "drop k ss = ss ! k # drop (Suc k) ss" by (simp add: Cons_nth_drop_Suc)
    with True 1 show ?thesis by (simp add: skip_vacant.simps [of ss k])
  next
    case False
    then have "skip_vacant ss k = k" by (subst skip_vacant.simps) auto
    then show ?thesis by simp
  qed
qed

lemma iter_from_eq: "iter_from p k = Ok (iter_mut_from k (drop k (slots p)))"
proof (induction p k rule: iter_from.induct)
  case (1 p k)
  let ?k = "skip_vacant (slots p) k"
  show ?case
  proof (cases "?k < length (slots p)")
    case True
    then obtain x where x: "val (slots p ! ?k) = Some x" using skip_vacant_stop by fastforce
    have d: "drop ?k (slots p) = slots p ! ?k # drop (Suc ?k) (slots p)"
      using True by (simp add: Cons_nth_drop_Suc)
    have n: "iter_next p k = (Ok (Some (\<lparr>slot = ?k, seqno = slot_seqno (slots p ! ?k)\<rparr>, x)), Suc ?k)"
      using True x by (simp add: iter_next_def Let_def)
    have "iter_from p (Suc ?k) = Ok (iter_mut_from (Suc ?k) (drop (Suc ?k) (slots p)))"
      by (rule "1.IH" [OF n [symmetric]]) simp_all
    with n x d show ?thesis
      by (simp add: iter_from.simps [of p k] iter_mut_from_skip [of k])
  next
    case False
    then show ?thesis
      by (simp add: iter_from.simps [of p k] iter_next_def Let_def iter_mut_from_skip [of k])
  qed
qed

lemma iter_eq_iter_mut: "iter p = Ok (iter_mut p)"
  by (simp add: iter_def iter_mut_def iter_from_eq)

lemma iter_mut_from_set:
  "(i, x) \<in> set (iter_mut_from k ss) \<longleftrightarrow>
     k \<le> slot i \<and> slot i - k < length ss \<and> slot_seqno (ss ! (slot i - k)) = seqno i
       \<and> val (ss ! (slot i - k)) = Some x"
proof (induction k ss rule: iter_mut_from.induct)
  case (2 k s ss)
  have eq: "i = \<lparr>slot = k, seqno = slot_seqno s\<rparr> \<longleftrightarrow> slot i = k \<and> seqno i = slot_seqno s"
    by (cases i) auto
  show ?case
  proof (cases "slot i = k")
    case True
    with 2 eq show ?thesis by (cases "val s") auto
  next
    case False
    then have "k \<le> slot i \<Longrightarrow> slot i - k = Suc (slot i - Suc k)" by simp
    with False 2 eq show ?thesis by (cases "val s") (auto simp: Suc_le_eq)
  qed
qed simp

lemma iter_mut_set: "(i, x) \<in> set (iter_mut p) \<longleftrightarrow> try_get p i = Some x"
  by (auto simp: iter_mut_def iter_mut_from_set try_get_def Let_def)

lemma iter_mut_from_sorted:
  "sorted_wrt (<) (map (slot \<circ> fst) (iter_mut_from k ss)) \<and>
   (\<forall>e \<in> set (iter_mut_from k ss). k \<le> slot (fst e))"
proof (induction ss arbitrary: k)
  case (Cons s ss)
  from Cons.IH [of "Suc k"] show ?case by (cases "val s") (auto simp: Suc_le_eq less_imp_le)
qed simp

lemma iter_mut_distinct: "distinct (map (slot \<circ> fst) (iter_mut p))"
  using iter_mut_from_sorted [of 0 "slots p"]
  by (simp add: iter_mut_def strict_sorted_iff)

lemma length_vacant: "pool_inv p \<Longrightarrow> length (vacant p) = card {k. k < length (slots p) \<and> val (slots p ! k) = None}"
  by (metis distinct_card pool_inv_def)

lemma is_empty_spec:
  assumes "pool_inv p" shows "is_empty p = Ok (\<forall>i. try_get p i = None)"
proof -
  let ?V = "{k. k < length (slots p) \<and> val (slots p ! k) = None}"
  have sub: "?V \<subseteq> {..<length (slots p)}" by auto
  have le: "card ?V \<le> length (slots p)" using card_mono [OF _ sub] by simp
  have "card ?V = length (slots p) \<longleftrightarrow> ?V = {..<length (slots p)}"
  proof
    assume "card ?V = length (slots p)"
    then show "?V = {..<length (slots p)}" by (intro card_subset_eq [OF _ sub]) simp_all
  next
    assume "?V = {..<length (slots p)}"
    then show "card ?V = length (slots p)" by (simp only: card_lessThan)
  qed
  also have "\<dots> \<longleftrightarrow> (\<forall>k < length (slots p). val (slots p ! k) = None)" by auto
  also have "\<dots> \<longleftrightarrow> (\<forall>i. try_get p i = None)"
  proof
    assume *: "\<forall>i. try_get p i = None"
    show "\<forall>k < length (slots p). val (slots p ! k) = None"
    proof (intro allI impI)
      fix k assume "k < length (slots p)"
      with * [rule_format, of "\<lparr>slot = k, seqno = slot_seqno (slots p ! k)\<rparr>"]
      show "val (slots p ! k) = None" by (simp add: try_get_def)
    qed
  qed (simp add: try_get_def Let_def)
  finally show ?thesis using le length_vacant [OF assms] by (auto simp: is_empty_def)
qed

section \<open>The contract of a pool\<close>

text \<open>
  What the rest of the program relies on. \<open>used\<close> says that the identifier was handed out
  before; \<open>add_op\<close> may refuse (the panic on a counter that is used up).
\<close>

locale generational_map =
  fixes invar :: "'s \<Rightarrow> bool" and lookup :: "'s \<Rightarrow> 'i \<Rightarrow> 'a option" and used :: "'s \<Rightarrow> 'i \<Rightarrow> bool"
    and add_op :: "'a \<Rightarrow> 's \<Rightarrow> ('i \<times> 's) option" and del_op :: "'i \<Rightarrow> 's \<Rightarrow> 's"
    and clear_op :: "'s \<Rightarrow> 's" and set_op :: "'i \<Rightarrow> 'a \<Rightarrow> 's \<Rightarrow> 's"
  assumes live_used: "invar s \<Longrightarrow> lookup s i = Some x \<Longrightarrow> used s i"
    and add_law: "invar s \<Longrightarrow> add_op x s = Some (i, s') \<Longrightarrow>
          invar s' \<and> \<not> used s i \<and> used s' i \<and> lookup s' = (lookup s)(i \<mapsto> x) \<and> (\<forall>j. used s j \<longrightarrow> used s' j)"
    and del_law: "invar s \<Longrightarrow> invar (del_op i s) \<and> lookup (del_op i s) = (lookup s)(i := None)
          \<and> used (del_op i s) = used s"
    and clear_law: "invar s \<Longrightarrow> invar (clear_op s) \<and> lookup (clear_op s) = Map.empty
          \<and> used (clear_op s) = used s"
    and set_law: "invar s \<Longrightarrow> invar (set_op i x s) \<and> used (set_op i x s) = used s
          \<and> lookup (set_op i x s) = (if lookup s i = None then lookup s else (lookup s)(i \<mapsto> x))"
begin

inductive step :: "'s \<Rightarrow> 's \<Rightarrow> bool" where
  "add_op x s = Some (i, s') \<Longrightarrow> step s s'"
| "step s (del_op i s)"
| "step s (clear_op s)"
| "step s (set_op i x s)"

lemma step_dead: "step s s' \<Longrightarrow> invar s \<Longrightarrow> used s i \<Longrightarrow> lookup s i = None \<Longrightarrow>
    invar s' \<and> used s' i \<and> lookup s' i = None"
proof (induction rule: step.induct)
  case (1 x s j s')
  then show ?case using add_law [of s x j s'] by auto
next
  case (2 s j)
  then show ?case using del_law [of s j] by auto
next
  case (3 s)
  then show ?case using clear_law [of s] by auto
next
  case (4 s j x)
  then show ?case using set_law [of s j x] by auto
qed

lemma steps_dead: "step\<^sup>*\<^sup>* s s' \<Longrightarrow> invar s \<Longrightarrow> used s i \<Longrightarrow> lookup s i = None \<Longrightarrow>
    invar s' \<and> used s' i \<and> lookup s' i = None"
  by (induction rule: rtranclp_induct) (auto dest: step_dead)

lemma removed_stays_dead:
  assumes "invar s" "lookup s i = Some x" "step\<^sup>*\<^sup>* (del_op i s) s'"
  shows "lookup s' i = None"
  using steps_dead [OF assms(3)] del_law [OF assms(1), of i] live_used [OF assms(1,2)] by auto

end

definition add_some :: "'a \<Rightarrow> 'a Pool \<Rightarrow> (Id \<times> 'a Pool) option" where
  "add_some x p = (case add x p of Ok r \<Rightarrow> Some r | Err _ \<Rightarrow> None | Panic \<Rightarrow> None)"

lemma add_some_Some: "add_some x p = Some r \<longleftrightarrow> add x p = Ok r"
  by (simp add: add_some_def split: result.splits)

lemma add_fresh: "pool_inv p \<Longrightarrow> add x p = Ok (i, q) \<Longrightarrow> \<not> issued p i \<and> issued q i \<and> (issued p j \<longrightarrow> issued q j)"
  using add_cases [of p x i q] by (simp add: issued_def)

interpretation pm: generational_map pool_inv try_get issued add_some "\<lambda>i p. snd (remove i p)" clear
  "\<lambda>i x p. snd (try_set i x p)"
proof (unfold_locales, goal_cases)
  case (1 p i x)
  then show ?case by (rule try_get_issued)
next
  case (2 p x i q)
  then have a: "add x p = Ok (i, q)" by (simp add: add_some_Some)
  show ?case
    using pool_inv_add [OF 2(1) a] add_fresh [OF 2(1) a] try_get_add [OF 2(1) a] by blast
next
  case (3 p i)
  then show ?case by (simp add: pool_inv_remove try_get_remove issued_def fun_eq_iff)
next
  case (4 p)
  then show ?case by (simp add: pool_inv_clear try_get_clear issued_def fun_eq_iff)
next
  case (5 p i x)
  then show ?case by (simp add: pool_inv_try_set try_get_try_set issued_def fun_eq_iff)
qed

text \<open>Any sequence of operations on a pool; \<open>Panic\<close> when one of them panics.\<close>

datatype 'a pool_op = Add 'a | Remove Id | Clear | Set Id 'a

fun run_op :: "'a pool_op \<Rightarrow> 'a Pool \<Rightarrow> ('a Pool, unit) result" where
  "run_op (Add x) p = rbind (add x p) (\<lambda>(i, q). Ok q)"
| "run_op (Remove i) p = Ok (snd (remove i p))"
| "run_op Clear p = Ok (clear p)"
| "run_op (Set i x) p = Ok (snd (try_set i x p))"

fun run_ops :: "'a pool_op list \<Rightarrow> 'a Pool \<Rightarrow> ('a Pool, unit) result" where
  "run_ops [] p = Ok p"
| "run_ops (o' # os) p = rbind (run_op o' p) (run_ops os)"

lemma run_op_step: "run_op a p = Ok q \<Longrightarrow> pm.step p q"
  by (cases a) (auto simp: add_some_Some intro: pm.step.intros)

lemma run_ops_steps: "run_ops os p = Ok q \<Longrightarrow> pm.step\<^sup>*\<^sup>* p q"
  by (induction os arbitrary: p) (auto dest: run_op_step intro: converse_rtranclp_into_rtranclp)

lemma pool_inv_run_op: "pool_inv p \<Longrightarrow> run_op a p = Ok q \<Longrightarrow> pool_inv q"
  by (cases a) (auto intro: inv_intros)

lemma pool_inv_run_ops: "pool_inv p \<Longrightarrow> run_ops os p = Ok q \<Longrightarrow> pool_inv q"
  by (induction os arbitrary: p) (auto dest: pool_inv_run_op)

lemma next_seqno_run_op: "pool_inv p \<Longrightarrow> next_seqno p + 1 < 2 ^ 64 \<Longrightarrow>
  \<exists>q. run_op a p = Ok q \<and> next_seqno q \<le> Suc (next_seqno p)"
  using add_total [of p] add_cases [of p] by (cases a) fastforce+

section \<open>Properties\<close>

text \<open>
  (C22) The operations of a pool are those of a finite map from identifiers to objects, on every
  pool reached from the empty one: an object added is found under the new identifier, which was
  not live before, all other lookups are unchanged; a removal returns the object and clears its
  entry, clearing empties the map, and writing through \<open>try_get_mut\<close> updates an entry that exists.
\<close>

theorem pool_is_finite_map:
  assumes "run_ops os pool_new = Ok p"
  shows "(\<forall>x i q. add x p = Ok (i, q) \<longrightarrow> try_get p i = None \<and> try_get q = (try_get p)(i \<mapsto> x))
    \<and> (\<forall>i. fst (remove i p) = try_get p i \<and> try_get (snd (remove i p)) = (try_get p)(i := None))
    \<and> try_get (clear p) = Map.empty
    \<and> (\<forall>i x. fst (try_set i x p) = (try_get p i \<noteq> None)
          \<and> try_get (snd (try_set i x p)) = (if try_get p i = None then try_get p else (try_get p)(i \<mapsto> x)))"
proof -
  have inv: "pool_inv p" using pool_inv_run_ops [OF pool_inv_new assms] .
  have "try_get p i = None" if "add x p = Ok (i, q)" for x i q
    using add_fresh [OF inv that] try_get_issued [OF inv, of i] by (cases "try_get p i") auto
  moreover have "fst (try_set i x p) = (try_get p i \<noteq> None)" for i x
    by (auto simp: try_set_def try_get_def Let_def)
  ultimately show ?thesis
    using try_get_add [OF inv]
    by (simp add: try_get_remove [OF inv] try_get_clear try_get_try_set remove_value fun_eq_iff [of "try_get (clear p)"])
qed

theorem pool_is_finite_map_witness:
  "run_ops [Add (7 :: nat), Remove \<lparr>slot = 0, seqno = 1\<rparr>, Add 8] pool_new
     = Ok \<lparr>slots = [\<lparr>slot_seqno = 2, val = Some 8\<rparr>], vacant = [], next_seqno = 3\<rparr>
   \<and> try_get (clear \<lparr>slots = [\<lparr>slot_seqno = 2, val = Some (8 :: nat)\<rparr>], vacant = [], next_seqno = 3\<rparr>) = Map.empty"
proof
  show r: "run_ops [Add (7 :: nat), Remove \<lparr>slot = 0, seqno = 1\<rparr>, Add 8] pool_new
     = Ok \<lparr>slots = [\<lparr>slot_seqno = 2, val = Some 8\<rparr>], vacant = [], next_seqno = 3\<rparr>"
    by (simp add: add_def remove_def pool_new_def Let_def)
  show "try_get (clear \<lparr>slots = [\<lparr>slot_seqno = 2, val = Some (8 :: nat)\<rparr>], vacant = [], next_seqno = 3\<rparr>) = Map.empty"
    using pool_is_finite_map [OF r] by blast
qed

text \<open>
  (C23) An identifier that was removed stays dead: after any further sequence of operations,
  additions that reuse its slot included, looking it up finds nothing. The default identifier is
  never live.
\<close>

theorem removed_id_stays_dead:
  assumes "run_ops os pool_new = Ok p" "try_get p i = Some x"
    and "run_ops os' (snd (remove i p)) = Ok q"
  shows "try_get q i = None \<and> get q i = Panic \<and> i \<noteq> default_Id"
proof -
  have inv: "pool_inv p" using pool_inv_run_ops [OF pool_inv_new assms(1)] .
  have dead: "try_get q i = None"
    by (rule pm.removed_stays_dead [OF inv assms(2) run_ops_steps [OF assms(3)]])
  have "next_seqno p < 2 ^ 64" using inv by (simp add: pool_inv_def)
  then have "i \<noteq> default_Id"
    using try_get_issued [OF inv assms(2)] by (auto simp: issued_def default_Id_def)
  with dead show ?thesis by (simp add: get_def)
qed

theorem removed_id_stays_dead_witness:
  "try_get (\<lparr>slots = [\<lparr>slot_seqno = 2, val = Some (8 :: nat)\<rparr>], vacant = [], next_seqno = 3\<rparr>) \<lparr>slot = 0, seqno = 1\<rparr> = None"
  using removed_id_stays_dead
    [of "[Add 7]" "\<lparr>slots = [\<lparr>slot_seqno = 1, val = Some (7 :: nat)\<rparr>], vacant = [], next_seqno = 2\<rparr>"
      "\<lparr>slot = 0, seqno = 1\<rparr>" 7 "[Add 8]"
      "\<lparr>slots = [\<lparr>slot_seqno = 2, val = Some (8 :: nat)\<rparr>], vacant = [], next_seqno = 3\<rparr>"]
  by (simp add: add_def remove_def pool_new_def try_get_def Let_def)

text \<open>
  Iterating visits every live object exactly once, in the order of the slots, and never
  panics; the mutable iterator, which walks the slots in another way, visits the same. \<open>is_empty\<close>
  does not trip over its assertion and is true exactly when no identifier is live.
\<close>

theorem pool_iteration:
  assumes "run_ops os pool_new = Ok p"
  shows "iter p = Ok (iter_mut p)
    \<and> (\<forall>i x. (i, x) \<in> set (iter_mut p) \<longleftrightarrow> try_get p i = Some x)
    \<and> sorted_wrt (<) (map (slot \<circ> fst) (iter_mut p))
    \<and> is_empty p = Ok (iter_mut p = [])"
proof -
  have inv: "pool_inv p" using pool_inv_run_ops [OF pool_inv_new assms] .
  have "(\<forall>i. try_get p i = None) \<longleftrightarrow> (\<forall>i x. (i, x) \<notin> set (iter_mut p))"
    by (simp add: iter_mut_set)
  also have "\<dots> \<longleftrightarrow> iter_mut p = []" by (cases "iter_mut p") auto
  finally show ?thesis
    using iter_mut_from_sorted [of 0 "slots p"]
    by (simp add: iter_eq_iter_mut iter_mut_set is_empty_spec [OF inv]) (simp add: iter_mut_def)
qed

theorem pool_iteration_witness:
  "iter \<lparr>slots = [\<lparr>slot_seqno = 3, val = Some (9 :: nat)\<rparr>, \<lparr>slot_seqno = 2, val = Some 8\<rparr>], vacant = [], next_seqno = 4\<rparr>
     = Ok [(\<lparr>slot = 0, seqno = 3\<rparr>, 9), (\<lparr>slot = 1, seqno = 2\<rparr>, 8)]"
proof -
  have "run_ops [Add (7 :: nat), Add 8, Remove \<lparr>slot = 0, seqno = 1\<rparr>, Add 9] pool_new
     = Ok \<lparr>slots = [\<lparr>slot_seqno = 3, val = Some 9\<rparr>, \<lparr>slot_seqno = 2, val = Some 8\<rparr>], vacant = [], next_seqno = 4\<rparr>"
    by (simp add: add_def remove_def pool_new_def Let_def)
  from pool_iteration [OF this] show ?thesis by (simp add: iter_mut_def)
qed

end
