(* ===== verification/RangeIndex.thy ===== *)
theory RangeIndex
  imports Prelude "HOL-Library.Multiset" "HOL-Library.Product_Lexorder"
begin

text \<open>
  The interval index of \<open>src/range_index.rs\<close>, which maps addresses to functions and variables.
  The ranges are sorted by start and value, each with the largest end up to it, and a lookup walks
  backwards from the last range that starts at or before the address. The definitions follow the
  loops of the code; the theorems compare them with a linear scan. The sanity limits of the code
  (100000 ranges below one range, 100000 steps of one lookup) are part of the model, and the
  theorems about completeness say where they cannot be reached.
\<close>

section \<open>The index\<close>

record 'a RangeIndexEntry =
  start :: nat
  end_addr :: nat
  max_end :: nat
  range_value :: 'a

record 'a RangeIndex =
  ranges :: "'a RangeIndexEntry list"

definition entry_key :: "'a RangeIndexEntry \<Rightarrow> nat \<times> 'a" where
  "entry_key r = (start r, range_value r)"

text \<open>The loop of \<open>RangeIndex::new\<close> over the sorted ranges.\<close>

fun set_max_ends :: "nat \<Rightarrow> nat \<Rightarrow> nat \<Rightarrow> 'a RangeIndexEntry list \<Rightarrow> 'a RangeIndexEntry list" where
  "set_max_ends i me mi [] = []"
| "set_max_ends i me mi (r # rs) =
     (let (me, mi) = (if i - mi > 100000 then (end_addr r, i)
                      else if end_addr r \<ge> me then (end_addr r, i)
                      else (me, mi))
      in r\<lparr>max_end := me\<rparr> # set_max_ends (Suc i) me mi rs)"

text \<open>\<open>sort_unstable_by_key\<close> may order entries with equal keys in any way.\<close>

definition is_sorting :: "'a::linorder RangeIndexEntry list \<Rightarrow> 'a RangeIndexEntry list \<Rightarrow> bool" where
  "is_sorting rs ss \<longleftrightarrow> mset ss = mset rs \<and> sorted (map entry_key ss)"

definition index_sorted :: "'a RangeIndexEntry list \<Rightarrow> 'a RangeIndex" where
  "index_sorted ss = \<lparr>ranges = set_max_ends 0 0 0 ss\<rparr>"

definition index_new :: "'a::linorder RangeIndexEntry list \<Rightarrow> 'a RangeIndex" where
  "index_new rs = index_sorted (sort_key entry_key rs)"

definition upper_bound :: "'a RangeIndex \<Rightarrow> nat \<Rightarrow> nat" where
  "upper_bound ri addr = partition_point (\<lambda>r. start r \<le> addr) (ranges ri)"

fun find_down :: "'a RangeIndexEntry list \<Rightarrow> nat \<Rightarrow> nat \<Rightarrow> 'a RangeIndexEntry option" where
  "find_down rs addr 0 = None"
| "find_down rs addr (Suc idx) =
     (if max_end (rs ! idx) > addr
      then (if end_addr (rs ! idx) > addr then Some (rs ! idx) else find_down rs addr idx)
      else None)"

definition find :: "'a RangeIndex \<Rightarrow> nat \<Rightarrow> 'a RangeIndexEntry option" where
  "find ri addr = find_down (ranges ri) addr (upper_bound ri addr)"

text \<open>
  The inner loop of \<open>find_ranges\<close> for the lookup range \<open>(rs, re)\<close>. The result is whether the
  step limit stopped the whole lookup, the index, the step count and the result so far.
\<close>

function find_ranges_while :: "'a RangeIndexEntry list \<Rightarrow> nat \<times> nat \<Rightarrow> nat \<Rightarrow> nat \<Rightarrow>
    'a RangeIndexEntry list \<Rightarrow> bool \<times> nat \<times> nat \<times> 'a RangeIndexEntry list" where
  "find_ranges_while rs r idx steps res =
     (if idx < length rs \<and> start (rs ! idx) < snd r
      then (let steps = Suc steps in
        if steps > 100000 then (True, idx, steps, res)
        else find_ranges_while rs r (Suc idx) steps
               (if end_addr (rs ! idx) > fst r then res @ [rs ! idx] else res))
      else (False, idx, steps, res))"
  by pat_completeness auto
termination by (relation "measure (\<lambda>(rs, r, idx, steps, res). length rs - idx)") auto

declare find_ranges_while.simps [simp del]

fun find_ranges_for :: "'a RangeIndexEntry list \<Rightarrow> (nat \<times> nat) list \<Rightarrow> nat \<Rightarrow> nat \<Rightarrow>
    'a RangeIndexEntry list \<Rightarrow> 'a RangeIndexEntry list" where
  "find_ranges_for rs [] idx steps res = res"
| "find_ranges_for rs (r # qs) idx steps res =
     (let idx = max idx (partition_point (\<lambda>e. max_end e \<le> fst r) rs);
          (stop, idx, steps, res) = find_ranges_while rs r idx steps res
      in if stop then res else find_ranges_for rs qs idx steps res)"

fun separated :: "(nat \<times> nat) list \<Rightarrow> bool" where
  "separated (a # b # qs) \<longleftrightarrow> snd a < fst b \<and> separated (b # qs)"
| "separated _ \<longleftrightarrow> True"

definition find_ranges :: "'a RangeIndex \<Rightarrow> (nat \<times> nat) list \<Rightarrow> ('a RangeIndexEntry list, unit) result" where
  "find_ranges ri qs = (if separated qs then Ok (find_ranges_for (ranges ri) qs 0 0 []) else Panic)"

section \<open>The running maximum\<close>

text \<open>What a lookup needs of the list of entries.\<close>

definition max_ends_ok :: "'a RangeIndexEntry list \<Rightarrow> bool" where
  "max_ends_ok rs \<longleftrightarrow> sorted (map max_end rs) \<and> (\<forall>r \<in> set rs. end_addr r \<le> max_end r)"

definition erase :: "'a RangeIndexEntry \<Rightarrow> 'a RangeIndexEntry" where
  "erase r = r\<lparr>max_end := 0\<rparr>"

lemma erase_sel [simp]: "start (erase r) = start r" "end_addr (erase r) = end_addr r" "range_value (erase r) = range_value r"
  by (simp_all add: erase_def)

lemma map_erase_set_max_ends [simp]: "map erase (set_max_ends i me mi rs) = map erase rs"
  by (induction i me mi rs rule: set_max_ends.induct) (auto simp: Let_def erase_def)

lemma length_set_max_ends [simp]: "length (set_max_ends i me mi rs) = length rs"
  by (induction i me mi rs rule: set_max_ends.induct) (auto simp: Let_def)

lemma map_start_set_max_ends [simp]: "map start (set_max_ends i me mi rs) = map start rs"
  by (induction i me mi rs rule: set_max_ends.induct) (auto simp: Let_def)

lemma set_max_ends_bounds:
  assumes "i + length rs \<le> 100001"
  shows "max_ends_ok (set_max_ends i me mi rs) \<and> (\<forall>r \<in> set (set_max_ends i me mi rs). me \<le> max_end r)"
  using assms
proof (induction rs arbitrary: i me mi)
  case (Cons r rs)
  from Cons.prems have "\<not> i - mi > 100000" by simp
  with Cons.IH [of "Suc i" "end_addr r" i] Cons.IH [of "Suc i" me mi] Cons.prems show ?case
    by (auto simp: max_ends_ok_def)
qed (simp add: max_ends_ok_def)

section \<open>Lookups\<close>

lemma max_ends_ok_before:
  "max_ends_ok rs \<Longrightarrow> i \<le> j \<Longrightarrow> j < length rs \<Longrightarrow> end_addr (rs ! i) \<le> max_end (rs ! j)"
  using sorted_nth_mono [of "map max_end rs" i j] nth_mem [of i rs] unfolding max_ends_ok_def
  by (auto intro: order_trans)

definition last_option :: "'b list \<Rightarrow> 'b option" where
  "last_option xs = (if xs = [] then None else Some (last xs))"

lemma find_down_spec:
  "max_ends_ok rs \<Longrightarrow> k \<le> length rs \<Longrightarrow>
     find_down rs addr k = last_option (List.filter (\<lambda>r. addr < end_addr r) (take k rs))"
proof (induction k)
  case (Suc k)
  have t: "take (Suc k) rs = take k rs @ [rs ! k]" using Suc.prems by (simp add: take_Suc_conv_app_nth)
  have "\<not> addr < end_addr r" if "\<not> addr < max_end (rs ! k)" "r \<in> set (take (Suc k) rs)" for r
    using that max_ends_ok_before [of rs _ k] Suc.prems
    by (auto simp: in_set_conv_nth simp del: take_Suc_conv_app_nth) (metis leD leI le_trans less_Suc_eq_le)
  then have "\<not> addr < max_end (rs ! k) \<Longrightarrow> List.filter (\<lambda>r. addr < end_addr r) (take (Suc k) rs) = []"
    by (simp add: filter_empty_conv)
  with Suc t show ?case by (auto simp: last_option_def)
qed (simp add: last_option_def)

lemma find_down_sound:
  "k \<le> length rs \<Longrightarrow> find_down rs addr k = Some e \<Longrightarrow> e \<in> set (take k rs) \<and> addr < end_addr e"
  by (induction k) (auto simp: take_Suc_conv_app_nth split: if_splits)

lemma take_partition_point_sorted:
  assumes "sorted (map f xs)"
  shows "take (partition_point (\<lambda>x. f x \<le> (a :: nat)) xs) xs = List.filter (\<lambda>x. f x \<le> a) xs"
proof -
  let ?p = "\<lambda>x. f x \<le> a" and ?k = "partition_point (\<lambda>x. f x \<le> a) xs"
  have mono: "\<And>i j. i \<le> j \<Longrightarrow> j < length xs \<Longrightarrow> ?p (xs ! j) \<Longrightarrow> ?p (xs ! i)"
    using assms by (fastforce simp: sorted_iff_nth_mono)
  note sp = partition_point_spec [where p = ?p and xs = xs, OF mono]
  have "List.filter ?p (take ?k xs) = take ?k xs"
    using sp(1) partition_point_le [of ?p xs] by (auto simp: filter_id_conv in_set_conv_nth)
  moreover have "List.filter ?p (drop ?k xs) = []"
    using sp(2) by (auto simp: filter_empty_conv in_set_conv_nth)
  ultimately show ?thesis by (metis append_Nil2 append_take_drop_id filter_append)
qed

lemma dropWhile_sorted_ge:
  "sorted (map f xs) \<Longrightarrow> e \<in> set (dropWhile (\<lambda>x. f x < (a :: nat)) xs) \<Longrightarrow> \<not> f e < a"
  by (induction xs) (auto split: if_splits)

lemma find_is_scan:
  assumes "sorted (map start (ranges ri))" "max_ends_ok (ranges ri)"
  shows "find ri addr = last_option (List.filter (\<lambda>r. start r \<le> addr \<and> addr < end_addr r) (ranges ri))"
  using find_down_spec [OF assms(2), of "upper_bound ri addr" addr]
    partition_point_le [of "\<lambda>r. start r \<le> addr" "ranges ri"]
    take_partition_point_sorted [OF assms(1), of addr]
  by (simp add: find_def upper_bound_def conj_commute)

section \<open>Range lookups\<close>

definition overlaps :: "'a RangeIndexEntry \<Rightarrow> nat \<times> nat \<Rightarrow> bool" where
  "overlaps e r \<longleftrightarrow> start e < snd r \<and> fst r < end_addr e"

text \<open>Without the limit, the inner loop takes the entries that start before the end of the range.\<close>

lemma find_ranges_while_spec:
  assumes "steps + (length rs - idx) \<le> 100000"
  shows "find_ranges_while rs r idx steps res =
    (let s = takeWhile (\<lambda>e. start e < snd r) (drop idx rs) in
     (False, idx + length s, steps + length s, res @ List.filter (\<lambda>e. fst r < end_addr e) s))"
  using assms
proof (induction rs r idx steps res rule: find_ranges_while.induct)
  case (1 rs r idx steps res)
  show ?case
  proof (cases "idx < length rs \<and> start (rs ! idx) < snd r")
    case True
    then have d: "drop idx rs = rs ! idx # drop (Suc idx) rs" by (simp add: Cons_nth_drop_Suc)
    have "\<not> Suc steps > 100000" using True "1.prems" by auto
    with True 1 d show ?thesis
      by (auto simp: find_ranges_while.simps [of rs r idx steps res] Let_def)
  next
    case False
    then have "takeWhile (\<lambda>e. start e < snd r) (drop idx rs) = []"
      by (cases "idx < length rs") (auto simp: Cons_nth_drop_Suc [symmetric])
    moreover have "find_ranges_while rs r idx steps res = (False, idx, steps, res)"
      using False by (subst find_ranges_while.simps) auto
    ultimately show ?thesis by simp
  qed
qed

lemma separated_later:
  "separated (r # qs) \<Longrightarrow> \<forall>q \<in> set (r # qs). fst q \<le> snd q \<Longrightarrow> q \<in> set qs \<Longrightarrow> snd r < fst q"
proof (induction qs arbitrary: r)
  case (Cons a qs)
  show ?case
  proof (cases "q = a")
    case False
    then have "snd a < fst q" using Cons.IH [of a] Cons.prems by simp
    then show ?thesis using Cons.prems by simp
  qed (use Cons.prems in simp)
qed simp

lemma separated_tl: "separated (r # qs) \<Longrightarrow> separated qs"
  by (cases qs) auto

lemma drop_takeWhile: "drop (i + length (takeWhile p (drop i xs))) xs = dropWhile p (drop i xs)"
  by (simp add: dropWhile_eq_drop add.commute)

lemma find_ranges_for_spec:
  assumes "sorted (map start rs)" "max_ends_ok rs"
  shows "separated qs \<Longrightarrow> \<forall>q \<in> set qs. fst q \<le> snd q \<Longrightarrow> steps + (length rs - idx) \<le> 100000 \<Longrightarrow>
    find_ranges_for rs qs idx steps res = res @ List.filter (\<lambda>e. \<exists>q \<in> set qs. overlaps e q) (drop idx rs)"
proof (induction qs arbitrary: idx steps res)
  case (Cons r qs)
  let ?pp = "partition_point (\<lambda>e. max_end e \<le> fst r) rs"
  let ?i = "max idx ?pp" and ?any = "\<lambda>e. \<exists>q \<in> set (r # qs). overlaps e q"
  let ?s = "takeWhile (\<lambda>e. start e < snd r) (drop ?i rs)"
  have later: "\<And>q. q \<in> set qs \<Longrightarrow> snd r < fst q \<and> fst r \<le> snd r"
    using separated_later [OF Cons.prems(1,2)] Cons.prems(2) by auto
  have "take ?pp rs = List.filter (\<lambda>e. max_end e \<le> fst r) rs"
    using assms(2) by (intro take_partition_point_sorted) (simp add: max_ends_ok_def)
  then have "end_addr e \<le> fst r" if "e \<in> set (take ?pp rs)" for e
    using that assms(2) by (auto simp: max_ends_ok_def intro: order_trans)
  then have skipped: "\<not> ?any e" if "e \<in> set (take ?pp rs)" for e
    using that later by (fastforce simp: overlaps_def)
  have d1: "drop idx rs = take (?i - idx) (drop idx rs) @ drop ?i rs"
    by (metis append_take_drop_id drop_drop le_add_diff_inverse2 max.cobounded1)
  have "set (take (?i - idx) (drop idx rs)) \<subseteq> set (take ?pp rs)"
    by (cases "idx \<le> ?pp") (auto simp: max_def take_drop dest: in_set_dropD)
  then have f1: "List.filter ?any (drop idx rs) = List.filter ?any (drop ?i rs)"
    using skipped by (subst d1) (auto simp: filter_empty_conv)
  have d2: "drop ?i rs = ?s @ drop (?i + length ?s) rs"
    by (simp add: drop_takeWhile)
  have inslice: "?any e \<longleftrightarrow> fst r < end_addr e" if "e \<in> set ?s" for e
    using set_takeWhileD [OF that] later by (fastforce simp: overlaps_def)
  have after: "?any e \<longleftrightarrow> (\<exists>q \<in> set qs. overlaps e q)" if "e \<in> set (drop (?i + length ?s) rs)" for e
  proof -
    have "drop (?i + length ?s) rs = dropWhile (\<lambda>e. start e < snd r) (drop ?i rs)"
      by (rule drop_takeWhile)
    moreover have "sorted (map start (drop ?i rs))" using assms(1) by (simp add: drop_map [symmetric])
    ultimately have "\<not> start e < snd r" using that dropWhile_sorted_ge by metis
    then show ?thesis by (auto simp: overlaps_def)
  qed
  have f2: "List.filter ?any (drop ?i rs) = List.filter (\<lambda>e. fst r < end_addr e) ?s
      @ List.filter (\<lambda>e. \<exists>q \<in> set qs. overlaps e q) (drop (?i + length ?s) rs)"
    by (subst d2) (simp only: filter_append filter_cong [OF refl inslice] filter_cong [OF refl after])
  have ls: "length ?s \<le> length rs - ?i" using length_takeWhile_le [of _ "drop ?i rs"] by simp
  have "find_ranges_while rs r ?i steps res = (False, ?i + length ?s, steps + length ?s,
      res @ List.filter (\<lambda>e. fst r < end_addr e) ?s)"
    using find_ranges_while_spec [of steps rs ?i r res] Cons.prems(3) by (simp add: Let_def)
  then show ?case
    using Cons.IH [of "steps + length ?s" "?i + length ?s"] separated_tl [OF Cons.prems(1)] Cons.prems ls f1 f2
    by (simp add: Let_def)
qed simp

section \<open>Properties\<close>

lemma index_sorted_ok:
  assumes "is_sorting rs ss" "length rs \<le> 100001"
  shows "sorted (map start (ranges (index_sorted ss)))" "max_ends_ok (ranges (index_sorted ss))"
proof -
  have "sorted_wrt (\<lambda>a b. entry_key a \<le> entry_key b) ss"
    using assms(1) by (simp add: is_sorting_def sorted_map)
  then have "sorted (map start ss)"
    unfolding sorted_map by (rule sorted_wrt_mono_rel [rotated]) (auto simp: entry_key_def)
  then show "sorted (map start (ranges (index_sorted ss)))"
    by (simp add: index_sorted_def)
  have "length ss = length rs" using assms(1) by (metis is_sorting_def size_mset)
  then show "max_ends_ok (ranges (index_sorted ss))"
    using set_max_ends_bounds [of 0 ss 0 0] assms(2) by (simp add: index_sorted_def)
qed

lemma last_option_map: "last_option (map f xs) = map_option f (last_option xs)"
  by (simp add: last_option_def last_map)

lemma last_option_max:
  assumes "sorted (map f xs)" "last_option (List.filter p xs) = Some e"
  shows "e \<in> set xs \<and> p e \<and> (\<forall>x \<in> set xs. p x \<longrightarrow> f x \<le> f e)"
proof -
  from assms(2) have ne: "List.filter p xs \<noteq> []" and e: "e = last (List.filter p xs)"
    by (auto simp: last_option_def split: if_splits)
  then obtain ys where ys: "List.filter p xs = ys @ [e]" by (metis append_butlast_last_id)
  have "sorted (map f (List.filter p xs))" using assms(1) by (rule sorted_filter)
  then have "\<forall>x \<in> set (List.filter p xs). f x \<le> f e" by (auto simp: ys sorted_append)
  moreover have "e \<in> set (List.filter p xs)" by (simp add: ys)
  ultimately show ?thesis by auto
qed

text \<open>
  (C24) A lookup in an index of at most 100001 ranges finds a range that contains the address
  whenever there is one, and of all that do, one with the greatest start and, among equal starts,
  the greatest value, which makes the innermost inlined function come first. It holds for
  every order the unstable sort may choose, and equals a scan of all the ranges.
\<close>

theorem find_correct:
  assumes "is_sorting rs ss" "length rs \<le> 100001"
  shows "case find (index_sorted ss) addr of
      None \<Rightarrow> \<forall>r \<in> set rs. \<not> (start r \<le> addr \<and> addr < end_addr r)
    | Some e \<Rightarrow> (\<exists>r \<in> set rs. erase r = erase e) \<and> start e \<le> addr \<and> addr < end_addr e
        \<and> (\<forall>r \<in> set rs. start r \<le> addr \<and> addr < end_addr r \<longrightarrow> entry_key r \<le> entry_key e)"
proof -
  let ?has = "\<lambda>r. start r \<le> addr \<and> addr < end_addr r"
  let ?R = "ranges (index_sorted ss)"
  have set: "set ss = set rs" using assms(1) by (metis is_sorting_def set_mset_mset)
  have "map erase ?R = map erase ss" by (simp add: index_sorted_def)
  then have er: "erase ` set ?R = erase ` set rs" using set by (metis image_set)
  have key: "entry_key r = entry_key (erase r)" for r by (simp add: entry_key_def)
  have "map entry_key ?R = map entry_key ss"
    using arg_cong [OF \<open>map erase ?R = map erase ss\<close>, of "map entry_key"]
    by (simp add: o_def key [symmetric])
  then have srt: "sorted (map entry_key ?R)" using assms(1) by (simp add: is_sorting_def)
  have f: "find (index_sorted ss) addr = last_option (List.filter ?has ?R)"
    by (rule find_is_scan [OF index_sorted_ok [OF assms]])
  have tr: "\<exists>e \<in> set ?R. erase e = erase r" if "r \<in> set rs" for r
    using er that by (metis imageE image_eqI)
  have hs: "?has r \<longleftrightarrow> ?has (erase r)" for r by simp
  show ?thesis
  proof (cases "find (index_sorted ss) addr")
    case None
    then have "\<forall>e \<in> set ?R. \<not> ?has e" using f by (auto simp: last_option_def filter_empty_conv split: if_splits)
    then have "\<forall>r \<in> set rs. \<not> ?has r" using tr hs by metis
    with None show ?thesis by simp
  next
    case (Some e)
    note m = last_option_max [OF srt, of ?has e, folded f, OF Some]
    have "\<exists>r \<in> set rs. erase r = erase e" using m er by (metis imageE image_eqI)
    moreover have "\<forall>r \<in> set rs. ?has r \<longrightarrow> entry_key r \<le> entry_key e"
      using m tr hs key by metis
    ultimately show ?thesis using Some m by simp
  qed
qed

text \<open>
  A lookup with ranges, which have to be ordered and apart, returns exactly the entries
  that overlap one of them, each once and in the order of the index, when the index has at most
  100000 entries. It panics exactly when the ranges are not apart.
\<close>

theorem find_ranges_correct:
  assumes "is_sorting rs ss" "length rs \<le> 100000" "\<forall>q \<in> set qs. fst q \<le> snd q"
  shows "find_ranges (index_sorted ss) qs =
    (if separated qs
     then Ok (List.filter (\<lambda>e. \<exists>q \<in> set qs. overlaps e q) (ranges (index_sorted ss)))
     else Panic)"
proof -
  have "length ss = length rs" using assms(1) by (metis is_sorting_def size_mset)
  then have "length (ranges (index_sorted ss)) \<le> 100000"
    using assms(2) by (simp add: index_sorted_def)
  moreover have "length rs \<le> 100001" using assms(2) by simp
  ultimately show ?thesis
    using find_ranges_for_spec [OF index_sorted_ok [OF assms(1)], of qs 0 0 "[]"] assms(3)
    by (simp add: find_ranges_def)
qed

theorem find_correct_witness:
  "map_option range_value (find (index_sorted
      [\<lparr>start = 1, end_addr = 9, max_end = 0, range_value = 5 :: nat\<rparr>,
       \<lparr>start = 2, end_addr = 4, max_end = 0, range_value = 6\<rparr>]) 6) \<noteq> None"
proof -
  let ?rs = "[\<lparr>start = 2, end_addr = 4, max_end = 0, range_value = 6 :: nat\<rparr>,
     \<lparr>start = 1, end_addr = 9, max_end = 0, range_value = 5\<rparr>]"
  let ?ss = "[\<lparr>start = 1, end_addr = 9, max_end = 0, range_value = 5 :: nat\<rparr>,
     \<lparr>start = 2, end_addr = 4, max_end = 0, range_value = 6\<rparr>]"
  have s: "is_sorting ?rs ?ss" by (simp add: is_sorting_def entry_key_def add_mset_commute)
  have l: "length ?rs \<le> 100001" by simp
  from find_correct [OF s l, of 6] show ?thesis by (auto split: option.splits)
qed

theorem find_ranges_correct_witness:
  "\<exists>r. find_ranges (index_sorted [\<lparr>start = 1, end_addr = 9, max_end = 0, range_value = 5 :: nat\<rparr>])
      [(0, 1), (3, 7)] = Ok r \<and> map range_value r = [5]"
proof -
  let ?rs = "[\<lparr>start = 1, end_addr = 9, max_end = 0, range_value = 5 :: nat\<rparr>]"
  have s: "is_sorting ?rs ?rs" by (simp add: is_sorting_def)
  have l: "length ?rs \<le> 100000" by simp
  have q: "\<forall>q \<in> set [(0 :: nat, 1 :: nat), (3, 7)]. fst q \<le> snd q" by simp
  from find_ranges_correct [OF s l q] show ?thesis
    by (simp add: index_sorted_def overlaps_def)
qed

end
