(* ===== verification/Errors.thy ===== *)
theory Errors
  imports Prelude
begin

text \<open>
  The error codes of \<open>src/error.rs\<close>. An error of the code is a code and a message; the
  development keeps the code, which is what the program decides on, and leaves the message out.
\<close>

datatype ErrorCode = MalformedExecutable | UnsupportedExecutable | Internal | Usage | Cancelled
  | Format | Dwarf | ProcessState | NotImplemented | NoSection | Loading | OptimizedAway
  | MissingSymbols | Sanity | OutOfHardwareBreakpoints | NoCodeLocations | TooLong | Syntax
  | NoVariable | TypeMismatch | Runtime | NoFunction | Environment | NotCalculated | NoField
  | NotContainer | Network | Disabled | IO

type_synonym 'a eres = "('a, ErrorCode) result"

end
