(* ===== verification/MemReader.thy ===== *)
theory MemReader
  imports Errors
begin

text \<open>
  The cached reader of the debuggee's memory (\<open>CachedMemReader\<close> of \<open>src/procfs.rs\<close>), which every
  watch expression reads through, with its integer, LEB128 and string readers. What it reads from
  (a process, a core dump, a remote stub) is a function from an address and a length to bytes. The
  locale \<open>byte_memory\<close> is the contract of such a source: reading gives the bytes of a partial
  map from addresses, and fails exactly when one of them is missing. The client lemmas say that
  the cached reader then has the same contract, provided that each aligned 4 KiB range is readable
  as a whole or not at all (which the code assumes, too).
\<close>

section \<open>The cached reader\<close>

type_synonym reader = "nat \<Rightarrow> nat \<Rightarrow> bytes eres"

abbreviation "PAGE_SIZE \<equiv> 4096 :: nat"

definition page_of :: "nat \<Rightarrow> nat" where
  "page_of offset = offset - offset mod PAGE_SIZE"

record CachedMemReader =
  cache_addr :: "nat option"
  cache_page :: bytes

definition cached_new :: CachedMemReader where
  "cached_new = \<lparr>cache_addr = None, cache_page = []\<rparr>"

text \<open>
  The loop over all pages but the last. The result is what was read, the offset after it and how
  many bytes of the buffer are left.
\<close>

definition page_left :: "nat \<Rightarrow> nat" where
  "page_left offset = PAGE_SIZE - offset mod PAGE_SIZE"

definition read_chunk :: "reader \<Rightarrow> CachedMemReader \<Rightarrow> nat \<Rightarrow> bytes eres" where
  "read_chunk rd c offset =
     (if cache_addr c = Some (page_of offset)
      then Ok (take (page_left offset) (drop (offset mod PAGE_SIZE) (cache_page c)))
      else rd offset (page_left offset))"

lemma page_left_pos [simp]: "0 < page_left offset"
  by (simp add: page_left_def)

function read_head :: "reader \<Rightarrow> CachedMemReader \<Rightarrow> nat \<Rightarrow> nat \<Rightarrow> nat \<Rightarrow> (bytes \<times> nat \<times> nat) eres" where
  "read_head rd c last_page offset n =
     (if page_of offset < last_page then
        (let len = page_left offset in
         if len > n then Panic
         else rbind (read_chunk rd c offset)
           (\<lambda>b. rbind (read_head rd c last_page (offset + len) (n - len))
             (\<lambda>(bs, off, m). Ok (b @ bs, off, m))))
      else Ok ([], offset, n))"
  by pat_completeness auto
termination
proof (relation "measure (\<lambda>(rd, c, lp, off, n). n)")
  fix rd c lp offset n len b
  assume "len = page_left offset" "\<not> len > n"
  then show "((rd, c, lp, offset + len, n - len), rd, c, lp, offset, n) \<in> measure (\<lambda>(rd, c, lp, off, n). n)"
    using page_left_pos [of offset] by (simp del: page_left_pos)
qed simp

declare read_head.simps [simp del]

text \<open>The last page is read through the cache.\<close>

definition fill_cache :: "reader \<Rightarrow> nat \<Rightarrow> (CachedMemReader, unit, ErrorCode) sres" where
  "fill_cache rd last_page c =
     (if cache_addr c \<noteq> Some last_page then
        (case rd last_page PAGE_SIZE of
           Ok p \<Rightarrow> (Ok (), c\<lparr>cache_addr := Some last_page, cache_page := p\<rparr>)
         | Err e \<Rightarrow> (Err e, c\<lparr>cache_addr := None\<rparr>)
         | Panic \<Rightarrow> (Panic, c\<lparr>cache_addr := None\<rparr>))
      else (Ok (), c))"

definition read_uninit :: "reader \<Rightarrow> nat \<Rightarrow> nat \<Rightarrow> (CachedMemReader, bytes, ErrorCode) sres" where
  "read_uninit rd offset n c =
     (if n = 0 then (Ok [], c)
      else if n > 2 ^ 64 - 1 - offset then (Err Runtime, c)
      else (let last_page = page_of (offset + n - 1) in
        sbind (\<lambda>c. (read_head rd c last_page offset n, c))
          (\<lambda>(bs, off, m). sbind (fill_cache rd last_page)
            (\<lambda>_ c. let st = off mod PAGE_SIZE in
               (if st + m > length (cache_page c) then Panic
                else Ok (bs @ take m (drop st (cache_page c))), c))) c))"

text \<open>\<open>read_u8\<close> has a fast path; the wider integers read a buffer.\<close>

definition read_u8 :: "reader \<Rightarrow> nat \<Rightarrow> (CachedMemReader, u8, ErrorCode) sres" where
  "read_u8 rd offset c =
     (if cache_addr c = Some (page_of offset) then (Ok (cache_page c ! (offset mod PAGE_SIZE)), c)
      else sbind (read_uninit rd offset 1) (\<lambda>bs. sret (hd bs)) c)"

definition read_u16 :: "reader \<Rightarrow> nat \<Rightarrow> (CachedMemReader, u16, ErrorCode) sres" where
  "read_u16 rd offset = sbind (read_uninit rd offset 2) (\<lambda>bs. sret (from_le_bytes bs))"

definition read_u32 :: "reader \<Rightarrow> nat \<Rightarrow> (CachedMemReader, u32, ErrorCode) sres" where
  "read_u32 rd offset = sbind (read_uninit rd offset 4) (\<lambda>bs. sret (from_le_bytes bs))"

definition read_usize :: "reader \<Rightarrow> nat \<Rightarrow> (CachedMemReader, u64, ErrorCode) sres" where
  "read_usize rd offset = sbind (read_uninit rd offset 8) (\<lambda>bs. sret (from_le_bytes bs))"

text \<open>
  \<open>leb128_impl\<close>: the value, the last byte, the shift after it, and the offset, which is an
  in-out parameter of the code.
\<close>

function leb128_loop :: "reader \<Rightarrow> nat \<Rightarrow> u64 \<Rightarrow> nat \<Rightarrow>
    (CachedMemReader, u64 \<times> u8 \<times> nat \<times> nat, ErrorCode) sres" where
  "leb128_loop rd offset acc shift c =
     (case read_u8 rd offset c of
        (Ok b, c') \<Rightarrow>
          (if offset + 1 \<ge> 2 ^ 64 then (Panic, c') else
           let acc' = acc OR push_bit shift (ucast (b AND 0x7F)) in
           if b AND 0x80 = 0 then (Ok (acc', b, shift + 7, offset + 1), c')
           else if shift + 7 \<ge> 64 then (Err Sanity, c')
           else leb128_loop rd (offset + 1) acc' (shift + 7) c')
      | (Err e, c') \<Rightarrow> (Err e, c')
      | (Panic, c') \<Rightarrow> (Panic, c'))"
  by pat_completeness auto
termination
  by (relation "measure (\<lambda>(rd, off, acc, shift, c). 64 - shift)") auto

declare leb128_loop.simps [simp del]

definition leb128_impl :: "reader \<Rightarrow> nat \<Rightarrow> (CachedMemReader, u64 \<times> u8 \<times> nat \<times> nat, ErrorCode) sres" where
  "leb128_impl rd offset = leb128_loop rd offset 0 0"

definition eat_uleb128 :: "reader \<Rightarrow> nat \<Rightarrow> (CachedMemReader, u64 \<times> nat, ErrorCode) sres" where
  "eat_uleb128 rd offset = sbind (leb128_impl rd offset) (\<lambda>(v, b, s, off). sret (v, off))"

definition eat_sleb128 :: "reader \<Rightarrow> nat \<Rightarrow> (CachedMemReader, u64 \<times> nat, ErrorCode) sres" where
  "eat_sleb128 rd offset = sbind (leb128_impl rd offset)
     (\<lambda>(v, b, s, off). sret (if b AND 0x40 \<noteq> 0 \<and> s < 64 then v OR push_bit s (NOT 0) else v, off))"

text \<open>
  \<open>read_null_terminated\<close>: \<open>acc\<close> is what was read before; the chunks are aligned to their size,
  which doubles up to a page.
\<close>

definition chunk_len :: "nat \<Rightarrow> nat \<Rightarrow> nat" where
  "chunk_len chunk offset = (offset - offset mod chunk) + chunk - offset"

lemma chunk_len_pos: "0 < chunk \<Longrightarrow> 0 < chunk_len chunk offset"
  using mod_less_divisor [of chunk offset] mod_less_eq_dividend [of offset chunk]
  unfolding chunk_len_def by linarith

lemma chunk_progress: "a < l \<Longrightarrow> 0 < m \<Longrightarrow> l - (a + min m (l - a)) < l - (a :: nat)"
  by linarith

function null_terminated_loop :: "reader \<Rightarrow> nat \<Rightarrow> nat \<Rightarrow> nat \<Rightarrow> bytes \<Rightarrow>
    (CachedMemReader, bytes \<times> bool, ErrorCode) sres" where
  "null_terminated_loop rd limit chunk offset acc c =
     (if chunk = 0 then (Panic, c)
      else if length acc < limit then
        (if offset - offset mod chunk + chunk \<ge> 2 ^ 64 then (Panic, c) else
         let m = chunk_len chunk offset; n = min m (limit - length acc) in
         case read_uninit rd offset n c of
           (Ok bs, c') \<Rightarrow>
             (if 0 \<in> set bs then (Ok (acc @ takeWhile (\<lambda>b. b \<noteq> 0) bs, True), c')
              else if length bs \<noteq> n then (Panic, c')
              else null_terminated_loop rd limit
                     (if n = chunk \<and> chunk < PAGE_SIZE then 2 * chunk else chunk) (offset + n) (acc @ bs) c')
         | (Err e, c') \<Rightarrow> (Err e, c')
         | (Panic, c') \<Rightarrow> (Panic, c'))
      else (Ok (acc, False), c))"
  by pat_completeness auto
termination
  by (relation "measure (\<lambda>(rd, limit, chunk, off, acc, c). limit - length acc)")
    (auto intro: chunk_progress chunk_len_pos)

declare null_terminated_loop.simps [simp del]

definition read_null_terminated :: "reader \<Rightarrow> nat \<Rightarrow> nat \<Rightarrow> (CachedMemReader, bytes \<times> bool, ErrorCode) sres" where
  "read_null_terminated rd offset limit = null_terminated_loop rd limit 128 offset []"

section \<open>Memory as a partial map\<close>

type_synonym memory = "nat \<Rightarrow> u8 option"

definition reads :: "memory \<Rightarrow> nat \<Rightarrow> nat \<Rightarrow> bytes \<Rightarrow> bool" where
  "reads mem a n bs \<longleftrightarrow> length bs = n \<and> (\<forall>k < n. mem (a + k) = Some (bs ! k))"

definition readable :: "memory \<Rightarrow> nat \<Rightarrow> nat \<Rightarrow> bool" where
  "readable mem a n \<longleftrightarrow> (\<forall>k < n. mem (a + k) \<noteq> None)"

definition paged :: "memory \<Rightarrow> bool" where
  "paged mem \<longleftrightarrow> (\<forall>a b. page_of a = page_of b \<longrightarrow> mem a \<noteq> None \<longrightarrow> mem b \<noteq> None)"

definition cache_ok :: "memory \<Rightarrow> CachedMemReader \<Rightarrow> bool" where
  "cache_ok mem c \<longleftrightarrow> (case cache_addr c of None \<Rightarrow> True
     | Some p \<Rightarrow> p mod PAGE_SIZE = 0 \<and> reads mem p PAGE_SIZE (cache_page c))"

lemma reads_length: "reads mem a n bs \<Longrightarrow> length bs = n"
  by (simp add: reads_def)

lemma reads_readable: "reads mem a n bs \<Longrightarrow> readable mem a n"
  by (simp add: reads_def readable_def)

lemma readable_reads: "readable mem a n \<Longrightarrow> reads mem a n (map (\<lambda>k. the (mem (a + k))) [0..<n])"
  by (auto simp: reads_def readable_def)

lemma reads_unique: "reads mem a n bs \<Longrightarrow> reads mem a n cs \<Longrightarrow> bs = cs"
  by (auto simp: reads_def intro: nth_equalityI)

lemma reads_append:
  assumes "reads mem a m bs" "reads mem (a + m) n cs" shows "reads mem a (m + n) (bs @ cs)"
  unfolding reads_def
proof (intro conjI allI impI)
  fix k assume k: "k < m + n"
  show "mem (a + k) = Some ((bs @ cs) ! k)"
  proof (cases "k < m")
    case False
    then have "k - m < n" "a + m + (k - m) = a + k" using k by auto
    with assms(1) assms(2) [unfolded reads_def, THEN conjunct2, rule_format, of "k - m"] False
    show ?thesis by (simp add: nth_append reads_def)
  qed (use assms in \<open>auto simp: reads_def nth_append\<close>)
qed (use assms in \<open>simp add: reads_def\<close>)

lemma reads_slice: "reads mem a n bs \<Longrightarrow> i + m \<le> n \<Longrightarrow> reads mem (a + i) m (take m (drop i bs))"
  by (auto simp: reads_def add.assoc)

lemma readable_append: "readable mem a (m + n) \<longleftrightarrow> readable mem a m \<and> readable mem (a + m) n"
proof
  assume "readable mem a m \<and> readable mem (a + m) n"
  then show "readable mem a (m + n)" by (metis reads_append reads_readable readable_reads)
qed (auto simp: readable_def add.assoc)

lemma page_of_le: "page_of a \<le> a"
  by (simp add: page_of_def)

lemma page_of_add: "page_of a + a mod PAGE_SIZE = a"
  by (simp add: page_of_def)

lemma page_of_mod [simp]: "page_of a mod PAGE_SIZE = 0"
  by (simp add: page_of_def minus_mod_eq_mult_div)

lemma page_of_mono: "a \<le> b \<Longrightarrow> page_of a \<le> page_of b"
  by (simp add: page_of_def minus_mod_eq_mult_div div_le_mono)

lemma page_of_idem [simp]: "page_of (page_of a) = page_of a"
  using page_of_mod [of a] by (simp only: page_of_def)

lemma page_of_offset: "p mod PAGE_SIZE = 0 \<Longrightarrow> k < PAGE_SIZE \<Longrightarrow> page_of (p + k) = p"
  by (simp add: page_of_def mod_add_left_eq [symmetric] del: mod_add_left_eq)

lemma next_page_le: "page_of a < p \<Longrightarrow> p mod PAGE_SIZE = 0 \<Longrightarrow> page_of a + PAGE_SIZE \<le> p"
proof -
  assume lt: "page_of a < p" and "p mod PAGE_SIZE = 0"
  then have "p = PAGE_SIZE * (p div PAGE_SIZE)" "page_of a = PAGE_SIZE * (page_of a div PAGE_SIZE)"
    by (metis add_0 mod_mult_div_eq, metis add_0 mod_mult_div_eq page_of_mod)
  moreover from this have "page_of a div PAGE_SIZE < p div PAGE_SIZE" using lt by linarith
  ultimately show ?thesis by linarith
qed

lemma page_left_end: "offset + page_left offset = page_of offset + PAGE_SIZE"
  using page_of_add [of offset] mod_less_divisor [of PAGE_SIZE offset] unfolding page_left_def by linarith

lemma page_end: "a < page_of a + PAGE_SIZE"
  unfolding page_of_def using mod_less_divisor [of PAGE_SIZE a] by linarith

lemma paged_page:
  assumes "paged mem" "mem a \<noteq> None" shows "readable mem (page_of a) PAGE_SIZE"
  unfolding readable_def
proof (intro allI impI)
  fix k assume "k < PAGE_SIZE"
  then have "page_of (page_of a + k) = page_of a" by (intro page_of_offset) simp_all
  with assms show "mem (page_of a + k) \<noteq> None" unfolding paged_def by metis
qed

section \<open>The contract of a source of memory\<close>

locale byte_memory =
  fixes ok :: "'s \<Rightarrow> bool" and rd :: "'s \<Rightarrow> nat \<Rightarrow> nat \<Rightarrow> bytes eres" and mem :: "'s \<Rightarrow> nat \<Rightarrow> u8 option"
  assumes rd_Ok: "ok s \<Longrightarrow> a + n \<le> 2 ^ 64 \<Longrightarrow> rd s a n = Ok bs \<longleftrightarrow> reads (mem s) a n bs"
    and rd_no_panic: "ok s \<Longrightarrow> a + n \<le> 2 ^ 64 \<Longrightarrow> rd s a n \<noteq> Panic"
begin

lemma rd_cases:
  assumes "ok s" "a + n \<le> 2 ^ 64"
  obtains bs where "rd s a n = Ok bs" "reads (mem s) a n bs"
    | e where "rd s a n = Err e" "\<not> readable (mem s) a n"
  using rd_no_panic [OF assms] rd_Ok [OF assms] readable_reads [of "mem s" a n]
  by (cases "rd s a n") auto

lemma read_chunk_spec:
  assumes "ok s" "cache_ok (mem s) c" "offset + page_left offset \<le> 2 ^ 64"
  shows "(\<exists>bs. read_chunk (rd s) c offset = Ok bs \<and> reads (mem s) offset (page_left offset) bs)
    \<or> (\<exists>e. read_chunk (rd s) c offset = Err e \<and> \<not> readable (mem s) offset (page_left offset))"
proof (cases "cache_addr c = Some (page_of offset)")
  case True
  then have "reads (mem s) (page_of offset) PAGE_SIZE (cache_page c)"
    using assms(2) by (simp add: cache_ok_def)
  from reads_slice [OF this, of "offset mod PAGE_SIZE" "page_left offset"] show ?thesis
    using True by (simp add: read_chunk_def page_of_add page_left_def)
next
  case False
  then have "read_chunk (rd s) c offset = rd s offset (page_left offset)" by (simp add: read_chunk_def)
  then show ?thesis by (metis assms(1,3) rd_cases)
qed

lemma read_head_spec:
  assumes "ok s" "cache_ok (mem s) c" "0 < n" "offset + n < 2 ^ 64" "lp = page_of (offset + n - 1)"
  shows "(\<exists>bs. read_head (rd s) c lp offset n = Ok (bs, max offset lp, n - (lp - offset))
            \<and> reads (mem s) offset (lp - offset) bs)
       \<or> (\<exists>e. read_head (rd s) c lp offset n = Err e \<and> \<not> readable (mem s) offset (lp - offset))"
  using assms
proof (induction "rd s" c lp offset n rule: read_head.induct)
  case (1 c lp offset n)
  let ?len = "page_left offset"
  have lpm: "lp mod PAGE_SIZE = 0" "lp \<le> offset + n - 1" using "1.prems"(5) page_of_le by auto
  show ?case
  proof (cases "page_of offset < lp")
    case False
    then have "lp \<le> offset" using page_of_mono page_of_le [of offset] page_of_idem
      by (metis "1.prems"(5) linorder_le_cases order.trans not_less)
    with False show ?thesis
      by (simp add: read_head.simps [of "rd s" c lp] reads_def max_def)
  next
    case True
    have nx: "offset + ?len \<le> lp" using next_page_le [OF True lpm(1)] page_left_end by simp
    then have len: "?len \<le> n" "0 < n - ?len" "offset + ?len + (n - ?len) = offset + n"
      and b: "offset + ?len \<le> 2 ^ 64" and sp: "lp - offset = ?len + (lp - (offset + ?len))"
      using lpm(2) "1.prems"(3,4) by linarith+
    from read_chunk_spec [OF "1.prems"(1,2) b] show ?thesis
    proof (elim disjE exE conjE)
      fix e assume "read_chunk (rd s) c offset = Err e" "\<not> readable (mem s) offset ?len"
      then show ?thesis using True len(1) by (simp add: read_head.simps [of "rd s" c lp] sp readable_append)
    next
      fix bs assume ch: "read_chunk (rd s) c offset = Ok bs" and rb: "reads (mem s) offset ?len bs"
      have eq: "read_head (rd s) c lp offset n = rbind (read_head (rd s) c lp (offset + ?len) (n - ?len))
             (\<lambda>(cs, off, m). Ok (bs @ cs, off, m))"
        using True len(1) ch by (simp add: read_head.simps [of "rd s" c lp offset] Let_def)
      have "\<not> n < ?len" using len(1) by simp
      note hyp = "1.hyps" [OF True refl this "1.prems"(1,2) len(2), unfolded len(3), OF "1.prems"(4,5)]
      from hyp show ?thesis
      proof (elim disjE exE conjE)
        fix cs assume "read_head (rd s) c lp (offset + ?len) (n - ?len) = Ok (cs, max (offset + ?len) lp,
            n - ?len - (lp - (offset + ?len)))" "reads (mem s) (offset + ?len) (lp - (offset + ?len)) cs"
        then have "reads (mem s) offset (?len + (lp - (offset + ?len))) (bs @ cs)"
          and "read_head (rd s) c lp offset n = Ok (bs @ cs, max (offset + ?len) lp, n - ?len - (lp - (offset + ?len)))"
          using eq reads_append [OF rb] by simp_all
        moreover have "max (offset + ?len) lp = max offset lp" "n - ?len - (lp - (offset + ?len)) = n - (lp - offset)"
          using nx by simp_all
        ultimately show ?thesis by (metis sp)
      next
        fix e assume "read_head (rd s) c lp (offset + ?len) (n - ?len) = Err e"
          "\<not> readable (mem s) (offset + ?len) (lp - (offset + ?len))"
        then show ?thesis using eq by (simp add: sp readable_append)
      qed
    qed
  qed
qed

lemma fill_cache_spec:
  assumes "ok s" "cache_ok (mem s) c" "p mod PAGE_SIZE = 0" "p + PAGE_SIZE \<le> 2 ^ 64"
  shows "cache_ok (mem s) (snd (fill_cache (rd s) p c))
    \<and> (case fst (fill_cache (rd s) p c) of
         Ok _ \<Rightarrow> reads (mem s) p PAGE_SIZE (cache_page (snd (fill_cache (rd s) p c)))
       | Err _ \<Rightarrow> \<not> readable (mem s) p PAGE_SIZE
       | Panic \<Rightarrow> False)"
proof (cases "cache_addr c = Some p")
  case True
  with assms show ?thesis by (simp add: fill_cache_def cache_ok_def)
next
  case False
  from assms(1,4) show ?thesis
    by (rule rd_cases) (use False assms(3) in \<open>simp_all add: fill_cache_def cache_ok_def\<close>)
qed

lemma last_page_bounds:
  assumes "0 < n" "offset + n < 2 ^ 64" "lp = page_of (offset + n - 1)"
  defines "off \<equiv> max offset lp" and "m \<equiv> n - (lp - offset)"
  shows "lp + PAGE_SIZE \<le> 2 ^ 64" "0 < m" "lp \<le> off" "lp + off mod PAGE_SIZE = off"
    "off mod PAGE_SIZE + m \<le> PAGE_SIZE" "off = offset + (lp - offset)" "n = (lp - offset) + m"
proof -
  have lp: "lp \<le> offset + n - 1" "offset + n - 1 < lp + PAGE_SIZE"
    using assms(3) page_of_le page_end by auto
  show "lp + PAGE_SIZE \<le> 2 ^ 64"
    using next_page_le [of "offset + n - 1" "2 ^ 64"] lp assms(2,3) by simp
  show "0 < m" "lp \<le> off" "off = offset + (lp - offset)" "n = (lp - offset) + m"
    using lp(1) assms(1) by (auto simp: off_def m_def max_def)
  then have "off \<le> offset + n - 1" by simp
  with \<open>lp \<le> off\<close> assms(3) have "page_of off = lp"
    by (metis page_of_idem page_of_mono order_antisym)
  then show e: "lp + off mod PAGE_SIZE = off" using page_of_add [of off] by simp
  have "off + m = offset + n" using \<open>off = offset + (lp - offset)\<close> \<open>n = (lp - offset) + m\<close> by simp
  then show "off mod PAGE_SIZE + m \<le> PAGE_SIZE" using e lp(2) assms(1) by linarith
qed

text \<open>The cached reader keeps its cache coherent and has the contract of the source it reads from.\<close>

lemma cached_read:
  assumes "ok s" "paged (mem s)" "cache_ok (mem s) c" "a < 2 ^ 64"
  shows "cache_ok (mem s) (snd (read_uninit (rd s) a n c))
    \<and> (case fst (read_uninit (rd s) a n c) of
         Ok bs \<Rightarrow> reads (mem s) a n bs
       | Err _ \<Rightarrow> a + n \<ge> 2 ^ 64 \<or> \<not> readable (mem s) a n
       | Panic \<Rightarrow> False)"
proof (cases "n = 0 \<or> a + n \<ge> 2 ^ 64")
  case True
  with assms show ?thesis by (auto simp: read_uninit_def reads_def)
next
  case False
  let ?lp = "page_of (a + n - 1)"
  let ?off = "max a ?lp" and ?m = "n - (?lp - a)"
  have n: "0 < n" "a + n < 2 ^ 64" using False by auto
  note lb = last_page_bounds [OF n refl]
  have guard: "n \<noteq> 0" "\<not> n > 2 ^ 64 - 1 - a" using n by auto
  have unf: "read_uninit (rd s) a n c = sbind (\<lambda>c. (read_head (rd s) c ?lp a n, c))
          (\<lambda>(bs, off, m). sbind (fill_cache (rd s) ?lp)
            (\<lambda>_ c. (if off mod PAGE_SIZE + m > length (cache_page c) then Panic
                else Ok (bs @ take m (drop (off mod PAGE_SIZE) (cache_page c))), c))) c"
    unfolding read_uninit_def Let_def if_not_P [OF guard(1)] if_not_P [OF guard(2)] ..
  from read_head_spec [OF assms(1,3) n refl] show ?thesis
  proof (elim disjE exE conjE)
    fix e assume e: "read_head (rd s) c ?lp a n = Err e" "\<not> readable (mem s) a (?lp - a)"
    have "\<not> readable (mem s) a n" using e(2) by (subst lb(7)) (simp add: readable_append)
    then show ?thesis using e(1) assms(3) by (simp add: unf)
  next
    fix bs assume b: "read_head (rd s) c ?lp a n = Ok (bs, ?off, ?m)" "reads (mem s) a (?lp - a) bs"
    obtain r c' where f: "fill_cache (rd s) ?lp c = (r, c')" by fastforce
    note fc = fill_cache_spec [OF assms(1,3) page_of_mod lb(1), unfolded f fst_conv snd_conv]
    show ?thesis
    proof (cases r)
      case (Ok u)
      with fc have pg: "reads (mem s) ?lp PAGE_SIZE (cache_page c')" by simp
      have "reads (mem s) ?off ?m (take ?m (drop (?off mod PAGE_SIZE) (cache_page c')))"
        using reads_slice [OF pg lb(5)] by (simp only: lb(4))
      then have "reads (mem s) a n (bs @ take ?m (drop (?off mod PAGE_SIZE) (cache_page c')))"
        using reads_append [OF b(2), of ?m] lb(6,7) by metis
      then show ?thesis
        using Ok f fc b(1) lb(5) reads_length [OF pg] by (simp add: unf)
    next
      case (Err e)
      with fc have "\<not> readable (mem s) ?lp PAGE_SIZE" by simp
      then have "mem s ?off = None" using paged_page [OF assms(2), of ?off] lb(3,4)
        by (metis lb(5) lb(2) page_of_offset page_of_mod less_add_same_cancel1 order_less_le_trans)
      then have "\<not> readable (mem s) (a + (?lp - a)) ?m" using lb(2,6) by (metis add_0_right readable_def)
      then have "\<not> readable (mem s) a n" by (subst lb(7)) (simp add: readable_append)
      then show ?thesis using Err f fc b(1) by (simp add: unf)
    qed (use fc in simp)
  qed
qed

lemma read_u8_spec:
  assumes "ok s" "paged (mem s)" "cache_ok (mem s) c" "a < 2 ^ 64"
  shows "cache_ok (mem s) (snd (read_u8 (rd s) a c))
    \<and> (case fst (read_u8 (rd s) a c) of
         Ok b \<Rightarrow> mem s a = Some b
       | Err _ \<Rightarrow> a + 1 \<ge> 2 ^ 64 \<or> mem s a = None
       | Panic \<Rightarrow> False)"
proof (cases "cache_addr c = Some (page_of a)")
  case True
  then have "reads (mem s) (page_of a) PAGE_SIZE (cache_page c)" using assms(3) by (simp add: cache_ok_def)
  then have "mem s (page_of a + a mod PAGE_SIZE) = Some (cache_page c ! (a mod PAGE_SIZE))"
    by (simp add: reads_def)
  then show ?thesis using True assms(3) by (simp add: read_u8_def page_of_add)
next
  case False
  obtain r c' where r: "read_uninit (rd s) a 1 c = (r, c')" by fastforce
  note spec = cached_read [OF assms, of 1, unfolded r fst_conv snd_conv]
  have "read_u8 (rd s) a c = (case r of Ok bs \<Rightarrow> Ok (hd bs) | Err e \<Rightarrow> Err e | Panic \<Rightarrow> Panic, c')"
    using False r by (cases r) (simp_all add: read_u8_def sret_def)
  then show ?thesis
    using spec by (cases r) (auto simp: reads_def readable_def length_Suc_conv)
qed

lemma read_u8_Ok:
  assumes "ok s" "paged (mem s)" "cache_ok (mem s) c" "a + 1 < 2 ^ 64" "mem s a = Some b"
  shows "\<exists>c'. read_u8 (rd s) a c = (Ok b, c') \<and> cache_ok (mem s) c'"
proof -
  obtain r c' where r: "read_u8 (rd s) a c = (r, c')" by fastforce
  have "a < 2 ^ 64" using assms(4) by simp
  from read_u8_spec [OF assms(1-3) this, unfolded r] show ?thesis
    using assms(4,5) r by (cases r) simp_all
qed

lemma cached_read_Ok:
  assumes "ok s" "paged (mem s)" "cache_ok (mem s) c" "a + n < 2 ^ 64" "reads (mem s) a n bs"
  shows "\<exists>c'. read_uninit (rd s) a n c = (Ok bs, c') \<and> cache_ok (mem s) c'"
proof -
  have "a < 2 ^ 64" using assms(4) by simp
  obtain r c' where r: "read_uninit (rd s) a n c = (r, c')" by fastforce
  from cached_read [OF assms(1-3) \<open>a < 2 ^ 64\<close>, of n, unfolded r] show ?thesis
    using assms(4) r reads_unique [OF _ assms(5)] reads_readable [OF assms(5)] by (cases r) simp_all
qed

end

section \<open>LEB128\<close>

text \<open>The encoding of the DWARF standard.\<close>

fun uleb_encode :: "nat \<Rightarrow> bytes" where
  "uleb_encode m = (if m < 128 then [word_of_nat m]
     else word_of_nat (128 + m mod 128) # uleb_encode (m div 128))"

declare uleb_encode.simps [simp del]

lemma and_0x80: "(b :: u8) AND 0x80 = 0 \<longleftrightarrow> \<not> bit b 7"
  using and_exp_eq_0_iff_not_bit [of b 7] by simp

lemma and_0x7F: "(b :: u8) AND 0x7F = take_bit 7 b"
  by (simp add: take_bit_eq_mask mask_eq_exp_minus_1)

lemma uleb_byte_last: "m < 128 \<Longrightarrow> (word_of_nat m :: u8) AND 0x80 = 0"
proof -
  assume "m < 128"
  then have "\<not> bit m 7" by (simp add: bit_iff_odd)
  then show ?thesis by (simp add: and_0x80 bit_simps)
qed

lemma uleb_byte_more: "(word_of_nat (128 + m mod 128) :: u8) AND 0x80 \<noteq> 0"
proof -
  have "(128 + m mod 128) div 128 = (1 :: nat)" by (intro div_nat_eqI) simp_all
  then have "bit (128 + m mod 128 :: nat) 7" by (simp add: bit_iff_odd)
  then show ?thesis by (simp add: and_0x80 bit_simps del: of_nat_add)
qed

lemma word_split7:
  "(word_of_nat m :: u64) = word_of_nat (m mod 128) OR push_bit 7 (word_of_nat (m div 128))"
proof (rule bit_word_eqI)
  fix n assume "n < LENGTH(64)"
  moreover have "m mod 128 = take_bit 7 m" "m div 128 = drop_bit 7 m"
    by (simp_all add: take_bit_eq_mod drop_bit_eq_div)
  ultimately show "bit (word_of_nat m :: u64) n =
      bit (word_of_nat (m mod 128) OR push_bit 7 (word_of_nat (m div 128)) :: u64) n"
    by (auto simp: bit_simps)
qed

lemma ucast_and_0x7F: "ucast ((word_of_nat n :: u8) AND 0x7F) = (word_of_nat (n mod 128) :: u64)"
proof -
  have "ucast ((word_of_nat n :: u8) AND 0x7F) = (word_of_nat (take_bit 7 n) :: u64)"
    unfolding and_0x7F by (rule bit_word_eqI) (auto simp: bit_simps)
  then show ?thesis by (simp add: take_bit_eq_mod)
qed

lemma reads_Cons: "reads mem a (length (b # bs)) (b # bs) \<longleftrightarrow> mem a = Some b \<and> reads mem (a + 1) (length bs) bs"
  by (auto simp: reads_def less_Suc_eq_0_disj)

context byte_memory
begin

lemma leb128_loop_uleb:
  assumes "ok s" "paged (mem s)" "cache_ok (mem s) c" "m * 2 ^ shift < 2 ^ 64"
    and "reads (mem s) a (length (uleb_encode m)) (uleb_encode m)" "a + length (uleb_encode m) < 2 ^ 64"
  shows "\<exists>c' b k. leb128_loop (rd s) a acc shift c =
      (Ok (acc OR push_bit shift (word_of_nat m), b, k, a + length (uleb_encode m)), c') \<and> cache_ok (mem s) c'"
  using assms(3-)
proof (induction m arbitrary: a acc shift c rule: uleb_encode.induct)
  case (1 m)
  show ?case
  proof (cases "m < 128")
    case True
    then have e: "uleb_encode m = [word_of_nat m]" by (simp add: uleb_encode.simps)
    with "1.prems"(3,4) have "mem s a = Some (word_of_nat m)" "a + 1 < 2 ^ 64" by (auto simp: reads_def)
    with read_u8_Ok [OF assms(1,2) "1.prems"(1)] obtain c'
      where "read_u8 (rd s) a c = (Ok (word_of_nat m), c')" "cache_ok (mem s) c'" by blast
    with True \<open>a + 1 < 2 ^ 64\<close> show ?thesis
      by (simp add: e leb128_loop.simps [of "rd s" a] uleb_byte_last ucast_and_0x7F Let_def)
  next
    case False
    let ?b = "word_of_nat (128 + m mod 128) :: u8" and ?m = "m div 128"
    have e: "uleb_encode m = ?b # uleb_encode ?m" using False by (simp add: uleb_encode.simps [of m])
    with "1.prems"(3,4) have b: "mem s a = Some ?b" "a + 1 < 2 ^ 64"
      and rest: "reads (mem s) (a + 1) (length (uleb_encode ?m)) (uleb_encode ?m)"
      using reads_Cons [of "mem s" a] by auto
    obtain c' where c': "read_u8 (rd s) a c = (Ok ?b, c')" "cache_ok (mem s) c'"
      using read_u8_Ok [OF assms(1,2) "1.prems"(1) b(2,1)] by blast
    have "?m * 2 ^ (shift + 7) \<le> m * 2 ^ shift" by (simp add: power_add)
    then have m: "?m * 2 ^ (shift + 7) < 2 ^ 64" using "1.prems"(2) by linarith
    moreover have "1 \<le> ?m" using False by simp
    ultimately have "2 ^ (shift + 7) < (2 :: nat) ^ 64" by (metis le_trans mult_le_mono1 nat_mult_1 not_le)
    then have sh: "\<not> shift + 7 \<ge> 64" by (simp only: power_strict_increasing_iff)
    let ?acc = "acc OR push_bit shift (ucast (?b AND 0x7F))"
    have acc: "?acc OR push_bit (shift + 7) (word_of_nat ?m) = acc OR push_bit shift (word_of_nat m)"
      unfolding ucast_and_0x7F by (subst (3) word_split7) (simp add: push_bit_or ac_simps)
    have "leb128_loop (rd s) a acc shift c = leb128_loop (rd s) (a + 1) ?acc (shift + 7) c'"
      using c'(1) b(2) sh uleb_byte_more [of m] by (simp add: leb128_loop.simps [of "rd s" a] Let_def del: of_nat_add)
    moreover have "a + 1 + length (uleb_encode ?m) < 2 ^ 64" using "1.prems"(4) e by simp
    from "1.IH" [OF False c'(2) m rest this, of ?acc, unfolded acc] obtain d b k where
      "leb128_loop (rd s) (a + 1) ?acc (shift + 7) c' =
        (Ok (acc OR push_bit shift (word_of_nat m), b, k, a + 1 + length (uleb_encode ?m)), d)"
      "cache_ok (mem s) d" by blast
    moreover have "a + 1 + length (uleb_encode ?m) = a + length (uleb_encode m)" by (simp add: e)
    ultimately show ?thesis by metis
  qed
qed

lemma eat_uleb128_encoded:
  assumes "ok s" "paged (mem s)" "cache_ok (mem s) c" "m < 2 ^ 64"
    and "reads (mem s) a (length (uleb_encode m)) (uleb_encode m)" "a + length (uleb_encode m) < 2 ^ 64"
  shows "\<exists>c'. eat_uleb128 (rd s) a c = (Ok (word_of_nat m, a + length (uleb_encode m)), c') \<and> cache_ok (mem s) c'"
  using leb128_loop_uleb [OF assms(1-3) _ assms(5,6), of 0 0] assms(4)
  by (auto simp: eat_uleb128_def leb128_impl_def sret_def)

text \<open>
  A string that ends within the limit is found, although the chunks run past its terminator.
\<close>

lemma chunk_in_page:
  assumes "mem s a \<noteq> None" "paged (mem s)" "chunk = 2 ^ k" "k \<le> 12" "n \<le> chunk_len chunk a"
  shows "readable (mem s) a n"
proof -
  have "chunk dvd PAGE_SIZE" using assms(3,4) le_imp_power_dvd [of k 12 "2 :: nat"] by simp
  then obtain j where j: "PAGE_SIZE = chunk * j" by (rule dvdE)
  have c: "0 < chunk" by (simp add: assms(3))
  have "a mod PAGE_SIZE = chunk * (a div chunk mod j) + a mod chunk" unfolding j by (rule mod_mult2_eq)
  moreover have "a div chunk mod j < j" using j by (intro mod_less_divisor) (metis c mult_0_right gr0I zero_neq_numeral)
  then have "chunk * (a div chunk mod j) + chunk \<le> PAGE_SIZE"
    unfolding j by (metis Suc_leI add.commute mult_Suc_right mult_le_mono2)
  moreover have "chunk_len chunk a = chunk - a mod chunk"
    unfolding chunk_len_def using mod_less_divisor [OF c, of a] mod_less_eq_dividend [of a chunk] by linarith
  moreover have "a mod chunk < chunk" using c by simp
  ultimately have "a mod PAGE_SIZE + n \<le> PAGE_SIZE" using assms(5) by linarith
  then show ?thesis
    using paged_page [OF assms(2,1)] unfolding readable_def
    by (metis (no_types, lifting) add.assoc add_less_cancel_left order_less_le_trans page_of_add)
qed

lemma null_terminated_loop_finds:
  assumes "ok s" "paged (mem s)" "cache_ok (mem s) c" "chunk = 2 ^ k" "k \<le> 12"
    and "reads (mem s) a (length (str @ [0])) (str @ [0])" "0 \<notin> set str"
    and "length acc + length str < limit" "a + length str + 2 * PAGE_SIZE < 2 ^ 64"
  shows "\<exists>c'. null_terminated_loop (rd s) limit chunk a acc c = (Ok (acc @ str, True), c') \<and> cache_ok (mem s) c'"
  using assms(3-)
proof (induction "length str" arbitrary: str a acc chunk k c rule: less_induct)
  case less
  let ?n = "min (chunk_len chunk a) (limit - length acc)"
  have c: "0 < chunk" "chunk \<le> PAGE_SIZE"
    using less.prems(2,3) power_increasing [of k 12 "2 :: nat"] by auto
  have cl: "0 < ?n" "?n \<le> chunk_len chunk a" "chunk_len chunk a \<le> chunk"
    using chunk_len_pos [OF c(1), of a] less.prems(6) mod_less_eq_dividend [of a chunk]
    unfolding chunk_len_def by auto
  have "mem s a \<noteq> None" using less.prems(4) by (force simp: reads_def)
  then have "readable (mem s) a ?n" by (rule chunk_in_page [OF _ assms(2) less.prems(2,3) cl(2)])
  then obtain bs where bs: "reads (mem s) a ?n bs" using readable_reads by blast
  have g: "\<not> a - a mod chunk + chunk \<ge> 2 ^ 64" "a + ?n < 2 ^ 64" using less.prems(7) c(2) cl by linarith+
  from cached_read_Ok [OF assms(1,2) less.prems(1) g(2) bs]
  obtain c' where c': "read_uninit (rd s) a ?n c = (Ok bs, c')" "cache_ok (mem s) c'" by blast
  have nth: "bs ! i = (str @ [0]) ! i" if "i < ?n" "i \<le> length str" for i
    using that bs less.prems(4) by (force simp: reads_def)
  note unf = null_terminated_loop.simps [of "rd s" limit chunk a acc c]
  have lb: "length bs = ?n" using bs by (rule reads_length)
  show ?case
  proof (cases "length str < ?n")
    case True
    have "takeWhile (\<lambda>b. b \<noteq> 0) bs = str"
    proof -
      have "take (length str) bs = str" using True nth lb by (intro nth_equalityI) (auto simp: nth_append)
      moreover have "bs ! length str = 0" using True nth [of "length str"] by simp
      ultimately have "bs = str @ 0 # drop (Suc (length str)) bs"
        using id_take_nth_drop [of "length str" bs] True lb by simp
      then show ?thesis using less.prems(5)
        by (metis (mono_tags, lifting) takeWhile_append2 takeWhile.simps(2) append_Nil2)
    qed
    moreover have "0 \<in> set bs" using True nth [of "length str"] lb by (metis in_set_conv_nth nth_append_length order_refl)
    ultimately show ?thesis using c' c(1) g(1) less.prems(6) unfolding unf by (simp add: Let_def)
  next
    case False
    have pre: "bs = take ?n str" using False nth lb by (intro nth_equalityI) (auto simp: nth_append)
    then have nz: "0 \<notin> set bs" using less.prems(5) by (metis in_set_takeD)
    have rec: "null_terminated_loop (rd s) limit chunk a acc c = null_terminated_loop (rd s) limit
        (if ?n = chunk \<and> chunk < PAGE_SIZE then 2 * chunk else chunk) (a + ?n) (acc @ bs) c'"
      using c' c(1) g(1) less.prems(6) nz lb unfolding unf by (simp add: Let_def)
    obtain k' where k': "(if ?n = chunk \<and> chunk < PAGE_SIZE then 2 * chunk else chunk) = 2 ^ k'" "k' \<le> 12"
    proof (cases "?n = chunk \<and> chunk < PAGE_SIZE")
      case True
      then have "2 ^ k < (2 :: nat) ^ 12" using less.prems(2) by simp
      then have "k < 12" by (simp only: power_strict_increasing_iff)
      with True show ?thesis using that [of "Suc k"] less.prems(2) by simp
    next
      case False
      then have "(if ?n = chunk \<and> chunk < PAGE_SIZE then 2 * chunk else chunk) = 2 ^ k"
        using less.prems(2) by (simp only: if_not_P if_False)
      then show ?thesis using that less.prems(3) by blast
    qed
    have le: "?n \<le> length str" using False by (simp only: not_less)
    have len: "length (drop ?n str @ [0]) = length (str @ [0]) - ?n"
      using Suc_diff_le [OF le] by (simp del: min_def)
    have "drop ?n (str @ [0]) = drop ?n str @ [0]" using le by (simp only: drop_append diff_is_0_eq' drop_0)
    then have rd: "reads (mem s) (a + ?n) (length (drop ?n str @ [0])) (drop ?n str @ [0])"
      using reads_slice [OF less.prems(4), of ?n "length (str @ [0]) - ?n"] le unfolding len by simp
    have tail: "0 \<notin> set (drop ?n str)" "length (acc @ bs) + length (drop ?n str) < limit"
        "a + ?n + length (drop ?n str) + 2 * PAGE_SIZE < 2 ^ 64"
      using less.prems(5) less.prems(6,7) False lb by (auto dest: in_set_dropD)
    have "length (drop ?n str) < length str"
      using False cl(1) unfolding length_drop by linarith
    from less.hyps [OF this c'(2) refl k'(2) rd tail]
    obtain d where d: "null_terminated_loop (rd s) limit (2 ^ k') (a + ?n) (acc @ bs) c'
        = (Ok ((acc @ bs) @ drop ?n str, True), d)" "cache_ok (mem s) d" by blast
    have "(acc @ bs) @ drop ?n str = acc @ str" by (subst pre) simp
    with d show ?thesis unfolding rec k'(1) by (metis (no_types))
  qed
qed

end

end
