(* ===== verification/CoreDump.thy ===== *)
theory CoreDump
  imports MemReader
begin

text \<open>
  Core dumps, from \<open>src/elf.rs\<close>: how \<open>parse_core_dump\<close> makes address ranges of the loaded
  segments, how \<open>CoreDumpMemReader\<close> reads through them, and the parser of ELF notes. The
  reader is interpreted as a \<open>byte_memory\<close>, so that the cached reader on a core dump inherits
  the client lemmas of that locale. Address sums are sums of natural numbers; \<open>core_ok\<close> bounds
  them, so those of the code do not overflow.
\<close>

section \<open>Ranges of a core dump\<close>

datatype CoreDumpMemorySource = Zero | File bytes nat | MissingFile

record CoreDumpMemoryRange =
  start_address :: nat
  range_size :: nat
  source :: CoreDumpMemorySource
  permissions :: u8

record ElfSegment =
  segment_type :: u32
  seg_flags :: u32
  seg_offset :: nat
  seg_address :: nat
  size_in_file :: nat
  size_in_memory :: nat

definition segment_permissions :: "ElfSegment \<Rightarrow> u8" where
  "segment_permissions sg =
     (if seg_flags sg AND 4 \<noteq> 0 then 1 else 0)
     OR (if seg_flags sg AND 2 \<noteq> 0 then 2 else 0)
     OR (if seg_flags sg AND 1 \<noteq> 0 then 4 else 0)"

text \<open>One \<open>PT_LOAD\<close> segment: the part that is in the file and the part that is not.\<close>

definition segment_ranges :: "bytes \<Rightarrow> ElfSegment \<Rightarrow> (CoreDumpMemoryRange list, ErrorCode) result" where
  "segment_ranges data sg =
     (if segment_type sg \<noteq> 1 then Ok []
      else (let perms = segment_permissions sg;
                a = (if size_in_file sg > 0
                     then [\<lparr>start_address = seg_address sg, range_size = min (size_in_file sg) (size_in_memory sg),
                            source = File data (seg_offset sg), permissions = perms\<rparr>] else [])
            in if size_in_file sg < size_in_memory sg
               then (if seg_address sg + size_in_file sg \<ge> 2 ^ 64 then Panic
                     else Ok (a @ [\<lparr>start_address = seg_address sg + size_in_file sg,
                                    range_size = size_in_memory sg - size_in_file sg,
                                    source = Zero, permissions = perms\<rparr>]))
               else Ok a))"

fun segments_ranges :: "bytes \<Rightarrow> ElfSegment list \<Rightarrow> (CoreDumpMemoryRange list, ErrorCode) result" where
  "segments_ranges data [] = Ok []"
| "segments_ranges data (sg # sgs) = rbind (segment_ranges data sg)
     (\<lambda>rs. rbind (segments_ranges data sgs) (\<lambda>rs'. Ok (rs @ rs')))"

text \<open>The loop that cuts a range where the next one starts.\<close>

fun trim_overlaps :: "CoreDumpMemoryRange list \<Rightarrow> CoreDumpMemoryRange list" where
  "trim_overlaps (a # b # rs) =
     (let diff = start_address b - start_address a in
      (if range_size a > diff then a\<lparr>range_size := diff\<rparr> else a) # trim_overlaps (b # rs))"
| "trim_overlaps rs = rs"

definition core_ranges :: "bytes \<Rightarrow> ElfSegment list \<Rightarrow> (CoreDumpMemoryRange list, ErrorCode) result" where
  "core_ranges data sgs = rbind (segments_ranges data sgs)
     (\<lambda>rs. Ok (List.filter (\<lambda>r. range_size r > 0) (trim_overlaps (sort_key start_address rs))))"

section \<open>Reading\<close>

abbreviation range_end :: "CoreDumpMemoryRange \<Rightarrow> nat" where
  "range_end r \<equiv> start_address r + range_size r"

text \<open>One pass of the loop: \<open>n\<close> bytes at \<open>skip\<close> within a range.\<close>

fun source_chunk :: "CoreDumpMemorySource \<Rightarrow> nat \<Rightarrow> nat \<Rightarrow> bytes eres" where
  "source_chunk Zero skip n = Ok (replicate n 0)"
| "source_chunk (File f offset) skip n =
     (if offset + skip + n > length f then Err MalformedExecutable
      else Ok (take n (drop (offset + skip) f)))"
| "source_chunk MissingFile skip n = Err ProcessState"

text \<open>The loop from some index on, at the address \<open>a\<close> and with \<open>n\<close> bytes left.\<close>

fun read_ranges :: "CoreDumpMemoryRange list \<Rightarrow> nat \<Rightarrow> nat \<Rightarrow> bytes eres" where
  "read_ranges [] a n = (if n = 0 then Ok [] else Err ProcessState)"
| "read_ranges (r # rs) a n =
     (if n = 0 then Ok []
      else if start_address r > a then Err ProcessState
      else if range_end r \<le> a then Panic
      else (let m = min (range_end r - a) n in
        rbind (source_chunk (source r) (a - start_address r) m)
          (\<lambda>bs. rbind (read_ranges rs (a + m) (n - m)) (\<lambda>cs. Ok (bs @ cs)))))"

definition core_read :: "CoreDumpMemoryRange list \<Rightarrow> nat \<Rightarrow> nat \<Rightarrow> bytes eres" where
  "core_read rs addr n = read_ranges (drop (partition_point (\<lambda>r. range_end r \<le> addr) rs) rs) addr n"

text \<open>\<open>read_best_effort\<close> fills in what the files have and leaves the rest of the buffer alone.\<close>

definition best_effort_range :: "CoreDumpMemoryRange \<Rightarrow> nat \<Rightarrow> bytes \<Rightarrow> bytes" where
  "best_effort_range r addr buf = (case source r of
      File f offset \<Rightarrow>
        (let st = addr - start_address r;
             en = min (min (range_size r) (length f - offset)) (addr + length buf - start_address r)
         in if en \<le> st then buf
            else (let pos = start_address r + st - addr in
              take pos buf @ take (en - st) (drop (offset + st) f) @ drop (pos + (en - st)) buf))
    | Zero \<Rightarrow> buf
    | MissingFile \<Rightarrow> buf)"

fun best_effort_ranges :: "CoreDumpMemoryRange list \<Rightarrow> nat \<Rightarrow> bytes \<Rightarrow> bytes" where
  "best_effort_ranges [] addr buf = buf"
| "best_effort_ranges (r # rs) addr buf =
     (if start_address r \<ge> addr + length buf then buf
      else best_effort_ranges rs addr (best_effort_range r addr buf))"

definition read_best_effort :: "CoreDumpMemoryRange list \<Rightarrow> nat \<Rightarrow> bytes \<Rightarrow> bytes" where
  "read_best_effort rs addr buf =
     best_effort_ranges (drop (partition_point (\<lambda>r. range_end r \<le> addr) rs) rs) addr buf"

section \<open>Notes\<close>

record ElfNote =
  note_type :: u32
  note_name :: bytes
  note_desc :: bytes

definition pad4 :: "nat \<Rightarrow> nat" where
  "pad4 n = (n + 3) div 4 * 4"

definition parse_elf_note :: "bytes \<Rightarrow> (ElfNote \<times> bytes) option eres" where
  "parse_elf_note data =
     (if length data < 12 then Ok None
      else (let name_len = unat (from_le_bytes (take 4 data) :: u32);
                desc_len = unat (from_le_bytes (take 4 (drop 4 data)) :: u32);
                ty = from_le_bytes (take 4 (drop 8 data)) :: u32;
                name_len_padded = pad4 name_len;
                desc_len_padded = pad4 desc_len
            in if 12 + name_len_padded + desc_len_padded > length data then Err MalformedExecutable
               else Ok (Some (\<lparr>note_type = ty, note_name = take name_len (drop 12 data),
                     note_desc = take desc_len (drop (12 + name_len_padded) data)\<rparr>,
                   drop (12 + name_len_padded + desc_len_padded) data))))"

lemma parse_elf_note_progress: "parse_elf_note data = Ok (Some (nt, rest)) \<Longrightarrow> length rest + 12 \<le> length data"
  by (auto simp: parse_elf_note_def Let_def split: if_splits)

text \<open>The loop of \<open>parse_core_dump\<close> over a \<open>PT_NOTE\<close> segment.\<close>

function parse_notes :: "bytes \<Rightarrow> ElfNote list eres" where
  "parse_notes data = (case parse_elf_note data of
      Ok None \<Rightarrow> Ok []
    | Ok (Some (nt, rest)) \<Rightarrow> rbind (parse_notes rest) (\<lambda>nts. Ok (nt # nts))
    | Err e \<Rightarrow> Err e
    | Panic \<Rightarrow> Panic)"
  by pat_completeness auto
termination
  by (relation "measure length") (auto dest: parse_elf_note_progress)

declare parse_notes.simps [simp del]

section \<open>What the ranges mean\<close>

fun source_byte :: "CoreDumpMemorySource \<Rightarrow> nat \<Rightarrow> u8 option" where
  "source_byte Zero k = Some 0"
| "source_byte (File f offset) k = (if offset + k < length f then Some (f ! (offset + k)) else None)"
| "source_byte MissingFile k = None"

fun core_mem :: "CoreDumpMemoryRange list \<Rightarrow> nat \<Rightarrow> u8 option" where
  "core_mem [] a = None"
| "core_mem (r # rs) a = (if start_address r \<le> a \<and> a < range_end r
     then source_byte (source r) (a - start_address r) else core_mem rs a)"

definition core_sorted :: "CoreDumpMemoryRange list \<Rightarrow> bool" where
  "core_sorted rs \<longleftrightarrow> sorted_wrt (\<lambda>a b. range_end a \<le> start_address b) rs \<and> (\<forall>r \<in> set rs. 0 < range_size r)"

definition core_ok :: "CoreDumpMemoryRange list \<Rightarrow> bool" where
  "core_ok rs \<longleftrightarrow> core_sorted rs \<and> (\<forall>r \<in> set rs. range_end r < 2 ^ 64)"

lemma trim_overlaps_starts: "map start_address (trim_overlaps rs) = map start_address rs"
  by (induction rs rule: trim_overlaps.induct) (auto simp: Let_def)

lemma trim_overlaps_disjoint:
  "sorted (map start_address rs) \<Longrightarrow> sorted_wrt (\<lambda>a b. range_end a \<le> start_address b) (trim_overlaps rs)"
proof (induction rs rule: trim_overlaps.induct)
  case (1 a b rs)
  have s: "sorted (map start_address (b # rs))" using "1.prems" by simp
  have ge: "start_address b \<le> start_address x" if "x \<in> set (trim_overlaps (b # rs))" for x
  proof -
    have "start_address x \<in> set (map start_address (b # rs))"
      using that trim_overlaps_starts [of "b # rs"] by (metis image_eqI list.set_map)
    then show ?thesis using s by auto
  qed
  have "range_end a \<le> start_address x" if "x \<in> set (trim_overlaps (b # rs))"
      "\<not> start_address b - start_address a < range_size a" for x
    using ge [OF that(1)] that(2) "1.prems" by auto
  with ge 1 s show ?case by (simp add: Let_def)
qed auto

lemma core_ranges_sorted: "core_ranges data sgs = Ok rs \<Longrightarrow> core_sorted rs"
  by (auto simp: core_ranges_def core_sorted_def intro!: sorted_wrt_filter trim_overlaps_disjoint)

lemma core_mem_before: "(\<forall>r \<in> set rs. a < start_address r) \<Longrightarrow> core_mem rs a = None"
  by (induction rs) auto

lemma core_mem_append: "(\<forall>r \<in> set rs. range_end r \<le> a) \<Longrightarrow> core_mem (rs @ rs') a = core_mem rs' a"
  by (induction rs) auto

lemma source_chunk_spec:
  "source_chunk sc skip m \<noteq> Panic \<and>
   (source_chunk sc skip m = Ok bs \<longleftrightarrow> length bs = m \<and> (\<forall>k < m. source_byte sc (skip + k) = Some (bs ! k))) "
  if "0 < m" for bs
proof (cases sc)
  case Zero
  then show ?thesis by (auto intro!: nth_equalityI)
next
  case (File f off)
  show ?thesis
  proof (cases "off + skip + m > length f")
    case True
    then have "source_byte sc (skip + (m - 1)) = None" using File that by auto
    with True File that show ?thesis by (auto intro!: exI [of _ "m - 1"])
  next
    case False
    with File show ?thesis by (auto simp: add.assoc intro!: nth_equalityI)
  qed
qed (use that in auto)

lemma core_ok_Cons: "core_ok (r # rs) \<longleftrightarrow>
    0 < range_size r \<and> range_end r < 2 ^ 64 \<and> (\<forall>x \<in> set rs. range_end r \<le> start_address x) \<and> core_ok rs"
  by (auto simp: core_ok_def core_sorted_def)

lemma nth_take_drop: "i < length (take n (drop m xs)) \<Longrightarrow> take n (drop m xs) ! i = xs ! (m + i)"
  by (auto simp: nth_drop)

lemma reads_split:
  assumes "m \<le> n"
  shows "(\<exists>b c. reads mem a m b \<and> reads mem (a + m) (n - m) c \<and> bs = b @ c) \<longleftrightarrow> reads mem a n bs"
proof
  assume "reads mem a n bs"
  then have "reads mem a m (take m bs)" "reads mem (a + m) (n - m) (drop m bs)"
    using reads_slice [of mem a n bs 0 m] reads_slice [of mem a n bs m "n - m"] assms
    by (auto simp: reads_length)
  then show "\<exists>b c. reads mem a m b \<and> reads mem (a + m) (n - m) c \<and> bs = b @ c"
    by (metis append_take_drop_id)
qed (use reads_append [of mem a m] assms in fastforce)

text \<open>Reading through the ranges is reading the map they stand for.\<close>

lemma read_ranges_spec:
  assumes "core_ok rs" "rs \<noteq> [] \<Longrightarrow> a < range_end (hd rs)"
  shows "read_ranges rs a n \<noteq> Panic \<and> (read_ranges rs a n = Ok bs \<longleftrightarrow> reads (core_mem rs) a n bs)"
  using assms
proof (induction rs arbitrary: a n bs)
  case Nil
  then show ?case by (auto simp: reads_def)
next
  case (Cons r rs)
  let ?m = "min (range_end r - a) n" and ?mem = "core_mem (r # rs)"
  have ok: "core_ok rs" "0 < range_size r" "\<And>x. x \<in> set rs \<Longrightarrow> range_end r \<le> start_address x"
    using Cons.prems(1) by (auto simp: core_ok_Cons)
  show ?case
  proof (cases "n = 0 \<or> start_address r > a")
    case True
    then have "0 < n \<Longrightarrow> ?mem a = None" using core_mem_before [of "r # rs" a] ok by fastforce
    with True show ?thesis by (force simp: reads_def)
  next
    case False
    have m: "0 < ?m" "\<not> range_end r \<le> a" "?m \<le> n" using False Cons.prems(2) by auto
    have inr: "?mem (a + k) = source_byte (source r) (a - start_address r + k)" if "k < ?m" for k
      using that False by (auto simp: add.commute)
    have first: "source_chunk (source r) (a - start_address r) ?m \<noteq> Panic
      \<and> (source_chunk (source r) (a - start_address r) ?m = Ok cs \<longleftrightarrow> reads ?mem a ?m cs)" for cs
      using source_chunk_spec [OF m(1), of "source r" "a - start_address r" cs] inr by (auto simp: reads_def)
    have out: "?mem (a + ?m + k) = core_mem rs (a + ?m + k)" if "k < n - ?m" for k
      using that m False by (auto simp: min_def split: if_splits)
    have hd_rs: "a + ?m < range_end (hd rs)" if "rs \<noteq> []" "n \<noteq> ?m"
    proof -
      have "hd rs \<in> set rs" using that by simp
      then have "range_end r \<le> start_address (hd rs)" "0 < range_size (hd rs)"
        using ok by (auto simp: core_ok_def core_sorted_def)
      then show ?thesis using that(2) m by (auto simp: min_def)
    qed
    have rest: "read_ranges rs (a + ?m) (n - ?m) \<noteq> Panic
      \<and> (read_ranges rs (a + ?m) (n - ?m) = Ok cs \<longleftrightarrow> reads ?mem (a + ?m) (n - ?m) cs)" for cs
    proof (cases "n = ?m")
      case True
      then have "read_ranges rs (a + ?m) (n - ?m) = Ok []" by (cases rs) auto
      with True show ?thesis by (auto simp: reads_def)
    next
      case False
      have "reads ?mem (a + ?m) (n - ?m) cs \<longleftrightarrow> reads (core_mem rs) (a + ?m) (n - ?m) cs"
        using out unfolding reads_def by metis
      with Cons.IH [OF ok(1) hd_rs [OF _ False]] show ?thesis by blast
    qed
    have eq: "read_ranges (r # rs) a n = rbind (source_chunk (source r) (a - start_address r) ?m)
          (\<lambda>bs. rbind (read_ranges rs (a + ?m) (n - ?m)) (\<lambda>cs. Ok (bs @ cs)))"
      using False m(2) by (simp only: read_ranges.simps Let_def de_Morgan_disj if_False)
    have "read_ranges (r # rs) a n = Ok bs \<longleftrightarrow>
        (\<exists>b c. reads ?mem a ?m b \<and> reads ?mem (a + ?m) (n - ?m) c \<and> bs = b @ c)"
      unfolding eq using first rest by auto
    also have "\<dots> \<longleftrightarrow> reads ?mem a n bs"
      by (rule reads_split [OF m(3)])
    finally show ?thesis using first rest unfolding eq rbind_eq_Panic by blast
  qed
qed

lemma core_ok_drop: "core_ok rs \<Longrightarrow> core_ok (drop k rs)"
  by (auto simp: core_ok_def core_sorted_def sorted_wrt_drop dest: in_set_dropD)

text \<open>The binary search skips exactly the ranges that end at or before the address.\<close>

lemma core_skip:
  fixes addr :: nat
  assumes "core_ok rs"
  defines "k \<equiv> partition_point (\<lambda>r. range_end r \<le> addr) rs"
  shows "\<forall>r \<in> set (take k rs). range_end r \<le> addr" "drop k rs \<noteq> [] \<Longrightarrow> addr < range_end (hd (drop k rs))"
proof -
  have mono: "range_end (rs ! i) \<le> addr"
    if "i \<le> j" "j < length rs" "range_end (rs ! j) \<le> addr" for i j
  proof (cases "i = j")
    case False
    then have "range_end (rs ! i) \<le> start_address (rs ! j)"
      using assms(1) that by (auto simp: core_ok_def core_sorted_def sorted_wrt_iff_nth_less)
    then show ?thesis using that by simp
  qed (use that in simp)
  note sp = partition_point_spec [where p = "\<lambda>r. range_end r \<le> addr" and xs = rs, OF mono, folded k_def]
  show "\<forall>r \<in> set (take k rs). range_end r \<le> addr" using sp(1) by (auto simp: in_set_conv_nth)
  show "drop k rs \<noteq> [] \<Longrightarrow> addr < range_end (hd (drop k rs))"
    using sp(2) [where i = k] by (auto simp: hd_drop_conv_nth not_le)
qed

lemma core_read_spec:
  assumes "core_ok rs"
  shows "core_read rs a n \<noteq> Panic \<and> (core_read rs a n = Ok bs \<longleftrightarrow> reads (core_mem rs) a n bs)"
proof -
  let ?k = "partition_point (\<lambda>r. range_end r \<le> a) rs"
  have "core_mem rs (a + i) = core_mem (drop ?k rs) (a + i)" for i
  proof -
    have "\<forall>r \<in> set (take ?k rs). range_end r \<le> a + i"
      using core_skip(1) [OF assms, of a] by (blast intro: trans_le_add1)
    from core_mem_append [OF this, of "drop ?k rs"] show ?thesis by (simp only: append_take_drop_id)
  qed
  then have "reads (core_mem rs) a n bs \<longleftrightarrow> reads (core_mem (drop ?k rs)) a n bs"
    by (simp add: reads_def)
  then show ?thesis
    using read_ranges_spec [OF core_ok_drop [OF assms] core_skip(2) [OF assms], of a n bs]
    by (simp add: core_read_def)
qed

interpretation core: byte_memory core_ok core_read core_mem
  by unfold_locales (use core_read_spec in blast)+

section \<open>Best effort reading\<close>

text \<open>The bytes that files provide.\<close>

fun file_mem :: "CoreDumpMemoryRange list \<Rightarrow> nat \<Rightarrow> u8 option" where
  "file_mem [] a = None"
| "file_mem (r # rs) a = (if start_address r \<le> a \<and> a < range_end r
     then (case source r of File f offset \<Rightarrow> source_byte (File f offset) (a - start_address r)
           | Zero \<Rightarrow> None | MissingFile \<Rightarrow> None)
     else file_mem rs a)"

lemma splice_nth:
  assumes "pos + length mid \<le> length buf" "i < length buf"
  shows "(take pos buf @ mid @ drop (pos + length mid) buf) ! i =
    (if pos \<le> i \<and> i < pos + length mid then mid ! (i - pos) else buf ! i)"
  using assms by (auto simp: nth_append)

lemma best_effort_range_File:
  assumes "source r = File f off" "addr < range_end r" "start_address r < addr + length buf"
  shows "length (best_effort_range r addr buf) = length buf
    \<and> (\<forall>i < length buf. best_effort_range r addr buf ! i =
        (if start_address r \<le> addr + i \<and> addr + i < range_end r \<and> off + (addr + i - start_address r) < length f
         then f ! (off + (addr + i - start_address r)) else buf ! i))"
proof -
  define A where "A = start_address r"
  define st where "st = addr - A"
  define en where "en = min (min (range_size r) (length f - off)) (addr + length buf - A)"
  define pos where "pos = A + st - addr"
  have en: "x < en \<longleftrightarrow> x < range_size r \<and> off + x < length f \<and> A + x < addr + length buf" for x
    using assms(3) by (auto simp: en_def A_def)
  have pos: "addr + pos = A + st" by (auto simp: pos_def st_def)
  have eq: "best_effort_range r addr buf = (if en \<le> st then buf
      else take pos buf @ take (en - st) (drop (off + st) f) @ drop (pos + (en - st)) buf)"
    by (simp add: best_effort_range_def assms(1) Let_def en_def pos_def st_def A_def)
  have inside: "(A \<le> addr + i \<and> addr + i < range_end r \<and> off + (addr + i - A) < length f)
      \<longleftrightarrow> pos \<le> i \<and> i < pos + (en - st)" if "i < length buf" for i
  proof -
    have "A \<le> addr + i \<longleftrightarrow> pos \<le> i" by (auto simp: pos_def st_def)
    moreover have "A \<le> addr + i \<Longrightarrow> i < pos + (en - st) \<longleftrightarrow> addr + i - A < en"
      using pos by (auto simp: st_def)
    ultimately show ?thesis using en [of "addr + i - A"] that by (auto simp: A_def)
  qed
  show ?thesis
  proof (cases "en \<le> st")
    case True
    then show ?thesis using eq inside unfolding A_def by (simp, auto)
  next
    case False
    let ?mid = "take (en - st) (drop (off + st) f)"
    have "en - 1 < en" "st \<le> en - 1" using False by auto
    then have b: "off + en \<le> length f" "A + en \<le> addr + length buf" using en [of "en - 1"] by auto
    have lm: "length ?mid = en - st" using b False by simp
    have lp: "pos + length ?mid \<le> length buf" using b pos False lm by simp
    have eq': "best_effort_range r addr buf = take pos buf @ ?mid @ drop (pos + length ?mid) buf"
      using eq False lm by simp
    have "best_effort_range r addr buf ! i = (if pos \<le> i \<and> i < pos + (en - st)
        then f ! (off + (addr + i - A)) else buf ! i)" if "i < length buf" for i
    proof -
      have "?mid ! (i - pos) = f ! (off + (addr + i - A))" if "pos \<le> i" "i < pos + (en - st)"
      proof -
        have "off + st + (i - pos) = off + (addr + i - A)" using that pos by (auto simp: st_def)
        moreover have "?mid ! (i - pos) = f ! (off + st + (i - pos))"
          using that lm by (intro nth_take_drop) simp
        ultimately show ?thesis by (simp only:)
      qed
      then show ?thesis unfolding eq' [unfolded lm] splice_nth [OF lp that, unfolded lm] by (intro if_cong refl) blast
    qed
    moreover have "length (best_effort_range r addr buf) = length buf" using eq' lp by simp
    ultimately show ?thesis using inside unfolding A_def by simp
  qed
qed

lemma best_effort_range_spec:
  assumes "addr < range_end r" "start_address r < addr + length buf"
  shows "length (best_effort_range r addr buf) = length buf
    \<and> (\<forall>i < length buf. best_effort_range r addr buf ! i =
        (case file_mem [r] (addr + i) of Some b \<Rightarrow> b | None \<Rightarrow> buf ! i))"
proof (cases "source r")
  case (File f off)
  with best_effort_range_File [OF File assms] show ?thesis by auto
qed (simp_all add: best_effort_range_def)

lemma file_mem_before: "(\<forall>r \<in> set rs. a < start_address r) \<Longrightarrow> file_mem rs a = None"
  by (induction rs) auto

lemma file_mem_append: "(\<forall>r \<in> set rs. range_end r \<le> a) \<Longrightarrow> file_mem (rs @ rs') a = file_mem rs' a"
  by (induction rs) auto

lemma best_effort_ranges_spec:
  assumes "core_ok rs" "\<forall>r \<in> set rs. addr < range_end r"
  shows "length (best_effort_ranges rs addr buf) = length buf
    \<and> (\<forall>i < length buf. best_effort_ranges rs addr buf ! i =
        (case file_mem rs (addr + i) of Some b \<Rightarrow> b | None \<Rightarrow> buf ! i))"
  using assms
proof (induction rs arbitrary: buf)
  case (Cons r rs)
  have ok: "core_ok rs" "\<And>x. x \<in> set rs \<Longrightarrow> range_end r \<le> start_address x"
    using Cons.prems(1) by (auto simp: core_ok_Cons)
  show ?case
  proof (cases "start_address r \<ge> addr + length buf")
    case True
    have "file_mem (r # rs) (addr + i) = None" if "i < length buf" for i
      using that True ok(2) by (intro file_mem_before) force
    with True show ?thesis by simp
  next
    case False
    note st = best_effort_range_spec [of addr r buf]
    have "file_mem (r # rs) x = (case file_mem [r] x of Some b \<Rightarrow> Some b | None \<Rightarrow> file_mem rs x)
        \<and> (file_mem [r] x = None \<or> file_mem rs x = None)" for x
    proof (cases "start_address r \<le> x \<and> x < range_end r")
      case True
      then have "file_mem rs x = None" using ok(2) by (intro file_mem_before) fastforce
      then show ?thesis by (simp split: option.splits)
    qed auto
    with False st Cons.IH [OF ok(1), of "best_effort_range r addr buf"] Cons.prems(2) show ?thesis
      by (fastforce simp del: file_mem.simps split: option.splits)
  qed
qed simp

lemma read_best_effort_spec:
  assumes "core_ok rs"
  shows "length (read_best_effort rs addr buf) = length buf
    \<and> (\<forall>i < length buf. read_best_effort rs addr buf ! i =
        (case file_mem rs (addr + i) of Some b \<Rightarrow> b | None \<Rightarrow> buf ! i))"
proof -
  let ?k = "partition_point (\<lambda>r. range_end r \<le> addr) rs"
  have ok: "core_ok (drop ?k rs)" by (rule core_ok_drop [OF assms])
  have fm: "file_mem rs (addr + i) = file_mem (drop ?k rs) (addr + i)" for i
  proof -
    have "\<forall>r \<in> set (take ?k rs). range_end r \<le> addr + i"
      using core_skip(1) [OF assms, of addr] by (blast intro: trans_le_add1)
    from file_mem_append [OF this, of "drop ?k rs"] show ?thesis by (simp only: append_take_drop_id)
  qed
  have "\<forall>r \<in> set (drop ?k rs). addr < range_end r"
  proof (cases "drop ?k rs")
    case (Cons r rs')
    then show ?thesis using core_skip(2) [OF assms, of addr] ok by (fastforce simp: core_ok_Cons)
  qed simp
  from best_effort_ranges_spec [OF ok this, of buf] show ?thesis by (simp add: read_best_effort_def fm)
qed

section \<open>Encoded notes\<close>

definition encode_note :: "ElfNote \<Rightarrow> bytes" where
  "encode_note nt = to_le_bytes 4 (word_of_nat (length (note_name nt)) :: u32)
     @ to_le_bytes 4 (word_of_nat (length (note_desc nt)) :: u32) @ to_le_bytes 4 (note_type nt)
     @ note_name nt @ replicate (pad4 (length (note_name nt)) - length (note_name nt)) 0
     @ note_desc nt @ replicate (pad4 (length (note_desc nt)) - length (note_desc nt)) 0"

lemma pad4_ge: "n \<le> pad4 n"
  unfolding pad4_def by presburger

lemma drop_plus: "drop (m + n) xs = drop n (drop m xs)"
  by (simp add: add.commute)

lemma parse_encode_note:
  assumes "length (note_name nt) < 2 ^ 32" "length (note_desc nt) < 2 ^ 32"
  shows "parse_elf_note (encode_note nt @ rest) = Ok (Some (nt, rest))"
proof -
  let ?N = "note_name nt" and ?D = "note_desc nt"
  define A where "A = to_le_bytes 4 (word_of_nat (length ?N) :: u32)"
  define B where "B = to_le_bytes 4 (word_of_nat (length ?D) :: u32)"
  define C where "C = to_le_bytes 4 (note_type nt)"
  define P where "P = replicate (pad4 (length ?N) - length ?N) (0 :: u8)"
  define Q where "Q = replicate (pad4 (length ?D) - length ?D) (0 :: u8)"
  have len: "length A = 4" "length B = 4" "length C = 4"
    "length ?N + length P = pad4 (length ?N)" "length ?D + length Q = pad4 (length ?D)"
    using pad4_ge by (simp_all add: A_def B_def C_def P_def Q_def)
  let ?d = "A @ B @ C @ ?N @ P @ ?D @ Q @ rest"
  have t: "take 4 ?d = A" "take 4 (drop 4 ?d) = B" "take 4 (drop 8 ?d) = C" "drop 12 ?d = ?N @ P @ ?D @ Q @ rest"
    using len(1-3) by simp_all
  have v: "unat (from_le_bytes A :: u32) = length ?N" "unat (from_le_bytes B :: u32) = length ?D"
    "from_le_bytes C = note_type nt"
    using assms by (simp_all add: A_def B_def C_def from_to_le_bytes unat_of_nat take_bit_nat_eq_self_iff)
  have d1: "drop (12 + pad4 (length ?N)) ?d = ?D @ Q @ rest"
    unfolding drop_plus [of 12] t(4) len(4) [symmetric] by simp
  have d2: "drop (12 + pad4 (length ?N) + pad4 (length ?D)) ?d = rest"
    unfolding drop_plus [of "12 + pad4 (length ?N)"] d1 len(5) [symmetric] by simp
  have l: "\<not> length ?d < 12" "\<not> 12 + pad4 (length ?N) + pad4 (length ?D) > length ?d"
    using len by simp_all
  have "parse_elf_note ?d = Ok (Some (\<lparr>note_type = note_type nt, note_name = ?N, note_desc = ?D\<rparr>, rest))"
    unfolding parse_elf_note_def Let_def t v d1 d2 using l by simp
  then show ?thesis by (simp add: encode_note_def A_def B_def C_def P_def Q_def)
qed

lemma parse_notes_encoded:
  assumes "\<forall>nt \<in> set nts. length (note_name nt) < 2 ^ 32 \<and> length (note_desc nt) < 2 ^ 32" "length tail < 12"
  shows "parse_notes (concat (map encode_note nts) @ tail) = Ok nts"
  using assms
proof (induction nts)
  case Nil
  then show ?case by (simp add: parse_notes.simps parse_elf_note_def)
next
  case (Cons nt nts)
  then show ?case by (subst parse_notes.simps) (simp add: parse_encode_note)
qed

section \<open>Properties\<close>

text \<open>The cache after any sequence of reads, each an address and a length.\<close>

fun after_reads :: "reader \<Rightarrow> (nat \<times> nat) list \<Rightarrow> CachedMemReader \<Rightarrow> CachedMemReader" where
  "after_reads rd [] c = c"
| "after_reads rd ((a, n) # qs) c = after_reads rd qs (snd (read_uninit rd a n c))"

lemma cache_ok_new: "cache_ok mem cached_new"
  by (simp add: cache_ok_def cached_new_def)

lemma cache_ok_after_reads:
  "core_ok rs \<Longrightarrow> paged (core_mem rs) \<Longrightarrow> cache_ok (core_mem rs) c \<Longrightarrow> \<forall>q \<in> set qs. fst q < 2 ^ 64 \<Longrightarrow>
     cache_ok (core_mem rs) (after_reads (core_read rs) qs c)"
proof (induction qs arbitrary: c)
  case (Cons q qs)
  obtain a n where q: "q = (a, n)" by fastforce
  with Cons.prems(4) have "a < 2 ^ 64" by auto
  from core.cached_read [OF Cons.prems(1-3) this, of n] Cons.IH Cons.prems(1,2,4) q show ?case
    by simp
qed simp

text \<open>A dump of one page, which the witnesses read from.\<close>

definition example_core :: "CoreDumpMemoryRange list" where
  "example_core = [\<lparr>start_address = 4096, range_size = 4096,
     source = File ([0xE5, 0x8E, 0x26] @ replicate 4093 0) 0, permissions = 1\<rparr>]"

lemma example_core_ok: "core_ok example_core"
  by (simp add: example_core_def core_ok_def core_sorted_def)

lemma example_core_mem:
  "core_mem example_core a = (if page_of a = 4096 then Some (([0xE5, 0x8E, 0x26] @ replicate 4093 0) ! (a - 4096)) else None)"
proof -
  have "page_of a = 4096 \<longleftrightarrow> 4096 \<le> a \<and> a < 8192"
    using page_of_le [of a] page_end [of a] page_of_offset [of 4096 "a - 4096"] by auto
  moreover have "a < 8192 \<longleftrightarrow> a - 4096 < 4096 \<or> a < 4096" by auto
  ultimately show ?thesis by (auto simp: example_core_def)
qed

lemma example_core_paged: "paged (core_mem example_core)"
  by (simp add: paged_def example_core_mem)

lemma example_core_reads: "reads (core_mem example_core) 4096 4 [0xE5, 0x8E, 0x26, 0]"
proof -
  have "k \<in> {0, 1, 2, 3}" if "k < 4" for k :: nat using that by auto
  moreover have "\<forall>k \<in> {0 :: nat, 1, 2, 3}. core_mem example_core (4096 + k) = Some ([0xE5, 0x8E, 0x26, 0] ! k)"
    unfolding example_core_mem by (simp add: page_of_def)
  moreover have "length [0xE5, 0x8E, 0x26, 0 :: u8] = 4" by simp
  ultimately show ?thesis unfolding reads_def by blast
qed

lemma example_uleb: "uleb_encode 624485 = [0xE5, 0x8E, 0x26]"
  by (simp add: uleb_encode.simps)

text \<open>
  (C25) The ranges that \<open>parse_core_dump\<close> makes of the loaded segments are not empty, do not
  overlap and are in the order of their addresses, however the segments of the file overlap and
  in whichever order they come.
\<close>

theorem core_ranges_well_formed:
  assumes "core_ranges data sgs = Ok rs"
  shows "core_sorted rs \<and> distinct (map start_address rs)"
proof -
  have s: "core_sorted rs" by (rule core_ranges_sorted [OF assms])
  then have "sorted_wrt (<) (map start_address rs)"
    unfolding core_sorted_def sorted_wrt_map by (auto elim!: sorted_wrt_mono_rel [rotated])
  with s show ?thesis by (simp add: strict_sorted_iff)
qed

theorem core_ranges_well_formed_witness:
  "\<exists>rs. core_ranges [1, 2, 3]
      [\<lparr>segment_type = 1, seg_flags = 4, seg_offset = 0, seg_address = 4096, size_in_file = 3, size_in_memory = 9\<rparr>,
       \<lparr>segment_type = 1, seg_flags = 4, seg_offset = 0, seg_address = 4090, size_in_file = 0, size_in_memory = 9\<rparr>] = Ok rs
    \<and> map range_size rs = [6, 3, 6] \<and> core_sorted rs"
proof -
  let ?sgs = "[\<lparr>segment_type = 1, seg_flags = 4, seg_offset = 0, seg_address = 4096, size_in_file = 3, size_in_memory = 9\<rparr>,
       \<lparr>segment_type = 1, seg_flags = 4, seg_offset = 0, seg_address = 4090, size_in_file = 0, size_in_memory = 9\<rparr>]"
  let ?p = "segment_permissions (hd ?sgs)" and ?q = "segment_permissions (hd (tl ?sgs))"
  let ?rs = "[\<lparr>start_address = 4090, range_size = 6, source = Zero, permissions = ?q\<rparr>,
     \<lparr>start_address = 4096, range_size = 3, source = File [1, 2, 3] 0, permissions = ?p\<rparr>,
     \<lparr>start_address = 4099, range_size = 6, source = Zero, permissions = ?p\<rparr>]"
  have rs: "core_ranges [1, 2, 3] ?sgs = Ok ?rs"
    by (simp add: core_ranges_def segment_ranges_def Let_def)
  show ?thesis by (rule exI [of _ ?rs]) (use rs core_ranges_well_formed [OF rs] in simp)
qed

text \<open>
  (C26) Reading a core dump through the page cache, after any sequence of earlier reads, gives the
  bytes of the dump at those addresses, and fails exactly when one of them is not in it. The
  cache is never stale and no read panics. As in the code, each aligned 4 KiB range has to be in
  the dump as a whole or not at all.
\<close>

theorem cached_core_read:
  assumes "core_ok rs" "paged (core_mem rs)" "\<forall>q \<in> set qs. fst q < 2 ^ 64" "a + n < 2 ^ 64"
  defines "r \<equiv> fst (read_uninit (core_read rs) a n (after_reads (core_read rs) qs cached_new))"
  shows "r \<noteq> Panic \<and> (r = Ok bs \<longleftrightarrow> length bs = n \<and> (\<forall>k < n. core_mem rs (a + k) = Some (bs ! k)))"
proof -
  let ?c = "after_reads (core_read rs) qs cached_new"
  have c: "cache_ok (core_mem rs) ?c"
    using cache_ok_after_reads [OF assms(1,2) cache_ok_new assms(3)] .
  have "a < 2 ^ 64" using assms(4) by simp
  from core.cached_read [OF assms(1,2) c this, of n] have
    "case r of Ok bs \<Rightarrow> reads (core_mem rs) a n bs | Err _ \<Rightarrow> \<not> readable (core_mem rs) a n | Panic \<Rightarrow> False"
    using assms(4) unfolding r_def by (auto split: result.splits)
  then have "r \<noteq> Panic \<and> (r = Ok bs \<longleftrightarrow> reads (core_mem rs) a n bs)"
    by (auto split: result.splits dest: reads_unique reads_readable)
  then show ?thesis unfolding reads_def .
qed

theorem cached_core_read_witness:
  "fst (read_uninit (core_read example_core) 4096 4 (after_reads (core_read example_core) [(5000, 9), (1, 1)] cached_new))
     = Ok [0xE5, 0x8E, 0x26, 0]"
proof -
  have "\<forall>q \<in> set [(5000 :: nat, 9 :: nat), (1, 1)]. fst q < 2 ^ 64" "(4096 :: nat) + 4 < 2 ^ 64" by simp_all
  from cached_core_read [OF example_core_ok example_core_paged this, of "[0xE5, 0x8E, 0x26, 0]"]
  show ?thesis using example_core_reads unfolding reads_def by blast
qed

text \<open>
  An unsigned LEB128 number in the memory of the debuggee is decoded to its value, and the
  offset moves past it, whatever was read before.
\<close>

lemma uleb128_round_trip:
  assumes "core_ok rs" "paged (core_mem rs)" "\<forall>q \<in> set qs. fst q < 2 ^ 64"
    and "m < 2 ^ 64" "reads (core_mem rs) a (length (uleb_encode m)) (uleb_encode m)"
    and "a + length (uleb_encode m) < 2 ^ 64"
  shows "fst (eat_uleb128 (core_read rs) a (after_reads (core_read rs) qs cached_new))
    = Ok (word_of_nat m, a + length (uleb_encode m))"
  using core.eat_uleb128_encoded [OF assms(1,2) cache_ok_after_reads [OF assms(1,2) cache_ok_new assms(3)] assms(4-6)]
  by auto

lemma uleb128_round_trip_example:
  "fst (eat_uleb128 (core_read example_core) 4096 (after_reads (core_read example_core) [] cached_new))
     = Ok (624485, 4099)"
proof -
  have r: "reads (core_mem example_core) 4096 (length (uleb_encode 624485)) (uleb_encode 624485)"
    using reads_slice [OF example_core_reads, of 0 3] by (simp add: example_uleb numeral_3_eq_3)
  have q: "\<forall>q \<in> set ([] :: (nat \<times> nat) list). fst q < 2 ^ 64" "(624485 :: nat) < 2 ^ 64" by simp_all
  have b: "4096 + length (uleb_encode 624485) < 2 ^ 64" by (simp add: example_uleb)
  from uleb128_round_trip [OF example_core_ok example_core_paged q r b] show ?thesis by (simp add: example_uleb)
qed

text \<open>
  A string of the debuggee that ends before the limit is read to its terminator, although
  the reader asks for ever larger aligned chunks that run past it.
\<close>

lemma null_terminated_found:
  assumes "core_ok rs" "paged (core_mem rs)" "\<forall>q \<in> set qs. fst q < 2 ^ 64"
    and "reads (core_mem rs) a (length (str @ [0])) (str @ [0])" "0 \<notin> set str"
    and "length str < limit" "a + length str + 2 * PAGE_SIZE < 2 ^ 64"
  shows "fst (read_null_terminated (core_read rs) a limit (after_reads (core_read rs) qs cached_new)) = Ok (str, True)"
proof -
  have "length ([] :: bytes) + length str < limit" using assms(6) by simp
  from core.null_terminated_loop_finds
    [OF assms(1,2) cache_ok_after_reads [OF assms(1,2) cache_ok_new assms(3)] _ _ assms(4,5) this assms(7), of 128 7]
  show ?thesis by (auto simp: read_null_terminated_def)
qed

lemma null_terminated_found_example:
  "fst (read_null_terminated (core_read example_core) 4096 10 (after_reads (core_read example_core) [] cached_new))
     = Ok ([0xE5, 0x8E, 0x26], True)"
proof (rule null_terminated_found [OF example_core_ok example_core_paged])
  show "reads (core_mem example_core) 4096 (length ([0xE5, 0x8E, 0x26] @ [0 :: u8])) ([0xE5, 0x8E, 0x26] @ [0])"
    using example_core_reads by (simp add: numeral_eq_Suc)
qed simp_all

text \<open>
  \<open>read_best_effort\<close> overwrites exactly the bytes of the buffer that some file provides,
  and keeps the rest.
\<close>

theorem read_best_effort_exact:
  assumes "core_ok rs"
  shows "length (read_best_effort rs addr buf) = length buf
    \<and> (\<forall>i < length buf. read_best_effort rs addr buf ! i =
        (case file_mem rs (addr + i) of Some b \<Rightarrow> b | None \<Rightarrow> buf ! i))"
  by (rule read_best_effort_spec [OF assms])

theorem read_best_effort_exact_witness:
  "read_best_effort example_core 4095 [7, 8, 9] ! 0 = 7 \<and> read_best_effort example_core 4095 [7, 8, 9] ! 1 = 0xE5"
  using read_best_effort_exact [OF example_core_ok, of 4095 "[7, 8, 9]"]
  by (auto simp: example_core_def)

text \<open>
  The notes of a note segment are parsed back in order, with up to eleven bytes of
  padding after the last one.
\<close>

lemma notes_round_trip:
  assumes "\<forall>nt \<in> set nts. length (note_name nt) < 2 ^ 32 \<and> length (note_desc nt) < 2 ^ 32" "length tail < 12"
  shows "parse_notes (concat (map encode_note nts) @ tail) = Ok nts"
  by (rule parse_notes_encoded [OF assms])

lemma notes_round_trip_example:
  "parse_notes (concat (map encode_note
      [\<lparr>note_type = 3, note_name = [0x47, 0x4E, 0x55, 0], note_desc = [1, 2, 3, 4, 5]\<rparr>]) @ [0, 0, 0, 0])
    = Ok [\<lparr>note_type = 3, note_name = [0x47, 0x4E, 0x55, 0], note_desc = [1, 2, 3, 4, 5]\<rparr>]"
  by (rule notes_round_trip) simp_all

end
