(* ===== verification/ByteIO.thy ===== *)
theory ByteIO
  imports Errors
begin

text \<open>
  The binary format of saved state (\<open>src/util.rs\<close>, \<open>ByteRead\<close> and \<open>ByteWrite\<close>). A writer is the
  list of bytes it has received and writing to it cannot fail; a reader is the rest of its input, and
  an input that is too short is an input/output error. A \<open>String\<close> is its UTF-8 bytes. The locale
  \<open>codec\<close> is the contract between a reading and a writing operation.
\<close>

type_synonym 'a get = "bytes \<Rightarrow> ('a \<times> bytes) eres"

text \<open>\<open>read_exact\<close>\<close>

definition get_exact :: "nat \<Rightarrow> bytes get" where
  "get_exact n inp = (if n \<le> length inp then Ok (take n inp, drop n inp) else Err IO)"

definition gbind :: "'a get \<Rightarrow> ('a \<Rightarrow> 'b get) \<Rightarrow> 'b get" where
  "gbind g k inp = rbind (g inp) (\<lambda>(a, rest). k a rest)"

definition gret :: "'a \<Rightarrow> 'a get" where
  "gret a inp = Ok (a, inp)"

definition gerr :: "ErrorCode \<Rightarrow> 'a get" where
  "gerr e inp = Err e"

section \<open>Integers and booleans\<close>

definition read_u8 :: "u8 get" where
  "read_u8 = gbind (get_exact 1) (\<lambda>b. gret (hd b))"

definition read_u16 :: "u16 get" where
  "read_u16 = gbind (get_exact 2) (\<lambda>b. gret (from_le_bytes b))"

definition read_u32 :: "u32 get" where
  "read_u32 = gbind (get_exact 4) (\<lambda>b. gret (from_le_bytes b))"

definition read_u64 :: "u64 get" where
  "read_u64 = gbind (get_exact 8) (\<lambda>b. gret (from_le_bytes b))"

definition read_usize :: "nat get" where
  "read_usize = gbind (get_exact 8) (\<lambda>b. gret (unat (from_le_bytes b :: u64)))"

definition read_i8 :: "int get" where
  "read_i8 = gbind (get_exact 1) (\<lambda>b. gret (sint (hd b)))"

definition read_i16 :: "int get" where
  "read_i16 = gbind (get_exact 2) (\<lambda>b. gret (sint (from_le_bytes b :: u16)))"

definition read_i32 :: "int get" where
  "read_i32 = gbind (get_exact 4) (\<lambda>b. gret (sint (from_le_bytes b :: u32)))"

definition read_i64 :: "int get" where
  "read_i64 = gbind (get_exact 8) (\<lambda>b. gret (sint (from_le_bytes b :: u64)))"

definition read_isize :: "int get" where
  "read_isize = read_i64"

definition read_bool :: "bool get" where
  "read_bool = gbind (get_exact 1) (\<lambda>b.
     if hd b = 0 then gret False else if hd b = 1 then gret True else gerr IO)"

definition write_u8 :: "u8 \<Rightarrow> bytes" where
  "write_u8 x = [x]"

definition write_u16 :: "u16 \<Rightarrow> bytes" where
  "write_u16 x = to_le_bytes 2 x"

definition write_u32 :: "u32 \<Rightarrow> bytes" where
  "write_u32 x = to_le_bytes 4 x"

definition write_u64 :: "u64 \<Rightarrow> bytes" where
  "write_u64 x = to_le_bytes 8 x"

definition write_usize :: "nat \<Rightarrow> bytes" where
  "write_usize x = to_le_bytes 8 (word_of_nat x :: u64)"

definition write_i8 :: "int \<Rightarrow> bytes" where
  "write_i8 x = to_le_bytes 1 (word_of_int x :: u8)"

definition write_i16 :: "int \<Rightarrow> bytes" where
  "write_i16 x = to_le_bytes 2 (word_of_int x :: u16)"

definition write_i32 :: "int \<Rightarrow> bytes" where
  "write_i32 x = to_le_bytes 4 (word_of_int x :: u32)"

definition write_i64 :: "int \<Rightarrow> bytes" where
  "write_i64 x = to_le_bytes 8 (word_of_int x :: u64)"

definition write_isize :: "int \<Rightarrow> bytes" where
  "write_isize x = write_i64 x"

definition write_bool :: "bool \<Rightarrow> bytes" where
  "write_bool x = [if x then 1 else 0]"

section \<open>Slices and strings\<close>

text \<open>The loop of \<open>read_slice\<close>: blocks of at most a mebibyte, so that garbage does not allocate.\<close>

definition block_size :: nat where
  "block_size = 2 ^ 20"

function read_blocks :: "nat \<Rightarrow> nat \<Rightarrow> bytes \<Rightarrow> bytes get" where
  "read_blocks n p v inp = (if p < n then
      (let add = min block_size (n - p) in
       case get_exact add inp of
         Ok (b, rest) \<Rightarrow> read_blocks n (p + add) (v @ b) rest
       | Err e \<Rightarrow> Err e
       | Panic \<Rightarrow> Panic)
    else Ok (v, inp))"
  by pat_completeness auto
termination
  by (relation "measure (\<lambda>(n, p, v, inp). n - p)") (auto simp: block_size_def)

declare read_blocks.simps [simp del]

definition read_slice :: "bytes get" where
  "read_slice = gbind read_usize (\<lambda>n. read_blocks n 0 [])"

definition read_str :: "bytes get" where
  "read_str = gbind read_slice (\<lambda>v. if is_utf8 v then gret v else gerr IO)"

definition read_path :: "bytes get" where
  "read_path = read_slice"

definition write_slice :: "bytes \<Rightarrow> bytes" where
  "write_slice s = write_usize (length s) @ s"

definition write_str :: "bytes \<Rightarrow> bytes" where
  "write_str s = write_slice s"

definition write_path :: "bytes \<Rightarrow> bytes" where
  "write_path s = write_slice s"

section \<open>The contract\<close>

text \<open>A counted sequence of items.\<close>

primrec get_many :: "'a get \<Rightarrow> nat \<Rightarrow> 'a list get" where
  "get_many g 0 = gret []"
| "get_many g (Suc n) = gbind g (\<lambda>x. gbind (get_many g n) (\<lambda>xs. gret (x # xs)))"

locale codec =
  fixes put :: "'a \<Rightarrow> bytes" and get :: "'a get" and valid :: "'a \<Rightarrow> bool"
  assumes get_put: "valid x \<Longrightarrow> get (put x @ rest) = Ok (x, rest)"
begin

lemma unique: "valid x \<Longrightarrow> valid y \<Longrightarrow> put x @ r = put y @ r' \<Longrightarrow> x = y \<and> r = r'"
  using get_put by (metis Pair_inject result.inject(1))

lemma then_get: "valid x \<Longrightarrow> gbind get k (put x @ rest) = k x rest"
  by (simp add: gbind_def get_put)

lemma get_many_put: "list_all valid xs \<Longrightarrow> get_many get (length xs) (concat (map put xs) @ rest) = Ok (xs, rest)"
proof (induction xs)
  case (Cons x xs)
  then have xs: "get_many get (length xs) (concat (map put xs) @ rest) = Ok (xs, rest)" and x: "valid x" by simp_all
  have "get_many get (length (x # xs)) (put x @ concat (map put xs) @ rest)
      = gbind (get_many get (length xs)) (\<lambda>xs. gret (x # xs)) (concat (map put xs) @ rest)"
    by (simp add: then_get [OF x])
  also have "\<dots> = Ok (x # xs, rest)" by (simp add: gbind_def xs gret_def)
  finally show ?case by simp
qed (simp add: gret_def)

end

lemma get_exact_append: "get_exact (length xs) (xs @ rest) = Ok (xs, rest)"
  by (simp add: get_exact_def)

lemma get_exact_le_bytes: "get_exact n (to_le_bytes n x @ rest) = Ok (to_le_bytes n x, rest)"
  using get_exact_append [of "to_le_bytes n x"] by simp

lemma get_exact_1: "get_exact (Suc 0) (x # rest) = Ok ([x], rest)"
  by (simp add: get_exact_def)

interpretation u8_codec: codec write_u8 read_u8 "\<lambda>x. True"
  by standard (simp add: write_u8_def read_u8_def gbind_def gret_def get_exact_1)

interpretation u16_codec: codec write_u16 read_u16 "\<lambda>x. True"
  by standard (simp add: write_u16_def read_u16_def gbind_def gret_def get_exact_le_bytes from_to_le_bytes)

interpretation u32_codec: codec write_u32 read_u32 "\<lambda>x. True"
  by standard (simp add: write_u32_def read_u32_def gbind_def gret_def get_exact_le_bytes from_to_le_bytes)

interpretation u64_codec: codec write_u64 read_u64 "\<lambda>x. True"
  by standard (simp add: write_u64_def read_u64_def gbind_def gret_def get_exact_le_bytes from_to_le_bytes)

interpretation usize_codec: codec write_usize read_usize "\<lambda>x. x < 2 ^ 64"
  by standard (simp add: write_usize_def read_usize_def gbind_def gret_def get_exact_le_bytes from_to_le_bytes
      unsigned_of_nat take_bit_nat_eq_self)

interpretation bool_codec: codec write_bool read_bool "\<lambda>x. True"
  by standard (simp add: write_bool_def read_bool_def gbind_def gret_def get_exact_1)

lemma sint_word_of_int: "- (2 ^ (LENGTH('a) - 1)) \<le> x \<Longrightarrow> x < 2 ^ (LENGTH('a) - 1) \<Longrightarrow> sint (word_of_int x :: 'a::len word) = x"
  by (simp add: signed_of_int signed_take_bit_int_eq_self)

interpretation i64_codec: codec write_i64 read_i64 "\<lambda>x. - (2 ^ 63) \<le> x \<and> x < 2 ^ 63"
  by standard (simp add: write_i64_def read_i64_def gbind_def gret_def get_exact_le_bytes from_to_le_bytes sint_word_of_int)

text \<open>Reading in blocks is reading at once.\<close>

lemma read_blocks_eq:
  "p \<le> n \<Longrightarrow> read_blocks n p v inp = rbind (get_exact (n - p) inp) (\<lambda>(b, rest). Ok (v @ b, rest))"
proof (induction n p v inp rule: read_blocks.induct)
  case (1 n p v inp)
  show ?case
  proof (cases "p < n")
    case True
    define add where "add = min block_size (n - p)"
    then have add: "add \<le> n - p" "p + add \<le> n" using True by auto
    show ?thesis
    proof (cases "add \<le> length inp")
      case False
      with True add show ?thesis by (subst read_blocks.simps) (simp add: add_def [symmetric] get_exact_def)
    next
      case len: True
      then have g: "get_exact add inp = Ok (take add inp, drop add inp)" by (simp add: get_exact_def)
      have "read_blocks n p v inp = read_blocks n (p + add) (v @ take add inp) (drop add inp)"
        using True g by (subst read_blocks.simps) (simp add: add_def [symmetric])
      also have "\<dots> = rbind (get_exact (n - (p + add)) (drop add inp)) (\<lambda>(b, rest). Ok ((v @ take add inp) @ b, rest))"
        using "1.IH" [OF True add_def g refl] add(2) by simp
      also have "\<dots> = rbind (get_exact (n - p) inp) (\<lambda>(b, rest). Ok (v @ b, rest))"
        using add len take_add [of add "n - (p + add)" inp] by (auto simp: get_exact_def)
      finally show ?thesis .
    qed
  next
    case False
    with "1.prems" show ?thesis by (subst read_blocks.simps) (simp add: get_exact_def)
  qed
qed

interpretation slice_codec: codec write_slice read_slice "\<lambda>s. length s < 2 ^ 64"
  by standard (simp add: write_slice_def read_slice_def usize_codec.then_get read_blocks_eq get_exact_append)

interpretation str_codec: codec write_str read_str "\<lambda>s. length s < 2 ^ 64 \<and> is_utf8 s"
  by standard (simp add: write_str_def read_str_def slice_codec.then_get gret_def)

interpretation path_codec: codec write_path read_path "\<lambda>s. length s < 2 ^ 64"
  by standard (simp add: write_path_def read_path_def slice_codec.get_put)

end
