(* ===== verification/ElfOpen.thy ===== *)
theory ElfOpen
  imports CoreDump ByteIO "HOL-Library.Product_Lexorder"
begin

unbundle bit_operations_syntax

text \<open>
  Opening an ELF file (\<open>open_elf\<close> of \<open>src/elf.rs\<close>): the file header and its checks, program
  headers, section headers with their names, the sections in the order of the file, the build id, the
  address of the debug pointer of the dynamic linker, and the interpreter. The contents of the file
  are a list of bytes. Decompression is done by the \<open>flate2\<close> crate and is a parameter: from the
  compressed bytes and the size to read, to the bytes or an error.
\<close>

section \<open>Structures of the file format\<close>

text \<open>The integer of \<open>n\<close> bytes at an offset.\<close>

definition le_at :: "bytes \<Rightarrow> nat \<Rightarrow> nat \<Rightarrow> 'a::len word" where
  "le_at bs off n = from_le_bytes (take n (drop off bs))"

record Elf64_Ehdr =
  e_ident :: bytes
  e_type :: u16
  e_machine :: u16
  e_version :: u32
  e_entry :: u64
  e_phoff :: u64
  e_shoff :: u64
  e_flags :: u32
  e_ehsize :: u16
  e_phentsize :: u16
  e_phnum :: u16
  e_shentsize :: u16
  e_shnum :: u16
  e_shstrndx :: u16

definition put_ehdr :: "Elf64_Ehdr \<Rightarrow> bytes" where
  "put_ehdr h = e_ident h @ to_le_bytes 2 (e_type h) @ to_le_bytes 2 (e_machine h) @ to_le_bytes 4 (e_version h)
     @ to_le_bytes 8 (e_entry h) @ to_le_bytes 8 (e_phoff h) @ to_le_bytes 8 (e_shoff h) @ to_le_bytes 4 (e_flags h)
     @ to_le_bytes 2 (e_ehsize h) @ to_le_bytes 2 (e_phentsize h) @ to_le_bytes 2 (e_phnum h)
     @ to_le_bytes 2 (e_shentsize h) @ to_le_bytes 2 (e_shnum h) @ to_le_bytes 2 (e_shstrndx h)"

definition get_ehdr :: "bytes \<Rightarrow> Elf64_Ehdr" where
  "get_ehdr bs = \<lparr>e_ident = take 16 bs, e_type = le_at bs 16 2, e_machine = le_at bs 18 2, e_version = le_at bs 20 4,
     e_entry = le_at bs 24 8, e_phoff = le_at bs 32 8, e_shoff = le_at bs 40 8, e_flags = le_at bs 48 4,
     e_ehsize = le_at bs 52 2, e_phentsize = le_at bs 54 2, e_phnum = le_at bs 56 2,
     e_shentsize = le_at bs 58 2, e_shnum = le_at bs 60 2, e_shstrndx = le_at bs 62 2\<rparr>"

record Elf64_Phdr =
  p_type :: u32
  p_flags :: u32
  p_offset :: u64
  p_vaddr :: u64
  p_paddr :: u64
  p_filesz :: u64
  p_memsz :: u64
  p_align :: u64

definition put_phdr :: "Elf64_Phdr \<Rightarrow> bytes" where
  "put_phdr p = to_le_bytes 4 (p_type p) @ to_le_bytes 4 (p_flags p) @ to_le_bytes 8 (p_offset p) @ to_le_bytes 8 (p_vaddr p)
     @ to_le_bytes 8 (p_paddr p) @ to_le_bytes 8 (p_filesz p) @ to_le_bytes 8 (p_memsz p) @ to_le_bytes 8 (p_align p)"

definition get_phdr :: "bytes \<Rightarrow> Elf64_Phdr" where
  "get_phdr bs = \<lparr>p_type = le_at bs 0 4, p_flags = le_at bs 4 4, p_offset = le_at bs 8 8, p_vaddr = le_at bs 16 8,
     p_paddr = le_at bs 24 8, p_filesz = le_at bs 32 8, p_memsz = le_at bs 40 8, p_align = le_at bs 48 8\<rparr>"

record Elf64_Chdr =
  ch_type :: u32
  ch_size :: u64

definition get_chdr :: "bytes \<Rightarrow> Elf64_Chdr" where
  "get_chdr bs = \<lparr>ch_type = le_at bs 0 4, ch_size = le_at bs 8 8\<rparr>"

text \<open>A section, from its \<open>Elf64_Shdr\<close>; name and compression header are filled in later.\<close>

record ElfSection =
  s_name :: bytes
  s_type :: u32
  s_flags :: u64
  s_address :: nat
  s_offset :: nat
  s_size :: nat
  s_link :: u32
  s_info :: u32
  s_alignment :: nat
  s_entry_size :: nat
  name_offset_in_strtab :: nat
  compression_header :: "Elf64_Chdr option"

definition get_section :: "bytes \<Rightarrow> ElfSection" where
  "get_section bs = \<lparr>s_name = [], s_type = le_at bs 4 4, s_flags = le_at bs 8 8, s_address = unat (le_at bs 16 8 :: u64),
     s_offset = unat (le_at bs 24 8 :: u64), s_size = unat (le_at bs 32 8 :: u64), s_link = le_at bs 40 4, s_info = le_at bs 44 4,
     s_alignment = unat (le_at bs 48 8 :: u64), s_entry_size = unat (le_at bs 56 8 :: u64),
     name_offset_in_strtab = unat (le_at bs 0 4 :: u32), compression_header = None\<rparr>"

record ElfFile =
  machine :: u16
  segments :: "ElfSegment list"
  sections :: "ElfSection list"
  entry_point :: nat
  by_offset :: "(nat \<times> nat \<times> nat) list"
  text_section :: "nat option"
  is_core_dump :: bool
  build_id :: "bytes option"
  interp :: "bytes option"
  r_debug_ptr_addr :: "nat option"
  elf_data :: bytes

text \<open>\<open>memcpy_struct\<close>, and its use on a slice with \<open>unwrap\<close>.\<close>

definition memcpy_struct :: "nat \<Rightarrow> (bytes \<Rightarrow> 'a) \<Rightarrow> bytes \<Rightarrow> 'a eres" where
  "memcpy_struct sizeof get a = (if length a < sizeof then Err MalformedExecutable else Ok (get a))"

definition struct_at :: "nat \<Rightarrow> (bytes \<Rightarrow> 'a) \<Rightarrow> bytes \<Rightarrow> nat \<Rightarrow> 'a eres" where
  "struct_at sizeof get data off =
     (if off > length data then Panic else case memcpy_struct sizeof get (drop off data) of Ok a \<Rightarrow> Ok a | _ \<Rightarrow> Panic)"

text \<open>A loop that pushes one value per round and stops at the first failure.\<close>

fun collect :: "('a, 'e) result list \<Rightarrow> ('a list, 'e) result" where
  "collect [] = Ok []"
| "collect (r # rs) = rbind r (\<lambda>a. rbind (collect rs) (\<lambda>as. Ok (a # as)))"

definition sat :: "nat \<Rightarrow> nat" where
  "sat n = min n (2 ^ 64 - 1)"

section \<open>The header\<close>

definition check_header :: "Elf64_Ehdr \<Rightarrow> nat \<Rightarrow> unit eres" where
  "check_header h len =
     (if take 4 (e_ident h) \<noteq> [0x7f, 0x45, 0x4c, 0x46] then Err MalformedExecutable
      else if e_ident h ! 4 = 1 then Err UnsupportedExecutable
      else if e_ident h ! 4 \<noteq> 2 then Err MalformedExecutable
      else if e_ident h ! 5 = 2 then Err UnsupportedExecutable
      else if e_ident h ! 5 \<noteq> 1 then Err MalformedExecutable
      else if e_ident h ! 6 \<noteq> 1 then Err MalformedExecutable
      else if e_ident h ! 7 \<noteq> 0 \<and> e_ident h ! 7 \<noteq> 3 then Err UnsupportedExecutable
      else if e_type h \<noteq> 4 \<and> e_type h \<noteq> 2 \<and> e_type h \<noteq> 3 then Err UnsupportedExecutable
      else if e_machine h \<noteq> 0x3e \<and> e_machine h \<noteq> 183 \<and> e_machine h \<noteq> 243 then Err UnsupportedExecutable
      else if e_version h \<noteq> 1 then Err MalformedExecutable
      else if e_phnum h > 0 \<and> unat (e_phentsize h) < 56 then Err MalformedExecutable
      else if e_shnum h > 0 \<and> unat (e_shentsize h) < 64 then Err MalformedExecutable
      else if sat (sat (unat (e_phnum h) * unat (e_phentsize h)) + unat (e_phoff h)) > len then Err MalformedExecutable
      else if sat (sat (unat (e_shnum h) * unat (e_shentsize h)) + unat (e_shoff h)) > len then Err MalformedExecutable
      else Ok ())"

section \<open>Segments and sections\<close>

text \<open>What is out of bounds of the file is cut off.\<close>

definition open_segment :: "nat \<Rightarrow> Elf64_Phdr \<Rightarrow> ElfSegment" where
  "open_segment len p = (let off = unat (p_offset p); sz = unat (p_filesz p);
       (off, sz) = (if sat (off + sz) > len then (min off len, min sz (len - min off len)) else (off, sz))
     in \<lparr>segment_type = p_type p, seg_flags = p_flags p, seg_offset = off, seg_address = unat (p_vaddr p),
         size_in_file = sz, size_in_memory = unat (p_memsz p)\<rparr>)"

definition open_segments :: "Elf64_Ehdr \<Rightarrow> bytes \<Rightarrow> ElfSegment list eres" where
  "open_segments h data = collect (map (\<lambda>idx.
     rbind (struct_at 56 get_phdr data (unat (e_phoff h) + idx * unat (e_phentsize h))) (\<lambda>p. Ok (open_segment (length data) p)))
     [0..<unat (e_phnum h)])"

definition raw_sections :: "Elf64_Ehdr \<Rightarrow> bytes \<Rightarrow> ElfSection list eres" where
  "raw_sections h data = collect (map (\<lambda>idx. struct_at 64 get_section data (unat (e_shoff h) + idx * unat (e_shentsize h)))
     [0..<unat (e_shnum h)])"

definition section_size_in_file :: "ElfSection \<Rightarrow> nat" where
  "section_size_in_file s = (if s_type s = 8 then 0 else s_size s)"

text \<open>The table of section names; the code scans it without further checks, so it must end in a zero.\<close>

definition shstrtab :: "Elf64_Ehdr \<Rightarrow> bytes \<Rightarrow> ElfSection list \<Rightarrow> (nat \<times> nat) option" where
  "shstrtab h data ss = (let n = unat (e_shstrndx h) in
     if n \<noteq> 0 \<and> n < length ss then
       (let off = s_offset (ss ! n); sz = section_size_in_file (ss ! n);
            (off, sz) = (if sat (off + sz) > length data then (min off (length data), min sz (length data - min off (length data))) else (off, sz))
        in if sz = 0 \<or> data ! (off + sz - 1) \<noteq> 0 then None else Some (off, sz))
     else None)"

definition bytes_from_strtab :: "bytes \<Rightarrow> nat \<Rightarrow> nat \<Rightarrow> nat \<Rightarrow> bytes" where
  "bytes_from_strtab data section_offset sz off =
     (if off \<ge> sz then [] else takeWhile (\<lambda>b. b \<noteq> 0) (drop (section_offset + off) data))"

definition str_from_strtab :: "bytes \<Rightarrow> nat \<Rightarrow> nat \<Rightarrow> nat \<Rightarrow> bytes eres" where
  "str_from_strtab data section_offset sz off = (let s = bytes_from_strtab data section_offset sz off in
     if is_utf8 s then Ok s else Err Format)"

definition section_bytes :: "bytes \<Rightarrow> ElfSection \<Rightarrow> bytes eres" where
  "section_bytes data s = (if s_offset s + section_size_in_file s > length data then Panic
     else Ok (take (section_size_in_file s) (drop (s_offset s) data)))"

definition clamp_section :: "nat \<Rightarrow> ElfSection \<Rightarrow> ElfSection" where
  "clamp_section len s = (if sat (s_offset s + section_size_in_file s) > len
     then s\<lparr>s_offset := min (s_offset s) len, s_size := min (s_size s) (len - min (s_offset s) len)\<rparr> else s)"

definition open_section :: "bytes \<Rightarrow> (nat \<times> nat) option \<Rightarrow> ElfSection \<Rightarrow> ElfSection eres" where
  "open_section data tab s =
     rbind (case tab of Some (off, sz) \<Rightarrow> str_from_strtab data off sz (name_offset_in_strtab s) | None \<Rightarrow> Ok []) (\<lambda>name.
       let s = clamp_section (length data) (s\<lparr>s_name := name\<rparr>) in
       if s_flags s AND 0x800 \<noteq> 0
       then rbind (section_bytes data s) (\<lambda>c. rbind (memcpy_struct 24 get_chdr c) (\<lambda>h. Ok (s\<lparr>compression_header := Some h\<rparr>)))
       else Ok s)"

definition section_by_name :: "ElfSection list \<Rightarrow> bytes \<Rightarrow> nat option" where
  "section_by_name ss n = map_of (rev (zip (map s_name ss) [0..<length ss])) n"

definition sections_by_offset :: "ElfSection list \<Rightarrow> (nat \<times> nat \<times> nat) list" where
  "sections_by_offset ss = sort (map (\<lambda>(s, i). (s_offset s, s_offset s + s_size s, i))
     (filter (\<lambda>(s, i). section_size_in_file s \<noteq> 0) (zip ss [0..<length ss])))"

text \<open>
  The contents of a section. Room for the decompressed bytes and some padding is allocated first: a
  size that overflows, or that no allocation can have, panics.
\<close>

type_synonym inflate = "bytes \<Rightarrow> nat \<Rightarrow> bytes eres"

definition section_data :: "inflate \<Rightarrow> bytes \<Rightarrow> ElfSection \<Rightarrow> bytes eres" where
  "section_data inflate data s = rbind (section_bytes data s) (\<lambda>c. case compression_header s of
      None \<Rightarrow> Ok c
    | Some h \<Rightarrow> if length c < 24 then Panic
        else if unat (ch_size h) + 4096 \<ge> 2 ^ 63 then Panic
        else if ch_type h = 1 then inflate (drop 24 c) (unat (ch_size h))
        else Err UnsupportedExecutable)"

section \<open>Build id, dynamic linker\<close>

definition is_build_id :: "ElfNote \<Rightarrow> bool" where
  "is_build_id n \<longleftrightarrow> note_type n = 3 \<and> note_name n = [0x47, 0x4E, 0x55, 0] \<and> note_desc n \<noteq> []"

definition last_build_id :: "ElfNote list \<Rightarrow> bytes option \<Rightarrow> bytes option" where
  "last_build_id ns b = fold (\<lambda>n b. if is_build_id n then Some (note_desc n) else b) ns b"

fun find_build_id :: "inflate \<Rightarrow> bytes \<Rightarrow> ElfSection list \<Rightarrow> bytes option \<Rightarrow> bytes option eres" where
  "find_build_id inflate data [] b = Ok b"
| "find_build_id inflate data (s # ss) b =
     (if s_type s = 7 then rbind (section_data inflate data s) (\<lambda>d. rbind (parse_notes d) (\<lambda>ns. find_build_id inflate data ss (last_build_id ns b)))
      else find_build_id inflate data ss b)"

text \<open>The loop over the entries of 16 bytes, up to the first with the tag \<open>DT_DEBUG\<close>.\<close>

definition find_r_debug :: "inflate \<Rightarrow> bytes \<Rightarrow> ElfSection list \<Rightarrow> nat option eres" where
  "find_r_debug inflate data ss = (case section_by_name ss (bytes_of ''.dynamic'') of
      None \<Rightarrow> Ok None
    | Some i \<Rightarrow> rbind (section_data inflate data (ss ! i)) (\<lambda>d.
        case find (\<lambda>k. le_at d (16 * k) 8 = (21 :: u64)) [0..<length d div 16] of
          None \<Rightarrow> Ok None
        | Some k \<Rightarrow> if s_address (ss ! i) + 16 * k + 8 \<ge> 2 ^ 64 then Panic else Ok (Some (s_address (ss ! i) + 16 * k + 8))))"

definition find_interp :: "inflate \<Rightarrow> bytes \<Rightarrow> ElfSection list \<Rightarrow> bytes option eres" where
  "find_interp inflate data ss = (case section_by_name ss (bytes_of ''.interp'') of
      None \<Rightarrow> Ok None
    | Some i \<Rightarrow> rbind (section_data inflate data (ss ! i)) (\<lambda>d. let p = takeWhile (\<lambda>b. b \<noteq> 0) d in
        if is_utf8 p then Ok (Some p) else Err Format))"

definition open_elf :: "inflate \<Rightarrow> bytes \<Rightarrow> ElfFile eres" where
  "open_elf inflate data = rbind (memcpy_struct 64 get_ehdr data) (\<lambda>h.
     rbind (check_header h (length data)) (\<lambda>_.
     rbind (open_segments h data) (\<lambda>sgs.
     rbind (raw_sections h data) (\<lambda>raw.
     rbind (collect (map (open_section data (shstrtab h data raw)) raw)) (\<lambda>ss.
     rbind (find_build_id inflate data ss None) (\<lambda>b.
     rbind (find_r_debug inflate data ss) (\<lambda>r.
     rbind (find_interp inflate data ss) (\<lambda>i.
       Ok \<lparr>machine = e_machine h, segments = sgs, sections = ss, entry_point = unat (e_entry h),
           by_offset = sections_by_offset ss, text_section = section_by_name ss (bytes_of ''.text''),
           is_core_dump = (e_type h = 4), build_id = b, interp = i, r_debug_ptr_addr = r, elf_data = data\<rparr>))))))))"

text \<open>The first bytes of a file tell whether it is a core dump.\<close>

definition is_core_dump_file :: "bytes \<Rightarrow> bool eres" where
  "is_core_dump_file file = rbind (ByteIO.read_u32 file) (\<lambda>(magic, r).
     if magic \<noteq> 0x464c457f then Err MalformedExecutable
     else rbind (get_exact 12 r) (\<lambda>(_, r). rbind (ByteIO.read_u16 r) (\<lambda>(t, _). Ok (t = 4))))"

text \<open>From an address of the file's own to an offset in it; sums and differences that overflow panic.\<close>

fun addr_range_loop :: "ElfSection list \<Rightarrow> nat \<Rightarrow> nat \<Rightarrow> (nat \<times> nat) option eres" where
  "addr_range_loop [] a b = Ok None"
| "addr_range_loop (s # ss) a b =
     (if s_address s > a then addr_range_loop ss a b
      else if s_address s + s_size s \<ge> 2 ^ 64 then Panic
      else if s_address s + s_size s \<ge> b then
        (if b < s_address s \<or> a - s_address s + s_offset s \<ge> 2 ^ 64 \<or> b - s_address s + s_offset s \<ge> 2 ^ 64 then Panic
         else Ok (Some (a - s_address s + s_offset s, b - s_address s + s_offset s)))
      else addr_range_loop ss a b)"

definition addr_range_to_offset_range :: "ElfFile \<Rightarrow> nat \<Rightarrow> nat \<Rightarrow> (nat \<times> nat) option eres" where
  "addr_range_to_offset_range e a b = addr_range_loop (sections e) a b"

fun addr_loop :: "ElfSection list \<Rightarrow> nat \<Rightarrow> nat option eres" where
  "addr_loop [] a = Ok None"
| "addr_loop (s # ss) a =
     (if s_address s > a then addr_loop ss a
      else if s_address s + s_size s \<ge> 2 ^ 64 then Panic
      else if s_address s + s_size s > a then
        (if a - s_address s + s_offset s \<ge> 2 ^ 64 then Panic else Ok (Some (a - s_address s + s_offset s)))
      else addr_loop ss a)"

definition addr_to_offset :: "ElfFile \<Rightarrow> nat \<Rightarrow> nat option eres" where
  "addr_to_offset e a = addr_loop (sections e) a"

section \<open>Structures are read back\<close>

lemma le_at_append: "length bs \<le> off \<Longrightarrow> le_at (bs @ cs) off n = le_at cs (off - length bs) n"
  by (simp add: le_at_def)

lemma le_at_here: "LENGTH('a) \<le> 8 * n \<Longrightarrow> le_at (to_le_bytes n (x :: 'a::len word) @ rest) 0 n = x"
  by (simp add: le_at_def from_to_le_bytes)

lemma ehdr_round_trip: "length (e_ident h) = 16 \<Longrightarrow> get_ehdr (put_ehdr h @ rest) = h"
  by (simp add: get_ehdr_def put_ehdr_def le_at_append le_at_here)

lemma length_put_ehdr [simp]: "length (e_ident h) = 16 \<Longrightarrow> length (put_ehdr h) = 64"
  by (simp add: put_ehdr_def)

lemma phdr_round_trip: "get_phdr (put_phdr p @ rest) = p"
  by (simp add: get_phdr_def put_phdr_def le_at_append le_at_here)

lemma length_put_phdr [simp]: "length (put_phdr p) = 56"
  by (simp add: put_phdr_def)

section \<open>No panics\<close>

lemma collect_Panic: "collect rs = Panic \<Longrightarrow> Panic \<in> set rs"
  by (induction rs) (auto simp: rbind_eq_Panic)

lemma collect_Ok: "collect rs = Ok xs \<longleftrightarrow> rs = map Ok xs"
proof (induction rs arbitrary: xs)
  case (Cons r rs)
  then show ?case by (cases xs) auto
qed auto

lemma check_headerD:
  assumes "check_header h len = Ok ()" "len < 2 ^ 64 - 1"
  shows "unat (e_phnum h) * unat (e_phentsize h) + unat (e_phoff h) \<le> len" "e_phnum h > 0 \<Longrightarrow> 56 \<le> unat (e_phentsize h)"
    "unat (e_shnum h) * unat (e_shentsize h) + unat (e_shoff h) \<le> len" "e_shnum h > 0 \<Longrightarrow> 64 \<le> unat (e_shentsize h)"
  using assms by (auto simp: check_header_def sat_def min_def split: if_splits)

lemma table_entry: "i < n \<Longrightarrow> sz \<le> m \<Longrightarrow> n * m + off \<le> (len :: nat) \<Longrightarrow> off + i * m + sz \<le> len"
proof -
  assume "i < n" "sz \<le> m" "n * m + off \<le> len"
  moreover have "i * m + m \<le> n * m" using \<open>i < n\<close> by (metis Suc_leI mult_Suc mult_le_mono1 add.commute)
  ultimately show ?thesis by linarith
qed

lemma struct_at_Ok: "off + sz \<le> length data \<Longrightarrow> struct_at sz get data off = Ok (get (drop off data))"
  by (simp add: struct_at_def memcpy_struct_def)

lemma open_segments_Ok:
  assumes "check_header h (length data) = Ok ()" "length data < 2 ^ 64 - 1"
  shows "open_segments h data = Ok (map (\<lambda>i. open_segment (length data) (get_phdr (drop (unat (e_phoff h) + i * unat (e_phentsize h)) data))) [0..<unat (e_phnum h)])"
proof -
  have "unat (e_phoff h) + i * unat (e_phentsize h) + 56 \<le> length data" if "i < unat (e_phnum h)" for i
  proof -
    have "e_phnum h > 0" using that by (auto simp: word_gt_0)
    from table_entry [OF that check_headerD(2) [OF assms this] check_headerD(1) [OF assms]] show ?thesis .
  qed
  then show ?thesis unfolding open_segments_def by (simp add: collect_Ok struct_at_Ok)
qed

lemma raw_sections_Ok:
  assumes "check_header h (length data) = Ok ()" "length data < 2 ^ 64 - 1"
  shows "\<exists>ss. raw_sections h data = Ok ss"
proof -
  have "unat (e_shoff h) + i * unat (e_shentsize h) + 64 \<le> length data" if "i < unat (e_shnum h)" for i
  proof -
    have "e_shnum h > 0" using that by (auto simp: word_gt_0)
    from table_entry [OF that check_headerD(4) [OF assms this] check_headerD(3) [OF assms]] show ?thesis .
  qed
  then show ?thesis unfolding raw_sections_def
    by (intro exI [of _ "map (\<lambda>i. get_section (drop (unat (e_shoff h) + i * unat (e_shentsize h)) data)) [0..<unat (e_shnum h)]"])
      (simp add: collect_Ok struct_at_Ok)
qed

text \<open>What a computation may end in: a value, an error, a panic.\<close>

definition outcome :: "('a \<Rightarrow> bool) \<Rightarrow> ('e \<Rightarrow> bool) \<Rightarrow> bool \<Rightarrow> ('a, 'e) result \<Rightarrow> bool" where
  "outcome P E X r = (case r of Ok a \<Rightarrow> P a | Err e \<Rightarrow> E e | Panic \<Rightarrow> X)"

lemma outcome_simps [simp]: "outcome P E X (Ok a) = P a" "outcome P E X (Err e) = E e" "outcome P E X Panic = X"
  by (simp_all add: outcome_def)

lemma outcome_rbind: "outcome P E X r \<Longrightarrow> (\<And>a. r = Ok a \<Longrightarrow> P a \<Longrightarrow> outcome Q E X (f a)) \<Longrightarrow> outcome Q E X (rbind r f)"
  by (cases r) auto

lemma outcome_mono: "outcome P E X r \<Longrightarrow> (\<And>a. P a \<Longrightarrow> Q a) \<Longrightarrow> (\<And>e. E e \<Longrightarrow> F e) \<Longrightarrow> (X \<Longrightarrow> Y) \<Longrightarrow> outcome Q F Y r"
  by (cases r) auto

lemma outcome_collect: "(\<And>r. r \<in> set rs \<Longrightarrow> outcome P E X r) \<Longrightarrow> outcome (\<lambda>xs. (\<forall>x\<in>set xs. P x) \<and> length xs = length rs) E X (collect rs)"
proof (induction rs)
  case (Cons r rs)
  have "outcome P E X r" using Cons.prems by simp
  moreover have "outcome (\<lambda>xs. (\<forall>x\<in>set xs. P x) \<and> length xs = length rs) E X (collect rs)" using Cons by simp
  ultimately show ?case unfolding collect.simps by (intro outcome_rbind [of P] outcome_rbind [of "\<lambda>xs. (\<forall>x\<in>set xs. P x) \<and> length xs = length rs"]) auto
qed simp

definition inflate_ok :: "inflate \<Rightarrow> bool" where
  "inflate_ok inflate \<longleftrightarrow> (\<forall>c n. inflate c n \<noteq> Panic)"

definition elf_error :: "inflate \<Rightarrow> ErrorCode \<Rightarrow> bool" where
  "elf_error inflate c \<longleftrightarrow> c \<in> {MalformedExecutable, UnsupportedExecutable, Format} \<or> (\<exists>b n. inflate b n = Err c)"

lemma elf_error_simps [simp]: "elf_error inflate MalformedExecutable" "elf_error inflate UnsupportedExecutable" "elf_error inflate Format"
  by (simp_all add: elf_error_def)

lemma open_segment_bounds: "len < 2 ^ 64 - 1 \<Longrightarrow> seg_offset (open_segment len p) + size_in_file (open_segment len p) \<le> len"
  by (auto simp: open_segment_def Let_def sat_def)

definition in_file :: "nat \<Rightarrow> ElfSection \<Rightarrow> bool" where
  "in_file len s \<longleftrightarrow> s_offset s + section_size_in_file s \<le> len"

text \<open>What the loop over the sections does to one of them.\<close>

definition opened :: "nat \<Rightarrow> ElfSection \<Rightarrow> ElfSection \<Rightarrow> bool" where
  "opened len s s' \<longleftrightarrow> in_file len s' \<and> s_address s' = s_address s \<and> s_size s' \<le> s_size s
     \<and> (case compression_header s' of None \<Rightarrow> True | Some h \<Rightarrow> s_flags s AND 0x800 \<noteq> 0)"

lemma clamp_section_bounds:
  "len < 2 ^ 64 - 1 \<Longrightarrow> in_file len (clamp_section len s)" "s_address (clamp_section len s) = s_address s"
  "s_flags (clamp_section len s) = s_flags s" "s_size (clamp_section len s) \<le> s_size s"
  "compression_header (clamp_section len s) = compression_header s"
  by (auto simp: clamp_section_def in_file_def sat_def section_size_in_file_def)

lemma section_bytes_Ok: "in_file (length data) s \<Longrightarrow> section_bytes data s = Ok (take (section_size_in_file s) (drop (s_offset s) data))"
  by (simp add: in_file_def section_bytes_def)

lemma open_section_outcome:
  assumes "length data < 2 ^ 64 - 1" "compression_header s = None"
  shows "outcome (opened (length data) s) (elf_error inflate) False (open_section data tab s)"
  unfolding open_section_def
proof (rule outcome_rbind [of "\<lambda>_. True"])
  show "outcome (\<lambda>_. True) (elf_error inflate) False
      (case tab of None \<Rightarrow> Ok [] | Some (off, sz) \<Rightarrow> str_from_strtab data off sz (name_offset_in_strtab s))"
    by (auto simp: str_from_strtab_def Let_def split: option.split)
next
  fix name
  let ?s = "clamp_section (length data) (s\<lparr>s_name := name\<rparr>)"
  note c = clamp_section_bounds(1) [OF assms(1), of "s\<lparr>s_name := name\<rparr>"] clamp_section_bounds(2-) [of "length data" "s\<lparr>s_name := name\<rparr>", simplified]
  show "outcome (opened (length data) s) (elf_error inflate) False (let s = ?s in if s_flags s AND 0x800 \<noteq> 0
      then rbind (section_bytes data s) (\<lambda>c. rbind (memcpy_struct 24 get_chdr c) (\<lambda>h. Ok (s\<lparr>compression_header := Some h\<rparr>))) else Ok s)"
    using c assms(2) by (auto simp: Let_def section_bytes_Ok memcpy_struct_def opened_def in_file_def section_size_in_file_def)
qed

definition odd_section :: "ElfSection \<Rightarrow> bool" where
  "odd_section s \<longleftrightarrow> s_flags s AND 0x800 \<noteq> 0 \<or> s_address s + s_size s \<ge> 2 ^ 64"

lemma section_data_outcome:
  assumes "opened (length data) s s'" "inflate_ok inflate"
  shows "outcome (\<lambda>d. odd_section s \<or> length d \<le> s_size s') (elf_error inflate) (odd_section s) (section_data inflate data s')"
proof (cases "compression_header s'")
  case None
  then show ?thesis using assms(1)
    by (auto simp: section_data_def section_bytes_Ok opened_def section_size_in_file_def)
next
  case (Some h)
  then have "odd_section s" using assms(1) by (simp add: opened_def odd_section_def)
  moreover have "outcome (\<lambda>_. True) (elf_error inflate) True (section_data inflate data s')"
    using Some assms(1) by (auto simp: outcome_def section_data_def section_bytes_Ok opened_def elf_error_def split: result.split)
  ultimately show ?thesis by (auto elim!: outcome_mono)
qed

lemma parse_notes_outcome: "outcome (\<lambda>_. True) (\<lambda>e. e = MalformedExecutable) False (parse_notes data)"
proof (induction data rule: parse_notes.induct)
  case (1 data)
  have "parse_elf_note data \<noteq> Panic" "\<And>e. parse_elf_note data = Err e \<Longrightarrow> e = MalformedExecutable"
    by (auto simp: parse_elf_note_def Let_def split: if_splits)
  then show ?case using 1
    by (subst parse_notes.simps) (auto split: result.split option.split intro!: outcome_rbind [of "\<lambda>_. True"])
qed

text \<open>The sections of the file, each opened from its header.\<close>

abbreviation all_opened :: "nat \<Rightarrow> ElfSection list \<Rightarrow> ElfSection list \<Rightarrow> bool" where
  "all_opened len \<equiv> list_all2 (opened len)"

lemma all_openedE: "all_opened len raw ss \<Longrightarrow> s' \<in> set ss \<Longrightarrow> (\<And>s. s \<in> set raw \<Longrightarrow> opened len s s' \<Longrightarrow> thesis) \<Longrightarrow> thesis"
  by (fastforce simp: list_all2_conv_all_nth in_set_conv_nth)

lemma section_by_name_Some: "section_by_name ss n = Some i \<Longrightarrow> i < length ss \<and> s_name (ss ! i) = n"
  by (auto simp: section_by_name_def dest!: map_of_SomeD simp: set_zip)

lemma section_of_opened:
  assumes "all_opened (length data) raw ss" "s' \<in> set ss" "inflate_ok inflate"
  shows "outcome (\<lambda>d. (\<exists>s\<in>set raw. odd_section s) \<or> s_address s' + length d < 2 ^ 64) (elf_error inflate) (\<exists>s\<in>set raw. odd_section s) (section_data inflate data s')"
proof -
  obtain s where s: "s \<in> set raw" "opened (length data) s s'" by (rule all_openedE [OF assms(1,2)])
  have "odd_section s \<or> s_address s' + s_size s' < 2 ^ 64" using s(2) by (auto simp: opened_def odd_section_def)
  then show ?thesis by (intro outcome_mono [OF section_data_outcome [OF s(2) assms(3)]]) (use s(1) in auto)
qed

lemma find_build_id_outcome:
  assumes "all_opened (length data) raw ss" "set ss' \<subseteq> set ss" "inflate_ok inflate"
  shows "outcome (\<lambda>_. True) (elf_error inflate) (\<exists>s\<in>set raw. odd_section s) (find_build_id inflate data ss' b)"
  using assms(2)
proof (induction ss' arbitrary: b)
  case (Cons s ss')
  have "outcome (\<lambda>_. True) (elf_error inflate) (\<exists>s\<in>set raw. odd_section s) (parse_notes d)" for d
    by (rule outcome_mono [OF parse_notes_outcome]) auto
  moreover have "outcome (\<lambda>_. True) (elf_error inflate) (\<exists>s\<in>set raw. odd_section s) (section_data inflate data s)"
    by (rule outcome_mono [OF section_of_opened [OF assms(1) _ assms(3)]]) (use Cons.prems in auto)
  ultimately show ?case using Cons by (auto intro!: outcome_rbind [of "\<lambda>_. True"])
qed simp

lemma find_r_debug_outcome:
  assumes "all_opened (length data) raw ss" "inflate_ok inflate"
  shows "outcome (\<lambda>_. True) (elf_error inflate) (\<exists>s\<in>set raw. odd_section s) (find_r_debug inflate data ss)"
proof (cases "section_by_name ss (bytes_of ''.dynamic'')")
  case (Some i)
  then have i: "ss ! i \<in> set ss" using section_by_name_Some by fastforce
  have "outcome (\<lambda>_. True) (elf_error inflate) (\<exists>s\<in>set raw. odd_section s)
      (rbind (section_data inflate data (ss ! i)) (\<lambda>d.
        case find (\<lambda>k. le_at d (16 * k) 8 = (21 :: u64)) [0..<length d div 16] of
          None \<Rightarrow> Ok None
        | Some k \<Rightarrow> if s_address (ss ! i) + 16 * k + 8 \<ge> 2 ^ 64 then Panic else Ok (Some (s_address (ss ! i) + 16 * k + 8))))"
  proof (rule outcome_rbind [OF section_of_opened [OF assms(1) i assms(2)]])
    fix d :: bytes
    assume d: "(\<exists>s\<in>set raw. odd_section s) \<or> s_address (ss ! i) + length d < 2 ^ 64"
    have "s_address (ss ! i) + 16 * k + 8 < 2 ^ 64 \<or> (\<exists>s\<in>set raw. odd_section s)"
      if "find (\<lambda>k. le_at d (16 * k) 8 = (21 :: u64)) [0..<length d div 16] = Some k" for k
    proof -
      have "k < length d div 16" using that by (auto simp: find_Some_iff)
      then have "16 * k + 16 \<le> length d" using div_times_less_eq_dividend [of "length d" 16] by linarith
      then have "s_address (ss ! i) + 16 * k + 8 < 2 ^ 64" if "s_address (ss ! i) + length d < 2 ^ 64" using that by linarith
      then show ?thesis using d by blast
    qed
    then show "outcome (\<lambda>_. True) (elf_error inflate) (\<exists>s\<in>set raw. odd_section s)
       (case find (\<lambda>k. le_at d (16 * k) 8 = (21 :: u64)) [0..<length d div 16] of
          None \<Rightarrow> Ok None
        | Some k \<Rightarrow> if s_address (ss ! i) + 16 * k + 8 \<ge> 2 ^ 64 then Panic else Ok (Some (s_address (ss ! i) + 16 * k + 8)))"
      by (cases "find (\<lambda>k. le_at d (16 * k) 8 = (21 :: u64)) [0..<length d div 16]") (simp_all del: find_None_iff, fastforce)
  qed
  then show ?thesis using Some by (simp add: find_r_debug_def)
qed (simp add: find_r_debug_def)

lemma find_interp_outcome:
  assumes "all_opened (length data) raw ss" "inflate_ok inflate"
  shows "outcome (\<lambda>_. True) (elf_error inflate) (\<exists>s\<in>set raw. odd_section s) (find_interp inflate data ss)"
proof (cases "section_by_name ss (bytes_of ''.interp'')")
  case (Some i)
  then have i: "ss ! i \<in> set ss" using section_by_name_Some by fastforce
  show ?thesis unfolding find_interp_def Some option.case
    by (rule outcome_rbind [OF section_of_opened [OF assms(1) i assms(2)]]) (simp add: Let_def)
qed (simp add: find_interp_def)

lemma raw_uncompressed: "raw_sections h data = Ok raw \<Longrightarrow> s \<in> set raw \<Longrightarrow> compression_header s = None"
  unfolding raw_sections_def collect_Ok
proof -
  assume "map (\<lambda>idx. struct_at 64 get_section data (unat (e_shoff h) + idx * unat (e_shentsize h))) [0..<unat (e_shnum h)] = map Ok raw" "s \<in> set raw"
  then obtain off where "struct_at 64 get_section data off = Ok s" by (metis (no_types, lifting) imageE image_eqI list.set_map)
  then show ?thesis by (auto simp: struct_at_def memcpy_struct_def get_section_def split: if_splits)
qed

lemma open_sections_outcome:
  assumes "length data < 2 ^ 64 - 1" "raw_sections h data = Ok raw"
  shows "outcome (all_opened (length data) raw) (elf_error inflate) (\<exists>s\<in>set raw. odd_section s) (collect (map (open_section data tab) raw))"
proof -
  have "\<forall>s\<in>set raw. compression_header s = None" using raw_uncompressed [OF assms(2)] by blast
  then have "outcome (all_opened (length data) raw) (elf_error inflate) False (collect (map (open_section data tab) raw))"
  proof (induction raw)
    case (Cons s raw)
    then show ?case using open_section_outcome [OF assms(1), of s inflate tab]
      by (auto intro!: outcome_rbind [of "opened (length data) s"] outcome_rbind [of "all_opened (length data) raw"])
  qed simp
  then show ?thesis by (auto elim: outcome_mono)
qed

section \<open>Properties\<close>

lemma sections_by_offset_ok:
  assumes "all_opened len raw ss"
  shows "sorted (sections_by_offset ss) \<and> (\<forall>(a, b, i)\<in>set (sections_by_offset ss). i < length ss \<and> a < b \<and> b \<le> len)"
proof -
  have "s_offset s + s_size s \<le> len" if "s \<in> set ss" "section_size_in_file s \<noteq> 0" for s
    using that by (auto elim!: all_openedE [OF assms] simp: opened_def in_file_def section_size_in_file_def split: if_splits)
  moreover have "0 < s_size s" if "section_size_in_file s \<noteq> 0" for s using that by (auto simp: section_size_in_file_def split: if_splits)
  ultimately have "i < length ss \<and> a < b \<and> b \<le> len" if "(a, b, i) \<in> set (sections_by_offset ss)" for a b i
    using that by (auto simp: sections_by_offset_def set_zip)
  moreover have "sorted (sections_by_offset ss)" by (simp add: sections_by_offset_def)
  ultimately show ?thesis by blast
qed

lemma open_elf_outcome:
  assumes "length data < 2 ^ 63" "inflate_ok inflate"
  shows "outcome (\<lambda>e. (\<forall>s\<in>set (segments e). seg_offset s + size_in_file s \<le> length data) \<and> (\<forall>s\<in>set (sections e). in_file (length data) s)
      \<and> sorted (by_offset e) \<and> (\<forall>(a, b, i)\<in>set (by_offset e). i < length (sections e) \<and> a < b \<and> b \<le> length data))
    (elf_error inflate) (\<exists>raw. raw_sections (get_ehdr data) data = Ok raw \<and> (\<exists>s\<in>set raw. odd_section s)) (open_elf inflate data)"
    (is "outcome ?Q ?E ?X _")
proof (cases "length data < 64 \<or> check_header (get_ehdr data) (length data) \<noteq> Ok ()")
  case True
  have "outcome (\<lambda>_. True) ?E False (check_header (get_ehdr data) (length data))" by (simp add: check_header_def)
  then show ?thesis using True by (auto simp: open_elf_def memcpy_struct_def outcome_def split: result.splits)
next
  case False
  let ?h = "get_ehdr data"
  have len: "length data < 2 ^ 64 - 1" using assms(1) by simp
  from False have h: "memcpy_struct 64 get_ehdr data = Ok ?h" "check_header ?h (length data) = Ok ()" by (auto simp: memcpy_struct_def)
  obtain raw where raw: "raw_sections ?h data = Ok raw" using raw_sections_Ok [OF h(2) len] by blast
  define sgs where "sgs = map (\<lambda>i. open_segment (length data) (get_phdr (drop (unat (e_phoff ?h) + i * unat (e_phentsize ?h)) data))) [0..<unat (e_phnum ?h)]"
  have sgs: "open_segments ?h data = Ok sgs" unfolding sgs_def by (rule open_segments_Ok [OF h(2) len])
  have seg: "\<forall>s\<in>set sgs. seg_offset s + size_in_file s \<le> length data" using open_segment_bounds [OF len] by (auto simp: sgs_def)
  have X: "?X \<longleftrightarrow> (\<exists>s\<in>set raw. odd_section s)" by (simp add: raw)
  show ?thesis unfolding X unfolding open_elf_def h rbind.simps sgs raw
  proof (rule outcome_rbind [OF open_sections_outcome [OF len raw]])
    fix ss assume ss: "all_opened (length data) raw ss"
    have "\<forall>s\<in>set ss. in_file (length data) s" by (auto elim!: all_openedE [OF ss] simp: opened_def)
    with sections_by_offset_ok [OF ss] seg
    show "outcome ?Q ?E (\<exists>s\<in>set raw. odd_section s) (rbind (find_build_id inflate data ss None) (\<lambda>b.
       rbind (find_r_debug inflate data ss) (\<lambda>r. rbind (find_interp inflate data ss) (\<lambda>i.
       Ok \<lparr>machine = e_machine ?h, segments = sgs, sections = ss, entry_point = unat (e_entry ?h),
           by_offset = sections_by_offset ss, text_section = section_by_name ss (bytes_of ''.text''),
           is_core_dump = (e_type ?h = 4), build_id = b, interp = i, r_debug_ptr_addr = r, elf_data = data\<rparr>))))"
      by (intro outcome_rbind [OF find_build_id_outcome [OF ss subset_refl assms(2)]]
          outcome_rbind [OF find_r_debug_outcome [OF ss assms(2)]] outcome_rbind [OF find_interp_outcome [OF ss assms(2)]]) simp
  qed
qed

text \<open>
  (C9) Opening a file as ELF never panics, whatever the file holds, unless one of its section
  headers claims compression or a range of addresses that wraps around. When it succeeds, every
  segment and every section lies inside the file, and the sections in the order of the file are
  sorted and refer to sections that exist; otherwise the error says that the file is malformed,
  unsupported or not text, or is that of the decompression.
\<close>

theorem open_elf_safe:
  assumes "length data < 2 ^ 63" "\<forall>c n. inflate c n \<noteq> Panic"
  shows "case open_elf inflate data of
      Ok e \<Rightarrow> (\<forall>s\<in>set (segments e). seg_offset s + size_in_file s \<le> length data)
        \<and> (\<forall>s\<in>set (sections e). s_offset s + section_size_in_file s \<le> length data)
        \<and> sorted (by_offset e) \<and> (\<forall>(a, b, i)\<in>set (by_offset e). i < length (sections e) \<and> a < b \<and> b \<le> length data)
    | Err c \<Rightarrow> c \<in> {MalformedExecutable, UnsupportedExecutable, Format} \<or> (\<exists>b n. inflate b n = Err c)
    | Panic \<Rightarrow> \<exists>raw. raw_sections (get_ehdr data) data = Ok raw
        \<and> (\<exists>s\<in>set raw. s_flags s AND 0x800 \<noteq> 0 \<or> s_address s + s_size s \<ge> 2 ^ 64)"
  using open_elf_outcome [of data inflate] assms
  unfolding outcome_def inflate_ok_def elf_error_def in_file_def odd_section_def by simp

text \<open>A core dump that has only a header.\<close>

definition bare_ehdr :: Elf64_Ehdr where
  "bare_ehdr = \<lparr>e_ident = [0x7f, 0x45, 0x4c, 0x46, 2, 1, 1, 0, 0, 0, 0, 0, 0, 0, 0, 0], e_type = 4, e_machine = 62, e_version = 1,
     e_entry = 0, e_phoff = 64, e_shoff = 0, e_flags = 0, e_ehsize = 64, e_phentsize = 56, e_phnum = 0,
     e_shentsize = 0, e_shnum = 0, e_shstrndx = 0\<rparr>"

lemma open_bare: "\<exists>e. open_elf inflate (put_ehdr bare_ehdr) = Ok e \<and> is_core_dump e"
proof -
  have g: "get_ehdr (put_ehdr bare_ehdr) = bare_ehdr" using ehdr_round_trip [of bare_ehdr "[]"] by (simp add: bare_ehdr_def)
  have l: "length (put_ehdr bare_ehdr) = 64" by (simp add: bare_ehdr_def)
  show ?thesis
    by (simp add: open_elf_def memcpy_struct_def g l check_header_def open_segments_def raw_sections_def find_r_debug_def find_interp_def section_by_name_def)
      (simp add: bare_ehdr_def sat_def)
qed

theorem open_elf_safe_witness:
  "\<exists>e. open_elf (\<lambda>c n. Err IO) (put_ehdr bare_ehdr) = Ok e \<and> is_core_dump e \<and> (\<forall>s\<in>set (segments e). seg_offset s + size_in_file s \<le> 64)"
proof -
  have l: "length (put_ehdr bare_ehdr) = 64" by (simp add: bare_ehdr_def)
  from open_bare obtain e where "open_elf (\<lambda>c n. Err IO) (put_ehdr bare_ehdr) = Ok e" "is_core_dump e" by blast
  then show ?thesis using open_elf_safe [of "put_ehdr bare_ehdr" "\<lambda>c n. Err IO"] l by simp
qed

end
