(* ===== verification/ProcMaps.thy ===== *)
theory ProcMaps
  imports ByteIO "HOL-Library.List_Lexorder" "HOL-Library.Product_Lexorder"
begin

text \<open>
  The memory maps of a process (\<open>src/procfs.rs\<close>): the text of \<open>/proc/<pid>/maps\<close> is parsed line by
  line, maps that belong to executables get a locator of the binary, and an address is looked up
  among the maps. \<open>AddrMap\<close> is the difference between the addresses of a binary on disk and in the
  process. A \<open>String\<close> is its UTF-8 bytes; the file is the list of its lines.
\<close>

section \<open>Binary locators\<close>

datatype SpecialSegmentId = NoSpecial | Vdso nat nat

fun special_key :: "SpecialSegmentId \<Rightarrow> nat \<times> nat \<times> nat" where
  "special_key NoSpecial = (0, 0, 0)"
| "special_key (Vdso a b) = (1, a, b)"

lemma special_key_inject: "special_key x = special_key y \<Longrightarrow> x = y"
  by (cases x; cases y) simp_all

instantiation SpecialSegmentId :: linorder
begin

definition less_eq_SpecialSegmentId :: "SpecialSegmentId \<Rightarrow> SpecialSegmentId \<Rightarrow> bool" where
  "less_eq_SpecialSegmentId x y \<longleftrightarrow> special_key x \<le> special_key y"

definition less_SpecialSegmentId :: "SpecialSegmentId \<Rightarrow> SpecialSegmentId \<Rightarrow> bool" where
  "less_SpecialSegmentId x y \<longleftrightarrow> special_key x < special_key y"

instance
  by standard (auto simp: less_eq_SpecialSegmentId_def less_SpecialSegmentId_def intro: special_key_inject)

end

fun is_none :: "SpecialSegmentId \<Rightarrow> bool" where
  "is_none NoSpecial = True"
| "is_none (Vdso a b) = False"

fun is_vdso :: "SpecialSegmentId \<Rightarrow> bool" where
  "is_vdso (Vdso a b) = True"
| "is_vdso NoSpecial = False"

datatype BinaryLocator = BinaryLocator (loc_path: bytes) (loc_inode: nat) (loc_special: SpecialSegmentId)

instantiation BinaryLocator :: linorder
begin

definition locator_key :: "BinaryLocator \<Rightarrow> bytes \<times> nat \<times> SpecialSegmentId" where
  "locator_key l = (loc_path l, loc_inode l, loc_special l)"

definition less_eq_BinaryLocator :: "BinaryLocator \<Rightarrow> BinaryLocator \<Rightarrow> bool" where
  "less_eq_BinaryLocator x y \<longleftrightarrow> locator_key x \<le> locator_key y"

definition less_BinaryLocator :: "BinaryLocator \<Rightarrow> BinaryLocator \<Rightarrow> bool" where
  "less_BinaryLocator x y \<longleftrightarrow> locator_key x < locator_key y"

instance
  by standard (auto simp: less_eq_BinaryLocator_def less_BinaryLocator_def locator_key_def intro: BinaryLocator.expand)

end

definition save_state_incomplete :: "BinaryLocator \<Rightarrow> bytes" where
  "save_state_incomplete l = write_str (loc_path l) @ write_u8 (if is_vdso (loc_special l) then 1 else 0)"

definition load_state_incomplete :: "BinaryLocator get" where
  "load_state_incomplete = gbind read_str (\<lambda>p. gbind read_u8 (\<lambda>x.
     gret (BinaryLocator p 0 (if x = 1 then Vdso 0 0 else NoSpecial))))"

definition matches_incomplete :: "BinaryLocator \<Rightarrow> BinaryLocator \<Rightarrow> bool" where
  "matches_incomplete l inc \<longleftrightarrow>
     (loc_path l, is_vdso (loc_special l)) = (loc_path inc, is_vdso (loc_special inc))"

section \<open>Maps\<close>

type_synonym MemMapPermissions = u8

definition READ :: u8 where "READ = 1"
definition WRITE :: u8 where "WRITE = 2"
definition EXECUTE :: u8 where "EXECUTE = 4"
definition SHARED :: u8 where "SHARED = 8"
definition PRIVATE :: u8 where "PRIVATE = 16"

definition has_perm :: "MemMapPermissions \<Rightarrow> u8 \<Rightarrow> bool" where
  "has_perm p f \<longleftrightarrow> p AND f = f"

record MemMapInfo =
  m_start :: nat
  m_len :: nat
  m_perms :: MemMapPermissions
  m_offset :: nat
  m_inode :: nat
  m_path :: "bytes option"
  m_locator :: "BinaryLocator option"
  m_binary_id :: "nat option"
  m_elf_seen :: bool

subsection \<open>Addresses on disk and in the process\<close>

record ElfSection =
  section_type :: u32
  section_flags :: u64
  section_address :: u64
  section_offset :: u64

record ElfFile =
  elf_sections :: "ElfSection list"
  section_by_offset :: "(nat \<times> nat \<times> nat) list"

record AddrMap =
  am_diff :: u64
  am_known :: bool
  am_consistent :: bool

definition addr_map_default :: AddrMap where
  "addr_map_default = \<lparr>am_diff = 0, am_known = False, am_consistent = True\<rparr>"

definition SHT_PROGBITS :: u32 where "SHT_PROGBITS = 1"
definition SHF_EXECINSTR :: u64 where "SHF_EXECINSTR = 4"

definition section_diff :: "MemMapInfo \<Rightarrow> ElfSection \<Rightarrow> u64" where
  "section_diff m s = word_of_nat (m_start m) - word_of_nat (m_offset m) - (section_address s - section_offset s)"

definition see_section :: "MemMapInfo \<Rightarrow> ElfSection \<Rightarrow> AddrMap \<Rightarrow> AddrMap" where
  "see_section m s am =
     (if section_type s \<noteq> SHT_PROGBITS \<or> section_flags s AND SHF_EXECINSTR = 0 then am
      else if \<not> am_known am then am\<lparr>am_diff := section_diff m s, am_known := True\<rparr>
      else if section_diff m s \<noteq> am_diff am \<and> am_consistent am then am\<lparr>am_consistent := False\<rparr>
      else am)"

text \<open>The loop over the sections that lie inside the map, from the first that starts in it.\<close>

fun update_loop :: "MemMapInfo \<Rightarrow> ElfFile \<Rightarrow> (nat \<times> nat \<times> nat) list \<Rightarrow> AddrMap \<Rightarrow> AddrMap eres" where
  "update_loop m elf [] am = Ok am"
| "update_loop m elf ((a, e, i) # ss) am =
     (if e \<le> m_offset m + m_len m then
        (if i < length (elf_sections elf) then update_loop m elf ss (see_section m (elf_sections elf ! i) am) else Panic)
      else Ok am)"

definition addr_map_update :: "MemMapInfo \<Rightarrow> ElfFile \<Rightarrow> AddrMap \<Rightarrow> AddrMap eres" where
  "addr_map_update m elf am = (case m_locator m of
      None \<Rightarrow> Panic
    | Some l \<Rightarrow> (case loc_special l of
        Vdso a b \<Rightarrow> Ok (am\<lparr>am_diff := word_of_nat a, am_known := True\<rparr>)
      | NoSpecial \<Rightarrow>
          if \<not> has_perm (m_perms m) EXECUTE then Ok am
          else (let idx = partition_point (\<lambda>t. fst t < m_offset m) (section_by_offset elf) in
            if idx < length (section_by_offset elf) \<and> m_offset m + m_len m \<ge> 2 ^ 64 then Panic
            else update_loop m elf (drop idx (section_by_offset elf)) am)))"

definition static_to_dynamic :: "AddrMap \<Rightarrow> u64 \<Rightarrow> u64" where
  "static_to_dynamic am s = s + am_diff am"

definition dynamic_to_static :: "AddrMap \<Rightarrow> u64 \<Rightarrow> u64" where
  "dynamic_to_static am d = d - am_diff am"

section \<open>Parsing the list of maps\<close>

text \<open>
  The length of the white space character (Unicode \<open>White_Space\<close>) that a string starts with, zero
  when it starts with another character.
\<close>

definition ws_len :: "bytes \<Rightarrow> nat" where
  "ws_len s = (let b0 = get0 s 0; b1 = get0 s 1; b2 = get0 s 2 in
     if s = [] then 0
     else if (9 \<le> b0 \<and> b0 \<le> 13) \<or> b0 = 32 then 1
     else if b0 = 0xC2 \<and> (b1 = 0x85 \<or> b1 = 0xA0) then 2
     else if (b0 = 0xE1 \<and> b1 = 0x9A \<and> b2 = 0x80)
       \<or> (b0 = 0xE2 \<and> b1 = 0x80 \<and> ((0x80 \<le> b2 \<and> b2 \<le> 0x8A) \<or> b2 = 0xA8 \<or> b2 = 0xA9 \<or> b2 = 0xAF))
       \<or> (b0 = 0xE2 \<and> b1 = 0x81 \<and> b2 = 0x9F)
       \<or> (b0 = 0xE3 \<and> b1 = 0x80 \<and> b2 = 0x80) then 3
     else 0)"

function trim_start :: "bytes \<Rightarrow> bytes" where
  "trim_start s = (if s = [] \<or> ws_len s = 0 then s else trim_start (drop (ws_len s) s))"
  by pat_completeness auto
termination
  by (relation "measure length") auto

declare trim_start.simps [simp del]

text \<open>\<open>splitn(2, c)\<close>: the first part, and the rest when \<open>c\<close> occurs.\<close>

definition split2 :: "u8 \<Rightarrow> bytes \<Rightarrow> bytes \<times> bytes option" where
  "split2 c s = (takeWhile (\<lambda>x. x \<noteq> c) s, if c \<in> set s then Some (tl (dropWhile (\<lambda>x. x \<noteq> c) s)) else None)"

fun digits10 :: "nat \<Rightarrow> bytes \<Rightarrow> nat option" where
  "digits10 acc [] = Some acc"
| "digits10 acc (c # cs) =
     (if 0x30 \<le> c \<and> c \<le> 0x39 \<and> acc * 10 + unat (c - 0x30) < 2 ^ 64
      then digits10 (acc * 10 + unat (c - 0x30)) cs else None)"

definition from_str_radix10 :: "bytes \<Rightarrow> nat option" where
  "from_str_radix10 s = (case s of
      [] \<Rightarrow> None
    | c # cs \<Rightarrow> if c = 0x2B \<and> cs \<noteq> [] then digits10 0 cs else digits10 0 s)"

definition ok_or :: "ErrorCode \<Rightarrow> 'a option \<Rightarrow> 'a eres" where
  "ok_or e x = (case x of Some a \<Rightarrow> Ok a | None \<Rightarrow> Err e)"

text \<open>A field of the line and what follows it, which must be there.\<close>

definition field :: "bytes \<Rightarrow> (bytes \<times> bytes) eres" where
  "field s = (case split2 32 (trim_start s) of (f, rest) \<Rightarrow> rbind (ok_or Format rest) (\<lambda>r. Ok (f, r)))"

definition perm_of :: "u8 \<Rightarrow> MemMapPermissions" where
  "perm_of c = (if c = byte CHR ''r'' then READ else if c = byte CHR ''w'' then WRITE
     else if c = byte CHR ''x'' then EXECUTE else if c = byte CHR ''s'' then SHARED
     else if c = byte CHR ''p'' then PRIVATE else 0)"

definition parse_perms :: "bytes \<Rightarrow> MemMapPermissions" where
  "parse_perms s = foldl (\<lambda>p c. p OR perm_of c) 0 s"

definition parse_range :: "bytes \<Rightarrow> (nat \<times> nat) eres" where
  "parse_range s = (case split2 (byte CHR ''-'') s of (a, b) \<Rightarrow>
     rbind (ok_or Format b) (\<lambda>b. rbind (ok_or Format (from_str_radix16 64 a)) (\<lambda>start.
       rbind (ok_or Format (from_str_radix16 64 b)) (\<lambda>e. Ok (start, e)))))"

definition parse_map_line :: "bytes \<Rightarrow> MemMapInfo eres" where
  "parse_map_line line =
     rbind (field line) (\<lambda>(range, rest). rbind (parse_range range) (\<lambda>(start, e).
     rbind (field rest) (\<lambda>(perms, rest).
     rbind (field rest) (\<lambda>(off, rest). rbind (ok_or Format (from_str_radix16 64 off)) (\<lambda>off.
     rbind (field rest) (\<lambda>(dev, rest).
       (case split2 32 (trim_start rest) of (inode, rest) \<Rightarrow>
          rbind (ok_or Format (from_str_radix10 inode)) (\<lambda>inode.
            if e < start then Panic
            else Ok \<lparr>m_start = start, m_len = e - start, m_perms = parse_perms perms, m_offset = off, m_inode = inode,
              m_path = (case rest of None \<Rightarrow> None | Some p \<Rightarrow> if trim_start p = [] then None else Some (trim_start p)),
              m_locator = None, m_binary_id = None, m_elf_seen = False\<rparr>))))))))"

text \<open>Which maps belong to executables.\<close>

definition deleted_suffix :: bytes where
  "deleted_suffix = bytes_of '' (deleted)''"

definition strip_deleted :: "bytes \<Rightarrow> bytes" where
  "strip_deleted p = (case strip_prefix (rev deleted_suffix) (rev p) of Some q \<Rightarrow> rev q | None \<Rightarrow> p)"

definition locate :: "nat \<Rightarrow> MemMapInfo \<Rightarrow> MemMapInfo" where
  "locate pid m = (case m_path m of
      None \<Rightarrow> m
    | Some p \<Rightarrow>
        if p = bytes_of ''[vdso]'' \<and> has_perm (m_perms m) EXECUTE
        then m\<lparr>m_locator := Some (BinaryLocator p pid (Vdso (m_start m) (m_start m + m_len m)))\<rparr>
        else if p \<noteq> [] \<and> hd p \<noteq> byte CHR ''[''
        then m\<lparr>m_locator := Some (BinaryLocator (strip_deleted p) (m_inode m) NoSpecial)\<rparr>
        else m)"

definition executables :: "MemMapInfo list \<Rightarrow> BinaryLocator set" where
  "executables ms = set (List.map_filter (\<lambda>m. if has_perm (m_perms m) EXECUTE then m_locator m else None) ms)"

definition unset_data :: "BinaryLocator set \<Rightarrow> MemMapInfo \<Rightarrow> MemMapInfo" where
  "unset_data ex m = (case m_locator m of
      Some l \<Rightarrow> if l \<notin> ex then m\<lparr>m_locator := None\<rparr> else m
    | None \<Rightarrow> m)"

definition detect_executables :: "nat \<Rightarrow> MemMapInfo list \<Rightarrow> MemMapInfo list" where
  "detect_executables pid ms = (let ms' = map (locate pid) ms in map (unset_data (executables ms')) ms')"

fun parse_lines :: "bytes list \<Rightarrow> MemMapInfo list eres" where
  "parse_lines [] = Ok []"
| "parse_lines (l # ls) = rbind (parse_map_line l) (\<lambda>m. rbind (parse_lines ls) (\<lambda>ms. Ok (m # ms)))"

definition read_proc_maps :: "nat \<Rightarrow> bytes list \<Rightarrow> MemMapInfo list eres" where
  "read_proc_maps pid ls = rbind (parse_lines ls) (\<lambda>ms. Ok (detect_executables pid (sort_key m_start ms)))"

section \<open>Questions about the maps\<close>

text \<open>\<open>dedup_by_key\<close>: neighbours with the same key, the first is kept.\<close>

fun dedup_by :: "('a \<Rightarrow> 'k) \<Rightarrow> 'a list \<Rightarrow> 'a list" where
  "dedup_by k (x # y # xs) = (if k x = k y then dedup_by k (x # xs) else x # dedup_by k (y # xs))"
| "dedup_by k xs = xs"

definition list_binaries :: "MemMapInfo list \<Rightarrow> BinaryLocator list" where
  "list_binaries ms =
     (let v = List.map_filter (\<lambda>(i, m). case m_locator m of None \<Rightarrow> None | Some l \<Rightarrow> Some (i, l)) (enumerate 0 ms);
          v = dedup_by snd (sort_key snd v)
      in map snd (sort_key fst v))"

definition addr_to_map :: "MemMapInfo list \<Rightarrow> nat \<Rightarrow> MemMapInfo option" where
  "addr_to_map ms addr =
     (let idx = partition_point (\<lambda>m. m_start m + m_len m \<le> addr) ms in
      if idx < length ms \<and> m_start (ms ! idx) \<le> addr then Some (ms ! idx) else None)"

definition clear :: "MemMapInfo list \<Rightarrow> MemMapInfo list" where
  "clear ms = []"

section \<open>Locators read back\<close>

lemma locator_found_again:
  assumes "length (loc_path l) < 2 ^ 64" "is_utf8 (loc_path l)"
  shows "\<exists>l'. load_state_incomplete (save_state_incomplete l @ rest) = Ok (l', rest) \<and> matches_incomplete l l'"
proof -
  have "load_state_incomplete (save_state_incomplete l @ rest) =
      Ok (BinaryLocator (loc_path l) 0 (if is_vdso (loc_special l) then Vdso 0 0 else NoSpecial), rest)"
    using assms by (simp add: load_state_incomplete_def save_state_incomplete_def str_codec.then_get u8_codec.then_get gret_def)
  then show ?thesis by (cases "loc_special l") (auto simp: matches_incomplete_def)
qed

section \<open>Looking up an address\<close>

definition wf_maps :: "MemMapInfo list \<Rightarrow> bool" where
  "wf_maps ms \<longleftrightarrow> sorted_wrt (\<lambda>a b. m_start a + m_len a \<le> m_start b) ms"

text \<open>
  In maps that are sorted and do not overlap, looking up an address by binary search returns
  the map that contains it, and nothing when no map does.
\<close>

lemma addr_to_map_finds:
  assumes "wf_maps ms"
  shows "addr_to_map ms addr = Some m \<longleftrightarrow> m \<in> set ms \<and> m_start m \<le> addr \<and> addr < m_start m + m_len m"
proof -
  let ?p = "\<lambda>m. m_start m + m_len m \<le> addr" and ?i = "partition_point (\<lambda>m. m_start m + m_len m \<le> addr) ms"
  have order: "m_start (ms ! i) + m_len (ms ! i) \<le> m_start (ms ! j)" if "i < j" "j < length ms" for i j
    using assms that by (simp add: wf_maps_def sorted_wrt_iff_nth_less)
  have mono: "?p (ms ! i)" if "i \<le> j" "j < length ms" "?p (ms ! j)" for i j
    using that order [of i j] by (cases "i = j") auto
  have pp: "i < ?i \<Longrightarrow> ?p (ms ! i)" "?i \<le> i \<Longrightarrow> i < length ms \<Longrightarrow> \<not> ?p (ms ! i)" for i
    using partition_point_spec [of ms ?p i] mono by blast+
  show ?thesis
  proof
    assume "addr_to_map ms addr = Some m"
    then have "?i < length ms" "m = ms ! ?i" "m_start m \<le> addr"
      by (auto simp: addr_to_map_def Let_def split: if_splits)
    with pp(2) [of ?i] show "m \<in> set ms \<and> m_start m \<le> addr \<and> addr < m_start m + m_len m" by auto
  next
    assume m: "m \<in> set ms \<and> m_start m \<le> addr \<and> addr < m_start m + m_len m"
    then obtain j where j: "j < length ms" "m = ms ! j" by (auto simp: in_set_conv_nth)
    have "?i \<le> j" using pp(1) [of j] m j by (meson leI not_less)
    moreover have "\<not> ?i < j"
    proof
      assume "?i < j"
      then have "?p (ms ! ?i)" using order [of ?i j] m j by simp
      with pp(2) [of ?i] \<open>?i < j\<close> j show False by simp
    qed
    ultimately have "?i = j" by simp
    with m j show "addr_to_map ms addr = Some m" by (simp add: addr_to_map_def)
  qed
qed

definition two_maps :: "MemMapInfo list" where
  "two_maps = map (\<lambda>(a, l). \<lparr>m_start = a, m_len = l, m_perms = 5, m_offset = 0, m_inode = 7, m_path = None,
     m_locator = None, m_binary_id = None, m_elf_seen = False\<rparr>) [(4096, 8192), (16384, 4096)]"

lemma addr_to_map_finds_example:
  "wf_maps two_maps \<and> addr_to_map two_maps 17000 = Some (two_maps ! 1) \<and> addr_to_map two_maps 13000 = None"
proof -
  have wf: "wf_maps two_maps" by (simp add: wf_maps_def two_maps_def)
  have "addr_to_map two_maps 17000 = Some (two_maps ! 1)"
    unfolding addr_to_map_finds [OF wf] by (simp add: two_maps_def)
  moreover have "addr_to_map two_maps 13000 \<noteq> Some m" for m
    unfolding addr_to_map_finds [OF wf] by (auto simp: two_maps_def)
  ultimately show ?thesis using wf by (metis option.exhaust)
qed

section \<open>One difference for all sections\<close>

abbreviation executable_section :: "ElfSection \<Rightarrow> bool" where
  "executable_section s \<equiv> section_type s = SHT_PROGBITS \<and> section_flags s AND SHF_EXECINSTR \<noteq> 0"

text \<open>Once a difference is known it stays, and a map that is still consistent had no other one.\<close>

lemma see_section_keeps:
  "am_known am \<Longrightarrow> am_known (see_section m s am) \<and> am_diff (see_section m s am) = am_diff am"
  "am_consistent (see_section m s am) \<Longrightarrow> am_consistent am"
  by (auto simp: see_section_def split: if_splits)

lemma see_section_consistent:
  "executable_section s \<Longrightarrow> am_consistent (see_section m s am) \<Longrightarrow>
     am_known (see_section m s am) \<and> am_diff (see_section m s am) = section_diff m s"
  by (auto simp: see_section_def split: if_splits)

lemma update_loop_diff:
  "update_loop m elf ss am = Ok am' \<Longrightarrow> am_known am \<Longrightarrow> am_known am' \<and> am_diff am' = am_diff am"
proof (induction m elf ss am rule: update_loop.induct)
  case (2 m elf a e i ss am)
  with see_section_keeps(1) [of am m "elf_sections elf ! i"] show ?case by (simp split: if_splits)
qed simp

lemma update_loop_consistent:
  "update_loop m elf ss am = Ok am' \<Longrightarrow> am_consistent am' \<Longrightarrow> am_consistent am"
proof (induction m elf ss am rule: update_loop.induct)
  case (2 m elf a e i ss am)
  with see_section_keeps(2) [of m "elf_sections elf ! i" am] show ?case by (simp split: if_splits)
qed simp

lemma takeWhile_before:
  assumes "x \<in> set xs" "sorted_wrt P xs" "y \<in> set (takeWhile (\<lambda>z. z \<noteq> x) xs)" shows "P y x"
  using assms
proof (induction xs)
  case (Cons z zs)
  then show ?case by (cases "z = x") auto
qed simp

lemma update_loop_sees:
  assumes "update_loop m elf ss am = Ok am'" "am_consistent am'" "(a, e, i) \<in> set ss"
    and "\<forall>(a', e', i') \<in> set (takeWhile (\<lambda>x. x \<noteq> (a, e, i)) ss). e' \<le> m_offset m + m_len m"
    and "e \<le> m_offset m + m_len m" "executable_section (elf_sections elf ! i)"
  shows "am_diff am' = section_diff m (elf_sections elf ! i)"
  using assms
proof (induction m elf ss am rule: update_loop.induct)
  case (2 m elf a' e' i' ss am)
  show ?case
  proof (cases "(a', e', i') = (a, e, i)")
    case True
    with 2 have am': "update_loop m elf ss (see_section m (elf_sections elf ! i) am) = Ok am'" by (auto split: if_splits)
    from update_loop_consistent [OF this "2.prems"(2)] see_section_consistent [OF "2.prems"(6)]
    have "am_known (see_section m (elf_sections elf ! i) am)"
      "am_diff (see_section m (elf_sections elf ! i) am) = section_diff m (elf_sections elf ! i)" by blast+
    with update_loop_diff [OF am'] show ?thesis by simp
  next
    case False
    with 2 show ?thesis by (auto split: if_splits)
  qed
qed simp


definition text_section :: ElfSection where
  "text_section = \<lparr>section_type = 1, section_flags = 6, section_address = 0x401000, section_offset = 0x1000\<rparr>"

definition text_map :: MemMapInfo where
  "text_map = \<lparr>m_start = 0x555000, m_len = 0x2000, m_perms = 5, m_offset = 0x1000, m_inode = 7, m_path = None,
     m_locator = Some (BinaryLocator [] 7 NoSpecial), m_binary_id = None, m_elf_seen = False\<rparr>"

definition text_elf :: ElfFile where
  "text_elf = \<lparr>elf_sections = [text_section], section_by_offset = [(0x1000, 0x1800, 0)]\<rparr>"

definition text_addr_map :: AddrMap where
  "text_addr_map = \<lparr>am_diff = 0x154000, am_known = True, am_consistent = True\<rparr>"

lemma partition_point_single: "partition_point p [x] = (if p x then 1 else 0)"
  by (simp add: partition_point_def bisect.simps)


section \<open>A line of the file is read\<close>

text \<open>A field: not empty, no space in it, and an ASCII character that is not white space first.\<close>

definition word :: "bytes \<Rightarrow> bool" where
  "word s \<longleftrightarrow> s \<noteq> [] \<and> 32 \<notin> set s \<and> 33 \<le> hd s \<and> hd s < 128"

lemma ws_len_ascii:
  assumes "33 \<le> c" "c < 128" shows "ws_len (c # s) = 0"
proof -
  have "\<not> c \<le> 13"
  proof
    assume "c \<le> 13"
    with assms(1) have "(33 :: u8) \<le> 13" by (rule order_trans)
    then show False by simp
  qed
  moreover have "c \<noteq> 32" "c \<noteq> 0xC2" "c \<noteq> 0xE1" "c \<noteq> 0xE2" "c \<noteq> 0xE3" using assms by auto
  ultimately show ?thesis by (simp add: ws_len_def Let_def)
qed

lemma trim_start_word: "word s \<Longrightarrow> trim_start (s @ r) = s @ r"
  by (subst trim_start.simps) (cases s, auto simp: word_def ws_len_ascii)

lemma trim_start_space: "trim_start (32 # s) = trim_start s"
  by (subst trim_start.simps) (simp add: ws_len_def)

lemma trim_start_spaces: "trim_start (replicate n 32 @ s) = trim_start s"
  by (induction n) (simp_all add: trim_start_space)

lemma split2_word: "c \<notin> set s \<Longrightarrow> split2 c (s @ c # r) = (s, Some r)" "c \<notin> set s \<Longrightarrow> split2 c s = (s, None)"
  by (auto simp: split2_def takeWhile_append dropWhile_append takeWhile_eq_all_conv)

lemma field_word: "word s \<Longrightarrow> field (s @ 32 # r) = Ok (s, r)"
  by (simp add: field_def trim_start_word split2_word(1) word_def ok_or_def)

lemma hexd_ge: assumes "n < 16" shows "0x30 \<le> hexd n" "hexd n < 128"
proof -
  have "n \<in> set [0..<16]" using assms by simp
  then show "0x30 \<le> hexd n" "hexd n < 128" by (simp_all add: upt_rec) (elim disjE; simp add: hexd_def)+
qed

lemma fmt_hex_all_digits: "c \<in> set (fmt_hex n) \<Longrightarrow> 0x30 \<le> c \<and> c < 128"
proof (induction n rule: fmt_hex.induct)
  case (1 n)
  then show ?case using hexd_ge [of n] hexd_ge [of "n mod 16"] by (subst (asm) (2) fmt_hex.simps) (auto split: if_splits)
qed

fun fmt_dec :: "nat \<Rightarrow> bytes" where
  "fmt_dec n = (if n < 10 then [word_of_nat (0x30 + n)] else fmt_dec (n div 10) @ [word_of_nat (0x30 + n mod 10)])"

declare fmt_dec.simps [simp del]

lemma fmt_dec_digit: assumes "n < 10"
  shows "0x30 \<le> (word_of_nat (0x30 + n) :: u8)" "(word_of_nat (0x30 + n) :: u8) \<le> 0x39"
    "unat ((word_of_nat (0x30 + n) :: u8) - 0x30) = n"
proof -
  have "n \<in> set [0..<10]" using assms by simp
  then show "0x30 \<le> (word_of_nat (0x30 + n) :: u8)" "(word_of_nat (0x30 + n) :: u8) \<le> 0x39"
    "unat ((word_of_nat (0x30 + n) :: u8) - 0x30) = n" by (simp_all add: upt_rec) (elim disjE; simp)+
qed

lemma digits10_append: "digits10 acc (xs @ ys) = Option.bind (digits10 acc xs) (\<lambda>a. digits10 a ys)"
  by (induction acc xs rule: digits10.induct) auto

lemma digits10_fmt_dec: "n < 2 ^ 64 \<Longrightarrow> digits10 0 (fmt_dec n) = Some n"
proof (induction n rule: fmt_dec.induct)
  case (1 n)
  show ?case
  proof (cases "n < 10")
    case True
    with "1.prems" fmt_dec_digit [OF True] show ?thesis by (subst fmt_dec.simps) simp
  next
    case False
    have "n div 10 < 2 ^ 64" using "1.prems" by (meson div_le_dividend le_less_trans)
    with "1.IH" False have "digits10 0 (fmt_dec (n div 10)) = Some (n div 10)" by simp
    moreover have "n div 10 * 10 + n mod 10 = n" by simp
    ultimately show ?thesis
      using False "1.prems" fmt_dec_digit [of "n mod 10"] by (subst fmt_dec.simps) (simp add: digits10_append)
  qed
qed

lemma fmt_dec_all_digits: "c \<in> set (fmt_dec n) \<Longrightarrow> 0x30 \<le> c \<and> c \<le> 0x39"
proof (induction n rule: fmt_dec.induct)
  case (1 n)
  show ?case
  proof (cases "n < 10")
    case True
    with "1.prems" fmt_dec_digit [OF True] show ?thesis by (subst (asm) fmt_dec.simps) simp
  next
    case False
    with "1.prems" have "c \<in> set (fmt_dec (n div 10)) \<or> c = word_of_nat (0x30 + n mod 10)"
      by (subst (asm) fmt_dec.simps) auto
    with "1.IH" False fmt_dec_digit [of "n mod 10"] show ?thesis by auto
  qed
qed

lemma not_small: "0x30 \<le> (c :: u8) \<Longrightarrow> c \<noteq> 32 \<and> c \<noteq> 0x2D \<and> c \<noteq> 0x2B \<and> 33 \<le> c"
proof -
  assume c: "0x30 \<le> c"
  have "(33 :: u8) \<le> 0x30" by simp
  then have "33 \<le> c" using c by (rule order_trans)
  with c show "c \<noteq> 32 \<and> c \<noteq> 0x2D \<and> c \<noteq> 0x2B \<and> 33 \<le> c" by auto
qed

lemma word_digits: "s \<noteq> [] \<Longrightarrow> (\<And>c. c \<in> set s \<Longrightarrow> 0x30 \<le> c \<and> c < 128) \<Longrightarrow> word s"
  using not_small unfolding word_def by (metis hd_in_set)

lemma word_fmt_hex: "word (fmt_hex n)"
  using fmt_hex_all_digits by (intro word_digits) auto

lemma fmt_dec_not_Nil: "fmt_dec n \<noteq> []"
  by (subst fmt_dec.simps) simp

lemma word_fmt_dec: "word (fmt_dec n)"
proof (rule word_digits [OF fmt_dec_not_Nil])
  fix c assume "c \<in> set (fmt_dec n)"
  then have c: "0x30 \<le> c" "c \<le> 0x39" using fmt_dec_all_digits by auto
  have "(0x39 :: u8) < 128" by simp
  with c show "0x30 \<le> c \<and> c < 128" by (meson order_le_less_trans)
qed

lemma from_str_radix10_fmt_dec: "n < 2 ^ 64 \<Longrightarrow> from_str_radix10 (fmt_dec n) = Some n"
  using digits10_fmt_dec [of n] fmt_dec_not_Nil [of n] fmt_dec_all_digits [of "hd (fmt_dec n)" n] not_small [of "hd (fmt_dec n)"]
  by (cases "fmt_dec n") (auto simp: from_str_radix10_def)

lemma parse_range_fmt:
  assumes "start < 2 ^ 64" "e < 2 ^ 64" shows "parse_range (fmt_hex start @ 0x2D # fmt_hex e) = Ok (start, e)"
proof -
  have "0x2D \<notin> set (fmt_hex start)" using fmt_hex_all_digits not_small by blast
  then show ?thesis using assms by (simp add: parse_range_def split2_word(1) ok_or_def from_str_radix16_fmt_hex)
qed

text \<open>A line as the kernel writes it: the path, when there is one, comes after some spaces.\<close>

definition map_line :: "nat \<Rightarrow> nat \<Rightarrow> bytes \<Rightarrow> nat \<Rightarrow> bytes \<Rightarrow> nat \<Rightarrow> nat \<Rightarrow> bytes \<Rightarrow> bytes" where
  "map_line start e perms off dev inode n path =
     (fmt_hex start @ 0x2D # fmt_hex e) @ 32 # perms @ 32 # fmt_hex off @ 32 # dev @ 32 # fmt_dec inode
       @ replicate n 32 @ path"

text \<open>
  A line of the list of maps, as the kernel writes it, is read back: the range, the
  permissions, the offset, the inode and the path, which may hold spaces, also at its end. A line
  without a path gives a map without one.
\<close>

lemma map_line_read_back:
  assumes "start \<le> e" "e < 2 ^ 64" "off < 2 ^ 64" "inode < 2 ^ 64" "word perms" "word dev"
    and path: "path = [] \<or> 0 < n \<and> 33 \<le> hd path \<and> hd path < 128"
  shows "parse_map_line (map_line start e perms off dev inode n path) =
    Ok \<lparr>m_start = start, m_len = e - start, m_perms = parse_perms perms, m_offset = off, m_inode = inode,
      m_path = (if path = [] then None else Some path), m_locator = None, m_binary_id = None, m_elf_seen = False\<rparr>"
proof -
  let ?range = "fmt_hex start @ 0x2D # fmt_hex e"
  have range: "word ?range"
    using word_fmt_hex [of start] word_fmt_hex [of e] by (auto simp: word_def)
  have p: "trim_start path = path"
    using path ws_len_ascii [of "hd path" "tl path"] by (subst trim_start.simps) (cases path, auto)
  have split: "split2 32 (fmt_dec inode @ replicate n 32 @ path) =
      (fmt_dec inode, if n = 0 then None else Some (replicate (n - 1) 32 @ path))"
    using word_fmt_dec [of inode] split2_word [of 32 "fmt_dec inode"] path by (cases n) (auto simp: word_def)
  have "parse_map_line (map_line start e perms off dev inode n path) =
     (case split2 32 (trim_start (fmt_dec inode @ replicate n 32 @ path)) of (i, rest) \<Rightarrow>
        rbind (ok_or Format (from_str_radix10 i)) (\<lambda>inode.
          if e < start then Panic
          else Ok \<lparr>m_start = start, m_len = e - start, m_perms = parse_perms perms, m_offset = off, m_inode = inode,
            m_path = (case rest of None \<Rightarrow> None | Some p \<Rightarrow> if trim_start p = [] then None else Some (trim_start p)),
            m_locator = None, m_binary_id = None, m_elf_seen = False\<rparr>))"
    unfolding parse_map_line_def map_line_def field_word [OF range]
    using assms by (simp add: parse_range_fmt field_word word_fmt_hex ok_or_def from_str_radix16_fmt_hex)
  moreover have "trim_start (replicate k 32 @ path) = path" for k by (simp only: trim_start_spaces p)
  then have "(case if n = 0 then None else Some (replicate (n - 1) 32 @ path) of None \<Rightarrow> None
      | Some p \<Rightarrow> if trim_start p = [] then None else Some (trim_start p)) = (if path = [] then None else Some path)"
    using path by (cases n) (auto simp del: append_Nil2)
  ultimately show ?thesis
    using assms by (simp add: trim_start_word [OF word_fmt_dec] split ok_or_def from_str_radix10_fmt_dec)
qed

lemma map_line_read_back_example:
  "parse_map_line (map_line 4096 8192 (bytes_of ''r-xp'') 0 (bytes_of ''08:01'') 42 3 (bytes_of ''/bin/a b '')) =
    Ok \<lparr>m_start = 4096, m_len = 4096, m_perms = 21, m_offset = 0, m_inode = 42,
      m_path = Some (bytes_of ''/bin/a b ''), m_locator = None, m_binary_id = None, m_elf_seen = False\<rparr>"
proof -
  have "word (bytes_of ''r-xp'')" "word (bytes_of ''08:01'')" by (simp_all add: word_def)
  moreover have "parse_perms (bytes_of ''r-xp'') = 21"
    by (simp add: parse_perms_def perm_of_def READ_def WRITE_def EXECUTE_def PRIVATE_def SHARED_def)
  ultimately show ?thesis
    using map_line_read_back [of 4096 8192 0 42 "bytes_of ''r-xp''" "bytes_of ''08:01''" "bytes_of ''/bin/a b ''" 3] by simp
qed

end
