(* ===== verification/CoreWriter.thy ===== *)
theory CoreWriter
  imports ElfOpen ProcMaps
begin

unbundle bit_operations_syntax

text \<open>
  Writing a core dump of a process (\<open>src/core_dumper.rs\<close>): the notes, the layout of the file, its
  headers, and copying the memory through a buffer to standard output. What the system gives is a
  parameter: the registers and other contents of the notes, the reader of the process's memory, and
  the result of each \<open>write\<close>. The counters of the progress bar are left out.
\<close>

section \<open>Notes\<close>

text \<open>The name is padded with one to four zeros, the contents with none to three.\<close>

definition add_note :: "bytes \<Rightarrow> bytes \<Rightarrow> u32 \<Rightarrow> bytes \<Rightarrow> bytes" where
  "add_note name desc ty buf = buf @ to_le_bytes 4 (word_of_nat (length name + 1) :: u32) @ to_le_bytes 4 (word_of_nat (length desc) :: u32)
     @ to_le_bytes 4 ty @ name @ replicate (4 - length name mod 4) 0 @ desc @ replicate ((4 - length desc mod 4) mod 4) 0"

definition file_backed :: "MemMapInfo \<Rightarrow> bool" where
  "file_backed m = (case m_path m of Some p \<Rightarrow> \<not> starts_with p [0x5B] | None \<Rightarrow> False)"

text \<open>The contents of the note that lists the mapped files.\<close>

definition files_buf :: "nat \<Rightarrow> MemMapInfo list \<Rightarrow> bytes eres" where
  "files_buf pg maps = (let fs = filter file_backed maps in
     if list_ex (\<lambda>m. m_start m < m_offset m mod pg \<or> m_start m + m_len m \<ge> 2 ^ 64) fs then Panic
     else Ok (ByteIO.write_usize (length fs) @ ByteIO.write_usize pg
     @ concat (map (\<lambda>m. ByteIO.write_usize (m_start m - m_offset m mod pg) @ ByteIO.write_usize (m_start m + m_len m) @ ByteIO.write_usize (m_offset m div pg)) fs)
     @ concat (map (\<lambda>m. takeWhile (\<lambda>c. c \<noteq> 0) (the (m_path m)) @ [0]) fs)))"

text \<open>What the system calls give for the notes.\<close>

record note_source =
  ns_prstatus :: "nat \<Rightarrow> bytes eres"
  ns_prpsinfo :: bytes
  ns_siginfo :: "bytes eres"
  ns_auxv :: "bytes eres"
  ns_regset :: "nat \<Rightarrow> u32 \<Rightarrow> bytes eres"

abbreviation "CORE \<equiv> [0x43, 0x4F, 0x52, 0x45] :: bytes"

definition add_prstatus_note :: "note_source \<Rightarrow> nat \<Rightarrow> bytes \<Rightarrow> bytes eres" where
  "add_prstatus_note src tid buf = rbind (ns_prstatus src tid) (\<lambda>d. Ok (add_note CORE d 1 buf))"

definition add_regset_note :: "note_source \<Rightarrow> nat \<Rightarrow> u32 \<Rightarrow> bytes \<Rightarrow> bytes eres" where
  "add_regset_note src tid regset buf = rbind (ns_regset src tid regset) (\<lambda>d.
     if length d = 65536 then Err Sanity else Ok (add_note CORE d regset buf))"

fun add_thread_notes :: "note_source \<Rightarrow> nat list \<Rightarrow> bytes \<Rightarrow> bytes eres" where
  "add_thread_notes src [] buf = Ok buf"
| "add_thread_notes src (tid # tids) buf = rbind (add_prstatus_note src tid buf) (\<lambda>buf.
     rbind (add_regset_note src tid 2 buf) (\<lambda>buf. rbind (add_regset_note src tid 0x202 buf) (add_thread_notes src tids)))"

definition prepare_notes :: "note_source \<Rightarrow> nat \<Rightarrow> nat \<Rightarrow> nat list \<Rightarrow> MemMapInfo list \<Rightarrow> bytes eres" where
  "prepare_notes src pg pid attached maps =
     rbind (add_prstatus_note src pid []) (\<lambda>buf.
     rbind (ns_siginfo src) (\<lambda>si. rbind (ns_auxv src) (\<lambda>av. rbind (files_buf pg maps) (\<lambda>files.
       let buf = add_note CORE files 0x46494c45 (add_note CORE av 6
                   (add_note CORE si 0x53494749 (add_note CORE (ns_prpsinfo src) 3 buf)))
       in rbind (add_regset_note src pid 2 buf) (\<lambda>buf. rbind (add_regset_note src pid 0x202 buf)
            (add_thread_notes src (sort (filter (\<lambda>t. t \<noteq> pid) attached))))))))"

section \<open>Layout\<close>

record RangeToDump =
  rd_start :: nat
  rd_len :: nat
  rd_file_offset :: nat
  rd_file_size :: nat
  rd_perms :: MemMapPermissions

definition checked :: "nat \<Rightarrow> nat eres" where
  "checked n = (if n < 2 ^ 64 then Ok n else Panic)"

text \<open>The page size is a power of two, so masking with its complement rounds down.\<close>

definition align_down :: "nat \<Rightarrow> nat \<Rightarrow> nat" where
  "align_down pg x = x div pg * pg"

definition unreadable :: "MemMapInfo \<Rightarrow> bool" where
  "unreadable m \<longleftrightarrow> \<not> has_perm (m_perms m) READ
     \<or> m_path m \<in> {Some (bytes_of ''[vvar]''), Some (bytes_of ''[vvar_vclock]''), Some (bytes_of ''[vsyscall]'')}"

definition skip_map :: "MemMapInfo \<Rightarrow> bool" where
  "skip_map m \<longleftrightarrow> file_backed m \<and> m_len m > 20 * 2 ^ 20 \<or> unreadable m"

fun layout_ranges :: "nat \<Rightarrow> nat \<Rightarrow> MemMapInfo list \<Rightarrow> RangeToDump list eres" where
  "layout_ranges pg off [] = Ok []"
| "layout_ranges pg off (m # ms) = (let st = align_down pg (m_start m) in
     rbind (checked (m_start m + m_len m)) (\<lambda>e. rbind (checked (e - st + pg)) (\<lambda>x.
       let len = align_down pg (x - 1); fsz = (if skip_map m then 0 else len) in
       rbind (checked (off + fsz)) (\<lambda>off'. rbind (layout_ranges pg off' ms) (\<lambda>rs.
         Ok (\<lparr>rd_start = st, rd_len = len, rd_file_offset = off, rd_file_size = fsz, rd_perms = m_perms m\<rparr> # rs))))))"

definition core_ehdr :: "nat \<Rightarrow> Elf64_Ehdr" where
  "core_ehdr n = \<lparr>e_ident = [0x7f, 0x45, 0x4c, 0x46, 2, 1, 1, 0, 0, 0, 0, 0, 0, 0, 0, 0], e_type = 4, e_machine = 62, e_version = 1,
     e_entry = 0, e_phoff = 64, e_shoff = 0, e_flags = 0, e_ehsize = 64, e_phentsize = 56, e_phnum = word_of_nat (n + 1),
     e_shentsize = 0, e_shnum = 0, e_shstrndx = 0\<rparr>"

definition notes_phdr :: "nat \<Rightarrow> bytes \<Rightarrow> Elf64_Phdr" where
  "notes_phdr off notes = \<lparr>p_type = 4, p_flags = 0, p_offset = word_of_nat off, p_vaddr = 0, p_paddr = 0,
     p_filesz = word_of_nat (length notes), p_memsz = 0, p_align = 4\<rparr>"

definition range_flags :: "MemMapPermissions \<Rightarrow> u32" where
  "range_flags p = (if has_perm p READ then 4 else 0) OR (if has_perm p WRITE then 2 else 0) OR (if has_perm p EXECUTE then 1 else 0)"

definition range_phdr :: "nat \<Rightarrow> RangeToDump \<Rightarrow> Elf64_Phdr" where
  "range_phdr pg r = \<lparr>p_type = 1, p_flags = range_flags (rd_perms r), p_offset = word_of_nat (rd_file_offset r),
     p_vaddr = word_of_nat (rd_start r), p_paddr = 0, p_filesz = word_of_nat (rd_file_size r), p_memsz = word_of_nat (rd_len r),
     p_align = word_of_nat pg\<rparr>"

text \<open>The bytes before the dumped memory, and where each range goes.\<close>

definition write_headers :: "nat \<Rightarrow> bytes \<Rightarrow> MemMapInfo list \<Rightarrow> (bytes \<times> RangeToDump list) eres" where
  "write_headers pg notes maps =
     (if pg = 0 \<or> pg AND (pg - 1) \<noteq> 0 then Panic
      else (let notes_offset = 64 + (length maps + 1) * 56 in
        if notes_offset mod 4 \<noteq> 0 then Panic
        else rbind (checked (notes_offset + length notes + pg)) (\<lambda>x.
          let mem_dump_offset = align_down pg (x - 1) in
          rbind (layout_ranges pg mem_dump_offset maps) (\<lambda>rs.
            let buf = put_ehdr (core_ehdr (length rs)) @ put_phdr (notes_phdr notes_offset notes) @ concat (map (\<lambda>r. put_phdr (range_phdr pg r)) rs)
            in if length buf > notes_offset then Panic
               else (let buf = buf @ replicate (notes_offset - length buf) 0 @ notes in
                 if length buf > mem_dump_offset then Panic
                 else Ok (buf @ replicate (mem_dump_offset - length buf) 0, rs))))))"

section \<open>Writing\<close>

text \<open>
  The result of a call of \<open>write\<close>: how many bytes the system takes at most, an interrupted call, or
  another error. The list holds the results of the calls to come; with none left, the writer waits
  (\<open>None\<close>).
\<close>

datatype write_result = Wrote nat | Interrupted | WriteFailed

record Out =
  writes :: "write_result list"
  stdout :: bytes

type_synonym 'a out = "Out \<Rightarrow> ('a eres \<times> Out) option"

definition obind :: "'a out \<Rightarrow> ('a \<Rightarrow> 'b out) \<Rightarrow> 'b out" where
  "obind f k d = (case f d of
      None \<Rightarrow> None
    | Some (Ok a, d') \<Rightarrow> k a d'
    | Some (Err e, d') \<Rightarrow> Some (Err e, d')
    | Some (Panic, d') \<Rightarrow> Some (Panic, d'))"

definition olift :: "'a eres \<Rightarrow> 'a out" where
  "olift r d = Some (r, d)"

fun flush_loop :: "write_result list \<Rightarrow> bytes \<Rightarrow> bytes \<Rightarrow> (unit eres \<times> Out) option" where
  "flush_loop ws [] out = Some (Ok (), \<lparr>writes = ws, stdout = out\<rparr>)"
| "flush_loop [] (b # bs) out = None"
| "flush_loop (Wrote n # ws) (b # bs) out = (let n = min n (min (length (b # bs)) (2 ^ 27)) in
     flush_loop ws (drop n (b # bs)) (out @ take n (b # bs)))"
| "flush_loop (Interrupted # ws) (b # bs) out = flush_loop ws (b # bs) out"
| "flush_loop (WriteFailed # ws) (b # bs) out = Some (Err IO, \<lparr>writes = ws, stdout = out\<rparr>)"

definition flush_buf :: "bytes \<Rightarrow> unit out" where
  "flush_buf buf d = flush_loop (writes d) buf (stdout d)"

text \<open>
  One range, from position \<open>pos\<close> on, through a buffer of capacity \<open>cap\<close>. What cannot be read is
  written as zeros.
\<close>

function dump_range :: "nat \<Rightarrow> reader \<Rightarrow> RangeToDump \<Rightarrow> nat \<Rightarrow> bytes \<Rightarrow> bytes out" where
  "dump_range cap rd r pos buf d =
     (if pos < rd_file_size r then
        (if cap \<le> length buf then
           (if buf = [] then Some (Panic, d)
            else (case flush_buf buf d of
                None \<Rightarrow> None
              | Some (Ok _, d') \<Rightarrow> dump_range cap rd r pos [] d'
              | Some (Err e, d') \<Rightarrow> Some (Err e, d')
              | Some (Panic, d') \<Rightarrow> Some (Panic, d')))
         else (let n = min (min (cap - length buf) (rd_file_size r - pos)) (2 ^ 27);
                   chunk = (case rd (rd_start r + pos) n of Ok bs \<Rightarrow> bs | _ \<Rightarrow> replicate n 0)
               in dump_range cap rd r (pos + n) (buf @ chunk) d))
      else Some (Ok buf, d))"
  by pat_completeness auto
termination
  by (relation "inv_image (less_than <*lex*> less_than) (\<lambda>(cap, rd, r, pos, buf, d). (rd_file_size r - pos, length buf))") auto

declare dump_range.simps [simp del]

fun dump_ranges :: "nat \<Rightarrow> reader \<Rightarrow> RangeToDump list \<Rightarrow> bytes \<Rightarrow> bytes out" where
  "dump_ranges cap rd [] buf d = Some (Ok buf, d)"
| "dump_ranges cap rd (r # rs) buf d =
     (if rd_file_size r = 0 then dump_ranges cap rd rs buf d
      else if rd_file_size r > rd_len r then Some (Panic, d)
      else obind (dump_range cap rd r 0 buf) (dump_ranges cap rd rs) d)"

definition dump_memory_ranges :: "nat \<Rightarrow> nat \<Rightarrow> reader \<Rightarrow> RangeToDump list \<Rightarrow> bytes out" where
  "dump_memory_ranges cap bytes_total rd rs d =
     (if cap = 0 \<and> bytes_total \<noteq> 0 then Some (Panic, d) else dump_ranges cap rd rs [] d)"

text \<open>The order of things in \<open>try_dump\<close>, once the threads are stopped.\<close>

definition write_dump :: "nat \<Rightarrow> nat \<Rightarrow> reader \<Rightarrow> bytes \<Rightarrow> MemMapInfo list \<Rightarrow> unit out" where
  "write_dump pg buffer_size rd notes maps = obind (olift (write_headers pg notes maps)) (\<lambda>(hdr, rs).
     obind (flush_buf hdr) (\<lambda>_.
       let bytes_total = sum_list (map rd_file_size rs) in
       obind (dump_memory_ranges (min buffer_size bytes_total) bytes_total rd rs) flush_buf))"

section \<open>Everything is written, in order\<close>

definition progress :: "write_result list \<Rightarrow> nat" where
  "progress ws = length (filter (\<lambda>w. case w of Wrote n \<Rightarrow> 0 < n | _ \<Rightarrow> False) ws)"

lemma progress_simps [simp]: "progress [] = 0" "progress (Interrupted # ws) = progress ws" "progress (WriteFailed # ws) = progress ws"
  "progress (Wrote n # ws) = (if 0 < n then Suc (progress ws) else progress ws)"
  by (simp_all add: progress_def)

text \<open>The writes to come do not fail and at least \<open>k\<close> of them take something.\<close>

definition can_write :: "Out \<Rightarrow> nat \<Rightarrow> bool" where
  "can_write d k \<longleftrightarrow> WriteFailed \<notin> set (writes d) \<and> k \<le> progress (writes d)"

lemma flush_loop_all:
  assumes "WriteFailed \<notin> set ws" "length buf + k \<le> progress ws"
  shows "\<exists>ws'. flush_loop ws buf out = Some (Ok (), \<lparr>writes = ws', stdout = out @ buf\<rparr>) \<and> WriteFailed \<notin> set ws' \<and> k \<le> progress ws'"
  using assms
proof (induction ws buf out rule: flush_loop.induct)
  case (3 n ws b bs out)
  let ?n = "min n (min (length (b # bs)) (2 ^ 27))"
  have "length (drop ?n (b # bs)) + k \<le> progress ws" using "3.prems"(2) by (cases "n = 0") (auto simp: min_def)
  from "3.IH" [OF refl _ this] "3.prems"(1) show ?case by (auto simp: Let_def)
qed auto

lemma flush_all:
  assumes "can_write d (length buf + k)"
  obtains d' where "flush_buf buf d = Some (Ok (), d')" "stdout d' = stdout d @ buf" "can_write d' k"
  using flush_loop_all [of "writes d" buf k "stdout d"] assms by (auto simp: flush_buf_def can_write_def)

text \<open>The memory of the process, as the reader gives it on a range.\<close>

definition readable :: "reader \<Rightarrow> (nat \<Rightarrow> u8) \<Rightarrow> nat \<Rightarrow> nat \<Rightarrow> bool" where
  "readable rd mem st len \<longleftrightarrow> (\<forall>a n. st \<le> a \<and> 0 < n \<and> a + n \<le> st + len \<longrightarrow> rd a n = Ok (map mem [a..<a + n]))"

lemma dump_range_all:
  assumes "readable rd mem (rd_start r) (rd_file_size r)" "0 < cap" "length buf \<le> cap" "pos \<le> rd_file_size r"
    "can_write d (length buf + (rd_file_size r - pos) + k)"
  shows "\<exists>buf' d'. dump_range cap rd r pos buf d = Some (Ok buf', d')
    \<and> stdout d' @ buf' = stdout d @ buf @ map mem [rd_start r + pos..<rd_start r + rd_file_size r] \<and> length buf' \<le> cap \<and> can_write d' (length buf' + k)"
  using assms
proof (induction cap rd r pos buf d rule: dump_range.induct)
  case (1 cap rd r pos buf d)
  show ?case
  proof (cases "pos < rd_file_size r")
    case False
    then show ?thesis using "1.prems" by (subst dump_range.simps) auto
  next
    case pos: True
    show ?thesis
    proof (cases "cap \<le> length buf")
      case full: True
      then have ne: "buf \<noteq> []" using "1.prems"(2) by auto
      have "can_write d (length buf + (length ([] :: bytes) + (rd_file_size r - pos) + k))" using "1.prems"(5) by (simp add: add.assoc)
      then obtain d1 where d1: "flush_buf buf d = Some (Ok (), d1)" "stdout d1 = stdout d @ buf" "can_write d1 (length ([] :: bytes) + (rd_file_size r - pos) + k)"
        by (rule flush_all)
      from "1.IH"(1) [OF pos full ne d1(1) refl refl "1.prems"(1,2) _ "1.prems"(4) d1(3)] d1(1,2) pos full ne show ?thesis
        by (subst dump_range.simps) auto
    next
      case room: False
      define n where "n = min (min (cap - length buf) (rd_file_size r - pos)) (2 ^ 27)"
      have n: "0 < n" "pos + n \<le> rd_file_size r" "length buf + n \<le> cap" using pos room by (auto simp: n_def)
      let ?a = "rd_start r + pos"
      have rd: "rd ?a n = Ok (map mem [?a..<?a + n])" using "1.prems"(1) n by (auto simp: readable_def)
      have "can_write d (length (buf @ map mem [?a..<?a + n]) + (rd_file_size r - (pos + n)) + k)"
        using "1.prems"(5) n(2) by (simp add: add.assoc)
      with "1.IH"(2) [OF pos room n_def refl, unfolded rd result.case] "1.prems" n
      obtain buf' d' where *: "dump_range cap rd r (pos + n) (buf @ map mem [?a..<?a + n]) d = Some (Ok buf', d')"
        "stdout d' @ buf' = stdout d @ (buf @ map mem [?a..<?a + n]) @ map mem [rd_start r + (pos + n)..<rd_start r + rd_file_size r]"
        "length buf' \<le> cap" "can_write d' (length buf' + k)" by auto
      have "[?a..<?a + n] @ [?a + n..<rd_start r + rd_file_size r] = [?a..<rd_start r + rd_file_size r]"
        using upt_add_eq_append [of ?a "?a + n" "rd_start r + rd_file_size r - (?a + n)"] n(2) by simp
      then have "stdout d' @ buf' = stdout d @ buf @ map mem [?a..<rd_start r + rd_file_size r]"
        using *(2) by (simp add: add.assoc flip: map_append)
      moreover have "dump_range cap rd r pos buf d = Some (Ok buf', d')"
        using *(1) pos room rd by (subst dump_range.simps, unfold Let_def, fold n_def) simp
      ultimately show ?thesis using *(3,4) by blast
    qed
  qed
qed

text \<open>What the ranges contribute to the file.\<close>

definition contents :: "(nat \<Rightarrow> u8) \<Rightarrow> RangeToDump list \<Rightarrow> bytes" where
  "contents mem rs = concat (map (\<lambda>r. map mem [rd_start r..<rd_start r + rd_file_size r]) rs)"

lemma contents_simps [simp]: "contents mem [] = []" "contents mem (r # rs) = map mem [rd_start r..<rd_start r + rd_file_size r] @ contents mem rs"
  by (simp_all add: contents_def)

lemma length_contents: "length (contents mem rs) = sum_list (map rd_file_size rs)"
  by (induction rs) auto

lemma dump_ranges_all:
  assumes "\<forall>r\<in>set rs. readable rd mem (rd_start r) (rd_file_size r) \<and> rd_file_size r \<le> rd_len r"
    "0 < cap \<or> length (contents mem rs) = 0" "length buf \<le> cap" "can_write d (length buf + length (contents mem rs) + k)"
  shows "\<exists>buf' d'. dump_ranges cap rd rs buf d = Some (Ok buf', d') \<and> stdout d' @ buf' = stdout d @ buf @ contents mem rs \<and> can_write d' (length buf' + k)"
  using assms
proof (induction rs arbitrary: buf d)
  case (Cons r rs)
  show ?case
  proof (cases "rd_file_size r = 0")
    case True
    then show ?thesis using Cons by simp
  next
    case False
    have "can_write d (length buf + (rd_file_size r - 0) + (length (contents mem rs) + k))"
      using Cons.prems(4) by (simp add: add.assoc)
    then obtain buf1 d1 where 1: "dump_range cap rd r 0 buf d = Some (Ok buf1, d1)"
      "stdout d1 @ buf1 = stdout d @ buf @ map mem [rd_start r..<rd_start r + rd_file_size r]" "length buf1 \<le> cap"
      "can_write d1 (length buf1 + (length (contents mem rs) + k))"
      using dump_range_all [of rd mem r cap buf 0 d "length (contents mem rs) + k"] Cons.prems False by auto
    have "\<exists>buf' d'. dump_ranges cap rd rs buf1 d1 = Some (Ok buf', d') \<and> stdout d' @ buf' = stdout d1 @ buf1 @ contents mem rs \<and> can_write d' (length buf' + k)"
      by (rule Cons.IH) (use Cons.prems False 1 in \<open>auto simp: add.assoc\<close>)
    then show ?thesis using 1 Cons.prems(1) False by (auto simp: obind_def)
  qed
qed auto

lemma write_dump_all:
  assumes "write_headers pg notes maps = Ok (hdr, rs)" "\<forall>r\<in>set rs. readable rd mem (rd_start r) (rd_file_size r) \<and> rd_file_size r \<le> rd_len r"
    "0 < buffer_size" "can_write d (length hdr + length (contents mem rs))"
  shows "\<exists>d'. write_dump pg buffer_size rd notes maps d = Some (Ok (), d') \<and> stdout d' = stdout d @ hdr @ contents mem rs"
proof -
  let ?total = "sum_list (map rd_file_size rs)"
  obtain d1 where d1: "flush_buf hdr d = Some (Ok (), d1)" "stdout d1 = stdout d @ hdr" "can_write d1 (length (contents mem rs))"
    by (rule flush_all [OF assms(4)])
  have room: "0 < min buffer_size ?total \<or> length (contents mem rs) = 0" using assms(3) unfolding length_contents by (metis gr_zeroI min_less_iff_conj)
  have "\<exists>buf' d'. dump_ranges (min buffer_size ?total) rd rs [] d1 = Some (Ok buf', d') \<and> stdout d' @ buf' = stdout d1 @ [] @ contents mem rs \<and> can_write d' (length buf' + 0)"
    by (rule dump_ranges_all [OF assms(2) room]) (use d1(3) in simp_all)
  then obtain buf d2 where d2: "dump_ranges (min buffer_size ?total) rd rs [] d1 = Some (Ok buf, d2)" "stdout d2 @ buf = stdout d1 @ contents mem rs"
    "can_write d2 (length buf + 0)" by auto
  obtain d3 where d3: "flush_buf buf d2 = Some (Ok (), d3)" "stdout d3 = stdout d2 @ buf" by (rule flush_all [OF d2(3)])
  have "\<not> (min buffer_size ?total = 0 \<and> ?total \<noteq> 0)" by (metis assms(3) min_def not_gr_zero)
  then have "dump_memory_ranges (min buffer_size ?total) ?total rd rs d1 = Some (Ok buf, d2)"
    unfolding dump_memory_ranges_def d2(1) by (simp only: if_False)
  then have "write_dump pg buffer_size rd notes maps d = Some (Ok (), d3)"
    using assms(1) d1(1) d3(1) by (simp add: write_dump_def obind_def olift_def Let_def)
  then show ?thesis using d1(2) d2(2) d3(2) by simp
qed

section \<open>Where the ranges are in the file\<close>

text \<open>
  The memory maps as the kernel reports them: whole pages, sorted, without overlaps, not too many for
  the count in the header and not at the very end of the address space.
\<close>

definition maps_ok :: "nat \<Rightarrow> MemMapInfo list \<Rightarrow> bool" where
  "maps_ok pg maps \<longleftrightarrow> 0 < pg \<and> length maps + 1 < 2 ^ 16
     \<and> (\<forall>m\<in>set maps. pg dvd m_start m \<and> pg dvd m_len m \<and> 0 < m_len m \<and> m_start m + m_len m + pg < 2 ^ 64)
     \<and> sorted_wrt (\<lambda>a b. m_start a + m_len a \<le> m_start b) maps"

definition dumped_size :: "MemMapInfo \<Rightarrow> nat" where
  "dumped_size m = (if skip_map m then 0 else m_len m)"

definition range_of :: "nat \<Rightarrow> MemMapInfo \<Rightarrow> RangeToDump" where
  "range_of off m = \<lparr>rd_start = m_start m, rd_len = m_len m, rd_file_offset = off, rd_file_size = dumped_size m, rd_perms = m_perms m\<rparr>"

fun place :: "nat \<Rightarrow> MemMapInfo list \<Rightarrow> RangeToDump list" where
  "place off [] = []"
| "place off (m # ms) = range_of off m # place (off + dumped_size m) ms"

lemma align_down_dvd: "0 < pg \<Longrightarrow> pg dvd x \<Longrightarrow> align_down pg x = x" "0 < pg \<Longrightarrow> pg dvd x \<Longrightarrow> align_down pg (x + pg - 1) = x"
proof -
  assume pg: "0 < pg" "pg dvd x"
  then obtain k where k: "x = pg * k" by (auto elim: dvdE)
  show "align_down pg x = x" using pg by (simp add: align_down_def)
  have "(pg * k + (pg - 1)) div pg = k" using pg(1) by (subst div_mult_self4) simp_all
  then show "align_down pg (x + pg - 1) = x" using pg(1) by (simp add: align_down_def k mult.commute)
qed

lemma layout_place:
  assumes "\<forall>m\<in>set maps. pg dvd m_start m \<and> pg dvd m_len m \<and> m_start m + m_len m + pg < 2 ^ 64" "0 < pg"
    "off + sum_list (map dumped_size maps) < 2 ^ 64"
  shows "layout_ranges pg off maps = Ok (place off maps)"
  using assms
proof (induction maps arbitrary: off)
  case (Cons m ms)
  have d: "pg dvd m_start m" "pg dvd m_len m" and b: "m_start m + m_len m < 2 ^ 64" "m_len m + pg < 2 ^ 64" using Cons.prems(1) by auto
  have st: "align_down pg (m_start m) = m_start m" by (rule align_down_dvd(1) [OF Cons.prems(2) d(1)])
  have ln: "align_down pg (m_len m + pg - 1) = m_len m" by (rule align_down_dvd(2) [OF Cons.prems(2) d(2)])
  have o: "off + dumped_size m < 2 ^ 64" using Cons.prems(3) by simp
  have "layout_ranges pg (off + dumped_size m) ms = Ok (place (off + dumped_size m) ms)"
    by (rule Cons.IH) (use Cons.prems in \<open>simp_all add: add.assoc\<close>)
  then show ?case using b o unfolding layout_ranges.simps st Let_def
    by (simp add: checked_def ln [unfolded One_nat_def] dumped_size_def range_of_def split: if_splits)
qed simp

lemma place_simps: "map rd_start (place off maps) = map m_start maps" "map rd_len (place off maps) = map m_len maps"
  "map rd_file_size (place off maps) = map dumped_size maps" "length (place off maps) = length maps"
  by (induction maps arbitrary: off) (simp_all add: range_of_def)

lemma place_contents:
  assumes "r \<in> set (place off maps)" "length hdr = off"
  shows "off \<le> rd_file_offset r \<and> rd_file_offset r + rd_file_size r \<le> off + length (contents mem (place off maps))
    \<and> take (rd_file_size r) (drop (rd_file_offset r) (hdr @ contents mem (place off maps))) = map mem [rd_start r..<rd_start r + rd_file_size r]"
  using assms
proof (induction maps arbitrary: off hdr)
  case (Cons m ms)
  let ?b = "map mem [m_start m..<m_start m + dumped_size m]"
  show ?case
  proof (cases "r = range_of off m")
    case True
    then show ?thesis using Cons.prems(2) by (simp add: range_of_def)
  next
    case False
    then have "r \<in> set (place (off + dumped_size m) ms)" using Cons.prems(1) by simp
    from Cons.IH [OF this, of "hdr @ ?b"] Cons.prems(2) show ?thesis by (auto simp: range_of_def)
  qed
qed simp

section \<open>Opening the dump\<close>

lemma drop_concat:
  assumes "\<forall>x\<in>set xs. length x = k" "i < length xs"
  shows "drop (i * k) (concat xs @ rest) = xs ! i @ concat (drop (Suc i) xs) @ rest"
  using assms
proof (induction xs arbitrary: i)
  case (Cons x xs)
  then show ?case by (cases i) auto
qed simp

lemma unat_of_nat_small: "n < 2 ^ 64 \<Longrightarrow> unat (word_of_nat n :: u64) = n"
  by (simp add: unat_of_nat take_bit_nat_eq_self_iff)

lemma core_header_ok:
  assumes "n + 1 < 2 ^ 16" "64 + (n + 1) * 56 \<le> len" "len < 2 ^ 63"
  shows "check_header (core_ehdr n) len = Ok ()" "unat (e_phnum (core_ehdr n)) = n + 1"
proof -
  have n: "unat (word_of_nat (n + 1) :: u16) = n + 1" using assms(1) by (simp add: unat_of_nat take_bit_nat_eq_self_iff del: of_nat_add of_nat_Suc)
  then show "unat (e_phnum (core_ehdr n)) = n + 1" unfolding core_ehdr_def by simp
  from n show "check_header (core_ehdr n) len = Ok ()" using assms
    by (simp add: check_header_def core_ehdr_def sat_def)
qed

lemma open_core:
  assumes data: "data = put_ehdr (core_ehdr n) @ concat (map put_phdr ps) @ rest" "length ps = n + 1"
    and "n + 1 < 2 ^ 16" "length data < 2 ^ 63"
  shows "\<exists>e. open_elf inflate data = Ok e \<and> is_core_dump e \<and> segments e = map (open_segment (length data)) ps \<and> elf_data e = data"
proof -
  have id: "length (e_ident (core_ehdr n)) = 16" by (simp add: core_ehdr_def)
  have len: "64 + (n + 1) * 56 \<le> length data"
  proof -
    have "length (concat (map put_phdr ps)) = length ps * 56" by (induction ps) simp_all
    then show ?thesis using data by (simp add: id)
  qed
  have g: "get_ehdr data = core_ehdr n" unfolding data(1) by (rule ehdr_round_trip [OF id])
  note c = core_header_ok [OF assms(3) len assms(4)]
  have "get_phdr (drop (64 + i * 56) data) = ps ! i" if "i < n + 1" for i
  proof -
    have "drop (64 + i * 56) data = drop (i * 56) (concat (map put_phdr ps) @ rest)" unfolding data(1) by (simp add: id)
    also have "\<dots> = put_phdr (ps ! i) @ concat (drop (Suc i) (map put_phdr ps)) @ rest"
      using drop_concat [of "map put_phdr ps" 56 i rest] that data(2) by simp
    finally show ?thesis by (simp add: phdr_round_trip)
  qed
  then have "map (\<lambda>i. open_segment (length data) (get_phdr (drop (64 + i * 56) data))) [0..<n + 1] = map (\<lambda>i. open_segment (length data) (ps ! i)) [0..<n + 1]"
    by simp
  also have "\<dots> = map (open_segment (length data)) ps" using data(2) by (metis map_nth map_map comp_apply map_cong)
  finally have sg: "open_segments (core_ehdr n) data = Ok (map (open_segment (length data)) ps)"
    using open_segments_Ok [OF c(1)] assms(4) c(2) by (simp add: core_ehdr_def)
  have raw: "raw_sections (core_ehdr n) data = Ok []" by (simp add: raw_sections_def core_ehdr_def)
  show ?thesis using len
    by (simp add: open_elf_def memcpy_struct_def g c(1) sg raw find_r_debug_def find_interp_def section_by_name_def) (simp add: core_ehdr_def)
qed

text \<open>The one range of a core dump that a range of the writer becomes.\<close>

definition core_range :: "bytes \<Rightarrow> RangeToDump \<Rightarrow> CoreDumpMemoryRange" where
  "core_range data r = \<lparr>start_address = rd_start r, range_size = rd_len r,
     source = (if rd_file_size r > 0 then File data (rd_file_offset r) else Zero),
     permissions = segment_permissions (open_segment (length data) (range_phdr 1 r))\<rparr>"

lemma open_range:
  assumes "rd_file_offset r + rd_file_size r \<le> len" "len < 2 ^ 63" "rd_start r < 2 ^ 64" "rd_len r < 2 ^ 64"
  shows "open_segment len (range_phdr pg r) = \<lparr>segment_type = 1, seg_flags = range_flags (rd_perms r), seg_offset = rd_file_offset r,
     seg_address = rd_start r, size_in_file = rd_file_size r, size_in_memory = rd_len r\<rparr>"
proof -
  have "rd_file_offset r < 2 ^ 64" "rd_file_size r < 2 ^ 64" "\<not> sat (rd_file_offset r + rd_file_size r) > len" using assms(1,2) by (auto simp: sat_def)
  then show ?thesis using assms(3,4) unfolding open_segment_def range_phdr_def by (simp add: unat_of_nat_small)
qed

lemma segment_core_range:
  assumes "rd_file_offset r + rd_file_size r \<le> length data" "length data < 2 ^ 63" "rd_start r + rd_len r < 2 ^ 64"
    "0 < rd_len r" "rd_file_size r = 0 \<or> rd_file_size r = rd_len r"
  shows "segment_ranges data (open_segment (length data) (range_phdr pg r)) = Ok [core_range data r]"
proof -
  have b: "rd_start r < 2 ^ 64" "rd_len r < 2 ^ 64" using assms(3) by simp_all
  show ?thesis using assms(3-5) unfolding segment_ranges_def core_range_def open_range [OF assms(1,2) b]
    by (auto simp: segment_permissions_def)
qed

lemma segments_core_ranges:
  assumes "\<forall>r\<in>set rs. segment_ranges data (f r) = Ok [g r]"
  shows "segments_ranges data (map f rs) = Ok (map g rs)"
  using assms by (induction rs) auto

lemma sort_key_sorted: "sorted (map f xs) \<Longrightarrow> sort_key f xs = xs"
  by (induction xs) (auto simp: insort_key_left_comm insort_is_Cons)

lemma trim_disjoint: "sorted_wrt (\<lambda>a b. range_end a \<le> start_address b) rs \<Longrightarrow> trim_overlaps rs = rs"
  by (induction rs rule: trim_overlaps.induct) (auto simp: Let_def)

lemma core_mem_disjoint:
  assumes "core_ok rs" "r \<in> set rs" "start_address r \<le> a" "a < range_end r"
  shows "core_mem rs a = source_byte (source r) (a - start_address r)"
  using assms
proof (induction rs)
  case (Cons x rs)
  then show ?case by (cases "r = x") (fastforce simp: core_ok_Cons)+
qed simp

lemma align_up_ge: "0 < pg \<Longrightarrow> x \<le> align_down pg (x + pg - 1)" "0 < pg \<Longrightarrow> align_down pg (x + pg - 1) < x + pg"
proof -
  assume pg: "0 < pg"
  have "align_down pg (x + pg - 1) + (x + pg - 1) mod pg = x + pg - 1" by (simp add: align_down_def)
  moreover have "(x + pg - 1) mod pg < pg" using pg by simp
  ultimately show "x \<le> align_down pg (x + pg - 1)" "align_down pg (x + pg - 1) < x + pg" using pg by linarith+
qed

text \<open>Where the notes and the memory start.\<close>

definition notes_start :: "MemMapInfo list \<Rightarrow> nat" where
  "notes_start maps = 64 + (length maps + 1) * 56"

definition mem_start :: "nat \<Rightarrow> bytes \<Rightarrow> MemMapInfo list \<Rightarrow> nat" where
  "mem_start pg notes maps = align_down pg (notes_start maps + length notes + pg - 1)"

text \<open>The size of the dump fits a file.\<close>

definition fits :: "nat \<Rightarrow> bytes \<Rightarrow> MemMapInfo list \<Rightarrow> bool" where
  "fits pg notes maps \<longleftrightarrow> notes_start maps + length notes + pg + sum_list (map dumped_size maps) < 2 ^ 63"

lemma write_headers_Ok:
  assumes ok: "maps_ok pg maps" and pow: "pg AND (pg - 1) = 0" and fit: "fits pg notes maps"
  defines "rs \<equiv> place (mem_start pg notes maps) maps"
  defines "ps \<equiv> notes_phdr (notes_start maps) notes # map (range_phdr pg) rs"
  shows "\<exists>pad. write_headers pg notes maps = Ok (put_ehdr (core_ehdr (length maps)) @ concat (map put_phdr ps) @ notes @ pad, rs)
    \<and> length (put_ehdr (core_ehdr (length maps)) @ concat (map put_phdr ps)) = notes_start maps
    \<and> length (put_ehdr (core_ehdr (length maps)) @ concat (map put_phdr ps) @ notes @ pad) = mem_start pg notes maps"
proof -
  let ?off = "notes_start maps" and ?mem = "mem_start pg notes maps"
  have pg: "0 < pg" and m: "\<forall>m\<in>set maps. pg dvd m_start m \<and> pg dvd m_len m \<and> m_start m + m_len m + pg < 2 ^ 64"
    using ok by (auto simp: maps_ok_def)
  have mem: "?off + length notes \<le> ?mem" "?mem < ?off + length notes + pg"
    unfolding mem_start_def by (rule align_up_ge [OF pg])+
  have lay: "layout_ranges pg ?mem maps = Ok rs" unfolding rs_def
    by (rule layout_place [OF m pg]) (use mem fit in \<open>simp add: fits_def\<close>)
  have n: "length rs = length maps" by (simp add: rs_def place_simps)
  define h where "h = put_ehdr (core_ehdr (length maps)) @ concat (map put_phdr ps)"
  have "length (concat (map put_phdr ps)) = length ps * 56" by (induction ps) simp_all
  then have h: "length h = ?off" by (simp add: h_def core_ehdr_def ps_def n notes_start_def)
  have hs: "put_ehdr (core_ehdr (length rs)) @ put_phdr (notes_phdr ?off notes) @ concat (map (\<lambda>r. put_phdr (range_phdr pg r)) rs) = h"
    by (simp add: h_def ps_def n comp_def)
  have x: "checked (?off + length notes + pg) = Ok (?off + length notes + pg)" using fit by (simp add: checked_def fits_def)
  have "?off mod 4 = 0" "\<not> (pg = 0 \<or> pg AND (pg - 1) \<noteq> 0)" using pg pow unfolding notes_start_def by (simp, presburger)
  then have "write_headers pg notes maps = Ok (h @ notes @ replicate (?mem - (?off + length notes)) 0, rs)"
    unfolding write_headers_def Let_def notes_start_def [symmetric] x rbind.simps mem_start_def [symmetric] lay hs
    using mem(1) by (simp add: h)
  then show ?thesis using h mem(1) by (intro exI [of _ "replicate (?mem - (?off + length notes)) 0"]) (simp flip: h_def append_assoc)
qed

lemma place_elem_ex: "r \<in> set (place off maps) \<Longrightarrow> \<exists>m\<in>set maps. rd_start r = m_start m \<and> rd_len r = m_len m \<and> rd_file_size r = dumped_size m"
  by (induction maps arbitrary: off) (auto simp: range_of_def)

lemma place_elem:
  assumes "r \<in> set (place off maps)"
  obtains m where "m \<in> set maps" "rd_start r = m_start m" "rd_len r = m_len m" "rd_file_size r = dumped_size m"
  using place_elem_ex [OF assms] by blast

lemma place_of: "m \<in> set maps \<Longrightarrow> \<exists>r\<in>set (place off maps). rd_start r = m_start m \<and> rd_len r = m_len m \<and> rd_file_size r = dumped_size m"
  by (induction maps arbitrary: off) (auto simp: range_of_def)

lemma dumped_core_ranges:
  assumes ok: "maps_ok pg maps" and hdr: "length hdr = off" and len: "length (hdr @ contents mem (place off maps)) < 2 ^ 63"
    and nt: "segment_type ns = 4"
  defines "data \<equiv> hdr @ contents mem (place off maps)"
  defines "rs \<equiv> map (core_range data) (place off maps)"
  shows "core_ranges data (ns # map (\<lambda>r. open_segment (length data) (range_phdr pg r)) (place off maps)) = Ok rs" "core_ok rs"
proof -
  have seg: "segment_ranges data (open_segment (length data) (range_phdr pg r)) = Ok [core_range data r]" if r: "r \<in> set (place off maps)" for r
  proof (rule segment_core_range)
    obtain m where m: "m \<in> set maps" "rd_start r = m_start m" "rd_len r = m_len m" "rd_file_size r = dumped_size m" by (rule place_elem [OF r])
    then show "rd_start r + rd_len r < 2 ^ 64" "0 < rd_len r" "rd_file_size r = 0 \<or> rd_file_size r = rd_len r"
      using ok by (auto simp: maps_ok_def dumped_size_def)
    show "rd_file_offset r + rd_file_size r \<le> length data" using place_contents [OF r hdr, of mem] hdr by (simp add: data_def)
  qed (use len in \<open>simp add: data_def\<close>)
  have st: "map start_address rs = map m_start maps" "map range_size rs = map m_len maps"
    using place_simps [of off maps] by (simp_all add: rs_def core_range_def comp_def)
  have "sorted_wrt (\<lambda>a b. m_start a + m_len a \<le> m_start b) maps" using ok by (simp add: maps_ok_def)
  moreover have n: "length rs = length maps" by (simp add: rs_def place_simps)
  moreover have "start_address (rs ! i) = m_start (maps ! i)" "range_size (rs ! i) = m_len (maps ! i)" if "i < length maps" for i
    using st n that by (metis nth_map)+
  ultimately have dis: "sorted_wrt (\<lambda>a b. range_end a \<le> start_address b) rs"
    by (simp add: sorted_wrt_iff_nth_less)
  have pos: "\<forall>r\<in>set rs. 0 < range_size r \<and> range_end r < 2 ^ 64"
    using ok by (auto simp: rs_def core_range_def maps_ok_def elim!: place_elem)
  have "sorted (map start_address rs)" using dis by (auto simp: sorted_wrt_map elim!: sorted_wrt_mono_rel [rotated])
  then have "core_ranges data (ns # map (\<lambda>r. open_segment (length data) (range_phdr pg r)) (place off maps)) = Ok (filter (\<lambda>r. range_size r > 0) rs)"
    using segments_core_ranges [of "place off maps" data "\<lambda>r. open_segment (length data) (range_phdr pg r)" "core_range data"] seg nt
    by (simp add: core_ranges_def segment_ranges_def rs_def [symmetric] sort_key_sorted trim_disjoint [OF dis])
  moreover have "filter (\<lambda>r. range_size r > 0) rs = rs" using pos by (simp add: filter_id_conv)
  ultimately show "core_ranges data (ns # map (\<lambda>r. open_segment (length data) (range_phdr pg r)) (place off maps)) = Ok rs" by simp
  show "core_ok rs" using dis pos by (simp add: core_ok_def core_sorted_def)
qed

section \<open>Properties\<close>

text \<open>Reading the dump at an address of a dumped map.\<close>

lemma core_read_dumped:
  assumes ok: "core_ok (map (core_range data) (place off maps))" and hdr: "length hdr = off" "data = hdr @ contents mem (place off maps)"
    and m: "m \<in> set maps" "\<not> skip_map m" and a: "m_start m \<le> a" "a + n \<le> m_start m + m_len m"
  shows "core_read (map (core_range data) (place off maps)) a n = Ok (map mem [a..<a + n])"
proof -
  let ?rs = "map (core_range data) (place off maps)"
  obtain r where r: "r \<in> set (place off maps)" "rd_start r = m_start m" "rd_len r = m_len m" "rd_file_size r = m_len m"
    using place_of [OF m(1), of off] m(2) by (auto simp: dumped_size_def)
  note c = place_contents [OF r(1) hdr(1), of mem, folded hdr(2)]
  have in_data: "rd_file_offset r + k < length data" "data ! (rd_file_offset r + k) = mem (m_start m + k)" if "k < m_len m" for k
  proof -
    show l: "rd_file_offset r + k < length data" using c r(4) that hdr by simp
    have "take (rd_file_size r) (drop (rd_file_offset r) data) ! k = mem (m_start m + k)" using c r that by simp
    then show "data ! (rd_file_offset r + k) = mem (m_start m + k)" using r(4) that l by simp
  qed
  have "core_mem ?rs (a + k) = Some (mem (a + k))" if "k < n" for k
  proof -
    have "core_mem ?rs (a + k) = source_byte (source (core_range data r)) (a + k - start_address (core_range data r))"
    proof (rule core_mem_disjoint [OF ok])
      show "core_range data r \<in> set ?rs" using r(1) by simp
    qed (use r a that in \<open>simp_all add: core_range_def\<close>)
    also have "\<dots> = Some (mem (a + k))" using in_data [of "a + k - m_start m"] r a that by (simp add: core_range_def)
    finally show ?thesis .
  qed
  then have "reads (core_mem ?rs) a n (map mem [a..<a + n])" by (simp add: reads_def)
  then show ?thesis using core_read_spec [OF ok] by blast
qed

text \<open>
  A core dump that nnd writes is one that nnd reads back: when the memory of the process can be
  read and standard output takes the bytes (in pieces of any size, with any number of interrupted
  calls), the dump is written completely, it opens as a core dump, and reading it at any addresses of
  a map that is not skipped gives the memory of the process. The note segment holds exactly the notes.
\<close>

lemma dump_reads_back:
  assumes "maps_ok pg maps" "pg AND (pg - 1) = 0" "fits pg notes maps" "0 < buffer_size" "stdout d = []"
    and "\<forall>m\<in>set maps. \<not> skip_map m \<longrightarrow> readable rd mem (m_start m) (m_len m)"
    and "can_write d (mem_start pg notes maps + sum_list (map dumped_size maps))"
  shows "\<exists>d' e rs ns. write_dump pg buffer_size rd notes maps d = Some (Ok (), d')
    \<and> open_elf inflate (stdout d') = Ok e \<and> is_core_dump e \<and> core_ranges (stdout d') (segments e) = Ok rs
    \<and> hd (segments e) = ns \<and> segment_type ns = 4 \<and> take (size_in_file ns) (drop (seg_offset ns) (stdout d')) = notes
    \<and> (\<forall>m\<in>set maps. \<not> skip_map m \<longrightarrow> (\<forall>a n. m_start m \<le> a \<and> a + n \<le> m_start m + m_len m \<longrightarrow>
         core_read rs a n = Ok (map mem [a..<a + n])))"
proof -
  let ?off = "mem_start pg notes maps" and ?ns = "notes_phdr (notes_start maps) notes"
  define rs where "rs = place ?off maps"
  define h where "h = put_ehdr (core_ehdr (length maps)) @ concat (map put_phdr (?ns # map (range_phdr pg) rs))"
  obtain pad where w: "write_headers pg notes maps = Ok (h @ notes @ pad, rs)" and lh: "length h = notes_start maps" "length (h @ notes @ pad) = ?off"
    using write_headers_Ok [OF assms(1-3), folded rs_def] by (auto simp: h_def)
  define data where "data = (h @ notes @ pad) @ contents mem rs"
  have cs: "length (contents mem rs) = sum_list (map dumped_size maps)" by (simp add: length_contents rs_def place_simps)
  have "?off < notes_start maps + length notes + pg" unfolding mem_start_def
    by (rule align_up_ge) (use assms(1) in \<open>simp add: maps_ok_def\<close>)
  then have len: "length data < 2 ^ 63" using assms(3) lh(2) cs by (simp add: data_def fits_def)
  have "readable rd mem (m_start m) (dumped_size m) \<and> dumped_size m \<le> m_len m" if "m \<in> set maps" for m
    using assms(6) that by (cases "skip_map m") (auto simp: dumped_size_def readable_def)
  then have "\<forall>r\<in>set rs. readable rd mem (rd_start r) (rd_file_size r) \<and> rd_file_size r \<le> rd_len r"
    unfolding rs_def by (auto elim!: place_elem)
  from write_dump_all [OF w this assms(4), of d] assms(5,7) lh(2) cs
  obtain d' where d': "write_dump pg buffer_size rd notes maps d = Some (Ok (), d')" "stdout d' = data" by (auto simp: data_def)
  have "data = put_ehdr (core_ehdr (length maps)) @ concat (map put_phdr (?ns # map (range_phdr pg) rs)) @ notes @ pad @ contents mem rs"
    by (simp add: data_def h_def)
  from open_core [OF this _ _ len, of inflate] assms(1)
  obtain e where e: "open_elf inflate data = Ok e" "is_core_dump e" "segments e = map (open_segment (length data)) (?ns # map (range_phdr pg) rs)"
    by (auto simp: rs_def place_simps maps_ok_def)
  have ns: "open_segment (length data) ?ns = \<lparr>segment_type = 4, seg_flags = 0, seg_offset = notes_start maps, seg_address = 0, size_in_file = length notes, size_in_memory = 0\<rparr>"
  proof -
    have "notes_start maps + length notes \<le> length data" using lh by (simp add: data_def)
    then show ?thesis using len by (simp add: open_segment_def notes_phdr_def unat_of_nat_small sat_def)
  qed
  have t4: "segment_type (open_segment (length data) ?ns) = 4" by (simp add: ns)
  have dd: "(h @ notes @ pad) @ contents mem (place ?off maps) = data" by (simp add: data_def rs_def)
  note dr = dumped_core_ranges [OF assms(1) lh(2), where mem = mem, unfolded dd, OF len t4, folded rs_def]
  have r: "core_ranges data (segments e) = Ok (map (core_range data) rs)" "core_ok (map (core_range data) rs)"
    using dr by (simp_all add: e(3) comp_def)
  have "take (length notes) (drop (notes_start maps) data) = notes" by (simp add: data_def flip: lh(1))
  then show ?thesis using d' e r ns core_read_dumped [OF r(2) [unfolded rs_def] lh(2) dd [symmetric]]
    by (intro exI [of _ d'] exI [of _ e] exI [of _ "map (core_range data) rs"] exI [of _ "open_segment (length data) ?ns"]) (simp add: rs_def)
qed

text \<open>One readable map of four bytes, all 7; pages of four bytes, and a kernel that takes up to 1000 bytes at a time.\<close>

definition demo_map :: MemMapInfo where
  "demo_map = \<lparr>m_start = 4, m_len = 4, m_perms = 1, m_offset = 0, m_inode = 0, m_path = None, m_locator = None, m_binary_id = None, m_elf_seen = False\<rparr>"

lemma progress_replicate: "progress (replicate k (Wrote (Suc n))) = k"
  by (induction k) auto

lemma dump_reads_back_example:
  "\<exists>d' e rs. write_dump 4 100 (\<lambda>a n. Ok (replicate n 7)) [] [demo_map] \<lparr>writes = replicate 500 (Wrote 1000), stdout = []\<rparr> = Some (Ok (), d')
     \<and> open_elf (\<lambda>c n. Err IO) (stdout d') = Ok e \<and> core_ranges (stdout d') (segments e) = Ok rs \<and> core_read rs 5 2 = Ok [7, 7]"
proof -
  let ?rd = "\<lambda>a n. Ok (replicate n 7)" and ?d = "\<lparr>writes = replicate 500 (Wrote 1000), stdout = []\<rparr>"
  have skip: "\<not> skip_map demo_map" by (simp add: skip_map_def file_backed_def unreadable_def demo_map_def has_perm_def READ_def)
  have ok: "maps_ok 4 [demo_map]" by (simp add: maps_ok_def demo_map_def)
  have pow: "(4 :: nat) AND (4 - 1) = 0" by simp
  have fit: "fits 4 [] [demo_map]" using skip by (simp add: fits_def notes_start_def dumped_size_def demo_map_def)
  have rd: "\<forall>m\<in>set [demo_map]. \<not> skip_map m \<longrightarrow> readable ?rd (\<lambda>_. 7) (m_start m) (m_len m)"
    by (simp add: readable_def map_replicate_const)
  have "can_write ?d (mem_start 4 [] [demo_map] + sum_list (map dumped_size [demo_map]))"
    using skip progress_replicate [of 500 999] by (simp add: can_write_def mem_start_def notes_start_def align_down_def dumped_size_def demo_map_def)
  from dump_reads_back [OF ok pow fit _ _ rd this, of 100 "\<lambda>c n. Err IO"]
  obtain d' e rs where "write_dump 4 100 ?rd [] [demo_map] ?d = Some (Ok (), d')" "open_elf (\<lambda>c n. Err IO) (stdout d') = Ok e"
    "core_ranges (stdout d') (segments e) = Ok rs"
    "\<forall>a n. m_start demo_map \<le> a \<and> a + n \<le> m_start demo_map + m_len demo_map \<longrightarrow> core_read rs a n = Ok (map (\<lambda>_. 7) [a..<a + n])"
    using skip by auto
  moreover from this(4) [THEN spec, THEN spec, of 5 2] have "core_read rs 5 2 = Ok [7, 7]" by (simp add: demo_map_def)
  ultimately show ?thesis by blast
qed

text \<open>What the notes of a process are: their types, and where their contents come from.\<close>

definition thread_notes :: "note_source \<Rightarrow> nat \<Rightarrow> (u32 \<times> bytes eres) list" where
  "thread_notes src tid = [(1, ns_prstatus src tid), (2, ns_regset src tid 2), (0x202, ns_regset src tid 0x202)]"

definition process_notes :: "note_source \<Rightarrow> nat \<Rightarrow> nat \<Rightarrow> nat list \<Rightarrow> MemMapInfo list \<Rightarrow> (u32 \<times> bytes eres) list" where
  "process_notes src pg pid attached maps =
     [(1, ns_prstatus src pid), (3, Ok (ns_prpsinfo src)), (0x53494749, ns_siginfo src), (6, ns_auxv src), (0x46494c45, files_buf pg maps),
      (2, ns_regset src pid 2), (0x202, ns_regset src pid 0x202)]
     @ concat (map (thread_notes src) (sort (filter (\<lambda>t. t \<noteq> pid) attached)))"

definition core_note :: "u32 \<Rightarrow> bytes \<Rightarrow> ElfNote" where
  "core_note ty d = \<lparr>note_type = ty, note_name = CORE @ [0], note_desc = d\<rparr>"

lemma add_note_encode: "add_note CORE d ty buf = buf @ encode_note (core_note ty d)"
proof -
  have "(4 - n mod 4) mod 4 = pad4 n - n" for n
  proof -
    define k j where kj: "k = n div 4" "j = n mod 4"
    have n: "n = 4 * k + j" and "j < 4" by (simp_all add: kj)
    then consider "j = 0" | "j = 1" | "j = 2" | "j = 3" by linarith
    moreover have "pad4 n = (k + (j + 3) div 4) * 4" by (simp add: pad4_def n add.assoc)
    ultimately show ?thesis unfolding kj(2) [symmetric] by cases (simp_all add: n)
  qed
  moreover have "replicate 4 (0 :: u8) = 0 # replicate 3 0" by (simp add: numeral_eq_Suc)
  moreover have "pad4 (Suc (Suc (Suc (Suc (Suc 0))))) - Suc (Suc (Suc (Suc (Suc 0)))) = 3" by (simp add: pad4_def)
  ultimately show ?thesis unfolding add_note_def encode_note_def core_note_def by simp
qed

text \<open>The buffer holds these notes.\<close>

definition holds :: "bytes \<Rightarrow> (u32 \<times> bytes eres) list \<Rightarrow> bool" where
  "holds buf L \<longleftrightarrow> (\<exists>ds. collect (map snd L) = Ok ds \<and> buf = concat (map encode_note (map2 core_note (map fst L) ds)))"

lemma holds_Nil: "holds [] []"
  by (simp add: holds_def)

lemma holds_snoc: "holds buf L \<Longrightarrow> holds (add_note CORE d ty buf) (L @ [(ty, Ok d)])"
proof -
  assume "holds buf L"
  then obtain ds where ds: "map snd L = map Ok ds" "buf = concat (map encode_note (map2 core_note (map fst L) ds))" by (auto simp: holds_def collect_Ok)
  have "length L = length ds" using ds(1) by (metis length_map)
  then show ?thesis unfolding holds_def using ds by (intro exI [of _ "ds @ [d]"]) (simp add: collect_Ok add_note_encode)
qed

lemma holds_prstatus: "holds buf L \<Longrightarrow> add_prstatus_note src tid buf = Ok buf' \<Longrightarrow> holds buf' (L @ [(1, ns_prstatus src tid)])"
  by (auto simp: add_prstatus_note_def intro: holds_snoc)

lemma holds_regset: "holds buf L \<Longrightarrow> add_regset_note src tid ty buf = Ok buf' \<Longrightarrow> holds buf' (L @ [(ty, ns_regset src tid ty)])"
  by (auto simp: add_regset_note_def intro: holds_snoc split: if_splits)

lemma holds_threads: "holds buf L \<Longrightarrow> add_thread_notes src tids buf = Ok buf' \<Longrightarrow> holds buf' (L @ concat (map (thread_notes src) tids))"
proof (induction tids arbitrary: buf L)
  case (Cons tid tids)
  from Cons.prems(2) obtain b1 b2 b3 where b: "add_prstatus_note src tid buf = Ok b1" "add_regset_note src tid 2 b1 = Ok b2"
    "add_regset_note src tid 0x202 b2 = Ok b3" "add_thread_notes src tids b3 = Ok buf'" by auto
  from Cons.IH [OF holds_regset [OF holds_regset [OF holds_prstatus [OF Cons.prems(1) b(1)] b(2)] b(3)] b(4)]
  show ?case by (simp add: thread_notes_def)
qed simp

lemma prepare_holds:
  assumes "prepare_notes src pg pid attached maps = Ok buf"
  shows "holds buf (process_notes src pg pid attached maps)"
proof -
  from assms obtain b1 si av files b2 b3 where b: "add_prstatus_note src pid [] = Ok b1" "ns_siginfo src = Ok si" "ns_auxv src = Ok av" "files_buf pg maps = Ok files"
    "add_regset_note src pid 2 (add_note CORE files 0x46494c45 (add_note CORE av 6 (add_note CORE si 0x53494749 (add_note CORE (ns_prpsinfo src) 3 b1)))) = Ok b2"
    "add_regset_note src pid 0x202 b2 = Ok b3" "add_thread_notes src (sort (filter (\<lambda>t. t \<noteq> pid) attached)) b3 = Ok buf"
    by (auto simp: prepare_notes_def Let_def)
  from holds_threads [OF holds_regset [OF holds_regset [OF holds_snoc [OF holds_snoc [OF holds_snoc [OF holds_snoc [OF
      holds_prstatus [OF holds_Nil b(1)]]]]] b(5)] b(6)] b(7)] b(2-4)
  show ?thesis by (simp add: process_notes_def)
qed

text \<open>
  (C27) The notes that the writer of core dumps prepares are those that the reader parses: for each
  thread its status and register sets, the process first and the other threads in ascending order,
  and the information on the process, in the writer's order and with unchanged contents. The writer
  fails when one of the sources fails.
\<close>

theorem prepared_notes_parse:
  assumes "prepare_notes src pg pid attached maps = Ok buf" "list_all (\<lambda>(ty, r). \<forall>d. r = Ok d \<longrightarrow> length d < 2 ^ 32) (process_notes src pg pid attached maps)"
  shows "\<exists>ds. collect (map snd (process_notes src pg pid attached maps)) = Ok ds
    \<and> parse_notes buf = Ok (map2 core_note (map fst (process_notes src pg pid attached maps)) ds)"
proof -
  let ?L = "process_notes src pg pid attached maps"
  obtain ds where ds: "collect (map snd ?L) = Ok ds" "buf = concat (map encode_note (map2 core_note (map fst ?L) ds))"
    using prepare_holds [OF assms(1)] by (auto simp: holds_def)
  have "length d < 2 ^ 32" if "d \<in> set ds" for d
  proof -
    have "Ok d \<in> set (map snd ?L)" using ds(1) that by (simp add: collect_Ok)
    then show ?thesis using assms(2) by (force simp: list_all_iff)
  qed
  then have "\<forall>nt\<in>set (map2 core_note (map fst ?L) ds). length (note_name nt) < 2 ^ 32 \<and> length (note_desc nt) < 2 ^ 32"
    by (auto simp: core_note_def dest: set_zip_rightD)
  from parse_notes_encoded [OF this, of "[]"] ds show ?thesis by simp
qed

text \<open>A process with two threads, without mapped files.\<close>

definition demo_source :: note_source where
  "demo_source = \<lparr>ns_prstatus = (\<lambda>t. Ok [word_of_nat t]), ns_prpsinfo = [1, 2], ns_siginfo = Ok [], ns_auxv = Ok [9], ns_regset = (\<lambda>t r. Ok [3])\<rparr>"

theorem prepared_notes_parse_witness:
  "\<exists>buf ns. prepare_notes demo_source 4096 7 [8, 7] [] = Ok buf \<and> parse_notes buf = Ok ns \<and> length ns = 10 \<and> ns ! 7 = core_note 1 [8]"
proof -
  obtain buf where buf: "prepare_notes demo_source 4096 7 [8, 7] [] = Ok buf"
    by (simp add: prepare_notes_def demo_source_def add_prstatus_note_def add_regset_note_def files_buf_def Let_def)
  have L: "process_notes demo_source 4096 7 [8, 7] [] =
     [(1, Ok [7]), (3, Ok [1, 2]), (0x53494749, Ok []), (6, Ok [9]), (0x46494c45, Ok (ByteIO.write_usize 0 @ ByteIO.write_usize 4096)),
      (2, Ok [3]), (0x202, Ok [3]), (1, Ok [8]), (2, Ok [3]), (0x202, Ok [3])]"
    by (simp add: process_notes_def demo_source_def thread_notes_def files_buf_def)
  have "list_all (\<lambda>(ty, r). \<forall>d. r = Ok d \<longrightarrow> length d < 2 ^ 32) (process_notes demo_source 4096 7 [8, 7] [])"
    by (simp add: L ByteIO.write_usize_def)
  from prepared_notes_parse [OF buf this] buf show ?thesis unfolding L by simp
qed

end
