(* ===== verification/ForkInject.thy ===== *)
theory ForkInject
  imports CoreWriter
begin

text \<open>
  Forking the process that is to be dumped (\<open>src/core_dumper.rs\<close>): a thread of the process is made
  to run a \<open>fork\<close> system call that is written over its code, and code and registers are put
  back. The system calls are a parameter: operations on the process \<open>'m\<close>. A loop that waits for
  the thread has fuel; without any left it has not returned yet (\<open>None\<close>).
\<close>

section \<open>System calls\<close>

text \<open>What \<open>waitpid\<close> reports: an error, an interrupted call, another thread, a stop with a signal and an event, the end of the thread, or a status that is none of these.\<close>

datatype wait_result = WaitFailed | WaitInterrupted | WaitOther nat | Stopped nat nat | Exited nat | Signaled nat | BadStatus nat

record 'm inject_ops =
  i_getregset :: "'m \<Rightarrow> nat \<Rightarrow> u32 \<Rightarrow> bytes eres"
  i_setregset :: "'m \<Rightarrow> nat \<Rightarrow> u32 \<Rightarrow> bytes \<Rightarrow> bool \<times> 'm"
  i_poketext :: "'m \<Rightarrow> nat \<Rightarrow> nat \<Rightarrow> u64 \<Rightarrow> bool \<times> 'm"
  i_cont :: "'m \<Rightarrow> nat \<Rightarrow> bool \<times> 'm"
  i_waitpid :: "'m \<Rightarrow> nat \<Rightarrow> wait_result \<times> 'm"
  i_geteventmsg :: "'m \<Rightarrow> nat \<Rightarrow> nat eres"
  i_read :: "'m \<Rightarrow> nat \<Rightarrow> nat \<Rightarrow> bytes eres"
  i_kill :: "'m \<Rightarrow> nat \<Rightarrow> bool \<times> 'm"

section \<open>State\<close>

record RegisterSet =
  rs_id :: u32
  rs_data :: bytes

record ForkInjectionState =
  fi_tid :: nat
  fi_addr :: nat
  fi_original_code :: u64
  fi_regsets :: "RegisterSet list"

record 'm CoreDumper =
  attached_threads :: "nat list"
  forked_pid :: "nat option"
  fork_state :: "ForkInjectionState option"
  target :: 'm

section \<open>Putting the process back\<close>

text \<open>Failures are noted and the rest is still restored.\<close>

fun restore_regsets :: "'m inject_ops \<Rightarrow> nat \<Rightarrow> RegisterSet list \<Rightarrow> bool \<Rightarrow> 'm \<Rightarrow> bool \<times> 'm" where
  "restore_regsets tg tid [] failed m = (failed, m)"
| "restore_regsets tg tid (r # rs) failed m = (let (ok, m) = i_setregset tg m tid (rs_id r) (rs_data r) in restore_regsets tg tid rs (failed \<or> \<not> ok) m)"

definition restore_state_after_fork :: "'m inject_ops \<Rightarrow> ForkInjectionState \<Rightarrow> bool \<Rightarrow> 'm \<Rightarrow> bool \<times> 'm" where
  "restore_state_after_fork tg st dry_run m =
     (let (failed_thread, m) = restore_regsets tg (fi_tid st) (fi_regsets st) False m;
          (ok, m) = i_poketext tg m (fi_tid st) (fi_addr st) (fi_original_code st)
      in (\<not> (\<not> dry_run \<and> (\<not> ok \<or> failed_thread)), m))"

section \<open>Running the system call\<close>

text \<open>The stop that follows the fork is the \<open>int3\<close> behind the system call.\<close>

fun inject_loop :: "'m inject_ops \<Rightarrow> nat \<Rightarrow> nat \<Rightarrow> 'm CoreDumper \<Rightarrow> (unit eres \<times> 'm CoreDumper) option" where
  "inject_loop tg 0 tid s = None"
| "inject_loop tg (Suc fuel) tid s = (let (w, m) = i_waitpid tg (target s) tid; s = s\<lparr>target := m\<rparr> in case w of
      WaitInterrupted \<Rightarrow> inject_loop tg fuel tid s
    | WaitFailed \<Rightarrow> Some (Err IO, s)
    | WaitOther t \<Rightarrow> Some (Err Sanity, s)
    | Stopped sig ev \<Rightarrow>
        if sig \<noteq> 5 then Some (Err ProcessState, s)
        else if ev = 1 then (case i_geteventmsg tg (target s) tid of
            Ok pid \<Rightarrow> (let s = s\<lparr>forked_pid := Some pid\<rparr>; (ok, m) = i_cont tg (target s) tid; s = s\<lparr>target := m\<rparr> in
              if ok then inject_loop tg fuel tid s else Some (Err IO, s))
          | _ \<Rightarrow> Some (Err IO, s))
        else if forked_pid s = None then Some (Err ProcessState, s)
        else Some (Ok (), s)
    | Exited c \<Rightarrow> Some (Err ProcessState, s)
    | Signaled c \<Rightarrow> Some (Err ProcessState, s)
    | BadStatus c \<Rightarrow> Some (Err Internal, s))"

definition inject_fork :: "'m inject_ops \<Rightarrow> nat \<Rightarrow> nat \<Rightarrow> nat \<Rightarrow> u64 \<Rightarrow> bytes \<Rightarrow> 'm CoreDumper \<Rightarrow> (unit eres \<times> 'm CoreDumper) option" where
  "inject_fork tg fuel tid a code regs s =
     (let (ok, m) = i_poketext tg (target s) tid a code; s = s\<lparr>target := m\<rparr> in
      if \<not> ok then Some (Err IO, s)
      else (let (ok, m) = i_setregset tg (target s) tid 1 regs; s = s\<lparr>target := m\<rparr> in
        if \<not> ok then Some (Err IO, s)
        else (let (ok, m) = i_cont tg (target s) tid; s = s\<lparr>target := m\<rparr> in
          if \<not> ok then Some (Err IO, s) else inject_loop tg fuel tid s)))"

section \<open>The whole procedure\<close>

definition code_to_inject :: u64 where
  "code_to_inject = from_le_bytes [0x0f, 0x05, 0xcc, 0xcc, 0xcc, 0xcc, 0xcc, 0xcc]"

text \<open>\<open>user_regs_struct\<close> has 27 words; \<open>rax\<close> is the 11th and \<open>rip\<close> the 17th.\<close>

definition hijacked_regs :: "nat \<Rightarrow> bytes \<Rightarrow> bytes" where
  "hijacked_regs a d = take 80 d @ to_le_bytes 8 (0x39 :: u64) @ take 40 (drop 88 d) @ to_le_bytes 8 (word_of_nat a :: u64) @ drop 136 d"

definition read_regset :: "'m inject_ops \<Rightarrow> 'm \<Rightarrow> nat \<Rightarrow> u32 \<Rightarrow> RegisterSet eres" where
  "read_regset tg m tid rid = rbind (i_getregset tg m tid rid) (\<lambda>d.
     if length d = 65536 then Err Sanity
     else if rid = 1 \<and> length d \<noteq> 216 then Err Sanity
     else Ok \<lparr>rs_id = rid, rs_data = d\<rparr>)"

definition injection_addr :: "MemMapInfo list \<Rightarrow> nat" where
  "injection_addr maps = fold (\<lambda>m a. if has_perm (m_perms m) (EXECUTE OR READ) then min a (m_start m) else a) maps (2 ^ 64 - 1)"

text \<open>What follows the injection, once the saved state is complete.\<close>

definition after_injection :: "'m inject_ops \<Rightarrow> ForkInjectionState \<Rightarrow> (unit eres \<times> 'm CoreDumper) option \<Rightarrow> (unit eres \<times> 'm CoreDumper) option" where
  "after_injection tg st i = (case i of
       None \<Rightarrow> None
     | Some (r, s) \<Rightarrow>
         (let s = s\<lparr>fork_state := None\<rparr>; (ok, m) = restore_state_after_fork tg st False (target s); s = s\<lparr>target := m\<rparr> in
          if \<not> ok then Some (Err Sanity, s)
          else if r \<noteq> Ok () then Some (Err Environment, s)
          else Some (Ok (), s)))"

definition do_the_fork_nonsense :: "'m inject_ops \<Rightarrow> nat \<Rightarrow> MemMapInfo list \<Rightarrow> 'm CoreDumper \<Rightarrow> (unit eres \<times> 'm CoreDumper) option" where
  "do_the_fork_nonsense tg fuel maps s =
     (if attached_threads s = [] then Some (Panic, s)
      else (let tid = hd (attached_threads s); a = injection_addr maps in
        case collect (map (read_regset tg (target s) tid) [1, 2, 0x202]) of
          Panic \<Rightarrow> Some (Panic, s)
        | Err e \<Rightarrow> Some (Err e, s)
        | Ok regsets \<Rightarrow>
            if a = 2 ^ 64 - 1 then Some (Err ProcessState, s)
            else (case i_read tg (target s) a 8 of
                Panic \<Rightarrow> Some (Panic, s)
              | Err e \<Rightarrow> Some (Err e, s)
              | Ok code \<Rightarrow>
                  (let st = \<lparr>fi_tid = tid, fi_addr = a, fi_original_code = from_le_bytes code, fi_regsets = regsets\<rparr>;
                       (ok, m) = restore_state_after_fork tg st True (target s);
                       s = s\<lparr>target := m\<rparr>
                   in if \<not> ok then Some (Err Sanity, s)
                      else after_injection tg st
                        (inject_fork tg fuel tid a code_to_inject (hijacked_regs a (rs_data (hd regsets))) (s\<lparr>fork_state := Some st\<rparr>))))))"

text \<open>After an error, and when the program dies: what is broken is restored and the copy is killed.\<close>

definition cleanup :: "'m inject_ops \<Rightarrow> 'm CoreDumper \<Rightarrow> 'm CoreDumper" where
  "cleanup tg s =
     (let s = (case fork_state s of None \<Rightarrow> s | Some st \<Rightarrow> s\<lparr>fork_state := None, target := snd (restore_state_after_fork tg st False (target s))\<rparr>)
      in case forked_pid s of None \<Rightarrow> s | Some pid \<Rightarrow> s\<lparr>forked_pid := None, target := snd (i_kill tg (target s) pid)\<rparr>)"

section \<open>What the system promises\<close>

text \<open>
  \<open>mem\<close> is the memory of the process and \<open>regs\<close> the general registers of a thread. Reading
  gives what is there; a successful write replaces the eight bytes or the registers, a failed one
  nothing; the other register sets are not the general one; and while the other threads are stopped,
  running the injected instructions, waiting and killing the copy do not write to the memory.
\<close>

definition inject_laws :: "'m inject_ops \<Rightarrow> ('m \<Rightarrow> nat \<Rightarrow> u8) \<Rightarrow> ('m \<Rightarrow> nat \<Rightarrow> bytes) \<Rightarrow> bool" where
  "inject_laws tg mem regs \<longleftrightarrow>
     (\<forall>m t i d. mem (snd (i_setregset tg m t i d)) = mem m
        \<and> regs (snd (i_setregset tg m t i d)) t = (if i = 1 \<and> fst (i_setregset tg m t i d) then d else regs m t))
     \<and> (\<forall>m t a w. mem (snd (i_poketext tg m t a w)) =
          (if fst (i_poketext tg m t a w) then (\<lambda>x. if a \<le> x \<and> x < a + 8 then to_le_bytes 8 w ! (x - a) else mem m x) else mem m)
        \<and> regs (snd (i_poketext tg m t a w)) = regs m)
     \<and> (\<forall>m t. mem (snd (i_cont tg m t)) = mem m \<and> mem (snd (i_waitpid tg m t)) = mem m \<and> mem (snd (i_kill tg m t)) = mem m
          \<and> regs (snd (i_kill tg m t)) = regs m)
     \<and> (\<forall>m t d. i_getregset tg m t 1 = Ok d \<longrightarrow> regs m t = d)
     \<and> (\<forall>m a n bs. i_read tg m a n = Ok bs \<longrightarrow> bs = map (mem m) [a..<a + n])"

lemma setregset_laws:
  assumes "inject_laws tg mem regs" "i_setregset tg m t i d = (ok, m')"
  shows "mem m' = mem m" "regs m' t = (if i = 1 \<and> ok then d else regs m t)"
proof -
  have "mem (snd (i_setregset tg m t i d)) = mem m \<and> regs (snd (i_setregset tg m t i d)) t = (if i = 1 \<and> fst (i_setregset tg m t i d) then d else regs m t)"
    using assms(1) unfolding inject_laws_def by blast
  then show "mem m' = mem m" "regs m' t = (if i = 1 \<and> ok then d else regs m t)" by (simp_all add: assms(2))
qed

lemma poketext_laws:
  assumes "inject_laws tg mem regs" "i_poketext tg m t a w = (ok, m')"
  shows "mem m' = (if ok then (\<lambda>x. if a \<le> x \<and> x < a + 8 then to_le_bytes 8 w ! (x - a) else mem m x) else mem m)" "regs m' = regs m"
proof -
  have "mem (snd (i_poketext tg m t a w)) =
      (if fst (i_poketext tg m t a w) then (\<lambda>x. if a \<le> x \<and> x < a + 8 then to_le_bytes 8 w ! (x - a) else mem m x) else mem m)
    \<and> regs (snd (i_poketext tg m t a w)) = regs m"
    using assms(1) unfolding inject_laws_def by blast
  then show "mem m' = (if ok then (\<lambda>x. if a \<le> x \<and> x < a + 8 then to_le_bytes 8 w ! (x - a) else mem m x) else mem m)" "regs m' = regs m"
    by (simp_all add: assms(2) split: if_splits)
qed

lemma run_laws:
  assumes "inject_laws tg mem regs"
  shows "i_cont tg m t = (ok, m') \<Longrightarrow> mem m' = mem m" "i_waitpid tg m t = (w, m') \<Longrightarrow> mem m' = mem m" "i_kill tg m t = (ok, m') \<Longrightarrow> mem m' = mem m \<and> regs m' = regs m"
  using assms unfolding inject_laws_def by (metis snd_conv)+

lemma restore_regsets_effect:
  assumes laws: "inject_laws tg mem regs" and "restore_regsets tg tid rs failed m = (f, m')"
  shows "mem m' = mem m \<and> (failed \<longrightarrow> f) \<and>
    (\<forall>d. (\<forall>r\<in>set rs. rs_id r = 1 \<longrightarrow> rs_data r = d) \<longrightarrow>
      (regs m tid = d \<longrightarrow> regs m' tid = d) \<and> (\<not> f \<and> (\<exists>r\<in>set rs. rs_id r = 1) \<longrightarrow> regs m' tid = d))"
  using assms(2)
proof (induction rs arbitrary: failed m)
  case (Cons r rs)
  obtain ok m1 where 1: "i_setregset tg m tid (rs_id r) (rs_data r) = (ok, m1)" by fastforce
  note l = setregset_laws [OF laws 1]
  have IH: "restore_regsets tg tid rs (failed \<or> \<not> ok) m1 = (f, m')" using Cons.prems 1 by simp
  from Cons.IH [OF this] l show ?case by auto
qed auto

text \<open>The saved state is that of the process \<open>m0\<close>.\<close>

definition saves :: "('m \<Rightarrow> nat \<Rightarrow> u8) \<Rightarrow> ('m \<Rightarrow> nat \<Rightarrow> bytes) \<Rightarrow> ForkInjectionState \<Rightarrow> 'm \<Rightarrow> bool" where
  "saves mem regs st m0 \<longleftrightarrow> fi_original_code st = from_le_bytes (map (mem m0) [fi_addr st..<fi_addr st + 8])
     \<and> (\<exists>r\<in>set (fi_regsets st). rs_id r = 1) \<and> (\<forall>r\<in>set (fi_regsets st). rs_id r = 1 \<longrightarrow> rs_data r = regs m0 (fi_tid st))"

text \<open>Nothing but the eight bytes differs.\<close>

definition patched_at :: "nat \<Rightarrow> (nat \<Rightarrow> u8) \<Rightarrow> (nat \<Rightarrow> u8) \<Rightarrow> bool" where
  "patched_at a f g \<longleftrightarrow> (\<forall>x. x < a \<or> a + 8 \<le> x \<longrightarrow> f x = g x)"

lemma patched_at_refl [simp]: "patched_at a f f"
  by (simp add: patched_at_def)

lemma restore_effect:
  assumes laws: "inject_laws tg mem regs" and saved: "saves mem regs st m0" and "patched_at (fi_addr st) (mem m) (mem m0)"
    and r: "restore_state_after_fork tg st dry m = (ok, m')"
  shows "(\<not> dry \<and> ok \<longrightarrow> mem m' = mem m0 \<and> regs m' (fi_tid st) = regs m0 (fi_tid st))
    \<and> (mem m = mem m0 \<and> regs m (fi_tid st) = regs m0 (fi_tid st) \<longrightarrow> mem m' = mem m0 \<and> regs m' (fi_tid st) = regs m0 (fi_tid st))"
proof -
  let ?a = "fi_addr st"
  obtain f m1 where 1: "restore_regsets tg (fi_tid st) (fi_regsets st) False m = (f, m1)" by fastforce
  obtain k m2 where 2: "i_poketext tg m1 (fi_tid st) ?a (fi_original_code st) = (k, m2)" by fastforce
  note e1 = restore_regsets_effect [OF laws 1]
  note e2 = poketext_laws [OF laws 2]
  have m': "m' = m2" "ok = (\<not> (\<not> dry \<and> (\<not> k \<or> f)))" using r 1 2 by (simp_all add: restore_state_after_fork_def)
  have w: "to_le_bytes 8 (fi_original_code st) ! (x - ?a) = mem m0 x" if "?a \<le> x" "x < ?a + 8" for x
  proof -
    have "to_le_bytes 8 (fi_original_code st) = map (mem m0) [?a..<?a + 8]" using saved unfolding saves_def by (simp add: to_from_le_bytes)
    then show ?thesis using that by simp
  qed
  have mem: "mem m2 = mem m0" if "k \<or> mem m = mem m0"
    using that e1 e2(1) w assms(3) by (fastforce simp: patched_at_def split: if_splits)
  have "regs m1 (fi_tid st) = regs m0 (fi_tid st)" if "\<not> f \<or> regs m (fi_tid st) = regs m0 (fi_tid st)"
    using that e1 saved by (auto simp: saves_def)
  then show ?thesis using mem m' e2(2) by auto
qed

lemma inject_loop_effect:
  assumes "inject_laws tg mem regs" "inject_loop tg fuel tid s = Some (r, s')"
  shows "mem (target s') = mem (target s) \<and> fork_state s' = fork_state s \<and> (r = Ok () \<longrightarrow> forked_pid s' \<noteq> None)"
  using assms(2)
proof (induction fuel arbitrary: s)
  case (Suc fuel)
  obtain w m where w: "i_waitpid tg (target s) tid = (w, m)" by fastforce
  note m = run_laws(2) [OF assms(1) w]
  show ?case
  proof (cases w)
    case WaitInterrupted
    then have "inject_loop tg fuel tid (s\<lparr>target := m\<rparr>) = Some (r, s')" using Suc.prems w by simp
    from Suc.IH [OF this] m show ?thesis by simp
  next
    case (Stopped sig ev)
    show ?thesis
    proof (cases "sig = 5 \<and> ev = 1 \<and> (\<exists>pid. i_geteventmsg tg m tid = Ok pid)")
      case True
      then obtain pid where pid: "i_geteventmsg tg m tid = Ok pid" by blast
      obtain ok m2 where c: "i_cont tg m tid = (ok, m2)" by fastforce
      note m2 = run_laws(1) [OF assms(1) c]
      show ?thesis
      proof (cases ok)
        case ok: True
        then have "inject_loop tg fuel tid (s\<lparr>forked_pid := Some pid, target := m2\<rparr>) = Some (r, s')" using Suc.prems w Stopped True pid c by simp
        from Suc.IH [OF this] m m2 show ?thesis by simp
      qed (use Suc.prems w Stopped True pid c m m2 in \<open>auto simp: Let_def\<close>)
    qed (use Suc.prems w Stopped m in \<open>auto simp: Let_def split: if_splits result.splits\<close>)
  qed (use Suc.prems w m in \<open>auto simp: Let_def\<close>)
qed simp

lemma inject_fork_effect:
  assumes laws: "inject_laws tg mem regs" and "inject_fork tg fuel tid a code rg s = Some (r, s')"
  shows "patched_at a (mem (target s')) (mem (target s)) \<and> (r = Ok () \<longrightarrow> forked_pid s' \<noteq> None)"
proof -
  obtain ok1 m1 where 1: "i_poketext tg (target s) tid a code = (ok1, m1)" by fastforce
  obtain ok2 m2 where 2: "i_setregset tg m1 tid 1 rg = (ok2, m2)" by fastforce
  obtain ok3 m3 where 3: "i_cont tg m2 tid = (ok3, m3)" by fastforce
  have p: "patched_at a (mem m1) (mem (target s))" using poketext_laws(1) [OF laws 1] by (simp add: patched_at_def)
  have "mem m2 = mem m1" "mem m3 = mem m2" by (rule setregset_laws(1) [OF laws 2], rule run_laws(1) [OF laws 3])
  then show ?thesis using assms(2) 1 2 3 p inject_loop_effect [OF laws, of fuel tid "s\<lparr>target := m3\<rparr>" r s']
    by (auto simp: inject_fork_def Let_def split: if_splits)
qed

text \<open>Dying in the middle of the injection: the cleanup restores the process as well, when the system calls it makes succeed, and the copy is forgotten.\<close>

lemma cleanup_restores:
  assumes laws: "inject_laws tg mem regs" and st: "fork_state s = Some st" and saved: "saves mem regs st m0"
    and p: "patched_at (fi_addr st) (mem (target s)) (mem m0)" and k: "fst (restore_state_after_fork tg st False (target s))"
  shows "mem (target (cleanup tg s)) = mem m0 \<and> regs (target (cleanup tg s)) (fi_tid st) = regs m0 (fi_tid st)
    \<and> fork_state (cleanup tg s) = None \<and> forked_pid (cleanup tg s) = None"
proof -
  obtain ok m where r: "restore_state_after_fork tg st False (target s) = (ok, m)" by (rule prod.exhaust)
  have e: "mem m = mem m0" "regs m (fi_tid st) = regs m0 (fi_tid st)" using restore_effect [OF laws saved p r] k r by simp_all
  have "mem (snd (i_kill tg m pid)) = mem m \<and> regs (snd (i_kill tg m pid)) = regs m" for pid
    using run_laws(3) [OF laws, of m pid] by (cases "i_kill tg m pid") auto
  then show ?thesis using e by (simp add: cleanup_def Let_def st r split: option.split)
qed

section \<open>Properties\<close>

lemma read_regsets:
  assumes "inject_laws tg mem regs" "collect (map (read_regset tg m tid) [1, 2, 0x202]) = Ok rs"
  shows "\<exists>r\<in>set rs. rs_id r = 1" "\<forall>r\<in>set rs. rs_id r = 1 \<longrightarrow> rs_data r = regs m tid"
proof -
  have id: "rs_id r = i \<and> i_getregset tg m tid i = Ok (rs_data r)" if "read_regset tg m tid i = Ok r" for i r
    using that by (auto simp: read_regset_def split: if_splits)
  obtain r1 r2 r3 where r: "read_regset tg m tid 1 = Ok r1" "read_regset tg m tid 2 = Ok r2" "read_regset tg m tid 0x202 = Ok r3" "rs = [r1, r2, r3]"
    using assms(2) by auto
  have d: "i_getregset tg m tid 1 = Ok d \<Longrightarrow> regs m tid = d" for d using assms(1) unfolding inject_laws_def by blast
  show "\<exists>r\<in>set rs. rs_id r = 1" "\<forall>r\<in>set rs. rs_id r = 1 \<longrightarrow> rs_data r = regs m tid"
    using id [OF r(1)] id [OF r(2)] id [OF r(3)] d r(4) by auto
qed

lemma run_injection:
  assumes "attached_threads s \<noteq> []" "collect (map (read_regset tg (target s) (hd (attached_threads s))) [1, 2, 0x202]) = Ok rs"
    "i_read tg (target s) (injection_addr maps) 8 = Ok code" "injection_addr maps \<noteq> 2 ^ 64 - 1"
    "restore_state_after_fork tg st True (target s) = (k, m)" "k"
    "st = \<lparr>fi_tid = hd (attached_threads s), fi_addr = injection_addr maps, fi_original_code = from_le_bytes code, fi_regsets = rs\<rparr>"
  shows "do_the_fork_nonsense tg fuel maps s = after_injection tg st
    (inject_fork tg fuel (hd (attached_threads s)) (injection_addr maps) code_to_inject (hijacked_regs (injection_addr maps) (rs_data (hd rs))) (s\<lparr>target := m, fork_state := Some st\<rparr>))"
  unfolding do_the_fork_nonsense_def Let_def assms(2,3) result.case assms(7) [symmetric] assms(5) prod.case
  using assms(1,4,6) by (simp only: if_False if_True not_True_eq_False simp_thms)

text \<open>
  (C8) Forking the process leaves it intact: whatever the system calls return, once the procedure
  ends, the process has its own code again and the hijacked thread its own general registers,
  unless the procedure ends with the error that says so. It succeeds only when there is a forked
  process, and it is not left in the state in which a crash would have to clean up.
\<close>

theorem fork_leaves_process_intact:
  assumes "inject_laws tg mem regs" "do_the_fork_nonsense tg fuel maps s = Some (r, s')" "fork_state s = None"
  shows "fork_state s' = None \<and> (r = Ok () \<longrightarrow> forked_pid s' \<noteq> None)
    \<and> (r \<noteq> Err Sanity \<longrightarrow> mem (target s') = mem (target s)
        \<and> (attached_threads s \<noteq> [] \<longrightarrow> regs (target s') (hd (attached_threads s)) = regs (target s) (hd (attached_threads s))))"
proof -
  let ?tid = "hd (attached_threads s)" and ?a = "injection_addr maps"
  consider (early) "s' = s" "r \<noteq> Ok ()"
    | (run) rs code where "attached_threads s \<noteq> []" "collect (map (read_regset tg (target s) ?tid) [1, 2, 0x202]) = Ok rs" "i_read tg (target s) ?a 8 = Ok code" "?a \<noteq> 2 ^ 64 - 1"
    using assms(2) by (force simp: do_the_fork_nonsense_def Let_def split: if_splits result.splits)
  then show ?thesis
  proof cases
    case early
    then show ?thesis using assms(3) by simp
  next
    case run
    define st where "st = \<lparr>fi_tid = ?tid, fi_addr = ?a, fi_original_code = from_le_bytes code, fi_regsets = rs\<rparr>"
    have sel: "fi_tid st = ?tid" "fi_addr st = ?a" by (simp_all add: st_def)
    have "code = map (mem (target s)) [?a..<?a + 8]" using assms(1) run(3) unfolding inject_laws_def by blast
    then have saved: "saves mem regs st (target s)" using read_regsets [OF assms(1) run(2)] by (simp add: saves_def st_def)
    obtain k0 m0 where d: "restore_state_after_fork tg st True (target s) = (k0, m0)" by fastforce
    then have k0: k0 by (auto simp: restore_state_after_fork_def split: prod.splits)
    have m0: "mem m0 = mem (target s)" "regs m0 ?tid = regs (target s) ?tid"
      using restore_effect [OF assms(1) saved _ d] sel by simp_all
    let ?s = "s\<lparr>target := m0, fork_state := Some st\<rparr>"
    have eq: "do_the_fork_nonsense tg fuel maps s = after_injection tg st (inject_fork tg fuel ?tid ?a code_to_inject (hijacked_regs ?a (rs_data (hd rs))) ?s)"
      by (rule run_injection [OF run d k0 st_def])
    then obtain q s1 where i: "inject_fork tg fuel ?tid ?a code_to_inject (hijacked_regs ?a (rs_data (hd rs))) ?s = Some (q, s1)"
      using assms(2) by (auto simp: after_injection_def split: option.splits)
    note e = inject_fork_effect [OF assms(1) i]
    obtain k2 m2 where f: "restore_state_after_fork tg st False (target s1) = (k2, m2)" by fastforce
    have "patched_at ?a (mem (target s1)) (mem (target s))" using e m0(1) by simp
    then have m2: "k2 \<Longrightarrow> mem m2 = mem (target s) \<and> regs m2 ?tid = regs (target s) ?tid" using restore_effect [OF assms(1) saved _ f] sel by simp
    have "Some (r, s') = Some (if \<not> k2 then Err Sanity else if q \<noteq> Ok () then Err Environment else Ok (), s1\<lparr>fork_state := None, target := m2\<rparr>)"
      using assms(2) f unfolding eq i by (simp add: after_injection_def Let_def split: if_splits)
    then show ?thesis using e m2 by auto
  qed
qed

text \<open>
  A process with one thread whose system calls succeed: its state is its memory, the general registers,
  and how many stops have been reported (first the fork, then the \<open>int3\<close>).
\<close>

type_synonym demo_process = "(nat \<Rightarrow> u8) \<times> bytes \<times> nat"

definition demo_ops :: "demo_process inject_ops" where
  "demo_ops = \<lparr>i_getregset = (\<lambda>(m, r, k) t i. Ok r), i_setregset = (\<lambda>(m, r, k) t i d. (True, (m, if i = 1 then d else r, k))),
     i_poketext = (\<lambda>(m, r, k) t a w. (True, (\<lambda>x. if a \<le> x \<and> x < a + 8 then to_le_bytes 8 w ! (x - a) else m x, r, k))),
     i_cont = (\<lambda>p t. (True, p)), i_waitpid = (\<lambda>(m, r, k) t. (Stopped 5 (if k = 0 then 1 else 0), (m, r, Suc k))),
     i_geteventmsg = (\<lambda>p t. Ok 99), i_read = (\<lambda>(m, r, k) a n. Ok (map m [a..<a + n])), i_kill = (\<lambda>p t. (True, p))\<rparr>"

lemma demo_laws: "inject_laws demo_ops fst (\<lambda>p t. fst (snd p))"
  by (simp add: inject_laws_def demo_ops_def split_beta)

definition demo_regs :: bytes where
  "demo_regs = replicate 216 5"

lemma length_demo_regs [simp]: "length demo_regs = 216"
  by (simp add: demo_regs_def)

definition demo_dumper :: "demo_process CoreDumper" where
  "demo_dumper = \<lparr>attached_threads = [7], forked_pid = None, fork_state = None, target = (\<lambda>x. 0x90, demo_regs, 0)\<rparr>"

theorem fork_leaves_process_intact_witness:
  "\<exists>s'. do_the_fork_nonsense demo_ops 2 [demo_map\<lparr>m_perms := 5\<rparr>] demo_dumper = Some (Ok (), s')
     \<and> forked_pid s' = Some 99 \<and> fst (target s') = (\<lambda>x. 0x90) \<and> fst (snd (target s')) = demo_regs"
proof -
  have "injection_addr [demo_map\<lparr>m_perms := 5\<rparr>] = 4" by (simp add: injection_addr_def demo_map_def has_perm_def EXECUTE_def READ_def)
  note a = this
  let ?m = "[demo_map\<lparr>m_perms := 5\<rparr>]" and ?rs = "map (\<lambda>i. \<lparr>rs_id = i, rs_data = demo_regs\<rparr>) [1, 2, 0x202]"
  define st where "st = \<lparr>fi_tid = hd (attached_threads demo_dumper), fi_addr = injection_addr ?m, fi_original_code = from_le_bytes (map (\<lambda>x. 0x90) [4..<12::nat]), fi_regsets = ?rs\<rparr>"
  obtain k m where d: "restore_state_after_fork demo_ops st True (target demo_dumper) = (k, m)" by (rule prod.exhaust)
  have k: k and m: "snd (snd m) = 0" using d by (auto simp: restore_state_after_fork_def st_def demo_ops_def demo_dumper_def)
  have c: "collect (map (read_regset demo_ops (target demo_dumper) (hd (attached_threads demo_dumper))) [1, 2, 0x202]) = Ok ?rs"
    by (simp add: read_regset_def demo_ops_def demo_dumper_def)
  have r: "i_read demo_ops (target demo_dumper) (injection_addr ?m) 8 = Ok (map (\<lambda>x. 0x90) [4..<12::nat])"
    unfolding a by (simp add: demo_ops_def demo_dumper_def)
  have ne: "attached_threads demo_dumper \<noteq> []" "injection_addr ?m \<noteq> 2 ^ 64 - 1" by (simp add: demo_dumper_def, simp add: a)
  have i: "\<exists>s1. inject_fork demo_ops 2 t b w rg s = Some (Ok (), s1) \<and> forked_pid s1 = Some 99" if "snd (snd (target s)) = 0" for t b w rg s
    using that by (cases "target s") (simp add: inject_fork_def demo_ops_def numeral_2_eq_2)
  have j: "fst (restore_state_after_fork demo_ops st False q)" for q
    by (cases q) (simp add: restore_state_after_fork_def st_def demo_ops_def)
  obtain s1 where s1: "inject_fork demo_ops 2 (hd (attached_threads demo_dumper)) (injection_addr ?m) code_to_inject
      (hijacked_regs (injection_addr ?m) (rs_data (hd ?rs))) (demo_dumper\<lparr>target := m, fork_state := Some st\<rparr>) = Some (Ok (), s1)" "forked_pid s1 = Some 99"
    using i [of "demo_dumper\<lparr>target := m, fork_state := Some st\<rparr>" "hd (attached_threads demo_dumper)" "injection_addr ?m" code_to_inject
      "hijacked_regs (injection_addr ?m) (rs_data (hd ?rs))"] m by auto
  have "\<exists>s'. do_the_fork_nonsense demo_ops 2 ?m demo_dumper = Some (Ok (), s') \<and> forked_pid s' = Some 99"
    unfolding run_injection [OF ne(1) c r ne(2) d k st_def] s1(1) using j [of "target s1"] s1(2) by (auto simp: after_injection_def Let_def split_beta)
  then obtain s' where s': "do_the_fork_nonsense demo_ops 2 ?m demo_dumper = Some (Ok (), s')" "forked_pid s' = Some 99" by blast
  have "fork_state demo_dumper = None" by (simp add: demo_dumper_def)
  from fork_leaves_process_intact [OF demo_laws s'(1) this] s' show ?thesis by (auto simp: demo_dumper_def)
qed

end
