(* ===== verification/ProcInfo.thy ===== *)
theory ProcInfo
  imports CoreWriter
begin

text \<open>
  What \<open>/proc\<close> says of the process that is dumped (\<open>parse_proc_stat\<close> and \<open>parse_cmdline\<close> of
  \<open>src/core_dumper.rs\<close>): the information for one of the notes. A file that cannot be parsed is
  not an error of the dump; what was read before stays in the note. The files are parameters: the
  contents of one, and what each read of the other gives.
\<close>

record elf_prpsinfo =
  pr_state :: u8
  pr_sname :: u8
  pr_zomb :: u8
  pr_nice :: u8
  pr_pid :: u32
  pr_ppid :: u32
  pr_pgrp :: u32
  pr_sid :: u32
  pr_fname :: bytes
  pr_psargs :: bytes

text \<open>The struct as it lies in memory: padding after the first four bytes, and the flags and the user and group, which stay zero.\<close>

definition prpsinfo_bytes :: "elf_prpsinfo \<Rightarrow> bytes" where
  "prpsinfo_bytes p = [pr_state p, pr_sname p, pr_zomb p, pr_nice p] @ replicate 4 0 @ replicate 8 0 @ replicate 8 0
     @ to_le_bytes 4 (pr_pid p) @ to_le_bytes 4 (pr_ppid p) @ to_le_bytes 4 (pr_pgrp p) @ to_le_bytes 4 (pr_sid p) @ pr_fname p @ pr_psargs p"

section \<open>Standard library\<close>

definition position :: "u8 \<Rightarrow> bytes \<Rightarrow> nat option" where
  "position c s = (if c \<in> set s then Some (length (takeWhile (\<lambda>x. x \<noteq> c) s)) else None)"

definition rposition :: "u8 \<Rightarrow> bytes \<Rightarrow> nat option" where
  "rposition c s = (if c \<in> set s then Some (length s - 1 - length (takeWhile (\<lambda>x. x \<noteq> c) (rev s))) else None)"

text \<open>\<open>split_whitespace\<close>, on the bytes of valid UTF-8.\<close>

fun until_space :: "bytes \<Rightarrow> bytes" where
  "until_space [] = []"
| "until_space (c # cs) = (if ws_len (c # cs) \<noteq> 0 then [] else c # until_space cs)"

lemma length_trim_start: "length (trim_start s) \<le> length s"
proof (induction s rule: trim_start.induct)
  case (1 s)
  then show ?case by (subst trim_start.simps) auto
qed

lemma trim_start_head: "trim_start s \<noteq> [] \<Longrightarrow> ws_len (trim_start s) = 0"
proof (induction s rule: trim_start.induct)
  case (1 s)
  then show ?case by (subst (asm) (2) trim_start.simps, subst trim_start.simps) (auto split: if_splits)
qed

lemma until_space_pos: "s \<noteq> [] \<Longrightarrow> ws_len s = 0 \<Longrightarrow> until_space s \<noteq> []"
  by (cases s) auto

function split_whitespace :: "bytes \<Rightarrow> bytes list" where
  "split_whitespace s = (let t = trim_start s in if t = [] then []
     else until_space t # split_whitespace (drop (length (until_space t)) t))"
  by pat_completeness auto
termination
proof (relation "measure length")
  fix s t :: bytes assume t: "t = trim_start s" "t \<noteq> []"
  then have "until_space t \<noteq> []" using trim_start_head until_space_pos by simp
  moreover have "length t \<le> length s" using length_trim_start t(1) by simp
  ultimately show "(drop (length (until_space t)) t, s) \<in> measure length" using t(2) by simp (metis diff_less length_greater_0_conv less_le_trans)
qed simp

declare split_whitespace.simps [simp del]

text \<open>\<open>parse\<close> to a signed integer of \<open>n\<close> bits.\<close>

definition parse_signed :: "nat \<Rightarrow> bytes \<Rightarrow> int option" where
  "parse_signed n s = (case s of
      [] \<Rightarrow> None
    | c # cs \<Rightarrow>
        (let v = (if c = 0x2D \<and> cs \<noteq> [] then map_option (\<lambda>k. - int k) (digits10 0 cs)
                  else if c = 0x2B \<and> cs \<noteq> [] then map_option int (digits10 0 cs)
                  else map_option int (digits10 0 s))
         in case v of None \<Rightarrow> None | Some k \<Rightarrow> if - (2 ^ (n - 1)) \<le> k \<and> k < 2 ^ (n - 1) then Some k else None))"

section \<open>The status of the process\<close>

fun stat_fields :: "nat \<Rightarrow> bytes list \<Rightarrow> elf_prpsinfo \<Rightarrow> unit eres \<times> elf_prpsinfo" where
  "stat_fields i [] p = (Ok (), p)"
| "stat_fields i (tok # toks) p =
     (if i = 0 then
        (let state = hd tok in stat_fields 1 toks (p\<lparr>pr_state := state, pr_sname := state, pr_zomb := if state = 0x5A then 1 else 0\<rparr>))
      else if i = 1 then (case parse_signed 32 tok of None \<Rightarrow> (Err Format, p) | Some v \<Rightarrow> stat_fields 2 toks (p\<lparr>pr_ppid := word_of_int v\<rparr>))
      else if i = 2 then (case parse_signed 32 tok of None \<Rightarrow> (Err Format, p) | Some v \<Rightarrow> stat_fields 3 toks (p\<lparr>pr_pgrp := word_of_int v\<rparr>))
      else if i = 3 then (case parse_signed 32 tok of None \<Rightarrow> (Err Format, p) | Some v \<Rightarrow> stat_fields 4 toks (p\<lparr>pr_sid := word_of_int v\<rparr>))
      else if i = 16 then (case parse_signed 8 tok of None \<Rightarrow> (Err Format, p) | Some v \<Rightarrow> stat_fields 17 toks (p\<lparr>pr_nice := word_of_int v\<rparr>))
      else stat_fields (Suc i) toks p)"

definition parse_proc_stat :: "bytes eres \<Rightarrow> elf_prpsinfo \<Rightarrow> unit eres \<times> elf_prpsinfo" where
  "parse_proc_stat f p = (case f of
      Panic \<Rightarrow> (Panic, p)
    | Err e \<Rightarrow> (Err e, p)
    | Ok s \<Rightarrow> (case rposition 0x29 s of None \<Rightarrow> (Err Internal, p) | Some name_end \<Rightarrow>
        (case position 0x28 (take name_end s) of None \<Rightarrow> (Err Internal, p) | Some name_start \<Rightarrow>
          if \<not> is_utf8 (drop (name_end + 1) s) then (Err Format, p)
          else (case stat_fields 0 (split_whitespace (drop (name_end + 1) s)) p of
              (Ok _, p) \<Rightarrow>
                (let name = take 15 (drop (name_start + 1) (take name_end s))
                 in (Ok (), p\<lparr>pr_fname := name @ drop (length name) (pr_fname p)\<rparr>))
            | r \<Rightarrow> r))))"

section \<open>The arguments\<close>

datatype read_result = ReadOk bytes | ReadInterrupted | ReadErr

text \<open>The bytes read so far, at most 80; a read of nothing is the end of the file.\<close>

fun cmdline_loop :: "read_result list \<Rightarrow> bytes \<Rightarrow> unit eres \<times> bytes" where
  "cmdline_loop [] buf = (Ok (), buf)"
| "cmdline_loop (r # rs) buf = (if length buf < 80 then (case r of
      ReadOk b \<Rightarrow> if b = [] then (Ok (), buf) else cmdline_loop rs (buf @ take (80 - length buf) b)
    | ReadInterrupted \<Rightarrow> cmdline_loop rs buf
    | ReadErr \<Rightarrow> (Err IO, buf)) else (Ok (), buf))"

definition parse_cmdline :: "read_result list eres \<Rightarrow> elf_prpsinfo \<Rightarrow> unit eres \<times> elf_prpsinfo" where
  "parse_cmdline f p = (case f of
      Panic \<Rightarrow> (Panic, p)
    | Err e \<Rightarrow> (Err e, p)
    | Ok rs \<Rightarrow> (let (r, buf) = cmdline_loop rs []; pos = length buf; args = buf @ drop pos (pr_psargs p) in
        if r \<noteq> Ok () then (r, p\<lparr>pr_psargs := args\<rparr>)
        else if pos > length (pr_psargs p) then (Panic, p)
        else (let args = args[length args - 1 := 0];
                  args = map (\<lambda>c. if c = 0 then 0x20 else c) (take (pos - 1) args) @ drop (pos - 1) args
              in (Ok (), p\<lparr>pr_psargs := args\<rparr>))))"

text \<open>Both together, as the notes are prepared: errors are only reported.\<close>

definition process_info :: "u32 \<Rightarrow> bytes eres \<Rightarrow> read_result list eres \<Rightarrow> elf_prpsinfo" where
  "process_info pid stat cmdline =
     (let p = \<lparr>pr_state = 0, pr_sname = 0, pr_zomb = 0, pr_nice = 0, pr_pid = pid, pr_ppid = 0, pr_pgrp = 0, pr_sid = 0,
            pr_fname = replicate 16 0, pr_psargs = replicate 80 0\<rparr>
      in snd (parse_cmdline cmdline (snd (parse_proc_stat stat p))))"

section \<open>Correctness\<close>

text \<open>The struct always has the size that the note gives it.\<close>

definition info_ok :: "elf_prpsinfo \<Rightarrow> bool" where
  "info_ok p \<longleftrightarrow> length (pr_fname p) = 16 \<and> length (pr_psargs p) = 80"

lemma stat_fields_ok: "info_ok (snd (stat_fields i ts p)) = info_ok p" "pr_fname (snd (stat_fields i ts p)) = pr_fname p"
  by (induction i ts p rule: stat_fields.induct) (auto simp: info_ok_def Let_def split: option.splits)

lemma stat_fields_no_panic: "fst (stat_fields i ts p) \<noteq> Panic"
  by (induction i ts p rule: stat_fields.induct) (auto simp: Let_def split: option.splits)

lemma parse_proc_stat_ok:
  assumes "info_ok p"
  shows "info_ok (snd (parse_proc_stat f p)) \<and> (f \<noteq> Panic \<longrightarrow> fst (parse_proc_stat f p) \<noteq> Panic)"
proof -
  have "info_ok (snd (stat_fields 0 ts p)) \<and> fst (stat_fields 0 ts p) \<noteq> Panic" for ts
    using assms stat_fields_ok(1) stat_fields_no_panic by blast
  then have s: "q \<noteq> Panic \<and> info_ok p'" if "stat_fields 0 ts p = (q, p')" for ts q p' using that by (metis fst_conv snd_conv)
  show ?thesis using assms
    by (auto simp: parse_proc_stat_def Let_def split: result.splits option.splits prod.splits dest!: s) (auto simp: info_ok_def)
qed

text \<open>However the file comes in pieces, the loop reads its first 80 bytes.\<close>

fun file_of :: "read_result list \<Rightarrow> bytes" where
  "file_of [] = []"
| "file_of (ReadOk b # rs) = (if b = [] then [] else b @ file_of rs)"
| "file_of (ReadInterrupted # rs) = file_of rs"
| "file_of (ReadErr # rs) = []"

lemma cmdline_loop_bound: "length buf \<le> 80 \<Longrightarrow> length (snd (cmdline_loop rs buf)) \<le> 80"
  by (induction rs buf rule: cmdline_loop.induct) (auto split: read_result.splits)

lemma cmdline_loop_reads:
  "length buf \<le> 80 \<Longrightarrow> ReadErr \<notin> set rs \<Longrightarrow> cmdline_loop rs buf = (Ok (), take 80 (buf @ file_of rs))"
proof (induction rs buf rule: cmdline_loop.induct)
  case (2 r rs buf)
  show ?case
  proof (cases "length buf < 80")
    case True
    have "80 - (length buf + min (length x) (80 - length buf)) = 80 - (length buf + length x)" for x :: bytes by linarith
    with True show ?thesis using 2 by (cases r) (simp_all add: min.commute)
  qed (use 2 in auto)
qed simp

text \<open>The arguments as the note shows them: separated by spaces, cut off after 79 bytes.\<close>

definition shown_args :: "bytes \<Rightarrow> bytes" where
  "shown_args f = (let n = min 80 (length f) in map (\<lambda>c. if c = 0 then 0x20 else c) (take (n - 1) f) @ (if n = 0 \<or> n = 80 then [] else [f ! (n - 1)])
     @ replicate (if n = 80 then 1 else 80 - n) 0)"

lemma parse_cmdline_shows:
  assumes "ReadErr \<notin> set rs" "pr_psargs p = replicate 80 0"
  shows "parse_cmdline (Ok rs) p = (Ok (), p\<lparr>pr_psargs := shown_args (file_of rs)\<rparr>)"
proof -
  define f where "f = take 80 (file_of rs)"
  let ?sp = "\<lambda>c :: u8. if c = 0 then 0x20 else c"
  have l: "cmdline_loop rs [] = (Ok (), f)" using cmdline_loop_reads [of "[]" rs] assms(1) by (simp add: f_def)
  have n: "length f = min 80 (length (file_of rs))" by (simp add: f_def min.commute)
  have tk: "take (length f - 1) (file_of rs) = take (length f - 1) f"
    by (auto simp: f_def min_def)
  consider "f = []" | "f \<noteq> []" "length f = 80" | "f \<noteq> []" "length f < 80" using n by force
  then have "map ?sp (take (length f - 1) ((f @ replicate (80 - length f) 0)[79 := 0])) @ drop (length f - 1) ((f @ replicate (80 - length f) 0)[79 := 0])
      = shown_args (file_of rs)"
  proof cases
    case 1
    have "(replicate 80 (0 :: u8))[79 := 0] = replicate 80 0" by (rule nth_equalityI) (simp_all add: nth_list_update)
    moreover have "file_of rs = []" using 1 by (simp add: f_def)
    ultimately show ?thesis using 1 by (simp add: shown_args_def)
  next
    case 2
    then have "f[79 := 0] = take 79 f @ [0]" by (simp add: list_update_beyond upd_conv_take_nth_drop)
    then show ?thesis using 2 n tk by (simp add: shown_args_def Let_def)
  next
    case 3
    have "(f @ replicate (80 - length f) (0 :: u8))[79 := 0] = f @ replicate (80 - length f) 0"
      using 3 by (intro nth_equalityI) (auto simp: nth_list_update nth_append)
    moreover have "drop (length f - 1) f = [f ! (length f - 1)]"
      using 3 by (metis Cons_nth_drop_Suc One_nat_def Suc_pred diff_less drop_all le_refl length_greater_0_conv zero_less_one)
    moreover have "file_of rs = f" using 3 n by (simp add: f_def)
    ultimately show ?thesis using 3 by (simp add: shown_args_def Let_def)
  qed
  then show ?thesis using assms(2) n by (simp add: parse_cmdline_def l)
qed

lemma process_info_ok: "info_ok (process_info pid stat cmdline)"
proof -
  have "info_ok (snd (parse_cmdline c p))" if p: "info_ok p" for c p
  proof (cases c)
    case (Ok rs)
    obtain r buf where l: "cmdline_loop rs [] = (r, buf)" by (rule prod.exhaust)
    then have "length buf \<le> 80" using cmdline_loop_bound [of "[]" rs] by simp
    then show ?thesis using p Ok l by (auto simp: parse_cmdline_def info_ok_def Let_def)
  qed (use p in \<open>simp_all add: parse_cmdline_def\<close>)
  then show ?thesis unfolding process_info_def Let_def using parse_proc_stat_ok by (simp add: info_ok_def)
qed

text \<open>So the note always has the 136 bytes of the struct.\<close>

lemma length_prpsinfo: "length (prpsinfo_bytes (process_info pid stat cmdline)) = 136"
  using process_info_ok [of pid stat cmdline] by (simp add: prpsinfo_bytes_def info_ok_def)

text \<open>
  A line of \<open>/proc/<pid>/stat\<close> is taken apart correctly whatever the name of the program is, also when
  it has spaces, parentheses or bytes that are not text.
\<close>

definition plain_word :: "bytes \<Rightarrow> bool" where
  "plain_word w \<longleftrightarrow> w \<noteq> [] \<and> (\<forall>c\<in>set w. 33 \<le> c \<and> c < 128 \<and> c \<noteq> 0x29)"

definition stat_line :: "bytes \<Rightarrow> bytes \<Rightarrow> bytes list \<Rightarrow> bytes" where
  "stat_line pid name ws = pid @ [0x28] @ name @ [0x29] @ concat (map (Cons 0x20) ws) @ [0x0A]"

lemma until_space_word: "\<forall>c\<in>set w. 33 \<le> c \<and> c < 128 \<Longrightarrow> ws_len (c # r) \<noteq> 0 \<Longrightarrow> until_space (w @ c # r) = w"
  by (induction w) (simp_all add: ws_len_ascii)

lemma split_whitespace_words:
  "\<forall>w\<in>set ws. plain_word w \<Longrightarrow> split_whitespace (concat (map (Cons 0x20) ws) @ [0x0A]) = ws"
proof (induction ws)
  case Nil
  have "trim_start [0x0A] = []" by (simp add: trim_start.simps ws_len_def)
  then show ?case by (simp add: split_whitespace.simps)
next
  case (Cons w ws)
  let ?r = "concat (map (Cons 0x20) ws) @ [0x0A]"
  have w: "w \<noteq> []" "\<forall>c\<in>set w. 33 \<le> c \<and> c < 128" using Cons.prems by (auto simp: plain_word_def)
  obtain c r where r: "?r = c # r" "c = 0x20 \<or> c = 0x0A" by (cases ws) auto
  then have "ws_len (c # r) \<noteq> 0" by (auto simp: ws_len_def)
  then have u: "until_space (w @ ?r) = w" using until_space_word w(2) unfolding r(1) by blast
  have "trim_start (w @ ?r) = w @ ?r" using w by (subst trim_start.simps) (cases w, auto simp: ws_len_ascii)
  then have "trim_start (0x20 # w @ ?r) = w @ ?r" by (simp add: trim_start_space)
  then show ?case using Cons u w(1) by (subst split_whitespace.simps) (simp add: Let_def)
qed

lemma takeWhile_neq: "c \<notin> set a \<Longrightarrow> takeWhile (\<lambda>x. x \<noteq> c) (a @ c # b) = a"
  by (induction a) auto

lemma stat_line_read:
  assumes "0x28 \<notin> set pid" "\<forall>w\<in>set ws. plain_word w"
  shows "parse_proc_stat (Ok (stat_line pid name ws)) p = (case stat_fields 0 ws p of
      (Ok _, p) \<Rightarrow> (Ok (), p\<lparr>pr_fname := take 15 name @ drop (length (take 15 name)) (pr_fname p)\<rparr>)
    | r \<Rightarrow> r)"
proof -
  let ?t = "concat (map (Cons 0x20) ws) @ [0x0A]"
  have w: "c \<noteq> 0x29 \<and> c < 128" if "w \<in> set ws" "c \<in> set w" for w c using assms(2) that unfolding plain_word_def by blast
  then have t: "0x29 \<notin> set ?t" "ascii ?t" unfolding ascii_def by auto
  have "takeWhile (\<lambda>x. x \<noteq> 0x29) (rev ?t @ 0x29 # rev (pid @ [0x28] @ name)) = rev ?t"
    by (rule takeWhile_neq) (use t(1) in simp)
  then have e: "rposition 0x29 (stat_line pid name ws) = Some (length (pid @ [0x28] @ name))"
    by (simp add: rposition_def stat_line_def)
  have tk: "take (length (pid @ [0x28] @ name)) (stat_line pid name ws) = pid @ [0x28] @ name" "drop (length (pid @ [0x28] @ name) + 1) (stat_line pid name ws) = ?t"
    by (simp_all add: stat_line_def)
  have "takeWhile (\<lambda>x. x \<noteq> 0x28) (pid @ [0x28] @ name) = pid" using takeWhile_neq [OF assms(1)] by simp
  then have s: "position 0x28 (pid @ [0x28] @ name) = Some (length pid)" by (simp add: position_def)
  show ?thesis
    unfolding parse_proc_stat_def result.case e option.case tk s
    using is_utf8_ascii [OF t(2)] split_whitespace_words [OF assms(2)] by (simp add: Let_def split: prod.split result.split)
qed

end
