(* ===== verification/CoreAttach.thy ===== *)
theory CoreAttach
  imports ForkInject ProcInfo
begin

text \<open>
  The core dump tool from start to end (\<open>src/core_dumper.rs\<close>): attaching to all threads of the process
  and stopping them, what \<open>/proc\<close> says of the process, the order of the steps in each mode, and
  what is undone in the end. System calls are operations on the process \<open>'m\<close>; the loop that waits
  for threads has fuel, as another thread's events may keep it going.
\<close>

section \<open>Stopping the threads\<close>

text \<open>Errors of the system calls that the code tells apart.\<close>

datatype sys_error = NoSuchFile | PermissionDenied | OtherError

datatype wait_status = Gone | EventStop | SignalStop nat | UnknownStatus

datatype wait_any = AnyFailed | AnyInterrupted | Event nat wait_status

record 'm attach_ops =
  a_list :: "'m \<Rightarrow> (sys_error + nat list) \<times> 'm"
  a_seize :: "'m \<Rightarrow> nat \<Rightarrow> bool \<Rightarrow> (sys_error + unit) \<times> 'm"
  a_interrupt :: "'m \<Rightarrow> nat \<Rightarrow> bool \<times> 'm"
  a_cont :: "'m \<Rightarrow> nat \<Rightarrow> nat \<Rightarrow> bool \<times> 'm"
  a_wait :: "'m \<Rightarrow> wait_any \<times> 'm"
  a_detach :: "'m \<Rightarrow> nat \<Rightarrow> bool \<times> 'm"

text \<open>The threads that were not seen before, which become seen.\<close>

fun new_threads :: "nat list \<Rightarrow> nat list \<Rightarrow> nat list" where
  "new_threads seen [] = []"
| "new_threads seen (t # ts) = (if t \<in> set seen then new_threads seen ts else t # new_threads (t # seen) ts)"

fun seize_all :: "'m attach_ops \<Rightarrow> bool \<Rightarrow> nat list \<Rightarrow> nat list \<Rightarrow> 'm CoreDumper \<Rightarrow> nat list eres \<times> 'm CoreDumper" where
  "seize_all tg fork [] running s = (Ok running, s)"
| "seize_all tg fork (tid # tids) running s = (let (r, m) = a_seize tg (target s) tid fork; s = s\<lparr>target := m\<rparr> in case r of
      Inl PermissionDenied \<Rightarrow> (Err Usage, s)
    | Inl _ \<Rightarrow> (Err IO, s)
    | Inr _ \<Rightarrow>
        (let s = s\<lparr>attached_threads := attached_threads s @ [tid]\<rparr>; (ok, m) = a_interrupt tg (target s) tid; s = s\<lparr>target := m\<rparr> in
         if ok then seize_all tg fork tids (tid # running) s else (Err IO, s)))"

text \<open>A stop that is not the requested one is passed on and the request repeated, at most 30 times in all.\<close>

fun wait_stops :: "'m attach_ops \<Rightarrow> nat \<Rightarrow> nat list \<Rightarrow> nat \<Rightarrow> 'm CoreDumper \<Rightarrow> (nat eres \<times> 'm CoreDumper) option" where
  "wait_stops tg fuel [] races s = Some (Ok races, s)"
| "wait_stops tg 0 (t # ts) races s = None"
| "wait_stops tg (Suc fuel) (t # ts) races s = (let running = t # ts; (w, m) = a_wait tg (target s); s = s\<lparr>target := m\<rparr> in case w of
      AnyInterrupted \<Rightarrow> wait_stops tg fuel running races s
    | AnyFailed \<Rightarrow> Some (Err IO, s)
    | Event tid st \<Rightarrow>
        if tid \<notin> set running then wait_stops tg fuel running races s
        else (case st of
            Gone \<Rightarrow> wait_stops tg fuel (removeAll tid running) races (s\<lparr>attached_threads := removeAll tid (attached_threads s)\<rparr>)
          | EventStop \<Rightarrow> wait_stops tg fuel (removeAll tid running) races s
          | SignalStop sig \<Rightarrow>
              if races + 1 > 30 then Some (Err Sanity, s)
              else (let (ok, m) = a_cont tg (target s) tid sig; s = s\<lparr>target := m\<rparr> in
                if \<not> ok then Some (Err IO, s)
                else (let (ok, m) = a_interrupt tg (target s) tid; s = s\<lparr>target := m\<rparr> in
                  if \<not> ok then Some (Err IO, s) else wait_stops tg fuel running (races + 1) s))
          | UnknownStatus \<Rightarrow> Some (Err Internal, s)))"

text \<open>Threads are listed again until there is no new one; \<open>k\<close> rounds are left.\<close>

fun attach_rounds :: "'m attach_ops \<Rightarrow> nat \<Rightarrow> bool \<Rightarrow> nat \<Rightarrow> nat list \<Rightarrow> nat \<Rightarrow> 'm CoreDumper \<Rightarrow> (unit eres \<times> 'm CoreDumper) option" where
  "attach_rounds tg fuel fork 0 seen races s = Some (Err Sanity, s)"
| "attach_rounds tg fuel fork (Suc k) seen races s = (let (r, m) = a_list tg (target s); s = s\<lparr>target := m\<rparr> in case r of
      Inl NoSuchFile \<Rightarrow> Some (Err ProcessState, s)
    | Inl _ \<Rightarrow> Some (Err IO, s)
    | Inr threads \<Rightarrow>
        (let added = new_threads seen threads in
         if added = [] then Some (Ok (), s)
         else (case seize_all tg fork added [] s of
             (Panic, s) \<Rightarrow> Some (Panic, s)
           | (Err e, s) \<Rightarrow> Some (Err e, s)
           | (Ok running, s) \<Rightarrow> (case wait_stops tg fuel running races s of
                 None \<Rightarrow> None
               | Some (Panic, s) \<Rightarrow> Some (Panic, s)
               | Some (Err e, s) \<Rightarrow> Some (Err e, s)
               | Some (Ok races, s) \<Rightarrow> attach_rounds tg fuel fork k (added @ seen) races s))))"

definition attach :: "'m attach_ops \<Rightarrow> nat \<Rightarrow> bool \<Rightarrow> 'm CoreDumper \<Rightarrow> (unit eres \<times> 'm CoreDumper) option" where
  "attach tg fuel fork s = (case attach_rounds tg fuel fork 31 [] 0 s of
      Some (Ok _, s) \<Rightarrow> if attached_threads s = [] then Some (Err Sanity, s) else Some (Ok (), s)
    | r \<Rightarrow> r)"

fun detach_all :: "'m attach_ops \<Rightarrow> nat list \<Rightarrow> 'm \<Rightarrow> 'm" where
  "detach_all tg [] m = m"
| "detach_all tg (t # ts) m = detach_all tg ts (snd (a_detach tg m t))"

definition detach_ptrace :: "'m attach_ops \<Rightarrow> 'm CoreDumper \<Rightarrow> 'm CoreDumper" where
  "detach_ptrace tg s = s\<lparr>attached_threads := [], target := detach_all tg (attached_threads s) (target s)\<rparr>"

section \<open>All threads are stopped\<close>

text \<open>
  \<open>threads\<close> are the threads of the process, some of which may have ended, and \<open>stopped\<close> those that the
  tracer has stopped. A call lets the threads be that it is not about: an ended thread stays so,
  and a stopped one stays stopped unless it ends.
\<close>

definition lets_be :: "('m \<Rightarrow> nat \<Rightarrow> bool) \<Rightarrow> ('m \<Rightarrow> nat \<Rightarrow> bool) \<Rightarrow> 'm \<Rightarrow> 'm \<Rightarrow> nat \<Rightarrow> bool" where
  "lets_be stopped ended m m' t \<longleftrightarrow> (ended m t \<longrightarrow> ended m' t) \<and> (stopped m t \<longrightarrow> stopped m' t \<or> ended m' t)"

definition attach_laws :: "'m attach_ops \<Rightarrow> ('m \<Rightarrow> nat set) \<Rightarrow> ('m \<Rightarrow> nat \<Rightarrow> bool) \<Rightarrow> ('m \<Rightarrow> nat \<Rightarrow> bool) \<Rightarrow> bool" where
  "attach_laws tg threads stopped ended \<longleftrightarrow>
     (\<forall>m t. lets_be stopped ended m (snd (a_list tg m)) t)
     \<and> (\<forall>m u f t. lets_be stopped ended m (snd (a_seize tg m u f)) t)
     \<and> (\<forall>m u t. lets_be stopped ended m (snd (a_interrupt tg m u)) t)
     \<and> (\<forall>m u g t. t \<noteq> u \<longrightarrow> lets_be stopped ended m (snd (a_cont tg m u g)) t)
     \<and> (\<forall>m t. lets_be stopped ended m (snd (a_wait tg m)) t)
     \<and> (\<forall>m t. fst (a_wait tg m) = Event t Gone \<longrightarrow> ended (snd (a_wait tg m)) t)
     \<and> (\<forall>m t. fst (a_wait tg m) = Event t EventStop \<longrightarrow> stopped (snd (a_wait tg m)) t \<or> ended (snd (a_wait tg m)) t)
     \<and> (\<forall>m ts. fst (a_list tg m) = Inr ts \<longrightarrow> threads (snd (a_list tg m)) \<subseteq> set ts)"

text \<open>Every thread seen is still being waited for, has ended, or is attached and stopped.\<close>

definition attach_inv :: "('m \<Rightarrow> nat \<Rightarrow> bool) \<Rightarrow> ('m \<Rightarrow> nat \<Rightarrow> bool) \<Rightarrow> nat set \<Rightarrow> nat list \<Rightarrow> 'm CoreDumper \<Rightarrow> bool" where
  "attach_inv stopped ended seen running s \<longleftrightarrow>
     (\<forall>t\<in>seen. t \<notin> set running \<longrightarrow> ended (target s) t \<or> t \<in> set (attached_threads s) \<and> stopped (target s) t)
     \<and> set running \<subseteq> set (attached_threads s) \<and> distinct (attached_threads s) \<and> set (attached_threads s) \<subseteq> seen"

lemma new_threads_props: "set (new_threads seen ts) = set ts - set seen \<and> distinct (new_threads seen ts)"
  by (induction seen ts rule: new_threads.induct) auto

lemma attach_lawsD:
  assumes "attach_laws tg threads stopped ended"
  shows "a_list tg m = (r, m') \<Longrightarrow> lets_be stopped ended m m' t" "a_list tg m = (Inr ts, m') \<Longrightarrow> threads m' \<subseteq> set ts"
    "a_seize tg m u f = (q, m') \<Longrightarrow> lets_be stopped ended m m' t" "a_interrupt tg m u = (k, m') \<Longrightarrow> lets_be stopped ended m m' t"
    "a_cont tg m u g = (k, m') \<Longrightarrow> t \<noteq> u \<Longrightarrow> lets_be stopped ended m m' t" "a_wait tg m = (w, m') \<Longrightarrow> lets_be stopped ended m m' t"
    "a_wait tg m = (Event t Gone, m') \<Longrightarrow> ended m' t" "a_wait tg m = (Event t EventStop, m') \<Longrightarrow> stopped m' t \<or> ended m' t"
  using assms unfolding attach_laws_def by (metis fst_conv snd_conv)+

lemma attach_inv_step:
  assumes "attach_inv stopped ended seen running s" "\<forall>t. t \<notin> set running \<longrightarrow> lets_be stopped ended (target s) m t"
  shows "attach_inv stopped ended seen running (s\<lparr>target := m\<rparr>)"
  using assms by (fastforce simp: attach_inv_def lets_be_def)

lemma seize_all_inv:
  assumes laws: "attach_laws tg threads stopped ended"
    and "attach_inv stopped ended seen running s" "distinct tids" "set tids \<inter> seen = {}" "seize_all tg fork tids running s = (Ok running', s')"
  shows "attach_inv stopped ended (set tids \<union> seen) running' s'"
  using assms(2-)
proof (induction tids arbitrary: seen running s)
  case (Cons tid tids)
  obtain q m1 where 1: "a_seize tg (target s) tid fork = (q, m1)" by (rule prod.exhaust)
  obtain k m2 where 2: "a_interrupt tg m1 tid = (k, m2)" by (rule prod.exhaust)
  let ?s = "s\<lparr>attached_threads := attached_threads s @ [tid], target := m2\<rparr>"
  have rest: "seize_all tg fork tids (tid # running) ?s = (Ok running', s')"
    using Cons.prems(4) 1 2 by (auto simp: Let_def split: sum.splits sys_error.splits if_splits)
  have "attach_inv stopped ended seen running (s\<lparr>target := m1, target := m2\<rparr>)"
    by (rule attach_inv_step [OF attach_inv_step [OF Cons.prems(1)]]) (simp_all add: attach_lawsD(3) [OF laws 1] attach_lawsD(4) [OF laws 2])
  then have "attach_inv stopped ended (insert tid seen) (tid # running) ?s" using Cons.prems(3) by (auto simp: attach_inv_def)
  from Cons.IH [OF this _ _ rest] Cons.prems(2,3) show ?case by (simp add: insert_commute Un_insert_right)
qed simp

lemma wait_stops_inv:
  assumes laws: "attach_laws tg threads stopped ended"
    and "attach_inv stopped ended seen running s" "wait_stops tg fuel running races s = Some (Ok races', s')"
  shows "attach_inv stopped ended seen [] s'"
  using assms(2-)
proof (induction fuel arbitrary: running races s)
  case 0
  then show ?case by (cases running) auto
next
  case (Suc fuel)
  show ?case
  proof (cases running)
    case (Cons u us)
    obtain w m where w: "a_wait tg (target s) = (w, m)" by (rule prod.exhaust)
    let ?s = "s\<lparr>target := m\<rparr>"
    have inv: "attach_inv stopped ended seen running ?s" by (rule attach_inv_step [OF Suc.prems(1)]) (simp add: attach_lawsD(6) [OF laws w])
    show ?thesis
    proof (cases "\<exists>t st. w = Event t st \<and> t \<in> set running")
      case False
      then have "wait_stops tg fuel running races ?s = Some (Ok races', s')"
        using Suc.prems(2) w Cons by (cases w) (auto simp: Let_def)
      from Suc.IH [OF inv this] show ?thesis .
    next
      case True
      then obtain t st where t: "w = Event t st" "t \<in> set running" by blast
      show ?thesis
      proof (cases st)
        case Gone
        let ?s' = "s\<lparr>target := m, attached_threads := removeAll t (attached_threads s)\<rparr>"
        have "wait_stops tg fuel (removeAll t running) races ?s' = Some (Ok races', s')"
          using Suc.prems(2) w t Gone unfolding Cons by (auto simp: Let_def simp del: removeAll.simps)
        moreover have "attach_inv stopped ended seen (removeAll t running) ?s'"
          using inv attach_lawsD(7) [OF laws] w t Gone by (fastforce simp: attach_inv_def distinct_removeAll)
        ultimately show ?thesis using Suc.IH by blast
      next
        case EventStop
        have "wait_stops tg fuel (removeAll t running) races ?s = Some (Ok races', s')"
          using Suc.prems(2) w t EventStop unfolding Cons by (auto simp: Let_def simp del: removeAll.simps)
        moreover have "attach_inv stopped ended seen (removeAll t running) ?s"
          using inv attach_lawsD(8) [OF laws] w t EventStop by (fastforce simp: attach_inv_def)
        ultimately show ?thesis using Suc.IH by blast
      next
        case (SignalStop sig)
        obtain k m1 where 1: "a_cont tg m t sig = (k, m1)" by (rule prod.exhaust)
        obtain k2 m2 where 2: "a_interrupt tg m1 t = (k2, m2)" by (rule prod.exhaust)
        have "wait_stops tg fuel running (races + 1) (s\<lparr>target := m2\<rparr>) = Some (Ok races', s')"
          using Suc.prems(2) w t SignalStop Cons 1 2 by (auto simp: Let_def split: if_splits)
        moreover have "\<forall>u. u \<notin> set running \<longrightarrow> lets_be stopped ended m m1 u" using t(2) attach_lawsD(5) [OF laws 1] by metis
        then have "attach_inv stopped ended seen running (?s\<lparr>target := m1, target := m2\<rparr>)"
          by (intro attach_inv_step [OF attach_inv_step [OF inv]]) (simp_all add: attach_lawsD(4) [OF laws 2])
        ultimately show ?thesis using Suc.IH by simp
      qed (use Suc.prems(2) w t Cons in \<open>auto simp: Let_def simp del: removeAll.simps\<close>)
    qed
  qed (use Suc.prems in simp)
qed

lemma attach_rounds_inv:
  assumes laws: "attach_laws tg threads stopped ended"
    and "attach_inv stopped ended (set seen) [] s" "attach_rounds tg fuel fork k seen races s = Some (Ok (), s')"
  shows "\<exists>seen'. attach_inv stopped ended seen' [] s' \<and> threads (target s') \<subseteq> seen'"
  using assms(2-)
proof (induction k arbitrary: seen races s)
  case (Suc k)
  obtain r m where l: "a_list tg (target s) = (r, m)" by (rule prod.exhaust)
  then obtain ts where r: "r = Inr ts" using Suc.prems(2) by (cases r) (auto simp: Let_def split: sys_error.splits)
  let ?s = "s\<lparr>target := m\<rparr>" and ?new = "new_threads seen ts"
  have inv: "attach_inv stopped ended (set seen) [] ?s" by (rule attach_inv_step [OF Suc.prems(1)]) (simp add: attach_lawsD(1) [OF laws l])
  show ?case
  proof (cases "?new = []")
    case True
    then have "set ts \<subseteq> set seen" using new_threads_props [of seen ts] by auto
    moreover have "s' = ?s" using Suc.prems(2) l r True by simp
    ultimately show ?thesis using inv attach_lawsD(2) [OF laws] l r by fastforce
  next
    case False
    obtain q s1 where z: "seize_all tg fork ?new [] ?s = (q, s1)" by (rule prod.exhaust)
    then obtain running where q: "q = Ok running" using Suc.prems(2) l r False by (cases q) auto
    have i1: "attach_inv stopped ended (set (?new @ seen)) running s1"
      using seize_all_inv [OF laws inv _ _ z [unfolded q]] new_threads_props [of seen ts] by auto
    obtain races1 s2 where w: "wait_stops tg fuel running races s1 = Some (Ok races1, s2)"
      and n: "attach_rounds tg fuel fork k (?new @ seen) races1 s2 = Some (Ok (), s')"
      using Suc.prems(2) l r False z q by (auto split: option.splits result.splits)
    show ?thesis by (rule Suc.IH [OF wait_stops_inv [OF laws i1 w] n])
  qed
qed simp

text \<open>
  (C7) Attaching stops the whole process: when it succeeds, whatever signals and new threads came in
  between, each thread of the process is attached and stopped or has ended, no thread is
  attached twice, and there is one.
\<close>

theorem attach_stops_every_thread:
  assumes "attach_laws tg threads stopped ended" "attached_threads s = []" "attach tg fuel fork s = Some (Ok (), s')"
  shows "(\<forall>t\<in>threads (target s'). ended (target s') t \<or> t \<in> set (attached_threads s') \<and> stopped (target s') t)
    \<and> distinct (attached_threads s') \<and> attached_threads s' \<noteq> []"
proof -
  have "attach_rounds tg fuel fork 31 [] 0 s = Some (Ok (), s')" and ne: "attached_threads s' \<noteq> []"
    using assms(3) by (auto simp: attach_def split: option.splits result.splits if_splits)
  moreover have "attach_inv stopped ended (set []) [] s" using assms(2) by (simp add: attach_inv_def)
  ultimately obtain seen where "attach_inv stopped ended seen [] s'" "threads (target s') \<subseteq> seen"
    using attach_rounds_inv [OF assms(1)] by blast
  with ne show ?thesis by (auto simp: attach_inv_def)
qed

text \<open>A process with two threads, of which the second appears after the first listing; each stops when it is waited for. The state is the number of calls of \<open>waitpid\<close>.\<close>

definition demo_attach :: "nat attach_ops" where
  "demo_attach = \<lparr>a_list = (\<lambda>m. (Inr (if m = 0 then [7] else [7, 8]), m)), a_seize = (\<lambda>m t f. (Inr (), m)), a_interrupt = (\<lambda>m t. (True, m)),
     a_cont = (\<lambda>m t g. (True, m)), a_wait = (\<lambda>m. (Event (7 + m) EventStop, Suc m)), a_detach = (\<lambda>m t. (True, m))\<rparr>"

theorem attach_stops_every_thread_witness:
  "\<exists>s'. attach demo_attach 1 False \<lparr>attached_threads = [], forked_pid = None, fork_state = None, target = 0\<rparr> = Some (Ok (), s')
     \<and> attached_threads s' = [7, 8] \<and> 7 < 7 + target s' \<and> 8 < 7 + target s'"
proof -
  let ?s = "\<lparr>attached_threads = [], forked_pid = None, fork_state = None, target = 0 :: nat\<rparr>"
  have laws: "attach_laws demo_attach (\<lambda>m. {7 ..< 7 + (if m = 0 then 1 else 2)}) (\<lambda>m t. t < 7 + m) (\<lambda>m t. False)"
    by (auto simp: attach_laws_def lets_be_def demo_attach_def)
  obtain s' where s': "attach demo_attach 1 False ?s = Some (Ok (), s')" "attached_threads s' = [7, 8]" "target s' = 2"
    by (simp add: attach_def demo_attach_def numeral_eq_Suc Let_def)
  from attach_stops_every_thread [OF laws _ s'(1)] s'(2,3) show ?thesis using s'(1) by auto
qed

section \<open>The tool\<close>

datatype CoreDumperMode = Direct | Live | Fork

text \<open>The state of the tool is that of the dumper and of the output.\<close>

type_synonym ('m, 'a) tool = "'m CoreDumper \<times> Out \<Rightarrow> ('a eres \<times> 'm CoreDumper \<times> Out) option"

definition tbind :: "('m, 'a) tool \<Rightarrow> ('a \<Rightarrow> ('m, 'b) tool) \<Rightarrow> ('m, 'b) tool" where
  "tbind f k x = (case f x of
      None \<Rightarrow> None
    | Some (Ok a, y) \<Rightarrow> k a y
    | Some (Err e, y) \<Rightarrow> Some (Err e, y)
    | Some (Panic, y) \<Rightarrow> Some (Panic, y))"

definition on_dumper :: "('m CoreDumper \<Rightarrow> ('a eres \<times> 'm CoreDumper) option) \<Rightarrow> ('m, 'a) tool" where
  "on_dumper f x = (case f (fst x) of None \<Rightarrow> None | Some (r, s) \<Rightarrow> Some (r, s, snd x))"

definition on_out :: "('m CoreDumper \<Rightarrow> 'a out) \<Rightarrow> ('m, 'a) tool" where
  "on_out f x = (case f (fst x) (snd x) of None \<Rightarrow> None | Some (r, d) \<Rightarrow> Some (r, fst x, d))"

text \<open>What the tool knows and asks of the system, besides \<open>ptrace\<close>: the page size, the process, the maps, the sources of the notes and the memory of a process.\<close>

record 'm dump_env =
  de_attach :: "'m attach_ops"
  de_inject :: "'m inject_ops"
  de_page :: nat
  de_pid :: nat
  de_buffer_size :: nat
  de_maps :: "'m \<Rightarrow> MemMapInfo list eres"
  de_source :: "'m \<Rightarrow> note_source"
  de_reader :: "'m \<Rightarrow> nat \<Rightarrow> reader"

definition prepare_headers :: "'m dump_env \<Rightarrow> 'm CoreDumper \<Rightarrow> (MemMapInfo list \<times> bytes \<times> RangeToDump list) eres" where
  "prepare_headers env s = rbind (de_maps env (target s)) (\<lambda>maps.
     rbind (prepare_notes (de_source env (target s)) (de_page env) (de_pid env) (attached_threads s) maps) (\<lambda>notes.
       rbind (write_headers (de_page env) notes maps) (\<lambda>(hdr, rs). Ok (maps, hdr, rs))))"

text \<open>In \<open>Live\<close> mode the process goes on while it is dumped, in \<open>Fork\<close> mode a copy is dumped.\<close>

definition enter_mode :: "'m dump_env \<Rightarrow> nat \<Rightarrow> CoreDumperMode \<Rightarrow> MemMapInfo list \<Rightarrow> 'm CoreDumper \<Rightarrow> (unit eres \<times> 'm CoreDumper) option" where
  "enter_mode env fuel mode maps s = (case mode of
      Direct \<Rightarrow> Some (Ok (), s)
    | Live \<Rightarrow> Some (Ok (), detach_ptrace (de_attach env) s)
    | Fork \<Rightarrow> (case do_the_fork_nonsense (de_inject env) fuel maps s of
          None \<Rightarrow> None
        | Some (Ok _, s) \<Rightarrow> (let s = detach_ptrace (de_attach env) s in if forked_pid s = None then Some (Panic, s) else Some (Ok (), s))
        | Some (Err e, s) \<Rightarrow> Some (Err e, s)
        | Some (Panic, s) \<Rightarrow> Some (Panic, s)))"

definition dumped_pid :: "'m dump_env \<Rightarrow> 'm CoreDumper \<Rightarrow> nat" where
  "dumped_pid env s = (case forked_pid s of None \<Rightarrow> de_pid env | Some p \<Rightarrow> p)"

definition undo :: "'m dump_env \<Rightarrow> 'm CoreDumper \<Rightarrow> 'm CoreDumper" where
  "undo env s = detach_ptrace (de_attach env) (cleanup (de_inject env) s)"

definition try_dump :: "'m dump_env \<Rightarrow> nat \<Rightarrow> CoreDumperMode \<Rightarrow> ('m, unit) tool" where
  "try_dump env fuel mode =
     tbind (on_dumper (attach (de_attach env) fuel (mode = Fork))) (\<lambda>_.
     tbind (on_dumper (\<lambda>s. Some (prepare_headers env s, s))) (\<lambda>(maps, hdr, rs).
     tbind (on_out (\<lambda>_. flush_buf hdr)) (\<lambda>_.
     tbind (on_dumper (enter_mode env fuel mode maps)) (\<lambda>_.
     let bytes_total = sum_list (map rd_file_size rs) in
     tbind (on_out (\<lambda>s. dump_memory_ranges (min (de_buffer_size env) bytes_total) bytes_total (de_reader env (target s) (dumped_pid env s)) rs)) (\<lambda>buf.
     tbind (on_dumper (\<lambda>s. Some (Ok (), undo env s))) (\<lambda>_.
     on_out (\<lambda>_. flush_buf buf)))))))"

text \<open>An error and a panic both undo what is left to undo.\<close>

definition run_core_dumper_tool :: "'m dump_env \<Rightarrow> nat \<Rightarrow> CoreDumperMode \<Rightarrow> ('m, unit) tool" where
  "run_core_dumper_tool env fuel mode x = (case try_dump env fuel mode x of
      None \<Rightarrow> None
    | Some (r, s, d) \<Rightarrow> if r = Ok () then Some (r, s, d) else Some (r, undo env s, d))"

lemma undone: "attached_threads (undo env s) = []" "forked_pid (undo env s) = None" "fork_state (undo env s) = None"
  by (simp_all add: undo_def detach_ptrace_def cleanup_def Let_def split: option.split)

lemma tbind_Some: "tbind f k x = Some (Ok b, z) \<longleftrightarrow> (\<exists>a y. f x = Some (Ok a, y) \<and> k a y = Some (Ok b, z))"
  by (auto simp: tbind_def split: option.splits result.splits prod.splits)

lemma on_dumper_Some: "on_dumper f (s, d) = Some (r, y) \<longleftrightarrow> (\<exists>s'. f s = Some (r, s') \<and> y = (s', d))"
  by (auto simp: on_dumper_def split: option.splits)

lemma on_out_Some: "on_out f (s, d) = Some (r, y) \<longleftrightarrow> (\<exists>d'. f s d = Some (r, d') \<and> y = (s, d'))"
  by (auto simp: on_out_def split: option.splits)

lemmas tool_Some = tbind_Some on_dumper_Some on_out_Some

text \<open>However the tool ends, no thread stays attached and no copy alive.\<close>

lemma tool_undoes_all:
  assumes "run_core_dumper_tool env fuel mode (s, d) = Some (r, s', d')"
  shows "attached_threads s' = [] \<and> forked_pid s' = None \<and> fork_state s' = None"
proof (cases "r = Ok ()")
  case True
  with assms have "try_dump env fuel mode (s, d) = Some (Ok (), s', d')"
    by (auto simp: run_core_dumper_tool_def split: option.splits if_splits)
  then obtain s1 where "s' = undo env s1"
    by (auto simp: try_dump_def tool_Some Let_def)
  then show ?thesis by (simp add: undone)
next
  case False
  with assms obtain s1 where "s' = undo env s1" by (auto simp: run_core_dumper_tool_def split: option.splits if_splits)
  then show ?thesis by (simp add: undone)
qed

lemma obind_Some: "obind f k d = Some (Ok b, d') \<longleftrightarrow> (\<exists>a d1. f d = Some (Ok a, d1) \<and> k a d1 = Some (Ok b, d'))"
  by (auto simp: obind_def split: option.splits result.splits)

lemma tool_writes_dump:
  assumes "attach (de_attach env) fuel (mode = Fork) s = Some (Ok (), s1)" "de_maps env (target s1) = Ok maps"
    and "prepare_notes (de_source env (target s1)) (de_page env) (de_pid env) (attached_threads s1) maps = Ok notes"
    and "enter_mode env fuel mode maps s1 = Some (Ok (), s2)"
    and w: "write_dump (de_page env) (de_buffer_size env) (de_reader env (target s2) (dumped_pid env s2)) notes maps d = Some (Ok (), d')"
  shows "run_core_dumper_tool env fuel mode (s, d) = Some (Ok (), undo env s2, d')"
proof -
  obtain hdr rs d1 buf d2 where p: "write_headers (de_page env) notes maps = Ok (hdr, rs)" "flush_buf hdr d = Some (Ok (), d1)"
    "dump_memory_ranges (min (de_buffer_size env) (sum_list (map rd_file_size rs))) (sum_list (map rd_file_size rs))
       (de_reader env (target s2) (dumped_pid env s2)) rs d1 = Some (Ok buf, d2)" "flush_buf buf d2 = Some (Ok (), d')"
    using w by (auto simp: write_dump_def obind_Some olift_def Let_def)
  have "prepare_headers env s1 = Ok (maps, hdr, rs)" using assms(2,3) p(1) by (simp add: prepare_headers_def)
  then have "try_dump env fuel mode (s, d) = Some (Ok (), undo env s2, d')"
    using assms(1,4) p by (simp add: try_dump_def tbind_def on_dumper_def on_out_def Let_def)
  then show ?thesis by (simp add: run_core_dumper_tool_def)
qed


text \<open>The process with two threads from above, with one map, dumped directly.\<close>

definition demo_inject :: "nat inject_ops" where
  "demo_inject = \<lparr>i_getregset = (\<lambda>m t i. Err IO), i_setregset = (\<lambda>m t i d. (True, m)), i_poketext = (\<lambda>m t a w. (True, m)), i_cont = (\<lambda>m t. (True, m)),
     i_waitpid = (\<lambda>m t. (WaitFailed, m)), i_geteventmsg = (\<lambda>m t. Err IO), i_read = (\<lambda>m a n. Ok (replicate n 7)), i_kill = (\<lambda>m t. (True, m))\<rparr>"

definition demo_env :: "nat dump_env" where
  "demo_env = \<lparr>de_attach = demo_attach, de_inject = demo_inject, de_page = 4, de_pid = 7, de_buffer_size = 100, de_maps = (\<lambda>m. Ok [demo_map]),
     de_source = (\<lambda>m. demo_source), de_reader = (\<lambda>m p a n. Ok (replicate n 7))\<rparr>"

lemma demo_notes: "\<exists>nts. prepare_notes demo_source 4 7 [7, 8] [demo_map] = Ok nts \<and> length nts \<le> 400"
  by (simp add: prepare_notes_def demo_source_def add_prstatus_note_def add_regset_note_def add_thread_notes.simps files_buf_def file_backed_def demo_map_def
      add_note_def Let_def ByteIO.write_usize_def)


end
