(* ===== verification/Registers.thy ===== *)
theory Registers
  imports ElfOpen ProcMaps
begin

unbundle bit_operations_syntax

text \<open>
  Registers (\<open>src/registers.rs\<close>): the register file of a stack frame, where each register may be
  missing or a guess; the wide registers of a thread as ranges of 64-bit words; their names and
  numbers in debug information; and how they are read from the processor's XSAVE area. Where the
  processor puts the parts of that area (\<open>cpuid\<close>) is a parameter.
\<close>

section \<open>Register numbers and names\<close>

datatype RegisterIdx = Rax | Rdx | Rcx | Rbx | Rsi | Rdi | Rbp | Rsp | R8 | R9 | R10 | R11 | R12 | R13 | R14 | R15
  | Rip | Cs | Ss | Fs | Gs | FsBase | GsBase | Flags | OrigRax | Cfa | Ret

definition REGISTER_IDXS :: "RegisterIdx list" where
  "REGISTER_IDXS = [Rax, Rdx, Rcx, Rbx, Rsi, Rdi, Rbp, Rsp, R8, R9, R10, R11, R12, R13, R14, R15,
     Rip, Cs, Ss, Fs, Gs, FsBase, GsBase, Flags, OrigRax, Cfa, Ret]"

abbreviation "COUNT \<equiv> 27 :: nat"

fun idx :: "RegisterIdx \<Rightarrow> nat" where
  "idx Rax = 0" | "idx Rdx = 1" | "idx Rcx = 2" | "idx Rbx = 3" | "idx Rsi = 4" | "idx Rdi = 5" | "idx Rbp = 6" | "idx Rsp = 7"
| "idx R8 = 8" | "idx R9 = 9" | "idx R10 = 10" | "idx R11 = 11" | "idx R12 = 12" | "idx R13 = 13" | "idx R14 = 14" | "idx R15 = 15"
| "idx Rip = 16" | "idx Cs = 17" | "idx Ss = 18" | "idx Fs = 19" | "idx Gs = 20" | "idx FsBase = 21" | "idx GsBase = 22"
| "idx Flags = 23" | "idx OrigRax = 24" | "idx Cfa = 25" | "idx Ret = 26"

definition REGISTER_NAMES :: "bytes list" where
  "REGISTER_NAMES = map bytes_of [''rax'', ''rdx'', ''rcx'', ''rbx'', ''rsi'', ''rdi'', ''rbp'', ''rsp'', ''r8'', ''r9'', ''r10'', ''r11'',
     ''r12'', ''r13'', ''r14'', ''r15'', ''rip'', ''cs'', ''ss'', ''fs'', ''gs'', ''fs_base'', ''gs_base'', ''flags'', ''orig_rax'', ''cfa'', ''ret'']"

definition reg_name :: "RegisterIdx \<Rightarrow> bytes" where
  "reg_name r = REGISTER_NAMES ! idx r"

definition to_ascii_lowercase :: "u8 \<Rightarrow> u8" where
  "to_ascii_lowercase c = (if 0x41 \<le> c \<and> c \<le> 0x5A then c + 0x20 else c)"

definition eq_ignore_ascii_case :: "bytes \<Rightarrow> bytes \<Rightarrow> bool" where
  "eq_ignore_ascii_case a b \<longleftrightarrow> map to_ascii_lowercase a = map to_ascii_lowercase b"

definition parse_register :: "bytes \<Rightarrow> RegisterIdx option" where
  "parse_register s = map_option (\<lambda>i. REGISTER_IDXS ! i) (find (\<lambda>i. eq_ignore_ascii_case (REGISTER_NAMES ! i) s) [0..<COUNT])"

datatype Arch = X86_64 | AArch64 | Riscv64

definition from_dwarf_arch :: "Arch \<Rightarrow> nat \<Rightarrow> RegisterIdx option" where
  "from_dwarf_arch arch r = (case arch of
      X86_64 \<Rightarrow> if r \<le> 16 then Some (REGISTER_IDXS ! r) else map_of [(49, Flags), (51, Cs), (52, Ss), (54, Fs), (55, Gs), (58, FsBase), (59, GsBase)] r
    | AArch64 \<Rightarrow> map_of [(0, Rax), (1, Ret), (2, Rdx), (8, Rbp), (29, Rbp), (30, Ret), (31, Rsp), (32, Rip)] r
    | Riscv64 \<Rightarrow> map_of [(1, Ret), (2, Rsp), (8, Rbp), (10, Rax), (11, Rdx), (12, Rcx), (13, Rbx), (14, Rsi), (15, Rdi), (16, R8), (17, R9), (32, Rip)] r)"

section \<open>The register file\<close>

record Registers =
  ints :: "u64 list"
  mask :: u64
  dubious_mask :: u64

definition registers_default :: Registers where
  "registers_default = \<lparr>ints = replicate COUNT 0, mask = 0, dubious_mask = 0\<rparr>"

text \<open>\<open>user_regs_struct\<close>, as the function from the name of a field to its value.\<close>

definition from_ptrace :: "(RegisterIdx \<Rightarrow> u64) \<Rightarrow> Registers" where
  "from_ptrace s = \<lparr>ints = map s (take 25 REGISTER_IDXS) @ [0, 0], mask = push_bit (idx OrigRax + 1) 1 - 1, dubious_mask = 0\<rparr>"

definition from_context :: "u64 list \<Rightarrow> Registers" where
  "from_context r = \<lparr>ints = [r ! 13, r ! 12, r ! 14, r ! 11, r ! 9, r ! 8, r ! 10, r ! 15, r ! 0, r ! 1, r ! 2, r ! 3, r ! 4, r ! 5, r ! 6, r ! 7, r ! 16,
       r ! 18 AND 0xffff, drop_bit 48 (r ! 18), drop_bit 32 (r ! 18) AND 0xffff, drop_bit 16 (r ! 18) AND 0xffff, 0, 0, r ! 17, 0, 0, 0],
     mask = (push_bit (idx Flags + 1) 1 - 1) AND NOT (push_bit (idx FsBase) 1) AND NOT (push_bit (idx GsBase) 1), dubious_mask = 0\<rparr>"

definition set_reg :: "RegisterIdx \<Rightarrow> u64 \<Rightarrow> bool \<Rightarrow> Registers \<Rightarrow> Registers" where
  "set_reg reg v dubious s = s\<lparr>ints := (ints s)[idx reg := v], mask := mask s OR push_bit (idx reg) 1,
     dubious_mask := (if dubious then dubious_mask s OR push_bit (idx reg) 1 else dubious_mask s)\<rparr>"

definition has_reg :: "RegisterIdx \<Rightarrow> Registers \<Rightarrow> bool" where
  "has_reg reg s \<longleftrightarrow> mask s AND push_bit (idx reg) 1 \<noteq> 0"

definition reg_is_dubious :: "RegisterIdx \<Rightarrow> Registers \<Rightarrow> bool" where
  "reg_is_dubious reg s \<longleftrightarrow> dubious_mask s AND push_bit (idx reg) 1 \<noteq> 0"

definition get_reg :: "RegisterIdx \<Rightarrow> Registers \<Rightarrow> (u64 \<times> bool) eres" where
  "get_reg reg s = (if mask s AND push_bit (idx reg) 1 = 0 then Err ProcessState else Ok (ints s ! idx reg, reg_is_dubious reg s))"

definition get_reg_option :: "RegisterIdx \<Rightarrow> Registers \<Rightarrow> (u64 \<times> bool) option" where
  "get_reg_option reg s = (if mask s AND push_bit (idx reg) 1 = 0 then None else Some (ints s ! idx reg, reg_is_dubious reg s))"

section \<open>Wide registers\<close>

record ExtraRegisterIdx =
  x_start :: nat
  x_len :: nat

abbreviation "OPMASK_START \<equiv> 256 :: nat"
abbreviation "MXCSR_IDX \<equiv> 264 :: nat"
abbreviation "SCALAR_COUNT \<equiv> 265 :: nat"

definition zmm :: "nat \<Rightarrow> ExtraRegisterIdx eres" where
  "zmm n = (if n < 32 then Ok \<lparr>x_start = 8 * n, x_len = 8\<rparr> else Panic)"

definition ymm :: "nat \<Rightarrow> ExtraRegisterIdx eres" where
  "ymm n = rbind (zmm n) (\<lambda>z. Ok \<lparr>x_start = x_start z, x_len = 4\<rparr>)"

definition xmm :: "nat \<Rightarrow> ExtraRegisterIdx eres" where
  "xmm n = rbind (zmm n) (\<lambda>z. Ok \<lparr>x_start = x_start z, x_len = 2\<rparr>)"

definition opmask :: ExtraRegisterIdx where
  "opmask = \<lparr>x_start = OPMASK_START, x_len = 8\<rparr>"

definition opmask_element :: "nat \<Rightarrow> ExtraRegisterIdx eres" where
  "opmask_element n = (if n < 8 then Ok \<lparr>x_start = OPMASK_START + n, x_len = 1\<rparr> else Panic)"

definition mxcsr :: ExtraRegisterIdx where
  "mxcsr = \<lparr>x_start = MXCSR_IDX, x_len = 1\<rparr>"

definition mask_idx :: "ExtraRegisterIdx \<Rightarrow> nat eres" where
  "mask_idx x = (if x_start x < OPMASK_START then Ok 0 else if x_start x < MXCSR_IDX then Ok 1
     else if x_start x = MXCSR_IDX then Ok 2 else Panic)"

text \<open>The tables of names hold a prefix with each number.\<close>

definition EXTRA_REGISTER_NAMES_MM :: "bytes list list" where
  "EXTRA_REGISTER_NAMES_MM = map (\<lambda>c. map (\<lambda>i. bytes_of (c # ''mm'') @ fmt_dec i) [0..<32]) ''xyz''"

definition EXTRA_REGISTER_NAMES_OPMASK :: "bytes list" where
  "EXTRA_REGISTER_NAMES_OPMASK = map (\<lambda>i. bytes_of ''opmask'' @ fmt_dec i) [0..<8]"

definition extra_name :: "ExtraRegisterIdx \<Rightarrow> bytes eres" where
  "extra_name x =
     (if x_start x < OPMASK_START then
        (if x_start x mod 8 \<noteq> 0 then Panic
         else (case map_of [(2, 0), (4, 1), (8, 2)] (x_len x) of
            None \<Rightarrow> Panic
          | Some j \<Rightarrow> Ok (EXTRA_REGISTER_NAMES_MM ! j ! (x_start x div 8))))
      else if x_start x < MXCSR_IDX then
        (if x_len x = 8 then Ok (bytes_of ''opmask'')
         else if x_len x \<noteq> 1 then Panic
         else Ok (EXTRA_REGISTER_NAMES_OPMASK ! (x_start x - OPMASK_START)))
      else if x_start x = MXCSR_IDX then Ok (bytes_of ''mxcsr'')
      else Panic)"

definition extra_from_dwarf :: "nat \<Rightarrow> ExtraRegisterIdx option eres" where
  "extra_from_dwarf n =
     (if 17 \<le> n \<and> n \<le> 32 then rbind (zmm (n - 17)) (Ok \<circ> Some)
      else if 67 \<le> n \<and> n \<le> 82 then rbind (zmm (n - 67 + 16)) (Ok \<circ> Some)
      else if 118 \<le> n \<and> n \<le> 125 then rbind (opmask_element (n - 118)) (Ok \<circ> Some)
      else if n = 64 then Ok (Some mxcsr) else Ok None)"

definition parse_extra :: "bytes \<Rightarrow> ExtraRegisterIdx option eres" where
  "parse_extra s =
     (if \<not> ascii s then Ok None
      else if eq_ignore_ascii_case s (bytes_of ''mxcsr'') then Ok (Some mxcsr)
      else if length s \<ge> 6 \<and> eq_ignore_ascii_case (take 6 s) (bytes_of ''opmask'') then
        (if drop 6 s = [] then Ok (Some opmask)
         else (case from_str_radix10 (drop 6 s) of
            Some n \<Rightarrow> if n < 8 then rbind (opmask_element n) (Ok \<circ> Some) else Ok None
          | None \<Rightarrow> Ok None))
      else if length s < 4 then Ok None
      else if \<not> eq_ignore_ascii_case (take 2 (drop 1 s)) (bytes_of ''mm'') then Ok None
      else (case map_of [(0x78, 2), (0x58, 2), (0x79, 4), (0x59, 4), (0x7A, 8), (0x5A, 8)] (s ! 0) of
          None \<Rightarrow> Ok None
        | Some len \<Rightarrow> (case from_str_radix10 (drop 3 s) of
            None \<Rightarrow> Ok None
          | Some n \<Rightarrow> if n \<ge> 32 then Ok None else rbind (zmm n) (\<lambda>r. Ok (Some (r\<lparr>x_len := len\<rparr>))))))"

record ExtraRegisters =
  xa :: "u64 list"
  xmask :: u64
  xdubious_mask :: u64
  xerror :: "ErrorCode option"

definition extra_default :: ExtraRegisters where
  "extra_default = \<lparr>xa = replicate SCALAR_COUNT 0, xmask = 0, xdubious_mask = 0, xerror = None\<rparr>"

definition from_error :: "ErrorCode \<Rightarrow> ExtraRegisters" where
  "from_error e = extra_default\<lparr>xerror := Some e\<rparr>"

definition extra_has :: "ExtraRegisterIdx \<Rightarrow> ExtraRegisters \<Rightarrow> bool eres" where
  "extra_has x s = rbind (mask_idx x) (\<lambda>i. Ok (xmask s AND push_bit i 1 \<noteq> 0))"

definition extra_is_dubious :: "ExtraRegisterIdx \<Rightarrow> ExtraRegisters \<Rightarrow> bool eres" where
  "extra_is_dubious x s = rbind (mask_idx x) (\<lambda>i. Ok (xdubious_mask s AND push_bit i 1 \<noteq> 0))"

definition extra_get :: "ExtraRegisterIdx \<Rightarrow> ExtraRegisters \<Rightarrow> (u64 list \<times> bool) eres" where
  "extra_get x s = rbind (extra_has x s) (\<lambda>h.
     if \<not> h then Err (case xerror s of Some e \<Rightarrow> e | None \<Rightarrow> ProcessState)
     else if x_start x + x_len x > length (xa s) then Panic
     else rbind (extra_is_dubious x s) (\<lambda>d. Ok (take (x_len x) (drop (x_start x) (xa s)), d)))"

text \<open>Copying words over a range; out of range, or of another length, it panics.\<close>

definition copy_at :: "nat \<Rightarrow> u64 list \<Rightarrow> u64 list \<Rightarrow> u64 list eres" where
  "copy_at i v a = (if i + length v > length a then Panic else Ok (take i a @ v @ drop (i + length v) a))"

definition extra_set :: "ExtraRegisterIdx \<Rightarrow> u64 list \<Rightarrow> bool \<Rightarrow> ExtraRegisters \<Rightarrow> ExtraRegisters eres" where
  "extra_set x v dubious s = rbind (mask_idx x) (\<lambda>i.
     if length v \<noteq> x_len x then Panic
     else rbind (copy_at (x_start x) v (xa s)) (\<lambda>a.
       Ok (s\<lparr>xa := a, xmask := xmask s OR push_bit i 1, xdubious_mask := (if dubious then xdubious_mask s OR push_bit i 1 else xdubious_mask s)\<rparr>)))"

section \<open>The XSAVE area\<close>

text \<open>Where the processor puts four of its parts, if it has them.\<close>

record xsave_offsets =
  ymm_offset :: "nat option"
  opmask_offset :: "nat option"
  zmm_hi256_offset :: "nat option"
  hi16_zmm_offset :: "nat option"

text \<open>From \<open>cpuid\<close>: the size and the offset of a part.\<close>

definition precalc_xsave_component_offset :: "nat \<times> nat \<Rightarrow> nat \<Rightarrow> nat option eres" where
  "precalc_xsave_component_offset cpuid expected_size = (case cpuid of (actual_size, off) \<Rightarrow>
     if actual_size = 0 \<or> off = 0 then Ok None
     else if actual_size < expected_size \<or> off + expected_size > 3072 then Panic
     else Ok (Some off))"

definition precalc_globals_registers :: "(nat \<Rightarrow> nat \<times> nat) \<Rightarrow> xsave_offsets eres" where
  "precalc_globals_registers cpuid =
     rbind (precalc_xsave_component_offset (cpuid 2) 256) (\<lambda>y. rbind (precalc_xsave_component_offset (cpuid 5) 64) (\<lambda>k.
     rbind (precalc_xsave_component_offset (cpuid 6) 512) (\<lambda>z. rbind (precalc_xsave_component_offset (cpuid 7) 1024) (\<lambda>h.
       Ok \<lparr>ymm_offset = y, opmask_offset = k, zmm_hi256_offset = z, hi16_zmm_offset = h\<rparr>))))"

fun xsave_parts :: "(nat \<times> nat \<times> nat option) list \<Rightarrow> nat \<times> u64 \<Rightarrow> nat \<times> u64" where
  "xsave_parts [] nm = nm"
| "xsave_parts ((feat, sz, off) # ps) (n, m) = xsave_parts ps
     (if m AND push_bit feat 1 \<noteq> 0 then (case off of Some p \<Rightarrow> (max n (p + sz), m) | None \<Rightarrow> (n, m XOR push_bit feat 1)) else (n, m))"

definition calculate_xsave_full_size :: "xsave_offsets \<Rightarrow> bytes \<Rightarrow> (nat \<times> u64) eres" where
  "calculate_xsave_full_size c prefix =
     (if length prefix < 576 then Err ProcessState
      else if le_at prefix 520 8 \<noteq> (0 :: u64) then Err ProcessState
      else Ok (xsave_parts [(2, 256, ymm_offset c), (5, 64, opmask_offset c), (6, 512, zmm_hi256_offset c), (7, 1024, hi16_zmm_offset c)]
        (576, le_at prefix 512 8)))"

definition word_at :: "bytes \<Rightarrow> nat \<Rightarrow> u64 eres" where
  "word_at xs off = (if off + 8 > length xs then Panic else Ok (le_at xs off 8))"

text \<open>A loop over \<open>n\<close> indices that changes the registers.\<close>

fun rfold :: "(nat \<Rightarrow> 'a \<Rightarrow> ('a, 'e) result) \<Rightarrow> nat list \<Rightarrow> 'a \<Rightarrow> ('a, 'e) result" where
  "rfold f [] s = Ok s"
| "rfold f (i # is) s = rbind (f i s) (rfold f is)"

text \<open>The words at an offset are stored into a register, from the word \<open>k\<close> of the register on.\<close>

definition load_words :: "bytes \<Rightarrow> nat \<Rightarrow> nat \<Rightarrow> nat \<Rightarrow> ExtraRegisters \<Rightarrow> ExtraRegisters eres" where
  "load_words xs off n i s = rbind (collect (map (\<lambda>j. word_at xs (off + 8 * j)) [0..<n])) (\<lambda>ws.
     rbind (copy_at i ws (xa s)) (\<lambda>a. Ok (s\<lparr>xa := a\<rparr>)))"

definition load_xmm :: "bytes \<Rightarrow> nat \<Rightarrow> ExtraRegisters \<Rightarrow> ExtraRegisters eres" where
  "load_xmm xs i s = rbind (word_at xs (160 + i * 16)) (\<lambda>a. rbind (word_at xs (160 + i * 16 + 8)) (\<lambda>b.
     rbind (xmm i) (\<lambda>x. extra_set x [a, b] False s)))"

definition load_opmask :: "bytes \<Rightarrow> nat \<Rightarrow> nat \<Rightarrow> ExtraRegisters \<Rightarrow> ExtraRegisters eres" where
  "load_opmask xs st i s = rbind (word_at xs (st + i * 8)) (\<lambda>a. rbind (opmask_element i) (\<lambda>x. extra_set x [a] False s))"

definition load_part :: "nat \<Rightarrow> nat option \<Rightarrow> u64 \<Rightarrow> (nat \<Rightarrow> nat \<Rightarrow> ExtraRegisters \<Rightarrow> ExtraRegisters eres) \<Rightarrow> nat \<Rightarrow> ExtraRegisters \<Rightarrow> ExtraRegisters eres" where
  "load_part feat off m f n s =
     (if m AND push_bit feat 1 \<noteq> 0 then (case off of None \<Rightarrow> Panic | Some st \<Rightarrow> rfold (f st) [0..<n] s) else Ok s)"

definition from_xsave :: "xsave_offsets \<Rightarrow> bytes \<Rightarrow> ExtraRegisters eres" where
  "from_xsave c xs = (case calculate_xsave_full_size c xs of
      Panic \<Rightarrow> Panic
    | Err e \<Rightarrow> Ok (from_error e)
    | Ok (full_size, m) \<Rightarrow>
        if length xs < full_size then Ok (from_error ProcessState)
        else if 28 > length xs then Panic
        else rbind (extra_set mxcsr [ucast (le_at xs 24 4 :: u32)] False extra_default) (\<lambda>s.
          rbind (if m AND push_bit 1 1 \<noteq> 0 then rfold (load_xmm xs) [0..<16] s else Ok s) (\<lambda>s.
          rbind (load_part 2 (ymm_offset c) m (\<lambda>st i s. rbind (ymm i) (\<lambda>y. load_words xs (st + i * 16) 2 (x_start y + 2) s)) 16 s) (\<lambda>s.
          rbind (load_part 5 (opmask_offset c) m (load_opmask xs) 8 s) (\<lambda>s.
          rbind (load_part 6 (zmm_hi256_offset c) m (\<lambda>st i s. rbind (zmm i) (\<lambda>z. load_words xs (st + i * 32) 4 (x_start z + 4) s)) 16 s)
            (load_part 7 (hi16_zmm_offset c) m (\<lambda>st i s. rbind (zmm (16 + i)) (\<lambda>z. load_words xs (st + i * 64) 8 (x_start z) s)) 16))))))"

section \<open>Reading on demand\<close>

record LazyExtraRegisters =
  lazy_r :: ExtraRegisters
  lazy_tid :: "nat option"

definition lazy_default :: LazyExtraRegisters where
  "lazy_default = \<lparr>lazy_r = from_error Internal, lazy_tid = None\<rparr>"

definition reset_with_tid :: "nat \<Rightarrow> LazyExtraRegisters \<Rightarrow> LazyExtraRegisters" where
  "reset_with_tid tid s = s\<lparr>lazy_tid := Some tid\<rparr>"

definition lazy_set_error :: "ErrorCode \<Rightarrow> LazyExtraRegisters \<Rightarrow> LazyExtraRegisters" where
  "lazy_set_error e s = s\<lparr>lazy_r := from_error e, lazy_tid := None\<rparr>"

definition lazy_set :: "ExtraRegisters \<Rightarrow> LazyExtraRegisters \<Rightarrow> LazyExtraRegisters" where
  "lazy_set r s = s\<lparr>lazy_r := r, lazy_tid := None\<rparr>"

definition ptrace_get_extra_regs :: "(nat \<Rightarrow> bytes eres) \<Rightarrow> xsave_offsets \<Rightarrow> nat \<Rightarrow> ExtraRegisters eres" where
  "ptrace_get_extra_regs getregset c tid = (case getregset tid of Ok buf \<Rightarrow> from_xsave c buf | Err e \<Rightarrow> Ok (from_error e) | Panic \<Rightarrow> Panic)"

definition lazy_get :: "(nat \<Rightarrow> bytes eres) \<Rightarrow> xsave_offsets \<Rightarrow> (LazyExtraRegisters, ExtraRegisters, ErrorCode) sres" where
  "lazy_get getregset c s = (case lazy_tid s of
      None \<Rightarrow> (Ok (lazy_r s), s)
    | Some tid \<Rightarrow> (case ptrace_get_extra_regs getregset c tid of
        Ok r \<Rightarrow> (Ok r, s\<lparr>lazy_r := r, lazy_tid := None\<rparr>)
      | Err e \<Rightarrow> (Err e, s\<lparr>lazy_tid := None\<rparr>)
      | Panic \<Rightarrow> (Panic, s\<lparr>lazy_tid := None\<rparr>)))"

section \<open>The register file keeps its shape\<close>

lemma idx_less: "idx r < COUNT"
  by (cases r) simp_all

lemma nth_idx: "REGISTER_IDXS ! idx r = r"
  by (cases r) (simp_all add: REGISTER_IDXS_def)

lemma idx_inject: "idx a = idx b \<longleftrightarrow> a = b"
  using nth_idx by metis

lemma test_bit: "(m :: u64) AND push_bit n 1 = 0 \<longleftrightarrow> \<not> bit m n"
  by (simp add: and_exp_eq_0_iff_not_bit push_bit_eq_mult)

lemma idx_word: "bit (2 ^ idx a :: u64) (idx b) \<longleftrightarrow> a = b"
  using idx_less [of a] idx_less [of b] idx_inject [of a b] by (auto simp: bit_simps)

definition regs_ok :: "Registers \<Rightarrow> bool" where
  "regs_ok s \<longleftrightarrow> length (ints s) = COUNT"

lemma get_set_reg:
  assumes "regs_ok s"
  shows "get_reg r' (set_reg r v d s) = (if r' = r then Ok (v, d \<or> reg_is_dubious r s) else get_reg r' s)"
  using assms idx_less [of r] idx_inject [of r' r] unfolding get_reg_def set_reg_def reg_is_dubious_def test_bit regs_ok_def
  by (auto simp: test_bit bit_or_iff idx_word)

section \<open>Names\<close>

lemma parse_register_lower: "parse_register s = map_option (\<lambda>i. REGISTER_IDXS ! i) (find (\<lambda>i. map to_ascii_lowercase (REGISTER_NAMES ! i) = map to_ascii_lowercase s) [0..<COUNT])"
  by (simp add: parse_register_def eq_ignore_ascii_case_def)

lemma names_lower: "n \<in> set REGISTER_NAMES \<Longrightarrow> map to_ascii_lowercase n = n"
  by (auto simp: REGISTER_NAMES_def to_ascii_lowercase_def)

lemma names_distinct: "distinct REGISTER_NAMES" "length REGISTER_NAMES = COUNT"
  by (simp_all add: REGISTER_NAMES_def)

lemma parse_reg_name: "parse_register (reg_name r) = Some r"
proof -
  have n: "REGISTER_NAMES ! i \<in> set REGISTER_NAMES" if "i < COUNT" for i using that names_distinct(2) by simp
  have "find (\<lambda>i. map to_ascii_lowercase (REGISTER_NAMES ! i) = map to_ascii_lowercase (REGISTER_NAMES ! idx r)) [0..<COUNT] = Some (idx r)"
    unfolding find_Some_iff
  proof (intro exI [of _ "idx r"] conjI allI impI)
    fix j assume j: "j < idx r"
    then have "j < COUNT" using idx_less [of r] by simp
    then show "map to_ascii_lowercase (REGISTER_NAMES ! ([0..<COUNT] ! j)) \<noteq> map to_ascii_lowercase (REGISTER_NAMES ! idx r)"
      using j names_lower [OF n] idx_less [of r] names_distinct nth_eq_iff_index_eq [OF names_distinct(1), of j "idx r"] by simp
  qed (use idx_less [of r] in simp_all)
  then show ?thesis by (simp add: parse_register_lower reg_name_def nth_idx)
qed

lemma parse_register_case: "eq_ignore_ascii_case s (reg_name r) \<Longrightarrow> parse_register s = Some r"
  using parse_reg_name [of r] unfolding parse_register_lower eq_ignore_ascii_case_def by simp

lemma lower_same: "to_ascii_lowercase c = c" if "c < 0x41 \<or> 0x5A < c" for c
  using that by (auto simp: to_ascii_lowercase_def not_le)

text \<open>The registers that have a name.\<close>

definition extra_registers :: "ExtraRegisterIdx list" where
  "extra_registers = map (\<lambda>(i, l). \<lparr>x_start = 8 * i, x_len = l\<rparr>) (List.product [0..<32] [2, 4, 8])
     @ [opmask] @ map (\<lambda>i. \<lparr>x_start = OPMASK_START + i, x_len = 1\<rparr>) [0..<8] @ [mxcsr]"

lemma ascii_fmt_dec: "ascii (fmt_dec n)"
proof -
  have "(0x39 :: u8) < 0x80" by simp
  then show ?thesis using fmt_dec_all_digits unfolding ascii_def by (meson order_le_less_trans)
qed

lemma parse_mm:
  assumes "n < 32" "j < 3"
  shows "parse_extra (bytes_of (''xyz'' ! j # ''mm'') @ fmt_dec n) = Ok (Some \<lparr>x_start = 8 * n, x_len = [2, 4, 8] ! j\<rparr>)"
proof -
  have d: "fmt_dec n \<noteq> []" "from_str_radix10 (fmt_dec n) = Some n" using fmt_dec_not_Nil assms(1) by (simp_all add: from_str_radix10_fmt_dec)
  then obtain c cs where c: "fmt_dec n = c # cs" by (cases "fmt_dec n") auto
  consider "j = 0" | "j = 1" | "j = 2" using assms(2) by linarith
  then show ?thesis
    using assms(1) d ascii_fmt_dec [of n] unfolding c
    by cases (simp_all add: parse_extra_def eq_ignore_ascii_case_def to_ascii_lowercase_def zmm_def)
qed

lemma parse_opmask:
  assumes "n < 8" shows "parse_extra (bytes_of ''opmask'' @ fmt_dec n) = Ok (Some \<lparr>x_start = OPMASK_START + n, x_len = 1\<rparr>)"
proof -
  have d: "fmt_dec n \<noteq> []" "from_str_radix10 (fmt_dec n) = Some n" using fmt_dec_not_Nil assms by (simp_all add: from_str_radix10_fmt_dec)
  then show ?thesis using assms ascii_fmt_dec [of n]
    by (simp add: parse_extra_def eq_ignore_ascii_case_def to_ascii_lowercase_def opmask_element_def)
qed

lemma extra_names_parse:
  assumes "x \<in> set extra_registers"
  shows "\<exists>s. extra_name x = Ok s \<and> parse_extra s = Ok (Some x)"
proof -
  consider n j where "n < 32" "j < 3" "x = \<lparr>x_start = 8 * n, x_len = [2, 4, 8] ! j\<rparr>" | "x = opmask"
    | n where "n < 8" "x = \<lparr>x_start = OPMASK_START + n, x_len = 1\<rparr>" | "x = mxcsr"
    using assms by (fastforce simp: extra_registers_def numeral_3_eq_3 numeral_2_eq_2)
  then show ?thesis
  proof cases
    case 1
    then have j: "j = 0 \<or> j = 1 \<or> j = 2" by linarith
    from j have "map_of [(2 :: nat, 0 :: nat), (4, 1), (8, 2)] ([2, 4, 8] ! j) = Some j" by (elim disjE) simp_all
    moreover from j have "EXTRA_REGISTER_NAMES_MM ! j ! n = bytes_of (''xyz'' ! j # ''mm'') @ fmt_dec n"
      using 1(1) by (elim disjE) (simp_all add: EXTRA_REGISTER_NAMES_MM_def)
    ultimately show ?thesis using 1 parse_mm [OF 1(1,2)] by (simp add: extra_name_def)
  next
    case 3
    then show ?thesis using parse_opmask [OF 3(1)] by (simp add: extra_name_def EXTRA_REGISTER_NAMES_OPMASK_def)
  qed (simp_all add: extra_name_def opmask_def mxcsr_def parse_extra_def eq_ignore_ascii_case_def to_ascii_lowercase_def)
qed

section \<open>Loading the XSAVE area\<close>

text \<open>Flags that are left have a part, and the parts fit the size.\<close>

lemma xsave_parts_ok:
  assumes "distinct (map fst ps)" "xsave_parts ps (n0, m0) = (n, m)"
  shows "n0 \<le> n \<and> (\<forall>(f, sz, off)\<in>set ps. bit m f \<longrightarrow> (\<exists>p. off = Some p \<and> p + sz \<le> n)) \<and> (\<forall>f. f \<notin> fst ` set ps \<longrightarrow> bit m f = bit m0 f)"
  using assms
proof (induction ps arbitrary: n0 m0)
  case (Cons q ps)
  obtain f sz off where q: "q = (f, sz, off)" by (cases q)
  define nm where "nm = (if m0 AND push_bit f 1 \<noteq> 0 then (case off of Some p \<Rightarrow> (max n0 (p + sz), m0) | None \<Rightarrow> (n0, m0 XOR push_bit f 1)) else (n0, m0))"
  obtain n1 m1 where nm1: "nm = (n1, m1)" by (cases nm)
  have "xsave_parts ps (n1, m1) = (n, m)" using Cons.prems(2) [unfolded q xsave_parts.simps, folded nm_def, unfolded nm1] .
  then have IH: "n1 \<le> n \<and> (\<forall>(f, sz, off)\<in>set ps. bit m f \<longrightarrow> (\<exists>p. off = Some p \<and> p + sz \<le> n)) \<and> (\<forall>f. f \<notin> fst ` set ps \<longrightarrow> bit m f = bit m1 f)"
    using Cons.IH Cons.prems(1) by simp
  have f: "f \<notin> fst ` set ps" using Cons.prems(1) q by simp
  have 1: "n0 \<le> n1" "\<And>g. g \<noteq> f \<Longrightarrow> bit m1 g = bit m0 g" "bit m1 f \<Longrightarrow> \<exists>p. off = Some p \<and> p + sz \<le> n1"
    using nm1 bit_imp_le_length [of m0 f] unfolding nm_def test_bit by (auto simp: bit_xor_iff bit_simps split: if_splits option.splits)
  then show ?case using IH f q by (auto 0 4)
qed simp

text \<open>Blocks of \<open>w\<close> words, at the offset \<open>off\<close> of each group of \<open>st\<close> words from \<open>b\<close> on, are overwritten.\<close>

definition blocks :: "nat \<Rightarrow> nat \<Rightarrow> nat \<Rightarrow> nat \<Rightarrow> nat \<Rightarrow> (nat \<Rightarrow> nat \<Rightarrow> u64) \<Rightarrow> u64 list \<Rightarrow> u64 list" where
  "blocks b st off w n g a = map (\<lambda>k. if b \<le> k \<and> k < b + st * n \<and> off \<le> (k - b) mod st \<and> (k - b) mod st < off + w
     then g ((k - b) div st) ((k - b) mod st - off) else a ! k) [0..<length a]"

lemma length_blocks [simp]: "length (blocks b st off w n g a) = length a"
  by (simp add: blocks_def)

lemma copy_blocks:
  assumes "off + w \<le> st" "b + st * n + st \<le> length a" "0 < st"
  shows "copy_at (b + st * n + off) (map (g n) [0..<w]) (blocks b st off w n g a) = Ok (blocks b st off w (Suc n) g a)"
proof -
  let ?l = "take (b + st * n + off) (blocks b st off w n g a) @ map (g n) [0..<w] @ drop (b + st * n + off + w) (blocks b st off w n g a)"
  have "?l = blocks b st off w (Suc n) g a"
  proof (rule nth_equalityI)
    show "length ?l = length (blocks b st off w (Suc n) g a)" using assms by simp
    fix k assume "k < length ?l"
    then have k: "k < length a" using assms by simp
    consider "k < b + st * n" | j where "k = b + st * n + j" "j < st" | "b + st * n + st \<le> k"
      by (metis add_diff_inverse_nat add_less_cancel_left not_less)
    then show "?l ! k = blocks b st off w (Suc n) g a ! k"
    proof cases
      case 2
      then have "j < off \<or> off \<le> j \<and> j < off + w \<or> off + w \<le> j" by linarith
      then show ?thesis using 2 assms k by (auto simp: nth_append blocks_def add.assoc)
    qed (use assms k in \<open>auto simp: nth_append blocks_def\<close>)
  qed
  then show ?thesis using assms by (simp add: copy_at_def)
qed

lemma rfold_append: "rfold f (is @ js) s = rbind (rfold f is s) (rfold f js)"
proof (induction "is" arbitrary: s)
  case (Cons i "is")
  then show ?case by (cases "f i s") auto
qed simp

lemma rfold_blocks:
  assumes f: "\<And>i s a'. i < n \<Longrightarrow> length (xa s) = length a \<Longrightarrow> copy_at (b + st * i + off) (map (g i) [0..<w]) (xa s) = Ok a' \<Longrightarrow> f i s = Ok (s\<lparr>xa := a', xmask := xmask s OR M\<rparr>)"
    and "off + w \<le> st" "b + st * n \<le> length a" "0 < st" "xa s = a" "0 < n"
  shows "rfold f [0..<n] s = Ok (s\<lparr>xa := blocks b st off w n g a, xmask := xmask s OR M\<rparr>)"
proof -
  have "rfold f [0..<m] s = Ok (s\<lparr>xa := blocks b st off w m g a, xmask := (if m = 0 then xmask s else xmask s OR M)\<rparr>)" if "m \<le> n" for m
    using that
  proof (induction m)
    case 0
    have "blocks b st off w 0 g a = a" by (rule nth_equalityI) (auto simp: blocks_def)
    then show ?case using assms(5) by simp
  next
    case (Suc m)
    have "st * Suc m \<le> st * n" using Suc.prems by (rule mult_le_mono2)
    then have "b + st * m + st \<le> length a" using assms(3) by simp
    from copy_blocks [OF assms(2) this assms(4), of g] Suc f [of m] show ?case
      by (auto simp: rfold_append or.assoc)
  qed
  from this [of n] assms(6) show ?thesis by simp
qed

lemma nth_blocks: "k < length a \<Longrightarrow> blocks b st off w n g a ! k =
    (if b \<le> k \<and> k < b + st * n \<and> off \<le> (k - b) mod st \<and> (k - b) mod st < off + w then g ((k - b) div st) ((k - b) mod st - off) else a ! k)"
  by (simp add: blocks_def)

lemma word_at_Ok: "off + 8 \<le> length xs \<Longrightarrow> word_at xs off = Ok (le_at xs off 8)"
  by (simp add: word_at_def)

lemma load_words_Ok:
  assumes "off + 8 * n \<le> length xs" "copy_at i (map (\<lambda>j. le_at xs (off + 8 * j) 8) [0..<n]) (xa s) = Ok a'"
  shows "load_words xs off n i s = Ok (s\<lparr>xa := a', xmask := xmask s OR 0\<rparr>)"
proof -
  have "collect (map (\<lambda>j. word_at xs (off + 8 * j)) [0..<n]) = Ok (map (\<lambda>j. le_at xs (off + 8 * j) 8) [0..<n])"
    using assms(1) by (auto simp: collect_Ok word_at_Ok)
  then show ?thesis using assms(2) by (simp add: load_words_def)
qed

text \<open>The words of the registers, where they are in the area.\<close>

definition xsave_word :: "xsave_offsets \<Rightarrow> bytes \<Rightarrow> u64 \<Rightarrow> nat \<Rightarrow> u64" where
  "xsave_word c xs m k =
     (if k < OPMASK_START then (let r = k div 8; j = k mod 8 in
        if r < 16 then
          (if j < 2 then (if bit m 1 then le_at xs (160 + r * 16 + 8 * j) 8 else 0)
           else if j < 4 then (if bit m 2 then le_at xs (the (ymm_offset c) + r * 16 + 8 * (j - 2)) 8 else 0)
           else (if bit m 6 then le_at xs (the (zmm_hi256_offset c) + r * 32 + 8 * (j - 4)) 8 else 0))
        else if bit m 7 then le_at xs (the (hi16_zmm_offset c) + (r - 16) * 64 + 8 * j) 8 else 0)
      else if k < MXCSR_IDX then (if bit m 5 then le_at xs (the (opmask_offset c) + (k - OPMASK_START) * 8) 8 else 0)
      else ucast (le_at xs 24 4 :: u32))"

lemma load_xmm_loop:
  assumes "576 \<le> length xs" "length (xa s) = SCALAR_COUNT"
  shows "rfold (load_xmm xs) [0..<16] s = Ok (s\<lparr>xa := blocks 0 8 0 2 16 (\<lambda>i j. le_at xs (160 + i * 16 + 8 * j) 8) (xa s), xmask := xmask s OR push_bit 0 1\<rparr>)"
proof (rule rfold_blocks)
  fix i a' and s' :: ExtraRegisters assume i: "i < 16" "length (xa s') = length (xa s)"
    and a': "copy_at (0 + 8 * i + 0) (map (\<lambda>j. le_at xs (160 + i * 16 + 8 * j) 8) [0..<2]) (xa s') = Ok a'"
  have "[0..<2] = [0, 1 :: nat]" by (simp add: upt_rec)
  then have "copy_at (8 * i) [le_at xs (160 + i * 16) 8, le_at xs (160 + i * 16 + 8) 8] (xa s') = Ok a'" using a' by simp
  moreover have "160 + i * 16 + 16 \<le> length xs" using i(1) assms(1) by simp
  ultimately show "load_xmm xs i s' = Ok (s'\<lparr>xa := a', xmask := xmask s' OR push_bit 0 1\<rparr>)"
    using i(1) by (simp add: load_xmm_def word_at_Ok xmm_def zmm_def extra_set_def mask_idx_def)
qed (use assms(2) in simp_all)

lemma load_opmask_loop:
  assumes "st + 64 \<le> length xs" "length (xa s) = SCALAR_COUNT"
  shows "rfold (load_opmask xs st) [0..<8] s = Ok (s\<lparr>xa := blocks OPMASK_START 1 0 1 8 (\<lambda>i j. le_at xs (st + i * 8) 8) (xa s), xmask := xmask s OR push_bit 1 1\<rparr>)"
proof (rule rfold_blocks)
  fix i a' and s' :: ExtraRegisters assume i: "i < 8" "length (xa s') = length (xa s)"
    and a': "copy_at (OPMASK_START + 1 * i + 0) (map (\<lambda>j. le_at xs (st + i * 8) 8) [0..<1]) (xa s') = Ok a'"
  have "st + i * 8 + 8 \<le> length xs" using i(1) assms(1) by simp
  then show "load_opmask xs st i s' = Ok (s'\<lparr>xa := a', xmask := xmask s' OR push_bit 1 1\<rparr>)"
    using a' i(1) by (simp add: load_opmask_def word_at_Ok opmask_element_def extra_set_def mask_idx_def)
qed (use assms(2) in simp_all)

text \<open>The three loops that store words into the upper parts of registers.\<close>

lemma load_wide_loop:
  assumes "st + 16 * stride \<le> length xs" "length (xa s) = SCALAR_COUNT" "off + w \<le> 8" "8 * w \<le> stride" "b + 16 \<le> 32"
  shows "rfold (\<lambda>i s. rbind (zmm (b + i)) (\<lambda>z. load_words xs (st + i * stride) w (x_start z + off) s)) [0..<16] s
    = Ok (s\<lparr>xa := blocks (8 * b) 8 off w 16 (\<lambda>i j. le_at xs (st + i * stride + 8 * j) 8) (xa s), xmask := xmask s OR 0\<rparr>)"
proof (rule rfold_blocks)
  fix i a' and s' :: ExtraRegisters assume i: "i < 16" "length (xa s') = length (xa s)"
    and a': "copy_at (8 * b + 8 * i + off) (map (\<lambda>j. le_at xs (st + i * stride + 8 * j) 8) [0..<w]) (xa s') = Ok a'"
  have "i * stride + stride \<le> 16 * stride" by (metis Suc_leI add.commute i(1) mult_Suc mult_le_mono1)
  then have "st + i * stride + 8 * w \<le> length xs" using assms(1,4) by linarith
  from load_words_Ok [OF this a'] show "rbind (zmm (b + i)) (\<lambda>z. load_words xs (st + i * stride) w (x_start z + off) s') = Ok (s'\<lparr>xa := a', xmask := xmask s' OR 0\<rparr>)"
    using i(1) assms(5) by (simp add: zmm_def add_mult_distrib2)
qed (use assms(2,3,5) in simp_all)

lemma load_part_Ok:
  assumes "bit m feat \<Longrightarrow> \<exists>p. off = Some p \<and> p + sz \<le> full" "full \<le> length xs" "length (xa s) = SCALAR_COUNT"
    and "\<And>p. p + sz \<le> length xs \<Longrightarrow> rfold (f p) [0..<n] s = Ok (s\<lparr>xa := blocks b st o' w n (g p) (xa s), xmask := xmask s OR M\<rparr>)"
  obtains s' where "load_part feat off m f n s = Ok s'" "xa s' = (if bit m feat then blocks b st o' w n (g (the off)) (xa s) else xa s)"
    "xerror s' = xerror s" "length (xa s') = SCALAR_COUNT"
proof (cases "bit m feat")
  case True
  then obtain p where p: "off = Some p" "p + sz \<le> length xs" using assms(1,2) by fastforce
  show thesis by (rule that [of "s\<lparr>xa := blocks b st o' w n (g p) (xa s), xmask := xmask s OR M\<rparr>"])
    (use True p assms(3) assms(4) [OF p(2)] in \<open>simp_all add: load_part_def test_bit [simplified]\<close>)
next
  case False
  show thesis by (rule that [of s]) (use False assms(3) in \<open>simp_all add: load_part_def test_bit [simplified]\<close>)
qed

lemma ymm_bind: "rbind (ymm i) (\<lambda>y. f (x_start y)) = rbind (zmm (0 + i)) (\<lambda>z. f (x_start z))"
  by (cases "zmm i") (simp_all add: ymm_def)

lemma mxcsr_loaded: "extra_set mxcsr [v] False extra_default = Ok (extra_default\<lparr>xa := (replicate SCALAR_COUNT 0)[MXCSR_IDX := v], xmask := 4\<rparr>)"
proof -
  have "take MXCSR_IDX (replicate SCALAR_COUNT 0) @ [v] = (replicate SCALAR_COUNT 0)[MXCSR_IDX := v]" by (simp add: upd_conv_take_nth_drop)
  then show ?thesis by (simp add: extra_set_def mxcsr_def mask_idx_def copy_at_def extra_default_def)
qed

lemma xsave_words:
  fixes m :: u64 and c :: xsave_offsets and xs :: bytes
  assumes "length a = SCALAR_COUNT" "k < SCALAR_COUNT" "a = (replicate SCALAR_COUNT 0)[MXCSR_IDX := ucast (le_at xs 24 4 :: u32)]"
  defines "a1 \<equiv> if bit m 1 then blocks 0 8 0 2 16 (\<lambda>i j. le_at xs (160 + i * 16 + 8 * j) 8) a else a"
  defines "a2 \<equiv> if bit m 2 then blocks 0 8 2 2 16 (\<lambda>i j. le_at xs (the (ymm_offset c) + i * 16 + 8 * j) 8) a1 else a1"
  defines "a3 \<equiv> if bit m 5 then blocks OPMASK_START 1 0 1 8 (\<lambda>i j. le_at xs (the (opmask_offset c) + i * 8) 8) a2 else a2"
  defines "a4 \<equiv> if bit m 6 then blocks 0 8 4 4 16 (\<lambda>i j. le_at xs (the (zmm_hi256_offset c) + i * 32 + 8 * j) 8) a3 else a3"
  defines "a5 \<equiv> if bit m 7 then blocks 128 8 0 8 16 (\<lambda>i j. le_at xs (the (hi16_zmm_offset c) + i * 64 + 8 * j) 8) a4 else a4"
  shows "a5 ! k = xsave_word c xs m k"
proof -
  have l: "length a1 = SCALAR_COUNT" "length a2 = SCALAR_COUNT" "length a3 = SCALAR_COUNT" "length a4 = SCALAR_COUNT"
    using assms(1) by (simp_all add: a1_def a2_def a3_def a4_def)
  have w: "a ! k = (if k = MXCSR_IDX then ucast (le_at xs 24 4 :: u32) else 0)" using assms(2,3) by (simp add: nth_list_update)
  define r j where rj: "r = k div 8" "j = k mod 8"
  have k: "k = 8 * r + j" "j < 8" by (simp_all add: rj)
  have n1: "a1 ! k = (if bit m 1 \<and> r < 16 \<and> j < 2 then le_at xs (160 + r * 16 + 8 * j) 8 else a ! k)"
    using assms(1,2) k by (auto simp: a1_def nth_blocks simp flip: rj)
  have n2: "a2 ! k = (if bit m 2 \<and> r < 16 \<and> 2 \<le> j \<and> j < 4 then le_at xs (the (ymm_offset c) + r * 16 + 8 * (j - 2)) 8 else a1 ! k)"
    using l(1) assms(2) k by (auto simp: a2_def nth_blocks simp flip: rj)
  have n3: "a3 ! k = (if bit m 5 \<and> OPMASK_START \<le> k \<and> k < MXCSR_IDX then le_at xs (the (opmask_offset c) + (k - OPMASK_START) * 8) 8 else a2 ! k)"
    using l(2) assms(2) by (auto simp: a3_def nth_blocks)
  have n4: "a4 ! k = (if bit m 6 \<and> r < 16 \<and> 4 \<le> j then le_at xs (the (zmm_hi256_offset c) + r * 32 + 8 * (j - 4)) 8 else a3 ! k)"
    using l(3) assms(2) k by (auto simp: a4_def nth_blocks simp flip: rj)
  have "(k - 128) div 8 = r - 16" "(k - 128) mod 8 = j" if "128 \<le> k"
  proof -
    have "k - 128 = 8 * (r - 16) + j" using that k by arith
    then show "(k - 128) div 8 = r - 16" "(k - 128) mod 8 = j" using k(2) by simp_all
  qed
  moreover have "128 \<le> k \<and> k < 256 \<longleftrightarrow> 16 \<le> r \<and> r < 32" using k by auto
  ultimately have n5: "a5 ! k = (if bit m 7 \<and> 16 \<le> r \<and> r < 32 then le_at xs (the (hi16_zmm_offset c) + (r - 16) * 64 + 8 * j) 8 else a4 ! k)"
    using l(4) assms(2) k(2) by (auto simp: a5_def nth_blocks)
  have b: "k < OPMASK_START \<longleftrightarrow> r < 32" "k < SCALAR_COUNT" using k assms(2) by auto
  show ?thesis
  proof (cases "r < 32")
    case True
    then have "k < OPMASK_START" "\<not> OPMASK_START \<le> k" "k \<noteq> MXCSR_IDX" using b by auto
    then show ?thesis using True k(2) unfolding n5 n4 n3 n2 n1 w xsave_word_def Let_def rj(1) [symmetric] rj(2) [symmetric] by auto
  next
    case False
    then have "\<not> k < OPMASK_START" "\<not> r < 16" "k < MXCSR_IDX \<or> k = MXCSR_IDX" using b by auto
    then show ?thesis using False unfolding n5 n4 n3 n2 n1 w xsave_word_def by auto
  qed
qed

lemma calculate_xsave_Ok:
  assumes "calculate_xsave_full_size c xs = Ok (n, m)"
  shows "576 \<le> n" "bit m 2 \<Longrightarrow> \<exists>p. ymm_offset c = Some p \<and> p + 256 \<le> n" "bit m 5 \<Longrightarrow> \<exists>p. opmask_offset c = Some p \<and> p + 64 \<le> n"
    "bit m 6 \<Longrightarrow> \<exists>p. zmm_hi256_offset c = Some p \<and> p + 512 \<le> n" "bit m 7 \<Longrightarrow> \<exists>p. hi16_zmm_offset c = Some p \<and> p + 1024 \<le> n"
proof -
  let ?ps = "[(2, 256, ymm_offset c), (5, 64, opmask_offset c), (6, 512, zmm_hi256_offset c), (7, 1024, hi16_zmm_offset c)]"
  have "xsave_parts ?ps (576, le_at xs 512 8) = (n, m)" using assms by (simp only: calculate_xsave_full_size_def split: if_splits) simp_all
  from xsave_parts_ok [OF _ this]
  show "576 \<le> n" "bit m 2 \<Longrightarrow> \<exists>p. ymm_offset c = Some p \<and> p + 256 \<le> n" "bit m 5 \<Longrightarrow> \<exists>p. opmask_offset c = Some p \<and> p + 64 \<le> n"
    "bit m 6 \<Longrightarrow> \<exists>p. zmm_hi256_offset c = Some p \<and> p + 512 \<le> n" "bit m 7 \<Longrightarrow> \<exists>p. hi16_zmm_offset c = Some p \<and> p + 1024 \<le> n"
    by simp_all
qed

lemma ymm_loop:
  assumes "st + 256 \<le> length xs" "length (xa s) = SCALAR_COUNT"
  shows "rfold (\<lambda>i s. rbind (ymm i) (\<lambda>y. load_words xs (st + i * 16) 2 (x_start y + 2) s)) [0..<16] s
    = Ok (s\<lparr>xa := blocks 0 8 2 2 16 (\<lambda>i j. le_at xs (st + i * 16 + 8 * j) 8) (xa s), xmask := xmask s OR 0\<rparr>)"
  using load_wide_loop [of st 16 xs s 2 2 0] assms unfolding ymm_bind [where f = "\<lambda>b. load_words xs _ 2 (b + 2) _"] by simp

lemma zmm_loop:
  assumes "st + 512 \<le> length xs" "length (xa s) = SCALAR_COUNT"
  shows "rfold (\<lambda>i s. rbind (zmm i) (\<lambda>z. load_words xs (st + i * 32) 4 (x_start z + 4) s)) [0..<16] s
    = Ok (s\<lparr>xa := blocks 0 8 4 4 16 (\<lambda>i j. le_at xs (st + i * 32 + 8 * j) 8) (xa s), xmask := xmask s OR 0\<rparr>)"
  using load_wide_loop [of st 32 xs s 4 4 0] assms by simp

lemma hi16_loop:
  assumes "st + 1024 \<le> length xs" "length (xa s) = SCALAR_COUNT"
  shows "rfold (\<lambda>i s. rbind (zmm (16 + i)) (\<lambda>z. load_words xs (st + i * 64) 8 (x_start z) s)) [0..<16] s
    = Ok (s\<lparr>xa := blocks 128 8 0 8 16 (\<lambda>i j. le_at xs (st + i * 64 + 8 * j) 8) (xa s), xmask := xmask s OR 0\<rparr>)"
  using load_wide_loop [of st 64 xs s 0 8 16] assms by simp

lemma from_xsave_Ok:
  assumes size: "calculate_xsave_full_size c xs = Ok (n, m)" "n \<le> length xs"
  shows "\<exists>s. from_xsave c xs = Ok s \<and> xerror s = None \<and> length (xa s) = SCALAR_COUNT \<and> (\<forall>k < SCALAR_COUNT. xa s ! k = xsave_word c xs m k)"
proof -
  note fit = calculate_xsave_Ok [OF size(1)]
  let ?a = "(replicate SCALAR_COUNT 0)[MXCSR_IDX := ucast (le_at xs 24 4 :: u32)]"
  define s0 where "s0 = extra_default\<lparr>xa := ?a, xmask := 4\<rparr>"
  have s0: "length (xa s0) = SCALAR_COUNT" "xa s0 = ?a" "xerror s0 = None" by (simp_all add: s0_def extra_default_def)
  obtain s1 where s1: "(if m AND push_bit 1 1 \<noteq> 0 then rfold (load_xmm xs) [0..<16] s0 else Ok s0) = Ok s1" "xerror s1 = None"
    "xa s1 = (if bit m 1 then blocks 0 8 0 2 16 (\<lambda>i j. le_at xs (160 + i * 16 + 8 * j) 8) ?a else ?a)"
    using load_xmm_loop [OF _ s0(1), of xs] fit(1) size(2) s0(2,3) unfolding test_bit by (cases "bit m 1") auto
  have l1: "length (xa s1) = SCALAR_COUNT" by (simp add: s1(3))
  obtain s2 where s2: "load_part 2 (ymm_offset c) m (\<lambda>st i s. rbind (ymm i) (\<lambda>y. load_words xs (st + i * 16) 2 (x_start y + 2) s)) 16 s1 = Ok s2"
    "xa s2 = (if bit m 2 then blocks 0 8 2 2 16 (\<lambda>i j. le_at xs (the (ymm_offset c) + i * 16 + 8 * j) 8) (xa s1) else xa s1)" "xerror s2 = xerror s1" "length (xa s2) = SCALAR_COUNT"
    by (rule load_part_Ok [OF fit(2) size(2) l1 ymm_loop [OF _ l1]])
  obtain s3 where s3: "load_part 5 (opmask_offset c) m (load_opmask xs) 8 s2 = Ok s3"
    "xa s3 = (if bit m 5 then blocks OPMASK_START 1 0 1 8 (\<lambda>i j. le_at xs (the (opmask_offset c) + i * 8) 8) (xa s2) else xa s2)" "xerror s3 = xerror s2" "length (xa s3) = SCALAR_COUNT"
    by (rule load_part_Ok [OF fit(3) size(2) s2(4) load_opmask_loop [OF _ s2(4)]])
  obtain s4 where s4: "load_part 6 (zmm_hi256_offset c) m (\<lambda>st i s. rbind (zmm i) (\<lambda>z. load_words xs (st + i * 32) 4 (x_start z + 4) s)) 16 s3 = Ok s4"
    "xa s4 = (if bit m 6 then blocks 0 8 4 4 16 (\<lambda>i j. le_at xs (the (zmm_hi256_offset c) + i * 32 + 8 * j) 8) (xa s3) else xa s3)" "xerror s4 = xerror s3" "length (xa s4) = SCALAR_COUNT"
    by (rule load_part_Ok [OF fit(4) size(2) s3(4) zmm_loop [OF _ s3(4)]])
  obtain s5 where s5: "load_part 7 (hi16_zmm_offset c) m (\<lambda>st i s. rbind (zmm (16 + i)) (\<lambda>z. load_words xs (st + i * 64) 8 (x_start z) s)) 16 s4 = Ok s5"
    "xa s5 = (if bit m 7 then blocks 128 8 0 8 16 (\<lambda>i j. le_at xs (the (hi16_zmm_offset c) + i * 64 + 8 * j) 8) (xa s4) else xa s4)" "xerror s5 = xerror s4" "length (xa s5) = SCALAR_COUNT"
    by (rule load_part_Ok [OF fit(5) size(2) s4(4) hi16_loop [OF _ s4(4)]])
  have "from_xsave c xs = Ok s5" using size fit(1) s1(1) s2(1) s3(1) s4(1) s5(1)
    by (simp add: from_xsave_def mxcsr_loaded s0_def [symmetric])
  moreover have "xa s5 ! k = xsave_word c xs m k" if "k < SCALAR_COUNT" for k
    using xsave_words [OF _ that refl, where m = m and c = c and xs = xs] unfolding s5(2) s4(2) s3(2) s2(2) s1(3) by simp
  ultimately show ?thesis using s5(3,4) s4(3) s3(3) s2(3) s1(2) by auto
qed

section \<open>Properties\<close>

lemma precalc_bound:
  assumes "precalc_xsave_component_offset q sz = Ok (Some p)" shows "p + sz \<le> 3072"
  using assms by (cases q) (auto simp: precalc_xsave_component_offset_def split: if_splits)

lemma xsave_parts_bound: "\<forall>(f, sz, off)\<in>set ps. \<forall>p. off = Some p \<longrightarrow> p + sz \<le> 3072 \<Longrightarrow> n0 \<le> 3072 \<Longrightarrow> fst (xsave_parts ps (n0, m0)) \<le> 3072"
proof (induction ps "(n0, m0)" arbitrary: n0 m0 rule: xsave_parts.induct)
  case (2 f sz off ps n m)
  show ?case
  proof (cases off)
    case None
    then show ?thesis using 2 by simp
  next
    case (Some p)
    then show ?thesis using 2 by simp
  qed
qed simp

lemma xsave_size_bound:
  assumes "precalc_globals_registers cpuid = Ok c" "calculate_xsave_full_size c xs = Ok (n, m)"
  shows "n \<le> 3072"
proof -
  let ?ps = "[(2, 256, ymm_offset c), (5, 64, opmask_offset c), (6, 512, zmm_hi256_offset c), (7, 1024, hi16_zmm_offset c)]"
  have "xsave_parts ?ps (576, le_at xs 512 8) = (n, m)" using assms(2) by (simp only: calculate_xsave_full_size_def split: if_splits) simp_all
  moreover have "\<forall>(f, sz, off)\<in>set ?ps. \<forall>p. off = Some p \<longrightarrow> p + sz \<le> 3072"
    using assms(1) by (auto simp: precalc_globals_registers_def dest!: precalc_bound)
  ultimately show ?thesis using xsave_parts_bound [of ?ps 576 "le_at xs 512 8"] by simp
qed

text \<open>
  (C10) Reading the wide registers from the XSAVE area never panics, whatever the area holds and
  whatever processor it comes from. An area that is too short or compacted gives the error; otherwise
  every word of every register is the one at its place in the area, or zero where the processor's
  state has no such part. What is needed of the area always fits the buffer that is passed to the
  system call.
\<close>

theorem xsave_registers_loaded:
  assumes "precalc_globals_registers cpuid = Ok c"
  shows "case calculate_xsave_full_size c xs of
      Ok (n, m) \<Rightarrow> n \<le> 3072 \<and> (if length xs < n then from_xsave c xs = Ok (from_error ProcessState)
        else \<exists>s. from_xsave c xs = Ok s \<and> xerror s = None \<and> length (xa s) = SCALAR_COUNT \<and> (\<forall>k < SCALAR_COUNT. xa s ! k = xsave_word c xs m k))
    | Err e \<Rightarrow> from_xsave c xs = Ok (from_error e)
    | Panic \<Rightarrow> False"
proof (cases "calculate_xsave_full_size c xs")
  case (Ok nm)
  obtain n m where nm: "nm = (n, m)" by (cases nm)
  show ?thesis using Ok xsave_size_bound [OF assms, of xs n m] from_xsave_Ok [of c xs n m] by (auto simp: nm from_xsave_def)
next
  case (Err e)
  then show ?thesis by (simp add: from_xsave_def)
next
  case Panic
  then show ?thesis by (simp add: calculate_xsave_full_size_def split: if_splits)
qed

text \<open>
  (C28) A register file always has a value for each register, and a register that was set reads as
  the value it was set to, the others as before. It is marked as a guess if it is set as one or was
  marked before: setting a register to a certain value does not clear the mark.
\<close>

theorem register_file_behaves:
  assumes "length (ints s) = COUNT"
  shows "length (ints (set_reg r v d s)) = COUNT
    \<and> get_reg r' (set_reg r v d s) = (if r' = r then Ok (v, d \<or> reg_is_dubious r s) else get_reg r' s)
    \<and> (has_reg r' s \<longleftrightarrow> (\<exists>x. get_reg r' s = Ok x))"
  using assms get_set_reg [of s r' r v d] by (auto simp: regs_ok_def set_reg_def has_reg_def get_reg_def)

text \<open>
  The name of every register reads back as that register, in any case of letters, and so do the
  names of the wide registers.
\<close>

lemma register_names_read_back:
  "(\<forall>r s. eq_ignore_ascii_case s (reg_name r) \<longrightarrow> parse_register s = Some r)
   \<and> (\<forall>x\<in>set extra_registers. \<exists>s. extra_name x = Ok s \<and> parse_extra s = Ok (Some x))"
  using parse_register_case extra_names_parse by blast

theorem register_file_behaves_witness:
  "get_reg Rsp (set_reg Rip 5 True registers_default) = Err ProcessState \<and> get_reg Rip (set_reg Rip 5 True registers_default) = Ok (5, True)"
  using register_file_behaves [of registers_default Rip 5 True Rsp] register_file_behaves [of registers_default Rip 5 True Rip]
  by (simp add: registers_default_def get_reg_def)

lemma register_names_read_back_example:
  "parse_register (bytes_of ''RaX'') = Some Rax"
  using register_names_read_back by (auto simp: eq_ignore_ascii_case_def reg_name_def REGISTER_NAMES_def to_ascii_lowercase_def)

text \<open>A processor without any of the four parts.\<close>

theorem xsave_registers_loaded_witness:
  "\<exists>c s. precalc_globals_registers (\<lambda>_. (0, 0)) = Ok c \<and> from_xsave c (replicate 576 0) = Ok s \<and> xerror s = None"
proof -
  obtain c where c: "precalc_globals_registers (\<lambda>_. (0, 0)) = Ok c"
    by (simp add: precalc_globals_registers_def precalc_xsave_component_offset_def)
  have z: "le_at (replicate 576 0) off 8 = (0 :: u64)" if "off = 520 \<or> off = 512" for off
    using that by (auto simp: le_at_def numeral_eq_Suc)
  have "calculate_xsave_full_size c (replicate 576 0) = Ok (576, 0)" by (simp add: calculate_xsave_full_size_def z)
  with xsave_registers_loaded [OF c, of "replicate 576 0"] c show ?thesis by auto
qed

end
