(* ===== verification/Lexer.thy ===== *)
theory Lexer
  imports Errors
begin

text \<open>
  The lexer of the watch expression language (\<open>src/interp.rs\<close>). Text is a list of Unicode scalar
  values; a position is a byte offset into the UTF-8 input, as in the code. An error ends the
  parse, so the state is only kept with a result. A floating point literal keeps the digits and
  the exponent it is made of; the arithmetic on \<open>f64\<close> that turns them into a value is left out.
  The results are that lexing any input ends without a panic, that numbers, strings and identifiers
  are read back, and how variable names are quoted.
\<close>

section \<open>Characters and the input stream\<close>

type_synonym uchar = nat
type_synonym ustr = "uchar list"

abbreviation uc :: "char \<Rightarrow> uchar" where
  "uc c \<equiv> of_char c"

definition ustr :: "string \<Rightarrow> ustr" where
  "ustr s = map of_char s"

definition len_utf8 :: "uchar \<Rightarrow> nat" where
  "len_utf8 c = (if c < 0x80 then 1 else if c < 0x800 then 2 else if c < 0x10000 then 3 else 4)"

definition to_digit :: "nat \<Rightarrow> uchar \<Rightarrow> nat option" where
  "to_digit radix c =
     (let d = (if 0x30 \<le> c \<and> c \<le> 0x39 then Some (c - 0x30)
               else if 0x61 \<le> c \<and> c \<le> 0x7A then Some (c - 0x61 + 10)
               else if 0x41 \<le> c \<and> c \<le> 0x5A then Some (c - 0x41 + 10)
               else None)
      in case d of Some v \<Rightarrow> if v < radix then Some v else None | None \<Rightarrow> None)"

definition is_digit :: "nat \<Rightarrow> uchar \<Rightarrow> bool" where
  "is_digit radix c \<longleftrightarrow> to_digit radix c \<noteq> None"

definition is_letter :: "uchar \<Rightarrow> bool" where
  "is_letter c \<longleftrightarrow> (0x61 \<le> c \<and> c \<le> 0x7A) \<or> (0x41 \<le> c \<and> c \<le> 0x5A)"

text \<open>What was eaten, last character first, and what is left.\<close>

record InputStream =
  before :: ustr
  rest :: ustr

definition pos :: "InputStream \<Rightarrow> nat" where
  "pos i = sum_list (map len_utf8 (before i))"

definition peek_char :: "InputStream \<Rightarrow> uchar option" where
  "peek_char i = (case rest i of [] \<Rightarrow> None | c # cs \<Rightarrow> Some c)"

definition eat_char :: "InputStream \<Rightarrow> uchar option \<times> InputStream" where
  "eat_char i = (case rest i of [] \<Rightarrow> (None, i)
     | c # cs \<Rightarrow> (Some c, \<lparr>before = c # before i, rest = cs\<rparr>))"

definition uneat :: "InputStream \<Rightarrow> InputStream eres" where
  "uneat i = (case before i of [] \<Rightarrow> Panic
     | c # cs \<Rightarrow> Ok \<lparr>before = cs, rest = c # rest i\<rparr>)"

definition eat_if_eq :: "uchar \<Rightarrow> InputStream \<Rightarrow> bool \<times> InputStream" where
  "eat_if_eq c i = (if peek_char i = Some c then (True, snd (eat_char i)) else (False, i))"

definition eat_digits :: "nat \<Rightarrow> InputStream \<Rightarrow> ustr \<times> InputStream" where
  "eat_digits radix i = (let ds = takeWhile (is_digit radix) (rest i) in
     (ds, \<lparr>before = rev ds @ before i, rest = dropWhile (is_digit radix) (rest i)\<rparr>))"

section \<open>Tokens\<close>

datatype UnaryOperator = Neg | Not | Borrow | Dereference

datatype BinaryOperator = Add | Sub | Mul | Div | Rem | BitAnd | BitOr | BitXor | Shl | Shr
  | Eq | Ne | Gt | Lt | Ge | Le | LazyAnd | LazyOr
  | Assign | AddAssign | SubAssign | MulAssign | DivAssign | RemAssign | AndAssign | OrAssign
  | XorAssign | ShlAssign | ShrAssign
  | Range | Index | Slicify | Comma

text \<open>\<open>F\<close>: radix, integer digits, fraction digits, radix of the exponent (0 for none), exponent.\<close>

datatype BasicValue = I int | U nat | F nat ustr ustr nat int

datatype LiteralValue = Basic BasicValue | LChar uchar | LString ustr

datatype Token = TBinary BinaryOperator | TUnary UnaryOperator | Arrow | TChar uchar
  | TLiteral LiteralValue | Identifier ustr bool | Eof

fun is_identifier :: "Token \<Rightarrow> bool" where
  "is_identifier (Identifier s quoted) = True"
| "is_identifier _ = False"

fun into_identifier :: "Token \<Rightarrow> ustr eres" where
  "into_identifier (Identifier s quoted) = Ok s"
| "into_identifier _ = Panic"

fun is_keyword :: "string \<Rightarrow> Token \<Rightarrow> bool" where
  "is_keyword w (Identifier s quoted) = (\<not> quoted \<and> s = ustr w)"
| "is_keyword w _ = False"

definition is_char :: "char \<Rightarrow> Token \<Rightarrow> bool" where
  "is_char c t \<longleftrightarrow> t = TChar (uc c)"

definition is_binary_operator :: "BinaryOperator \<Rightarrow> Token \<Rightarrow> bool" where
  "is_binary_operator op t \<longleftrightarrow> t = TBinary op"

fun as_unsigned :: "LiteralValue \<Rightarrow> nat option" where
  "as_unsigned (Basic (U x)) = Some x"
| "as_unsigned _ = None"

section \<open>One token\<close>

text \<open>\<open>eat_if_eq\<close> on each of the characters in turn.\<close>

fun branch :: "(uchar \<times> (InputStream \<Rightarrow> Token \<times> InputStream)) list \<Rightarrow>
    (InputStream \<Rightarrow> Token \<times> InputStream) \<Rightarrow> InputStream \<Rightarrow> Token \<times> InputStream" where
  "branch [] d i = d i"
| "branch ((c, k) # bs) d i = (case eat_if_eq c i of
      (True, i') \<Rightarrow> k i'
    | (False, i') \<Rightarrow> branch bs d i')"

definition bin :: "BinaryOperator \<Rightarrow> InputStream \<Rightarrow> Token \<times> InputStream" where
  "bin op i = (TBinary op, i)"

text \<open>The operators; \<open>None\<close> for a character that starts none.\<close>

definition lex_operator :: "uchar \<Rightarrow> (InputStream \<Rightarrow> Token \<times> InputStream) option" where
  "lex_operator c =
    (let eq = uc CHR ''='' in
     if c = uc CHR ''+'' then Some (branch [(eq, bin AddAssign)] (bin Add))
     else if c = uc CHR ''-'' then
       Some (branch [(uc CHR ''>'', \<lambda>i. (Arrow, i))] (branch [(eq, bin SubAssign)] (bin Sub)))
     else if c = uc CHR ''*'' then Some (branch [(eq, bin MulAssign)] (bin Mul))
     else if c = uc CHR ''/'' then Some (branch [(eq, bin DivAssign)] (bin Div))
     else if c = uc CHR ''%'' then Some (branch [(eq, bin RemAssign)] (bin Rem))
     else if c = uc CHR ''&'' then Some (branch [(eq, bin AndAssign), (uc CHR ''&'', bin LazyAnd)] (bin BitAnd))
     else if c = uc CHR ''|'' then Some (branch [(eq, bin OrAssign), (uc CHR ''|'', bin LazyOr)] (bin BitOr))
     else if c = uc CHR ''^'' then Some (branch [(eq, bin XorAssign)] (bin BitXor))
     else if c = uc CHR ''<'' then
       Some (branch [(eq, bin Le), (uc CHR ''<'', branch [(eq, bin ShlAssign)] (bin Shl))] (bin Lt))
     else if c = uc CHR ''>'' then
       Some (branch [(eq, bin Ge), (uc CHR ''>'', branch [(eq, bin ShrAssign)] (bin Shr))] (bin Gt))
     else if c = eq then Some (branch [(eq, bin Eq)] (bin Assign))
     else if c = uc CHR ''!'' then Some (branch [(eq, bin Ne)] (\<lambda>i. (TUnary Not, i)))
     else if c = uc CHR '','' then Some (bin Comma)
     else None)"

text \<open>After a backslash.\<close>

definition escape_sequence :: "InputStream \<Rightarrow> (uchar \<times> InputStream) eres" where
  "escape_sequence i = (case eat_char i of
      (None, i) \<Rightarrow> Err Syntax
    | (Some c, i) \<Rightarrow>
        if c = uc CHR ''0'' then Ok (0, i)
        else if c = uc CHR ''n'' then Ok (10, i)
        else if c = uc CHR ''r'' then Ok (13, i)
        else if c = uc CHR ''t'' then Ok (9, i)
        else if c = uc CHR ''x'' then
          (let (a, i) = eat_char i; (b, i) = eat_char i in
           case (a, b) of
             (Some a, Some b) \<Rightarrow>
               (case (to_digit 16 a, to_digit 16 b) of
                  (Some x, Some y) \<Rightarrow> Ok (x * 16 + y, i)
                | _ \<Rightarrow> Err Syntax)
           | _ \<Rightarrow> Err Syntax)
        else Ok (c, i))"

lemma eat_char_rest: "eat_char i = (Some c, i') \<Longrightarrow> rest i = c # rest i'"
  by (auto simp: eat_char_def split: list.splits)

lemma eat_char_le: "eat_char i = (x, i') \<Longrightarrow> length (rest i') \<le> length (rest i)"
  by (auto simp: eat_char_def split: list.splits)

lemma eat_char_lt: "eat_char i = (Some c, i') \<Longrightarrow> length (rest i') < length (rest i)"
  by (simp add: eat_char_rest)

lemma eat_char_snd_le: "length (rest (snd (eat_char i))) \<le> length (rest i)"
  by (simp add: eat_char_def split: list.splits)

lemma escape_sequence_rest: "escape_sequence i = Ok (c, i') \<Longrightarrow> length (rest i') < length (rest i)"
  by (auto simp: escape_sequence_def Let_def split: prod.splits option.splits if_splits
      dest!: eat_char_lt)

text \<open>The loop of a string literal or a quoted identifier, up to the closing \<open>q\<close>.\<close>

function lex_quoted :: "uchar \<Rightarrow> ustr \<Rightarrow> InputStream \<Rightarrow> (ustr \<times> InputStream) eres" where
  "lex_quoted q acc i = (case eat_char i of
      (None, i) \<Rightarrow> Err Syntax
    | (Some c, i') \<Rightarrow>
        if c = q then Ok (acc, i')
        else if c = 0x5C then
          (case escape_sequence i' of
             Ok (e, i'') \<Rightarrow> lex_quoted q (acc @ [e]) i''
           | Err e \<Rightarrow> Err e
           | Panic \<Rightarrow> Panic)
        else lex_quoted q (acc @ [c]) i')"
  by pat_completeness auto
termination
  by (relation "measure (\<lambda>(q, acc, i). length (rest i))")
    (auto dest!: eat_char_lt [OF sym] escape_sequence_rest)

declare lex_quoted.simps [simp del]

definition lex_char_literal :: "InputStream \<Rightarrow> (Token \<times> InputStream) eres" where
  "lex_char_literal i = rbind (case eat_char i of
        (None, i) \<Rightarrow> Err Syntax
      | (Some c, i) \<Rightarrow> if c = 0x27 then Err Syntax
          else if c = 0x5C then escape_sequence i else Ok (c, i))
     (\<lambda>(c, i). case eat_char i of
        (None, i) \<Rightarrow> Err Syntax
      | (Some c', i) \<Rightarrow> if c' = 0x27 then Ok (TLiteral (LChar c), i) else Err Syntax)"

subsection \<open>Numbers\<close>

text \<open>The digits of an integer literal, with overflow of \<open>usize\<close> as an error.\<close>

fun int_value :: "nat \<Rightarrow> nat \<Rightarrow> ustr \<Rightarrow> nat eres" where
  "int_value radix v [] = Ok v"
| "int_value radix v (c # cs) = (case to_digit radix c of
      None \<Rightarrow> Panic
    | Some d \<Rightarrow> if v * radix + d < 2 ^ 64 then int_value radix (v * radix + d) cs else Err Syntax)"

text \<open>\<open>saturating_mul\<close> and \<open>saturating_add\<close> on \<open>i32\<close>, for values that are not negative.\<close>

fun exp_value :: "nat \<Rightarrow> ustr \<Rightarrow> nat eres" where
  "exp_value e [] = Ok e"
| "exp_value e (c # cs) = (case to_digit 10 c of
      None \<Rightarrow> Panic
    | Some d \<Rightarrow> exp_value (min (2 ^ 31 - 1) (min (2 ^ 31 - 1) (e * 10) + d)) cs)"

definition lex_integer_part :: "InputStream \<Rightarrow> nat \<times> ustr \<times> InputStream" where
  "lex_integer_part i = (let (int_s, i) = eat_digits 10 i in
     if int_s = ustr ''0'' then
       (case eat_if_eq (uc CHR ''x'') i of
          (True, i) \<Rightarrow> (let (int_s, i) = eat_digits 16 i in (16, int_s, i))
        | (False, i) \<Rightarrow> (case eat_if_eq (uc CHR ''b'') i of
             (True, i) \<Rightarrow> (let (int_s, i) = eat_digits 2 i in (2, int_s, i))
           | (False, i) \<Rightarrow> (10, int_s, i)))
     else (10, int_s, i))"

text \<open>\<open>range_dot\<close>, \<open>has_dot\<close>, the fraction.\<close>

definition lex_fraction :: "bool \<Rightarrow> nat \<Rightarrow> InputStream \<Rightarrow> (bool \<times> bool \<times> ustr \<times> InputStream) eres" where
  "lex_fraction previous_dot radix i =
     (if previous_dot then Ok (False, False, [], i)
      else case eat_if_eq (uc CHR ''.'') i of
        (False, i) \<Rightarrow> Ok (False, False, [], i)
      | (True, i) \<Rightarrow>
          if peek_char i = Some (uc CHR ''.'') then rbind (uneat i) (\<lambda>i. Ok (True, False, [], i))
          else (let (frac_s, i) = eat_digits radix i in Ok (False, True, frac_s, i)))"

text \<open>Radix, sign and digits of the exponent.\<close>

definition lex_exponent :: "bool \<Rightarrow> InputStream \<Rightarrow> nat \<times> bool \<times> ustr \<times> InputStream" where
  "lex_exponent previous_dot i =
     (let (e, i) = (if previous_dot then (False, i) else eat_if_eq (uc CHR ''e'') i);
          (p, i) = (if e then (False, i) else eat_if_eq (uc CHR ''p'') i);
          exp_radix = (if e then 10 else if p then 2 else 0);
          (neg, i) = (if exp_radix \<noteq> 0 then eat_if_eq (uc CHR ''-'') i else (False, i));
          (exp_s, i) = (if exp_radix = 0 then ([], i) else eat_digits 10 i)
      in (exp_radix, neg, exp_s, i))"

text \<open>What may not follow a number.\<close>

definition bad_number_end :: "bool \<Rightarrow> bool \<Rightarrow> InputStream \<Rightarrow> bool" where
  "bad_number_end previous_dot range_dot i = (case peek_char i of
      None \<Rightarrow> False
    | Some c \<Rightarrow> (0x30 \<le> c \<and> c \<le> 0x39) \<or> is_letter c \<or> c = uc CHR ''_''
        \<or> (c = uc CHR ''.'' \<and> \<not> previous_dot \<and> \<not> range_dot))"

definition lex_number :: "bool \<Rightarrow> InputStream \<Rightarrow> (Token \<times> InputStream) eres" where
  "lex_number previous_dot i =
     (let (radix, int_s, i) = lex_integer_part i in
      rbind (lex_fraction previous_dot radix i) (\<lambda>(range_dot, has_dot, frac_s, i).
        (let (exp_radix, exp_negative, exp_s, i) = lex_exponent previous_dot i in
         if bad_number_end previous_dot range_dot i then Err Syntax
         else if has_dot \<or> exp_radix \<noteq> 0 then
           rbind (exp_value 0 exp_s) (\<lambda>e.
             Ok (TLiteral (Basic (F radix int_s frac_s exp_radix (if exp_negative then - int e else int e))), i))
         else rbind (int_value radix 0 int_s) (\<lambda>v. Ok (TLiteral (Basic (U v)), i)))))"

subsection \<open>Identifiers\<close>

definition is_ident_char :: "uchar \<Rightarrow> bool" where
  "is_ident_char c \<longleftrightarrow> is_letter c \<or> c = uc CHR ''_'' \<or> c = uc CHR ''#'' \<or> c = uc CHR ''$''"

text \<open>
  The loop of an unquoted identifier. A colon is part of it only when another one follows: the
  first is eaten and pushed, and the second goes the way of every other character.
\<close>

function lex_identifier :: "ustr \<Rightarrow> InputStream \<Rightarrow> (ustr \<times> InputStream) eres" where
  "lex_identifier acc i = (case eat_char i of
      (None, _) \<Rightarrow> Ok (acc, i)
    | (Some c, i') \<Rightarrow>
        if is_ident_char c \<or> (0x30 \<le> c \<and> c \<le> 0x39) then lex_identifier (acc @ [c]) i'
        else if c = uc CHR '':'' then
          (if peek_char i' = Some (uc CHR '':'') then lex_identifier (acc @ [c, c]) (snd (eat_char i'))
           else (case uneat i' of Ok i'' \<Rightarrow> Ok (acc, i'') | Err e \<Rightarrow> Err e | Panic \<Rightarrow> Panic))
        else Ok (acc, i))"
  by pat_completeness auto
termination
  by (relation "measure (\<lambda>(acc, i). length (rest i))")
    (auto dest!: eat_char_lt [OF sym] intro: le_less_trans [OF eat_char_snd_le])

declare lex_identifier.simps [simp del]

subsection \<open>The token that starts at a character\<close>

text \<open>
  \<open>c\<close> was eaten already. The result is the token, the input after it and the new value of the
  flag that the last token was a dot.
\<close>

definition starts_identifier :: "uchar \<Rightarrow> bool" where
  "starts_identifier c \<longleftrightarrow> is_ident_char c \<or> c = uc CHR '':''"

definition lex_token :: "bool \<Rightarrow> uchar \<Rightarrow> InputStream \<Rightarrow> (Token \<times> InputStream \<times> bool) eres" where
  "lex_token previous_dot c i =
     (case lex_operator c of
        Some k \<Rightarrow> (let (t, i) = k i in Ok (t, i, False))
      | None \<Rightarrow>
        if c = uc CHR ''.'' then
          (case eat_if_eq (uc CHR ''.'') i of
             (True, i) \<Rightarrow> Ok (TBinary Range, i, False)
           | (False, i) \<Rightarrow> Ok (TChar c, i, True))
        else if c \<in> set (ustr ''()[]{};@'') then Ok (TChar c, i, False)
        else if c = uc CHR '':'' \<and> peek_char i \<noteq> Some (uc CHR '':'') then Ok (TChar c, i, False)
        else if c = 0x22 then
          rbind (lex_quoted c [] i) (\<lambda>(s, i). Ok (TLiteral (LString s), i, False))
        else if c = 0x27 then
          rbind (lex_char_literal i) (\<lambda>(t, i). Ok (t, i, False))
        else if 0x30 \<le> c \<and> c \<le> 0x39 then
          rbind (uneat i) (\<lambda>i. rbind (lex_number previous_dot i) (\<lambda>(t, i). Ok (t, i, False)))
        else if c = 0x60 then
          rbind (lex_quoted c [] i) (\<lambda>(s, i). Ok (Identifier s True, i, False))
        else if starts_identifier c then
          rbind (uneat i) (\<lambda>i. rbind (lex_identifier [] i) (\<lambda>(s, i). Ok (Identifier s False, i, False)))
        else Err Syntax)"

definition is_whitespace :: "uchar \<Rightarrow> bool" where
  "is_whitespace c \<longleftrightarrow> c = 0x20 \<or> c = 9 \<or> c = 10 \<or> c = 13"

section \<open>The lexer makes progress and does not panic\<close>

text \<open>
  The whole text is split in two; the input stream only moves the border. \<open>advance i i'\<close> says that
  it moved to the right.
\<close>

definition whole :: "InputStream \<Rightarrow> ustr" where
  "whole i = rev (before i) @ rest i"

definition advance :: "InputStream \<Rightarrow> InputStream \<Rightarrow> bool" where
  "advance i i' \<longleftrightarrow> whole i' = whole i \<and> length (rest i') \<le> length (rest i)"

lemma advance_refl [simp]: "advance i i"
  by (simp add: advance_def)

lemma advance_trans: "advance i j \<Longrightarrow> advance j k \<Longrightarrow> advance i k"
  by (auto simp: advance_def)

lemma advance_eat_char: "eat_char i = (x, i') \<Longrightarrow> advance i i'"
  by (auto simp: eat_char_def advance_def whole_def split: list.splits)

lemma advance_snd_eat_char [simp]: "advance i (snd (eat_char i))"
  by (metis advance_eat_char prod.collapse)

lemma advance_eat_if_eq: "eat_if_eq c i = (b, i') \<Longrightarrow> advance i i'"
  by (auto simp: eat_if_eq_def split: if_splits)

lemma advance_eat_digits: "eat_digits r i = (ds, i') \<Longrightarrow> advance i i'"
  by (auto simp: eat_digits_def advance_def whole_def Let_def length_dropWhile_le)

lemmas advances = advance_eat_char advance_eat_if_eq advance_eat_digits

lemma advance_branch:
  assumes "\<And>c k j. (c, k) \<in> set bs \<Longrightarrow> advance j (snd (k j))" "\<And>j. advance j (snd (d j))"
  shows "advance i (snd (branch bs d i))"
  using assms
proof (induction bs arbitrary: i)
  case (Cons b bs)
  obtain c k where b: "b = (c, k)" by fastforce
  obtain e i' where e: "eat_if_eq c i = (e, i')" by fastforce
  have "advance i' (snd (k i'))" "advance i' (snd (branch bs d i'))"
    using Cons b by auto
  then show ?case using b e advance_eat_if_eq [OF e] by (cases e) (auto intro: advance_trans)
qed simp

lemma advance_bin [simp]: "advance i (snd (bin op i))"
  by (simp add: bin_def)

lemma advance_operator: "lex_operator c = Some k \<Longrightarrow> advance i (snd (k i))"
  unfolding lex_operator_def Let_def
  by (auto split: if_splits intro!: advance_branch)

text \<open>A partial lexer that moves right, and one that moves by a character at least.\<close>

definition good :: "InputStream \<Rightarrow> ('a \<times> InputStream) eres \<Rightarrow> bool" where
  "good i r \<longleftrightarrow> (case r of Ok (x, i') \<Rightarrow> advance i i' | Err e \<Rightarrow> e = Syntax | Panic \<Rightarrow> False)"

definition good1 :: "InputStream \<Rightarrow> ('a \<times> InputStream) eres \<Rightarrow> bool" where
  "good1 i r \<longleftrightarrow> good i r \<and> (\<forall>x i'. r = Ok (x, i') \<longrightarrow> length (rest i') < length (rest i))"

lemma good_Ok [simp]: "good i (Ok (x, i')) \<longleftrightarrow> advance i i'"
  and good_Err [simp]: "good i (Err e) \<longleftrightarrow> e = Syntax"
  and good_Panic [simp]: "\<not> good i Panic"
  by (simp_all add: good_def)

lemma good_advance: "advance i j \<Longrightarrow> good j r \<Longrightarrow> good i r"
  by (auto simp: good_def split: result.splits prod.splits intro: advance_trans)

lemma good_rbind: "good i m \<Longrightarrow> (\<And>x j. m = Ok (x, j) \<Longrightarrow> advance i j \<Longrightarrow> good i (k (x, j))) \<Longrightarrow> good i (rbind m k)"
  by (cases m) (auto simp: good_def)

lemma good_escape: "good i (escape_sequence i)"
  unfolding escape_sequence_def Let_def
  by (auto split: prod.splits option.splits intro: advance_trans dest!: advance_eat_char)

lemma good_quoted: "good i (lex_quoted q acc i)"
proof (induction q acc i rule: lex_quoted.induct)
  case (1 q acc i)
  obtain x i' where e: "eat_char i = (x, i')" by fastforce
  note adv = advance_eat_char [OF e]
  show ?case
  proof (cases x)
    case None
    with e show ?thesis by (simp add: lex_quoted.simps [of q acc i])
  next
    case (Some c)
    show ?thesis
    proof (cases "c = 0x5C \<and> c \<noteq> q")
      case True
      have "good i' (escape_sequence i')" by (rule good_escape)
      with True "1.IH"(1) [OF e [symmetric] Some] e Some adv show ?thesis
        by (auto simp: lex_quoted.simps [of q acc i] good_def [of i' "escape_sequence i'"]
            split: result.splits intro: good_advance advance_trans)
    next
      case False
      with "1.IH"(2) [OF e [symmetric] Some] e Some adv show ?thesis
        by (auto simp: lex_quoted.simps [of q acc i] intro: good_advance)
    qed
  qed
qed

lemma good_char_literal: "good i (lex_char_literal i)"
  unfolding lex_char_literal_def
proof (rule good_rbind)
  show "good i (case eat_char i of (None, i) \<Rightarrow> Err Syntax
      | (Some c, i) \<Rightarrow> if c = 0x27 then Err Syntax else if c = 0x5C then escape_sequence i else Ok (c, i))"
    by (auto split: prod.splits option.splits dest!: advance_eat_char intro: good_advance good_escape)
  fix c j assume "advance i j"
  then show "good i (case (c, j) of (c, i) \<Rightarrow> case eat_char i of (None, i) \<Rightarrow> Err Syntax
      | (Some c', i) \<Rightarrow> if c' = 0x27 then Ok (TLiteral (LChar c), i) else Err Syntax)"
    by (auto split: prod.splits option.splits dest!: advance_eat_char intro: advance_trans)
qed

subsection \<open>Numbers\<close>

lemma int_value_digits:
  "\<forall>c \<in> set ds. is_digit radix c \<Longrightarrow> (\<exists>v'. int_value radix v ds = Ok v') \<or> int_value radix v ds = Err Syntax"
  by (induction radix v ds rule: int_value.induct) (auto simp: is_digit_def split: if_splits)

lemma exp_value_digits: "\<forall>c \<in> set ds. is_digit 10 c \<Longrightarrow> \<exists>e'. exp_value e ds = Ok e'"
  by (induction e ds rule: exp_value.induct) (auto simp: is_digit_def)

lemma eat_digits_set: "eat_digits radix i = (ds, i') \<Longrightarrow> \<forall>c \<in> set ds. is_digit radix c"
  by (auto simp: eat_digits_def Let_def dest: set_takeWhileD)

lemma integer_part:
  assumes "lex_integer_part i = (radix, ds, i')"
  shows "advance (snd (eat_digits 10 i)) i' \<and> (\<forall>c \<in> set ds. is_digit radix c)"
  using assms unfolding lex_integer_part_def Let_def
  by (auto split: prod.splits if_splits bool.splits intro: advance_trans
      dest!: advance_eat_if_eq simp: eat_digits_set dest: advance_eat_digits)

lemma good_fraction:
  assumes "lex_fraction pd radix i = r"
  shows "case r of Ok (rd, dot, fs, i') \<Rightarrow> advance i i' | Err e \<Rightarrow> e = Syntax | Panic \<Rightarrow> False"
proof -
  have "eat_if_eq c i = (True, i') \<Longrightarrow> uneat i' = Ok i" for c i'
    by (auto simp: eat_if_eq_def eat_char_def uneat_def peek_char_def split: if_splits list.splits)
  then show ?thesis
    using assms unfolding lex_fraction_def Let_def
    by (auto split: prod.splits if_splits bool.splits
        intro: advance_trans [OF advance_eat_if_eq advance_eat_digits] advance_eat_if_eq)
qed

lemma exponent:
  "lex_exponent pd i = (er, en, es, i') \<Longrightarrow> advance i i' \<and> (\<forall>c \<in> set es. is_digit 10 c)"
  unfolding lex_exponent_def Let_def
  by (auto split: prod.splits if_splits intro: advance_trans simp: eat_digits_set dest!: advances)

lemma number_rest:
  assumes "rest i = c # cs" "is_digit 10 c" "eat_digits 10 i = (ds, i')"
  shows "length (rest i') \<le> length cs"
  using assms by (auto simp: eat_digits_def Let_def length_dropWhile_le)

lemma good_number:
  assumes "rest i = c # cs" "is_digit 10 c" shows "good1 i (lex_number pd i)"
proof -
  obtain radix ds i1 where a: "lex_integer_part i = (radix, ds, i1)" by (metis prod_cases3)
  obtain ds0 i0 where d: "eat_digits 10 i = (ds0, i0)" by fastforce
  have adv1: "advance i0 i1" and dig: "\<forall>c \<in> set ds. is_digit radix c" using integer_part [OF a] d by auto
  have "length (rest i1) \<le> length (rest i0)" using adv1 by (simp add: advance_def)
  then have lt: "length (rest i1) < length (rest i)" using number_rest [OF assms d] assms(1) by simp
  have adv: "advance i i1" using adv1 advance_eat_digits [OF d] advance_trans by blast
  show ?thesis
  proof (cases "lex_fraction pd radix i1")
    case (Ok y)
    obtain rd dot fs i2 where y: "y = (rd, dot, fs, i2)" by (metis prod_cases4)
    with good_fraction [OF Ok] have adv2: "advance i1 i2" by simp
    obtain er en es i3 where e: "lex_exponent pd i2 = (er, en, es, i3)" by (metis prod_cases4)
    with exponent have adv3: "advance i2 i3" and es: "\<forall>c \<in> set es. is_digit 10 c" by blast+
    have all: "advance i i3" "length (rest i3) < length (rest i)"
      using adv adv2 adv3 lt by (auto simp: advance_def)
    obtain ev where ev: "exp_value 0 es = Ok ev" using exp_value_digits [OF es] by blast
    show ?thesis
      using int_value_digits [OF dig, of 0] all
      by (auto simp: lex_number_def a Ok y e ev good1_def)
  qed (use good_fraction [of pd radix i1] in \<open>auto simp: lex_number_def a good1_def\<close>)
qed

lemma lex_number_not_Eof: "lex_number pd i = Ok (t, i') \<Longrightarrow> t \<noteq> Eof"
  by (auto simp: lex_number_def Let_def case_prod_beta split: if_splits)

subsection \<open>Identifiers and tokens\<close>

lemma uneat_eat: "eat_char i = (Some c, i') \<Longrightarrow> uneat i' = Ok i"
  by (auto simp: eat_char_def uneat_def split: list.splits)

lemma good_identifier: "good i (lex_identifier acc i)"
proof (induction acc i rule: lex_identifier.induct)
  case (1 acc i)
  obtain x i' where e: "eat_char i = (x, i')" by fastforce
  note adv = advance_eat_char [OF e]
  show ?case
  proof (cases x)
    case None
    with e show ?thesis by (simp add: lex_identifier.simps [of acc i])
  next
    case (Some c)
    consider "is_ident_char c \<or> (0x30 \<le> c \<and> c \<le> 0x39)"
      | "\<not> (is_ident_char c \<or> (0x30 \<le> c \<and> c \<le> 0x39))" "c = uc CHR '':''" "peek_char i' = Some (uc CHR '':'')"
      | "\<not> (is_ident_char c \<or> (0x30 \<le> c \<and> c \<le> 0x39))" "c \<noteq> uc CHR '':'' \<or> peek_char i' \<noteq> Some (uc CHR '':'')"
      by blast
    then show ?thesis
    proof cases
      case 1
      with "1.IH"(1) [OF e [symmetric] Some] e Some adv show ?thesis
        by (auto simp: lex_identifier.simps [of acc i] intro: good_advance)
    next
      case 2
      from "1.IH"(2) [OF e [symmetric] Some 2]
      have "good i (lex_identifier (acc @ [c, c]) (snd (eat_char i')))"
        using adv by (meson advance_snd_eat_char good_advance)
      with 2 e Some show ?thesis by (auto simp: lex_identifier.simps [of acc i])
    next
      case 3
      with e Some uneat_eat [of i c i'] show ?thesis by (auto simp: lex_identifier.simps [of acc i])
    qed
  qed
qed

lemma identifier_rest:
  assumes "lex_identifier acc i = Ok (s, i')"
  shows "length (rest i') \<le> length (rest i)"
  using good_identifier [of i acc] assms by (simp add: advance_def)

lemma good1_identifier:
  assumes "rest i = c # cs" "is_ident_char c \<or> c = uc CHR '':'' \<and> (\<exists>cs'. cs = uc CHR '':'' # cs')"
  shows "good1 i (lex_identifier acc i)"
proof -
  have "length (rest i') < length (rest i)" if "lex_identifier acc i = Ok (s, i')" for s i'
    using that assms identifier_rest [of "acc @ [c]" "\<lparr>before = c # before i, rest = cs\<rparr>" s i']
      identifier_rest [of "acc @ [c, c]" "snd (eat_char \<lparr>before = c # before i, rest = cs\<rparr>)" s i']
    by (auto simp: lex_identifier.simps [of acc i] eat_char_def peek_char_def split: if_splits)
  then show ?thesis using good_identifier by (simp add: good1_def)
qed

text \<open>The token after an eaten character \<open>c\<close>: no panic, and nothing before it is read again.\<close>

lemma good_token:
  assumes "eat_char i0 = (Some c, i)"
  shows "case lex_token pd c i of
      Ok (t, i', pd') \<Rightarrow> advance i i' \<and> t \<noteq> Eof
    | Err e \<Rightarrow> e = Syntax
    | Panic \<Rightarrow> False"
proof -
  have u: "uneat i = Ok i0" by (rule uneat_eat [OF assms])
  have r0: "rest i0 = c # rest i" by (rule eat_char_rest [OF assms])
  have w: "whole i = whole i0" using advance_eat_char [OF assms] by (simp add: advance_def)
  have adv: "advance i j" if "advance i0 j" "length (rest j) < length (rest i0)" for j
    using that r0 w by (simp add: advance_def)
  have op: "t \<noteq> Eof" if "lex_operator c = Some k" "k i = (t, j)" for k t j
    using that unfolding lex_operator_def Let_def bin_def by (auto split: if_splits prod.splits bool.splits)
  have num: "case rbind (lex_number pd i0) (\<lambda>(t, i). Ok (t, i, False)) of
      Ok (t, i', pd') \<Rightarrow> advance i i' \<and> t \<noteq> Eof | Err e \<Rightarrow> e = Syntax | Panic \<Rightarrow> False"
    if d: "0x30 \<le> c" "c \<le> 0x39"
  proof -
    have "is_digit 10 c" using d by (simp add: is_digit_def to_digit_def)
    from good_number [OF r0 this, of pd] show ?thesis
      using adv lex_number_not_Eof [of pd i0] by (cases "lex_number pd i0") (auto simp: good1_def)
  qed
  have ident: "case rbind (lex_identifier [] i0) (\<lambda>(s, i). Ok (Identifier s False, i, False)) of
      Ok (t, i', pd') \<Rightarrow> advance i i' \<and> t \<noteq> Eof | Err e \<Rightarrow> e = Syntax | Panic \<Rightarrow> False"
    if "starts_identifier c" "\<not> (c = uc CHR '':'' \<and> peek_char i \<noteq> Some (uc CHR '':''))"
  proof -
    have "is_ident_char c \<or> c = uc CHR '':'' \<and> (\<exists>cs'. rest i = uc CHR '':'' # cs')"
      using that by (auto simp: starts_identifier_def peek_char_def split: list.splits)
    from good1_identifier [OF r0 this, of "[]"] show ?thesis
      using adv by (cases "lex_identifier [] i0") (auto simp: good1_def)
  qed
  have quo: "case rbind (lex_quoted q [] i) (\<lambda>(s, i). Ok (k s, i, False)) of
      Ok (t, i', pd') \<Rightarrow> advance i i' \<and> t \<noteq> Eof | Err e \<Rightarrow> e = Syntax | Panic \<Rightarrow> False"
    if "\<And>s. k s \<noteq> Eof" for q k
    using good_quoted [of i q "[]"] that by (cases "lex_quoted q [] i") auto
  have chr: "case rbind (lex_char_literal i) (\<lambda>(t, i). Ok (t, i, False)) of
      Ok (t, i', pd') \<Rightarrow> advance i i' \<and> t \<noteq> Eof | Err e \<Rightarrow> e = Syntax | Panic \<Rightarrow> False"
    using good_char_literal [of i]
    by (cases "lex_char_literal i") (auto simp: lex_char_literal_def split: prod.splits option.splits if_splits)
  show ?thesis
  proof (cases "lex_operator c")
    case (Some k)
    obtain t j where k: "k i = (t, j)" by fastforce
    with Some op advance_operator [OF Some, of i] show ?thesis by (simp add: lex_token_def)
  next
    case None
    show ?thesis
      unfolding lex_token_def None option.case u rbind.simps
      using num ident quo [of "\<lambda>s. TLiteral (LString s)"] quo [of "\<lambda>s. Identifier s True"] chr
      by (auto split: prod.splits bool.splits dest: advance_eat_if_eq)
  qed
qed

section \<open>The lexer\<close>

type_synonym span = "nat \<times> nat"

record Lexer =
  input :: InputStream
  next_tokens :: "(span \<times> Token) list"
  previous_token_end :: nat
  previous_dot :: bool

definition lexer_new :: "ustr \<Rightarrow> Lexer" where
  "lexer_new s = \<lparr>input = \<lparr>before = [], rest = s\<rparr>, next_tokens = [], previous_token_end = 0, previous_dot = False\<rparr>"

definition lex_step :: "Lexer \<Rightarrow> Lexer option eres" where
  "lex_step lx = (case eat_char (input lx) of
      (None, _) \<Rightarrow> Ok None
    | (Some c, i) \<Rightarrow>
        if is_whitespace c then Ok (Some (lx\<lparr>input := i, previous_dot := False\<rparr>))
        else rbind (lex_token (previous_dot lx) c i) (\<lambda>(t, i', pd).
          Ok (Some (lx\<lparr>input := i', previous_dot := pd,
            next_tokens := next_tokens lx @ [((pos (input lx), pos i'), t)]\<rparr>))))"

lemma lex_step_Some:
  assumes "lex_step lx = Ok (Some lx')"
  shows "advance (input lx) (input lx') \<and> length (rest (input lx')) < length (rest (input lx))
    \<and> previous_token_end lx' = previous_token_end lx
    \<and> (next_tokens lx' = next_tokens lx
       \<or> (\<exists>r t. next_tokens lx' = next_tokens lx @ [(r, t)] \<and> t \<noteq> Eof))"
proof -
  obtain c i where e: "eat_char (input lx) = (Some c, i)"
    using assms by (auto simp: lex_step_def split: prod.splits option.splits)
  note lt = eat_char_lt [OF e] and adv = advance_eat_char [OF e]
  show ?thesis
  proof (cases "is_whitespace c")
    case True
    with assms e lt adv show ?thesis by (auto simp: lex_step_def)
  next
    case False
    with assms e obtain t i' pd where t: "lex_token (previous_dot lx) c i = Ok (t, i', pd)"
      and lx': "lx' = lx\<lparr>input := i', previous_dot := pd,
            next_tokens := next_tokens lx @ [((pos (input lx), pos i'), t)]\<rparr>"
      by (auto simp: lex_step_def)
    have "advance i i'" "t \<noteq> Eof" using good_token [OF e, of "previous_dot lx"] t by auto
    with lx' lt adv show ?thesis by (auto simp: advance_def)
  qed
qed

text \<open>\<open>Lexer::peek\<close>: \<open>Eof\<close> is returned and not queued.\<close>

function peek :: "nat \<Rightarrow> Lexer \<Rightarrow> ((span \<times> Token) \<times> Lexer) eres" where
  "peek n lx =
     (if n = 0 then Panic
      else if length (next_tokens lx) \<ge> n then Ok (next_tokens lx ! (n - 1), lx)
      else (case lex_step lx of
          Ok None \<Rightarrow> Ok (((pos (input lx), pos (input lx)), Eof), lx)
        | Ok (Some lx') \<Rightarrow> peek n lx'
        | Err e \<Rightarrow> Err e
        | Panic \<Rightarrow> Panic))"
  by pat_completeness auto
termination
  by (relation "measure (\<lambda>(n, lx). length (rest (input lx)))") (auto dest: lex_step_Some)

declare peek.simps [simp del]

text \<open>\<open>eat\<close>, \<open>eat_if\<close>, \<open>peek_expect\<close> and \<open>expect\<close>; the parser calls them with one token only.\<close>

definition eat :: "nat \<Rightarrow> Lexer \<Rightarrow> ((span \<times> Token) \<times> Lexer) eres" where
  "eat n lx = rbind (peek n lx) (\<lambda>((r, t), lx).
     (let lx = lx\<lparr>previous_token_end := snd r\<rparr>;
          k = min n (length (next_tokens lx));
          drained = take k (next_tokens lx);
          lx' = lx\<lparr>next_tokens := drop k (next_tokens lx)\<rparr>
      in Ok (if drained = [] then ((pos (input lx), pos (input lx)), Eof) else last drained, lx')))"

definition eat_if :: "(Token \<Rightarrow> bool) \<Rightarrow> Lexer \<Rightarrow> ((span \<times> Token) option \<times> Lexer) eres" where
  "eat_if f lx = rbind (peek 1 lx) (\<lambda>((r, t), lx).
     if f t then
       (case next_tokens lx of
          [] \<Rightarrow> Panic
        | (r', t') # ts \<Rightarrow> Ok (Some (r', t'), lx\<lparr>next_tokens := ts, previous_token_end := snd r'\<rparr>))
     else Ok (None, lx))"

definition peek_expect :: "(Token \<Rightarrow> bool) \<Rightarrow> Lexer \<Rightarrow> ((span \<times> Token) \<times> Lexer) eres" where
  "peek_expect f lx = rbind (peek 1 lx) (\<lambda>((r, t), lx). if f t then Ok ((r, t), lx) else Err Syntax)"

definition expect :: "(Token \<Rightarrow> bool) \<Rightarrow> Lexer \<Rightarrow> ((span \<times> Token) \<times> Lexer) eres" where
  "expect f lx = rbind (peek_expect f lx) (\<lambda>(_, lx). eat 1 lx)"

section \<open>Variable names as expressions\<close>

text \<open>
  Whether a name is a register is decided elsewhere (\<open>RegisterIdx::parse_ignore_case\<close>), so it is a
  parameter here.
\<close>

definition should_quote_identifier :: "ustr \<Rightarrow> bool" where
  "should_quote_identifier name \<longleftrightarrow> name = []
     \<or> \<not> starts_identifier (hd name)
     \<or> (\<exists>c \<in> set (tl name). \<not> (starts_identifier c \<or> (0x30 \<le> c \<and> c \<le> 0x39)))"

definition make_expression_for_variable :: "(ustr \<Rightarrow> bool) \<Rightarrow> ustr \<Rightarrow> ustr" where
  "make_expression_for_variable is_register name =
     (if is_register name \<or> should_quote_identifier name then 0x60 # name @ [0x60] else name)"

section \<open>Reading back\<close>

lemma peek_1_token:
  assumes "next_tokens lx = []" "eat_char (input lx) = (Some c, i)" "\<not> is_whitespace c"
    and "lex_token (previous_dot lx) c i = Ok (t, i', pd)"
  shows "\<exists>lx'. peek 1 lx = Ok (((pos (input lx), pos i'), t), lx') \<and> rest (input lx') = rest i'"
proof -
  let ?lx = "lx\<lparr>input := i', previous_dot := pd, next_tokens := [((pos (input lx), pos i'), t)]\<rparr>"
  have "lex_step lx = Ok (Some ?lx)" using assms by (simp add: lex_step_def)
  then have "peek 1 lx = peek 1 ?lx" using assms(1) by (subst peek.simps) simp
  also have "\<dots> = Ok (((pos (input lx), pos i'), t), ?lx)" by (subst peek.simps) simp
  finally show ?thesis by simp
qed

text \<open>Decimal numbers.\<close>

fun fmt_dec :: "nat \<Rightarrow> ustr" where
  "fmt_dec n = (if n < 10 then [0x30 + n] else fmt_dec (n div 10) @ [0x30 + n mod 10])"

declare fmt_dec.simps [simp del]

lemma to_digit_dec [simp]: "d < 10 \<Longrightarrow> to_digit 10 (0x30 + d) = Some d"
  by (simp add: to_digit_def)

lemma int_value_append: "int_value r v (xs @ ys) = rbind (int_value r v xs) (\<lambda>v. int_value r v ys)"
  by (induction r v xs rule: int_value.induct) (auto split: option.splits)

lemma int_value_fmt_dec: "n < 2 ^ 64 \<Longrightarrow> int_value 10 0 (fmt_dec n) = Ok n"
proof (induction n rule: fmt_dec.induct)
  case (1 n)
  show ?case
  proof (cases "n < 10")
    case True
    with "1.prems" show ?thesis by (simp add: fmt_dec.simps [of n])
  next
    case False
    have "n div 10 < 2 ^ 64" using "1.prems" by (meson div_le_dividend le_less_trans)
    with 1 False have "int_value 10 0 (fmt_dec (n div 10)) = Ok (n div 10)" by simp
    moreover have "n div 10 * 10 + n mod 10 = n" by simp
    ultimately show ?thesis
      using False "1.prems" by (simp add: fmt_dec.simps [of n] int_value_append del: rbind_eq_Ok)
  qed
qed

lemma int_value_big:
  "2 ^ 64 \<le> n \<Longrightarrow> int_value 10 0 (fmt_dec n) = Err Syntax"
proof (induction n rule: fmt_dec.induct)
  case (1 n)
  have n: "\<not> n < 10" using "1.prems" by simp
  show ?case
  proof (cases "n div 10 < 2 ^ 64")
    case True
    have "n div 10 * 10 + n mod 10 = n" by simp
    then show ?thesis
      using n "1.prems" int_value_fmt_dec [OF True]
      by (simp add: fmt_dec.simps [of n] int_value_append del: rbind_eq_Ok)
  next
    case False
    with "1.IH" [OF n] show ?thesis using n by (simp add: fmt_dec.simps [of n] int_value_append del: rbind_eq_Ok)
  qed
qed

lemma fmt_dec_digits: "\<forall>c \<in> set (fmt_dec n). is_digit 10 c \<and> 0x30 \<le> c \<and> c \<le> 0x39"
proof (induction n rule: fmt_dec.induct)
  case (1 n)
  then show ?case by (cases "n < 10") (auto simp: fmt_dec.simps [of n] is_digit_def)
qed

lemma fmt_dec_nonempty [simp]: "fmt_dec n \<noteq> []"
  by (simp add: fmt_dec.simps [of n])

text \<open>What may follow a number without becoming part of it.\<close>

definition ends_number :: "ustr \<Rightarrow> bool" where
  "ends_number s \<longleftrightarrow> (case s of [] \<Rightarrow> True
     | c # _ \<Rightarrow> \<not> (0x30 \<le> c \<and> c \<le> 0x39) \<and> \<not> is_letter c \<and> c \<noteq> uc CHR ''_'' \<and> c \<noteq> uc CHR ''.'')"

lemma eat_digits_dec:
  assumes "\<forall>c \<in> set ds. is_digit 10 c" "ends_number s"
  shows "eat_digits 10 \<lparr>before = b, rest = ds @ s\<rparr> = (ds, \<lparr>before = rev ds @ b, rest = s\<rparr>)"
proof -
  have "s = [] \<or> \<not> is_digit 10 (hd s)"
    using assms(2) by (auto simp: ends_number_def is_digit_def to_digit_def split: list.splits if_splits)
  then have "takeWhile (is_digit 10) s = []" "dropWhile (is_digit 10) s = s" by (cases s; simp)+
  then show ?thesis using assms(1)
    by (simp add: eat_digits_def takeWhile_append2 dropWhile_append2)
qed

lemma lex_number_dec:
  assumes "ends_number s"
  shows "lex_number pd \<lparr>before = b, rest = fmt_dec n @ s\<rparr> =
    rbind (int_value 10 0 (fmt_dec n))
      (\<lambda>v. Ok (TLiteral (Basic (U v)), \<lparr>before = rev (fmt_dec n) @ b, rest = s\<rparr>))"
proof -
  let ?i = "\<lparr>before = rev (fmt_dec n) @ b, rest = s\<rparr>"
  have no: "eat_if_eq c \<lparr>before = b', rest = s\<rparr> = (False, \<lparr>before = b', rest = s\<rparr>)"
    if "is_letter c \<or> c = uc CHR ''.''" for c b'
    using that assms by (auto simp: eat_if_eq_def peek_char_def ends_number_def split: list.splits)
  have ip: "lex_integer_part \<lparr>before = b, rest = fmt_dec n @ s\<rparr> = (10, fmt_dec n, ?i)"
    using fmt_dec_digits [of n] assms
    by (simp add: lex_integer_part_def eat_digits_dec no is_letter_def)
  have fr: "lex_fraction pd 10 ?i = Ok (False, False, [], ?i)"
    by (simp add: lex_fraction_def no)
  have ex: "lex_exponent pd ?i = (0, False, [], ?i)"
    by (simp add: lex_exponent_def no is_letter_def)
  have "\<not> bad_number_end pd False ?i"
    using assms by (auto simp: bad_number_end_def peek_char_def ends_number_def split: list.splits)
  then show ?thesis by (simp add: lex_number_def ip fr ex)
qed

lemma fmt_dec_Cons: "\<exists>c cs. fmt_dec n = c # cs \<and> 0x30 \<le> c \<and> c \<le> 0x39"
  using fmt_dec_digits [of n] by (cases "fmt_dec n") auto

text \<open>The first token of a text that starts with a decimal number.\<close>

lemma lex_token_number:
  assumes "ends_number s" "fmt_dec n = c # cs" "0x30 \<le> c" "c \<le> 0x39"
  shows "lex_token pd c \<lparr>before = c # b, rest = cs @ s\<rparr> =
    rbind (int_value 10 0 (fmt_dec n))
      (\<lambda>v. Ok (TLiteral (Basic (U v)), \<lparr>before = rev (fmt_dec n) @ b, rest = s\<rparr>, False))"
proof -
  have "lex_operator c = None" using assms(3,4) by (auto simp: lex_operator_def)
  moreover have "uneat \<lparr>before = c # b, rest = cs @ s\<rparr> = Ok \<lparr>before = b, rest = fmt_dec n @ s\<rparr>"
    by (simp add: uneat_def assms(2))
  moreover have "c \<noteq> uc CHR ''.''" "c \<notin> set (ustr ''()[]{};@'')" "c \<noteq> uc CHR '':''" "c \<noteq> 0x22" "c \<noteq> 0x27"
    using assms(3,4) by (auto simp: ustr_def)
  ultimately show ?thesis
    using assms(3,4) lex_number_dec [OF assms(1), of pd b n]
    by (cases "int_value 10 0 (fmt_dec n)") (simp_all add: lex_token_def)
qed

subsection \<open>Quoted text\<close>

text \<open>A backslash before the closing character and before backslashes.\<close>

definition escape_for :: "uchar \<Rightarrow> ustr \<Rightarrow> ustr" where
  "escape_for q s = concat (map (\<lambda>c. if c = q \<or> c = 0x5C then [0x5C, c] else [c]) s)"

lemma lex_quoted_escaped:
  assumes "q \<in> {0x22, 0x60}"
  shows "\<exists>b'. lex_quoted q acc \<lparr>before = b, rest = escape_for q s @ q # tail\<rparr> = Ok (acc @ s, \<lparr>before = b', rest = tail\<rparr>)"
proof (induction s arbitrary: acc b)
  case Nil
  then show ?case by (subst lex_quoted.simps) (simp add: escape_for_def eat_char_def)
next
  case (Cons c s)
  have q: "q \<noteq> 0x5C" using assms by auto
  show ?case
  proof (cases "c = q \<or> c = 0x5C")
    case True
    then have "c \<notin> set (ustr ''0nrtx'')" using assms by (auto simp: ustr_def)
    then have e: "escape_sequence \<lparr>before = 0x5C # b, rest = c # escape_for q s @ q # tail\<rparr>
        = Ok (c, \<lparr>before = c # 0x5C # b, rest = escape_for q s @ q # tail\<rparr>)"
      by (auto simp: escape_sequence_def eat_char_def ustr_def)
    have r: "escape_for q (c # s) @ q # tail = 0x5C # c # escape_for q s @ q # tail"
      using True by (simp add: escape_for_def)
    show ?thesis unfolding r
      using Cons.IH [of "acc @ [c]" "c # 0x5C # b"] q e
      by (subst lex_quoted.simps) (simp add: eat_char_def)
  next
    case False
    then have r: "escape_for q (c # s) @ q # tail = c # escape_for q s @ q # tail"
      by (simp add: escape_for_def)
    show ?thesis unfolding r
      using Cons.IH [of "acc @ [c]" "c # b"] False
      by (subst lex_quoted.simps) (simp add: eat_char_def)
  qed
qed

subsection \<open>Names\<close>

fun colons_paired :: "ustr \<Rightarrow> bool" where
  "colons_paired [] = True"
| "colons_paired [c] = (c \<noteq> 0x3A)"
| "colons_paired (c # d # cs) = (if c = 0x3A then d = 0x3A \<and> colons_paired cs else colons_paired (d # cs))"

definition name_char :: "uchar \<Rightarrow> bool" where
  "name_char c \<longleftrightarrow> starts_identifier c \<or> (0x30 \<le> c \<and> c \<le> 0x39)"

lemma colon_not_ident: "\<not> is_ident_char 0x3A"
  by (simp add: is_ident_char_def is_letter_def)

lemma lex_identifier_step:
  "is_ident_char c \<or> (0x30 \<le> c \<and> c \<le> 0x39) \<Longrightarrow>
     lex_identifier acc \<lparr>before = b, rest = c # cs\<rparr> = lex_identifier (acc @ [c]) \<lparr>before = c # b, rest = cs\<rparr>"
  "lex_identifier acc \<lparr>before = b, rest = 0x3A # 0x3A # cs\<rparr> =
     lex_identifier (acc @ [0x3A, 0x3A]) \<lparr>before = 0x3A # 0x3A # b, rest = cs\<rparr>"
  "cs = [] \<or> hd cs \<noteq> 0x3A \<Longrightarrow>
     lex_identifier acc \<lparr>before = b, rest = 0x3A # cs\<rparr> = Ok (acc, \<lparr>before = b, rest = 0x3A # cs\<rparr>)"
  "lex_identifier acc \<lparr>before = b, rest = []\<rparr> = Ok (acc, \<lparr>before = b, rest = []\<rparr>)"
  by (subst lex_identifier.simps; cases cs;
      auto simp: eat_char_def peek_char_def uneat_def colon_not_ident)+

lemma lex_identifier_name:
  assumes "\<forall>c \<in> set s. name_char c"
  shows "\<exists>acc' b' r. lex_identifier acc \<lparr>before = b, rest = s\<rparr> = Ok (acc', \<lparr>before = b', rest = r\<rparr>)
     \<and> (colons_paired s \<longrightarrow> acc' = acc @ s \<and> r = []) \<and> (\<not> colons_paired s \<longrightarrow> r \<noteq> [])"
  using assms
proof (induction s arbitrary: acc b rule: colons_paired.induct)
  case 1
  then show ?case by (simp add: lex_identifier_step)
next
  case (2 c)
  then show ?case
    by (cases "c = 0x3A") (auto simp: lex_identifier_step name_char_def starts_identifier_def)
next
  case (3 c d cs)
  show ?case
  proof (cases "c = 0x3A")
    case True
    show ?thesis
    proof (cases "d = 0x3A")
      case d: True
      with 3(1) [of "acc @ [0x3A, 0x3A]" "0x3A # 0x3A # b"] 3(3) True show ?thesis
        by (simp add: lex_identifier_step(2))
    next
      case d: False
      with True show ?thesis by (simp add: lex_identifier_step(3))
    qed
  next
    case False
    with 3(3) have "is_ident_char c \<or> (0x30 \<le> c \<and> c \<le> 0x39)" by (simp add: name_char_def starts_identifier_def)
    with 3(2) [OF False, of "acc @ [c]" "c # b"] 3(3) False show ?thesis by (simp add: lex_identifier_step(1))
  qed
qed

lemma should_quote_name: "\<not> should_quote_identifier name \<Longrightarrow>
    \<exists>c cs. name = c # cs \<and> starts_identifier c \<and> (\<forall>d \<in> set name. name_char d)"
  by (cases name) (auto simp: should_quote_identifier_def name_char_def)

lemma name_char_ops: "starts_identifier c \<Longrightarrow> lex_operator c = None \<and> c \<noteq> 0x22 \<and> c \<noteq> 0x27 \<and> c \<noteq> 0x60
    \<and> c \<notin> set (ustr ''()[]{};@'') \<and> c \<noteq> uc CHR ''.'' \<and> \<not> (0x30 \<le> c \<and> c \<le> 0x39) \<and> \<not> is_whitespace c"
  by (auto simp: starts_identifier_def is_ident_char_def is_letter_def lex_operator_def ustr_def is_whitespace_def)

lemma lex_token_name:
  assumes "starts_identifier c" "\<not> (c = 0x3A \<and> (cs = [] \<or> hd cs \<noteq> 0x3A))"
  shows "lex_token pd c \<lparr>before = c # b, rest = cs\<rparr> =
    rbind (lex_identifier [] \<lparr>before = b, rest = c # cs\<rparr>) (\<lambda>(s, i). Ok (Identifier s False, i, False))"
  using name_char_ops [OF assms(1)] assms
  by (auto simp: lex_token_def uneat_def peek_char_def split: list.splits)

section \<open>Properties\<close>

text \<open>The first token of a text, and whether it is all of it.\<close>

definition first_token :: "ustr \<Rightarrow> (Token \<times> ustr) eres" where
  "first_token s = rbind (peek 1 (lexer_new s)) (\<lambda>((r, t), lx). Ok (t, rest (input lx)))"

lemma first_token_eq:
  assumes "\<not> is_whitespace c" "lex_token False c \<lparr>before = [c], rest = cs\<rparr> = Ok (t, i, pd)"
  shows "first_token (c # cs) = Ok (t, rest i)"
proof -
  have "eat_char (input (lexer_new (c # cs))) = (Some c, \<lparr>before = [c], rest = cs\<rparr>)"
    by (simp add: lexer_new_def eat_char_def)
  from peek_1_token [OF _ this assms(1), of t i pd] assms(2) show ?thesis
    by (auto simp: first_token_def lexer_new_def)
qed

lemma first_token_Err:
  assumes "\<not> is_whitespace c" "lex_token False c \<lparr>before = [c], rest = cs\<rparr> = Err e"
  shows "first_token (c # cs) = Err e"
proof -
  have "lex_step (lexer_new (c # cs)) = Err e"
    using assms by (simp add: lex_step_def lexer_new_def eat_char_def)
  then have "peek 1 (lexer_new (c # cs)) = Err e"
    by (subst peek.simps) (simp add: lexer_new_def)
  then show ?thesis by (simp add: first_token_def)
qed

text \<open>
  (C29) A decimal number is lexed to its value when it fits 64 bits and is rejected with a syntax
  error when it does not; it never wraps around. The text that follows is left alone.
\<close>

theorem decimal_literals:
  assumes "ends_number s"
  shows "first_token (fmt_dec n @ s) =
    (if n < 2 ^ 64 then Ok (TLiteral (Basic (U n)), s) else Err Syntax)"
proof -
  obtain c cs where c: "fmt_dec n = c # cs" "0x30 \<le> c" "c \<le> 0x39" using fmt_dec_Cons by blast
  have w: "\<not> is_whitespace c" using c by (auto simp: is_whitespace_def)
  note t = lex_token_number [OF assms c(1,2,3), of False "[]"]
  show ?thesis
  proof (cases "n < 2 ^ 64")
    case True
    from first_token_eq [OF w t [unfolded int_value_fmt_dec [OF True] rbind.simps]] show ?thesis
      using True c(1) by simp
  next
    case False
    then have "2 ^ 64 \<le> n" by simp
    from first_token_Err [OF w t [unfolded int_value_big [OF this] rbind.simps]] show ?thesis
      using False c(1) by simp
  qed
qed

theorem decimal_literals_witness:
  "first_token (ustr ''42+x'') = Ok (TLiteral (Basic (U 42)), ustr ''+x'')"
proof -
  have "ends_number (ustr ''+x'')" by (simp add: ends_number_def ustr_def is_letter_def)
  from decimal_literals [OF this, of 42] show ?thesis by (simp add: fmt_dec.simps ustr_def)
qed

text \<open>
  Any text in double quotes or in backquotes, with a backslash before each closing quote and
  each backslash of it, is lexed back to that text: a string literal or a quoted identifier.
\<close>

theorem quoted_text_round_trip:
  "first_token (0x22 # escape_for 0x22 s @ 0x22 # tail) = Ok (TLiteral (LString s), tail)
   \<and> first_token (0x60 # escape_for 0x60 s @ 0x60 # tail) = Ok (Identifier s True, tail)"
proof
  have ops: "lex_operator 0x22 = None" "lex_operator 0x60 = None" by (simp_all add: lex_operator_def)
  obtain b1 where b1: "lex_quoted 0x22 [] \<lparr>before = [0x22], rest = escape_for 0x22 s @ 0x22 # tail\<rparr>
      = Ok ([] @ s, \<lparr>before = b1, rest = tail\<rparr>)" using lex_quoted_escaped [of "0x22" "[]" "[0x22]"] by blast
  obtain b2 where b2: "lex_quoted 0x60 [] \<lparr>before = [0x60], rest = escape_for 0x60 s @ 0x60 # tail\<rparr>
      = Ok ([] @ s, \<lparr>before = b2, rest = tail\<rparr>)" using lex_quoted_escaped [of "0x60" "[]" "[0x60]"] by blast
  have "lex_token False 0x22 \<lparr>before = [0x22], rest = escape_for 0x22 s @ 0x22 # tail\<rparr>
      = Ok (TLiteral (LString s), \<lparr>before = b1, rest = tail\<rparr>, False)"
    using b1 by (simp add: lex_token_def ops ustr_def)
  from first_token_eq [OF _ this] show "first_token (0x22 # escape_for 0x22 s @ 0x22 # tail) = Ok (TLiteral (LString s), tail)"
    by (simp add: is_whitespace_def)
  have "lex_token False 0x60 \<lparr>before = [0x60], rest = escape_for 0x60 s @ 0x60 # tail\<rparr>
      = Ok (Identifier s True, \<lparr>before = b2, rest = tail\<rparr>, False)"
    using b2 by (simp add: lex_token_def ops ustr_def)
  from first_token_eq [OF _ this] show "first_token (0x60 # escape_for 0x60 s @ 0x60 # tail) = Ok (Identifier s True, tail)"
    by (simp add: is_whitespace_def)
qed

lemma escape_for_plain: "q \<notin> set s \<Longrightarrow> 0x5C \<notin> set s \<Longrightarrow> escape_for q s = s"
  by (induction s) (auto simp: escape_for_def)

lemma first_token_name:
  assumes "\<not> should_quote_identifier name"
  shows "first_token name = Ok (Identifier name False, []) \<longleftrightarrow> colons_paired name"
proof -
  obtain c cs where c: "name = c # cs" "starts_identifier c" and all: "\<forall>d \<in> set name. name_char d"
    using should_quote_name [OF assms] by blast
  have w: "\<not> is_whitespace c" using name_char_ops [OF c(2)] by blast
  show ?thesis
  proof (cases "c = 0x3A \<and> (cs = [] \<or> hd cs \<noteq> 0x3A)")
    case True
    then have "lex_token False c \<lparr>before = [c], rest = cs\<rparr> = Ok (TChar c, \<lparr>before = [c], rest = cs\<rparr>, False)"
      using name_char_ops [OF c(2)] by (auto simp: lex_token_def peek_char_def split: list.splits)
    from first_token_eq [OF w this] have "first_token name \<noteq> Ok (Identifier name False, [])" by (simp add: c(1))
    moreover have "\<not> colons_paired name" using True c(1) by (cases cs) auto
    ultimately show ?thesis by blast
  next
    case False
    obtain acc b' r where l: "lex_identifier [] \<lparr>before = [], rest = name\<rparr> = Ok (acc, \<lparr>before = b', rest = r\<rparr>)"
      and p: "colons_paired name \<longrightarrow> acc = [] @ name \<and> r = []" "\<not> colons_paired name \<longrightarrow> r \<noteq> []"
      using lex_identifier_name [OF all, of "[]" "[]"] by blast
    have "lex_token False c \<lparr>before = [c], rest = cs\<rparr> = Ok (Identifier acc False, \<lparr>before = b', rest = r\<rparr>, False)"
      using lex_token_name [OF c(2) False, of False "[]"] l c(1) by simp
    from first_token_eq [OF w this] p show ?thesis by (auto simp: c(1))
  qed
qed

text \<open>
  (C30) A variable name that is put into an expression is lexed back as one identifier token with
  that name: a quoted one if it has neither a backquote nor a backslash, and an unquoted one exactly
  if its colons come in pairs. So a name such as \<open>a:b\<close>, which is not quoted, is not read back.
\<close>

theorem variable_names_read_back:
  assumes "q \<longleftrightarrow> is_register name \<or> should_quote_identifier name"
    and "q \<Longrightarrow> 0x60 \<notin> set name \<and> 0x5C \<notin> set name"
  shows "first_token (make_expression_for_variable is_register name) = Ok (Identifier name q, [])
    \<longleftrightarrow> q \<or> colons_paired name"
proof (cases q)
  case True
  with assms(2) have "escape_for 0x60 name = name" by (simp add: escape_for_plain)
  moreover have "lex_operator 0x60 = None" by (simp add: lex_operator_def)
  moreover obtain b where "lex_quoted 0x60 [] \<lparr>before = [0x60], rest = escape_for 0x60 name @ [0x60]\<rparr>
      = Ok ([] @ name, \<lparr>before = b, rest = []\<rparr>)" using lex_quoted_escaped [of "0x60" "[]" "[0x60]" name "[]"] by blast
  ultimately have "lex_token False 0x60 \<lparr>before = [0x60], rest = name @ [0x60]\<rparr>
      = Ok (Identifier name True, \<lparr>before = b, rest = []\<rparr>, False)"
    by (simp add: lex_token_def ustr_def)
  from first_token_eq [OF _ this] True assms(1) show ?thesis
    by (simp add: make_expression_for_variable_def is_whitespace_def)
next
  case False
  with assms(1) have "\<not> should_quote_identifier name" "\<not> is_register name" by auto
  with first_token_name [of name] False show ?thesis by (simp add: make_expression_for_variable_def)
qed

theorem variable_names_read_back_witness:
  "first_token (make_expression_for_variable (\<lambda>_. False) (ustr ''std::x1'')) = Ok (Identifier (ustr ''std::x1'') False, [])
   \<and> first_token (make_expression_for_variable (\<lambda>_. False) (ustr ''a:b'')) \<noteq> Ok (Identifier (ustr ''a:b'') False, [])"
proof -
  have nq: "False \<longleftrightarrow> (\<lambda>_. False) (ustr s) \<or> should_quote_identifier (ustr s)" if "s \<in> {''std::x1'', ''a:b''}" for s
    using that by (auto simp: should_quote_identifier_def starts_identifier_def is_ident_char_def is_letter_def ustr_def)
  have 1: "colons_paired (ustr ''std::x1'')" and 2: "\<not> colons_paired (ustr ''a:b'')" by (simp_all add: ustr_def)
  show ?thesis
    using variable_names_read_back [OF nq [of "''std::x1''"]] variable_names_read_back [OF nq [of "''a:b''"]] 1 2
    by simp
qed

end

