(* ===== verification/Parser.thy ===== *)
theory Parser
  imports Lexer
begin

text \<open>
  The parser of the watch expression language (\<open>src/interp.rs\<close>): an operator precedence parser
  that appends nodes to an arena and refers to them by index. Every parsing function is a
  definition in terms of the parsers it calls; \<open>parsers\<close> ties the knot with a bound on the depth of
  the recursion, and \<open>ploop\<close> bounds the loops. Running out of the bound is an error of its own,
  \<open>Err None\<close>. The result is that a bound of one more than the length of the text is enough: on every
  text the parser ends with an expression or a syntax error, it never panics, and all indices of
  the arena it returns are in range. The debug assertions on the range of the root are left out.
\<close>

section \<open>The syntax tree\<close>

type_synonym ASTIdx = nat

datatype AST = Literal LiteralValue | Variable ustr bool bool | UnaryOp UnaryOperator
  | BinaryOp BinaryOperator | Field ustr bool | TypeCast | Type ustr bool | PointerType
  | ArrayType "nat option" | Array | Tuple | TupleIndexing nat | StructExpression "ustr list"
  | Call ustr | Continue | Break | Return | Block | While | For ustr | IfExpr | LetExpr ustr bool
  | TypeInfo | FunctionDefinition ustr "ustr list" bool | StructDefinition ustr "ustr list"

record ASTNode =
  node_range :: span
  node_a :: AST
  node_children :: "ASTIdx list"
  has_parens :: bool

record Expression =
  expr_ast :: "ASTNode list"
  expr_root :: ASTIdx

datatype Precedence = P_Weakest | P_Return | P_Comma | P_Assign | P_Range | P_LazyOr | P_LazyAnd
  | P_Cmp | P_Or | P_Xor | P_And | P_Shift | P_Add | P_Mul | P_TypeCast | P_Unary | P_CallOrIndex
  | P_Field | P_Strongest

text \<open>The derived order of the enumeration is the order of its variants.\<close>

fun rank :: "Precedence \<Rightarrow> nat" where
  "rank P_Weakest = 0" | "rank P_Return = 1" | "rank P_Comma = 2" | "rank P_Assign = 3"
| "rank P_Range = 4" | "rank P_LazyOr = 5" | "rank P_LazyAnd = 6" | "rank P_Cmp = 7"
| "rank P_Or = 8" | "rank P_Xor = 9" | "rank P_And = 10" | "rank P_Shift = 11" | "rank P_Add = 12"
| "rank P_Mul = 13" | "rank P_TypeCast = 14" | "rank P_Unary = 15" | "rank P_CallOrIndex = 16"
| "rank P_Field = 17" | "rank P_Strongest = 18"

lemma rank_inject: "rank a = rank b \<Longrightarrow> a = b"
  by (cases a; cases b) simp_all

instantiation Precedence :: linorder
begin

definition less_eq_Precedence :: "Precedence \<Rightarrow> Precedence \<Rightarrow> bool" where
  "less_eq_Precedence a b \<longleftrightarrow> rank a \<le> rank b"

definition less_Precedence :: "Precedence \<Rightarrow> Precedence \<Rightarrow> bool" where
  "less_Precedence a b \<longleftrightarrow> rank a < rank b"

instance
  by standard (auto simp: less_eq_Precedence_def less_Precedence_def intro: rank_inject)

end

fun binary_operator_precedence :: "BinaryOperator \<Rightarrow> Precedence" where
  "binary_operator_precedence Add = P_Add" | "binary_operator_precedence Sub = P_Add"
| "binary_operator_precedence Mul = P_Mul" | "binary_operator_precedence Div = P_Mul"
| "binary_operator_precedence Rem = P_Mul" | "binary_operator_precedence BitAnd = P_And"
| "binary_operator_precedence BitOr = P_Or" | "binary_operator_precedence BitXor = P_Xor"
| "binary_operator_precedence Shl = P_Shift" | "binary_operator_precedence Shr = P_Shift"
| "binary_operator_precedence Eq = P_Cmp" | "binary_operator_precedence Ne = P_Cmp"
| "binary_operator_precedence Gt = P_Cmp" | "binary_operator_precedence Lt = P_Cmp"
| "binary_operator_precedence Ge = P_Cmp" | "binary_operator_precedence Le = P_Cmp"
| "binary_operator_precedence LazyAnd = P_LazyAnd" | "binary_operator_precedence LazyOr = P_LazyOr"
| "binary_operator_precedence Range = P_Range" | "binary_operator_precedence Index = P_CallOrIndex"
| "binary_operator_precedence Slicify = P_Field" | "binary_operator_precedence Comma = P_Comma"
| "binary_operator_precedence _ = P_Assign"

definition unary_operator_precedence :: "UnaryOperator \<Rightarrow> Precedence" where
  "unary_operator_precedence op = P_Unary"

section \<open>Parsers\<close>

record PState =
  lex :: Lexer
  ast :: "ASTNode list"

type_synonym 'a parser = "PState \<Rightarrow> ('a \<times> PState, ErrorCode option) result"

definition pret :: "'a \<Rightarrow> 'a parser" where
  "pret a st = Ok (a, st)"

definition pbind :: "'a parser \<Rightarrow> ('a \<Rightarrow> 'b parser) \<Rightarrow> 'b parser" where
  "pbind m k st = rbind (m st) (\<lambda>(a, st). k a st)"

definition perr :: "'a parser" where
  "perr st = Err (Some Syntax)"

definition ppanic :: "'a parser" where
  "ppanic st = Panic"

definition no_fuel :: "'a parser" where
  "no_fuel st = Err None"

definition lift_lex :: "(Lexer \<Rightarrow> ('a \<times> Lexer) eres) \<Rightarrow> 'a parser" where
  "lift_lex f st = (case f (lex st) of
      Ok (a, lx) \<Rightarrow> Ok (a, st\<lparr>lex := lx\<rparr>) | Err e \<Rightarrow> Err (Some e) | Panic \<Rightarrow> Panic)"

abbreviation "p_peek \<equiv> lift_lex (peek 1)"
abbreviation "p_eat \<equiv> lift_lex (eat 1)"
abbreviation "p_eat_if f \<equiv> lift_lex (eat_if f)"
abbreviation "p_peek_expect f \<equiv> lift_lex (peek_expect f)"
abbreviation "p_expect f \<equiv> lift_lex (expect f)"

definition prev_end :: "nat parser" where
  "prev_end st = Ok (previous_token_end (lex st), st)"

definition push_node :: "ASTNode \<Rightarrow> ASTIdx parser" where
  "push_node nd st = Ok (length (ast st), st\<lparr>ast := ast st @ [nd]\<rparr>)"

definition get_node :: "ASTIdx \<Rightarrow> ASTNode parser" where
  "get_node i st = (if i < length (ast st) then Ok (ast st ! i, st) else Panic)"

definition update_node :: "ASTIdx \<Rightarrow> (ASTNode \<Rightarrow> ASTNode) \<Rightarrow> unit parser" where
  "update_node i f st = (if i < length (ast st)
     then Ok ((), st\<lparr>ast := (ast st)[i := f (ast st ! i)]\<rparr>) else Panic)"

definition mk_node :: "span \<Rightarrow> AST \<Rightarrow> ASTIdx list \<Rightarrow> ASTNode" where
  "mk_node r a cs = \<lparr>node_range = r, node_a = a, node_children = cs, has_parens = False\<rparr>"

text \<open>\<open>node.range.end = lex.previous_token_end; expr.ast.push(node)\<close>\<close>

definition finish :: "nat \<Rightarrow> AST \<Rightarrow> ASTIdx list \<Rightarrow> ASTIdx parser" where
  "finish start a cs = pbind prev_end (\<lambda>e. push_node (mk_node (start, e) a cs))"

text \<open>A loop: \<open>Inl\<close> goes round again, \<open>Inr\<close> leaves.\<close>

primrec ploop :: "nat \<Rightarrow> ('b \<Rightarrow> ('b + 'c) parser) \<Rightarrow> 'b \<Rightarrow> 'c parser" where
  "ploop 0 body b = no_fuel"
| "ploop (Suc n) body b = pbind (body b) (\<lambda>r. case r of Inl b' \<Rightarrow> ploop n body b' | Inr c \<Rightarrow> pret c)"

text \<open>The comma between elements, which may be missing before the closing character only.\<close>

definition comma_or :: "char \<Rightarrow> unit parser" where
  "comma_or c = pbind (p_eat_if (is_binary_operator Comma)) (\<lambda>o'.
     if o' = None then pbind (p_peek_expect (is_char c)) (\<lambda>_. pret ()) else pret ())"

definition expect_identifier :: "ustr parser" where
  "expect_identifier = pbind (p_expect is_identifier) (\<lambda>(r, t).
     case into_identifier t of Ok s \<Rightarrow> pret s | Err e \<Rightarrow> perr | Panic \<Rightarrow> ppanic)"

subsection \<open>Blocks and types\<close>

definition block_step :: "(Precedence \<Rightarrow> ASTIdx parser) \<Rightarrow> ASTIdx list \<Rightarrow> (ASTIdx list + ASTIdx list) parser" where
  "block_step e cs = pbind (p_eat_if (is_char CHR ''}'')) (\<lambda>o'. case o' of
      Some (r, t) \<Rightarrow> pbind (push_node (mk_node r Tuple [])) (\<lambda>i. pret (Inr (cs @ [i])))
    | None \<Rightarrow> pbind (e P_Weakest) (\<lambda>i. pbind p_eat (\<lambda>(r, t).
        if t = TChar (uc CHR '';'') then pret (Inl (cs @ [i]))
        else if t = TChar (uc CHR ''}'') then pret (Inr (cs @ [i]))
        else perr)))"

definition parse_block_body :: "nat \<Rightarrow> (Precedence \<Rightarrow> ASTIdx parser) \<Rightarrow> ASTIdx parser" where
  "parse_block_body n e = pbind (p_expect (is_char CHR ''{'')) (\<lambda>(r, t).
     pbind (ploop n (block_step e) []) (\<lambda>cs.
       if cs = [] then ppanic else finish (fst r) Block cs))"

definition parse_type_body :: "ASTIdx parser \<Rightarrow> ASTIdx parser" where
  "parse_type_body ty = pbind p_eat (\<lambda>(r, t). case t of
      TBinary op \<Rightarrow> if op = Mul then pbind ty (\<lambda>i. finish (fst r) PointerType [i]) else perr
    | Identifier s quoted \<Rightarrow> finish (fst r) (Type s quoted) []
    | TChar c \<Rightarrow>
        if c = uc CHR ''['' then
          pbind ty (\<lambda>i. pbind p_eat (\<lambda>(r', t').
            if t' = TChar (uc CHR '';'') then
              pbind p_eat (\<lambda>(r'', t''). case t'' of
                  TLiteral (Basic (U len)) \<Rightarrow>
                    pbind (p_expect (is_char CHR '']'')) (\<lambda>_. finish (fst r) (ArrayType (Some len)) [i])
                | _ \<Rightarrow> perr)
            else if t' = TChar (uc CHR '']'') then finish (fst r) (ArrayType None) [i]
            else perr))
        else perr
    | _ \<Rightarrow> perr)"

subsection \<open>Keywords\<close>

text \<open>The fields of a struct expression, and those of a struct definition.\<close>

definition struct_step :: "ASTIdx parser \<Rightarrow> ustr list \<times> ASTIdx list \<Rightarrow>
    (ustr list \<times> ASTIdx list + ustr list \<times> ASTIdx list) parser" where
  "struct_step p acc = pbind p_eat (\<lambda>(r, t). case t of
      Identifier s quoted \<Rightarrow>
        pbind (p_expect (is_char CHR '':'')) (\<lambda>_. pbind p (\<lambda>i. pbind (comma_or CHR ''}'') (\<lambda>_.
          pret (Inl (fst acc @ [s], snd acc @ [i])))))
    | TChar c \<Rightarrow> if c = uc CHR ''}'' then pret (Inr acc) else perr
    | _ \<Rightarrow> perr)"

definition parse_struct :: "nat \<Rightarrow> (Precedence \<Rightarrow> ASTIdx parser) \<Rightarrow> ASTIdx parser \<Rightarrow> nat \<Rightarrow> ASTIdx parser" where
  "parse_struct n e ty start = pbind p_eat (\<lambda>(r, t). case t of
      TChar c \<Rightarrow>
        if c = uc CHR ''{'' then
          pbind (ploop n (struct_step (e P_Comma)) ([], [])) (\<lambda>(names, cs).
            finish start (StructExpression names) cs)
        else perr
    | Identifier name quoted \<Rightarrow>
        pbind (p_expect (is_char CHR ''{'')) (\<lambda>_.
          pbind (ploop n (struct_step ty) ([], [])) (\<lambda>(names, cs).
            finish start (StructDefinition name names) cs))
    | _ \<Rightarrow> perr)"

definition ends_return :: "Token \<Rightarrow> bool" where
  "ends_return t \<longleftrightarrow> t = Eof \<or> t = TChar (uc CHR '';'') \<or> t = TBinary Comma
     \<or> t = TChar (uc CHR ''}'') \<or> t = TChar (uc CHR '')'')"

definition parse_return :: "(Precedence \<Rightarrow> ASTIdx parser) \<Rightarrow> nat \<Rightarrow> ASTIdx parser" where
  "parse_return e start = pbind p_peek (\<lambda>(r, t).
     if ends_return t then finish start Return []
     else pbind (e P_Return) (\<lambda>i. finish start Return [i]))"

definition parse_while :: "(Precedence \<Rightarrow> ASTIdx parser) \<Rightarrow> ASTIdx parser \<Rightarrow> nat \<Rightarrow> ASTIdx parser" where
  "parse_while e b start = pbind (e P_Weakest) (\<lambda>i. pbind b (\<lambda>j. finish start While [i, j]))"

definition parse_for :: "(Precedence \<Rightarrow> ASTIdx parser) \<Rightarrow> ASTIdx parser \<Rightarrow> nat \<Rightarrow> ASTIdx parser" where
  "parse_for e b start = pbind expect_identifier (\<lambda>name. pbind (p_expect (is_keyword ''in'')) (\<lambda>_.
     pbind (e P_Weakest) (\<lambda>i. pbind b (\<lambda>j. finish start (For name) [i, j]))))"

definition parse_if :: "(Precedence \<Rightarrow> ASTIdx parser) \<Rightarrow> ASTIdx parser \<Rightarrow> nat \<Rightarrow> ASTIdx parser" where
  "parse_if e b start = pbind (e P_Weakest) (\<lambda>i. pbind b (\<lambda>j.
     pbind (p_eat_if (is_keyword ''else'')) (\<lambda>o'.
       if o' \<noteq> None then
         pbind p_peek (\<lambda>(r, t).
           pbind (if is_keyword ''if'' t then e P_Strongest else b) (\<lambda>k. finish start IfExpr [i, j, k]))
       else finish start IfExpr [i, j])))"

definition parse_let :: "(Precedence \<Rightarrow> ASTIdx parser) \<Rightarrow> ASTIdx parser \<Rightarrow> nat \<Rightarrow> ASTIdx parser" where
  "parse_let e ty start = pbind expect_identifier (\<lambda>name.
     pbind (p_eat_if (is_char CHR '':'')) (\<lambda>o'.
       pbind (if o' \<noteq> None then pbind ty (\<lambda>i. pret [i]) else pret []) (\<lambda>cs.
         pbind (p_eat_if (is_binary_operator Assign)) (\<lambda>a.
           pbind (if a \<noteq> None then pbind (e P_Weakest) (\<lambda>i. pret (cs @ [i])) else pret cs) (\<lambda>cs'.
             finish start (LetExpr name (o' \<noteq> None)) cs')))))"

definition fn_arg_step :: "ASTIdx parser \<Rightarrow> ustr list \<times> ASTIdx list \<Rightarrow>
    (ustr list \<times> ASTIdx list + ustr list \<times> ASTIdx list) parser" where
  "fn_arg_step ty acc = pbind (p_eat_if (is_char CHR '')'')) (\<lambda>o'.
     if o' \<noteq> None then pret (Inr acc)
     else pbind expect_identifier (\<lambda>name. pbind (p_expect (is_char CHR '':'')) (\<lambda>_.
       pbind ty (\<lambda>i. pret (Inl (fst acc @ [name], snd acc @ [i]))))))"

definition parse_fn :: "nat \<Rightarrow> ASTIdx parser \<Rightarrow> ASTIdx parser \<Rightarrow> nat \<Rightarrow> ASTIdx parser" where
  "parse_fn n ty b start = pbind expect_identifier (\<lambda>name. pbind (p_expect (is_char CHR ''('')) (\<lambda>_.
     pbind (ploop n (fn_arg_step ty) ([], [])) (\<lambda>(names, cs).
       pbind (p_eat_if (\<lambda>t. t = Arrow)) (\<lambda>o'.
         pbind (if o' \<noteq> None then pbind ty (\<lambda>i. pret (cs @ [i])) else pret cs) (\<lambda>cs'.
           pbind b (\<lambda>j. finish start (FunctionDefinition name names (o' \<noteq> None)) (cs' @ [j])))))))"

definition parse_word :: "nat \<Rightarrow> (Precedence \<Rightarrow> ASTIdx parser) \<Rightarrow> ASTIdx parser \<Rightarrow> ASTIdx parser \<Rightarrow> nat \<Rightarrow> ustr \<Rightarrow>
    ASTIdx parser" where
  "parse_word n e ty b start s =
     (if s = ustr ''struct'' then parse_struct n e ty start
      else if s = ustr ''continue'' then finish start Continue []
      else if s = ustr ''break'' then finish start Break []
      else if s = ustr ''return'' then parse_return e start
      else if s = ustr ''while'' then parse_while e b start
      else if s = ustr ''for'' then parse_for e b start
      else if s = ustr ''loop'' then pbind b (\<lambda>j. finish start While [j])
      else if s = ustr ''if'' then parse_if e b start
      else if s = ustr ''let'' then parse_let e ty start
      else if s = ustr ''fn'' then parse_fn n ty b start
      else finish start (Variable s False False) [])"

subsection \<open>Operands\<close>

definition parse_unary :: "(Precedence \<Rightarrow> ASTIdx parser) \<Rightarrow> nat \<Rightarrow> UnaryOperator \<Rightarrow> ASTIdx parser" where
  "parse_unary e start op = pbind (e (unary_operator_precedence op)) (\<lambda>i. finish start (UnaryOp op) [i])"

text \<open>\<open>^v\<close>: the variable in any frame of the stack.\<close>

definition parse_caret :: "(Precedence \<Rightarrow> ASTIdx parser) \<Rightarrow> nat \<Rightarrow> ASTIdx parser" where
  "parse_caret e start = pbind (e P_Strongest) (\<lambda>i. pbind (get_node i) (\<lambda>nd. case node_a nd of
      Variable name quoted from_any_frame \<Rightarrow>
        pbind (update_node i (\<lambda>nd. nd\<lparr>node_a := Variable name quoted True,
            node_range := (start, snd (node_range nd))\<rparr>)) (\<lambda>_. pret i)
    | _ \<Rightarrow> perr))"

definition parse_parens :: "(Precedence \<Rightarrow> ASTIdx parser) \<Rightarrow> nat \<Rightarrow> ASTIdx parser" where
  "parse_parens e start = pbind (e P_Weakest) (\<lambda>i. pbind p_eat (\<lambda>(r, t).
     if t = TChar (uc CHR '')'') then
       pbind (update_node i (\<lambda>nd. nd\<lparr>node_range := (start, snd r), has_parens := True\<rparr>)) (\<lambda>_. pret i)
     else perr))"

definition array_step :: "(Precedence \<Rightarrow> ASTIdx parser) \<Rightarrow> ASTIdx list \<Rightarrow> (ASTIdx list + ASTIdx list) parser" where
  "array_step e cs = pbind (p_eat_if (is_char CHR '']'')) (\<lambda>o'.
     if o' \<noteq> None then pret (Inr cs)
     else pbind (e P_Comma) (\<lambda>i. pbind (comma_or CHR '']'') (\<lambda>_. pret (Inl (cs @ [i])))))"

definition parse_operand :: "nat \<Rightarrow> (Precedence \<Rightarrow> ASTIdx parser) \<Rightarrow> ASTIdx parser \<Rightarrow> ASTIdx parser \<Rightarrow> nat \<Rightarrow> Token \<Rightarrow>
    ASTIdx parser" where
  "parse_operand n e ty b start t = (case t of
      TLiteral v \<Rightarrow> finish start (Literal v) []
    | Identifier s quoted \<Rightarrow>
        if quoted then finish start (Variable s True False) [] else parse_word n e ty b start s
    | TBinary op \<Rightarrow>
        if op = BitXor then parse_caret e start
        else if op = Sub then parse_unary e start Neg
        else if op = Mul then parse_unary e start Dereference
        else if op = BitAnd then parse_unary e start Borrow
        else perr
    | TUnary op \<Rightarrow> if op = Not then parse_unary e start Not else ppanic
    | TChar c \<Rightarrow>
        if c = uc CHR ''{'' then b
        else if c = uc CHR ''('' then parse_parens e start
        else if c = uc CHR ''['' then
          pbind (ploop n (array_step e) []) (\<lambda>cs. finish start Array cs)
        else perr
    | Arrow \<Rightarrow> perr
    | Eof \<Rightarrow> perr)"

subsection \<open>Operators and suffixes\<close>

text \<open>The end of a pass of the loop: the range of the expression so far is extended.\<close>

definition end_pass :: "ASTIdx \<Rightarrow> (ASTIdx + ASTIdx) parser" where
  "end_pass i = pbind prev_end (\<lambda>e.
     pbind (update_node i (\<lambda>nd. nd\<lparr>node_range := (fst (node_range nd), e)\<rparr>)) (\<lambda>_. pret (Inl i)))"

definition push_binary :: "AST \<Rightarrow> ASTIdx \<Rightarrow> ASTIdx \<Rightarrow> (ASTIdx + ASTIdx) parser" where
  "push_binary a i j = pbind (get_node i) (\<lambda>l. pbind (get_node j) (\<lambda>r.
     pbind (push_node (mk_node (fst (node_range l), snd (node_range r)) a [i, j])) end_pass))"

definition call_arg_step :: "(Precedence \<Rightarrow> ASTIdx parser) \<Rightarrow> ASTIdx \<Rightarrow> unit \<Rightarrow> (unit + unit) parser" where
  "call_arg_step e i u = pbind p_peek (\<lambda>(r, t).
     if is_char CHR '')'' t then pret (Inr ())
     else pbind (e P_Comma) (\<lambda>j.
       pbind (update_node i (\<lambda>nd. nd\<lparr>node_children := node_children nd @ [j]\<rparr>)) (\<lambda>_.
         pbind (comma_or CHR '')'') (\<lambda>_. pret (Inl ())))))"

definition parse_call :: "nat \<Rightarrow> (Precedence \<Rightarrow> ASTIdx parser) \<Rightarrow> ASTIdx parser \<Rightarrow> ASTIdx \<Rightarrow> (ASTIdx + ASTIdx) parser" where
  "parse_call n e ty i = pbind (get_node i) (\<lambda>nd. case node_a nd of
      Variable name quoted from_any_frame \<Rightarrow>
        if \<not> quoted \<and> \<not> from_any_frame then
          pbind (if name = ustr ''type'' then
                   pbind ty (\<lambda>t. update_node i (\<lambda>nd. nd\<lparr>node_children := node_children nd @ [t], node_a := TypeInfo\<rparr>))
                 else pbind (ploop n (call_arg_step e i) ()) (\<lambda>_.
                   update_node i (\<lambda>nd. nd\<lparr>node_a := Call name\<rparr>)))
            (\<lambda>_. pbind (p_expect (is_char CHR '')'')) (\<lambda>(r, t).
              pbind (update_node i (\<lambda>nd. nd\<lparr>node_range := (fst (node_range nd), snd r)\<rparr>)) (\<lambda>_. end_pass i)))
        else perr
    | _ \<Rightarrow> perr)"

definition parse_dot :: "(Precedence \<Rightarrow> ASTIdx parser) \<Rightarrow> ASTIdx \<Rightarrow> (ASTIdx + ASTIdx) parser" where
  "parse_dot e i = pbind p_eat (\<lambda>(r, t). pbind (get_node i) (\<lambda>l.
     (let range = (fst (node_range l), snd r) in
      case t of
        Identifier s quoted \<Rightarrow> pbind (push_node (mk_node range (Field s quoted) [i])) end_pass
      | TLiteral v \<Rightarrow>
          (case as_unsigned v of
             Some x \<Rightarrow> pbind (push_node (mk_node range (TupleIndexing x) [i])) end_pass
           | None \<Rightarrow> perr)
      | TChar c \<Rightarrow>
          if c = uc CHR ''['' then
            pbind (e P_Weakest) (\<lambda>j. pbind (p_expect (is_char CHR '']'')) (\<lambda>_.
              pbind (push_node (mk_node range (BinaryOp Slicify) [i, j])) end_pass))
          else perr
      | _ \<Rightarrow> perr)))"

definition postfix_step :: "nat \<Rightarrow> (Precedence \<Rightarrow> ASTIdx parser) \<Rightarrow> ASTIdx parser \<Rightarrow> Precedence \<Rightarrow> ASTIdx \<Rightarrow>
    (ASTIdx + ASTIdx) parser" where
  "postfix_step n e ty outer i = pbind p_peek (\<lambda>(r, t). case t of
      TBinary op \<Rightarrow>
        (let prec = binary_operator_precedence op in
         if outer \<ge> prec then pret (Inr i)
         else pbind p_eat (\<lambda>_. pbind (e prec) (\<lambda>j. push_binary (BinaryOp op) i j)))
    | TChar c \<Rightarrow>
        if c = uc CHR ''('' then
          (if outer \<ge> P_CallOrIndex then pret (Inr i) else pbind p_eat (\<lambda>_. parse_call n e ty i))
        else if c = uc CHR ''['' then
          (if outer \<ge> P_CallOrIndex then pret (Inr i)
           else pbind p_eat (\<lambda>_. pbind (e P_Weakest) (\<lambda>j. pbind (p_expect (is_char CHR '']'')) (\<lambda>_.
             push_binary (BinaryOp Index) i j))))
        else if c = uc CHR ''.'' then
          (if outer \<ge> P_Field then pret (Inr i) else pbind p_eat (\<lambda>_. parse_dot e i))
        else pret (Inr i)
    | Identifier s quoted \<Rightarrow>
        if \<not> quoted \<and> s = ustr ''as'' then
          (if outer \<ge> P_TypeCast then pret (Inr i)
           else pbind p_eat (\<lambda>_. pbind ty (\<lambda>j. push_binary TypeCast i j)))
        else pret (Inr i)
    | _ \<Rightarrow> pret (Inr i))"

definition parse_expression_body :: "nat \<Rightarrow> (Precedence \<Rightarrow> ASTIdx parser) \<Rightarrow> ASTIdx parser \<Rightarrow> ASTIdx parser \<Rightarrow>
    Precedence \<Rightarrow> ASTIdx parser" where
  "parse_expression_body n e ty b outer = pbind p_eat (\<lambda>(r, t).
     pbind (parse_operand n e ty b (fst r) t) (\<lambda>i. ploop n (postfix_step n e ty outer) i))"

subsection \<open>The whole parser\<close>

primrec parsers :: "nat \<Rightarrow> (Precedence \<Rightarrow> ASTIdx parser) \<times> ASTIdx parser \<times> ASTIdx parser" where
  "parsers 0 = (\<lambda>_. no_fuel, no_fuel, no_fuel)"
| "parsers (Suc n) = (case parsers n of (e, ty, b) \<Rightarrow>
     (parse_expression_body (Suc n) e ty b, parse_type_body ty, parse_block_body (Suc n) e))"

definition parse_expression :: "nat \<Rightarrow> Precedence \<Rightarrow> ASTIdx parser" where
  "parse_expression n = fst (parsers n)"

definition parse_with_fuel :: "nat \<Rightarrow> ustr \<Rightarrow> (Expression, ErrorCode option) result" where
  "parse_with_fuel n s = rbind (pbind (parse_expression n P_Weakest)
       (\<lambda>root. pbind p_peek (\<lambda>(r, t). if t = Eof then pret root else perr))
       \<lparr>lex = lexer_new s, ast = []\<rparr>)
     (\<lambda>(root, st). Ok \<lparr>expr_ast = ast st, expr_root = root\<rparr>)"

definition parse_watch_expression :: "ustr \<Rightarrow> (Expression, ErrorCode option) result" where
  "parse_watch_expression s = parse_with_fuel (Suc (length s)) s"

section \<open>Questions about a parsed expression\<close>

definition root_node :: "Expression \<Rightarrow> (ASTNode, ErrorCode option) result" where
  "root_node e = (if expr_root e < length (expr_ast e) then Ok (expr_ast e ! expr_root e) else Panic)"

definition is_trivial_false :: "Expression \<Rightarrow> (bool, ErrorCode option) result" where
  "is_trivial_false e = rbind (root_node e) (\<lambda>nd. Ok (node_a nd = Literal (Basic (U 0))))"

definition does_expression_need_full_stack :: "Expression \<Rightarrow> bool" where
  "does_expression_need_full_stack e \<longleftrightarrow>
     list_ex (\<lambda>nd. case node_a nd of Variable name quoted from_any_frame \<Rightarrow> from_any_frame | _ \<Rightarrow> False) (expr_ast e)"

fun needs_parens :: "AST \<Rightarrow> bool" where
  "needs_parens (BinaryOp op) = (op \<noteq> Index \<and> op \<noteq> Slicify)"
| "needs_parens (UnaryOp op) = True"
| "needs_parens TypeCast = True"
| "needs_parens While = True"
| "needs_parens (For name) = True"
| "needs_parens IfExpr = True"
| "needs_parens (LetExpr name has_type) = True"
| "needs_parens (FunctionDefinition name arg_names has_return_type) = True"
| "needs_parens (StructDefinition name field_names) = True"
| "needs_parens _ = False"

text \<open>The text of a node's expression, made fit for a suffix such as \<open>.x\<close> or \<open>[5]\<close>.\<close>

definition adjust_expression_for_appending_child_path :: "ustr \<Rightarrow> (ustr, ErrorCode option) result" where
  "adjust_expression_for_appending_child_path s =
     (let parens = ustr ''('' @ s @ ustr '')'' in
      rbind (parse_watch_expression s) (\<lambda>e. rbind (root_node e) (\<lambda>nd.
        if node_a nd = BinaryOp Assign then
          (case node_children nd of
             [] \<Rightarrow> Panic
           | c # _ \<Rightarrow>
               if c < length (expr_ast e) then
                 (case node_a (expr_ast e ! c) of
                    Variable name quoted from_any_frame \<Rightarrow>
                      if \<not> quoted \<and> \<not> from_any_frame then Ok name else Ok parens
                  | _ \<Rightarrow> Ok parens)
               else Panic)
        else if has_parens nd then Ok s
        else if needs_parens (node_a nd) then Ok parens
        else Ok s)))"

section \<open>Specifications of parsers\<close>

declare One_nat_def [simp del]

lemma take_drop_1 [simp]: "take 1 (x # xs) = [x]" "drop 1 (x # xs) = xs"
  by (simp_all add: One_nat_def)

text \<open>
  A total correctness triple: from a state with \<open>P\<close> the parser does not panic and does not run out
  of fuel, and a result satisfies \<open>Q\<close>. Errors other than \<open>None\<close> are syntax errors.
\<close>

definition spec :: "(PState \<Rightarrow> bool) \<Rightarrow> 'a parser \<Rightarrow> ('a \<Rightarrow> PState \<Rightarrow> bool) \<Rightarrow> bool" where
  "spec P m Q \<longleftrightarrow> (\<forall>st. P st \<longrightarrow> (case m st of
      Ok (a, st') \<Rightarrow> Q a st' | Err e \<Rightarrow> e = Some Syntax | Panic \<Rightarrow> False))"

named_theorems spec_intros \<open>rules that follow the structure of a parser\<close>

lemma spec_bind:
  assumes "spec P m R" "\<And>a. spec (R a) (k a) Q" shows "spec P (pbind m k) Q"
  unfolding spec_def
proof (intro allI impI)
  fix st assume "P st"
  with assms(1) have m: "case m st of Ok (a, st') \<Rightarrow> R a st' | Err e \<Rightarrow> e = Some Syntax | Panic \<Rightarrow> False"
    by (simp add: spec_def)
  show "case pbind m k st of Ok (a, st') \<Rightarrow> Q a st' | Err e \<Rightarrow> e = Some Syntax | Panic \<Rightarrow> False"
  proof (cases "m st")
    case (Ok x)
    obtain a st' where x: "x = (a, st')" by fastforce
    with m Ok have "R a st'" by simp
    with assms(2) [of a] Ok x show ?thesis by (simp add: spec_def pbind_def)
  qed (use m in \<open>simp_all add: pbind_def\<close>)
qed

lemma spec_conseq:
  assumes "spec P m Q" "\<And>st. P' st \<Longrightarrow> P st" "\<And>a st. Q a st \<Longrightarrow> Q' a st" shows "spec P' m Q'"
  using assms unfolding spec_def by (fastforce split: result.splits)

lemma spec_pure: "(A \<Longrightarrow> spec P m Q) \<Longrightarrow> spec (\<lambda>st. A \<and> P st) m Q"
  unfolding spec_def by blast

lemma spec_pureI: "(\<And>st. P' st \<Longrightarrow> A \<and> P st) \<Longrightarrow> (A \<Longrightarrow> spec P m Q) \<Longrightarrow> spec P' m Q"
  unfolding spec_def by blast

lemma spec_pret [spec_intros]: "(\<And>st. P st \<Longrightarrow> Q a st) \<Longrightarrow> spec P (pret a) Q"
  by (simp add: spec_def pret_def)

lemma spec_perr [spec_intros]: "spec P perr Q"
  by (simp add: spec_def perr_def)

lemma spec_if [spec_intros]:
  "(b \<Longrightarrow> spec P m Q) \<Longrightarrow> (\<not> b \<Longrightarrow> spec P m' Q) \<Longrightarrow> spec P (if b then m else m') Q"
  by simp

text \<open>What is left to read: the characters and the tokens in the queue.\<close>

definition left :: "PState \<Rightarrow> nat" where
  "left st = length (rest (input (lex st))) + length (next_tokens (lex st))"

definition tok_ok :: "Token \<Rightarrow> bool" where
  "tok_ok t \<longleftrightarrow> t \<noteq> Eof \<and> (\<forall>u. t = TUnary u \<longrightarrow> u = Not)"

text \<open>
  The invariant: the queue holds tokens the lexer makes, indices of children are in range, and a
  binary operator has its operands.
\<close>

definition wf_node :: "ASTNode \<Rightarrow> bool" where
  "wf_node nd \<longleftrightarrow> (\<forall>op. node_a nd = BinaryOp op \<longrightarrow> 2 \<le> length (node_children nd))"

definition wf_ast :: "ASTNode list \<Rightarrow> bool" where
  "wf_ast ns \<longleftrightarrow> (\<forall>nd \<in> set ns. wf_node nd \<and> (\<forall>c \<in> set (node_children nd). c < length ns))"

definition wf_lex :: "Lexer \<Rightarrow> bool" where
  "wf_lex lx \<longleftrightarrow> (\<forall>(r, t) \<in> set (next_tokens lx). tok_ok t)"

text \<open>\<open>at S m\<close>: the invariant holds, the indices of \<open>S\<close> are valid, at most \<open>m\<close> is left to read.\<close>

definition at :: "ASTIdx set \<Rightarrow> nat \<Rightarrow> PState \<Rightarrow> bool" where
  "at S m st \<longleftrightarrow> wf_lex (lex st) \<and> wf_ast (ast st) \<and> (\<forall>i \<in> S. i < length (ast st)) \<and> left st \<le> m"

lemma at_mono: "at S m st \<Longrightarrow> S' \<subseteq> S \<Longrightarrow> m \<le> m' \<Longrightarrow> at S' m' st"
  by (auto simp: at_def)

subsection \<open>The lexer's operations\<close>

lemma lex_char_literal_tok: "lex_char_literal i = Ok (t, i') \<Longrightarrow> tok_ok t"
  by (auto simp: lex_char_literal_def tok_ok_def case_prod_beta split: option.splits if_splits)

lemma lex_number_tok: "lex_number pd i = Ok (t, i') \<Longrightarrow> tok_ok t"
  by (auto simp: lex_number_def Let_def case_prod_beta tok_ok_def split: if_splits)

lemma lex_operator_tok: "lex_operator c = Some k \<Longrightarrow> tok_ok (fst (k i))"
  unfolding lex_operator_def Let_def bin_def tok_ok_def by (auto split: if_splits prod.splits bool.splits)

lemma lex_token_tok:
  assumes "lex_token pd c i = Ok (t, i', pd')" shows "tok_ok t"
proof (cases "lex_operator c")
  case (Some k)
  with assms lex_operator_tok [OF Some, of i] show ?thesis by (auto simp: lex_token_def split: prod.splits)
next
  case None
  with assms show ?thesis
    by (auto simp: lex_token_def tok_ok_def [of "TChar c"] split: if_splits prod.splits bool.splits
        dest: lex_char_literal_tok lex_number_tok) (auto simp: tok_ok_def)
qed

lemma lex_step_wf: "lex_step lx = Ok (Some lx') \<Longrightarrow> wf_lex lx \<Longrightarrow> wf_lex lx'"
  by (auto simp: lex_step_def wf_lex_def split: prod.splits option.splits if_splits dest: lex_token_tok)

lemma lex_step_left:
  assumes "lex_step lx = Ok (Some lx')"
  shows "length (rest (input lx')) + length (next_tokens lx') \<le> length (rest (input lx)) + length (next_tokens lx)"
  using lex_step_Some [OF assms] by auto

lemma lex_step_total: "lex_step lx \<noteq> Panic \<and> (lex_step lx = Err e \<longrightarrow> e = Syntax)"
proof (cases "eat_char (input lx)")
  case (Pair x i)
  show ?thesis
  proof (cases x)
    case (Some c)
    from good_token [OF Pair [unfolded Some], of "previous_dot lx"] Pair Some show ?thesis
      by (auto simp: lex_step_def split: result.splits)
  qed (simp add: lex_step_def Pair)
qed

lemma peek_1:
  assumes "wf_lex lx"
  shows "case peek 1 lx of
      Ok ((r, t), lx') \<Rightarrow> wf_lex lx'
        \<and> length (rest (input lx')) + length (next_tokens lx') \<le> length (rest (input lx)) + length (next_tokens lx)
        \<and> (if t = Eof then next_tokens lx' = [] else \<exists>ts. next_tokens lx' = (r, t) # ts)
    | Err e \<Rightarrow> e = Syntax
    | Panic \<Rightarrow> False"
  using assms
proof (induction "1 :: nat" lx rule: peek.induct)
  case (1 lx)
  show ?case
  proof (cases "next_tokens lx")
    case (Cons x ts)
    obtain r t where x: "x = (r, t)" by fastforce
    have "t \<noteq> Eof" using "1.prems" Cons x by (simp add: wf_lex_def tok_ok_def)
    with Cons x "1.prems" show ?thesis by (simp add: peek.simps [of 1 lx])
  next
    case Nil
    note unf = peek.simps [of 1 lx]
    show ?thesis
    proof (cases "lex_step lx")
      case (Ok o')
      show ?thesis
      proof (cases o')
        case None
        with Ok Nil "1.prems" show ?thesis unfolding unf by simp
      next
        case (Some lx')
        have eq: "peek 1 lx = peek 1 lx'" using Ok Some Nil unfolding unf by simp
        have ih: "case peek 1 lx' of
            Ok ((r, t), lx'') \<Rightarrow> wf_lex lx''
              \<and> length (rest (input lx'')) + length (next_tokens lx'') \<le> length (rest (input lx')) + length (next_tokens lx')
              \<and> (if t = Eof then next_tokens lx'' = [] else \<exists>ts. next_tokens lx'' = (r, t) # ts)
          | Err e \<Rightarrow> e = Syntax | Panic \<Rightarrow> False"
          using "1.hyps" [OF _ _ Ok Some lex_step_wf [OF Ok [unfolded Some] "1.prems"]] Nil by simp
        show ?thesis unfolding eq using ih lex_step_left [OF Ok [unfolded Some]]
          by (auto split: result.splits prod.splits)
      qed
    next
      case (Err e)
      with lex_step_total [of lx e] Nil show ?thesis unfolding unf by simp
    next
      case Panic
      with lex_step_total [of lx] show ?thesis by blast
    qed
  qed
qed

lemma at_lex: "at S m (st\<lparr>lex := lx\<rparr>) \<longleftrightarrow> wf_lex lx \<and> wf_ast (ast st) \<and> (\<forall>i \<in> S. i < length (ast st))
    \<and> length (rest (input lx)) + length (next_tokens lx) \<le> m"
  by (simp add: at_def left_def)

lemma wf_lex_tl: "wf_lex lx \<Longrightarrow> next_tokens lx = x # ts \<Longrightarrow> wf_lex (lx\<lparr>next_tokens := ts, previous_token_end := p\<rparr>)"
  "wf_lex lx \<Longrightarrow> wf_lex (lx\<lparr>previous_token_end := p\<rparr>)"
  "wf_lex lx \<Longrightarrow> next_tokens lx = (r, t) # ts \<Longrightarrow> tok_ok t"
  by (auto simp: wf_lex_def)

text \<open>Peeking queues the token it returns, so that the next \<open>eat\<close> makes progress.\<close>

definition queued :: "ASTIdx set \<Rightarrow> nat \<Rightarrow> PState \<Rightarrow> bool" where
  "queued S m st \<longleftrightarrow> at S m st \<and> next_tokens (lex st) \<noteq> []"

lemma peek_1_cases:
  assumes "wf_lex lx"
  obtains (Eof) r lx' where "peek 1 lx = Ok ((r, Eof), lx')" "wf_lex lx'" "next_tokens lx' = []"
      "length (rest (input lx')) \<le> length (rest (input lx)) + length (next_tokens lx)"
    | (Tok) r t ts lx' where "peek 1 lx = Ok ((r, t), lx')" "wf_lex lx'" "next_tokens lx' = (r, t) # ts" "tok_ok t"
      "Suc (length (rest (input lx')) + length ts) \<le> length (rest (input lx)) + length (next_tokens lx)"
    | (Err) "peek 1 lx = Err Syntax"
proof (cases "peek 1 lx")
  case (Ok x)
  obtain r t lx' where x: "x = ((r, t), lx')" by (metis surj_pair)
  with peek_1 [OF assms] Ok have p: "wf_lex lx'"
      "length (rest (input lx')) + length (next_tokens lx') \<le> length (rest (input lx)) + length (next_tokens lx)"
      "if t = Eof then next_tokens lx' = [] else \<exists>ts. next_tokens lx' = (r, t) # ts" by simp_all
  show ?thesis
  proof (cases "t = Eof")
    case True
    with p Ok x that(1) [of r lx'] show ?thesis by simp
  next
    case False
    with p(3) obtain ts where ts: "next_tokens lx' = (r, t) # ts" by auto
    with p Ok x False that(2) [of r t lx' ts] wf_lex_tl(3) [OF p(1) ts] show ?thesis by simp
  qed
qed (use peek_1 [OF assms] that(3) in auto)

lemma spec_lexI:
  assumes "\<And>st. at S m st \<Longrightarrow> case f (lex st) of
      Ok (a, lx) \<Rightarrow> R a (st\<lparr>lex := lx\<rparr>) | Err e \<Rightarrow> e = Syntax | Panic \<Rightarrow> False"
  shows "spec (at S m) (lift_lex f) R"
  unfolding spec_def lift_lex_def
proof (intro allI impI)
  fix st assume "at S m st"
  from assms [OF this] show "case case f (lex st) of Ok (a, lx) \<Rightarrow> Ok (a, st\<lparr>lex := lx\<rparr>)
        | Err e \<Rightarrow> Err (Some e) | Panic \<Rightarrow> Panic of
      Ok (a, st') \<Rightarrow> R a st' | Err e \<Rightarrow> e = Some Syntax | Panic \<Rightarrow> False"
    by (cases "f (lex st)") auto
qed

lemma at_wf: "at S m st \<Longrightarrow> wf_lex (lex st)"
  and at_left: "at S m st \<Longrightarrow> length (rest (input (lex st))) + length (next_tokens (lex st)) \<le> m"
  by (simp_all add: at_def left_def)

lemma at_lexI: "at S m st \<Longrightarrow> wf_lex lx \<Longrightarrow> length (rest (input lx)) + length (next_tokens lx) \<le> m' \<Longrightarrow> at S m' (st\<lparr>lex := lx\<rparr>)"
  by (simp add: at_def left_def)

lemma spec_peek [spec_intros]:
  assumes "\<And>r. spec (at S m) (k (r, Eof)) Q"
    and "\<And>r t. tok_ok t \<Longrightarrow> 0 < m \<Longrightarrow> spec (queued S m) (k (r, t)) Q"
  shows "spec (at S m) (pbind p_peek k) Q"
proof (rule spec_bind)
  show "spec (at S m) p_peek (\<lambda>(r, t) st. if t = Eof then at S m st else (tok_ok t \<and> 0 < m) \<and> queued S m st)"
  proof (rule spec_lexI)
    fix st assume st: "at S m st"
    show "case peek 1 (lex st) of
        Ok (a, lx) \<Rightarrow> (\<lambda>(r, t) st. if t = Eof then at S m st else (tok_ok t \<and> 0 < m) \<and> queued S m st) a (st\<lparr>lex := lx\<rparr>)
      | Err e \<Rightarrow> e = Syntax | Panic \<Rightarrow> False"
      using at_wf [OF st] by (rule peek_1_cases)
        (use at_left [OF st] in \<open>auto simp: tok_ok_def queued_def intro!: at_lexI [OF st]\<close>)
  qed
  fix a :: "span \<times> Token"
  obtain r t where a: "a = (r, t)" by fastforce
  show "spec ((\<lambda>(r, t) st. if t = Eof then at S m st else (tok_ok t \<and> 0 < m) \<and> queued S m st) a) (k a) Q"
    using assms by (cases "t = Eof") (simp_all add: a spec_pureI [where A = "tok_ok t \<and> 0 < m" and P = "queued S m"])
qed

lemma eat_eq:
  "eat 1 lx = rbind (peek 1 lx) (\<lambda>((r, t), lx'). case next_tokens lx' of
     [] \<Rightarrow> Ok (((pos (input lx'), pos (input lx')), Eof), lx'\<lparr>previous_token_end := snd r\<rparr>)
   | x # ts \<Rightarrow> Ok (x, lx'\<lparr>previous_token_end := snd r, next_tokens := ts\<rparr>))"
  unfolding eat_def
  by (rule arg_cong [where f = "rbind (peek 1 lx)"]) (auto simp: fun_eq_iff Let_def split: list.splits)

lemma eat_queued:
  assumes "next_tokens lx = x # ts"
  shows "eat 1 lx = Ok (x, lx\<lparr>previous_token_end := snd (fst x), next_tokens := ts\<rparr>)"
proof -
  have "peek 1 lx = Ok (x, lx)" using assms by (subst peek.simps) simp
  with assms show ?thesis by (cases x) (simp add: eat_eq)
qed

lemma wf_lex_update: "wf_lex lx \<Longrightarrow> next_tokens lx = x # ts \<Longrightarrow> wf_lex (lx\<lparr>previous_token_end := p, next_tokens := ts\<rparr>)"
  by (auto simp: wf_lex_def)

lemma spec_eat [spec_intros]:
  assumes "\<And>r. spec (at S m) (k (r, Eof)) Q"
    and "\<And>r t. tok_ok t \<Longrightarrow> 0 < m \<Longrightarrow> spec (at S (m - 1)) (k (r, t)) Q"
  shows "spec (at S m) (pbind p_eat k) Q"
proof (rule spec_bind)
  show "spec (at S m) p_eat (\<lambda>(r, t) st. if t = Eof then at S m st else (tok_ok t \<and> 0 < m) \<and> at S (m - 1) st)"
  proof (rule spec_lexI)
    fix st assume st: "at S m st"
    show "case eat 1 (lex st) of
        Ok (a, lx) \<Rightarrow> (\<lambda>(r, t) st. if t = Eof then at S m st else (tok_ok t \<and> 0 < m) \<and> at S (m - 1) st) a (st\<lparr>lex := lx\<rparr>)
      | Err e \<Rightarrow> e = Syntax | Panic \<Rightarrow> False"
      using at_wf [OF st] by (rule peek_1_cases)
        (use at_left [OF st] in \<open>auto simp: eat_eq tok_ok_def intro!: at_lexI [OF st] wf_lex_tl(2) wf_lex_update\<close>)
  qed
  fix a :: "span \<times> Token"
  obtain r t where a: "a = (r, t)" by fastforce
  show "spec ((\<lambda>(r, t) st. if t = Eof then at S m st else (tok_ok t \<and> 0 < m) \<and> at S (m - 1) st) a) (k a) Q"
    using assms by (cases "t = Eof") (simp_all add: a spec_pureI [where A = "tok_ok t \<and> 0 < m" and P = "at S (m - 1)"])
qed

lemma spec_queued: "spec (at S m) p Q \<Longrightarrow> spec (queued S m) p Q"
  by (erule spec_conseq) (auto simp: queued_def)

lemma spec_eat_queued [spec_intros]:
  assumes "\<And>r t. 0 < m \<Longrightarrow> spec (at S (m - 1)) (k (r, t)) Q"
  shows "spec (queued S m) (pbind p_eat k) Q"
proof (rule spec_bind [where R = "\<lambda>_ st. 0 < m \<and> at S (m - 1) st"])
  show "spec (queued S m) p_eat (\<lambda>_ st. 0 < m \<and> at S (m - 1) st)"
    unfolding spec_def
  proof (intro allI impI)
    fix st assume q: "queued S m st"
    then obtain x ts where x: "next_tokens (lex st) = x # ts" and st: "at S m st"
      by (auto simp: queued_def neq_Nil_conv)
    show "case p_eat st of Ok (a, st') \<Rightarrow> 0 < m \<and> at S (m - 1) st' | Err e \<Rightarrow> e = Some Syntax | Panic \<Rightarrow> False"
      using at_left [OF st] x
      by (auto simp: lift_lex_def eat_queued [OF x] intro!: at_lexI [OF st] wf_lex_update [OF at_wf [OF st] x])
  qed
  show "spec (\<lambda>st. 0 < m \<and> at S (m - 1) st) (k a) Q" for a
    using assms [of "fst a" "snd a"] by (intro spec_pure) simp
qed

lemma spec_eat_if [spec_intros]:
  assumes "\<not> f Eof" "spec (at S m) (k None) Q"
    and "\<And>r t. 0 < m \<Longrightarrow> spec (at S (m - 1)) (k (Some (r, t))) Q"
  shows "spec (at S m) (pbind (p_eat_if f) k) Q"
proof (rule spec_bind)
  show "spec (at S m) (p_eat_if f) (\<lambda>o' st. if o' = None then at S m st else 0 < m \<and> at S (m - 1) st)"
  proof (rule spec_lexI)
    fix st assume st: "at S m st"
    show "case eat_if f (lex st) of
        Ok (a, lx) \<Rightarrow> if a = None then at S m (st\<lparr>lex := lx\<rparr>) else 0 < m \<and> at S (m - 1) (st\<lparr>lex := lx\<rparr>)
      | Err e \<Rightarrow> e = Syntax | Panic \<Rightarrow> False"
      using at_wf [OF st] by (rule peek_1_cases)
        (use at_left [OF st] assms(1) in \<open>auto simp: eat_if_def intro!: at_lexI [OF st] wf_lex_tl(1)\<close>)
  qed
  fix o' :: "(span \<times> Token) option"
  show "spec (\<lambda>st. if o' = None then at S m st else 0 < m \<and> at S (m - 1) st) (k o') Q"
  proof (cases o')
    case (Some x)
    have "spec (\<lambda>st. 0 < m \<and> at S (m - 1) st) (k (Some (fst x, snd x))) Q"
      by (intro spec_pure assms(3))
    with Some show ?thesis by simp
  qed (simp add: assms(2))
qed

lemma spec_peek_expect [spec_intros]:
  assumes "\<And>a. spec (at S m) (k a) Q"
  shows "spec (at S m) (pbind (p_peek_expect f) k) Q"
proof (rule spec_bind [OF spec_lexI])
  fix st assume st: "at S m st"
  show "case peek_expect f (lex st) of
      Ok (a, lx) \<Rightarrow> at S m (st\<lparr>lex := lx\<rparr>) | Err e \<Rightarrow> e = Syntax | Panic \<Rightarrow> False"
    using at_wf [OF st] by (rule peek_1_cases)
      (use at_left [OF st] in \<open>auto simp: peek_expect_def intro!: at_lexI [OF st]\<close>)
qed (rule assms)

lemma spec_expect [spec_intros]:
  assumes "\<not> f Eof" "\<And>r t. f t \<Longrightarrow> 0 < m \<Longrightarrow> spec (at S (m - 1)) (k (r, t)) Q"
  shows "spec (at S m) (pbind (p_expect f) k) Q"
proof (rule spec_bind)
  show "spec (at S m) (p_expect f) (\<lambda>(r, t) st. (f t \<and> 0 < m) \<and> at S (m - 1) st)"
  proof (rule spec_lexI)
    fix st assume st: "at S m st"
    show "case expect f (lex st) of
        Ok (a, lx) \<Rightarrow> (\<lambda>(r, t) st. (f t \<and> 0 < m) \<and> at S (m - 1) st) a (st\<lparr>lex := lx\<rparr>)
      | Err e \<Rightarrow> e = Syntax | Panic \<Rightarrow> False"
      using at_wf [OF st] by (rule peek_1_cases)
        (use at_left [OF st] assms(1) in \<open>auto simp: expect_def peek_expect_def eat_queued intro!: at_lexI [OF st] wf_lex_update\<close>)
  qed
  fix a :: "span \<times> Token"
  obtain r t where a: "a = (r, t)" by fastforce
  show "spec ((\<lambda>(r, t) st. (f t \<and> 0 < m) \<and> at S (m - 1) st) a) (k a) Q"
    using assms(2) by (simp add: a spec_pureI [where A = "f t \<and> 0 < m" and P = "at S (m - 1)"])
qed

subsection \<open>The arena\<close>

lemma spec_pret_bind [spec_intros]: "spec P (k a) Q \<Longrightarrow> spec P (pbind (pret a) k) Q"
  by (simp add: spec_def pret_def pbind_def)

lemma spec_if_bind [spec_intros]:
  "(b \<Longrightarrow> spec P (pbind m k) Q) \<Longrightarrow> (\<not> b \<Longrightarrow> spec P (pbind m' k) Q) \<Longrightarrow> spec P (pbind (if b then m else m') k) Q"
  by simp

lemma spec_assoc [spec_intros]:
  assumes "spec P (pbind m (\<lambda>a. pbind (f a) k)) Q" shows "spec P (pbind (pbind m f) k) Q"
proof -
  have "pbind (pbind m f) k = pbind m (\<lambda>a. pbind (f a) k)"
  proof (rule ext)
    fix st show "pbind (pbind m f) k st = pbind m (\<lambda>a. pbind (f a) k) st"
      by (cases "m st") (auto simp: pbind_def)
  qed
  with assms show ?thesis by simp
qed

lemma spec_prev_end [spec_intros]: "(\<And>e. spec P (k e) Q) \<Longrightarrow> spec P (pbind prev_end k) Q"
  by (simp add: spec_def prev_end_def pbind_def)

lemma at_push:
  assumes "at S m st" "set (node_children nd) \<subseteq> S \<and> wf_node nd"
  shows "at (insert (length (ast st)) S) m (st\<lparr>ast := ast st @ [nd]\<rparr>)"
  using assms unfolding at_def wf_ast_def left_def by (auto simp: less_Suc_eq)

lemma spec_push [spec_intros]:
  assumes "set (node_children nd) \<subseteq> S \<and> wf_node nd" "\<And>i. spec (at (insert i S) m) (k i) Q"
  shows "spec (at S m) (pbind (push_node nd) k) Q"
  using assms(2) at_push [OF _ assms(1)] unfolding spec_def pbind_def push_node_def by simp

lemma spec_push_last:
  assumes "set (node_children nd) \<subseteq> S \<and> wf_node nd" "\<And>i st. at (insert i S) m st \<Longrightarrow> Q i st"
  shows "spec (at S m) (push_node nd) Q"
  using assms(2) at_push [OF _ assms(1)] unfolding spec_def push_node_def by simp

lemma spec_finish [spec_intros]:
  assumes "set cs \<subseteq> S" "\<And>op. a \<noteq> BinaryOp op" "\<And>i st. at (insert i S) m st \<Longrightarrow> Q i st"
  shows "spec (at S m) (finish start a cs) Q"
  unfolding finish_def by (intro spec_intros spec_push_last assms(3)) (simp add: mk_node_def wf_node_def assms(1,2))

lemma spec_get [spec_intros]:
  assumes "i \<in> S" "\<And>nd. spec (at S m) (k nd) Q" shows "spec (at S m) (pbind (get_node i) k) Q"
  unfolding spec_def
proof (intro allI impI)
  fix st assume st: "at S m st"
  with assms(1) have "get_node i st = Ok (ast st ! i, st)" by (simp add: at_def get_node_def)
  with assms(2) [of "ast st ! i"] st
  show "case pbind (get_node i) k st of Ok (a, st') \<Rightarrow> Q a st' | Err e \<Rightarrow> e = Some Syntax | Panic \<Rightarrow> False"
    by (simp add: spec_def pbind_def)
qed

lemma at_update:
  assumes "at S m st"
    and f: "\<And>nd. set (node_children (f nd)) \<subseteq> set (node_children nd) \<union> S \<and> (wf_node nd \<longrightarrow> wf_node (f nd))"
  shows "at S m (st\<lparr>ast := (ast st)[i := f (ast st ! i)]\<rparr>)"
proof (cases "i < length (ast st)")
  case True
  have "wf_node nd \<and> (\<forall>c \<in> set (node_children nd). c < length (ast st))"
    if nd: "nd \<in> set ((ast st)[i := f (ast st ! i)])" for nd
  proof -
    have old: "wf_node nd' \<and> (\<forall>c \<in> set (node_children nd'). c < length (ast st))" if "nd' \<in> set (ast st)" for nd'
      using assms(1) that by (simp add: at_def wf_ast_def)
    have S: "\<forall>c \<in> S. c < length (ast st)" using assms(1) by (simp add: at_def)
    from nd set_update_subset_insert have "nd = f (ast st ! i) \<or> nd \<in> set (ast st)" by fastforce
    with old S f [of "ast st ! i"] True show ?thesis by (meson UnE in_mono nth_mem)
  qed
  with assms(1) show ?thesis by (auto simp: at_def wf_ast_def left_def)
next
  case False
  then have "(ast st)[i := f (ast st ! i)] = ast st" by (simp add: list_update_beyond)
  with assms(1) show ?thesis by simp
qed

lemma spec_update [spec_intros]:
  assumes "i \<in> S" "spec (at S m) (k ()) Q"
    and f: "\<And>nd. set (node_children (f nd)) \<subseteq> set (node_children nd) \<union> S \<and> (wf_node nd \<longrightarrow> wf_node (f nd))"
  shows "spec (at S m) (pbind (update_node i f) k) Q"
  unfolding spec_def
proof (intro allI impI)
  fix st assume st: "at S m st"
  with assms(1) have "update_node i f st = Ok ((), st\<lparr>ast := (ast st)[i := f (ast st ! i)]\<rparr>)"
    by (simp add: at_def update_node_def)
  with assms(2) at_update [OF st f]
  show "case pbind (update_node i f) k st of Ok (a, st') \<Rightarrow> Q a st' | Err e \<Rightarrow> e = Some Syntax | Panic \<Rightarrow> False"
    by (simp add: spec_def pbind_def)
qed

lemma spec_comma_or [spec_intros]: "spec (at S m) (k ()) Q \<Longrightarrow> spec (at S m) (pbind (comma_or c) k) Q"
  unfolding comma_or_def
  by (intro spec_intros; simp add: is_binary_operator_def)
    (erule spec_conseq; auto elim: at_mono)

lemma spec_expect_identifier [spec_intros]:
  assumes "\<And>s. 0 < m \<Longrightarrow> spec (at S (m - 1)) (k s) Q"
  shows "spec (at S m) (pbind expect_identifier k) Q"
  unfolding expect_identifier_def
proof (intro spec_intros)
  fix r t assume "is_identifier t" and m: "0 < m"
  then obtain s q where t: "t = Identifier s q" by (cases t) auto
  show "spec (at S (m - 1)) (pbind (case (r, t) of (r, t) \<Rightarrow>
      case into_identifier t of Ok s \<Rightarrow> pret s | Err e \<Rightarrow> perr | Panic \<Rightarrow> ppanic) k) Q"
    using assms [OF m] by (simp add: t spec_pret_bind)
qed simp

subsection \<open>Recursion and loops\<close>

text \<open>
  What a recursive call promises with fuel \<open>n\<close>: on less than \<open>n\<close> left it reads at least one token
  and returns a valid index.
\<close>

definition parse_ok :: "nat \<Rightarrow> ASTIdx parser \<Rightarrow> bool" where
  "parse_ok n p \<longleftrightarrow> (\<forall>S m. m < n \<longrightarrow> spec (at S m) p (\<lambda>i st. 0 < m \<and> at (insert i S) (m - 1) st))"

lemma parse_okD: "parse_ok n p \<Longrightarrow> m < n \<Longrightarrow> spec (at S m) p (\<lambda>i st. 0 < m \<and> at (insert i S) (m - 1) st)"
  by (simp add: parse_ok_def)

lemma spec_call:
  assumes "parse_ok n p" "m < n" "\<And>i. 0 < m \<Longrightarrow> spec (at (insert i S) (m - 1)) (k i) Q"
  shows "spec (at S m) (pbind p k) Q"
  by (rule spec_bind [OF parse_okD [OF assms(1,2)]]) (intro spec_pure assms(3))

lemma spec_call_last:
  assumes "parse_ok n p" "m < n" "\<And>i st. 0 < m \<Longrightarrow> at (insert i S) (m - 1) st \<Longrightarrow> Q i st"
  shows "spec (at S m) p Q"
  by (rule spec_conseq [OF parse_okD [OF assms(1,2)]]) (use assms(3) in auto)

lemma spec_ploop:
  assumes "m < n"
    and body: "\<And>x m'. m' \<le> m \<Longrightarrow> spec (K x m') (body x)
        (\<lambda>r st. case r of Inl y \<Rightarrow> 0 < m' \<and> K y (m' - 1) st | Inr c \<Rightarrow> J c m' st)"
    and exit: "\<And>c m m' st. m' \<le> m \<Longrightarrow> J c m' st \<Longrightarrow> J c m st"
  shows "spec (K x m) (ploop n body x) (\<lambda>c. J c m)"
  using assms
proof (induction n arbitrary: x m)
  case (Suc n)
  show ?case unfolding ploop.simps
  proof (rule spec_bind [OF Suc.prems(2) [OF order_refl]])
    fix r
    show "spec (\<lambda>st. case r of Inl y \<Rightarrow> 0 < m \<and> K y (m - 1) st | Inr c \<Rightarrow> J c m st)
        (case r of Inl b \<Rightarrow> ploop n body b | Inr c \<Rightarrow> pret c) (\<lambda>c. J c m)"
    proof (cases r)
      case (Inl y)
      have y: "spec (K y (m - 1)) (ploop n body y) (\<lambda>c. J c (m - 1))" if "0 < m"
        using Suc.prems that by (intro Suc.IH) auto
      have "spec (\<lambda>st. 0 < m \<and> K y (m - 1) st) (ploop n body y) (\<lambda>c. J c m)"
        by (intro spec_pure, erule spec_conseq [OF y]) (use Suc.prems(3) [of "m - 1" m] in simp_all)
      then show ?thesis by (simp add: Inl)
    qed (simp add: spec_pret)
  qed
qed simp

text \<open>A loop that collects indices.\<close>

lemma spec_collect:
  assumes "m < n"
    and "\<And>x m'. m' \<le> m \<Longrightarrow> spec (at (S \<union> set (f x)) m') (body x)
        (\<lambda>r st. case r of Inl y \<Rightarrow> 0 < m' \<and> at (S \<union> set (f y)) (m' - 1) st
           | Inr c \<Rightarrow> G c \<and> at (S \<union> set (g c)) m' st)"
    and "\<And>c. G c \<Longrightarrow> spec (at (S \<union> set (g c)) m) (k c) Q" "set (f x) = {}"
  shows "spec (at S m) (pbind (ploop n body x) k) Q"
proof (rule spec_bind)
  have "spec (at (S \<union> set (f x)) m) (ploop n body x) (\<lambda>c st. G c \<and> at (S \<union> set (g c)) m st)"
    by (rule spec_ploop [where K = "\<lambda>x. at (S \<union> set (f x))" and J = "\<lambda>c m st. G c \<and> at (S \<union> set (g c)) m st"])
      (use assms(1,2) in \<open>auto elim: at_mono\<close>)
  with assms(4) show "spec (at S m) (ploop n body x) (\<lambda>c st. G c \<and> at (S \<union> set (g c)) m st)" by simp
qed (intro spec_pure assms(3))

lemma spec_option [spec_intros]:
  "(x = None \<Longrightarrow> spec P m Q) \<Longrightarrow> (\<And>a. x = Some a \<Longrightarrow> spec P (k a) Q) \<Longrightarrow>
    spec P (case x of None \<Rightarrow> m | Some a \<Rightarrow> k a) Q"
  by (cases x) simp_all

lemma spec_prod [spec_intros]: "(\<And>a b. x = (a, b) \<Longrightarrow> spec P (k a b) Q) \<Longrightarrow> spec P (case x of (a, b) \<Rightarrow> k a b) Q"
  by (cases x) simp

lemma spec_token [spec_intros]:
  "(\<And>op. t = TBinary op \<Longrightarrow> spec P (k1 op) Q) \<Longrightarrow> (\<And>op. t = TUnary op \<Longrightarrow> spec P (k2 op) Q) \<Longrightarrow>
   (t = Arrow \<Longrightarrow> spec P k3 Q) \<Longrightarrow> (\<And>c. t = TChar c \<Longrightarrow> spec P (k4 c) Q) \<Longrightarrow>
   (\<And>v. t = TLiteral v \<Longrightarrow> spec P (k5 v) Q) \<Longrightarrow> (\<And>s q. t = Identifier s q \<Longrightarrow> spec P (k6 s q) Q) \<Longrightarrow>
   (t = Eof \<Longrightarrow> spec P k7 Q) \<Longrightarrow> spec P (case_Token k1 k2 k3 k4 k5 k6 k7 t) Q"
  by (cases t) simp_all

lemma spec_length [spec_intros]:
  "(\<And>n. v = Basic (U n) \<Longrightarrow> spec P (k n) Q) \<Longrightarrow> spec P (case v of Basic (U n) \<Rightarrow> k n | _ \<Rightarrow> perr) Q"
  by (simp add: spec_perr split: LiteralValue.split BasicValue.split)

lemmas token_simps = is_char_def is_binary_operator_def mk_node_def wf_node_def

lemma block_step_ok:
  assumes "\<And>p. parse_ok n (e p)" "m < n"
  shows "spec (at (S \<union> set cs) m) (block_step e cs)
    (\<lambda>r st. case r of Inl y \<Rightarrow> 0 < m \<and> at (S \<union> set y) (m - 1) st | Inr c \<Rightarrow> c \<noteq> [] \<and> at (S \<union> set c) m st)"
  unfolding block_step_def
  by (intro spec_intros spec_call [OF assms]; auto simp: token_simps elim!: at_mono)

lemma parse_block_ok:
  assumes "\<And>p. parse_ok n (e p)" shows "parse_ok (Suc n) (parse_block_body (Suc n) e)"
  unfolding parse_ok_def parse_block_body_def
  by (intro allI impI spec_intros block_step_ok [OF assms]
      spec_collect [where f = "\<lambda>x. x" and g = "\<lambda>x. x" and G = "\<lambda>c. c \<noteq> []"])
    (auto simp: token_simps elim!: at_mono)

lemma parse_type_ok:
  assumes "parse_ok n ty" shows "parse_ok (Suc n) (parse_type_body ty)"
  unfolding parse_ok_def parse_type_body_def
  by (intro allI impI spec_intros spec_call [OF assms]) (auto simp: token_simps elim!: at_mono)

subsection \<open>Operands\<close>

text \<open>What follows the first token of an expression: it returns a valid index.\<close>

abbreviation node_ok :: "nat \<Rightarrow> ASTIdx parser \<Rightarrow> bool" where
  "node_ok n p \<equiv> \<forall>S m. m < n \<longrightarrow> spec (at S m) p (\<lambda>i. at (insert i S) m)"

lemma parse_ok_node: "parse_ok n p \<Longrightarrow> node_ok n p"
  by (auto intro!: spec_call_last elim!: at_mono)

lemma struct_step_ok:
  assumes "parse_ok n p" "m < n"
  shows "spec (at (S \<union> set (snd acc)) m) (struct_step p acc)
    (\<lambda>r st. case r of Inl y \<Rightarrow> 0 < m \<and> at (S \<union> set (snd y)) (m - 1) st | Inr c \<Rightarrow> True \<and> at (S \<union> set (snd c)) m st)"
  unfolding struct_step_def
  by (intro spec_intros spec_call [OF assms(1)]) (use assms(2) in \<open>auto simp: token_simps elim!: at_mono\<close>)

lemma parse_struct_ok:
  assumes "\<And>p. parse_ok n (e p)" "parse_ok n ty" shows "node_ok n (parse_struct (Suc n) e ty start)"
  unfolding parse_struct_def
  by (intro allI impI spec_intros struct_step_ok [OF assms(1)] struct_step_ok [OF assms(2)]
      spec_collect [where f = snd and g = snd and G = "\<lambda>c. True"])
    (auto simp: token_simps elim!: at_mono)

lemma parse_return_ok:
  assumes "\<And>p. parse_ok n (e p)" shows "node_ok n (parse_return e start)"
  unfolding parse_return_def
  by (intro allI impI spec_intros spec_queued spec_call [OF assms]) (auto elim!: at_mono)

lemma parse_while_ok:
  assumes "\<And>p. parse_ok n (e p)" "parse_ok n b" shows "node_ok n (parse_while e b start)"
  unfolding parse_while_def
  by (intro allI impI spec_intros spec_call [OF assms(1)] spec_call [OF assms(2)]) (auto elim!: at_mono)

lemma parse_for_ok:
  assumes "\<And>p. parse_ok n (e p)" "parse_ok n b" shows "node_ok n (parse_for e b start)"
  unfolding parse_for_def
  by (intro allI impI spec_intros spec_call [OF assms(1)] spec_call [OF assms(2)]) (auto elim!: at_mono)

lemma parse_if_ok:
  assumes "\<And>p. parse_ok n (e p)" "parse_ok n b" shows "node_ok n (parse_if e b start)"
  unfolding parse_if_def
  by (intro allI impI spec_intros spec_call [OF assms(1)] spec_call [OF assms(2)] spec_queued) (auto elim!: at_mono)

lemma parse_let_ok:
  assumes "\<And>p. parse_ok n (e p)" "parse_ok n ty" shows "node_ok n (parse_let e ty start)"
  unfolding parse_let_def
  by (intro allI impI spec_intros spec_call [OF assms(1)] spec_call [OF assms(2)])
    (auto simp: token_simps elim!: at_mono)

lemma fn_arg_step_ok:
  assumes "parse_ok n ty" "m < n"
  shows "spec (at (S \<union> set (snd acc)) m) (fn_arg_step ty acc)
    (\<lambda>r st. case r of Inl y \<Rightarrow> 0 < m \<and> at (S \<union> set (snd y)) (m - 1) st | Inr c \<Rightarrow> True \<and> at (S \<union> set (snd c)) m st)"
  unfolding fn_arg_step_def
  by (intro spec_intros spec_call [OF assms(1)]) (use assms(2) in \<open>auto simp: token_simps elim!: at_mono\<close>)

lemma parse_fn_ok:
  assumes "parse_ok n ty" "parse_ok n b" shows "node_ok n (parse_fn (Suc n) ty b start)"
  unfolding parse_fn_def
  by (intro allI impI spec_intros spec_call [OF assms(1)] spec_call [OF assms(2)] fn_arg_step_ok [OF assms(1)]
      spec_collect [where f = snd and g = snd and G = "\<lambda>c. True"])
    (auto simp: token_simps elim!: at_mono)

lemma parse_word_ok:
  assumes "\<And>p. parse_ok n (e p)" "parse_ok n ty" "parse_ok n b"
  shows "node_ok n (parse_word (Suc n) e ty b start s)"
  unfolding parse_word_def
  by (intro allI impI spec_intros parse_struct_ok [OF assms(1,2), rule_format]
      parse_return_ok [OF assms(1), rule_format] parse_while_ok [OF assms(1,3), rule_format]
      parse_for_ok [OF assms(1,3), rule_format] parse_if_ok [OF assms(1,3), rule_format]
      parse_let_ok [OF assms(1,2), rule_format] parse_fn_ok [OF assms(2,3), rule_format] spec_call [OF assms(3)])
    (auto elim!: at_mono)

lemma spec_variable [spec_intros]:
  "(\<And>s q f. a = Variable s q f \<Longrightarrow> spec P (k s q f) Q) \<Longrightarrow>
    spec P (case a of Variable s q f \<Rightarrow> k s q f | _ \<Rightarrow> perr) Q"
  by (cases a) (simp_all add: spec_perr)

lemma parse_unary_ok:
  assumes "\<And>p. parse_ok n (e p)" shows "node_ok n (parse_unary e start op)"
  unfolding parse_unary_def by (intro allI impI spec_intros spec_call [OF assms]) (auto elim!: at_mono)

lemma parse_caret_ok:
  assumes "\<And>p. parse_ok n (e p)" shows "node_ok n (parse_caret e start)"
  unfolding parse_caret_def by (intro allI impI spec_intros spec_call [OF assms]) (auto simp: wf_node_def elim!: at_mono)

lemma parse_parens_ok:
  assumes "\<And>p. parse_ok n (e p)" shows "node_ok n (parse_parens e start)"
  unfolding parse_parens_def by (intro allI impI spec_intros spec_call [OF assms]) (auto simp: wf_node_def elim!: at_mono)

lemma array_step_ok:
  assumes "\<And>p. parse_ok n (e p)" "m < n"
  shows "spec (at (S \<union> set cs) m) (array_step e cs)
    (\<lambda>r st. case r of Inl y \<Rightarrow> 0 < m \<and> at (S \<union> set y) (m - 1) st | Inr c \<Rightarrow> True \<and> at (S \<union> set c) m st)"
  unfolding array_step_def
  by (intro spec_intros spec_call [OF assms]) (auto simp: token_simps elim!: at_mono)

lemma parse_operand_ok:
  assumes "\<And>p. parse_ok n (e p)" "parse_ok n ty" "parse_ok n b" "tok_ok t"
  shows "node_ok n (parse_operand (Suc n) e ty b start t)"
  unfolding parse_operand_def
  by (intro allI impI spec_intros parse_word_ok [OF assms(1-3), rule_format]
    parse_caret_ok [OF assms(1), rule_format] parse_unary_ok [OF assms(1), rule_format]
    parse_parens_ok [OF assms(1), rule_format]  array_step_ok [OF assms(1)]
    parse_ok_node [OF assms(3), rule_format]
    spec_collect [where f = "\<lambda>x. x" and g = "\<lambda>x. x" and G = "\<lambda>c. True"])
  (use assms(4) in \<open>auto simp: tok_ok_def elim!: at_mono\<close>)

subsection \<open>Operators and suffixes\<close>

lemma spec_end_pass [spec_intros]:
  assumes "i \<in> S" "\<And>st. at S m st \<Longrightarrow> Q (Inl i) st" shows "spec (at S m) (end_pass i) Q"
  unfolding end_pass_def by (intro spec_intros assms) (auto simp: wf_node_def)

lemma spec_push_binary [spec_intros]:
  assumes "i \<in> S" "j \<in> S" "\<And>k st. at (insert k S) m st \<Longrightarrow> Q (Inl k) st"
  shows "spec (at S m) (push_binary a i j) Q"
  unfolding push_binary_def by (intro spec_intros assms) (auto simp: token_simps assms(1,2))

lemma call_arg_step_ok:
  assumes "\<And>p. parse_ok n (e p)" "m < n" "i \<in> S"
  shows "spec (at S m) (call_arg_step e i u)
    (\<lambda>r st. case r of Inl y \<Rightarrow> 0 < m \<and> at S (m - 1) st | Inr c \<Rightarrow> at S m st)"
  unfolding call_arg_step_def
  by (intro spec_intros spec_call [OF assms(1,2)] spec_queued)
    (use assms(3) in \<open>auto simp: token_simps queued_def elim!: at_mono\<close>)

lemma spec_call_args [spec_intros]:
  assumes "\<And>p. parse_ok n (e p)" "m < n" "i \<in> S" "spec (at S m) (k ()) Q"
  shows "spec (at S m) (pbind (ploop (Suc n) (call_arg_step e i) ()) k) Q"
proof (rule spec_bind)
  show "spec (at S m) (ploop (Suc n) (call_arg_step e i) ()) (\<lambda>c. at S m)"
    using assms(2,3) by (intro spec_ploop [where K = "\<lambda>x. at S" and J = "\<lambda>c. at S"] call_arg_step_ok [OF assms(1)])
      (auto elim: at_mono)
qed (use assms(4) in simp)

lemma parse_call_ok:
  assumes "\<And>p. parse_ok n (e p)" "parse_ok n ty" "m < n" "i \<in> S"
  shows "spec (at S m) (parse_call (Suc n) e ty i) (\<lambda>r st. case r of Inl j \<Rightarrow> at (insert j S) m st | Inr c \<Rightarrow> False)"
  unfolding parse_call_def
  by (intro spec_intros assms(1) spec_call [OF assms(2)]) (use assms(3,4) in \<open>auto simp: token_simps elim!: at_mono\<close>)

lemma parse_dot_ok:
  assumes "\<And>p. parse_ok n (e p)" "m < n" "i \<in> S"
  shows "spec (at S m) (parse_dot e i) (\<lambda>r st. case r of Inl j \<Rightarrow> at (insert j S) m st | Inr c \<Rightarrow> False)"
  unfolding parse_dot_def Let_def
  by (intro spec_intros spec_call [OF assms(1)]) (use assms(2,3) in \<open>auto simp: token_simps elim!: at_mono\<close>)

lemma postfix_step_ok:
  assumes "\<And>p. parse_ok n (e p)" "parse_ok n ty" "m \<le> n"
  shows "spec (at (insert i S) m) (postfix_step (Suc n) e ty outer i)
    (\<lambda>r st. case r of Inl y \<Rightarrow> 0 < m \<and> at (insert y S) (m - 1) st | Inr c \<Rightarrow> at (insert c S) m st)"
  unfolding postfix_step_def Let_def
  by (intro spec_intros spec_call [OF assms(1)] spec_call [OF assms(2)]
      parse_call_ok [where S = "insert i S", OF assms(1,2), THEN spec_conseq]
      parse_dot_ok [where S = "insert i S", OF assms(1), THEN spec_conseq])
    (use assms(3) in \<open>auto simp: token_simps queued_def split: sum.splits elim!: at_mono\<close>)

subsection \<open>The whole parser\<close>

lemma parse_expression_ok:
  assumes "\<And>p. parse_ok n (e p)" "parse_ok n ty" "parse_ok n b"
  shows "parse_ok (Suc n) (parse_expression_body (Suc n) e ty b outer)"
  unfolding parse_ok_def parse_expression_body_def
proof (intro allI impI spec_intros)
  fix S m r t and a :: span and c
  assume m: "m < Suc n" "0 < m" and t: "tok_ok t" "(r, t) = (a, c)"
  have "spec (at S (m - 1)) (parse_operand (Suc n) e ty b (fst a) c) (\<lambda>i. at (insert i S) (m - 1))"
    using parse_operand_ok [OF assms] t m by auto
  moreover have "spec (at (insert i S) (m - 1)) (ploop (Suc n) (postfix_step (Suc n) e ty outer) i)
      (\<lambda>i. at (insert i S) (m - 1))" for i
    using m by (intro spec_ploop [where K = "\<lambda>i. at (insert i S)" and J = "\<lambda>i. at (insert i S)"]
        postfix_step_ok [OF assms(1,2)]) (auto elim: at_mono)
  ultimately show "spec (at S (m - 1)) (pbind (parse_operand (Suc n) e ty b (fst a) c)
      (\<lambda>i. ploop (Suc n) (postfix_step (Suc n) e ty outer) i)) (\<lambda>i st. 0 < m \<and> at (insert i S) (m - 1) st)"
    using m by (auto intro: spec_bind)
qed (auto simp: parse_operand_def pbind_def perr_def spec_def)

lemma parsers_ok:
  "(\<forall>p. parse_ok n (fst (parsers n) p)) \<and> parse_ok n (fst (snd (parsers n))) \<and> parse_ok n (snd (snd (parsers n)))"
proof (induction n)
  case (Suc n)
  obtain e ty b where "parsers n = (e, ty, b)" by (metis surj_pair)
  with Suc show ?case
    by (simp add: parse_expression_ok parse_type_ok parse_block_ok)
qed (simp add: parse_ok_def)

section \<open>More fuel changes nothing\<close>

definition approx :: "'a parser \<Rightarrow> 'a parser \<Rightarrow> bool" where
  "approx p q \<longleftrightarrow> (\<forall>st. p st = Err None \<or> p st = q st)"

named_theorems approx_intros \<open>monotonicity of the parser combinators\<close>

lemma approx_refl: "approx p p"
  by (simp add: approx_def)

lemma approx_no_fuel [approx_intros]: "approx no_fuel q"
  by (simp add: approx_def no_fuel_def)

lemma approx_bind [approx_intros]:
  assumes "approx p q" "\<And>a. approx (k a) (l a)" shows "approx (pbind p k) (pbind q l)"
  unfolding approx_def
proof
  fix st
  show "pbind p k st = Err None \<or> pbind p k st = pbind q l st"
  proof (cases "p st = Err None")
    case False
    with assms(1) have "p st = q st" by (auto simp: approx_def)
    moreover have "k a st' = Err None \<or> k a st' = l a st'" for a st' using assms(2) by (auto simp: approx_def)
    ultimately show ?thesis by (cases "q st") (auto simp: pbind_def)
  qed (simp add: pbind_def)
qed

lemma approx_if [approx_intros]:
  "approx p q \<Longrightarrow> approx p' q' \<Longrightarrow> approx (if b then p else p') (if b then q else q')"
  by simp

lemma approx_option [approx_intros]:
  "approx p q \<Longrightarrow> (\<And>a. approx (k a) (l a)) \<Longrightarrow>
    approx (case x of None \<Rightarrow> p | Some a \<Rightarrow> k a) (case x of None \<Rightarrow> q | Some a \<Rightarrow> l a)"
  by (cases x) simp_all

lemma approx_prod [approx_intros]:
  "(\<And>a b. approx (k a b) (l a b)) \<Longrightarrow> approx (case x of (a, b) \<Rightarrow> k a b) (case x of (a, b) \<Rightarrow> l a b)"
  by (cases x) simp

lemma approx_sum [approx_intros]:
  "(\<And>a. approx (k a) (l a)) \<Longrightarrow> (\<And>a. approx (k' a) (l' a)) \<Longrightarrow> approx (case_sum k k' x) (case_sum l l' x)"
  by (cases x) simp_all

lemma approx_token [approx_intros]:
  "(\<And>op. approx (k1 op) (l1 op)) \<Longrightarrow> (\<And>op. approx (k2 op) (l2 op)) \<Longrightarrow> approx k3 l3 \<Longrightarrow>
   (\<And>c. approx (k4 c) (l4 c)) \<Longrightarrow> (\<And>v. approx (k5 v) (l5 v)) \<Longrightarrow> (\<And>s q. approx (k6 s q) (l6 s q)) \<Longrightarrow>
   approx k7 l7 \<Longrightarrow> approx (case_Token k1 k2 k3 k4 k5 k6 k7 t) (case_Token l1 l2 l3 l4 l5 l6 l7 t)"
  by (cases t) simp_all

lemma approx_variable [approx_intros]:
  "(\<And>s q f. approx (k s q f) (l s q f)) \<Longrightarrow>
    approx (case a of Variable s q f \<Rightarrow> k s q f | _ \<Rightarrow> p) (case a of Variable s q f \<Rightarrow> l s q f | _ \<Rightarrow> p)"
  by (cases a) (simp_all add: approx_refl)

lemma approx_ploop [approx_intros]:
  "n \<le> n' \<Longrightarrow> (\<And>b. approx (body b) (body' b)) \<Longrightarrow> approx (ploop n body b) (ploop n' body' b)"
proof (induction n arbitrary: n' b)
  case (Suc n)
  then obtain k where "n' = Suc k" "n \<le> k" by (cases n') auto
  with Suc show ?case by (simp add: approx_intros approx_refl)
qed (simp add: approx_intros)

lemmas body_defs = parse_expression_body_def parse_operand_def parse_word_def parse_struct_def struct_step_def
  parse_return_def parse_while_def parse_for_def parse_if_def parse_let_def parse_fn_def fn_arg_step_def
  parse_unary_def parse_caret_def parse_parens_def array_step_def

lemma parse_call_approx:
  "n \<le> n' \<Longrightarrow> (\<And>p. approx (e p) (e' p)) \<Longrightarrow> approx ty ty' \<Longrightarrow> approx (parse_call n e ty i) (parse_call n' e' ty' i)"
  unfolding parse_call_def call_arg_step_def by (intro approx_intros) (auto simp: approx_refl)

lemma postfix_step_approx:
  "n \<le> n' \<Longrightarrow> (\<And>p. approx (e p) (e' p)) \<Longrightarrow> approx ty ty' \<Longrightarrow>
    approx (postfix_step n e ty outer i) (postfix_step n' e' ty' outer i)"
  unfolding postfix_step_def parse_dot_def Let_def
  by (intro approx_intros parse_call_approx) (auto simp: approx_refl)

lemma parse_expression_approx:
  "n \<le> n' \<Longrightarrow> (\<And>p. approx (e p) (e' p)) \<Longrightarrow> approx ty ty' \<Longrightarrow> approx b b' \<Longrightarrow>
    approx (parse_expression_body n e ty b outer) (parse_expression_body n' e' ty' b' outer)"
  unfolding body_defs by (intro approx_intros postfix_step_approx) (auto simp: approx_refl)

lemma parse_type_approx: "approx ty ty' \<Longrightarrow> approx (parse_type_body ty) (parse_type_body ty')"
  unfolding parse_type_body_def by (intro approx_intros) (auto simp: approx_refl)

lemma parse_block_approx:
  "n \<le> n' \<Longrightarrow> (\<And>p. approx (e p) (e' p)) \<Longrightarrow> approx (parse_block_body n e) (parse_block_body n' e')"
  unfolding parse_block_body_def block_step_def by (intro approx_intros) (auto simp: approx_refl)

lemma parsers_approx:
  "n \<le> n' \<Longrightarrow> (\<forall>p. approx (fst (parsers n) p) (fst (parsers n') p))
    \<and> approx (fst (snd (parsers n))) (fst (snd (parsers n'))) \<and> approx (snd (snd (parsers n))) (snd (snd (parsers n')))"
proof (induction n arbitrary: n')
  case (Suc n)
  then obtain k where k: "n' = Suc k" "n \<le> k" by (cases n') auto
  obtain e ty b e' ty' b' where "parsers n = (e, ty, b)" "parsers k = (e', ty', b')" by (metis surj_pair)
  with Suc.IH [OF k(2)] k show ?case
    by (simp add: parse_expression_approx parse_type_approx parse_block_approx)
qed (simp add: approx_intros)

section \<open>Properties\<close>

definition wf_expression :: "Expression \<Rightarrow> bool" where
  "wf_expression e \<longleftrightarrow> wf_ast (expr_ast e) \<and> expr_root e < length (expr_ast e)"

abbreviation parse_all :: "nat \<Rightarrow> ASTIdx parser" where
  "parse_all n \<equiv> pbind (parse_expression n P_Weakest)
     (\<lambda>root. pbind p_peek (\<lambda>(r, t). if t = Eof then pret root else perr))"

lemma parse_all_ends:
  "case parse_all (Suc (length s)) \<lparr>lex = lexer_new s, ast = []\<rparr> of
     Ok (i, st) \<Rightarrow> at {i} (length s) st | Err x \<Rightarrow> x = Some Syntax | Panic \<Rightarrow> False"
proof -
  have "parse_ok (Suc (length s)) (parse_expression (Suc (length s)) P_Weakest)"
    using parsers_ok [of "Suc (length s)"] by (simp add: parse_expression_def)
  then have "spec (at {} (length s)) (parse_all (Suc (length s))) (\<lambda>i st. at {i} (length s) st)"
    by (intro spec_intros spec_call [where n = "Suc (length s)"]) (auto simp: tok_ok_def elim!: at_mono)
  moreover have "at {} (length s) \<lparr>lex = lexer_new s, ast = []\<rparr>"
    by (simp add: at_def wf_lex_def wf_ast_def left_def lexer_new_def)
  ultimately show ?thesis by (simp add: spec_def)
qed

lemma parse_result:
  "case parse_watch_expression s of Ok e \<Rightarrow> wf_expression e | Err x \<Rightarrow> x = Some Syntax | Panic \<Rightarrow> False"
  using parse_all_ends [of s] unfolding parse_watch_expression_def parse_with_fuel_def
  by (cases "parse_all (Suc (length s)) \<lparr>lex = lexer_new s, ast = []\<rparr>") (auto simp: wf_expression_def at_def)




text \<open>
  An opening brace where an expression is expected starts a block, but the parser eats the
  brace and then expects the block's brace again: an expression that starts with an opening brace
  is only accepted when a second one follows.
\<close>

theorem block_needs_second_brace:
  assumes "parse_expression n p st = Ok (i, st')" "eat 1 (lex st) = Ok ((r, TChar (uc CHR ''{'')), lx)"
  shows "\<exists>r' lx'. peek 1 lx = Ok ((r', TChar (uc CHR ''{'')), lx')"
proof -
  obtain k where n: "n = Suc k" using assms(1) by (cases n) (auto simp: parse_expression_def no_fuel_def)
  obtain e ty b where p: "parsers k = (e, ty, b)" by (metis surj_pair)
  from assms n p have "\<exists>x. b (st\<lparr>lex := lx\<rparr>) = Ok x"
    by (auto simp: parse_expression_def parse_expression_body_def parse_operand_def pbind_def lift_lex_def)
  moreover from p have "b = (case k of 0 \<Rightarrow> no_fuel | Suc j \<Rightarrow> parse_block_body k (fst (parsers j)))"
    by (auto split: nat.splits prod.splits)
  ultimately obtain j x where "parse_block_body k (fst (parsers j)) (st\<lparr>lex := lx\<rparr>) = Ok x"
    by (auto simp: no_fuel_def split: nat.splits)
  then obtain y where "expect (is_char CHR ''{'') lx = Ok y"
    by (auto simp: parse_block_body_def pbind_def lift_lex_def split: result.splits)
  then show ?thesis by (auto simp: expect_def peek_expect_def is_char_def split: if_splits)
qed

definition after_brace :: Lexer where
  "after_brace = \<lparr>input = \<lparr>before = [123], rest = [123, 120, 125]\<rparr>, next_tokens = [],
     previous_token_end = 1, previous_dot = False\<rparr>"

theorem block_needs_second_brace_witness:
  "is_Ok (parse_expression 5 P_Weakest \<lparr>lex = lexer_new (ustr ''{{x}''), ast = []\<rparr>) \<and>
   (\<exists>r' lx'. peek 1 after_brace = Ok ((r', TChar (uc CHR ''{'')), lx'))"
proof
  show ok: "is_Ok (parse_expression 5 P_Weakest \<lparr>lex = lexer_new (ustr ''{{x}''), ast = []\<rparr>)"
    by code_simp
  have eat: "eat 1 (lexer_new (ustr ''{{x}'')) = Ok (((0, 1), TChar (uc CHR ''{'')), after_brace)"
    by code_simp
  from ok obtain i st where "parse_expression 5 P_Weakest \<lparr>lex = lexer_new (ustr ''{{x}''), ast = []\<rparr> = Ok (i, st)"
    by (metis is_Ok.elims(2) surj_pair)
  from block_needs_second_brace [OF this] eat
  show "\<exists>r' lx'. peek 1 after_brace = Ok ((r', TChar (uc CHR ''{'')), lx')" by simp
qed

text \<open>
  Making an expression fit for a suffix succeeds on every text that parses: the operand the
  code takes of an assignment is there. The result is the text, the text in parentheses, or, for an
  assignment to a plain variable, that variable's name; on any other text it is the parser's error.
\<close>

lemma adjust_expression_outcome:
  "case adjust_expression_for_appending_child_path s of
     Ok r \<Rightarrow> \<exists>e. parse_watch_expression s = Ok e \<and>
       (r = s \<or> r = ustr ''('' @ s @ ustr '')'' \<or>
        (\<exists>c cs. node_a (expr_ast e ! expr_root e) = BinaryOp Assign \<and>
           node_children (expr_ast e ! expr_root e) = c # cs \<and> node_a (expr_ast e ! c) = Variable r False False))
   | Err x \<Rightarrow> x = Some Syntax \<and> parse_watch_expression s = Err x
   | Panic \<Rightarrow> False"
proof (cases "parse_watch_expression s")
  case (Ok e)
  with parse_result [of s] have wf: "wf_ast (expr_ast e)" "expr_root e < length (expr_ast e)"
    by (simp_all add: wf_expression_def)
  define nd where "nd = expr_ast e ! expr_root e"
  from wf have nd: "root_node e = Ok nd" "wf_node nd" "\<forall>c \<in> set (node_children nd). c < length (expr_ast e)"
    by (auto simp: root_node_def nd_def wf_ast_def)
  show ?thesis
  proof (cases "node_a nd = BinaryOp Assign")
    case True
    with nd(2) obtain c cs where "node_children nd = c # cs" by (cases "node_children nd") (auto simp: wf_node_def)
    with True nd Ok show ?thesis
      by (cases "node_a (expr_ast e ! c)")
        (auto simp: adjust_expression_for_appending_child_path_def Let_def nd_def [symmetric])
  qed (simp add: adjust_expression_for_appending_child_path_def Ok nd(1))
qed (use parse_result [of s] in \<open>simp_all add: adjust_expression_for_appending_child_path_def\<close>)

end
