(* ===== verification/ValueBlob.thy ===== *)
theory ValueBlob
  imports MemReader
begin

text \<open>
  The byte blobs that hold values read from registers, memory and debug information
  (\<open>src/expr.rs\<close>, \<open>ValueBlob\<close> and \<open>AddrOrValueBlob\<close>). A blob of at most 24 bytes is three
  words viewed as bytes, a longer one is a vector. Indexing out of range panics, and so does the
  overflow of a sum of \<open>usize\<close>. The results describe each operation by what it does to single bits.
\<close>

section \<open>Slices\<close>

definition uadd :: "nat \<Rightarrow> nat \<Rightarrow> nat eres" where
  "uadd a b = (if a + b < 2 ^ 64 then Ok (a + b) else Panic)"

text \<open>\<open>s[i]\<close>, \<open>s[i] = v\<close>, \<open>&s[a..b]\<close>, \<open>s[a..a + src.len()].copy_from_slice(src)\<close>, \<open>s[a..].fill(0)\<close>.\<close>

definition byte_at :: "bytes \<Rightarrow> nat \<Rightarrow> u8 eres" where
  "byte_at s i = (if i < length s then Ok (s ! i) else Panic)"

definition set_byte :: "bytes \<Rightarrow> nat \<Rightarrow> u8 \<Rightarrow> bytes eres" where
  "set_byte s i v = (if i < length s then Ok (s[i := v]) else Panic)"

definition subslice :: "bytes \<Rightarrow> nat \<Rightarrow> nat \<Rightarrow> bytes eres" where
  "subslice s a b = (if a \<le> b \<and> b \<le> length s then Ok (take (b - a) (drop a s)) else Panic)"

definition copy_at :: "bytes \<Rightarrow> nat \<Rightarrow> bytes \<Rightarrow> bytes eres" where
  "copy_at s a src = (if a + length src \<le> length s
     then Ok (take a s @ src @ drop (a + length src) s) else Panic)"

definition zero_from :: "bytes \<Rightarrow> nat \<Rightarrow> bytes eres" where
  "zero_from s a = (if a \<le> length s then Ok (take a s @ replicate (length s - a) 0) else Panic)"

text \<open>\<open>v.resize(n, 0)\<close>\<close>

definition resize_vec :: "bytes \<Rightarrow> nat \<Rightarrow> bytes" where
  "resize_vec v n = take n v @ replicate (n - length v) 0"

section \<open>Blobs\<close>

datatype ValueBlob = Small u64 u64 u64 | Big bytes

definition blob_new :: "u64 \<Rightarrow> ValueBlob" where
  "blob_new v = Small v 0 0"

fun as_slice :: "ValueBlob \<Rightarrow> bytes" where
  "as_slice (Small a b c) = to_le_bytes 8 a @ to_le_bytes 8 b @ to_le_bytes 8 c"
| "as_slice (Big v) = v"

text \<open>What is in the blob after a write through \<open>as_mut_slice\<close>.\<close>

fun store_slice :: "ValueBlob \<Rightarrow> bytes \<Rightarrow> ValueBlob" where
  "store_slice (Small a b c) s =
     Small (from_le_bytes (take 8 s)) (from_le_bytes (take 8 (drop 8 s))) (from_le_bytes (take 8 (drop 16 s)))"
| "store_slice (Big v) s = Big s"

fun capacity :: "ValueBlob \<Rightarrow> nat" where
  "capacity (Small a b c) = 24"
| "capacity (Big v) = length v"

definition with_capacity :: "nat \<Rightarrow> ValueBlob" where
  "with_capacity n = (if n \<le> 24 then Small 0 0 0 else Big (replicate n 0))"

definition from_slice :: "bytes \<Rightarrow> ValueBlob eres" where
  "from_slice s = (let r = with_capacity (length s) in
     rbind (copy_at (as_slice r) 0 s) (\<lambda>s'. Ok (store_slice r s')))"

definition from_vec :: "bytes \<Rightarrow> ValueBlob eres" where
  "from_vec v = (if length v \<le> 24 then from_slice v else Ok (Big v))"

definition from_two_usizes :: "u64 \<Rightarrow> u64 \<Rightarrow> ValueBlob" where
  "from_two_usizes a b = Small a b 0"

definition from_u64_slice :: "u64 list \<Rightarrow> ValueBlob eres" where
  "from_u64_slice xs = from_vec (concat (map (to_le_bytes 8) xs))"

fun get_usize :: "ValueBlob \<Rightarrow> u64 eres" where
  "get_usize (Small a b c) = Ok a"
| "get_usize (Big v) = Err Dwarf"

fun get_usize_prefix :: "ValueBlob \<Rightarrow> u64 eres" where
  "get_usize_prefix (Small a b c) = Ok a"
| "get_usize_prefix (Big v) = (let n = min (length v) 8 in
     rbind (subslice v 0 n) (\<lambda>s. rbind (copy_at (replicate 8 0) 0 s) (\<lambda>a. Ok (from_le_bytes a))))"

definition get_usize_at :: "ValueBlob \<Rightarrow> nat \<Rightarrow> u64 eres" where
  "get_usize_at b offset = rbind (uadd offset 8) (\<lambda>e.
     if e > length (as_slice b) then Err Internal
     else rbind (subslice (as_slice b) offset e) (\<lambda>a. Ok (from_le_bytes a)))"

fun resize :: "ValueBlob \<Rightarrow> nat \<Rightarrow> ValueBlob eres" where
  "resize (Small a b c) n =
     (if n \<le> 24 then Ok (Small a b c) else Ok (Big (resize_vec (as_slice (Small a b c)) n)))"
| "resize (Big v) n =
     (if n > 24 then Ok (Big (resize_vec v n))
      else rbind (subslice v 0 n) (\<lambda>s. rbind (copy_at (as_slice (blob_new 0)) 0 s)
        (\<lambda>s'. Ok (store_slice (blob_new 0) s'))))"

subsection \<open>Bits\<close>

text \<open>The loop of \<open>add_low_bits\<close>, from the last byte to the first.\<close>

fun add_low_loop :: "nat \<Rightarrow> nat \<Rightarrow> nat \<Rightarrow> bytes \<Rightarrow> bytes eres" where
  "add_low_loop q r 0 s = Ok s"
| "add_low_loop q r (Suc i) s =
     rbind (byte_at s i) (\<lambda>b. rbind (byte_at s (i + q + 1)) (\<lambda>h.
       rbind (set_byte s (i + q + 1) (h OR drop_bit (8 - r) b)) (\<lambda>s.
         rbind (set_byte s (i + q) (push_bit r b)) (\<lambda>s. add_low_loop q r i s))))"

definition add_low_bits :: "ValueBlob \<Rightarrow> nat \<Rightarrow> ValueBlob eres" where
  "add_low_bits b n = (let bytes = capacity b in
     rbind (uadd n 7) (\<lambda>n7. rbind (uadd bytes (n7 div 8)) (\<lambda>size. rbind (resize b size) (\<lambda>b.
       rbind (if n mod 8 = 0 then rbind (subslice (as_slice b) 0 bytes) (\<lambda>src. copy_at (as_slice b) (n div 8) src)
              else add_low_loop (n div 8) (n mod 8) bytes (as_slice b))
         (\<lambda>s. Ok (store_slice b s))))))"

fun remove_low_loop :: "nat \<Rightarrow> nat \<Rightarrow> nat \<Rightarrow> nat \<Rightarrow> nat \<Rightarrow> bytes \<Rightarrow> bytes eres" where
  "remove_low_loop q r bytes i 0 s = Ok s"
| "remove_low_loop q r bytes i (Suc k) s =
     rbind (byte_at s (i + q)) (\<lambda>b. rbind (set_byte s i (drop_bit r b)) (\<lambda>s.
       rbind (if i + q + 1 < bytes
              then rbind (byte_at s i) (\<lambda>l. rbind (byte_at s (i + q + 1)) (\<lambda>h. set_byte s i (l OR push_bit (8 - r) h)))
              else Ok s)
         (\<lambda>s. remove_low_loop q r bytes (Suc i) k s)))"

definition remove_low_bits :: "ValueBlob \<Rightarrow> nat \<Rightarrow> ValueBlob eres" where
  "remove_low_bits b n = (let bytes = capacity b in
     if n > bytes * 8 then Panic
     else rbind (if n mod 8 = 0
                 then rbind (subslice (as_slice b) (n div 8) bytes) (\<lambda>src. copy_at (as_slice b) 0 src)
                 else remove_low_loop (n div 8) (n mod 8) bytes 0 (bytes - n div 8) (as_slice b))
       (\<lambda>s. resize (store_slice b s) (bytes - n div 8)))"

fun or_loop :: "nat \<Rightarrow> bytes \<Rightarrow> nat \<Rightarrow> nat \<Rightarrow> nat \<Rightarrow> bytes \<Rightarrow> bytes eres" where
  "or_loop self_start other other_start i 0 s = Ok s"
| "or_loop self_start other other_start i (Suc k) s =
     rbind (byte_at other (other_start + i)) (\<lambda>o'. rbind (byte_at s (self_start + i)) (\<lambda>b.
       rbind (set_byte s (self_start + i) (b OR o')) (\<lambda>s. or_loop self_start other other_start (Suc i) k s)))"

definition bitwise_or :: "ValueBlob \<Rightarrow> nat \<Rightarrow> ValueBlob \<Rightarrow> nat \<Rightarrow> nat \<Rightarrow> ValueBlob eres" where
  "bitwise_or b self_start other other_start count =
     rbind (or_loop self_start (as_slice other) other_start 0 count (as_slice b)) (\<lambda>s. Ok (store_slice b s))"

definition zero_upper_bits :: "ValueBlob \<Rightarrow> nat \<Rightarrow> ValueBlob eres" where
  "zero_upper_bits b n = rbind (uadd n 7) (\<lambda>n7. rbind (zero_from (as_slice b) (n7 div 8)) (\<lambda>s.
     rbind (if n mod 8 \<noteq> 0 then rbind (byte_at s (n div 8)) (\<lambda>x. set_byte s (n div 8) (x AND (push_bit (n mod 8) 1 - 1)))
            else Ok s)
       (\<lambda>s. Ok (store_slice b s))))"

definition append_bits :: "ValueBlob \<Rightarrow> nat \<Rightarrow> ValueBlob \<Rightarrow> nat \<Rightarrow> nat \<Rightarrow> ValueBlob eres" where
  "append_bits b self_bits other size_in_bits bit_offset =
     rbind (uadd bit_offset size_in_bits) (\<lambda>keep. rbind (zero_upper_bits other keep) (\<lambda>other.
       rbind (uadd self_bits size_in_bits) (\<lambda>t. rbind (uadd t 7) (\<lambda>t7.
         (let total_bytes = t7 div 8 in rbind (resize b total_bytes) (\<lambda>b.
            if self_bits mod 8 = 0 \<and> bit_offset = 0 then
              rbind (subslice (as_slice other) 0 ((size_in_bits + 7) div 8)) (\<lambda>src.
                rbind (copy_at (as_slice b) (self_bits div 8) src) (\<lambda>s. Ok (store_slice b s)))
            else
              (let shift = 16 - bit_offset mod 8 + self_bits mod 8;
                   self_whole_bytes = self_bits div 8;
                   skip_bytes = 2 + bit_offset div 8 in
               rbind (add_low_bits other shift) (\<lambda>other.
                 bitwise_or b self_whole_bytes other skip_bytes (total_bytes - self_whole_bytes)))))))))"

definition bit_range :: "ValueBlob \<Rightarrow> nat \<Rightarrow> nat \<Rightarrow> ValueBlob eres" where
  "bit_range b bit_offset bit_size =
     rbind (uadd bit_offset bit_size) (\<lambda>e. rbind (uadd e 7) (\<lambda>e7.
       (let byte_offset = bit_offset div 8; byte_end = e7 div 8; slice = as_slice b in
        if byte_end > length slice then Err Dwarf
        else rbind (subslice slice byte_offset byte_end) (\<lambda>s. rbind (from_slice s) (\<lambda>res.
          rbind (if bit_offset mod 8 \<noteq> 0
                 then rbind (remove_low_bits res (bit_offset mod 8)) (\<lambda>res. resize res ((bit_size + 7) div 8))
                 else Ok res)
            (\<lambda>res. if bit_size mod 8 \<noteq> 0 then zero_upper_bits res bit_size else Ok res))))))"

definition byte_range :: "ValueBlob \<Rightarrow> nat \<Rightarrow> nat \<Rightarrow> ValueBlob eres" where
  "byte_range b start e =
     (if e > length (as_slice b) then Err Runtime
      else rbind (subslice (as_slice b) start e) from_slice)"

section \<open>Values that may still be in memory\<close>

datatype AddrOrValueBlob = Addr nat | Blob ValueBlob

definition default_value :: AddrOrValueBlob where
  "default_value = Blob (blob_new 0)"

fun into_value :: "reader \<Rightarrow> AddrOrValueBlob \<Rightarrow> nat \<Rightarrow> (CachedMemReader, ValueBlob, ErrorCode) sres" where
  "into_value rd (Blob b) n m = (if capacity b < n then (Err Dwarf, m) else (Ok b, m))"
| "into_value rd (Addr a) n m =
     (if n > 100 * 2 ^ 20 then (Err Sanity, m)
      else (let b = with_capacity n in
        sbind (read_uninit rd a n) (\<lambda>bs. slift (rbind (copy_at (as_slice b) 0 bs) (\<lambda>s. Ok (store_slice b s)))) m))"

fun value_addr :: "AddrOrValueBlob \<Rightarrow> nat option" where
  "value_addr (Addr a) = Some a"
| "value_addr (Blob b) = None"

fun blob_ref :: "AddrOrValueBlob \<Rightarrow> ValueBlob option" where
  "blob_ref (Blob b) = Some b"
| "blob_ref (Addr a) = None"

fun value_byte_range :: "AddrOrValueBlob \<Rightarrow> nat \<Rightarrow> nat \<Rightarrow> AddrOrValueBlob eres" where
  "value_byte_range (Addr a) start e =
     (if a > 2 ^ 64 - 1 - start then Err ProcessState else Ok (Addr (a + start)))"
| "value_byte_range (Blob b) start e = rbind (byte_range b start e) (\<lambda>b. Ok (Blob b))"

text \<open>The value of the nine-byte buffer \<open>a\<close> of which \<open>n\<close> bytes are filled.\<close>

definition extract_bits :: "bytes \<Rightarrow> nat \<Rightarrow> nat \<Rightarrow> nat \<Rightarrow> u64" where
  "extract_bits a n start len =
     (let r = from_le_bytes (take 8 a);
          r = (if start mod 8 \<noteq> 0 then drop_bit (start mod 8) r else r);
          r = (if n > 8 then r OR push_bit (64 - start mod 8) (ucast (a ! 8)) else r)
      in if len < 64 then r AND (push_bit len 1 - 1) else r)"

text \<open>\<open>len()\<close> of a range is zero when it ends before it starts.\<close>

fun value_bit_range :: "reader \<Rightarrow> AddrOrValueBlob \<Rightarrow> nat \<Rightarrow> nat \<Rightarrow> (CachedMemReader, u64, ErrorCode) sres" where
  "value_bit_range rd v start e m =
     (if e - start > 64 then (Panic, m)
      else case uadd e 7 of
        Ok e7 \<Rightarrow>
          (let n = e7 div 8 - start div 8;
               fill = (\<lambda>bs. rbind (copy_at (replicate 9 0) 0 bs) (\<lambda>a. Ok (extract_bits a n start (e - start))))
           in case v of
               Blob b \<Rightarrow>
                 if e > capacity b * 8 then (Err Dwarf, m)
                 else (rbind (subslice (as_slice b) (start div 8) (e7 div 8)) fill, m)
             | Addr a \<Rightarrow>
                 sbind (read_uninit rd (min (2 ^ 64 - 1) (a + start div 8)) n) (\<lambda>bs. slift (fill bs)) m)
      | Err x \<Rightarrow> (Err x, m)
      | Panic \<Rightarrow> (Panic, m))"

fun value_get_usize :: "reader \<Rightarrow> AddrOrValueBlob \<Rightarrow> (CachedMemReader, u64, ErrorCode) sres" where
  "value_get_usize rd (Addr a) m = read_usize rd a m"
| "value_get_usize rd (Blob b) m = (get_usize b, m)"

fun value_get_usize_prefix :: "reader \<Rightarrow> AddrOrValueBlob \<Rightarrow> (CachedMemReader, u64, ErrorCode) sres" where
  "value_get_usize_prefix rd (Addr a) m = read_usize rd a m"
| "value_get_usize_prefix rd (Blob b) m = (get_usize_prefix b, m)"

fun value_get_usize_at :: "reader \<Rightarrow> AddrOrValueBlob \<Rightarrow> nat \<Rightarrow> (CachedMemReader, u64, ErrorCode) sres" where
  "value_get_usize_at rd (Addr a) offset m = (case uadd a offset of
      Ok x \<Rightarrow> read_usize rd x m | Err e \<Rightarrow> (Err e, m) | Panic \<Rightarrow> (Panic, m))"
| "value_get_usize_at rd (Blob b) offset m = (get_usize_at b offset, m)"

section \<open>Bits of a byte string\<close>

definition bits :: "bytes \<Rightarrow> nat \<Rightarrow> bool" where
  "bits s p \<longleftrightarrow> p div 8 < length s \<and> bit (s ! (p div 8)) (p mod 8)"

definition wf_blob :: "ValueBlob \<Rightarrow> bool" where
  "wf_blob b \<longleftrightarrow> (\<forall>v. b = Big v \<longrightarrow> 24 < length v)"

abbreviation blob_bits :: "ValueBlob \<Rightarrow> nat \<Rightarrow> bool" where
  "blob_bits b \<equiv> bits (as_slice b)"

lemma div8_less: "p div 8 < n \<longleftrightarrow> p < 8 * n" for p n :: nat
  by (simp add: div_less_iff_less_mult mult.commute)

lemma ceil8: "(n + 7) div 8 = (if n mod 8 = 0 then n div 8 else n div 8 + 1)" for n :: nat
proof -
  define q r where "q = n div 8" and "r = n mod 8"
  have n: "n = 8 * q + r" "r < 8" by (simp_all add: q_def r_def)
  have "(r + 7) div 8 = (if r = 0 then 0 else 1)"
  proof (cases "r = 0")
    case False
    then obtain d where "r = Suc d" by (cases r) auto
    with n(2) show ?thesis by simp
  qed simp
  moreover have "(n + 7) div 8 = q + (r + 7) div 8" using n(1) by (simp add: add.assoc)
  ultimately show ?thesis by (simp add: q_def r_def)
qed

lemma ceil8_bound: "p < n \<Longrightarrow> p < 8 * ((n + 7) div 8)" for p n :: nat
proof -
  assume "p < n"
  moreover have "8 * (n div 8) + n mod 8 = n" "n mod 8 < 8" by simp_all
  ultimately show ?thesis unfolding ceil8 by (cases "n mod 8 = 0") simp_all
qed

lemma div8_add: "(8 * a + n) div 8 = a + n div 8" "n < 8 \<Longrightarrow> (8 * a + n) mod 8 = n" for a n :: nat
  by simp_all

lemma position_split:
  fixes p :: nat
  obtains j t where "p = 8 * j + t" "t < 8" "p div 8 = j" "p mod 8 = t"
  by (rule that [of "p div 8" "p mod 8"]) simp_all

lemma div8_eq: "p div 8 = a \<longleftrightarrow> 8 * a \<le> p \<and> p < 8 * (a + 1)" for p a :: nat
  by (rule position_split [of p]) auto

lemma position_less: "(if p div 8 = n div 8 then p mod 8 < n mod 8 else p < 8 * (n div 8 + 1)) \<longleftrightarrow> p < n" for p n :: nat
proof -
  define j t where "j = p div 8" and "t = p mod 8"
  have p: "p = 8 * j + t" "t < 8" by (simp_all add: j_def t_def)
  define i r where "i = n div 8" and "r = n mod 8"
  have n: "n = 8 * i + r" "r < 8" by (simp_all add: i_def r_def)
  have "(if j = i then t < r else p < 8 * (i + 1)) \<longleftrightarrow> p < n"
    using p n by (cases j i rule: linorder_cases) auto
  then show ?thesis unfolding j_def t_def i_def r_def .
qed

lemma bits_length: "bits s p \<Longrightarrow> p < 8 * length s"
  by (simp add: bits_def div8_less)

lemma bits_Nil [simp]: "\<not> bits [] p"
  by (simp add: bits_def)

lemma bits_append: "bits (s @ t) p \<longleftrightarrow> (if p < 8 * length s then bits s p else bits t (p - 8 * length s))"
proof (cases "p < 8 * length s")
  case False
  then obtain k where "p = 8 * length s + k" by (metis le_iff_add not_less)
  then show ?thesis by (simp add: bits_def nth_append)
qed (simp add: bits_def nth_append div8_less)

lemma bits_take: "bits (take n s) p \<longleftrightarrow> p < 8 * n \<and> bits s p"
  by (auto simp: bits_def div8_less)

lemma bits_drop: "bits (drop n s) p \<longleftrightarrow> bits s (8 * n + p)"
  by (auto simp: bits_def add.commute)

lemma bits_zero [simp]: "\<not> bits (replicate n 0) p"
  by (auto simp: bits_def)

lemma length_as_slice [simp]: "length (as_slice b) = capacity b"
  by (cases b) simp_all

lemma three_words: "length s = 24 \<Longrightarrow> take 8 s @ take 8 (drop 8 s) @ drop 16 s = s"
  using append_take_drop_id [of 8 "drop 8 s"] append_take_drop_id [of 8 s] by simp

lemma as_slice_store [simp]: "length s = capacity b \<Longrightarrow> as_slice (store_slice b s) = s"
  by (cases b) (simp_all add: to_from_le_bytes three_words)

lemma capacity_store [simp]: "length s = capacity b \<Longrightarrow> capacity (store_slice b s) = capacity b"
  by (cases b) simp_all

lemma wf_store [simp]: "length s = capacity b \<Longrightarrow> wf_blob (store_slice b s) = wf_blob b"
  by (cases b) (auto simp: wf_blob_def)

lemma wf_capacity: "wf_blob b \<Longrightarrow> 24 \<le> capacity b"
  by (cases b) (auto simp: wf_blob_def)

subsection \<open>Copying, constructors, resizing\<close>

lemma copy_at_Ok:
  assumes "a + length src \<le> length s"
  shows "\<exists>s'. copy_at s a src = Ok s' \<and> length s' = length s \<and>
    (\<forall>p. bits s' p \<longleftrightarrow> (if 8 * a \<le> p \<and> p < 8 * (a + length src) then bits src (p - 8 * a) else bits s p))"
proof -
  have "bits (take a s @ src @ drop (a + length src) s) p \<longleftrightarrow>
      (if 8 * a \<le> p \<and> p < 8 * (a + length src) then bits src (p - 8 * a) else bits s p)" for p
    using assms by (auto simp: bits_append bits_take bits_drop min_absorb2)
  with assms show ?thesis by (simp add: copy_at_def)
qed

lemma subslice_Ok: "a \<le> b \<Longrightarrow> b \<le> length s \<Longrightarrow> subslice s a b = Ok (take (b - a) (drop a s))"
  by (simp add: subslice_def)

lemma with_capacity_facts [simp]:
  "wf_blob (with_capacity n)" "capacity (with_capacity n) = max 24 n" "\<not> blob_bits (with_capacity n) p"
proof -
  have "to_le_bytes 8 (0 :: u64) = replicate 8 0"
    by (auto simp: to_le_bytes_def intro!: nth_equalityI)
  then show "\<not> blob_bits (with_capacity n) p" by (simp add: with_capacity_def bits_append)
qed (auto simp: with_capacity_def wf_blob_def)

lemma from_slice_Ok:
  "\<exists>b. from_slice s = Ok b \<and> wf_blob b \<and> capacity b = max 24 (length s) \<and> (\<forall>p. blob_bits b p \<longleftrightarrow> bits s p)"
proof -
  let ?r = "with_capacity (length s)"
  obtain s' where s': "copy_at (as_slice ?r) 0 s = Ok s'" "length s' = capacity ?r"
    "\<forall>p. bits s' p \<longleftrightarrow> p < 8 * length s \<and> bits s p"
    using copy_at_Ok [of 0 s "as_slice ?r"] by (auto split: if_splits)
  then have "\<forall>p. bits s' p \<longleftrightarrow> bits s p" using bits_length by blast
  with s' show ?thesis by (simp add: from_slice_def)
qed

lemma bits_resize_vec: "bits (resize_vec v n) p \<longleftrightarrow> p < 8 * n \<and> bits v p"
  by (auto simp: resize_vec_def bits_append bits_take min_def dest: bits_length)

lemma length_resize_vec [simp]: "length (resize_vec v n) = n"
  by (auto simp: resize_vec_def)

lemma resize_Ok:
  assumes "wf_blob b"
  shows "\<exists>b'. resize b n = Ok b' \<and> wf_blob b' \<and> capacity b' = max 24 n \<and>
    (\<forall>p. blob_bits b' p \<longleftrightarrow> blob_bits b p \<and> (p < 8 * n \<or> capacity b = 24))"
proof (cases b)
  case (Small x y z)
  show ?thesis
  proof (cases "n \<le> 24")
    case False
    have "p < 8 * n" if "blob_bits b p" for p using bits_length [OF that] False Small by simp
    with False Small show ?thesis by (auto simp: wf_blob_def bits_resize_vec simp del: as_slice.simps(1))
  qed (simp add: Small wf_blob_def)
next
  case (Big v)
  show ?thesis
  proof (cases "n \<le> 24")
    case True
    with assms Big have n: "n < length v" "capacity b \<noteq> 24" by (simp_all add: wf_blob_def)
    define z where "z = with_capacity 0"
    have z: "blob_new 0 = z" "capacity z = 24" by (simp_all add: z_def blob_new_def with_capacity_def)
    obtain s' where s': "copy_at (as_slice z) 0 (take n v) = Ok s'" "length s' = capacity z"
      "\<forall>p. bits s' p \<longleftrightarrow> p < 8 * n \<and> bits v p"
      using copy_at_Ok [of 0 "take n v" "as_slice z"] True n by (auto simp: z z_def bits_take split: if_splits)
    have "resize b n = Ok (store_slice z s')" using Big True n s' by (simp add: subslice_Ok z)
    with s' Big True n z show ?thesis by (auto simp: z_def)
  qed (use assms Big in \<open>auto simp: wf_blob_def bits_resize_vec\<close>)
qed

subsection \<open>Shifting\<close>

lemma bit_shl: "t < 8 \<Longrightarrow> 0 < r \<Longrightarrow> r < 8 \<Longrightarrow>
    bit (push_bit r x OR drop_bit (8 - r) y :: u8) t \<longleftrightarrow> (if r \<le> t then bit x (t - r) else bit y (8 - r + t))"
  by (auto simp: bit_simps dest: bit_imp_le_length)

lemma bit_shr: "t < 8 \<Longrightarrow> 0 < r \<Longrightarrow> r < 8 \<Longrightarrow>
    bit (drop_bit r x OR push_bit (8 - r) y :: u8) t \<longleftrightarrow> (if t + r < 8 then bit x (r + t) else bit y (t - (8 - r)))"
  by (auto simp: bit_simps dest: bit_imp_le_length)

text \<open>The bytes after the loop, in terms of the bytes before it.\<close>

lemma add_low_loop_Ok:
  assumes "k = 0 \<or> k + q < length s"
  shows "\<exists>s'. add_low_loop q r k s = Ok s' \<and> length s' = length s \<and>
    (\<forall>j < length s. s' ! j = (if 0 < k \<and> q \<le> j \<and> j \<le> q + k
       then (if j < q + k then push_bit r (s ! (j - q)) else s ! j)
         OR (if q < j then drop_bit (8 - r) (s ! (j - q - 1)) else 0)
       else s ! j))"
  using assms
proof (induction k arbitrary: s)
  case (Suc i)
  then have l: "i + q + 1 < length s" by simp
  define s1 where "s1 = s[i + q + 1 := s ! (i + q + 1) OR drop_bit (8 - r) (s ! i), i + q := push_bit r (s ! i)]"
  have step: "add_low_loop q r (Suc i) s = add_low_loop q r i s1"
    using l by (simp add: byte_at_def set_byte_def s1_def)
  have low: "s1 ! j = s ! j" if "j < i + q" for j using that by (simp add: s1_def)
  have high: "s1 ! j = s ! j" if "i + q + 1 < j" for j using that by (simp add: s1_def)
  have at: "s1 ! (i + q) = push_bit r (s ! i)" "s1 ! (i + q + 1) = s ! (i + q + 1) OR drop_bit (8 - r) (s ! i)"
    "length s1 = length s" using l by (simp_all add: s1_def)
  have "i = 0 \<or> i + q < length s1" using l at(3) by simp
  from Suc.IH [OF this] obtain s' where s': "add_low_loop q r i s1 = Ok s'" "length s' = length s"
    "\<forall>j < length s. s' ! j = (if 0 < i \<and> q \<le> j \<and> j \<le> q + i
       then (if j < q + i then push_bit r (s1 ! (j - q)) else s1 ! j)
         OR (if q < j then drop_bit (8 - r) (s1 ! (j - q - 1)) else 0)
       else s1 ! j)" unfolding at(3) by blast
  have "s' ! j = (if 0 < Suc i \<and> q \<le> j \<and> j \<le> q + Suc i
       then (if j < q + Suc i then push_bit r (s ! (j - q)) else s ! j)
         OR (if q < j then drop_bit (8 - r) (s ! (j - q - 1)) else 0)
       else s ! j)" if j: "j < length s" for j
  proof -
    note s'j = s'(3) [rule_format, OF j]
    consider "j < q" | "q \<le> j" "j < q + i" | "j = q + i" | "j = q + i + 1" | "q + i + 1 < j" by linarith
    then show ?thesis
    proof cases
      case 2
      then have "s1 ! (j - q) = s ! (j - q)" "s1 ! (j - q - 1) = s ! (j - q - 1)" by (auto intro!: low)
      with 2 s'j show ?thesis by simp
    next
      case 3
      then have "s1 ! (j - q - 1) = s ! (j - q - 1)" if "0 < i" using that by (intro low) simp
      with 3 s'j at show ?thesis by (cases i) (auto simp: add.commute)
    next
      case 4
      with s'j at show ?thesis by (simp add: add.commute)
    qed (use s'j low high in auto)
  qed
  with step s'(1,2) show ?case unfolding step by blast
qed simp

text \<open>A position as byte and bit, moved up by \<open>8 * q + r\<close>.\<close>

lemma position_minus:
  fixes p q r :: nat
  assumes "r < 8" "8 * q + r \<le> p"
  shows "(p - (8 * q + r)) div 8 = (if r \<le> p mod 8 then p div 8 - q else p div 8 - q - 1)"
    "(p - (8 * q + r)) mod 8 = (if r \<le> p mod 8 then p mod 8 - r else 8 - r + p mod 8)"
proof -
  define j t where "j = p div 8" and "t = p mod 8"
  have p: "p = 8 * j + t" "t < 8" by (simp_all add: j_def t_def)
  have "(p - (8 * q + r)) div 8 = (if r \<le> t then j - q else j - q - 1) \<and>
    (p - (8 * q + r)) mod 8 = (if r \<le> t then t - r else 8 - r + t)"
  proof (cases "r \<le> t")
    case True
    then obtain d where d: "t = r + d" using le_Suc_ex by blast
    with p assms have "p - (8 * q + r) = 8 * (j - q) + d" "d < 8" by auto
    with d show ?thesis by simp
  next
    case False
    with p assms have "p - (8 * q + r) = 8 * (j - q - 1) + (8 - r + t)" "8 - r + t < 8" by auto
    with False show ?thesis by simp
  qed
  then show "(p - (8 * q + r)) div 8 = (if r \<le> p mod 8 then p div 8 - q else p div 8 - q - 1)"
    "(p - (8 * q + r)) mod 8 = (if r \<le> p mod 8 then p mod 8 - r else 8 - r + p mod 8)"
    by (simp_all add: j_def t_def)
qed

lemma add_low_loop_bits:
  assumes "0 < r" "r < 8" "k + q < length s" "0 < k" "\<And>p. 8 * k \<le> p \<Longrightarrow> \<not> bits s p"
  shows "\<exists>s'. add_low_loop q r k s = Ok s' \<and> length s' = length s \<and>
    (\<forall>p. bits s' p \<longleftrightarrow> (if p < 8 * q then bits s p else 8 * q + r \<le> p \<and> bits s (p - (8 * q + r))))"
proof -
  from add_low_loop_Ok [of k q s r] assms(3) obtain s' where s': "add_low_loop q r k s = Ok s'" "length s' = length s"
    "\<forall>j < length s. s' ! j = (if 0 < k \<and> q \<le> j \<and> j \<le> q + k
       then (if j < q + k then push_bit r (s ! (j - q)) else s ! j)
         OR (if q < j then drop_bit (8 - r) (s ! (j - q - 1)) else 0)
       else s ! j)" by blast
  have zero: "s ! j = 0" if "k \<le> j" "j < length s" for j
  proof (rule bit_word_eqI)
    fix t :: nat assume "t < LENGTH(8)"
    then show "bit (s ! j) t = bit (0 :: u8) t"
      using assms(5) [of "8 * j + t"] that by (auto simp: bits_def)
  qed
  have "bits s' p \<longleftrightarrow> (if p < 8 * q then bits s p else 8 * q + r \<le> p \<and> bits s (p - (8 * q + r)))" for p
  proof -
    define j t where "j = p div 8" and "t = p mod 8"
    have p: "p = 8 * j + t" "t < 8" by (simp_all add: j_def t_def)
    show ?thesis
    proof (cases "q \<le> j \<and> j \<le> q + k \<and> j < length s")
      case True
      then have "s' ! j = push_bit r (s ! (j - q)) OR (if q < j then drop_bit (8 - r) (s ! (j - q - 1)) else 0)"
        using s'(3) [rule_format, of j] zero [of j] zero [of "j - q"] assms(3,4) by auto
      then have "bits s' p \<longleftrightarrow> (if r \<le> t then bit (s ! (j - q)) (t - r) else q < j \<and> bit (s ! (j - q - 1)) (8 - r + t))"
        using True p s'(2) assms(1,2) bit_shl [of t r "s ! (j - q)" "s ! (j - q - 1)"]
        by (auto simp: bits_def bit_simps)
      moreover have "\<not> p < 8 * q" "8 * q + r \<le> p \<longleftrightarrow> r \<le> t \<or> q < j" using True p assms(2) by auto
      ultimately show ?thesis
        using True position_minus [of r q p] assms(2) unfolding bits_def j_def [symmetric] t_def [symmetric] by auto
    next
      case False
      show ?thesis
      proof (cases "j < q")
        case True
        with p s'(2,3) show ?thesis by (auto simp: bits_def j_def [symmetric])
      next
        case jq: False
        have "\<not> bits s (p - (8 * q + r))" if "8 * q + r \<le> p"
        proof (rule assms(5))
          have "k + q < j" using False jq assms(3) by linarith
          then show "8 * k \<le> p - (8 * q + r)" using p assms(2) by linarith
        qed
        moreover have "\<not> bits s' p"
          using False jq s'(2,3) zero [of j] assms(3) by (auto simp: bits_def j_def [symmetric])
        ultimately show ?thesis using jq p by auto
      qed
    qed
  qed
  with s'(1,2) show ?thesis by blast
qed

lemma add_low_bits_Ok:
  assumes "wf_blob b" "n + 7 < 2 ^ 64" "capacity b + (n + 7) div 8 < 2 ^ 64"
  shows "\<exists>b'. add_low_bits b n = Ok b' \<and> wf_blob b' \<and> capacity b' = capacity b + (n + 7) div 8 \<and>
    (\<forall>p. blob_bits b' p \<longleftrightarrow> (if p < 8 * (n div 8) then blob_bits b p else n \<le> p \<and> blob_bits b (p - n)))"
proof -
  let ?size = "capacity b + (n + 7) div 8"
  have cap: "24 \<le> capacity b" using assms(1) by (rule wf_capacity)
  have "p < 8 * ?size" if "blob_bits b p" for p using bits_length [OF that] by simp
  with resize_Ok [OF assms(1), of ?size] obtain b1 where b1: "resize b ?size = Ok b1" "wf_blob b1" "capacity b1 = ?size"
    "\<forall>p. blob_bits b1 p \<longleftrightarrow> blob_bits b p" using cap by (metis max.absorb2 trans_le_add1)
  have "\<exists>s'. (if n mod 8 = 0 then rbind (subslice (as_slice b1) 0 (capacity b)) (\<lambda>src. copy_at (as_slice b1) (n div 8) src)
      else add_low_loop (n div 8) (n mod 8) (capacity b) (as_slice b1)) = Ok s' \<and> length s' = ?size \<and>
      (\<forall>p. bits s' p \<longleftrightarrow> (if p < 8 * (n div 8) then blob_bits b p else n \<le> p \<and> blob_bits b (p - n)))"
  proof (cases "n mod 8 = 0")
    case True
    then have n: "8 * (n div 8) = n" "(n + 7) div 8 = n div 8" by auto
    let ?src = "take (capacity b) (as_slice b1)"
    from copy_at_Ok [of "n div 8" ?src "as_slice b1"] b1(3) n obtain s' where
      s': "copy_at (as_slice b1) (n div 8) ?src = Ok s'" "length s' = ?size"
        "\<forall>p. bits s' p \<longleftrightarrow> (if n \<le> p \<and> p < 8 * (n div 8 + capacity b) then bits ?src (p - n) else blob_bits b p)"
      by (auto simp: b1(4))
    have "bits s' p \<longleftrightarrow> (if p < 8 * (n div 8) then blob_bits b p else n \<le> p \<and> blob_bits b (p - n))" for p
      using bits_length [of "as_slice b" "p - n"] bits_length [of "as_slice b" p] n
      by (auto simp: s'(3) bits_take b1(4))
    with s'(1,2) True show ?thesis by (simp add: subslice_Ok b1(3))
  next
    case False
    then have n: "8 * (n div 8) + n mod 8 = n" "(n + 7) div 8 = n div 8 + 1" by (simp_all add: ceil8)
    have "\<not> blob_bits b1 p" if "8 * capacity b \<le> p" for p using that bits_length [of "as_slice b" p] b1(4) by auto
    from add_low_loop_bits [of "n mod 8" "capacity b" "n div 8" "as_slice b1", OF _ _ _ _ this] False b1(3) n cap show ?thesis
      by (auto simp: b1(4))
  qed
  then obtain s' where "(if n mod 8 = 0 then rbind (subslice (as_slice b1) 0 (capacity b)) (\<lambda>src. copy_at (as_slice b1) (n div 8) src)
      else add_low_loop (n div 8) (n mod 8) (capacity b) (as_slice b1)) = Ok s'" "length s' = capacity b1"
      "\<forall>p. bits s' p \<longleftrightarrow> (if p < 8 * (n div 8) then blob_bits b p else n \<le> p \<and> blob_bits b (p - n))"
    using b1(3) by auto
  with b1 assms(2,3) show ?thesis by (simp add: add_low_bits_def uadd_def Let_def)
qed

lemma bit_and_mask: "bit ((x :: u8) AND (push_bit m 1 - 1)) t \<longleftrightarrow> t < m \<and> bit x t" if "m \<le> 8"
proof -
  have "push_bit m 1 - 1 = (mask m :: u8)" by (simp add: mask_eq_exp_minus_1 push_bit_eq_mult)
  then show ?thesis using that by (auto simp: bit_simps dest: bit_imp_le_length)
qed

lemma bits_update: "i < length s \<Longrightarrow> bits (s[i := v]) p \<longleftrightarrow> (if p div 8 = i then bit v (p mod 8) else bits s p)"
  by (auto simp: bits_def)

lemma zero_upper_bits_Ok:
  assumes "n + 7 < 2 ^ 64" "(n + 7) div 8 \<le> capacity b"
  shows "\<exists>b'. zero_upper_bits b n = Ok b' \<and> (wf_blob b \<longrightarrow> wf_blob b') \<and> capacity b' = capacity b \<and>
    (\<forall>p. blob_bits b' p \<longleftrightarrow> p < n \<and> blob_bits b p)"
proof -
  let ?m = "(n + 7) div 8"
  define s where "s = take ?m (as_slice b) @ replicate (capacity b - ?m) 0"
  have s: "zero_from (as_slice b) ?m = Ok s" "length s = capacity b"
    using assms(2) by (auto simp: zero_from_def s_def)
  have bs: "bits s p \<longleftrightarrow> p < 8 * ?m \<and> blob_bits b p" for p
    using assms(2) by (auto simp: s_def bits_append bits_take min_def dest: bits_length)
  show ?thesis
  proof (cases "n mod 8 = 0")
    case True
    with mult_div_mod_eq [of 8 n] have "8 * ?m = n" by (simp add: ceil8)
    with True s assms(1) bs show ?thesis by (simp add: zero_upper_bits_def uadd_def)
  next
    case False
    then have m: "?m = n div 8 + 1" by (simp add: ceil8)
    then have i: "n div 8 < length s" using assms(2) s(2) by simp
    define s' where "s' = s[n div 8 := s ! (n div 8) AND (push_bit (n mod 8) 1 - 1)]"
    have "bits s' p \<longleftrightarrow> p < n \<and> blob_bits b p" for p
    proof -
      have "bits s' p \<longleftrightarrow> (if p div 8 = n div 8 then p mod 8 < n mod 8 \<and> bits s p else bits s p)"
        unfolding s'_def bits_update [OF i] using bit_and_mask [of "n mod 8" "s ! (n div 8)" "p mod 8"] i
        by (cases "p div 8 = n div 8") (simp_all add: bits_def)
      moreover have "p < 8 * (n div 8 + 1)" if "p div 8 = n div 8" using that div8_eq by blast
      ultimately show ?thesis
        using position_less [of p n] bs [of p] unfolding m by (cases "p div 8 = n div 8") simp_all
    qed
    moreover have "zero_upper_bits b n = Ok (store_slice b s')" "length s' = capacity b"
      using assms(1) s i False by (simp_all add: zero_upper_bits_def uadd_def byte_at_def set_byte_def s'_def)
    ultimately show ?thesis by simp
  qed
qed

lemma or_loop_Ok:
  assumes "a + i + k \<le> length s" "c + i + k \<le> length other"
  shows "\<exists>s'. or_loop a other c i k s = Ok s' \<and> length s' = length s \<and>
    (\<forall>p. bits s' p \<longleftrightarrow> bits s p \<or> 8 * (a + i) \<le> p \<and> p < 8 * (a + i + k) \<and> bits other (p - 8 * a + 8 * c))"
  using assms
proof (induction k arbitrary: i s)
  case (Suc k)
  define s1 where "s1 = s[a + i := s ! (a + i) OR other ! (c + i)]"
  have step: "or_loop a other c i (Suc k) s = or_loop a other c (Suc i) k s1"
    using Suc.prems by (simp add: byte_at_def set_byte_def s1_def)
  have s1: "bits s1 p \<longleftrightarrow> bits s p \<or> 8 * (a + i) \<le> p \<and> p < 8 * (a + i + 1) \<and> bits other (p - 8 * a + 8 * c)" for p
  proof -
    have pos: "(p - 8 * a + 8 * c) div 8 = c + i" "(p - 8 * a + 8 * c) mod 8 = p mod 8" if "p div 8 = a + i"
    proof -
      define t where "t = p mod 8"
      with that have t: "p = 8 * (a + i) + t" "t < 8" "p mod 8 = t" using mult_div_mod_eq [of 8 p] by simp_all
      then have "p - 8 * a + 8 * c = 8 * (c + i) + t" by simp
      with t show "(p - 8 * a + 8 * c) div 8 = c + i" "(p - 8 * a + 8 * c) mod 8 = p mod 8" by simp_all
    qed
    have l: "a + i < length s" "c + i < length other" using Suc.prems by simp_all
    show ?thesis
    proof (cases "p div 8 = a + i")
      case True
      have "bits other (p - 8 * a + 8 * c) \<longleftrightarrow> bit (other ! (c + i)) (p mod 8)"
        unfolding bits_def pos(1) [OF True] pos(2) [OF True] using l by simp
      moreover have "bits s1 p \<longleftrightarrow> bit (s ! (a + i)) (p mod 8) \<or> bit (other ! (c + i)) (p mod 8)"
        unfolding s1_def bits_update [OF l(1)] using True by (simp add: bit_or_iff)
      moreover have "bits s p \<longleftrightarrow> bit (s ! (a + i)) (p mod 8)" using True l(1) by (simp add: bits_def)
      ultimately show ?thesis using True div8_eq [of p "a + i"] by blast
    next
      case False
      with l show ?thesis using div8_eq [of p "a + i"] by (auto simp: s1_def bits_update)
    qed
  qed
  from Suc.IH [of "Suc i" s1] Suc.prems obtain s' where s': "or_loop a other c (Suc i) k s1 = Ok s'" "length s' = length s"
    "\<forall>p. bits s' p \<longleftrightarrow> bits s1 p \<or> 8 * (a + Suc i) \<le> p \<and> p < 8 * (a + Suc i + k) \<and> bits other (p - 8 * a + 8 * c)"
    by (auto simp: s1_def)
  have "8 * (a + i) \<le> p \<and> p < 8 * (a + i + Suc k) \<longleftrightarrow>
      8 * (a + i) \<le> p \<and> p < 8 * (a + i + 1) \<or> 8 * (a + Suc i) \<le> p \<and> p < 8 * (a + Suc i + k)" for p by auto
  then have "\<forall>p. bits s' p \<longleftrightarrow> bits s p \<or> 8 * (a + i) \<le> p \<and> p < 8 * (a + i + Suc k) \<and> bits other (p - 8 * a + 8 * c)"
    using s'(3) s1 by blast
  with s'(1,2) show ?case unfolding step by blast
qed auto

lemma bitwise_or_Ok:
  assumes "a + k \<le> capacity b" "c + k \<le> capacity other"
  shows "\<exists>b'. bitwise_or b a other c k = Ok b' \<and> (wf_blob b \<longrightarrow> wf_blob b') \<and> capacity b' = capacity b \<and>
    (\<forall>p. blob_bits b' p \<longleftrightarrow> blob_bits b p \<or> 8 * a \<le> p \<and> p < 8 * (a + k) \<and> blob_bits other (p - 8 * a + 8 * c))"
proof -
  from or_loop_Ok [of a 0 k "as_slice b" c "as_slice other"] assms obtain s' where
    "or_loop a (as_slice other) c 0 k (as_slice b) = Ok s'" "length s' = capacity b"
    "\<forall>p. bits s' p \<longleftrightarrow> blob_bits b p \<or> 8 * a \<le> p \<and> p < 8 * (a + k) \<and> blob_bits other (p - 8 * a + 8 * c)"
    by auto
  then show ?thesis by (simp add: bitwise_or_def)
qed

lemma remove_low_loop_Ok:
  assumes "i + k + q \<le> length s"
  shows "\<exists>s'. remove_low_loop q r (length s) i k s = Ok s' \<and> length s' = length s \<and>
    (\<forall>j < length s. s' ! j = (if i \<le> j \<and> j < i + k
       then drop_bit r (s ! (j + q)) OR (if j + q + 1 < length s then push_bit (8 - r) (s ! (j + q + 1)) else 0)
       else s ! j))"
  using assms
proof (induction k arbitrary: i s)
  case (Suc k)
  define s1 where "s1 = s[i := drop_bit r (s ! (i + q)) OR
      (if i + q + 1 < length s then push_bit (8 - r) (s ! (i + q + 1)) else 0)]"
  have step: "remove_low_loop q r (length s) i (Suc k) s = remove_low_loop q r (length s) (Suc i) k s1"
    using Suc.prems by (simp add: byte_at_def set_byte_def s1_def)
  have other: "s1 ! j = s ! j" if "j \<noteq> i" for j using that by (simp add: s1_def)
  have len: "length s1 = length s" by (simp add: s1_def)
  with Suc.prems have "Suc i + k + q \<le> length s1" by simp
  from Suc.IH [OF this, unfolded len] obtain s' where s': "remove_low_loop q r (length s) (Suc i) k s1 = Ok s'"
    "length s' = length s" "\<forall>j < length s. s' ! j = (if Suc i \<le> j \<and> j < Suc i + k
       then drop_bit r (s1 ! (j + q)) OR (if j + q + 1 < length s then push_bit (8 - r) (s1 ! (j + q + 1)) else 0)
       else s1 ! j)" by blast
  have "s' ! j = (if i \<le> j \<and> j < i + Suc k
       then drop_bit r (s ! (j + q)) OR (if j + q + 1 < length s then push_bit (8 - r) (s ! (j + q + 1)) else 0)
       else s ! j)" if j: "j < length s" for j
  proof (cases "j = i")
    case True
    with s'(3) j show ?thesis by (simp add: s1_def)
  next
    case False
    with s'(3) j other show ?thesis by auto
  qed
  with s'(1,2) show ?case unfolding step by blast
qed auto

lemma position_plus:
  fixes p q r :: nat
  assumes "r < 8"
  shows "(p + (8 * q + r)) div 8 = (if p mod 8 + r < 8 then p div 8 + q else p div 8 + q + 1)"
    "(p + (8 * q + r)) mod 8 = (if p mod 8 + r < 8 then r + p mod 8 else p mod 8 - (8 - r))"
proof -
  define j t where "j = p div 8" and "t = p mod 8"
  have p: "p = 8 * j + t" "t < 8" by (simp_all add: j_def t_def)
  have "(p + (8 * q + r)) div 8 = (if t + r < 8 then j + q else j + q + 1) \<and>
    (p + (8 * q + r)) mod 8 = (if t + r < 8 then r + t else t - (8 - r))"
  proof (cases "t + r < 8")
    case True
    define u where "u = r + t"
    have u: "p + (8 * q + r) = 8 * (j + q) + u" "u < 8" using p True by (simp_all add: u_def)
    show ?thesis unfolding u(1) div8_add(1) div8_add(2) [OF u(2)] using True by (simp add: u_def)
  next
    case False
    then have "8 - r \<le> t" by simp
    then obtain d where d: "t = 8 - r + d" using le_Suc_ex by blast
    then have u: "p + (8 * q + r) = 8 * (j + q + 1) + d" "d < 8" using p assms by simp_all
    show ?thesis unfolding u(1) div8_add(1) div8_add(2) [OF u(2)] using False d u(2) by simp
  qed
  then show "(p + (8 * q + r)) div 8 = (if p mod 8 + r < 8 then p div 8 + q else p div 8 + q + 1)"
    "(p + (8 * q + r)) mod 8 = (if p mod 8 + r < 8 then r + p mod 8 else p mod 8 - (8 - r))"
    by (simp_all add: j_def t_def)
qed

lemma remove_low_loop_bits:
  assumes "0 < r" "r < 8" "q \<le> length s"
  shows "\<exists>s'. remove_low_loop q r (length s) 0 (length s - q) s = Ok s' \<and> length s' = length s \<and>
    (\<forall>p < 8 * (length s - q). bits s' p \<longleftrightarrow> bits s (p + (8 * q + r)))"
proof -
  from remove_low_loop_Ok [of 0 "length s - q" q s r] assms(3) obtain s' where
    s': "remove_low_loop q r (length s) 0 (length s - q) s = Ok s'" "length s' = length s"
    "\<forall>j < length s. s' ! j = (if j < length s - q
       then drop_bit r (s ! (j + q)) OR (if j + q + 1 < length s then push_bit (8 - r) (s ! (j + q + 1)) else 0)
       else s ! j)" by auto
  have "bits s' p \<longleftrightarrow> bits s (p + (8 * q + r))" if p: "p < 8 * (length s - q)" for p
  proof -
    let ?j = "p div 8" and ?t = "p mod 8"
    have j: "?j < length s - q" using p by (simp add: div8_less)
    then have "s' ! ?j = drop_bit r (s ! (?j + q)) OR (if ?j + q + 1 < length s then push_bit (8 - r) (s ! (?j + q + 1)) else 0)"
      using s'(3) by simp
    then have "bits s' p \<longleftrightarrow> (if ?t + r < 8 then bit (s ! (?j + q)) (r + ?t)
        else ?j + q + 1 < length s \<and> bit (s ! (?j + q + 1)) (?t - (8 - r)))"
      using j s'(2) assms(1,2) bit_shr [of ?t r "s ! (?j + q)" "s ! (?j + q + 1)"]
      by (auto simp: bits_def bit_simps dest: bit_imp_le_length)
    moreover have "?j + q < length s" using j by simp
    ultimately show ?thesis unfolding bits_def position_plus [OF assms(2)] by simp
  qed
  with s'(1,2) show ?thesis by blast
qed

lemma remove_low_bits_Ok:
  assumes "wf_blob b" "n \<le> 8 * capacity b"
  shows "\<exists>b'. remove_low_bits b n = Ok b' \<and> wf_blob b' \<and> capacity b' = max 24 (capacity b - n div 8) \<and>
    (\<forall>p < 8 * (capacity b - n div 8). blob_bits b' p \<longleftrightarrow> blob_bits b (p + n))"
proof -
  let ?q = "n div 8" and ?c = "capacity b"
  have q: "?q \<le> ?c" using assms(2) by (metis div_le_mono nonzero_mult_div_cancel_left zero_neq_numeral)
  have "\<exists>s'. (if n mod 8 = 0 then rbind (subslice (as_slice b) ?q ?c) (\<lambda>src. copy_at (as_slice b) 0 src)
      else remove_low_loop ?q (n mod 8) ?c 0 (?c - ?q) (as_slice b)) = Ok s' \<and> length s' = ?c \<and>
      (\<forall>p < 8 * (?c - ?q). bits s' p \<longleftrightarrow> blob_bits b (p + n))"
  proof (cases "n mod 8 = 0")
    case True
    then have n: "8 * ?q = n" by auto
    let ?src = "take (?c - ?q) (drop ?q (as_slice b))"
    from copy_at_Ok [of 0 ?src "as_slice b"] obtain s' where s': "copy_at (as_slice b) 0 ?src = Ok s'" "length s' = ?c"
      "\<forall>p < 8 * (?c - ?q). bits s' p \<longleftrightarrow> bits ?src p" by auto
    with True q show ?thesis by (simp add: subslice_Ok bits_take bits_drop n add.commute)
  next
    case False
    with remove_low_loop_bits [of "n mod 8" ?q "as_slice b"] q show ?thesis by simp
  qed
  then obtain s' where s': "(if n mod 8 = 0 then rbind (subslice (as_slice b) ?q ?c) (\<lambda>src. copy_at (as_slice b) 0 src)
      else remove_low_loop ?q (n mod 8) ?c 0 (?c - ?q) (as_slice b)) = Ok s'" "length s' = ?c"
      "\<forall>p < 8 * (?c - ?q). bits s' p \<longleftrightarrow> blob_bits b (p + n)" by blast
  from resize_Ok [of "store_slice b s'" "?c - ?q"] assms(1) s'(2) obtain b' where
    "resize (store_slice b s') (?c - ?q) = Ok b'" "wf_blob b'" "capacity b' = max 24 (?c - ?q)"
    "\<forall>p. blob_bits b' p \<longleftrightarrow> bits s' p \<and> (p < 8 * (?c - ?q) \<or> ?c = 24)" by auto
  with s' assms(2) show ?thesis by (simp add: remove_low_bits_def Let_def mult.commute)
qed

subsection \<open>Appending and extracting\<close>

lemma bit_range_Ok:
  assumes "bit_offset + bit_size + 7 < 2 ^ 64" "(bit_offset + bit_size + 7) div 8 \<le> capacity b"
  shows "\<exists>b'. bit_range b bit_offset bit_size = Ok b' \<and> wf_blob b' \<and> capacity b' = max 24 ((bit_size + 7) div 8) \<and>
    (\<forall>p < bit_size. blob_bits b' p \<longleftrightarrow> blob_bits b (bit_offset + p)) \<and>
    (bit_size mod 8 \<noteq> 0 \<longrightarrow> (\<forall>p \<ge> bit_size. \<not> blob_bits b' p))"
proof -
  let ?q = "bit_offset div 8" and ?r = "bit_offset mod 8" and ?e = "(bit_offset + bit_size + 7) div 8"
  let ?s = "take (?e - ?q) (drop ?q (as_slice b))"
  have qe: "?q \<le> ?e" by (intro div_le_mono) simp
  have off: "bit_offset = 8 * ?q + ?r" by simp
  then have "bit_offset + bit_size + 7 = 8 * ?q + (?r + bit_size + 7)" by linarith
  then have e: "?e = ?q + (?r + bit_size + 7) div 8" by (simp only: div8_add(1))
  have sub: "subslice (as_slice b) ?q ?e = Ok ?s" and len: "length ?s = ?e - ?q"
    using assms(2) qe by (simp_all add: subslice_Ok)
  have src: "bits ?s p \<longleftrightarrow> p < 8 * (?e - ?q) \<and> blob_bits b (8 * ?q + p)" for p
    by (simp add: bits_take bits_drop)
  obtain b0 where b0: "from_slice ?s = Ok b0" "wf_blob b0" "capacity b0 = max 24 (?e - ?q)"
    "\<forall>p. blob_bits b0 p \<longleftrightarrow> bits ?s p" using from_slice_Ok [of ?s] len by auto
  have "\<exists>b1. (if ?r \<noteq> 0 then rbind (remove_low_bits b0 ?r) (\<lambda>res. resize res ((bit_size + 7) div 8)) else Ok b0) = Ok b1
      \<and> wf_blob b1 \<and> capacity b1 = max 24 ((bit_size + 7) div 8)
      \<and> (\<forall>p < bit_size. blob_bits b1 p \<longleftrightarrow> blob_bits b (bit_offset + p))"
  proof (cases "?r = 0")
    case True
    then have "?e - ?q = (bit_size + 7) div 8" "8 * ?q = bit_offset" using e off by simp_all
    moreover have "p < 8 * ((bit_size + 7) div 8)" if "p < bit_size" for p using that by (simp add: ceil8_bound)
    ultimately show ?thesis using b0 True src by simp
  next
    case False
    have "?r \<le> 8 * capacity b0" using wf_capacity [OF b0(2)] mod_less_divisor [of 8 bit_offset] by linarith
    from remove_low_bits_Ok [OF b0(2) this] obtain b1 where b1: "remove_low_bits b0 ?r = Ok b1" "wf_blob b1"
      "capacity b1 = max 24 (capacity b0)" "\<forall>p < 8 * capacity b0. blob_bits b1 p \<longleftrightarrow> blob_bits b0 (p + ?r)" by auto
    from resize_Ok [OF b1(2), of "(bit_size + 7) div 8"] obtain b2 where b2: "resize b1 ((bit_size + 7) div 8) = Ok b2"
      "wf_blob b2" "capacity b2 = max 24 ((bit_size + 7) div 8)"
      "\<forall>p. blob_bits b2 p \<longleftrightarrow> blob_bits b1 p \<and> (p < 8 * ((bit_size + 7) div 8) \<or> capacity b1 = 24)" by blast
    have "blob_bits b2 p \<longleftrightarrow> blob_bits b (bit_offset + p)" if p: "p < bit_size" for p
    proof -
      have "p + ?r < 8 * (?e - ?q)" using ceil8_bound [of "p + ?r" "?r + bit_size"] p e by simp
      moreover have "8 * ?q + (p + ?r) = bit_offset + p" by simp
      ultimately have "bits ?s (p + ?r) \<longleftrightarrow> blob_bits b (bit_offset + p)" using src [of "p + ?r"] by simp
      moreover have "?e - ?q \<le> capacity b0" unfolding b0(3) by simp
      then have "p < 8 * capacity b0" using \<open>p + ?r < _\<close> by linarith
      moreover have "p < 8 * ((bit_size + 7) div 8)" using p by (rule ceil8_bound)
      ultimately show ?thesis using b2(4) b1(4) b0(4) by simp
    qed
    with b1(1) b2(1-3) False show ?thesis by simp
  qed
  then obtain b1 where b1: "(if ?r \<noteq> 0 then rbind (remove_low_bits b0 ?r) (\<lambda>res. resize res ((bit_size + 7) div 8)) else Ok b0) = Ok b1"
      "wf_blob b1" "capacity b1 = max 24 ((bit_size + 7) div 8)"
      "\<forall>p < bit_size. blob_bits b1 p \<longleftrightarrow> blob_bits b (bit_offset + p)" by blast
  have unf: "bit_range b bit_offset bit_size = (if bit_size mod 8 \<noteq> 0 then zero_upper_bits b1 bit_size else Ok b1)"
    using assms sub b0(1) b1(1) by (simp add: bit_range_def uadd_def Let_def)
  show ?thesis
  proof (cases "bit_size mod 8 = 0")
    case False
    with zero_upper_bits_Ok [of bit_size b1] assms(1) b1 obtain b' where "zero_upper_bits b1 bit_size = Ok b'"
      "wf_blob b'" "capacity b' = capacity b1" "\<forall>p. blob_bits b' p \<longleftrightarrow> p < bit_size \<and> blob_bits b1 p" by auto
    with False unf b1 show ?thesis by auto
  qed (use unf b1 in auto)
qed

lemma append_slow_bits:
  fixes sb size bo p :: nat
  defines "a \<equiv> sb div 8" and "shift \<equiv> 16 - bo mod 8 + sb mod 8" and "k \<equiv> (sb + size + 7) div 8 - sb div 8"
  assumes "8 * a \<le> p"
  shows "shift \<le> p - 8 * a + 8 * (2 + bo div 8) \<longleftrightarrow> sb \<le> p + bo"
    "sb \<le> p + bo \<Longrightarrow> p - 8 * a + 8 * (2 + bo div 8) - shift = p + bo - sb"
    "\<not> p - 8 * a + 8 * (2 + bo div 8) < 8 * (shift div 8)"
proof -
  define s where "s = sb mod 8"
  have s: "sb = 8 * a + s" "s < 8" "sb mod 8 = s" by (simp_all add: a_def s_def)
  obtain c r where r: "bo = 8 * c + r" "r < 8" "bo mod 8 = r" "bo div 8 = c" by (rule position_split [of bo])
  from assms(4) obtain d where d: "p = 8 * a + d" using le_Suc_ex by blast
  have "shift = 16 - r + s" using s r by (simp add: shift_def)
  then have sh: "shift + r = 16 + s" using r(2) by simp
  have idx: "p - 8 * a + 8 * (2 + bo div 8) = d + 8 * c + 16" "p + bo = 8 * a + (d + 8 * c + r)"
    by (simp_all add: d r(1) r(4) [unfolded r(1)])
  show "shift \<le> p - 8 * a + 8 * (2 + bo div 8) \<longleftrightarrow> sb \<le> p + bo"
    and "sb \<le> p + bo \<Longrightarrow> p - 8 * a + 8 * (2 + bo div 8) - shift = p + bo - sb"
    unfolding idx s(1) using sh by arith+
  have "shift div 8 \<le> 2" using sh s(2) by (intro div_le_mono [of shift 23 8, simplified]) simp
  then show "\<not> p - 8 * a + 8 * (2 + bo div 8) < 8 * (shift div 8)" by simp
qed

lemma append_room:
  fixes sb size bo cap :: nat
  assumes "(bo + size + 7) div 8 \<le> cap"
  shows "2 + bo div 8 + ((sb + size + 7) div 8 - sb div 8) \<le> cap + (16 - bo mod 8 + sb mod 8 + 7) div 8"
proof -
  define a s where "a = sb div 8" and "s = sb mod 8"
  have s: "sb = 8 * a + s" "s < 8" by (simp_all add: a_def s_def)
  define c r where "c = bo div 8" and "r = bo mod 8"
  have r: "bo = 8 * c + r" "r < 8" by (simp_all add: c_def r_def)
  have "c + (r + size + 7) div 8 \<le> cap" using assms div8_add(1) [of c "r + size + 7"] by (simp add: r(1) add.assoc)
  moreover have "(sb + size + 7) div 8 - a = (s + size + 7) div 8" using div8_add(1) [of a "s + size + 7"] by (simp add: s(1) add.assoc)
  moreover have "2 + (s + size + 7) div 8 \<le> (r + size + 7) div 8 + (16 - r + s + 7) div 8"
  proof (cases "s \<le> r")
    case True
    then have "(s + size + 7) div 8 \<le> (r + size + 7) div 8" by (intro div_le_mono) simp
    moreover have "16 div 8 \<le> (16 - r + s + 7) div 8" using r(2) by (intro div_le_mono) simp
    ultimately show ?thesis by simp
  next
    case False
    then have "(s + size + 7) div 8 \<le> (8 * 1 + (r + size + 7)) div 8" using s(2) by (intro div_le_mono) simp
    moreover have "24 div 8 \<le> (16 - r + s + 7) div 8" using r(2) False by (intro div_le_mono) simp
    ultimately show ?thesis unfolding div8_add(1) by simp
  qed
  ultimately show ?thesis
    unfolding a_def [symmetric] s_def [symmetric] c_def [symmetric] r_def [symmetric] by linarith
qed

lemma append_bits_Ok:
  fixes sb size bo :: nat
  assumes wf: "wf_blob b" "wf_blob other" and upper: "\<And>p. sb \<le> p \<Longrightarrow> \<not> blob_bits b p"
    and fits: "bo + size + 7 < 2 ^ 64" "sb + size + 7 < 2 ^ 64" "(bo + size + 7) div 8 \<le> capacity other" "capacity other + 3 < 2 ^ 64"
  shows "\<exists>b'. append_bits b sb other size bo = Ok b' \<and> wf_blob b' \<and> capacity b' = max 24 ((sb + size + 7) div 8) \<and>
    (\<forall>p. blob_bits b' p \<longleftrightarrow>
       (if p < sb then blob_bits b p \<or> 8 * (sb div 8) \<le> p \<and> sb \<le> p + bo \<and> blob_bits other (p + bo - sb)
        else p < sb + size \<and> blob_bits other (p - sb + bo)))"
proof -
  let ?a = "sb div 8" and ?t = "(sb + size + 7) div 8"
  have at: "?a \<le> ?t" by (intro div_le_mono) simp
  have sbt: "sb \<le> 8 * ?t" using ceil8_bound [of "sb - 1" "sb + size"] by (cases "sb = 0") auto
  obtain o1 where o1: "zero_upper_bits other (bo + size) = Ok o1" "wf_blob o1" "capacity o1 = capacity other"
    "\<forall>p. blob_bits o1 p \<longleftrightarrow> p < bo + size \<and> blob_bits other p"
    using zero_upper_bits_Ok [of "bo + size" other] fits wf(2) by auto
  obtain b1 where b1: "resize b ?t = Ok b1" "wf_blob b1" "capacity b1 = max 24 ?t"
    "\<forall>p. blob_bits b1 p \<longleftrightarrow> blob_bits b p \<and> (p < 8 * ?t \<or> capacity b = 24)" using resize_Ok [OF wf(1), of ?t] by blast
  have b1b: "blob_bits b1 p \<longleftrightarrow> blob_bits b p" for p using b1(4) upper [of p] sbt by (metis le_trans not_less)
  have start: "append_bits b sb other size bo =
     (if sb mod 8 = 0 \<and> bo = 0 then
        rbind (subslice (as_slice o1) 0 ((size + 7) div 8)) (\<lambda>src.
          rbind (copy_at (as_slice b1) ?a src) (\<lambda>s. Ok (store_slice b1 s)))
      else rbind (add_low_bits o1 (16 - bo mod 8 + sb mod 8)) (\<lambda>o2. bitwise_or b1 ?a o2 (2 + bo div 8) (?t - ?a)))"
    using fits o1(1) b1(1) by (simp add: append_bits_def uadd_def Let_def)
  show ?thesis
  proof (cases "sb mod 8 = 0 \<and> bo = 0")
    case True
    let ?n = "(size + 7) div 8"
    have sb: "8 * ?a = sb" "?t = ?a + ?n" using True div8_add(1) [of ?a "size + 7"] mult_div_mod_eq [of 8 sb] by simp_all
    have n: "?n \<le> capacity o1" using fits(3) True o1(3) by simp
    define src where "src = take ?n (as_slice o1)"
    have src: "length src = ?n" "bits src q \<longleftrightarrow> q < 8 * ?n \<and> blob_bits o1 q" for q
      using n by (simp_all add: src_def bits_take)
    from copy_at_Ok [of ?a src "as_slice b1"] obtain s' where s': "copy_at (as_slice b1) ?a src = Ok s'" "length s' = capacity b1"
      "\<forall>p. bits s' p \<longleftrightarrow> (if sb \<le> p \<and> p < 8 * ?t then bits src (p - sb) else blob_bits b p)"
      unfolding src(1) length_as_slice b1(3) b1b sb by auto
    have "bits s' p \<longleftrightarrow> (if p < sb then blob_bits b p else p < sb + size \<and> blob_bits other (p - sb + bo))" for p
      using s'(3) upper [of p] src(2) [of "p - sb"] o1(4) True ceil8_bound [of "p - sb" size] sb
      by (cases "p < sb") (auto simp: ceil8_bound)
    moreover have "append_bits b sb other size bo = Ok (store_slice b1 s')"
      unfolding start using True n s'(1) by (simp add: subslice_Ok src_def)
    ultimately show ?thesis using s'(2) b1(2,3) True sb(1) by auto
  next
    case False
    define shift where "shift = 16 - bo mod 8 + sb mod 8"
    have shift: "shift \<le> 23" using mod_less_divisor [of 8 sb] unfolding shift_def by linarith
    obtain o2 where o2: "add_low_bits o1 shift = Ok o2" "capacity o2 = capacity other + (shift + 7) div 8"
      "\<forall>p. blob_bits o2 p \<longleftrightarrow> (if p < 8 * (shift div 8) then blob_bits o1 p else shift \<le> p \<and> blob_bits o1 (p - shift))"
      using add_low_bits_Ok [OF o1(2), of shift] shift fits(4) o1(3) div_le_mono [of "shift + 7" 30 8] by auto
    have room: "2 + bo div 8 + (?t - ?a) \<le> capacity o2"
      unfolding o2(2) shift_def by (rule append_room [OF fits(3)])
    obtain b' where b': "bitwise_or b1 ?a o2 (2 + bo div 8) (?t - ?a) = Ok b'" "wf_blob b'" "capacity b' = max 24 ?t"
      "\<forall>p. blob_bits b' p \<longleftrightarrow> blob_bits b p \<or> 8 * ?a \<le> p \<and> p < 8 * ?t \<and> blob_bits o2 (p - 8 * ?a + 8 * (2 + bo div 8))"
      using bitwise_or_Ok [of ?a "?t - ?a" b1 "2 + bo div 8" o2] room at b1(2,3) unfolding b1b by auto
    have "blob_bits b' p \<longleftrightarrow>
       (if p < sb then blob_bits b p \<or> 8 * ?a \<le> p \<and> sb \<le> p + bo \<and> blob_bits other (p + bo - sb)
        else p < sb + size \<and> blob_bits other (p - sb + bo))" for p
    proof (cases "8 * ?a \<le> p")
      case True
      note idx = append_slow_bits [OF True, of bo, folded shift_def]
      have "blob_bits o2 (p - 8 * ?a + 8 * (2 + bo div 8)) \<longleftrightarrow>
          sb \<le> p + bo \<and> p + bo - sb < bo + size \<and> blob_bits other (p + bo - sb)"
        using idx(2) unfolding o2(3) [rule_format] if_not_P [OF idx(3)] idx(1) o1(4) [rule_format] by auto
      moreover have t: "p < 8 * ?t" if "p < sb + size" using that by (rule ceil8_bound)
      ultimately have b'p: "blob_bits b' p \<longleftrightarrow> blob_bits b p \<or> p < 8 * ?t \<and> sb \<le> p + bo \<and>
          p + bo - sb < bo + size \<and> blob_bits other (p + bo - sb)" using b'(4) True by simp
      show ?thesis
      proof (cases "p < sb")
        case True
        with t b'p \<open>8 * ?a \<le> p\<close> show ?thesis by auto
      next
        case False
        then obtain d where "p = sb + d" using le_Suc_ex not_less by blast
        with t b'p upper [of p] show ?thesis by (auto simp: add.commute)
      qed
    next
      case False
      then have "blob_bits b' p \<longleftrightarrow> blob_bits b p" using b'(4) by blast
      moreover have "8 * ?a \<le> sb" by simp
      then have "p < sb" using False by linarith
      ultimately show ?thesis using False by simp
    qed
    with b' start False o2(1) show ?thesis by (simp add: shift_def)
  qed
qed

subsection \<open>Bit fields\<close>

lemma bit_word_bits: "length a \<le> 8 \<Longrightarrow> bit (from_le_bytes a :: u64) k \<longleftrightarrow> k < 64 \<and> bits a k"
  by (auto simp: bit_from_le_bytes bits_def)

lemma bit_u64_mask: "n < 64 \<Longrightarrow> bit ((x :: u64) AND (push_bit n 1 - 1)) k \<longleftrightarrow> k < n \<and> bit x k"
proof -
  have "push_bit n 1 - 1 = (mask n :: u64)" by (simp add: mask_eq_exp_minus_1 push_bit_eq_mult)
  then show "n < 64 \<Longrightarrow> ?thesis" by (auto simp: bit_simps dest: bit_imp_le_length)
qed

lemma bit_extract_bits:
  assumes "length a = 9" "len \<le> 64" "n \<le> 8 \<Longrightarrow> a ! 8 = 0" "8 < n \<Longrightarrow> start mod 8 \<noteq> 0"
  shows "bit (extract_bits a n start len) k \<longleftrightarrow> k < len \<and> bits a (start mod 8 + k)"
proof -
  let ?r = "start mod 8"
  define w where "w = (let r = from_le_bytes (take 8 a); r = (if ?r \<noteq> 0 then drop_bit ?r r else r) in
      if n > 8 then r OR push_bit (64 - ?r) (ucast (a ! 8)) else r :: u64)"
  have r: "?r < 8" by simp
  have last: "bits a j \<longleftrightarrow> bit (a ! 8) (j - 64)" if "64 \<le> j" "j < 72" for j
  proof -
    define d where "d = j - 64"
    with that have d: "j = 8 * 8 + d" "d < 8" by simp_all
    show ?thesis unfolding bits_def d(1) div8_add(1) div8_add(2) [OF d(2)] using d assms(1) by simp
  qed
  have "bit w k \<longleftrightarrow> k < 64 \<and> bits a (?r + k)"
  proof (cases "k < 64")
    case k: True
    have lo: "bit (if ?r \<noteq> 0 then drop_bit ?r (from_le_bytes (take 8 a)) else from_le_bytes (take 8 a) :: u64) k
        \<longleftrightarrow> ?r + k < 64 \<and> bits a (?r + k)"
      using assms(1) by (auto simp: bit_drop_bit_eq bit_word_bits bits_take)
    show ?thesis
    proof (cases "?r + k < 64")
      case True
      then have "\<not> bit (push_bit (64 - ?r) (ucast (a ! 8)) :: u64) k" by (auto simp: bit_push_bit_iff)
      with lo True k show ?thesis by (simp add: w_def Let_def bit_or_iff)
    next
      case False
      have "bit (push_bit (64 - ?r) (ucast (a ! 8)) :: u64) k \<longleftrightarrow> bit (a ! 8) (?r + k - 64)"
        using False k r by (auto simp: bit_push_bit_iff bit_ucast_iff add.commute)
      with lo False k last [of "?r + k"] r assms(3) show ?thesis by (cases "8 < n") (simp_all add: w_def Let_def bit_or_iff)
    qed
  qed (use bit_imp_le_length [of w k] in auto)
  then have "bit (if len < 64 then w AND (push_bit len 1 - 1) else w) k \<longleftrightarrow> k < len \<and> bits a (?r + k)"
    using assms(2) bit_u64_mask [of len w k] by auto
  moreover have "extract_bits a n start len = (if len < 64 then w AND (push_bit len 1 - 1) else w)"
    by (simp add: extract_bits_def w_def Let_def)
  ultimately show ?thesis by simp
qed

lemma field_bytes:
  fixes start e :: nat
  assumes "start \<le> e" "e - start \<le> 64"
  defines "n \<equiv> (e + 7) div 8 - start div 8"
  shows "start div 8 \<le> (e + 7) div 8" "n \<le> 9" "8 < n \<Longrightarrow> start mod 8 \<noteq> 0"
    "k < e - start \<Longrightarrow> start mod 8 + k < 8 * n"
proof -
  define q r where "q = start div 8" and "r = start mod 8"
  have s: "start = 8 * q + r" "r < 8" by (simp_all add: q_def r_def)
  from assms(1) obtain len where len: "e = start + len" using le_Suc_ex by blast
  have "(e + 7) div 8 = q + (r + len + 7) div 8" using div8_add(1) [of q "r + len + 7"] by (simp add: len s(1) add.assoc)
  then have n: "(e + 7) div 8 = q + n" "n = (r + len + 7) div 8" by (simp_all add: n_def q_def)
  then show "start div 8 \<le> (e + 7) div 8" by (simp add: q_def)
  have "len \<le> 64" using assms(2) len by simp
  then have "n \<le> 78 div 8" unfolding n(2) using s(2) by (intro div_le_mono) simp
  then show "n \<le> 9" by simp
  show "start mod 8 \<noteq> 0" if "8 < n"
  proof
    assume "start mod 8 = 0"
    then have "n \<le> 71 div 8" unfolding n(2) using \<open>len \<le> 64\<close> by (intro div_le_mono) (simp add: r_def)
    with that show False by simp
  qed
  show "start mod 8 + k < 8 * n" if "k < e - start"
    unfolding n(2) using that len by (intro ceil8_bound) (simp add: r_def)
qed

text \<open>The nine-byte buffer, filled with the bytes that hold the field.\<close>

lemma extract_field:
  fixes start e :: nat
  assumes "start \<le> e" "e - start \<le> 64" "length bs = (e + 7) div 8 - start div 8"
  shows "\<exists>v. rbind (copy_at (replicate 9 0) 0 bs) (\<lambda>a. Ok (extract_bits a (length bs) start (e - start))) = Ok v \<and>
    (\<forall>k. bit v k \<longleftrightarrow> k < e - start \<and> bits bs (start mod 8 + k))"
proof -
  note fb = field_bytes [OF assms(1,2), folded assms(3)]
  let ?a = "bs @ replicate (9 - length bs) 0"
  have a: "copy_at (replicate 9 0) 0 bs = Ok ?a" "length ?a = 9" using fb(2) by (simp_all add: copy_at_def)
  have "bit (extract_bits ?a (length bs) start (e - start)) k \<longleftrightarrow> k < e - start \<and> bits ?a (start mod 8 + k)" for k
    using assms(2) fb(3) a(2) by (intro bit_extract_bits) (auto simp: nth_append)
  then have "bit (extract_bits ?a (length bs) start (e - start)) k \<longleftrightarrow> k < e - start \<and> bits bs (start mod 8 + k)" for k
    using fb(4) [of k] by (auto simp: bits_append)
  with a(1) show ?thesis by simp
qed

lemma blob_bit_range:
  assumes "start \<le> e" "e - start \<le> 64" "e + 7 < 2 ^ 64" "e \<le> 8 * capacity b"
  shows "\<exists>v. value_bit_range rd (Blob b) start e m = (Ok v, m) \<and>
    (\<forall>k. bit v k \<longleftrightarrow> k < e - start \<and> blob_bits b (start + k))"
proof -
  let ?q = "start div 8" and ?e = "(e + 7) div 8"
  note fb = field_bytes [OF assms(1,2)]
  have e: "?e \<le> capacity b"
    using assms(4) div_le_mono [of "e + 7" "8 * capacity b + 7" 8] div8_add(1) [of "capacity b" 7] by simp
  let ?bs = "take (?e - ?q) (drop ?q (as_slice b))"
  have sub: "subslice (as_slice b) ?q ?e = Ok ?bs" "length ?bs = ?e - ?q"
    using fb(1) e by (simp_all add: subslice_Ok)
  from extract_field [OF assms(1,2) sub(2)] obtain v where v: "rbind (copy_at (replicate 9 0) 0 ?bs)
      (\<lambda>a. Ok (extract_bits a (length ?bs) start (e - start))) = Ok v"
    "\<forall>k. bit v k \<longleftrightarrow> k < e - start \<and> bits ?bs (start mod 8 + k)" by blast
  have "8 * ?q + (start mod 8 + k) = start + k" for k by simp
  then have "\<forall>k. bit v k \<longleftrightarrow> k < e - start \<and> blob_bits b (start + k)"
    using v(2) fb(4) by (auto simp: bits_take bits_drop)
  moreover have "value_bit_range rd (Blob b) start e m = (Ok v, m)"
    using assms(2-4) sub(1) v(1) unfolding sub(2) by (simp add: uadd_def Let_def mult.commute)
  ultimately show ?thesis by blast
qed

context byte_memory
begin

lemma memory_bit_range:
  assumes "start \<le> e" "e - start \<le> 64" "e + 7 < 2 ^ 64" "a + (e + 7) div 8 < 2 ^ 64"
    and s: "ok s" "paged (mem s)" "cache_ok (mem s) c"
    and r: "readable (mem s) (a + start div 8) ((e + 7) div 8 - start div 8)"
  shows "\<exists>v c'. value_bit_range (rd s) (Addr a) start e c = (Ok v, c') \<and> cache_ok (mem s) c' \<and>
    (\<forall>k. bit v k \<longleftrightarrow> k < e - start \<and> bit (the (mem s (a + (start + k) div 8))) ((start + k) mod 8))"
proof -
  let ?q = "start div 8" and ?n = "(e + 7) div 8 - start div 8"
  note fb = field_bytes [OF assms(1,2)]
  obtain bs where bs: "reads (mem s) (a + ?q) ?n bs" using readable_reads [OF r] by blast
  then have len: "length bs = ?n" by (rule reads_length)
  have "a + ?q + ?n < 2 ^ 64" using assms(4) fb(1) by simp
  from cached_read_Ok [OF s this bs] obtain c' where c': "read_uninit (rd s) (a + ?q) ?n c = (Ok bs, c')" "cache_ok (mem s) c'" by blast
  from extract_field [OF assms(1,2) len] obtain v where v: "rbind (copy_at (replicate 9 0) 0 bs)
      (\<lambda>a. Ok (extract_bits a ?n start (e - start))) = Ok v"
    "\<forall>k. bit v k \<longleftrightarrow> k < e - start \<and> bits bs (start mod 8 + k)" unfolding len by blast
  have "bits bs (start mod 8 + k) \<longleftrightarrow> bit (the (mem s (a + (start + k) div 8))) ((start + k) mod 8)" if "k < e - start" for k
  proof -
    have start: "start + k = 8 * ?q + (start mod 8 + k)" by simp
    have i: "(start mod 8 + k) div 8 < ?n" using fb(4) [OF that] by (simp add: div8_less)
    have "(start + k) div 8 = ?q + (start mod 8 + k) div 8" "(start + k) mod 8 = (start mod 8 + k) mod 8"
      using arg_cong [OF start, of "\<lambda>x. x div 8"] arg_cong [OF start, of "\<lambda>x. x mod 8"]
      unfolding div8_add(1) mod_mult_self4 by blast+
    moreover have "mem s (a + ?q + (start mod 8 + k) div 8) = Some (bs ! ((start mod 8 + k) div 8))"
      using bs i by (simp add: reads_def)
    ultimately show ?thesis using i len by (simp add: bits_def add.assoc)
  qed
  with v(2) have "\<forall>k. bit v k \<longleftrightarrow> k < e - start \<and> bit (the (mem s (a + (start + k) div 8))) ((start + k) mod 8)" by blast
  moreover have "min (2 ^ 64 - 1) (a + ?q) = a + ?q" using assms(4) fb(1) by simp
  then have "value_bit_range (rd s) (Addr a) start e c = (Ok v, c')"
    using assms(2,3) c'(1) v(1) by (simp add: uadd_def Let_def slift_def)
  ultimately show ?thesis using c'(2) by blast
qed

end

section \<open>Properties\<close>



text \<open>
  (C34) Appending a piece of \<open>size\<close> bits, taken at \<open>bo\<close> from another blob, to the first \<open>sb\<close> bits of
  a blob: the operation does not panic, the new bits are exactly the bits of the piece, and nothing
  is set above them. The bits that were there are kept, except that a piece with an offset also
  leaks the bits in front of it into the last, incomplete byte.
\<close>

theorem append_bits_outcome:
  fixes sb size bo :: nat
  assumes "wf_blob b" "wf_blob other" "\<forall>p \<ge> sb. \<not> blob_bits b p"
    "bo + size + 7 < 2 ^ 64" "sb + size + 7 < 2 ^ 64" "(bo + size + 7) div 8 \<le> capacity other" "capacity other + 3 < 2 ^ 64"
  shows "\<exists>b'. append_bits b sb other size bo = Ok b' \<and> wf_blob b' \<and> capacity b' = max 24 ((sb + size + 7) div 8) \<and>
    (\<forall>p. blob_bits b' p \<longleftrightarrow>
       (if p < sb then blob_bits b p \<or> 8 * (sb div 8) \<le> p \<and> sb \<le> p + bo \<and> blob_bits other (p + bo - sb)
        else p < sb + size \<and> blob_bits other (p - sb + bo)))"
  using assms by (intro append_bits_Ok) auto

theorem append_bits_outcome_witness:
  "\<exists>b'. append_bits (Small 0 0 0) 1 (Small 3 0 0) 1 1 = Ok b' \<and> blob_bits b' 0 \<and> blob_bits b' 1 \<and> \<not> blob_bits b' 2"
proof -
  have zero: "\<not> blob_bits (Small 0 0 0) p" for p
    using with_capacity_facts(3) [of 0 p] by (simp add: with_capacity_def)
  have three: "blob_bits (Small 3 0 0) 0" "blob_bits (Small 3 0 0) 1" by (simp_all add: bits_def to_le_bytes_def upt_rec)
  have "wf_blob (Small 0 0 0)" "wf_blob (Small 3 0 0)" by (simp_all add: wf_blob_def)
  from append_bits_outcome [OF this, of 1 1 1] zero three show ?thesis by auto
qed

end
