(* ===== verification/Keys.thy ===== *)
theory Keys
  imports Lexer
begin

text \<open>
  Keys with modifiers and their names in the settings (\<open>src/terminal.rs\<close>, \<open>Key\<close> and \<open>KeyEx\<close>). A
  \<open>char\<close> is a Unicode scalar value. The result is that a key binding that is written is read back.
\<close>

section \<open>Keys\<close>

type_synonym ModKeys = u8

definition SHIFT :: ModKeys where "SHIFT = 1"
definition ALT :: ModKeys where "ALT = 2"
definition CTRL :: ModKeys where "CTRL = 4"
definition ANY :: ModKeys where "ANY = 8"

definition has_mod :: "ModKeys \<Rightarrow> ModKeys \<Rightarrow> bool" where
  "has_mod m f \<longleftrightarrow> m AND f = f"

datatype Key = KeyChar uchar | KeyF nat | Backspace | Escape | Up | Down | Right | Left
  | PageUp | PageDown | Home | End | Insert | Delete | Unknown

record KeyEx =
  key :: Key
  mods :: ModKeys

definition with_mods :: "Key \<Rightarrow> ModKeys \<Rightarrow> KeyEx" where
  "with_mods k m = \<lparr>key = k, mods = m\<rparr>"

definition plain :: "Key \<Rightarrow> KeyEx" where
  "plain k = with_mods k 0"

definition ctrl :: "Key \<Rightarrow> KeyEx" where
  "ctrl k = with_mods k CTRL"

definition shift :: "Key \<Rightarrow> KeyEx" where
  "shift k = with_mods k SHIFT"

definition alt :: "Key \<Rightarrow> KeyEx" where
  "alt k = with_mods k ALT"

definition any_mods :: "Key \<Rightarrow> KeyEx" where
  "any_mods k = with_mods k ANY"

fun is_ordinary_char :: "Key \<Rightarrow> bool" where
  "is_ordinary_char (KeyChar c) = (c \<noteq> 9 \<and> c \<noteq> 10 \<and> c \<noteq> 13)"
| "is_ordinary_char _ = False"

fun is_arrow_key :: "Key \<Rightarrow> bool" where
  "is_arrow_key Left = True"
| "is_arrow_key Right = True"
| "is_arrow_key Up = True"
| "is_arrow_key Down = True"
| "is_arrow_key _ = False"

section \<open>Names\<close>

text \<open>\<open>{}\<close> of an unsigned number, and \<open>{:x}\<close>.\<close>

definition digit_char :: "nat \<Rightarrow> uchar" where
  "digit_char d = (if d < 10 then 0x30 + d else 0x57 + d)"

fun fmt_radix :: "nat \<Rightarrow> nat \<Rightarrow> ustr" where
  "fmt_radix radix n = (if radix < 2 \<or> n < radix then [digit_char n]
     else fmt_radix radix (n div radix) @ [digit_char (n mod radix)])"

declare fmt_radix.simps [simp del]

definition fmt_hex2 :: "nat \<Rightarrow> ustr" where
  "fmt_hex2 n = (let s = fmt_radix 16 n in replicate (2 - length s) 0x30 @ s)"

fun display_key :: "Key \<Rightarrow> ustr" where
  "display_key Left = ustr ''left''"
| "display_key Right = ustr ''right''"
| "display_key Up = ustr ''up''"
| "display_key Down = ustr ''down''"
| "display_key Insert = ustr ''ins''"
| "display_key Delete = ustr ''del''"
| "display_key Home = ustr ''home''"
| "display_key End = ustr ''end''"
| "display_key PageUp = ustr ''pageup''"
| "display_key PageDown = ustr ''pagedown''"
| "display_key Backspace = ustr ''backspace''"
| "display_key Escape = ustr ''esc''"
| "display_key (KeyF n) = ustr ''F'' @ fmt_radix 10 n"
| "display_key (KeyChar c) =
     (if c = 10 then ustr ''enter'' else if c = 9 then ustr ''tab'' else if c = 32 then ustr ''space''
      else if c = 0x5C then [0x5C]
      else if c < 128 \<and> \<not> (c < 32 \<or> c = 127) then [c]
      else [0x5C, 0x78] @ fmt_hex2 c)"
| "display_key Unknown = ustr ''unknown''"

text \<open>\<open>from_str_radix\<close> of an unsigned type with values below \<open>lim\<close>.\<close>

fun parse_digits :: "nat \<Rightarrow> nat \<Rightarrow> nat \<Rightarrow> ustr \<Rightarrow> nat option" where
  "parse_digits radix lim acc [] = Some acc"
| "parse_digits radix lim acc (c # cs) = (case to_digit radix c of
      None \<Rightarrow> None
    | Some d \<Rightarrow> if acc * radix + d < lim then parse_digits radix lim (acc * radix + d) cs else None)"

definition parse_uint :: "nat \<Rightarrow> nat \<Rightarrow> ustr \<Rightarrow> nat option" where
  "parse_uint radix lim s = (case s of
      [] \<Rightarrow> None
    | c # cs \<Rightarrow> if c = 0x2B \<and> cs \<noteq> [] then parse_digits radix lim 0 cs else parse_digits radix lim 0 s)"

definition is_scalar :: "nat \<Rightarrow> bool" where
  "is_scalar n \<longleftrightarrow> n < 0xD800 \<or> (0xE000 \<le> n \<and> n < 0x110000)"

definition key_from_str :: "ustr \<Rightarrow> Key option" where
  "key_from_str s = (case s of
      [] \<Rightarrow> None
    | [c] \<Rightarrow> Some (KeyChar c)
    | _ \<Rightarrow>
        if \<not> list_all (\<lambda>c. c < 128) s then None
        else if s = ustr ''left'' then Some Left
        else if s = ustr ''right'' then Some Right
        else if s = ustr ''up'' then Some Up
        else if s = ustr ''down'' then Some Down
        else if s = ustr ''ins'' then Some Insert
        else if s = ustr ''del'' then Some Delete
        else if s = ustr ''home'' then Some Home
        else if s = ustr ''end'' then Some End
        else if s = ustr ''pageup'' then Some PageUp
        else if s = ustr ''pagedown'' then Some PageDown
        else if s = ustr ''backspace'' then Some Backspace
        else if s = ustr ''esc'' then Some Escape
        else if s = ustr ''enter'' then Some (KeyChar 10)
        else if s = ustr ''tab'' then Some (KeyChar 9)
        else if s = ustr ''space'' then Some (KeyChar 32)
        else if starts_with s (ustr ''F'') then map_option KeyF (parse_uint 10 256 (drop 1 s))
        else if starts_with s [0x5C, 0x78] then
          (case parse_uint 16 (2 ^ 32) (drop 2 s) of
             None \<Rightarrow> None
           | Some n \<Rightarrow> if is_scalar n then Some (KeyChar n) else None)
        else None)"

definition display_key_ex :: "KeyEx \<Rightarrow> ustr" where
  "display_key_ex k =
     (if has_mod (mods k) CTRL then ustr ''C-'' else []) @
     (if has_mod (mods k) ALT then ustr ''M-'' else []) @
     (if has_mod (mods k) SHIFT then ustr ''S-'' else []) @
     (if has_mod (mods k) ANY then ustr ''?-'' else []) @ display_key (key k)"

definition mod_prefix :: "ustr \<Rightarrow> ModKeys option" where
  "mod_prefix s =
     (if starts_with s (ustr ''C-'') then Some CTRL
      else if starts_with s (ustr ''M-'') then Some ALT
      else if starts_with s (ustr ''S-'') then Some SHIFT
      else None)"

lemma mod_prefix_shorter: "mod_prefix s = Some f \<Longrightarrow> length (drop 2 s) < length s"
  by (cases s) (auto simp: mod_prefix_def starts_with_def ustr_def split: if_splits)

function key_ex_loop :: "ModKeys \<Rightarrow> ustr \<Rightarrow> KeyEx option" where
  "key_ex_loop m s = (case mod_prefix s of
      Some f \<Rightarrow> if has_mod m f then None else key_ex_loop (m OR f) (drop 2 s)
    | None \<Rightarrow> map_option (\<lambda>k. with_mods k m) (key_from_str s))"
  by pat_completeness auto
termination
  by (relation "measure (\<lambda>(m, s). length s)") (use mod_prefix_shorter in auto)

declare key_ex_loop.simps [simp del]

definition key_ex_from_str :: "ustr \<Rightarrow> KeyEx option" where
  "key_ex_from_str s = key_ex_loop 0 s"

section \<open>Names are read back\<close>

lemma fmt_radix_nonempty [simp]: "fmt_radix radix n \<noteq> []"
  by (subst fmt_radix.simps) simp

lemma to_digit_char: "d < radix \<Longrightarrow> radix \<le> 16 \<Longrightarrow> to_digit radix (digit_char d) = Some d"
  by (auto simp: to_digit_def digit_char_def)

lemma parse_digits_append:
  "parse_digits radix lim acc (xs @ ys) = Option.bind (parse_digits radix lim acc xs) (\<lambda>a. parse_digits radix lim a ys)"
  by (induction radix lim acc xs rule: parse_digits.induct) (auto split: option.splits)

lemma parse_digits_fmt:
  assumes "2 \<le> radix" "radix \<le> 16"
  shows "n < lim \<Longrightarrow> parse_digits radix lim 0 (fmt_radix radix n) = Some n"
  using assms
proof (induction radix n rule: fmt_radix.induct)
  case (1 radix n)
  show ?case
  proof (cases "n < radix")
    case True
    with 1 to_digit_char [of n radix] show ?thesis by (subst fmt_radix.simps) simp
  next
    case False
    have "n div radix < lim" using "1.prems"(1) by (meson div_le_dividend le_less_trans)
    with "1.IH" False "1.prems" have "parse_digits radix lim 0 (fmt_radix radix (n div radix)) = Some (n div radix)" by simp
    moreover have "n mod radix < radix" "n div radix * radix + n mod radix = n" using "1.prems"(2) by simp_all
    moreover have "fmt_radix radix n = fmt_radix radix (n div radix) @ [digit_char (n mod radix)]"
      using False "1.prems" by (subst fmt_radix.simps) simp
    ultimately show ?thesis
      using to_digit_char [of "n mod radix" radix] "1.prems" by (simp add: parse_digits_append)
  qed
qed

lemma digit_char_range: "d < 16 \<Longrightarrow> 0x30 \<le> digit_char d \<and> digit_char d < 128"
  by (simp add: digit_char_def)

lemma fmt_radix_range: "2 \<le> radix \<Longrightarrow> radix \<le> 16 \<Longrightarrow> c \<in> set (fmt_radix radix n) \<Longrightarrow> 0x30 \<le> c \<and> c < 128"
proof (induction radix n rule: fmt_radix.induct)
  case (1 radix n)
  show ?case
  proof (cases "n < radix")
    case True
    then have "fmt_radix radix n = [digit_char n]" by (subst fmt_radix.simps) simp
    with "1.prems" have "c = digit_char n" by simp
    with True "1.prems" show ?thesis by (simp add: digit_char_range)
  next
    case False
    with "1.prems" have "fmt_radix radix n = fmt_radix radix (n div radix) @ [digit_char (n mod radix)]"
      by (subst fmt_radix.simps) simp
    with "1.prems" have "c \<in> set (fmt_radix radix (n div radix)) \<or> c = digit_char (n mod radix)" by auto
    moreover have "n mod radix < 16" using "1.prems" mod_less_divisor [of radix n] by linarith
    ultimately show ?thesis using "1.IH" False "1.prems" digit_char_range by auto
  qed
qed

lemma parse_uint_fmt:
  assumes "2 \<le> radix" "radix \<le> 16" "n < lim" shows "parse_uint radix lim (fmt_radix radix n) = Some n"
proof (cases "fmt_radix radix n")
  case (Cons c cs)
  have "c \<noteq> 0x2B" using fmt_radix_range [OF assms(1,2), of c n] Cons by auto
  with Cons parse_digits_fmt [OF assms(1,2,3)] show ?thesis by (simp add: parse_uint_def)
qed simp

lemma parse_uint_zero: "to_digit radix 0x30 = Some 0 \<Longrightarrow> 0 < lim \<Longrightarrow> s \<noteq> [] \<Longrightarrow> hd s \<noteq> 0x2B \<Longrightarrow>
    parse_uint radix lim (0x30 # s) = parse_uint radix lim s"
  by (cases s) (auto simp: parse_uint_def)

lemma parse_uint_02x: "n < 2 ^ 32 \<Longrightarrow> parse_uint 16 (2 ^ 32) (fmt_hex2 n) = Some n"
proof -
  assume n: "n < 2 ^ 32"
  have "hd (fmt_radix 16 n) \<noteq> 0x2B" using fmt_radix_range [of 16 "hd (fmt_radix 16 n)" n] hd_in_set [OF fmt_radix_nonempty] by auto
  moreover obtain k where "fmt_hex2 n = replicate k 0x30 @ fmt_radix 16 n" "k \<le> 1"
    unfolding fmt_hex2_def Let_def using fmt_radix_nonempty [of 16 n] by (cases "fmt_radix 16 n") auto
  ultimately show ?thesis
    using parse_uint_fmt [of 16 n "2 ^ 32"] n by (cases k) (auto simp: parse_uint_zero to_digit_def)
qed

definition wf_key :: "Key \<Rightarrow> bool" where
  "wf_key k \<longleftrightarrow> k \<noteq> Unknown \<and> (\<forall>c. k = KeyChar c \<longrightarrow> is_scalar c) \<and> (\<forall>n. k = KeyF n \<longrightarrow> n < 256)"

lemma key_from_str_F: "n < 256 \<Longrightarrow> key_from_str (ustr ''F'' @ fmt_radix 10 n) = Some (KeyF n)"
proof -
  assume n: "n < 256"
  obtain c cs where s: "fmt_radix 10 n = c # cs" by (cases "fmt_radix 10 n") auto
  have "\<forall>x \<in> set (c # cs). x < 128" using fmt_radix_range [of 10 _ n] s by auto
  then show ?thesis using parse_uint_fmt [of 10 n 256] n s
    by (simp add: key_from_str_def ustr_def starts_with_def list_all_iff)
qed

lemma key_from_str_x:
  assumes "is_scalar n" shows "key_from_str ([0x5C, 0x78] @ fmt_hex2 n) = Some (KeyChar n)"
proof -
  have n: "n < 2 ^ 32" using assms by (auto simp: is_scalar_def)
  have "\<forall>x \<in> set (fmt_hex2 n). x < 128" using fmt_radix_range [of 16 _ n] by (auto simp: fmt_hex2_def Let_def)
  then show ?thesis using parse_uint_02x [OF n] assms
    by (simp add: key_from_str_def ustr_def starts_with_def list_all_iff)
qed

lemma key_read_back: "wf_key k \<Longrightarrow> key_from_str (display_key k) = Some k"
proof (cases k)
  case (KeyChar c)
  assume "wf_key k"
  with KeyChar have "is_scalar c" by (simp add: wf_key_def)
  show ?thesis
  proof (cases "c \<in> {9, 10, 32, 0x5C} \<or> 32 \<le> c \<and> c < 127")
    case True
    then show ?thesis by (auto simp: KeyChar key_from_str_def ustr_def)
  next
    case False
    then have "display_key k = [0x5C, 0x78] @ fmt_hex2 c" by (auto simp: KeyChar)
    with key_from_str_x [OF \<open>is_scalar c\<close>] KeyChar show ?thesis by (simp only:)
  qed
next
  case (KeyF n)
  assume "wf_key k"
  with KeyF key_from_str_F [of n] show ?thesis by (simp add: wf_key_def)
qed (simp_all add: key_from_str_def ustr_def wf_key_def)

lemma no_mod_prefix: "mod_prefix (display_key k) = None"
proof (cases k)
  case (KeyF n)
  obtain c cs where "fmt_radix 10 n = c # cs" by (cases "fmt_radix 10 n") auto
  with KeyF show ?thesis by (simp add: mod_prefix_def starts_with_def ustr_def)
qed (auto simp: mod_prefix_def starts_with_def ustr_def)

text \<open>
  (C36) The name of a key with modifiers, as it is shown and written in the settings, is read back
  as the same key with the same modifiers. This holds for every key but the one for unknown input,
  and for every set of modifiers without the special value that stands for any of them.
\<close>

theorem key_names_read_back:
  assumes "wf_key (key k)" "mods k < 8" shows "key_ex_from_str (display_key_ex k) = Some k"
proof -
  have last: "key_ex_loop m (display_key (key k)) = Some (with_mods (key k) m)" for m
    by (subst key_ex_loop.simps) (simp add: no_mod_prefix key_read_back [OF assms(1)])
  have c: "key_ex_loop m (67 # 45 # s) = (if has_mod m CTRL then None else key_ex_loop (m OR CTRL) s)"
    and a: "key_ex_loop m (77 # 45 # s) = (if has_mod m ALT then None else key_ex_loop (m OR ALT) s)"
    and s: "key_ex_loop m (83 # 45 # s) = (if has_mod m SHIFT then None else key_ex_loop (m OR SHIFT) s)" for m s
    by (subst key_ex_loop.simps, simp add: mod_prefix_def starts_with_def ustr_def)+
  obtain K M where k: "k = \<lparr>key = K, mods = M\<rparr>" by (cases k) simp
  have lastK: "key_ex_loop m (display_key K) = Some \<lparr>key = K, mods = m\<rparr>" for m
    using last k by (simp add: with_mods_def)
  have "unat M \<in> set [0..<8]" using assms(2) k by (simp add: word_less_nat_alt)
  moreover have "M = word_of_nat (unat M)" by simp
  ultimately have "M \<in> set (map word_of_nat [0..<8])" by (metis image_eqI list.set_map)
  then have "M \<in> {0, 1, 2, 3, 4, 5, 6, 7}" by (simp add: upt_rec)
  then show ?thesis
    unfolding key_ex_from_str_def display_key_ex_def k
    by (elim insertE emptyE) (simp_all add: ustr_def has_mod_def CTRL_def ALT_def SHIFT_def ANY_def with_mods_def
        lastK c [unfolded has_mod_def CTRL_def] a [unfolded has_mod_def ALT_def]
        s [unfolded has_mod_def SHIFT_def])
qed

theorem key_names_read_back_witness:
  "key_ex_from_str (display_key_ex \<lparr>key = KeyChar 13, mods = 5\<rparr>) = Some \<lparr>key = KeyChar 13, mods = 5\<rparr>"
  by (rule key_names_read_back) (simp_all add: wf_key_def is_scalar_def)

end
