(* ===== verification/TermInput.thy ===== *)
theory TermInput
  imports Keys
begin

text \<open>
  The reader of terminal input (\<open>src/terminal.rs\<close>, \<open>InputReader\<close>): bytes are collected in a buffer
  of 128 bytes and parsed into key and mouse events; an incomplete escape sequence stays in the
  buffer until more bytes arrive. Parsing functions fail with \<open>True\<close> when they reach the end of the
  buffer and with \<open>False\<close> on a sequence they do not know. The bytes that \<open>poll\<close> and \<open>read\<close> deliver are a
  parameter: a list of chunks, with \<open>None\<close> for a failing system call. The results are that the
  reader does not panic whatever the input, that its loops end, and that every byte is reported in
  exactly one event, in order.
\<close>

section \<open>Events\<close>

datatype MouseEvent = Press | Release | Move | ScrollUp | ScrollDown

datatype MouseButton = ButtonLeft | ButtonMiddle | ButtonRight | ButtonNone

record MouseEventEx =
  mouse_pos :: "int \<times> int"
  button :: MouseButton
  event :: MouseEvent
  mouse_mods :: ModKeys

datatype Event = EKey KeyEx | EMouse MouseEventEx | FocusIn | FocusOut

fun is_key :: "Event \<Rightarrow> bool" where
  "is_key (EKey k) = True"
| "is_key _ = False"

text \<open>Up to 22 bytes are stored inline.\<close>

datatype SmallArray = Short bytes nat | Long bytes

definition small_array_new :: "bytes \<Rightarrow> SmallArray" where
  "small_array_new d = (if length d \<le> 22 then Short (d @ replicate (22 - length d) 0) (length d) else Long d)"

fun small_array_slice :: "SmallArray \<Rightarrow> bytes" where
  "small_array_slice (Short d len) = take len d"
| "small_array_slice (Long b) = b"

record EventInfo =
  ev :: Event
  ev_bytes :: SmallArray

definition event_info :: "Event \<Rightarrow> bytes \<Rightarrow> EventInfo" where
  "event_info e bs = \<lparr>ev = e, ev_bytes = small_array_new bs\<rparr>"

section \<open>Parsing\<close>

record InputReader =
  ir_start :: nat
  ir_end :: nat
  ir_buf :: bytes
  saw_extra_escape :: bool

definition reader_new :: InputReader where
  "reader_new = \<lparr>ir_start = 0, ir_end = 0, ir_buf = replicate 128 0, saw_extra_escape = False\<rparr>"

type_synonym 'a ev_parser = "(InputReader, 'a, bool) sres"

definition ir_peek :: "u8 ev_parser" where
  "ir_peek s = (if ir_start s = ir_end s then Err True
     else if ir_start s < length (ir_buf s) then Ok (ir_buf s ! ir_start s) else Panic, s)"

definition advance :: "unit ev_parser" where
  "advance s = (Ok (), s\<lparr>ir_start := ir_start s + 1\<rparr>)"

definition ir_eat :: "u8 ev_parser" where
  "ir_eat = sbind ir_peek (\<lambda>c. sbind advance (\<lambda>_. sret c))"

definition ansi_modifier :: "nat \<Rightarrow> (ModKeys, bool) result" where
  "ansi_modifier n = (if n < 1 \<or> n > 16 then Err False
     else (let m = word_of_nat (n - 1) :: u8 in
           Ok (if m AND 8 = 8 then (m OR 2) XOR 8 else m)))"

definition ansi_key_xterm :: "u8 \<Rightarrow> (Key, bool) result" where
  "ansi_key_xterm c =
     (if c = byte CHR ''A'' then Ok Up else if c = byte CHR ''B'' then Ok Down
      else if c = byte CHR ''C'' then Ok Right else if c = byte CHR ''D'' then Ok Left
      else if c = byte CHR ''H'' then Ok Home else if c = byte CHR ''F'' then Ok End
      else if byte CHR ''P'' \<le> c \<and> c \<le> byte CHR ''S'' then Ok (KeyF (1 + unat (c - byte CHR ''P'')))
      else Err False)"

definition ansi_key_vt :: "nat \<Rightarrow> (Key, bool) result" where
  "ansi_key_vt n =
     (if n = 1 then Ok Home else if n = 2 then Ok Insert else if n = 3 then Ok Delete
      else if n = 4 then Ok End else if n = 5 then Ok PageUp else if n = 6 then Ok PageDown
      else if n = 7 then Ok Home else if n = 8 then Ok End
      else if 10 \<le> n \<and> n \<le> 15 then Ok (KeyF (n - 10))
      else if 17 \<le> n \<and> n \<le> 21 then Ok (KeyF (n - 17 + 6))
      else if 23 \<le> n \<and> n \<le> 26 then Ok (KeyF (n - 23 + 11))
      else if 28 \<le> n \<and> n \<le> 29 then Ok (KeyF (n - 28 + 15))
      else if 31 \<le> n \<and> n \<le> 34 then Ok (KeyF (n - 31 + 17))
      else Err False)"

text \<open>The length that the first byte of a UTF-8 sequence announces, and the character.\<close>

definition utf8_len :: "u8 \<Rightarrow> nat option" where
  "utf8_len c = (if c \<le> 0x7F then Some 1 else if 0xC0 \<le> c \<and> c \<le> 0xDF then Some 2
     else if 0xE0 \<le> c \<and> c \<le> 0xEF then Some 3 else if 0xF0 \<le> c \<and> c \<le> 0xF7 then Some 4 else None)"

definition decode_char :: "bytes \<Rightarrow> uchar" where
  "decode_char s = foldl (\<lambda>a b. a * 64 + unat b mod 64)
     (if length s = 1 then unat (hd s) else if length s = 2 then unat (hd s) mod 32
      else if length s = 3 then unat (hd s) mod 16 else unat (hd s) mod 8) (tl s)"

text \<open>The first character of a valid string, which must be the whole of it.\<close>

definition only_char :: "bytes \<Rightarrow> (uchar, bool) result" where
  "only_char s = (if s = [] \<or> snd (utf8_step s) < length s then Panic else Ok (decode_char s))"

definition ansi_key_char :: "u8 \<Rightarrow> KeyEx ev_parser" where
  "ansi_key_char c =
     (if c = 10 \<or> c = 13 then sret (plain (KeyChar 10))
      else if c = 0x7F then sret (plain Backspace)
      else if c = 8 then sret (ctrl Backspace)
      else if c = 0 then sret (ctrl (KeyChar 32))
      else if 1 \<le> c \<and> c \<le> 0x1A then sret (ctrl (KeyChar (unat c - 1 + 97)))
      else if 0x1C \<le> c \<and> c \<le> 0x1F then sret (ctrl (KeyChar (unat c - 0x1C + 52)))
      else if c \<le> 127 then sret (plain (KeyChar (unat c)))
      else (case utf8_len c of
          None \<Rightarrow> sthrow False
        | Some len \<Rightarrow> (\<lambda>s.
            if ir_start s = 0 then (Panic, s)
            else (let e = ir_start s - 1 + len in
              if e > ir_end s then (Err True, s)
              else if e > length (ir_buf s) then (Panic, s)
              else (let t = take len (drop (ir_start s - 1) (ir_buf s)); s' = s\<lparr>ir_start := e\<rparr> in
                if is_utf8 t then (rbind (only_char t) (\<lambda>ch. Ok (plain (KeyChar ch))), s')
                else (Err False, s'))))))"

text \<open>\<open>start\<close> is where the number starts.\<close>

function number_loop :: "nat \<Rightarrow> nat \<Rightarrow> nat ev_parser" where
  "number_loop start n s = (case ir_peek s of
      (Ok c, s) \<Rightarrow>
        if byte CHR ''0'' \<le> c \<and> c \<le> byte CHR ''9'' then
          (let s' = s\<lparr>ir_start := ir_start s + 1\<rparr> in
           if n > 1000000 \<or> (n = 0 \<and> ir_start s' > start + 2) then (Err False, s')
           else number_loop start (n * 10 + unat (c - byte CHR ''0'')) s')
        else (Ok n, s)
    | (Err e, s) \<Rightarrow> (Err e, s)
    | (Panic, s) \<Rightarrow> (Panic, s))"
  by pat_completeness auto
termination
  by (relation "measure (\<lambda>(start, n, s). length (ir_buf s) - ir_start s)")
    (auto simp: ir_peek_def split: if_splits)

declare number_loop.simps [simp del]

definition parse_ansi_number :: "nat ev_parser" where
  "parse_ansi_number s = number_loop (ir_start s) 0 s"

definition expect_byte :: "u8 \<Rightarrow> unit ev_parser" where
  "expect_byte b = sbind ir_eat (\<lambda>c. if c \<noteq> b then sthrow False else sret ())"

definition mouse_event :: "nat \<Rightarrow> nat \<Rightarrow> nat \<Rightarrow> u8 \<Rightarrow> (Event, bool) result" where
  "mouse_event n x y c =
     (let b = (if n mod 4 = 0 then ButtonLeft else if n mod 4 = 1 then ButtonMiddle
               else if n mod 4 = 2 then ButtonRight else ButtonNone);
          m = word_of_nat ((n div 4) mod 8);
          e = (if c = byte CHR ''m'' then Release else Press);
          e = (if (n div 32) mod 2 = 1 then Move else e);
          p = (int x - 1, int y - 1)
      in if (n div 64) mod 2 = 1 then
           (if n mod 4 = 0 then Ok (EMouse \<lparr>mouse_pos = p, button = ButtonNone, event = ScrollUp, mouse_mods = m\<rparr>)
            else if n mod 4 = 1 then Ok (EMouse \<lparr>mouse_pos = p, button = ButtonNone, event = ScrollDown, mouse_mods = m\<rparr>)
            else Err False)
         else Ok (EMouse \<lparr>mouse_pos = p, button = b, event = e, mouse_mods = m\<rparr>))"

definition parse_mouse :: "Event ev_parser" where
  "parse_mouse = sbind parse_ansi_number (\<lambda>n. sbind (expect_byte (byte CHR '';'')) (\<lambda>_.
     sbind parse_ansi_number (\<lambda>x. sbind (expect_byte (byte CHR '';'')) (\<lambda>_.
     sbind parse_ansi_number (\<lambda>y. sbind ir_eat (\<lambda>c. slift (mouse_event n x y c)))))))"

definition key_event :: "(Key, bool) result \<Rightarrow> ModKeys \<Rightarrow> (Event, bool) result" where
  "key_event k m = rbind k (\<lambda>k. Ok (EKey (with_mods k m)))"

definition parse_csi_key :: "Event ev_parser" where
  "parse_csi_key = sbind parse_ansi_number (\<lambda>n. sbind ir_eat (\<lambda>c.
     sbind (if c = byte CHR '';'' then
              sbind parse_ansi_number (\<lambda>k. sbind (slift (ansi_modifier k)) (\<lambda>m. sbind ir_eat (\<lambda>c. sret (m, c))))
            else sret (0, c))
       (\<lambda>(m, c). slift (key_event (if c = byte CHR ''~'' then ansi_key_vt n else ansi_key_xterm c) m))))"

definition at_end :: "InputReader \<Rightarrow> bool" where
  "at_end s \<longleftrightarrow> ir_start s = ir_end s \<and> ir_end s < length (ir_buf s)"

definition parse_ss3 :: "Event ev_parser" where
  "parse_ss3 = sbind ir_eat (\<lambda>c. slift
     (if byte CHR ''P'' \<le> c \<and> c \<le> byte CHR ''S'' then Ok (EKey (plain (KeyF (1 + unat (c - byte CHR ''P'')))))
      else if c = byte CHR ''A'' then Ok (EKey (plain Up))
      else if c = byte CHR ''B'' then Ok (EKey (plain Down))
      else if c = byte CHR ''C'' then Ok (EKey (plain Right))
      else if c = byte CHR ''D'' then Ok (EKey (plain Left))
      else Err False))"

definition parse_csi :: "Event ev_parser" where
  "parse_csi = sbind ir_peek (\<lambda>p.
     if p = byte CHR ''<'' then sbind advance (\<lambda>_. parse_mouse)
     else if p = byte CHR ''I'' then sbind advance (\<lambda>_. sret FocusIn)
     else if p = byte CHR ''O'' then sbind advance (\<lambda>_. sret FocusOut)
     else parse_csi_key)"

text \<open>\<open>self.start -= 1\<close>, then the escape key.\<close>

definition uneat_escape :: "Event ev_parser" where
  "uneat_escape s = (if ir_start s = 0 then (Panic, s)
     else (Ok (EKey (plain Escape)), s\<lparr>ir_start := ir_start s - 1\<rparr>))"

definition after_escape :: "u8 \<Rightarrow> Event ev_parser" where
  "after_escape c =
     (if c = 0x1B then uneat_escape
      else if c = byte CHR ''O'' then
        (\<lambda>s. if at_end s then (Ok (EKey (alt (KeyChar 79))), s) else parse_ss3 s)
      else if c = byte CHR ''['' then
        (\<lambda>s. if at_end s then (Ok (EKey (alt (KeyChar 91))), s) else parse_csi s)
      else sbind (ansi_key_char c) (\<lambda>k. sret (EKey (k\<lparr>mods := mods k OR ALT\<rparr>))))"

definition parse_escape :: "Event ev_parser" where
  "parse_escape s = (if at_end s then (Ok (EKey (plain Escape)), s)
     else sbind ir_eat (\<lambda>c.
       if c = 0x1B then
         (\<lambda>s. if at_end s then uneat_escape s
              else sbind ir_eat after_escape (s\<lparr>saw_extra_escape := True\<rparr>))
       else after_escape c) s)"

definition parse_event :: "Event ev_parser" where
  "parse_event = sbind ir_eat (\<lambda>c. if c = 0x1B then parse_escape
     else sbind (ansi_key_char c) (\<lambda>k. sret (EKey k)))"

section \<open>Reading\<close>

text \<open>An escape before one of these keys means the ALT key.\<close>

definition fix_up :: "(Event, bool) result \<Rightarrow> InputReader \<Rightarrow> (Event, bool) result \<times> InputReader" where
  "fix_up e s = (case e of
      Ok (EKey k) \<Rightarrow>
        if saw_extra_escape s \<and> mods k = 0 \<and> key k \<in> set [Left, Right, Up, Down, PageUp, PageDown]
        then (Ok (EKey (k\<lparr>mods := mods k OR ALT\<rparr>)), s\<lparr>saw_extra_escape := False\<rparr>)
        else (e, s)
    | _ \<Rightarrow> (e, s))"

definition slice :: "bytes \<Rightarrow> nat \<Rightarrow> nat \<Rightarrow> (bytes, 'e) result" where
  "slice d i j = (if i \<le> j \<and> j \<le> length d then Ok (take (j - i) (drop i d)) else Panic)"

text \<open>
  One round of the inner loop of \<open>read\<close>: the events it pushes, or \<open>None\<close> when it rolls back and
  leaves the loop.
\<close>

definition read_event :: "InputReader \<Rightarrow> (EventInfo list option, nat) result \<times> InputReader" where
  "read_event s0 =
     (let start = ir_start s0;
          (e, s) = parse_event s0;
          (e, s) = fix_up e s;
          extra = (saw_extra_escape s \<and> e \<noteq> Err True);
          s = s\<lparr>saw_extra_escape := False\<rparr>;
          esc = (if extra then rbind (slice (ir_buf s) start (start + 1))
                   (\<lambda>d. Ok [event_info (EKey (plain Escape)) d]) else Ok []);
          start = (if extra then start + 1 else start);
          push = (\<lambda>v. rbind esc (\<lambda>esc. rbind (slice (ir_buf s) start (ir_start s))
                   (\<lambda>d. Ok (Some (esc @ [event_info v d])))))
      in case e of
          Ok v \<Rightarrow> (push v, s)
        | Err b \<Rightarrow> if b then (Ok None, s\<lparr>ir_start := start\<rparr>) else (push (EKey (plain Unknown)), s)
        | Panic \<Rightarrow> (Panic, s))"

partial_function (option) drain ::
  "EventInfo list \<Rightarrow> InputReader \<Rightarrow> ((unit, nat) result \<times> EventInfo list \<times> InputReader) option" where
  "drain out s = (case read_event s of
      (Ok (Some evs), s) \<Rightarrow> drain (out @ evs) s
    | (Ok None, s) \<Rightarrow> Some (Ok (), out, s)
    | (Err n, s) \<Rightarrow> Some (Err n, out, s)
    | (Panic, s) \<Rightarrow> Some (Panic, out, s))"

text \<open>
  What the calls of \<open>poll\<close> and \<open>read\<close> on the standard input give, in order: bytes that are ready (none
  when \<open>poll\<close> finds nothing, and at the end of the file), an interrupted call, or another error. After
  the list \<open>poll\<close> finds nothing.
\<close>

datatype sys_call = Ready bytes | Interrupted | Failed nat

fun read_bytes :: "nat \<Rightarrow> sys_call list \<Rightarrow> (bytes, nat) result \<times> sys_call list" where
  "read_bytes cap [] = (Ok [], [])"
| "read_bytes cap (Interrupted # cs) = read_bytes cap cs"
| "read_bytes cap (Failed n # cs) = (Err n, cs)"
| "read_bytes cap (Ready d # cs) = (Ok (take cap d), if length d \<le> cap then cs else Ready (drop cap d) # cs)"

definition compact :: "InputReader \<Rightarrow> InputReader" where
  "compact s = (if ir_start s * 2 > length (ir_buf s) then
     s\<lparr>ir_buf := take (ir_end s - ir_start s) (drop (ir_start s) (ir_buf s)) @ drop (ir_end s - ir_start s) (ir_buf s),
       ir_end := ir_end s - ir_start s, ir_start := 0\<rparr> else s)"

definition feed :: "bytes \<Rightarrow> InputReader \<Rightarrow> InputReader" where
  "feed d s = s\<lparr>ir_buf := take (ir_end s) (ir_buf s) @ d @ drop (ir_end s + length d) (ir_buf s),
     ir_end := ir_end s + length d\<rparr>"

partial_function (option) read_loop ::
  "sys_call list \<Rightarrow> nat \<Rightarrow> EventInfo list \<Rightarrow> InputReader \<Rightarrow>
   ((nat, nat) result \<times> sys_call list \<times> EventInfo list \<times> InputReader) option" where
  "read_loop cs n out s = (let s = compact s in
     if ir_end s < length (ir_buf s) then
       (case read_bytes (length (ir_buf s) - ir_end s) cs of
          (Ok d, cs) \<Rightarrow>
            if d = [] then Some (Ok n, cs, out, s)
            else (case drain out (feed d s) of
                None \<Rightarrow> None
              | Some (Ok _, out, s) \<Rightarrow> read_loop cs (n + length d) out s
              | Some (Err e, out, s) \<Rightarrow> Some (Err e, cs, out, s)
              | Some (Panic, out, s) \<Rightarrow> Some (Panic, cs, out, s))
        | (Err e, cs) \<Rightarrow> Some (Err e, cs, out, s)
        | (Panic, cs) \<Rightarrow> Some (Panic, cs, out, s))
     else Some (Panic, cs, out, s))"

definition read_input ::
  "sys_call list \<Rightarrow> EventInfo list \<Rightarrow> InputReader \<Rightarrow>
   ((nat, nat) result \<times> sys_call list \<times> EventInfo list \<times> InputReader) option" where
  "read_input cs out s = read_loop cs 0 out s"

section \<open>How far a parser goes\<close>

definition ir_ok :: "InputReader \<Rightarrow> bool" where
  "ir_ok s \<longleftrightarrow> length (ir_buf s) = 128 \<and> ir_start s \<le> ir_end s \<and> ir_end s \<le> 128"

definition same_buf :: "InputReader \<Rightarrow> InputReader \<Rightarrow> bool" where
  "same_buf s s' \<longleftrightarrow> ir_buf s' = ir_buf s \<and> ir_end s' = ir_end s"

text \<open>
  \<open>advances a b k p\<close>: \<open>p\<close> does not panic, stays inside the buffer, takes at most \<open>k\<close> bytes and, unless
  it fails for want of input, ends at least \<open>a\<close> bytes after the place \<open>b\<close> bytes before its start;
  when it fails for want of input, at most \<open>k\<close> bytes were left.
\<close>

definition advances :: "nat \<Rightarrow> nat \<Rightarrow> nat \<Rightarrow> 'a ev_parser \<Rightarrow> bool" where
  "advances a b k p \<longleftrightarrow> (\<forall>s r s'. ir_ok s \<longrightarrow> b \<le> ir_start s \<longrightarrow> p s = (r, s') \<longrightarrow>
     r \<noteq> Panic \<and> same_buf s s' \<and> ir_ok s' \<and> ir_start s' \<le> ir_start s + k \<and>
     (if r = Err True then ir_end s \<le> ir_start s + k else ir_start s + a \<le> ir_start s' + b))"

named_theorems advances_intros \<open>rules for \<open>advances\<close>\<close>

lemma advancesD:
  assumes "advances a b k p" "ir_ok s" "b \<le> ir_start s" "p s = (r, s')"
  shows "r \<noteq> Panic" "same_buf s s'" "ir_ok s'" "ir_start s' \<le> ir_start s + k"
    "r = Err True \<Longrightarrow> ir_end s \<le> ir_start s + k" "r \<noteq> Err True \<Longrightarrow> ir_start s + a \<le> ir_start s' + b"
proof -
  have "r \<noteq> Panic \<and> same_buf s s' \<and> ir_ok s' \<and> ir_start s' \<le> ir_start s + k \<and>
     (if r = Err True then ir_end s \<le> ir_start s + k else ir_start s + a \<le> ir_start s' + b)"
    using assms unfolding advances_def by blast
  then show "r \<noteq> Panic" "same_buf s s'" "ir_ok s'" "ir_start s' \<le> ir_start s + k"
    "r = Err True \<Longrightarrow> ir_end s \<le> ir_start s + k" "r \<noteq> Err True \<Longrightarrow> ir_start s + a \<le> ir_start s' + b"
    by simp_all
qed

lemma advances_mono:
  assumes "advances a b k p" "a' \<le> a" "b \<le> b'" "k \<le> k'"
  shows "advances a' b' k' p"
  unfolding advances_def
proof (intro allI impI)
  fix s r s' assume s: "ir_ok s" "b' \<le> ir_start s" "p s = (r, s')"
  with assms(3) have "b \<le> ir_start s" by simp
  note P = advancesD [OF assms(1) s(1) this s(3)]
  show "r \<noteq> Panic \<and> same_buf s s' \<and> ir_ok s' \<and> ir_start s' \<le> ir_start s + k' \<and>
     (if r = Err True then ir_end s \<le> ir_start s + k' else ir_start s + a' \<le> ir_start s' + b')"
    using P(1-4) P(5,6) assms(2-4) by (cases "r = Err True") simp_all
qed

lemma advances_bind:
  assumes "advances a 0 k p" "\<And>x. advances 0 b k' (q x)" "b \<le> a"
  shows "advances (a - b) 0 (k + k') (sbind p q)"
  unfolding advances_def
proof (intro allI impI)
  fix s r s' assume s: "ir_ok s" "0 \<le> ir_start s" "sbind p q s = (r, s')"
  obtain r1 s1 where p: "p s = (r1, s1)" by fastforce
  note P = advancesD [OF assms(1) s(1) s(2) p]
  show "r \<noteq> Panic \<and> same_buf s s' \<and> ir_ok s' \<and> ir_start s' \<le> ir_start s + (k + k') \<and>
     (if r = Err True then ir_end s \<le> ir_start s + (k + k') else ir_start s + (a - b) \<le> ir_start s' + 0)"
  proof (cases r1)
    case (Ok x)
    with s(3) p have q: "q x s1 = (r, s')" by simp
    have a: "ir_start s + a \<le> ir_start s1" using P(6) Ok by simp
    with assms(3) have "b \<le> ir_start s1" by simp
    note Q = advancesD [OF assms(2) P(3) this q]
    have "ir_end s1 = ir_end s" "same_buf s s'" using P(2) Q(2) by (simp_all add: same_buf_def)
    with P(4) Q(1,3,4) Q(5,6) a assms(3) show ?thesis by (cases "r = Err True") simp_all
  next
    case (Err e)
    with s(3) p have "r = Err e" "s' = s1" by simp_all
    with P(1-4) P(5,6) Err show ?thesis by (cases e) simp_all
  qed (use P in auto)
qed

lemma advances_sret [advances_intros]: "advances 0 b k (sret x)"
  by (auto simp: advances_def sret_def same_buf_def)

lemma advances_sthrow [advances_intros]: "advances 0 b k (sthrow False)"
  by (auto simp: advances_def sthrow_def same_buf_def)

lemma advances_slift: "r \<noteq> Panic \<Longrightarrow> r \<noteq> Err True \<Longrightarrow> advances 0 b k (slift r)"
  by (auto simp: advances_def slift_def same_buf_def)

lemma advances_if [advances_intros]:
  "(c \<Longrightarrow> advances a b k p) \<Longrightarrow> (\<not> c \<Longrightarrow> advances a b k q) \<Longrightarrow> advances a b k (if c then p else q)"
  by simp

lemma advances_eat: "advances 1 0 1 ir_eat"
  unfolding advances_def ir_eat_def
  by (auto simp: ir_peek_def advance_def sret_def same_buf_def ir_ok_def)

text \<open>One byte, then \<open>q\<close>, which may step back over it.\<close>

lemma advances_eat_bind:
  assumes "\<And>c. advances 0 b k (q c)" "b \<le> 1" shows "advances (1 - b) 0 (k + 1) (sbind ir_eat q)"
  using advances_bind [OF advances_eat assms] by (simp add: add.commute)

lemma advances_eat_then [advances_intros]:
  assumes "\<And>c. advances 0 0 (k - 1) (q c)" "0 < k" shows "advances 0 0 k (sbind ir_eat q)"
  by (rule advances_mono [OF advances_eat_bind [OF assms(1)]]) (use assms(2) in simp_all)

text \<open>A byte that \<open>peek\<close> has shown may be skipped.\<close>

lemma advances_peek_if:
  assumes "advances 0 0 (k - 1) q" "advances 0 0 k (sbind ir_peek r)" "0 < k"
  shows "advances 0 0 k (sbind ir_peek (\<lambda>p. if c p then sbind advance (\<lambda>_. q) else r p))"
  unfolding advances_def
proof (intro allI impI)
  fix s x s' assume s: "ir_ok s" "0 \<le> ir_start s"
    and e: "sbind ir_peek (\<lambda>p. if c p then sbind advance (\<lambda>_. q) else r p) s = (x, s')"
  let ?s = "s\<lparr>ir_start := ir_start s + 1\<rparr>"
  show "x \<noteq> Panic \<and> same_buf s s' \<and> ir_ok s' \<and> ir_start s' \<le> ir_start s + k \<and>
     (if x = Err True then ir_end s \<le> ir_start s + k else ir_start s + 0 \<le> ir_start s' + 0)"
  proof (cases "ir_start s < ir_end s \<and> c (ir_buf s ! ir_start s)")
    case True
    with s have q: "q ?s = (x, s')" and ok: "ir_ok ?s"
      using e by (auto simp: ir_peek_def ir_ok_def advance_def)
    note Q = advancesD [OF assms(1) ok _ q]
    show ?thesis using Q(1-4) Q(5,6) assms(3) by (cases "x = Err True") (simp_all add: same_buf_def)
  next
    case False
    with s e have q: "sbind ir_peek r s = (x, s')" by (auto simp: ir_peek_def ir_ok_def split: if_splits)
    note Q = advancesD [OF assms(2) s q]
    show ?thesis using Q(1-4) Q(5,6) by (cases "x = Err True") simp_all
  qed
qed

lemma advances_peek_bind:
  assumes "\<And>c. advances 0 0 k (q c)" shows "advances 0 0 k (sbind ir_peek q)"
proof -
  have "advances 0 0 0 ir_peek" unfolding advances_def ir_peek_def by (auto simp: same_buf_def ir_ok_def)
  from advances_bind [OF this assms] show ?thesis by simp
qed


text \<open>
  A number stops at its tenth digit at the latest: two leading zeros at most, and then the value
  has reached the limit.
\<close>

lemma number_loop_outcome:
  assumes "ir_ok s" "start \<le> ir_start s" "ir_start s \<le> start + 9"
    "n = 0 \<and> ir_start s \<le> start + 2 \<or> 10 ^ (ir_start s - start - 2) \<le> n"
    "number_loop start n s = (r, s')"
  shows "r \<noteq> Panic \<and> same_buf s s' \<and> ir_ok s' \<and> ir_start s \<le> ir_start s' \<and>
     ir_start s' \<le> start + 10 \<and> (r = Err True \<longrightarrow> ir_end s \<le> start + 10)"
  using assms
proof (induction start n s rule: number_loop.induct)
  case (1 start n s)
  show ?case
  proof (cases "ir_start s = ir_end s")
    case True
    with "1.prems" have "r = Err True" "s' = s" by (simp_all add: number_loop.simps [of _ _ s] ir_peek_def)
    with "1.prems" True show ?thesis by (simp add: same_buf_def)
  next
    case False
    define c where "c = ir_buf s ! ir_start s"
    have peek: "ir_peek s = (Ok c, s)" using False "1.prems"(1) by (simp add: ir_peek_def c_def ir_ok_def)
    let ?s = "s\<lparr>ir_start := ir_start s + 1\<rparr>"
    have ok: "ir_ok ?s" using "1.prems"(1) False by (simp add: ir_ok_def)
    show ?thesis
    proof (cases "byte CHR ''0'' \<le> c \<and> c \<le> byte CHR ''9''")
      case digit: True
      show ?thesis
      proof (cases "n > 1000000 \<or> (n = 0 \<and> ir_start ?s > start + 2)")
        case True
        with "1.prems"(5) digit have "r = Err False" "s' = ?s"
          by (simp_all add: number_loop.simps [of _ _ s] peek Let_def)
        with ok "1.prems"(2,3) show ?thesis by (simp add: same_buf_def)
      next
        case more: False
        have loop: "number_loop start (n * 10 + unat (c - byte CHR ''0'')) ?s = (r, s')"
          using "1.prems"(5) digit more
          by (auto simp: number_loop.simps [of _ _ s] peek Let_def split: if_splits)
        define d where "d = ir_start s - start"
        have s: "ir_start s = start + d" using "1.prems"(2) by (simp add: d_def)
        have n: "n = 0 \<and> d \<le> 1 \<or> 0 < n \<and> 10 ^ (d - 2) \<le> n"
        proof (cases "n = 0")
          case False
          with "1.prems"(4) s show ?thesis by auto
        qed (use more s in auto)
        have d8: "d \<le> 8"
        proof (rule ccontr)
          assume d: "\<not> d \<le> 8"
          with n have "10 ^ (d - 2) \<le> n" by auto
          moreover have "(10::nat) ^ 7 \<le> 10 ^ (d - 2)" using d by (intro power_increasing) auto
          ultimately have "10 ^ 7 \<le> n" by (rule order_trans [rotated])
          with more show False by simp
        qed
        have "n * 10 + unat (c - byte CHR ''0'') = 0 \<and> Suc d \<le> 2 \<or>
            10 ^ (Suc d - 2) \<le> n * 10 + unat (c - byte CHR ''0'')"
        proof (cases "d \<le> 1")
          case True
          then have "(10::nat) ^ (Suc d - 2) = 1" by (cases d) simp_all
          then show ?thesis using True by (simp del: One_nat_def) linarith
        next
          case False
          then have "Suc d - 2 = Suc (d - 2)" by simp
          then have "(10::nat) ^ (Suc d - 2) = 10 * 10 ^ (d - 2)" by simp
          with n False show ?thesis by auto
        qed
        then have "r \<noteq> Panic \<and> same_buf ?s s' \<and> ir_ok s' \<and> ir_start ?s \<le> ir_start s' \<and>
            ir_start s' \<le> start + 10 \<and> (r = Err True \<longrightarrow> ir_end ?s \<le> start + 10)"
          using "1.IH" [OF peek [symmetric] refl digit refl more ok _ _ _ loop] s d8 by simp
        then show ?thesis by (simp add: same_buf_def)
      qed
    next
      case other: False
      with "1.prems"(5) have "r = Ok n" "s' = s"
        by (auto simp: number_loop.simps [of _ _ s] peek)
      with "1.prems" show ?thesis by (simp add: same_buf_def)
    qed
  qed
qed

lemma advances_number: "advances 0 0 10 parse_ansi_number"
  unfolding advances_def parse_ansi_number_def
proof (intro allI impI)
  fix s r s' assume "ir_ok s" "number_loop (ir_start s) 0 s = (r, s')"
  from number_loop_outcome [OF this(1) _ _ _ this(2)]
  show "r \<noteq> Panic \<and> same_buf s s' \<and> ir_ok s' \<and> ir_start s' \<le> ir_start s + 10 \<and>
     (if r = Err True then ir_end s \<le> ir_start s + 10 else ir_start s + 0 \<le> ir_start s' + 0)"
    by simp
qed

lemma advances_number_then [advances_intros]:
  assumes "\<And>c. advances 0 0 (k - 10) (q c)" "10 \<le> k" shows "advances 0 0 k (sbind parse_ansi_number q)"
  by (rule advances_mono [OF advances_bind [OF advances_number assms(1)]]) (use assms(2) in simp_all)

lemma advances_expect_then [advances_intros]:
  assumes "advances 0 0 (k - 1) q" "0 < k" shows "advances 0 0 k (sbind (expect_byte b) (\<lambda>_. q))"
proof -
  have "advances 0 0 1 (expect_byte b)" unfolding expect_byte_def
    by (intro advances_intros) simp_all
  from advances_bind [OF this assms(1)] have "advances 0 0 (1 + (k - 1)) (sbind (expect_byte b) (\<lambda>_. q))" by simp
  then show ?thesis by (rule advances_mono) (use assms(2) in simp_all)
qed


subsection \<open>The parsers\<close>

text \<open>A valid string of the length that its first byte announces is one character.\<close>

lemma only_char_ok:
  assumes "is_utf8 t" "utf8_len c = Some len" "c > 127" "t \<noteq> []" "hd t = c" "length t = len"
  shows "only_char t = Ok (decode_char t)"
proof -
  obtain ok n where st: "utf8_step t = (ok, n)" by (cases "utf8_step t")
  with assms(1,4) have ok: "ok" by (subst (asm) is_utf8.simps) (simp split: if_splits)
  have c: "get0 t 0 = c" using assms(4,5) by (cases t) (simp_all add: get0_def)
  have "n = len" using st ok c assms(2,3)
    unfolding utf8_step_def Let_def utf8_len_def by (auto split: if_splits simp: word_le_nat_alt word_less_nat_alt)
  with st assms(4,6) show ?thesis by (simp add: only_char_def)
qed

lemma advances_wide_char:
  assumes "c > 127" "ir_ok s" "1 \<le> ir_start s" "ir_buf s ! (ir_start s - 1) = c" "ansi_key_char c s = (r, s')"
  shows "r \<noteq> Panic \<and> same_buf s s' \<and> ir_ok s' \<and> ir_start s \<le> ir_start s' \<and> ir_start s' \<le> ir_start s + 3 \<and>
     (r = Err True \<longrightarrow> ir_end s \<le> ir_start s + 3)"
proof (cases "utf8_len c")
  case None
  with assms have "r = Err False" "s' = s"
    by (auto simp: ansi_key_char_def sthrow_def word_less_nat_alt word_le_nat_alt split: if_splits)
  with assms show ?thesis by (simp add: same_buf_def)
next
  case (Some len)
  let ?e = "ir_start s - 1 + len"
  let ?t = "take len (drop (ir_start s - 1) (ir_buf s))"
  have len: "1 \<le> len" "len \<le> 4" using Some by (auto simp: utf8_len_def split: if_splits)
  have run: "(r, s') = (if ?e > ir_end s then (Err True, s)
      else if is_utf8 ?t then (rbind (only_char ?t) (\<lambda>ch. Ok (plain (KeyChar ch))), s\<lparr>ir_start := ?e\<rparr>)
      else (Err False, s\<lparr>ir_start := ?e\<rparr>))"
    using assms(1,2,3,5) Some
    by (auto simp: ansi_key_char_def ir_ok_def Let_def word_less_nat_alt word_le_nat_alt split: if_splits)
  show ?thesis
  proof (cases "?e > ir_end s")
    case True
    with run have "r = Err True" "s' = s" by simp_all
    with True len assms(2,3) show ?thesis by (simp add: same_buf_def)
  next
    case False
    then have t: "?t \<noteq> []" "hd ?t = c" "length ?t = len"
      using assms(2-4) len by (auto simp: ir_ok_def hd_drop_conv_nth)
    have "r \<noteq> Panic" "r \<noteq> Err True"
      using run False only_char_ok [OF _ Some assms(1) t] by (auto split: if_splits)
    moreover have "s' = s\<lparr>ir_start := ?e\<rparr>" using run False by (auto split: if_splits)
    ultimately show ?thesis using False len assms(2,3) by (auto simp: same_buf_def ir_ok_def)
  qed
qed

lemma ex_sret_if: "(\<exists>k. p = sret k) \<Longrightarrow> (\<not> c \<Longrightarrow> \<exists>k. q = sret k) \<Longrightarrow> \<exists>k. (if c then p else q) = sret k"
  by simp

lemma ansi_key_char_ascii: "c \<le> 127 \<Longrightarrow> \<exists>k. ansi_key_char c = sret k"
  unfolding ansi_key_char_def by (intro ex_sret_if) auto

text \<open>
  \<open>takes b c k p\<close>: what \<open>p\<close> does when the byte before its start is \<open>c\<close>, which it may look at again, and
  for \<open>b = 1\<close> also give back.
\<close>

definition takes :: "nat \<Rightarrow> u8 \<Rightarrow> nat \<Rightarrow> 'a ev_parser \<Rightarrow> bool" where
  "takes b c k p \<longleftrightarrow> (\<forall>s r s'. ir_ok s \<longrightarrow> 1 \<le> ir_start s \<longrightarrow> ir_buf s ! (ir_start s - 1) = c \<longrightarrow> p s = (r, s') \<longrightarrow>
     r \<noteq> Panic \<and> same_buf s s' \<and> ir_ok s' \<and> ir_start s' \<le> ir_start s + k \<and>
     (if r = Err True then ir_end s \<le> ir_start s + k else ir_start s \<le> ir_start s' + b))"

lemma takesI: "advances 0 b k p \<Longrightarrow> b \<le> 1 \<Longrightarrow> takes b c k p"
  unfolding takes_def
proof (intro allI impI)
  fix s r s' assume p: "advances 0 b k p" "b \<le> 1" and s: "ir_ok s" "1 \<le> ir_start s" "p s = (r, s')"
  then have "b \<le> ir_start s" by simp
  note P = advancesD [OF p(1) s(1) this s(3)]
  show "r \<noteq> Panic \<and> same_buf s s' \<and> ir_ok s' \<and> ir_start s' \<le> ir_start s + k \<and>
     (if r = Err True then ir_end s \<le> ir_start s + k else ir_start s \<le> ir_start s' + b)"
    using P(1-4) P(5,6) by (cases "r = Err True") simp_all
qed

lemma takes_mono:
  assumes "takes b c k p" "k \<le> k'" shows "takes b c k' p"
  unfolding takes_def
proof (intro allI impI)
  fix s r s' assume "ir_ok s" "1 \<le> ir_start s" "ir_buf s ! (ir_start s - 1) = c" "p s = (r, s')"
  with assms(1) have "r \<noteq> Panic \<and> same_buf s s' \<and> ir_ok s' \<and> ir_start s' \<le> ir_start s + k \<and>
     (if r = Err True then ir_end s \<le> ir_start s + k else ir_start s \<le> ir_start s' + b)"
    unfolding takes_def by blast
  with assms(2) show "r \<noteq> Panic \<and> same_buf s s' \<and> ir_ok s' \<and> ir_start s' \<le> ir_start s + k' \<and>
     (if r = Err True then ir_end s \<le> ir_start s + k' else ir_start s \<le> ir_start s' + b)"
    by (cases "r = Err True") simp_all
qed

lemma takes_if: "(d \<Longrightarrow> takes b c k p) \<Longrightarrow> (\<not> d \<Longrightarrow> takes b c k q) \<Longrightarrow> takes b c k (if d then p else q)"
  by simp

lemma advances_test:
  "advances a b k p \<Longrightarrow> advances a b k q \<Longrightarrow> advances a b k (\<lambda>s. if d s then p s else q s)"
  unfolding advances_def by (intro allI impI) (metis (full_types))

lemma takes_key_char:
  assumes "3 \<le> k" shows "takes b c k (sbind (ansi_key_char c) (\<lambda>x. sret (f x)))"
  unfolding takes_def
proof (intro allI impI)
  fix s r s' assume s: "ir_ok s" "1 \<le> ir_start s" "ir_buf s ! (ir_start s - 1) = c"
    and e: "sbind (ansi_key_char c) (\<lambda>x. sret (f x)) s = (r, s')"
  show "r \<noteq> Panic \<and> same_buf s s' \<and> ir_ok s' \<and> ir_start s' \<le> ir_start s + k \<and>
     (if r = Err True then ir_end s \<le> ir_start s + k else ir_start s \<le> ir_start s' + b)"
  proof (cases "c \<le> 127")
    case True
    then obtain x where "ansi_key_char c = sret x" using ansi_key_char_ascii by blast
    with e have "r = Ok (f x)" "s' = s" by (simp_all add: sret_def)
    with s show ?thesis by (simp add: same_buf_def)
  next
    case False
    obtain r1 s1 where k: "ansi_key_char c s = (r1, s1)" by fastforce
    have "r1 \<noteq> Panic \<and> same_buf s s1 \<and> ir_ok s1 \<and> ir_start s \<le> ir_start s1 \<and> ir_start s1 \<le> ir_start s + 3 \<and>
        (r1 = Err True \<longrightarrow> ir_end s \<le> ir_start s + 3)"
      using advances_wide_char [OF _ s k] False by simp
    with e k assms show ?thesis by (cases r1) (auto simp: sret_def)
  qed
qed

lemma advances_eat_takes:
  assumes "\<And>c. takes b c k (q c)" "b \<le> 1" shows "advances (1 - b) 0 (k + 1) (sbind ir_eat q)"
  unfolding advances_def
proof (intro allI impI)
  fix s r s' assume s: "ir_ok s" "0 \<le> ir_start s" "sbind ir_eat q s = (r, s')"
  let ?s = "s\<lparr>ir_start := ir_start s + 1\<rparr>"
  show "r \<noteq> Panic \<and> same_buf s s' \<and> ir_ok s' \<and> ir_start s' \<le> ir_start s + (k + 1) \<and>
     (if r = Err True then ir_end s \<le> ir_start s + (k + 1) else ir_start s + (1 - b) \<le> ir_start s' + 0)"
  proof (cases "ir_start s = ir_end s")
    case True
    with s have "r = Err True" "s' = s" by (simp_all add: ir_eat_def ir_peek_def)
    with s True show ?thesis by (simp add: same_buf_def)
  next
    case False
    let ?c = "ir_buf s ! ir_start s"
    have ok: "ir_ok ?s" and q: "q ?c ?s = (r, s')"
      using s False by (auto simp: ir_eat_def ir_peek_def advance_def sret_def ir_ok_def)
    have "1 \<le> ir_start ?s" "ir_buf ?s ! (ir_start ?s - 1) = ?c" by simp_all
    then have "r \<noteq> Panic \<and> same_buf ?s s' \<and> ir_ok s' \<and> ir_start s' \<le> ir_start ?s + k \<and>
        (if r = Err True then ir_end ?s \<le> ir_start ?s + k else ir_start ?s \<le> ir_start s' + b)"
      using assms(1) [of ?c] ok q unfolding takes_def by blast
    then show ?thesis using assms(2) by (cases "r = Err True") (auto simp: same_buf_def)
  qed
qed

lemma advances_mouse: "advances 0 0 33 parse_mouse"
  unfolding parse_mouse_def
  by (rule advances_intros advances_slift | simp add: mouse_event_def Let_def)+


lemma ansi_modifier_fails: "ansi_modifier n \<noteq> Panic \<and> ansi_modifier n \<noteq> Err True"
  by (simp add: ansi_modifier_def Let_def)

lemma ansi_key_fails:
  "ansi_key_vt n \<noteq> Panic \<and> ansi_key_vt n \<noteq> Err True" "ansi_key_xterm c \<noteq> Panic \<and> ansi_key_xterm c \<noteq> Err True"
  by (simp_all add: ansi_key_vt_def ansi_key_xterm_def)

lemma key_event_fails:
  "r \<noteq> Panic \<and> r \<noteq> Err True \<Longrightarrow> key_event r m \<noteq> Panic \<and> key_event r m \<noteq> Err True"
  by (cases r) (simp_all add: key_event_def)

lemma advances_slift_then [advances_intros]:
  assumes "\<And>x. advances 0 0 k (q x)" "r \<noteq> Panic \<and> r \<noteq> Err True" shows "advances 0 0 k (sbind (slift r) q)"
proof -
  have "advances 0 0 0 (slift r)" using assms(2) by (intro advances_slift) simp_all
  from advances_bind [OF this assms(1)] show ?thesis by simp
qed

lemma advances_bind0:
  "advances 0 0 k p \<Longrightarrow> (\<And>x. advances 0 0 0 (q x)) \<Longrightarrow> advances 0 0 k (sbind p q)"
  using advances_bind [of 0 k p 0 0 q] by simp

lemma advances_csi_key: "advances 0 0 22 parse_csi_key"
proof -
  have m: "advances 0 0 11 (if c = byte CHR '';'' then
              sbind parse_ansi_number (\<lambda>k. sbind (slift (ansi_modifier k)) (\<lambda>m. sbind ir_eat (\<lambda>c. sret (m, c))))
            else sret (0, c))" for c
    by (intro advances_intros ansi_modifier_fails) simp_all
  have e: "advances 0 0 0 (slift (key_event (if c = byte CHR ''~'' then ansi_key_vt n else ansi_key_xterm c) m))"
    for n c m
    by (rule advances_slift) (simp_all add: key_event_fails ansi_key_fails)
  have "advances 0 0 11 (sbind (if c = byte CHR '';'' then
              sbind parse_ansi_number (\<lambda>k. sbind (slift (ansi_modifier k)) (\<lambda>m. sbind ir_eat (\<lambda>c. sret (m, c))))
            else sret (0, c))
       (\<lambda>(m, c). slift (key_event (if c = byte CHR ''~'' then ansi_key_vt n else ansi_key_xterm c) m)))" for n c
    by (rule advances_bind0 [OF m]) (unfold case_prod_beta, rule e)
  then show ?thesis unfolding parse_csi_key_def by (intro advances_intros) simp_all
qed

lemma advances_csi: "advances 0 0 34 parse_csi"
  unfolding parse_csi_def
proof (intro advances_peek_if advances_sret)
  show "advances 0 0 (34 - 1) parse_mouse" using advances_mouse by simp
  show "advances 0 0 34 (sbind ir_peek (\<lambda>p. parse_csi_key))"
    by (rule advances_peek_bind, rule advances_mono [OF advances_csi_key]) simp_all
qed simp_all

lemma advances_ss3: "advances 0 0 1 parse_ss3"
  unfolding parse_ss3_def by (intro advances_intros advances_slift) simp_all

lemma advances_uneat: "advances 0 1 k uneat_escape"
  by (auto simp: advances_def uneat_escape_def same_buf_def ir_ok_def)

lemma takes_after_escape: "takes 1 c 34 (after_escape c)"
  unfolding after_escape_def
proof (intro takes_if)
  show "takes 1 c 34 uneat_escape" by (intro takesI advances_uneat) simp
  show "takes 1 c 34 (\<lambda>s. if at_end s then (Ok (EKey (alt (KeyChar 79))), s) else parse_ss3 s)"
    by (rule takesI, rule advances_test [OF advances_sret [unfolded sret_def]])
      (rule advances_mono [OF advances_ss3], simp_all)
  show "takes 1 c 34 (\<lambda>s. if at_end s then (Ok (EKey (alt (KeyChar 91))), s) else parse_csi s)"
    by (rule takesI, rule advances_test [OF advances_sret [unfolded sret_def]])
      (rule advances_mono [OF advances_csi], simp_all)
  show "takes 1 c 34 (sbind (ansi_key_char c) (\<lambda>k. sret (EKey (k\<lparr>mods := mods k OR ALT\<rparr>))))"
    by (rule takes_key_char) simp
qed

lemma advances_saw: "advances a b k p \<Longrightarrow> advances a b k (\<lambda>s. p (s\<lparr>saw_extra_escape := True\<rparr>))"
  unfolding advances_def
proof (intro allI impI)
  fix s r s'
  assume p: "\<forall>s r s'. ir_ok s \<longrightarrow> b \<le> ir_start s \<longrightarrow> p s = (r, s') \<longrightarrow>
     r \<noteq> Panic \<and> same_buf s s' \<and> ir_ok s' \<and> ir_start s' \<le> ir_start s + k \<and>
     (if r = Err True then ir_end s \<le> ir_start s + k else ir_start s + a \<le> ir_start s' + b)"
    and s: "ir_ok s" "b \<le> ir_start s" "p (s\<lparr>saw_extra_escape := True\<rparr>) = (r, s')"
  have "ir_ok (s\<lparr>saw_extra_escape := True\<rparr>)" using s(1) by (simp add: ir_ok_def)
  from p [rule_format, OF this _ s(3)] s(2)
  have "r \<noteq> Panic \<and> same_buf s s' \<and> ir_ok s' \<and> ir_start s' \<le> ir_start s + k"
    "if r = Err True then ir_end s \<le> ir_start s + k else ir_start s + a \<le> ir_start s' + b"
    by (auto simp: same_buf_def)
  then show "r \<noteq> Panic \<and> same_buf s s' \<and> ir_ok s' \<and> ir_start s' \<le> ir_start s + k \<and>
     (if r = Err True then ir_end s \<le> ir_start s + k else ir_start s + a \<le> ir_start s' + b)"
    by blast
qed

lemma advances_escape: "advances 0 0 36 parse_escape"
proof -
  have again: "advances 0 0 35 (sbind ir_eat after_escape)"
    using advances_eat_takes [OF takes_after_escape] by simp
  have second: "takes 1 c 35 (if c = 0x1B then
         (\<lambda>s. if at_end s then uneat_escape s
              else sbind ir_eat after_escape (s\<lparr>saw_extra_escape := True\<rparr>))
       else after_escape c)" for c
  proof (rule takes_if)
    show "takes 1 c 35 (\<lambda>s. if at_end s then uneat_escape s
              else sbind ir_eat after_escape (s\<lparr>saw_extra_escape := True\<rparr>))"
      by (rule takesI, rule advances_test [OF advances_uneat])
        (rule advances_mono [OF advances_saw [OF again]], simp_all)
    show "takes 1 c 35 (after_escape c)" by (rule takes_mono [OF takes_after_escape]) simp
  qed
  have "advances 0 0 36 (sbind ir_eat (\<lambda>c. if c = 0x1B then
         (\<lambda>s. if at_end s then uneat_escape s
              else sbind ir_eat after_escape (s\<lparr>saw_extra_escape := True\<rparr>))
       else after_escape c))" using advances_eat_takes [OF second] by simp
  then show ?thesis
    unfolding parse_escape_def by (intro advances_test [OF advances_sret [unfolded sret_def]])
qed

lemma advances_event: "advances 1 0 37 parse_event"
proof -
  have "takes 0 c 36 (if c = 0x1B then parse_escape else sbind (ansi_key_char c) (\<lambda>k. sret (EKey k)))" for c
    by (intro takes_if takesI advances_escape takes_key_char) simp_all
  from advances_eat_takes [OF this] show ?thesis unfolding parse_event_def by simp
qed


section \<open>Every byte is reported\<close>

definition pending :: "InputReader \<Rightarrow> bytes" where
  "pending s = take (ir_end s - ir_start s) (drop (ir_start s) (ir_buf s))"

definition reported :: "EventInfo list \<Rightarrow> bytes" where
  "reported out = concat (map (\<lambda>e. small_array_slice (ev_bytes e)) out)"

fun input :: "sys_call list \<Rightarrow> bytes" where
  "input [] = []"
| "input (Ready d # cs) = d @ input cs"
| "input (_ # cs) = input cs"

lemma small_array_new_slice [simp]: "small_array_slice (small_array_new d) = d"
  by (simp add: small_array_new_def)

lemma reported_simps [simp]:
  "reported [] = []" "reported (a @ b) = reported a @ reported b" "reported [event_info e d] = d"
  by (simp_all add: reported_def event_info_def)

text \<open>Between two rounds.\<close>

definition reader_inv :: "InputReader \<Rightarrow> bool" where
  "reader_inv s \<longleftrightarrow> ir_ok s \<and> \<not> saw_extra_escape s"

lemma pending_split:
  assumes "same_buf s s'" "ir_start s \<le> i" "i \<le> ir_end s" "ir_start s' = i" "ir_ok s"
  shows "pending s = take (i - ir_start s) (drop (ir_start s) (ir_buf s)) @ pending s'"
proof -
  have "drop i (ir_buf s) = drop (i - ir_start s) (drop (ir_start s) (ir_buf s))" using assms(2) by simp
  moreover have "ir_end s - ir_start s = (i - ir_start s) + (ir_end s - i)" using assms(2,3) by simp
  ultimately show ?thesis using assms(1,4) by (simp add: pending_def same_buf_def take_add)
qed

lemma fix_up_cases:
  assumes "fix_up e s = (e', s')"
  shows "ir_start s' = ir_start s" "ir_end s' = ir_end s" "ir_buf s' = ir_buf s"
    "e' = Panic \<longleftrightarrow> e = Panic" "e' = Err b \<longleftrightarrow> e = Err b"
  using assms by (auto simp: fix_up_def split: result.splits Event.splits if_splits)

lemma read_event_push:
  assumes "parse_event s = (e, s1)" "fix_up e s1 = (e2, s2)"
    "e2 = Ok v \<or> e2 = Err False \<and> v = EKey (plain Unknown)"
  shows "read_event s =
    (if saw_extra_escape s2
     then rbind (slice (ir_buf s2) (ir_start s) (ir_start s + 1)) (\<lambda>d.
       rbind (slice (ir_buf s2) (ir_start s + 1) (ir_start s2)) (\<lambda>d'.
       Ok (Some [event_info (EKey (plain Escape)) d, event_info v d'])))
     else rbind (slice (ir_buf s2) (ir_start s) (ir_start s2)) (\<lambda>d. Ok (Some [event_info v d])),
     s2\<lparr>saw_extra_escape := False\<rparr>)"
  using assms(3) by (auto simp: read_event_def Let_def assms(1,2) slice_def split: if_splits)

lemma read_event_outcome:
  assumes "reader_inv s" "read_event s = (r, s')"
  shows "r = Ok None \<and> s' = s \<and> length (pending s) \<le> 37 \<or>
    (\<exists>evs. r = Ok (Some evs) \<and> reader_inv s' \<and> ir_start s < ir_start s' \<and> ir_end s' = ir_end s \<and>
       pending s = reported evs @ pending s')"
proof -
  obtain e s1 where p: "parse_event s = (e, s1)" by fastforce
  obtain e2 s2 where f: "fix_up e s1 = (e2, s2)" by fastforce
  have ok: "ir_ok s" and saw: "\<not> saw_extra_escape s" using assms(1) by (simp_all add: reader_inv_def)
  note P = advancesD [OF advances_event ok _ p, simplified]
  note F = fix_up_cases [OF f]
  let ?s = "s2\<lparr>saw_extra_escape := False\<rparr>"
  show ?thesis
  proof (cases "e = Err True")
    case True
    with F have "e2 = Err True" by simp
    with p f assms(2) have "r = Ok None" "s' = ?s\<lparr>ir_start := ir_start s\<rparr>"
      by (simp_all add: read_event_def Let_def)
    moreover from this have "s' = s" using P(2) F saw by (simp add: same_buf_def)
    moreover have "length (pending s) \<le> 37" using P(5) True by (simp add: pending_def)
    ultimately show ?thesis by simp
  next
    case False
    define v where "v = (case e2 of Ok v \<Rightarrow> v | _ \<Rightarrow> EKey (plain Unknown))"
    define x where "x = saw_extra_escape s2"
    have e2: "e2 \<noteq> Panic" "e2 \<noteq> Err True" using P(1) F False by auto
    have adv: "ir_start s < ir_start s2" "ir_start s2 \<le> ir_end s" "ir_end s \<le> 128" "length (ir_buf s) = 128"
      using P(2,3) P(6) [OF False] F ok by (simp_all add: ir_ok_def same_buf_def)
    have buf: "ir_buf s2 = ir_buf s" "ir_end s2 = ir_end s" using P(2) F by (simp_all add: same_buf_def)
    let ?sl = "\<lambda>i j. take (j - i) (drop i (ir_buf s))"
    let ?evs = "if x then [event_info (EKey (plain Escape)) (?sl (ir_start s) (ir_start s + 1)),
        event_info v (?sl (ir_start s + 1) (ir_start s2))] else [event_info v (?sl (ir_start s) (ir_start s2))]"
    have sl: "slice (ir_buf s) i j = Ok (?sl i j)" if "i \<le> j" "j \<le> 128" for i j
      using that adv by (simp add: slice_def)
    have "e2 = Ok v \<or> e2 = Err False \<and> v = EKey (plain Unknown)" using e2 by (cases e2) (simp_all add: v_def)
    note push = read_event_push [OF p f this]
    have "read_event s = (Ok (Some ?evs), ?s)"
    proof (cases x)
      case True
      then show ?thesis using adv by (simp add: push x_def buf sl)
    next
      case False
      then show ?thesis using adv by (simp add: push x_def buf sl)
    qed
    with assms(2) have r: "r = Ok (Some ?evs)" "s' = ?s" by simp_all
    have "reported ?evs = ?sl (ir_start s) (ir_start s2)"
    proof (cases x)
      case True
      have "ir_start s2 - ir_start s = 1 + (ir_start s2 - (ir_start s + 1))" using adv by simp
      then have "?sl (ir_start s) (ir_start s2) =
          ?sl (ir_start s) (ir_start s + 1) @ ?sl (ir_start s + 1) (ir_start s2)"
        by (simp only: take_add) simp
      with True show ?thesis by (simp add: reported_def event_info_def)
    qed simp
    moreover have "pending s = ?sl (ir_start s) (ir_start s2) @ pending ?s"
      by (rule pending_split) (use buf adv ok in \<open>simp_all add: same_buf_def\<close>)
    moreover have "reader_inv ?s" using buf adv by (simp add: reader_inv_def ir_ok_def)
    ultimately show ?thesis using r adv buf by auto
  qed
qed


lemma drain_outcome:
  assumes "reader_inv s"
  shows "\<exists>out' s'. drain out s = Some (Ok (), out', s') \<and> reader_inv s' \<and> length (pending s') \<le> 37 \<and>
    reported out' @ pending s' = reported out @ pending s"
  using assms
proof (induction "ir_end s - ir_start s" arbitrary: s out rule: less_induct)
  case less
  obtain r s1 where e: "read_event s = (r, s1)" by fastforce
  consider (stop) "r = Ok None" "s1 = s" "length (pending s) \<le> 37"
    | (go) evs where "r = Ok (Some evs)" "reader_inv s1" "ir_start s < ir_start s1" "ir_end s1 = ir_end s"
      "pending s = reported evs @ pending s1"
    using read_event_outcome [OF less.prems e] by blast
  then show ?case
  proof cases
    case stop
    then show ?thesis using e less.prems by (simp add: drain.simps)
  next
    case go
    have "ir_start s1 \<le> ir_end s1" using go(2) by (simp add: reader_inv_def ir_ok_def)
    with go(3,4) have "ir_end s1 - ir_start s1 < ir_end s - ir_start s" by simp
    from less.hyps [OF this go(2), of "out @ evs"] obtain out' s' where
      "drain (out @ evs) s1 = Some (Ok (), out', s')" "reader_inv s'" "length (pending s') \<le> 37"
      "reported out' @ pending s' = reported (out @ evs) @ pending s1" by blast
    then show ?thesis using e go(1,5) by (subst drain.simps) simp
  qed
qed

lemma pending_length: "ir_ok s \<Longrightarrow> length (pending s) = ir_end s - ir_start s"
  by (auto simp: pending_def ir_ok_def)

text \<open>After \<open>compact\<close> there is room in the buffer.\<close>

lemma compact_outcome:
  assumes "reader_inv s" "length (pending s) \<le> 37"
  shows "reader_inv (compact s)" "pending (compact s) = pending s" "ir_end (compact s) < 128"
proof -
  have s: "ir_start s \<le> ir_end s" "ir_end s \<le> ir_start s + 37" "ir_end s \<le> 128" "length (ir_buf s) = 128"
    using assms pending_length [of s] by (auto simp: reader_inv_def ir_ok_def)
  show "reader_inv (compact s)" using assms(1) s by (auto simp: compact_def reader_inv_def ir_ok_def)
  show "pending (compact s) = pending s" using s by (simp add: compact_def pending_def)
  show "ir_end (compact s) < 128" using s by (auto simp: compact_def)
qed

lemma feed_outcome:
  assumes "reader_inv s" "ir_end s + length d \<le> 128"
  shows "reader_inv (feed d s)" "pending (feed d s) = pending s @ d"
proof -
  have s: "ir_start s \<le> ir_end s" "length (ir_buf s) = 128" using assms(1) by (auto simp: reader_inv_def ir_ok_def)
  show "reader_inv (feed d s)" using assms s by (auto simp: feed_def reader_inv_def ir_ok_def)
  have "ir_end s + length d - ir_start s = (ir_end s - ir_start s) + length d" using s by simp
  then show "pending (feed d s) = pending s @ d" using assms s by (simp add: feed_def pending_def take_drop)
qed

fun budget :: "sys_call list \<Rightarrow> nat" where
  "budget [] = 0"
| "budget (Ready d # cs) = Suc (length d + budget cs)"
| "budget (_ # cs) = Suc (budget cs)"

text \<open>No error, and data at every call until the input ends.\<close>

fun steady :: "sys_call list \<Rightarrow> bool" where
  "steady [] = True"
| "steady (Ready d # cs) \<longleftrightarrow> d \<noteq> [] \<and> steady cs"
| "steady (Interrupted # cs) = steady cs"
| "steady (Failed n # cs) = False"

lemma read_bytes_outcome:
  assumes "read_bytes cap cs = (r, cs')" "0 < cap"
  shows "(\<exists>d. r = Ok d \<and> input cs = d @ input cs' \<and> length d \<le> cap \<and> (d \<noteq> [] \<longrightarrow> budget cs' < budget cs) \<and>
      (steady cs \<longrightarrow> steady cs' \<and> (d = [] \<longrightarrow> cs' = []))) \<or>
    (\<exists>e. r = Err e \<and> input cs = input cs' \<and> \<not> steady cs)"
  using assms
proof (induction cap cs rule: read_bytes.induct)
  case (2 cap cs)
  then show ?case by fastforce
next
  case (4 cap d cs)
  then show ?case by (auto simp: Suc_le_eq split: if_splits)
qed auto


lemma read_loop_outcome:
  assumes "reader_inv s" "length (pending s) \<le> 37"
  shows "\<exists>r cs' out' s'. read_loop cs n out s = Some (r, cs', out', s') \<and>
    reader_inv s' \<and> length (pending s') \<le> 37 \<and>
    reported out' @ pending s' @ input cs' = reported out @ pending s @ input cs \<and>
    ((\<exists>e. r = Err e \<and> \<not> steady cs) \<or> r = Ok (n + length (input cs) - length (input cs'))) \<and>
    (steady cs \<longrightarrow> cs' = []) \<and> length (input cs') \<le> length (input cs)"
  using assms
proof (induction "budget cs" arbitrary: cs n out s rule: less_induct)
  case less
  let ?s = "compact s"
  note C = compact_outcome [OF less.prems]
  have len: "length (ir_buf ?s) = 128" using C(1) by (simp add: reader_inv_def ir_ok_def)
  obtain r cs1 where b: "read_bytes (128 - ir_end ?s) cs = (r, cs1)" by fastforce
  note loop = read_loop.simps [of cs n out s, unfolded Let_def, simplified len C(3) b, simplified]
  have cap: "0 < 128 - ir_end ?s" using C(3) by simp
  consider (failed) e where "r = Err e" "input cs = input cs1" "\<not> steady cs"
    | (ended) "r = Ok []" "input cs = input cs1" "steady cs \<longrightarrow> cs1 = []"
    | (more) d where "r = Ok d" "d \<noteq> []" "input cs = d @ input cs1" "length d \<le> 128 - ir_end ?s"
      "budget cs1 < budget cs" "steady cs \<longrightarrow> steady cs1"
    using read_bytes_outcome [OF b cap] by (metis append_Nil)
  then show ?case
  proof cases
    case failed
    then show ?thesis using loop C less.prems(2) by simp
  next
    case ended
    then show ?thesis using loop C less.prems(2) by simp
  next
    case more
    have room: "ir_end ?s + length d \<le> 128" using more(4) C(3) by simp
    note F = feed_outcome [OF C(1) room]
    obtain out1 s1 where D: "drain out (feed d ?s) = Some (Ok (), out1, s1)" "reader_inv s1"
      "length (pending s1) \<le> 37" "reported out1 @ pending s1 = reported out @ pending (feed d ?s)"
      using drain_outcome [OF F(1), of out] by blast
    have step: "read_loop cs n out s = read_loop cs1 (n + length d) out1 s1"
      using loop more(1,2) D(1) by simp
    have bytes: "reported out1 @ pending s1 @ input cs1 = reported out @ pending s @ input cs"
      using D(4) F(2) C(2) more(3) by (metis append.assoc)
    from less.hyps [OF more(5) D(2,3), of "n + length d" out1] obtain r' cs' out' s' where R:
      "read_loop cs1 (n + length d) out1 s1 = Some (r', cs', out', s')" "reader_inv s'"
      "length (pending s') \<le> 37" "reported out' @ pending s' @ input cs' = reported out1 @ pending s1 @ input cs1"
      "(\<exists>e. r' = Err e \<and> \<not> steady cs1) \<or> r' = Ok (n + length d + length (input cs1) - length (input cs'))"
      "steady cs1 \<longrightarrow> cs' = []" "length (input cs') \<le> length (input cs1)" by blast
    have "(\<exists>e. r' = Err e \<and> \<not> steady cs) \<or> r' = Ok (n + length (input cs) - length (input cs'))"
      using R(5) more(3,6) by (auto simp: add.assoc)
    then show ?thesis using step R(1-4,6,7) bytes more(3,6) by auto
  qed
qed

text \<open>
  (C37) A call of \<open>InputReader::read\<close> returns and does not panic, whatever bytes arrive in whatever
  pieces: the assertion that there is room in the buffer holds, no slice is out of range, and no
  more than 37 bytes wait for the rest of an escape sequence. The bytes of the events that it
  reports, the bytes that wait and the bytes it has not read are, in this order, the bytes that
  waited before and the input: every byte belongs to exactly one event. The result is the number
  of bytes read; without a failing call everything that is ready is read.
\<close>

theorem read_reports_every_byte:
  assumes "reader_inv s" "length (pending s) \<le> 37"
  shows "\<exists>r cs' out' s'. read_input cs out s = Some (r, cs', out', s') \<and> r \<noteq> Panic \<and>
    reader_inv s' \<and> length (pending s') \<le> 37 \<and>
    reported out' @ pending s' @ input cs' = reported out @ pending s @ input cs \<and>
    (\<forall>n. r = Ok n \<longrightarrow> n + length (input cs') = length (input cs)) \<and>
    (steady cs \<longrightarrow> cs' = [] \<and> r = Ok (length (input cs)))"
proof -
  from read_loop_outcome [OF assms, of cs 0 out] obtain r cs' out' s' where R:
    "read_input cs out s = Some (r, cs', out', s')" "reader_inv s'" "length (pending s') \<le> 37"
    "reported out' @ pending s' @ input cs' = reported out @ pending s @ input cs"
    "(\<exists>e. r = Err e \<and> \<not> steady cs) \<or> r = Ok (length (input cs) - length (input cs'))"
    "steady cs \<longrightarrow> cs' = []" "length (input cs') \<le> length (input cs)"
    unfolding read_input_def by auto
  moreover have "r \<noteq> Panic" "\<forall>n. r = Ok n \<longrightarrow> n + length (input cs') = length (input cs)"
    "steady cs \<longrightarrow> cs' = [] \<and> r = Ok (length (input cs))"
    using R(5-7) by auto
  ultimately show ?thesis by blast
qed

text \<open>An escape sequence in two pieces, after an interrupted call.\<close>

theorem read_reports_every_byte_witness:
  "reader_inv reader_new \<and> length (pending reader_new) \<le> 37 \<and>
   (\<exists>out' s'. read_input [Ready [97, 27, 91, 49], Interrupted, Ready [53, 126]] [] reader_new = Some (Ok 6, [], out', s') \<and>
      reported out' @ pending s' = [97, 27, 91, 49, 53, 126])"
proof -
  have n: "reader_inv reader_new" "pending reader_new = []"
    by (simp_all add: reader_inv_def reader_new_def ir_ok_def pending_def)
  then show ?thesis
    using read_reports_every_byte [of reader_new "[Ready [97, 27, 91, 49], Interrupted, Ready [53, 126]]" "[]"]
    by auto
qed

end
