(* ===== verification/RegionTree.thy ===== *)
theory RegionTree
  imports Prelude
begin

text \<open>
  Trees that are stored with links in both directions: \<open>P\<close> gives the parent of a node, \<open>K\<close> its
  children in order, \<open>D\<close> is the set of nodes. The lemmas are the changes that the layout code makes:
  a node is merged into its parent, an only child replaces the root, a node is wrapped into a new
  one, a leaf is added or removed. A walk with a stack visits every node once.
\<close>

section \<open>Lists changed at an index\<close>

text \<open>\<open>Vec::remove\<close>, \<open>Vec::insert\<close>, \<open>splice(idx..idx+1, ys)\<close> and \<open>iter().position\<close>.\<close>

definition remove_at :: "nat \<Rightarrow> 'a list \<Rightarrow> 'a list" where
  "remove_at i xs = take i xs @ drop (Suc i) xs"

definition insert_at :: "nat \<Rightarrow> 'a \<Rightarrow> 'a list \<Rightarrow> 'a list" where
  "insert_at i x xs = take i xs @ x # drop i xs"

definition splice_at :: "nat \<Rightarrow> 'a list \<Rightarrow> 'a list \<Rightarrow> 'a list" where
  "splice_at i ys xs = take i xs @ ys @ drop (Suc i) xs"

fun position :: "'a \<Rightarrow> 'a list \<Rightarrow> nat option" where
  "position x [] = None"
| "position x (y # ys) = (if x = y then Some 0 else map_option Suc (position x ys))"

lemma position_Some: "position x xs = Some i \<Longrightarrow> i < length xs \<and> xs ! i = x"
  by (induction xs arbitrary: i) (auto split: if_splits)

lemma position_None: "position x xs = None \<longleftrightarrow> x \<notin> set xs"
  by (induction xs) auto

lemma position_in: "x \<in> set xs \<Longrightarrow> \<exists>i. position x xs = Some i \<and> i < length xs \<and> xs ! i = x"
  using position_None [of x xs] position_Some [of x xs] by (cases "position x xs") auto

lemma split_at: "i < length xs \<Longrightarrow> xs = take i xs @ xs ! i # drop (Suc i) xs"
  by (rule id_take_nth_drop)

lemma set_remove_at:
  assumes "distinct xs" "i < length xs" shows "set (remove_at i xs) = set xs - {xs ! i}" "distinct (remove_at i xs)"
proof -
  note s = split_at [OF assms(2)]
  have d: "distinct (take i xs @ xs ! i # drop (Suc i) xs)" using assms(1) s by simp
  have "set xs = set (take i xs @ xs ! i # drop (Suc i) xs)" using s by simp
  with d show "set (remove_at i xs) = set xs - {xs ! i}" by (auto simp: remove_at_def)
  from d show "distinct (remove_at i xs)" by (auto simp: remove_at_def)
qed

lemma set_splice_at:
  assumes "distinct xs" "i < length xs" "distinct ys" "set ys \<inter> set xs = {}"
  shows "set (splice_at i ys xs) = set xs - {xs ! i} \<union> set ys" "distinct (splice_at i ys xs)"
proof -
  note s = split_at [OF assms(2)]
  have d: "distinct (take i xs @ xs ! i # drop (Suc i) xs)" using assms(1) s by simp
  have e: "set xs = set (take i xs @ xs ! i # drop (Suc i) xs)" using s by simp
  from d e show "set (splice_at i ys xs) = set xs - {xs ! i} \<union> set ys" by (auto simp: splice_at_def)
  from d e assms(3,4) show "distinct (splice_at i ys xs)" by (auto simp: splice_at_def)
qed

lemma set_insert_at: "set (insert_at i x xs) = insert x (set xs)"
proof -
  have "set (take i xs) \<union> set (drop i xs) = set xs"
    using append_take_drop_id [of i xs] by (metis set_append)
  then show ?thesis by (auto simp: insert_at_def)
qed

lemma distinct_insert_at: "distinct xs \<Longrightarrow> x \<notin> set xs \<Longrightarrow> distinct (insert_at i x xs)"
  using append_take_drop_id [of i xs] distinct_append [of "take i xs" "drop i xs"]
  by (auto simp: insert_at_def dest: in_set_takeD in_set_dropD)

lemma list_update_splice_at: "i < length xs \<Longrightarrow> xs[i := y] = splice_at i [y] xs"
  by (simp add: splice_at_def upd_conv_take_nth_drop)

lemma length_splice_at: "i < length xs \<Longrightarrow> length (splice_at i ys xs) = length xs + length ys - 1"
  by (simp add: splice_at_def)

lemma length_remove_at: "i < length xs \<Longrightarrow> length (remove_at i xs) = length xs - 1"
  by (simp add: remove_at_def)

lemma length_insert_at: "length (insert_at i x xs) = Suc (length xs)"
  by (simp add: insert_at_def)

section \<open>Trees\<close>

text \<open>The root is above the node.\<close>

inductive climbs :: "('i \<Rightarrow> 'i option) \<Rightarrow> 'i \<Rightarrow> 'i \<Rightarrow> bool" for P :: "'i \<Rightarrow> 'i option" and rt :: 'i where
  top: "climbs P rt rt"
| up: "P i = Some p \<Longrightarrow> climbs P rt p \<Longrightarrow> climbs P rt i"

definition wf_tree :: "'i set \<Rightarrow> ('i \<Rightarrow> 'i option) \<Rightarrow> ('i \<Rightarrow> 'i list) \<Rightarrow> 'i \<Rightarrow> bool" where
  "wf_tree D P K rt \<longleftrightarrow> rt \<in> D \<and> P rt = None \<and> (\<forall>p c. c \<in> set (K p) \<longleftrightarrow> c \<in> D \<and> P c = Some p) \<and>
     (\<forall>p. distinct (K p)) \<and> (\<forall>p. p \<notin> D \<longrightarrow> K p = []) \<and> (\<forall>i \<in> D. climbs P rt i)"

lemma wf_treeD:
  assumes "wf_tree D P K rt"
  shows "rt \<in> D" "P rt = None" "c \<in> set (K p) \<longleftrightarrow> c \<in> D \<and> P c = Some p" "distinct (K p)"
    "p \<notin> D \<Longrightarrow> K p = []" "i \<in> D \<Longrightarrow> climbs P rt i"
  using assms by (auto simp: wf_tree_def)

lemma wf_treeI:
  assumes "rt \<in> D" "P rt = None" "\<And>p c. c \<in> set (K p) \<longleftrightarrow> c \<in> D \<and> P c = Some p" "\<And>p. distinct (K p)"
    "\<And>p. p \<notin> D \<Longrightarrow> K p = []" "\<And>i. i \<in> D \<Longrightarrow> climbs P rt i"
  shows "wf_tree D P K rt"
  using assms by (simp add: wf_tree_def)

lemma wf_tree_cong:
  assumes "wf_tree D P K rt" "\<And>i. i \<in> D \<Longrightarrow> P' i = P i" "\<And>i. i \<in> D \<Longrightarrow> K' i = K i" "\<And>i. i \<notin> D \<Longrightarrow> K' i = []"
  shows "wf_tree D P' K' rt"
proof (rule wf_treeI)
  have K: "K' = K" using assms(3,4) wf_treeD(5) [OF assms(1)] by (metis ext)
  show "rt \<in> D" "P' rt = None" using assms(1,2) by (auto simp: wf_tree_def)
  show "c \<in> set (K' p) \<longleftrightarrow> c \<in> D \<and> P' c = Some p" for p c
    using wf_treeD(3) [OF assms(1)] assms(2) K by auto
  show "distinct (K' p)" for p using wf_treeD(4) [OF assms(1)] K by simp
  show "p \<notin> D \<Longrightarrow> K' p = []" for p by (rule assms(4))
  fix i assume "i \<in> D"
  then have "climbs P rt i" by (rule wf_treeD(6) [OF assms(1)])
  then show "climbs P' rt i" using \<open>i \<in> D\<close>
  proof induction
    case (up i p)
    have "p \<in> D" using up.hyps(1) up.prems wf_treeD(3,5) [OF assms(1)] by (metis empty_iff list.set(1))
    with up assms(2) [OF up.prems] show ?case by (auto intro: climbs.up)
  qed (rule climbs.top)
qed

lemma no_loop: "climbs P rt i \<Longrightarrow> P rt = None \<Longrightarrow> P i \<noteq> Some i"
  by (induction rule: climbs.induct) auto

lemma no_loop2: "climbs P rt i \<Longrightarrow> P rt = None \<Longrightarrow> P i = Some j \<Longrightarrow> P j \<noteq> Some i"
proof (induction arbitrary: j rule: climbs.induct)
  case (up i p)
  then show ?case by (metis option.inject)
qed simp

text \<open>Facts about a node and its parent.\<close>

lemma parent_facts:
  assumes "wf_tree D P K rt" "r \<in> D" "P r = Some p"
  shows "p \<in> D" "r \<in> set (K p)" "r \<noteq> p" "r \<noteq> rt" "P p \<noteq> Some r"
proof -
  show "r \<in> set (K p)" using wf_treeD(3) [OF assms(1)] assms(2,3) by simp
  then show "p \<in> D" using wf_treeD(5) [OF assms(1), of p] by (metis empty_iff list.set(1))
  have c: "climbs P rt r" "P rt = None" using wf_treeD [OF assms(1)] assms(2) by auto
  show "r \<noteq> p" using no_loop [OF c] assms(3) by auto
  show "r \<noteq> rt" using c(2) assms(3) by auto
  show "P p \<noteq> Some r" using no_loop2 [OF c assms(3)] .
qed


text \<open>Induction from the root downwards.\<close>

lemma tree_induct:
  assumes "wf_tree D P K rt" "i \<in> D" "Q rt"
    and step: "\<And>i p. i \<in> D \<Longrightarrow> p \<in> D \<Longrightarrow> P i = Some p \<Longrightarrow> Q p \<Longrightarrow> Q i"
  shows "Q i"
proof -
  have "climbs P rt i" using wf_treeD(6) [OF assms(1,2)] .
  then show ?thesis using assms(2)
  proof induction
    case (up i p)
    have "p \<in> D" by (rule parent_facts(1) [OF assms(1) up.prems up.hyps(1)])
    with up step show ?case by blast
  qed (rule assms(3))
qed

section \<open>Changes\<close>

text \<open>The children of \<open>r\<close> take its place among the children of its parent.\<close>

lemma wf_tree_splice:
  assumes wf: "wf_tree D P K rt" and r: "r \<in> D" "P r = Some p" "k < length (K p)" "K p ! k = r"
  shows "wf_tree (D - {r}) (\<lambda>i. if i \<in> set (K r) then Some p else P i)
    (\<lambda>i. if i = p then splice_at k (K r) (K p) else if i = r then [] else K i) rt" (is "wf_tree _ ?P ?K _")
proof (rule wf_treeI)
  note W = wf_treeD [OF wf]
  note F = parent_facts [OF wf r(1,2)]
  have kids: "c \<in> set (K r) \<longleftrightarrow> c \<in> D \<and> P c = Some r" for c by (rule W(3))
  have disj: "set (K r) \<inter> set (K p) = {}" using W(3) F(3) by auto
  have no_r: "r \<notin> set (K r)" using kids r(2) F(3) by auto
  note S = set_splice_at [OF W(4) r(3) W(4) disj]
  show "rt \<in> D - {r}" "?P rt = None" using W(1,2) F(4) kids by auto
  show "c \<in> set (?K q) \<longleftrightarrow> c \<in> D - {r} \<and> ?P c = Some q" for q c
  proof (cases "q = p")
    case True
    then show ?thesis using S(1) r(4) W(3) kids no_r F(5) by auto
  next
    case False
    then show ?thesis using W(3) [of c q] kids [of c] no_r r(2) by auto
  qed
  show "distinct (?K q)" for q using S(2) W(4) by simp
  show "q \<notin> D - {r} \<Longrightarrow> ?K q = []" for q using F(1,3) W(5) by auto
  fix i assume i: "i \<in> D - {r}"
  have "if i = r then climbs ?P rt p else climbs ?P rt i"
  proof (rule tree_induct [OF wf])
    show "i \<in> D" using i by simp
    show "if rt = r then climbs ?P rt p else climbs ?P rt rt" using F(4) by (simp add: climbs.top)
    fix i q assume q: "i \<in> D" "q \<in> D" "P i = Some q" "if q = r then climbs ?P rt p else climbs ?P rt q"
    show "if i = r then climbs ?P rt p else climbs ?P rt i"
    proof (cases "i \<in> set (K r)")
      case True
      then have "climbs ?P rt p" "i \<noteq> r" using q(3,4) kids no_r by auto
      moreover from True have "?P i = Some p" by simp
      ultimately show ?thesis using climbs.up [of ?P i p] by simp
    next
      case False
      then have "q \<noteq> r" using q(1,3) kids by auto
      with q(4) have "climbs ?P rt q" by simp
      moreover from False q(3) have "?P i = Some q" by simp
      ultimately show ?thesis using climbs.up [of ?P i q rt] q(3) r(2) by (cases "i = r") simp_all
    qed
  qed
  then show "climbs ?P rt i" using i by simp
qed

text \<open>The only child of the root becomes the root.\<close>

lemma wf_tree_new_root:
  assumes wf: "wf_tree D P K rt" and c: "K rt = [c]"
  shows "wf_tree (D - {rt}) (P(c := None)) (K(rt := [])) c"
proof (rule wf_treeI)
  note W = wf_treeD [OF wf]
  have cD: "c \<in> D" "P c = Some rt" using W(3) [of c rt] c by simp_all
  have only: "i \<noteq> c \<Longrightarrow> i \<in> D \<Longrightarrow> P i \<noteq> Some rt" for i using W(3) [of i rt] c by simp
  show "c \<in> D - {rt}" "(P(c := None)) c = None" using cD W(2) by auto
  show "i \<in> set ((K(rt := [])) q) \<longleftrightarrow> i \<in> D - {rt} \<and> (P(c := None)) i = Some q" for q i
  proof (cases "q = rt")
    case True
    then show ?thesis using only [of i] by auto
  next
    case q: False
    show ?thesis
    proof (cases "i = c")
      case True
      have "c \<notin> set (K q)" using W(3) [of c q] cD(2) q by simp
      with True q show ?thesis by simp
    next
      case False
      then show ?thesis using W(2) W(3) [of i q] q by auto
    qed
  qed
  show "distinct ((K(rt := [])) q)" for q using W(4) by simp
  show "q \<notin> D - {rt} \<Longrightarrow> (K(rt := [])) q = []" for q using W(5) by auto
  fix i assume i: "i \<in> D - {rt}"
  have "i \<noteq> rt \<longrightarrow> climbs (P(c := None)) c i"
  proof (rule tree_induct [OF wf])
    fix i q assume q: "i \<in> D" "q \<in> D" "P i = Some q" "q \<noteq> rt \<longrightarrow> climbs (P(c := None)) c q"
    show "i \<noteq> rt \<longrightarrow> climbs (P(c := None)) c i"
    proof (cases "i = c")
      case False
      with q only [of i] have "q \<noteq> rt" by auto
      with q False show ?thesis by (auto intro: climbs.up)
    qed (simp add: climbs.top)
  qed (use i in auto)
  with i show "climbs (P(c := None)) c i" by simp
qed

text \<open>A leaf is removed.\<close>

lemma wf_tree_remove:
  assumes wf: "wf_tree D P K rt" and r: "r \<in> D" "P r = Some p" "k < length (K p)" "K p ! k = r" and leaf: "K r = []"
  shows "wf_tree (D - {r}) P (K(p := remove_at k (K p))) rt"
proof -
  note F = parent_facts [OF wf r(1,2)]
  have "wf_tree (D - {r}) (\<lambda>i. if i \<in> set (K r) then Some p else P i)
    (\<lambda>i. if i = p then splice_at k (K r) (K p) else if i = r then [] else K i) rt" by (rule wf_tree_splice [OF wf r])
  moreover have "(\<lambda>i. if i = p then splice_at k (K r) (K p) else if i = r then [] else K i) = K(p := remove_at k (K p))"
    using leaf by (auto simp: splice_at_def remove_at_def)
  ultimately show ?thesis using leaf by simp
qed

text \<open>A new leaf among the children of \<open>p\<close>.\<close>

lemma wf_tree_add:
  assumes wf: "wf_tree D P K rt" and n: "n \<notin> D" "p \<in> D"
  shows "wf_tree (insert n D) (P(n \<mapsto> p)) (K(p := insert_at k n (K p))) rt"
proof (rule wf_treeI)
  note W = wf_treeD [OF wf]
  have no_n: "n \<notin> set (K q)" for q using W(3) n(1) by simp
  show "rt \<in> insert n D" "(P(n \<mapsto> p)) rt = None" using W(1,2) n by auto
  show "c \<in> set ((K(p := insert_at k n (K p))) q) \<longleftrightarrow> c \<in> insert n D \<and> (P(n \<mapsto> p)) c = Some q" for q c
    using W(3) [of c q] no_n n by (auto simp: set_insert_at)
  show "distinct ((K(p := insert_at k n (K p))) q)" for q using W(4) no_n by (auto intro: distinct_insert_at)
  show "q \<notin> insert n D \<Longrightarrow> (K(p := insert_at k n (K p))) q = []" for q using W(5) n by auto
  have old: "climbs (P(n \<mapsto> p)) rt i" if "i \<in> D" for i
    by (rule tree_induct [OF wf that]) (use n in \<open>auto intro: climbs.intros\<close>)
  fix i assume "i \<in> insert n D"
  then show "climbs (P(n \<mapsto> p)) rt i" using old n(2) by (auto intro: climbs.up)
qed

text \<open>\<open>i\<close> gets a new parent \<open>n\<close>, whose other children are new leaves.\<close>

lemma wf_tree_wrap:
  assumes wf: "wf_tree D P K rt" and i: "i \<in> D" and new: "n \<notin> D" "ls \<inter> insert n D = {}"
    and cs: "distinct cs" "set cs = insert i ls"
    and P': "\<And>x. P' x = (if x = i \<or> x \<in> ls then Some n else if x = n then P i else P x)"
    and K': "\<And>x. K' x = (if x = n then cs else if P i = Some x then splice_at k [n] (K x) else K x)"
    and k: "\<And>p. P i = Some p \<Longrightarrow> k < length (K p) \<and> K p ! k = i"
  shows "wf_tree (D \<union> insert n ls) P' K' (if P i = None then n else rt)"
proof (rule wf_treeI)
  note W = wf_treeD [OF wf]
  let ?rt = "if P i = None then n else rt"
  have ni: "n \<noteq> i" "n \<notin> ls" "i \<notin> ls" using i new by auto
  have root: "P i = None \<Longrightarrow> i = rt" using W(6) [OF i] by (cases rule: climbs.cases) auto
  have no_n: "n \<notin> set (K q)" for q using W(3) new(1) by simp
  have splice: "set (splice_at k [n] (K p)) = insert n (set (K p) - {i})" "distinct (splice_at k [n] (K p))"
    if "P i = Some p" for p
    using set_splice_at [of "K p" k "[n]"] W(4) k [OF that] no_n by auto
  show "?rt \<in> D \<union> insert n ls" using W(1) by simp
  show "P' ?rt = None" using W(1,2) ni root new i by (auto simp: P')
  show "c \<in> set (K' q) \<longleftrightarrow> c \<in> D \<union> insert n ls \<and> P' c = Some q" for q c
  proof (cases "q = n")
    case True
    have "P c \<noteq> Some n" if "c \<in> D" for c using W(3) [of c n] that W(5) new(1) by auto
    moreover have "P i \<noteq> Some n" using W(3) [of i n] i W(5) new(1) by auto
    ultimately show ?thesis using True cs(2) ni i by (auto simp: K' P')
  next
    case False
    show ?thesis
    proof (cases "P i = Some q")
      case True
      have "q \<in> D" using parent_facts(1) [OF wf i True] .
      then show ?thesis using True False splice [OF True] W(3) [of c q] ni new by (auto simp: K' P')
    next
      case other: False
      have "c \<in> ls \<Longrightarrow> c \<notin> set (K q)" using W(3) [of c q] new by auto
      then show ?thesis using False other W(3) [of c q] ni new no_n [of q] by (auto simp: K' P')
    qed
  qed
  show "distinct (K' q)" for q using cs(1) splice W(4) by (auto simp: K')
  show "q \<notin> D \<union> insert n ls \<Longrightarrow> K' q = []" for q
    using W(5) [of q] parent_facts(1) [OF wf i] by (auto simp: K')
  have n: "climbs P' ?rt n" if "\<And>p. P i = Some p \<Longrightarrow> climbs P' ?rt p"
  proof (cases "P i")
    case None
    then show ?thesis by (simp add: climbs.top)
  next
    case (Some p)
    then have "P' n = Some p" using ni by (simp add: P')
    then show ?thesis using that [OF Some] by (rule climbs.up)
  qed
  have step: "climbs P' ?rt j" if "P' j = Some n" "climbs P' ?rt n" for j using that by (rule climbs.up)
  have old: "climbs P' ?rt j" if "j \<in> D" for j
  proof (rule tree_induct [OF wf that])
    show "climbs P' ?rt rt"
    proof (cases "P i = None")
      case True
      then have "P' rt = Some n" using root by (simp add: P')
      then show ?thesis using True by (auto intro: climbs.intros)
    next
      case False
      then show ?thesis using climbs.top by auto
    qed
    fix j q assume q: "j \<in> D" "q \<in> D" "P j = Some q" "climbs P' ?rt q"
    show "climbs P' ?rt j"
    proof (cases "j = i")
      case True
      then have "P' j = Some n" by (simp add: P')
      moreover have "climbs P' ?rt n" by (rule n) (use True q in auto)
      ultimately show ?thesis by (rule climbs.up)
    next
      case False
      then have "P' j = Some q" using q new by (auto simp: P')
      then show ?thesis using q(4) by (rule climbs.up)
    qed
  qed
  have cn: "climbs P' ?rt n" by (rule n) (use old parent_facts(1) [OF wf i] in auto)
  fix j assume "j \<in> D \<union> insert n ls"
  then show "climbs P' ?rt j" using old cn climbs.up [of P' j n] by (auto simp: P')
qed


section \<open>Walks\<close>

text \<open>\<open>V\<close> are the nodes that were visited and \<open>S\<close> is the stack.\<close>

definition walk_inv :: "'i set \<Rightarrow> ('i \<Rightarrow> 'i option) \<Rightarrow> ('i \<Rightarrow> 'i list) \<Rightarrow> 'i \<Rightarrow> 'i list \<Rightarrow> 'i set \<Rightarrow> bool" where
  "walk_inv D P K rt S V \<longleftrightarrow> distinct S \<and> set S \<inter> V = {} \<and> set S \<subseteq> D \<and> V \<subseteq> D \<and>
     (\<forall>v \<in> V. set (K v) \<subseteq> V \<union> set S) \<and> rt \<in> V \<union> set S \<and>
     (\<forall>x \<in> V \<union> set S. x = rt \<or> (\<exists>p \<in> V. P x = Some p))"

lemma walk_start: "wf_tree D P K rt \<Longrightarrow> walk_inv D P K rt [rt] {}"
  by (simp add: walk_inv_def wf_tree_def)

lemma walk_step:
  assumes wf: "wf_tree D P K rt" and inv: "walk_inv D P K rt (i # S) V"
  shows "walk_inv D P K rt (K i @ S) (insert i V)"
proof -
  note W = wf_treeD [OF wf]
  have i: "i \<in> D" "i \<notin> V" "i \<notin> set S" using inv by (auto simp: walk_inv_def)
  have kid: "c \<in> D \<and> P c = Some i" if "c \<in> set (K i)" for c using W(3) that by simp
  have old: "c \<notin> V \<union> set (i # S)" if "c \<in> set (K i)" for c
  proof
    assume "c \<in> V \<union> set (i # S)"
    then have "c = rt \<or> (\<exists>p \<in> V. P c = Some p)" using inv by (auto simp: walk_inv_def)
    with kid [OF that] W(2) i(2) show False by auto
  qed
  have new: "set (K i) \<inter> (V \<union> set (i # S)) = {}" using old by blast
  have "distinct (K i @ S)" using inv W(4) new by (auto simp: walk_inv_def)
  moreover have "set (K i @ S) \<inter> insert i V = {}" using inv new i by (auto simp: walk_inv_def)
  moreover have "set (K i @ S) \<subseteq> D" "insert i V \<subseteq> D" using inv kid by (auto simp: walk_inv_def)
  moreover have "\<forall>v \<in> insert i V. set (K v) \<subseteq> insert i V \<union> set (K i @ S)" using inv by (auto simp: walk_inv_def)
  moreover have "rt \<in> insert i V \<union> set (K i @ S)" using inv by (auto simp: walk_inv_def)
  moreover have "\<forall>x \<in> insert i V \<union> set (K i @ S). x = rt \<or> (\<exists>p \<in> insert i V. P x = Some p)"
    using inv kid by (auto simp: walk_inv_def)
  ultimately show ?thesis unfolding walk_inv_def by blast
qed

lemma walk_end:
  assumes wf: "wf_tree D P K rt" and inv: "walk_inv D P K rt [] V"
  shows "V = D"
proof
  show "V \<subseteq> D" using inv by (simp add: walk_inv_def)
  show "D \<subseteq> V"
  proof
    fix i assume "i \<in> D"
    then show "i \<in> V"
    proof (rule tree_induct [OF wf])
      show "rt \<in> V" using inv by (simp add: walk_inv_def)
      fix i p assume "i \<in> D" "P i = Some p" "p \<in> V"
      moreover have "i \<in> set (K p)" using wf_treeD(3) [OF wf] calculation by simp
      ultimately show "i \<in> V" using inv by (auto simp: walk_inv_def)
    qed
  qed
qed

end
