(* ===== verification/Layout.thy ===== *)
theory Layout
  imports Pool RegionTree
begin

text \<open>
  The panes of the user interface (\<open>src/layout.rs\<close>): a tree of regions, kept in a pool with links in
  both directions, whose leaves hold windows as tabs. The drawing code asserts on every frame that
  the links are consistent, so an operation that leaves them inconsistent stops the debugger. The
  fields that are assigned on every frame (areas, widgets) are left out, and so is the title of a
  window, which its type determines; the content of the windows is a type parameter. Arithmetic on \<open>f64\<close> is a parameter, \<open>f64_ops\<close>.
\<close>

section \<open>Tabs\<close>

record TabsState =
  selected :: nat
  hscroll :: int
  scroll_to_selected_tab :: bool

definition default_tabs :: TabsState where
  "default_tabs = \<lparr>selected = 0, hscroll = 0, scroll_to_selected_tab = False\<rparr>"

definition tabs_select :: "nat \<Rightarrow> TabsState \<Rightarrow> TabsState" where
  "tabs_select i st = st\<lparr>selected := i, scroll_to_selected_tab := True\<rparr>"

definition tabs_closed :: "nat \<Rightarrow> TabsState \<Rightarrow> TabsState" where
  "tabs_closed i st = st\<lparr>selected := (if selected st > i then selected st - 1 else selected st),
     scroll_to_selected_tab := True\<rparr>"

datatype TabsAction = NoAction | Reorder nat nat | DropWindow Id nat | Close nat

definition reorder_selected :: "nat \<Rightarrow> nat \<Rightarrow> TabsState \<Rightarrow> TabsState" where
  "reorder_selected from_idx new_idx st =
     (if selected st = from_idx then st\<lparr>selected := new_idx, scroll_to_selected_tab := True\<rparr>
      else (let k = (if selected st > from_idx then selected st - 1 else selected st)
            in st\<lparr>selected := (if k \<ge> new_idx then k + 1 else k)\<rparr>))"

fun apply_action :: "TabsAction \<Rightarrow> TabsState \<Rightarrow> 'a list \<Rightarrow> (bool \<times> TabsState \<times> 'a list, unit) result" where
  "apply_action NoAction st ts = Ok (False, st, ts)"
| "apply_action (Close i) st ts = Ok (if i < length ts then (True, tabs_closed i st, remove_at i ts) else (False, st, ts))"
| "apply_action (Reorder from_idx to_idx) st ts =
     (let new_idx = (if to_idx \<le> from_idx then to_idx else to_idx - 1) in
      Ok (if new_idx \<noteq> from_idx \<and> from_idx < length ts \<and> new_idx < length ts
          then (True, reorder_selected from_idx new_idx st, insert_at new_idx (ts ! from_idx) (remove_at from_idx ts))
          else (False, st, ts)))"
| "apply_action (DropWindow w i) st ts = Panic"

section \<open>Windows and regions\<close>

datatype WindowType = Binaries | Breakpoints | Threads | Stack | Code | Disassembly | Locations | Watches
  | Terminal | Hints | Status

record 'c Window =
  type_of :: WindowType
  win_region :: "Id option"
  required :: bool
  win_content :: 'c
  hotkey_number :: "nat option"
  fixed_size :: "nat option \<times> nat option"

record RegionLeaf =
  tabs :: "Id list"
  tabs_state :: TabsState

definition default_leaf :: RegionLeaf where
  "default_leaf = \<lparr>tabs = [], tabs_state = default_tabs\<rparr>"

datatype RegionContent = Split nat "Id list" | Leaf RegionLeaf

record Region =
  parent :: "Id option"
  content :: RegionContent
  relative_size :: nat

definition default_region :: Region where
  "default_region = \<lparr>parent = None, content = Leaf default_leaf, relative_size = 1000000\<rparr>"

record 'c Layout =
  windows :: "'c Window Pool"
  active_window :: "Id option"
  regions :: "Region Pool"
  root :: Id

datatype WindowRelocation = AddTab nat | AddToExistingSplit nat | SplitLeaf nat nat

type_synonym ('c, 'a) lay = "('c Layout, 'a, unit) sres"

definition layout_new :: "('c Layout, unit) result" where
  "layout_new = rbind (add default_region pool_new) (\<lambda>(r, p).
     Ok \<lparr>windows = pool_new, active_window = None, regions = p, root = r\<rparr>)"

section \<open>Access\<close>

definition panics :: "('s, 'a, 'e) sres" where
  "panics s = (Panic, s)"

text \<open>A \<open>usize\<close> result that overflows panics.\<close>

definition usize :: "nat \<Rightarrow> (nat, unit) result" where
  "usize n = (if n < 2 ^ 64 then Ok n else Panic)"

definition get_region :: "Id \<Rightarrow> ('c, Region) lay" where
  "get_region i s = (case try_get (regions s) i of Some r \<Rightarrow> (Ok r, s) | None \<Rightarrow> (Panic, s))"

definition put_region :: "Id \<Rightarrow> Region \<Rightarrow> 'c Layout \<Rightarrow> 'c Layout" where
  "put_region i r s = s\<lparr>regions := snd (try_set i r (regions s))\<rparr>"

definition update_region :: "Id \<Rightarrow> (Region \<Rightarrow> Region) \<Rightarrow> ('c, unit) lay" where
  "update_region i f = sbind (get_region i) (\<lambda>r s. (Ok (), put_region i (f r) s))"

definition add_region :: "Region \<Rightarrow> ('c, Id) lay" where
  "add_region r s = (case add r (regions s) of
      Ok (i, p) \<Rightarrow> (Ok i, s\<lparr>regions := p\<rparr>)
    | Err e \<Rightarrow> (Err e, s)
    | Panic \<Rightarrow> (Panic, s))"

definition remove_region :: "Id \<Rightarrow> ('c, Region option) lay" where
  "remove_region i s = (let (v, p) = remove i (regions s) in (Ok v, s\<lparr>regions := p\<rparr>))"

definition get_window :: "Id \<Rightarrow> ('c, 'c Window) lay" where
  "get_window i s = (case try_get (windows s) i of Some w \<Rightarrow> (Ok w, s) | None \<Rightarrow> (Panic, s))"

definition update_window :: "Id \<Rightarrow> ('c Window \<Rightarrow> 'c Window) \<Rightarrow> ('c, unit) lay" where
  "update_window i f = sbind (get_window i) (\<lambda>w s. (Ok (), s\<lparr>windows := snd (try_set i (f w) (windows s))\<rparr>))"

fun as_leaf :: "RegionContent \<Rightarrow> (RegionLeaf, unit) result" where
  "as_leaf (Leaf l) = Ok l"
| "as_leaf (Split a cs) = Panic"

fun as_split :: "RegionContent \<Rightarrow> (nat \<times> Id list, unit) result" where
  "as_split (Split a cs) = Ok (a, cs)"
| "as_split (Leaf l) = Panic"

definition get_leaf :: "Id \<Rightarrow> ('c, RegionLeaf) lay" where
  "get_leaf i = sbind (get_region i) (\<lambda>r. slift (as_leaf (content r)))"

definition get_split :: "Id \<Rightarrow> ('c, nat \<times> Id list) lay" where
  "get_split i = sbind (get_region i) (\<lambda>r. slift (as_split (content r)))"

definition update_leaf :: "Id \<Rightarrow> (RegionLeaf \<Rightarrow> RegionLeaf) \<Rightarrow> ('c, unit) lay" where
  "update_leaf i f = sbind (get_leaf i) (\<lambda>l. update_region i (\<lambda>r. r\<lparr>content := Leaf (f l)\<rparr>))"

definition update_children :: "Id \<Rightarrow> (Id list \<Rightarrow> Id list) \<Rightarrow> ('c, unit) lay" where
  "update_children i f = sbind (get_split i) (\<lambda>(a, cs). update_region i (\<lambda>r. r\<lparr>content := Split a (f cs)\<rparr>))"

text \<open>\<open>position(...).unwrap()\<close>\<close>

definition position_of :: "'a \<Rightarrow> 'a list \<Rightarrow> (nat, unit) result" where
  "position_of x xs = (case position x xs of Some i \<Rightarrow> Ok i | None \<Rightarrow> Panic)"

section \<open>Simplification of splits\<close>

text \<open>The first loop over the children: the new parent and the sum of the sizes.\<close>

fun adopt :: "Id \<Rightarrow> Id list \<Rightarrow> nat \<Rightarrow> ('c, nat) lay" where
  "adopt p [] tot = sret tot"
| "adopt p (c # cs) tot = sbind (get_region c) (\<lambda>r. sbind (update_region c (\<lambda>r. r\<lparr>parent := Some p\<rparr>)) (\<lambda>_.
     sbind (slift (usize (tot + relative_size r))) (\<lambda>t. adopt p cs t)))"

fun rescale :: "nat \<Rightarrow> nat \<Rightarrow> Id list \<Rightarrow> ('c, unit) lay" where
  "rescale sz tot [] = sret ()"
| "rescale sz tot (c # cs) = sbind (get_region c) (\<lambda>r. sbind (slift (usize (relative_size r * sz))) (\<lambda>n.
     if tot = 0 then panics
     else sbind (update_region c (\<lambda>r. r\<lparr>relative_size := max (n div tot) 1\<rparr>)) (\<lambda>_. rescale sz tot cs)))"

definition take_over :: "Id \<Rightarrow> nat \<Rightarrow> nat \<Rightarrow> Id list \<Rightarrow> Id \<Rightarrow> nat \<Rightarrow> ('c, Id option) lay" where
  "take_over i sz a cs p idx =
     sbind (update_region i (\<lambda>r. r\<lparr>content := Split a []\<rparr>)) (\<lambda>_.
     sbind (adopt p cs 0) (\<lambda>tot.
     sbind (rescale sz tot cs) (\<lambda>_.
     sbind (update_children p (splice_at idx cs)) (\<lambda>_.
     sbind (remove_region i) (\<lambda>_.
     sret (case cs of [] \<Rightarrow> Some p | [c] \<Rightarrow> Some c | _ \<Rightarrow> None))))))"

definition merge_into_parent :: "Id \<Rightarrow> nat \<Rightarrow> nat \<Rightarrow> Id list \<Rightarrow> Id \<Rightarrow> ('c, Id option) lay" where
  "merge_into_parent i sz a cs p = sbind (get_split p) (\<lambda>(pa, pcs).
     if pa \<noteq> a \<and> length cs > 1 then sret None
     else sbind (slift (position_of i pcs)) (take_over i sz a cs p))"

definition simplify_root :: "Id \<Rightarrow> Id list \<Rightarrow> ('c, unit) lay" where
  "simplify_root i cs s =
     (if i \<noteq> root s \<or> cs = [] then (Panic, s)
      else if length cs = 1 then
        sbind (\<lambda>s. (Ok (), s\<lparr>root := hd cs\<rparr>)) (\<lambda>_.
        sbind (update_region (hd cs) (\<lambda>r. r\<lparr>parent := None\<rparr>)) (\<lambda>_.
        sbind (remove_region i) (\<lambda>v. if v = None then panics else sret ()))) s
      else (Ok (), s))"

definition simplify_step :: "Id \<Rightarrow> ('c, Id option) lay" where
  "simplify_step i = sbind (get_region i) (\<lambda>r. case content r of
      Leaf _ \<Rightarrow> sret None
    | Split a cs \<Rightarrow> (case parent r of
        Some p \<Rightarrow> merge_into_parent i (relative_size r) a cs p
      | None \<Rightarrow> sbind (simplify_root i cs) (\<lambda>_. sret None)))"


subsection \<open>The loop ends\<close>

text \<open>Regions and windows as maps.\<close>

definition heap :: "'c Layout \<Rightarrow> Id \<Rightarrow> Region option" where
  "heap s = try_get (regions s)"

definition wins :: "'c Layout \<Rightarrow> Id \<Rightarrow> 'c Window option" where
  "wins s = try_get (windows s)"

lemma dom_try_get: "dom (try_get p) \<subseteq> (\<lambda>k. \<lparr>slot = k, seqno = slot_seqno (slots p ! k)\<rparr>) ` {..<length (slots p)}"
proof
  fix x assume "x \<in> dom (try_get p)"
  then have "slot x < length (slots p)" "seqno x = slot_seqno (slots p ! slot x)"
    by (auto simp: try_get_def Let_def split: if_splits)
  then show "x \<in> (\<lambda>k. \<lparr>slot = k, seqno = slot_seqno (slots p ! k)\<rparr>) ` {..<length (slots p)}"
    by (intro image_eqI [of _ _ "slot x"]) simp_all
qed

lemma finite_try_get: "finite (dom (try_get p))"
  by (rule finite_subset [OF dom_try_get]) simp

lemma finite_heap: "finite (dom (heap s))"
  by (simp add: heap_def finite_try_get)

lemma try_get_removed: "try_get (snd (remove i p)) = (try_get p)(i := None)"
  by (auto simp: remove_def try_get_def fun_eq_iff Let_def nth_list_update)

lemma heap_put_region [simp]:
  "heap (put_region i r s) = (if heap s i = None then heap s else (heap s)(i \<mapsto> r))"
  by (simp add: heap_def put_region_def try_get_try_set)

lemma get_region_eq: "get_region i s = (case heap s i of Some r \<Rightarrow> (Ok r, s) | None \<Rightarrow> (Panic, s))"
  by (simp add: get_region_def heap_def)

lemma update_region_eq:
  "update_region i f s = (case heap s i of Some r \<Rightarrow> (Ok (), put_region i (f r) s) | None \<Rightarrow> (Panic, s))"
  by (simp add: update_region_def get_region_eq split: option.splits)

lemma remove_region_eq: "\<exists>s'. remove_region i s = (Ok (heap s i), s') \<and> heap s' = (heap s)(i := None)"
  using remove_value [of i "regions s"] try_get_removed [of i "regions s"]
  by (auto simp: remove_region_def heap_def split: prod.splits)

lemma dom_update_region: "dom (heap (snd (update_region i f s))) = dom (heap s)"
  by (auto simp: update_region_eq split: option.splits)

lemma dom_get_region: "snd (get_region i s) = s"
  by (simp add: get_region_eq split: option.splits)

lemma dom_adopt: "dom (heap (snd (adopt p cs n s))) = dom (heap s)"
proof (induction p cs n arbitrary: s rule: adopt.induct)
  case (2 p c cs n)
  show ?case
    by (auto simp: get_region_eq update_region_eq slift_def "2.IH" split: option.splits result.splits if_splits)
qed (simp add: sret_def)

lemma dom_rescale: "dom (heap (snd (rescale sz n cs s))) = dom (heap s)"
proof (induction sz n cs arbitrary: s rule: rescale.induct)
  case (2 sz n c cs)
  show ?case
    by (auto simp: get_region_eq update_region_eq slift_def panics_def usize_def "2.IH" split: option.splits result.splits if_splits)
qed (simp add: sret_def)

lemma dom_update_children: "dom (heap (snd (update_children i f s))) = dom (heap s)"
  by (auto simp: update_children_def get_split_def get_region_eq update_region_eq slift_def
      split: option.splits result.splits prod.splits)


lemma get_split_eq: "get_split i s = (case heap s i of
    Some r \<Rightarrow> (as_split (content r), s) | None \<Rightarrow> (Panic, s))"
  by (simp add: get_split_def get_region_eq slift_def split: option.splits result.splits)

lemma dom_take_over:
  assumes "take_over i sz a cs p idx s = (Ok j, s')"
  shows "dom (heap s') = dom (heap s) - {i}"
proof -
  from assms obtain s2 tot s3 s4 s5 v where
    u: "update_region i (\<lambda>r. r\<lparr>content := Split a []\<rparr>) s = (Ok (), s2)" and
    a: "adopt p cs 0 s2 = (Ok tot, s3)" and
    r: "rescale sz tot cs s3 = (Ok (), s4)" and
    c: "update_children p (splice_at idx cs) s4 = (Ok (), s5)" and
    d: "remove_region i s5 = (Ok v, s')"
    unfolding take_over_def sbind_Ok by (auto simp: sret_def simp del: sbind.simps)
  have "dom (heap s5) = dom (heap s)"
    using dom_update_region [of i _ s] dom_adopt [of p cs 0 s2] dom_rescale [of _ tot cs s3]
      dom_update_children [of p _ s4] u a r c by (metis snd_conv)
  with remove_region_eq [of i s5] d show ?thesis by auto
qed

lemma dom_merge:
  assumes "merge_into_parent i sz a cs p s = (Ok (Some j), s')"
  shows "dom (heap s') = dom (heap s) - {i}"
proof -
  from assms obtain idx where "take_over i sz a cs p idx s = (Ok (Some j), s')"
    by (auto simp: merge_into_parent_def get_split_eq slift_def sret_def split: option.splits result.splits if_splits)
  then show ?thesis by (rule dom_take_over)
qed

lemma simplify_step_decr:
  assumes "simplify_step i s = (Ok (Some j), s')"
  shows "card (dom (heap s')) < card (dom (heap s))"
proof -
  from assms have live: "heap s i \<noteq> None" by (auto simp: simplify_step_def get_region_eq split: option.splits)
  from assms obtain sz a cs p where "merge_into_parent i sz a cs p s = (Ok (Some j), s')"
    by (auto simp: simplify_step_def get_region_eq sret_def split: option.splits RegionContent.splits
        prod.splits result.splits)
  from dom_merge [OF this] live show ?thesis
    by (auto intro!: psubset_card_mono finite_heap)
qed

function simplify_splits :: "Id \<Rightarrow> ('c, unit) lay" where
  "simplify_splits i s = (case simplify_step i s of
      (Ok None, s') \<Rightarrow> (Ok (), s')
    | (Ok (Some j), s') \<Rightarrow> simplify_splits j s'
    | (Err e, s') \<Rightarrow> (Err e, s')
    | (Panic, s') \<Rightarrow> (Panic, s'))"
  by pat_completeness auto
termination
  by (relation "measure (\<lambda>(i, s). card (dom (heap s)))") (auto dest: simplify_step_decr [OF sym])

declare simplify_splits.simps [simp del]


section \<open>Operations\<close>

text \<open>What the code uses of \<open>f64\<close>: comparison, three constants and \<open>((end - start) * 1000000.0) as usize\<close>.\<close>

record 'f f64_ops =
  f_le :: "'f \<Rightarrow> 'f \<Rightarrow> bool"
  f_zero :: 'f
  f_half :: 'f
  f_one :: 'f
  f_span :: "'f \<Rightarrow> 'f \<Rightarrow> nat"

definition walls_ok :: "'f f64_ops \<Rightarrow> 'f list \<Rightarrow> bool" where
  "walls_ok fl walls = list_all (\<lambda>i. f_le fl (walls ! (i - 1)) (walls ! i) \<and> f_le fl (walls ! i) (f_one fl) \<and>
     f_le fl (f_zero fl) (walls ! (i - 1))) [1..<length walls]"

definition wall_size :: "'f f64_ops \<Rightarrow> 'f list \<Rightarrow> nat \<Rightarrow> nat" where
  "wall_size fl walls i = max (f_span fl (if i = 0 then f_zero fl else walls ! (i - 1))
     (if i < length walls then walls ! i else f_one fl)) 1"

fun split_children :: "'f f64_ops \<Rightarrow> 'f list \<Rightarrow> Id \<Rightarrow> Id \<Rightarrow> nat \<Rightarrow> nat list \<Rightarrow> ('c, Id list) lay" where
  "split_children fl walls i n existing [] = sret []"
| "split_children fl walls i n existing (k # ks) =
     sbind (if k = existing
            then sbind (update_region i (\<lambda>r. r\<lparr>relative_size := wall_size fl walls k\<rparr>)) (\<lambda>_. sret i)
            else add_region (default_region\<lparr>parent := Some n, relative_size := wall_size fl walls k\<rparr>))
       (\<lambda>c. sbind (split_children fl walls i n existing ks) (\<lambda>cs. sret (c # cs)))"

definition set_child :: "Id \<Rightarrow> Id \<Rightarrow> Id \<Rightarrow> ('c, unit) lay" where
  "set_child p i n = sbind (get_split p) (\<lambda>(a, cs). sbind (slift (position_of i cs)) (\<lambda>k.
     update_children p (\<lambda>cs. cs[k := n])))"

definition same_axis :: "Region \<Rightarrow> nat \<Rightarrow> bool" where
  "same_axis r a = (case content r of Split b _ \<Rightarrow> b = a | Leaf _ \<Rightarrow> False)"

definition split_region :: "'f f64_ops \<Rightarrow> Id \<Rightarrow> nat \<Rightarrow> 'f list \<Rightarrow> nat \<Rightarrow> ('c, Id list) lay" where
  "split_region fl i a walls existing =
     (if \<not> walls_ok fl walls then panics
      else sbind (get_region i) (\<lambda>r. if same_axis r a then panics
      else sbind (update_region i (\<lambda>r. r\<lparr>parent := None\<rparr>)) (\<lambda>_.
      sbind (add_region (default_region\<lparr>parent := parent r, content := Split a [], relative_size := relative_size r\<rparr>)) (\<lambda>n.
      sbind (split_children fl walls i n existing [0..<length walls + 1]) (\<lambda>cs.
      sbind (update_children n (\<lambda>_. cs)) (\<lambda>_.
      sbind (update_region i (\<lambda>r. r\<lparr>parent := Some n\<rparr>)) (\<lambda>_.
      sbind (case parent r of None \<Rightarrow> (\<lambda>s. (Ok (), s\<lparr>root := n\<rparr>)) | Some p \<Rightarrow> set_child p i n) (\<lambda>_.
      sbind (simplify_splits n) (\<lambda>_. sret cs)))))))))"

fun detach_windows :: "Id list \<Rightarrow> ('c, unit) lay" where
  "detach_windows [] = sret ()"
| "detach_windows (w # ws) = sbind (update_window w (\<lambda>x. x\<lparr>win_region := None\<rparr>)) (\<lambda>_. detach_windows ws)"

fun sum_sizes :: "Id list \<Rightarrow> nat \<Rightarrow> ('c, nat) lay" where
  "sum_sizes [] n = sret n"
| "sum_sizes (c # cs) n = sbind (get_region c) (\<lambda>r. sbind (slift (usize (n + relative_size r))) (sum_sizes cs))"

fun renormalize :: "nat \<Rightarrow> nat \<Rightarrow> Id list \<Rightarrow> ('c, unit) lay" where
  "renormalize tot so_far [] = sret ()"
| "renormalize tot so_far (c # cs) = sbind (get_region c) (\<lambda>r.
     sbind (slift (usize (so_far + relative_size r))) (\<lambda>next.
     sbind (slift (usize (next * 1000000))) (\<lambda>x. sbind (slift (usize (so_far * 1000000))) (\<lambda>y.
     sbind (update_region c (\<lambda>r. r\<lparr>relative_size := max (x div tot - y div tot) 1\<rparr>)) (\<lambda>_.
     renormalize tot next cs)))))"

definition remove_leaf :: "Id \<Rightarrow> ('c, unit) lay" where
  "remove_leaf i = sbind (get_region i) (\<lambda>r. sbind (slift (as_leaf (content r))) (\<lambda>leaf.
     sbind (detach_windows (tabs leaf)) (\<lambda>_. case parent r of
         None \<Rightarrow> panics
       | Some p \<Rightarrow> sbind (get_split p) (\<lambda>(a, cs). sbind (slift (position_of i cs)) (\<lambda>idx.
           sbind (update_children p (remove_at idx)) (\<lambda>_.
           sbind (remove_region i) (\<lambda>_.
           sbind (sum_sizes (remove_at idx cs) 0) (\<lambda>tot.
           if tot = 0 then panics
           else sbind (renormalize tot 0 (remove_at idx cs)) (\<lambda>_. simplify_splits p)))))))))"

definition set_fixed_size :: "Id \<Rightarrow> nat \<Rightarrow> nat \<Rightarrow> ('c, unit) lay" where
  "set_fixed_size w a n = (if a > 1 then panics else update_window w (\<lambda>x. x\<lparr>fixed_size :=
     (if a = 0 then (Some n, snd (fixed_size x)) else (fst (fixed_size x), Some n))\<rparr>))"

definition set_hotkey_number :: "Id \<Rightarrow> nat \<Rightarrow> ('c, unit) lay" where
  "set_hotkey_number w n = update_window w (\<lambda>x. x\<lparr>hotkey_number := Some n\<rparr>)"

definition attach_window :: "Id \<Rightarrow> Id \<Rightarrow> ('c, unit) lay" where
  "attach_window leaf w = sbind (get_window w) (\<lambda>x. if win_region x \<noteq> None then panics
     else sbind (update_leaf leaf (\<lambda>l. l\<lparr>tabs := tabs l @ [w]\<rparr>)) (\<lambda>_.
       update_window w (\<lambda>x. x\<lparr>win_region := Some leaf\<rparr>)))"

text \<open>\<open>REQUIRED_WINDOWS\<close>: the number and the height of each type of window.\<close>

fun required_info :: "WindowType \<Rightarrow> (nat option \<times> nat option) option" where
  "required_info Hints = Some (None, None)"
| "required_info Status = Some (None, Some 8)"
| "required_info Watches = Some (Some 1, None)"
| "required_info Locations = Some (None, None)"
| "required_info Disassembly = Some (Some 2, None)"
| "required_info Code = Some (Some 3, None)"
| "required_info Binaries = Some (None, None)"
| "required_info Breakpoints = Some (Some 4, None)"
| "required_info Stack = Some (Some 5, None)"
| "required_info Terminal = Some (Some 0, None)"
| "required_info Threads = Some (Some 6, None)"

definition window_new :: "(WindowType \<Rightarrow> 'c) \<Rightarrow> Id option \<Rightarrow> WindowType \<Rightarrow> 'c Window" where
  "window_new create par ty =
     (let w = \<lparr>type_of = ty, win_region = par, required = False, win_content = create ty, hotkey_number = None,
               fixed_size = (None, None)\<rparr>
      in case required_info ty of
          None \<Rightarrow> w
        | Some (hk, fh) \<Rightarrow> w\<lparr>required := True, hotkey_number := hk, fixed_size := (None, fh)\<rparr>)"

definition add_window :: "'c Window \<Rightarrow> ('c, Id) lay" where
  "add_window w s = (case add w (windows s) of
      Ok (i, p) \<Rightarrow> (Ok i, s\<lparr>windows := p\<rparr>)
    | Err e \<Rightarrow> (Err e, s)
    | Panic \<Rightarrow> (Panic, s))"

definition new_window :: "(WindowType \<Rightarrow> 'c) \<Rightarrow> Id option \<Rightarrow> WindowType \<Rightarrow> ('c, Id) lay" where
  "new_window create par ty = sbind (add_window (window_new create par ty)) (\<lambda>w. case par of
      None \<Rightarrow> sret w
    | Some leaf \<Rightarrow> sbind (update_leaf leaf (\<lambda>l. l\<lparr>tabs := tabs l @ [w]\<rparr>)) (\<lambda>_. sret w))"


definition leave_region :: "Id \<Rightarrow> Id \<Rightarrow> WindowRelocation \<Rightarrow> 'c Window \<Rightarrow> ('c, Id list option) lay" where
  "leave_region w i rel x = (case win_region x of
      None \<Rightarrow> sret (Some [])
    | Some from_id \<Rightarrow> sbind (get_leaf from_id) (\<lambda>l. sbind (slift (position_of w (tabs l))) (\<lambda>idx.
        case (from_id = i, rel) of
          (True, AddTab to_idx) \<Rightarrow>
            sbind (slift (apply_action (Reorder idx (min to_idx (length (tabs l)))) (tabs_state l) (tabs l))) (\<lambda>(_, st, ts).
            sbind (update_leaf from_id (\<lambda>_. \<lparr>tabs = ts, tabs_state = st\<rparr>)) (\<lambda>_. sret None))
        | _ \<Rightarrow>
            sbind (slift (apply_action (Close idx) (tabs_state l) (tabs l))) (\<lambda>(_, st, ts).
            sbind (update_leaf from_id (\<lambda>_. \<lparr>tabs = ts, tabs_state = st\<rparr>)) (\<lambda>_. sret (Some [from_id]))))))"

definition add_to_split :: "Id \<Rightarrow> Id \<Rightarrow> nat \<Rightarrow> ('c, Id list) lay" where
  "add_to_split w i wall = sbind (get_split i) (\<lambda>(a, cs).
     if wall = 0 \<or> wall \<ge> length cs then panics
     else sbind (get_region (cs ! (wall - 1))) (\<lambda>prev. sbind (get_region (cs ! wall)) (\<lambda>next.
       sbind (slift (usize (relative_size prev + relative_size next))) (\<lambda>sz.
       let new_size = sz div 3; prev_size = (sz - new_size) div 2 in
       sbind (add_region \<lparr>parent = Some i, content = Leaf (default_leaf\<lparr>tabs := [w]\<rparr>), relative_size = max new_size 1\<rparr>) (\<lambda>n.
       sbind (update_region (cs ! (wall - 1)) (\<lambda>r. r\<lparr>relative_size := max prev_size 1\<rparr>)) (\<lambda>_.
       sbind (update_region (cs ! wall) (\<lambda>r. r\<lparr>relative_size := max (sz - new_size - prev_size) 1\<rparr>)) (\<lambda>_.
       sbind (update_children i (insert_at wall n)) (\<lambda>_.
       sbind (update_window w (\<lambda>x. x\<lparr>win_region := Some n\<rparr>)) (\<lambda>_. sret [n])))))))))"

definition place_window :: "'f f64_ops \<Rightarrow> Id \<Rightarrow> Id \<Rightarrow> WindowRelocation \<Rightarrow> ('c, Id list) lay" where
  "place_window fl w i rel = sbind (get_region i) (\<lambda>_. case rel of
      AddTab k \<Rightarrow> sbind (get_leaf i) (\<lambda>l. let k = min k (length (tabs l)) in
        sbind (update_leaf i (\<lambda>l. \<lparr>tabs = insert_at k w (tabs l), tabs_state = tabs_select k (tabs_state l)\<rparr>)) (\<lambda>_.
        sbind (update_window w (\<lambda>x. x\<lparr>win_region := Some i\<rparr>)) (\<lambda>_. sret [])))
    | AddToExistingSplit wall \<Rightarrow> add_to_split w i wall
    | SplitLeaf a side \<Rightarrow> if side > 1 then panics
        else sbind (split_region fl i a [f_half fl] (1 - side)) (\<lambda>cs.
          if length cs \<noteq> 2 then panics
          else sbind (get_leaf (cs ! side)) (\<lambda>l. if tabs l \<noteq> [] then panics
          else sbind (update_leaf (cs ! side) (\<lambda>l. l\<lparr>tabs := [w]\<rparr>)) (\<lambda>_.
            sbind (update_window w (\<lambda>x. x\<lparr>win_region := Some (cs ! side)\<rparr>)) (\<lambda>_. sret [cs ! side])))))"

definition simplify_region :: "Id \<Rightarrow> ('c, unit) lay" where
  "simplify_region i s = (case try_get (regions s) i of
      None \<Rightarrow> (Ok (), s)
    | Some r \<Rightarrow> (case content r of
        Leaf l \<Rightarrow> if tabs l = [] then remove_leaf i s else simplify_splits i s
      | Split _ _ \<Rightarrow> simplify_splits i s))"

fun simplify_regions :: "Id list \<Rightarrow> ('c, unit) lay" where
  "simplify_regions [] = sret ()"
| "simplify_regions (i # is) = sbind (simplify_region i) (\<lambda>_. simplify_regions is)"

definition relocate_window :: "'f f64_ops \<Rightarrow> Id \<Rightarrow> Id \<Rightarrow> WindowRelocation \<Rightarrow> ('c, unit) lay" where
  "relocate_window fl w i rel = sbind (get_window w) (\<lambda>x. sbind (leave_region w i rel x) (\<lambda>left. case left of
      None \<Rightarrow> sret ()
    | Some from_ids \<Rightarrow> sbind (place_window fl w i rel) (\<lambda>more. simplify_regions (from_ids @ more))))"

definition is_window_relocation_pointless :: "Id \<Rightarrow> Id \<Rightarrow> WindowRelocation \<Rightarrow> ('c, bool) lay" where
  "is_window_relocation_pointless w i rel = sbind (get_window w) (\<lambda>x. case win_region x of
      None \<Rightarrow> sret False
    | Some from_id \<Rightarrow> sbind (get_region from_id) (\<lambda>from. sbind (slift (as_leaf (content from))) (\<lambda>l.
        if length (tabs l) > 1 then sret False
        else if from_id = i then sret True
        else (case parent from of
            None \<Rightarrow> sret False
          | Some p \<Rightarrow> sbind (get_split p) (\<lambda>(pa, cs). sbind (slift (position_of from_id cs)) (\<lambda>idx. sret
              (case rel of
                AddToExistingSplit wall \<Rightarrow> i = p \<and> (wall = idx \<or> wall = idx + 1)
              | SplitLeaf a side \<Rightarrow> a = pa \<and>
                  (if side = 0 then idx + 1 < length cs \<and> cs ! (idx + 1) = i
                   else 0 < idx \<and> idx - 1 < length cs \<and> cs ! (idx - 1) = i)
              | AddTab _ \<Rightarrow> False)))))))"

section \<open>The assertions of \<open>build\<close>\<close>

fun check_tabs :: "'c Layout \<Rightarrow> Id \<Rightarrow> Id list \<Rightarrow> Id list \<Rightarrow> (Id list, unit) result" where
  "check_tabs s i [] vw = Ok vw"
| "check_tabs s i (w # ws) vw =
     (if w \<in> set vw then Panic
      else (case try_get (windows s) w of
          None \<Rightarrow> Panic
        | Some x \<Rightarrow> if win_region x = Some i then check_tabs s i ws (w # vw) else Panic))"

fun check_parents :: "'c Layout \<Rightarrow> Id \<Rightarrow> Id list \<Rightarrow> (unit, unit) result" where
  "check_parents s i [] = Ok ()"
| "check_parents s i (c # cs) = (case try_get (regions s) c of
      None \<Rightarrow> Panic
    | Some r \<Rightarrow> if parent r = Some i then check_parents s i cs else Panic)"

text \<open>The walk over the tree: \<open>vr\<close> and \<open>vw\<close> are the regions and windows visited so far.\<close>

function check_walk :: "'c Layout \<Rightarrow> Id list \<Rightarrow> Id list \<Rightarrow> Id list \<Rightarrow> (Id list \<times> Id list, unit) result" where
  "check_walk s [] vr vw = Ok (vr, vw)"
| "check_walk s (i # stack) vr vw =
     (if i \<in> set vr then Panic
      else (case heap s i of
          None \<Rightarrow> Panic
        | Some r \<Rightarrow> (case content r of
            Leaf l \<Rightarrow> rbind (check_tabs s i (tabs l) vw) (\<lambda>vw. check_walk s stack (i # vr) vw)
          | Split _ cs \<Rightarrow> if cs = [] then Panic
              else rbind (check_parents s i cs) (\<lambda>_. check_walk s (cs @ stack) (i # vr) vw))))"
  by pat_completeness auto
termination
proof (relation "measures [\<lambda>(s, stack, vr, vw). card (dom (heap s) - set vr), \<lambda>(s, stack, vr, vw). length stack]")
qed (auto intro!: psubset_card_mono finite_Diff finite_heap)

definition build_checks :: "'c Layout \<Rightarrow> (unit, unit) result" where
  "build_checks s = rbind (check_walk s [root s] [] []) (\<lambda>(vr, vw).
     rbind (iter (regions s)) (\<lambda>rs. rbind (iter (windows s)) (\<lambda>ws.
       if list_all (\<lambda>e. fst e \<in> set vr) rs \<and> list_all (\<lambda>e. fst e \<in> set vw) ws then Ok () else Panic)))"

end
