(* ===== verification/LayoutInv.thy ===== *)
theory LayoutInv
  imports Layout
begin

text \<open>
  The invariant of the layout: the links between regions form a tree, splits are in simplified
  form, sizes are in their range, and windows and tabs agree. The lemmas compute what the loops of
  \<open>simplify_splits\<close> do to the map from identifiers to regions and show that it restores the
  simplified form without panicking.
\<close>

section \<open>The invariant\<close>

definition par :: "(Id \<Rightarrow> Region option) \<Rightarrow> Id \<Rightarrow> Id option" where
  "par h i = (case h i of Some r \<Rightarrow> parent r | None \<Rightarrow> None)"

definition kids :: "(Id \<Rightarrow> Region option) \<Rightarrow> Id \<Rightarrow> Id list" where
  "kids h i = (case h i of Some r \<Rightarrow> (case content r of Split _ cs \<Rightarrow> cs | Leaf _ \<Rightarrow> []) | None \<Rightarrow> [])"

definition axis_of :: "(Id \<Rightarrow> Region option) \<Rightarrow> Id \<Rightarrow> nat option" where
  "axis_of h i = (case h i of Some r \<Rightarrow> (case content r of Split a _ \<Rightarrow> Some a | Leaf _ \<Rightarrow> None) | None \<Rightarrow> None)"

definition leaf_of :: "(Id \<Rightarrow> Region option) \<Rightarrow> Id \<Rightarrow> RegionLeaf option" where
  "leaf_of h i = (case h i of Some r \<Rightarrow> (case content r of Split _ _ \<Rightarrow> None | Leaf l \<Rightarrow> Some l) | None \<Rightarrow> None)"

definition tabs_of :: "(Id \<Rightarrow> Region option) \<Rightarrow> Id \<Rightarrow> Id list" where
  "tabs_of h i = (case leaf_of h i of Some l \<Rightarrow> tabs l | None \<Rightarrow> [])"

lemma no_region [simp]:
  "h i = None \<Longrightarrow> par h i = None" "h i = None \<Longrightarrow> kids h i = []" "h i = None \<Longrightarrow> axis_of h i = None"
  "h i = None \<Longrightarrow> leaf_of h i = None"
  by (simp_all add: par_def kids_def axis_of_def leaf_of_def)

text \<open>The links form a tree.\<close>

definition tree :: "(Id \<Rightarrow> Region option) \<Rightarrow> Id \<Rightarrow> bool" where
  "tree h rt \<longleftrightarrow> wf_tree (dom h) (par h) (kids h) rt"

text \<open>
  A split has two children at least and no child that is split along the same axis; the regions in
  \<open>X\<close> may have one child and the axis of their parent.
\<close>

definition shaped :: "Id set \<Rightarrow> (Id \<Rightarrow> Region option) \<Rightarrow> bool" where
  "shaped X h \<longleftrightarrow> (\<forall>p a. axis_of h p = Some a \<longrightarrow> (if p \<in> X then 1 else 2) \<le> length (kids h p) \<and>
     (\<forall>c \<in> set (kids h p). c \<notin> X \<longrightarrow> axis_of h c \<noteq> Some a))"

definition sizes :: "(Id \<Rightarrow> Region option) \<Rightarrow> bool" where
  "sizes h \<longleftrightarrow> (\<forall>i r. h i = Some r \<longrightarrow> 1 \<le> relative_size r \<and> relative_size r \<le> 1000000)"

text \<open>A window is a tab of the region it names, once, and of no other.\<close>

definition tabs_inv :: "(Id \<Rightarrow> Region option) \<Rightarrow> (Id \<Rightarrow> 'c Window option) \<Rightarrow> bool" where
  "tabs_inv h w \<longleftrightarrow> (\<forall>i. distinct (tabs_of h i)) \<and>
     (\<forall>i x. x \<in> set (tabs_of h i) \<longleftrightarrow> (\<exists>win. w x = Some win \<and> win_region win = Some i))"

definition pools :: "'c Layout \<Rightarrow> bool" where
  "pools s \<longleftrightarrow> pool_inv (regions s) \<and> pool_inv (windows s)"

definition tree_ok :: "Id set \<Rightarrow> 'c Layout \<Rightarrow> bool" where
  "tree_ok X s \<longleftrightarrow> pools s \<and> tree (heap s) (root s) \<and> shaped X (heap s) \<and> sizes (heap s) \<and> card (dom (heap s)) \<le> 1000000"

definition layout_inv :: "'c Layout \<Rightarrow> bool" where
  "layout_inv s \<longleftrightarrow> tree_ok {} s \<and> tabs_inv (heap s) (wins s)"

text \<open>What the operations on regions leave alone.\<close>

definition frame :: "'c Layout \<Rightarrow> 'c Layout \<Rightarrow> bool" where
  "frame s s' \<longleftrightarrow> windows s' = windows s \<and> active_window s' = active_window s \<and> (pools s \<longrightarrow> pools s') \<and>
     next_seqno (regions s') = next_seqno (regions s)"

lemma frame_refl [simp]: "frame s s"
  by (simp add: frame_def)

lemma frame_trans: "frame s t \<Longrightarrow> frame t u \<Longrightarrow> frame s u"
  by (simp add: frame_def)

lemma frame_put_region [simp]: "frame s (put_region i r s)"
  by (simp add: frame_def put_region_def pools_def pool_inv_try_set)

lemma root_put_region [simp]: "root (put_region i r s) = root s"
  by (simp add: put_region_def)

lemma frame_root [simp]: "frame s (s\<lparr>root := r\<rparr>)"
  by (simp add: frame_def pools_def)

lemma heap_root [simp]: "heap (s\<lparr>root := r\<rparr>) = heap s"
  by (simp add: heap_def)

lemma wins_frame: "frame s s' \<Longrightarrow> wins s' = wins s"
  by (simp add: frame_def wins_def)

lemma remove_region_run:
  "\<exists>s'. remove_region i s = (Ok (heap s i), s') \<and> heap s' = (heap s)(i := None) \<and> frame s s' \<and> root s' = root s"
proof -
  obtain v p where p: "remove i (regions s) = (v, p)" by fastforce
  have "v = try_get (regions s) i" "try_get p = (try_get (regions s))(i := None)" "next_seqno p = next_seqno (regions s)"
    "pool_inv (regions s) \<Longrightarrow> pool_inv p"
    using remove_value [of i "regions s"] try_get_removed [of i "regions s"] pool_inv_remove [of "regions s" i]
      next_seqno_remove [of i "regions s"] unfolding p by simp_all
  then show ?thesis by (auto simp: remove_region_def p heap_def frame_def pools_def)
qed

text \<open>Changes of the sizes only.\<close>

definition resize :: "(Id \<Rightarrow> nat) \<Rightarrow> Id set \<Rightarrow> (Id \<Rightarrow> Region option) \<Rightarrow> Id \<Rightarrow> Region option" where
  "resize f X h = (\<lambda>i. if i \<in> X then map_option (\<lambda>r. r\<lparr>relative_size := f i\<rparr>) (h i) else h i)"

lemma resize_sel [simp]:
  "par (resize f X h) = par h" "kids (resize f X h) = kids h" "axis_of (resize f X h) = axis_of h"
  "leaf_of (resize f X h) = leaf_of h" "tabs_of (resize f X h) = tabs_of h" "dom (resize f X h) = dom h"
proof -
  have h: "resize f X h i = map_option (\<lambda>r. r\<lparr>relative_size := (if i \<in> X then f i else relative_size r)\<rparr>) (h i)" for i
    by (cases "h i") (simp_all add: resize_def)
  show "par (resize f X h) = par h" "kids (resize f X h) = kids h" "axis_of (resize f X h) = axis_of h"
    and lf: "leaf_of (resize f X h) = leaf_of h"
    by (simp_all add: par_def kids_def axis_of_def leaf_of_def h fun_eq_iff option.case_eq_if option.map_sel)
  show "tabs_of (resize f X h) = tabs_of h" by (simp add: tabs_of_def lf fun_eq_iff)
  show "dom (resize f X h) = dom h" by (simp add: dom_def h)
qed

lemma resize_Cons:
  "c \<notin> X \<Longrightarrow> h c = Some r \<Longrightarrow> resize f X (h(c \<mapsto> r\<lparr>relative_size := n\<rparr>)) = resize (f(c := n)) (insert c X) h"
  by (auto simp: resize_def fun_eq_iff)

lemma resize_sizes:
  "sizes h \<Longrightarrow> (\<And>i r. i \<in> X \<Longrightarrow> h i = Some r \<Longrightarrow> 1 \<le> f i \<and> f i \<le> 1000000) \<Longrightarrow> sizes (resize f X h)"
  by (auto simp: sizes_def resize_def)

definition size_of :: "(Id \<Rightarrow> Region option) \<Rightarrow> Id \<Rightarrow> nat" where
  "size_of h i = (case h i of Some r \<Rightarrow> relative_size r | None \<Rightarrow> 0)"

definition adopted :: "Id \<Rightarrow> Id set \<Rightarrow> (Id \<Rightarrow> Region option) \<Rightarrow> Id \<Rightarrow> Region option" where
  "adopted p X h = (\<lambda>i. if i \<in> X then map_option (\<lambda>r. r\<lparr>parent := Some p\<rparr>) (h i) else h i)"

lemma adopted_sel [simp]:
  "kids (adopted p X h) = kids h" "axis_of (adopted p X h) = axis_of h" "leaf_of (adopted p X h) = leaf_of h"
  "dom (adopted p X h) = dom h" "size_of (adopted p X h) = size_of h"
  "X \<subseteq> dom h \<Longrightarrow> par (adopted p X h) = (\<lambda>x. if x \<in> X then Some p else par h x)"
  by (auto simp: adopted_def par_def kids_def axis_of_def leaf_of_def size_of_def fun_eq_iff dom_def split: option.splits)

lemma sizes_alt: "sizes h \<longleftrightarrow> (\<forall>i \<in> dom h. 1 \<le> size_of h i \<and> size_of h i \<le> 1000000)"
  by (auto simp: sizes_def size_of_def Ball_def dom_def split: option.splits)

lemma sizes_adopted [simp]: "sizes (adopted p X h) = sizes h"
  by (simp add: sizes_alt)

text \<open>The selectors after an assignment.\<close>

lemma upd_sel [simp]:
  "par (h(i \<mapsto> r)) = (par h)(i := parent r)" "par (h(i := None)) = (par h)(i := None)"
  "kids (h(i \<mapsto> r)) = (kids h)(i := (case content r of Split _ cs \<Rightarrow> cs | Leaf _ \<Rightarrow> []))"
  "kids (h(i := None)) = (kids h)(i := [])"
  "axis_of (h(i \<mapsto> r)) = (axis_of h)(i := (case content r of Split a _ \<Rightarrow> Some a | Leaf _ \<Rightarrow> None))"
  "axis_of (h(i := None)) = (axis_of h)(i := None)"
  "leaf_of (h(i \<mapsto> r)) = (leaf_of h)(i := (case content r of Split _ _ \<Rightarrow> None | Leaf l \<Rightarrow> Some l))"
  "leaf_of (h(i := None)) = (leaf_of h)(i := None)"
  by (auto simp: par_def kids_def axis_of_def leaf_of_def fun_eq_iff)

lemma sizes_upd: "sizes h \<Longrightarrow> 1 \<le> relative_size r \<Longrightarrow> relative_size r \<le> 1000000 \<Longrightarrow> sizes (h(i \<mapsto> r))"
  by (simp add: sizes_def)

lemma sizes_remove: "sizes h \<Longrightarrow> sizes (h(i := None))"
  by (simp add: sizes_def)

lemma adopt_run:
  assumes "distinct cs" "set cs \<subseteq> dom (heap s)" "n + sum_list (map (size_of (heap s)) cs) < 2 ^ 64"
  shows "\<exists>s'. adopt p cs n s = (Ok (n + sum_list (map (size_of (heap s)) cs)), s') \<and> frame s s' \<and> root s' = root s \<and>
    heap s' = adopted p (set cs) (heap s)"
  using assms
proof (induction cs arbitrary: s n)
  case (Cons c cs)
  then obtain r where r: "heap s c = Some r" by auto
  let ?s = "put_region c (r\<lparr>parent := Some p\<rparr>) s" and ?n = "n + relative_size r"
  have h: "heap ?s = (heap s)(c \<mapsto> r\<lparr>parent := Some p\<rparr>)" using r by simp
  have same: "map (size_of (heap ?s)) cs = map (size_of (heap s)) cs"
    using Cons.prems(1) h by (auto simp: size_of_def)
  have sz: "size_of (heap s) c = relative_size r" using r by (simp add: size_of_def)
  have d: "distinct cs" "set cs \<subseteq> dom (heap ?s)" using Cons.prems(1,2) h by auto
  have "?n + sum_list (map (size_of (heap ?s)) cs) < 2 ^ 64" using Cons.prems(3) sz unfolding same by simp
  from Cons.IH [OF d this] obtain s' where
    I: "adopt p cs ?n ?s = (Ok (?n + sum_list (map (size_of (heap ?s)) cs)), s')" "frame ?s s'" "root s' = root ?s"
      "heap s' = adopted p (set cs) (heap ?s)"
    by blast
  have lt: "?n < 2 ^ 64" using Cons.prems(3) sz by simp
  have "adopt p (c # cs) n s = adopt p cs ?n ?s" using lt
    by (simp add: get_region_eq update_region_eq slift_def r usize_def)
  moreover have "heap s' = adopted p (set (c # cs)) (heap s)"
    using I(4) h r Cons.prems(1) by (auto simp: fun_eq_iff adopted_def)
  moreover have "?n + sum_list (map (size_of (heap ?s)) cs) = n + sum_list (map (size_of (heap s)) (c # cs))"
    unfolding same by (simp add: sz)
  ultimately show ?case using I(1,3) frame_trans [OF frame_put_region I(2)] by auto
qed (simp add: sret_def adopted_def)

lemma rescale_run:
  assumes "distinct cs" "set cs \<subseteq> dom (heap s)" "sizes (heap s)" "sz \<le> 1000000" "1 \<le> sz" "0 < tot"
    "\<And>c. c \<in> set cs \<Longrightarrow> size_of (heap s) c \<le> tot"
  shows "\<exists>s' f. rescale sz tot cs s = (Ok (), s') \<and> frame s s' \<and> root s' = root s \<and>
    heap s' = resize f (set cs) (heap s) \<and> (\<forall>i \<in> set cs. 1 \<le> f i \<and> f i \<le> 1000000)"
  using assms
proof (induction cs arbitrary: s)
  case (Cons c cs)
  then obtain r where r: "heap s c = Some r" by auto
  let ?m = "max (relative_size r * sz div tot) 1"
  let ?s = "put_region c (r\<lparr>relative_size := ?m\<rparr>) s"
  have h: "heap ?s = (heap s)(c \<mapsto> r\<lparr>relative_size := ?m\<rparr>)" using r by simp
  have rs: "1 \<le> relative_size r" "relative_size r \<le> 1000000" "relative_size r \<le> tot"
    using Cons.prems(3) Cons.prems(7) [of c] r by (auto simp: sizes_def size_of_def)
  have "relative_size r * sz div tot \<le> tot * sz div tot" using rs(3) by (intro div_le_mono mult_le_mono1)
  then have m: "1 \<le> ?m" "?m \<le> 1000000" using Cons.prems(4-6) by simp_all
  have d: "distinct cs" "set cs \<subseteq> dom (heap ?s)" "sizes (heap ?s)" using Cons.prems(1-3) h m by (auto simp: sizes_def)
  have t: "size_of (heap ?s) x \<le> tot" if "x \<in> set cs" for x
    using Cons.prems(1,7) that h by (auto simp: size_of_def)
  from Cons.IH [OF d Cons.prems(4-6) t] obtain s' f where
    I: "rescale sz tot cs ?s = (Ok (), s')" "frame ?s s'" "root s' = root ?s"
      "heap s' = resize f (set cs) (heap ?s)" "\<forall>i \<in> set cs. 1 \<le> f i \<and> f i \<le> 1000000"
    by blast
  have "relative_size r * sz \<le> 1000000 * 1000000" using rs Cons.prems(4) by (intro mult_le_mono)
  then have "rescale sz tot (c # cs) s = rescale sz tot cs ?s" using Cons.prems(6)
    by (simp add: get_region_eq update_region_eq slift_def r usize_def)
  moreover have "heap s' = resize (f(c := ?m)) (set (c # cs)) (heap s)"
    unfolding I(4) h using resize_Cons [of c "set cs" "heap s" r f ?m] r Cons.prems(1) by simp
  moreover have "\<forall>i \<in> set (c # cs). 1 \<le> (f(c := ?m)) i \<and> (f(c := ?m)) i \<le> 1000000" using I(5) m by auto
  ultimately show ?case using I(1,3) frame_trans [OF frame_put_region I(2)] by auto
qed (auto simp: sret_def resize_def)


lemma sum_sizes_bound:
  assumes "sizes h" shows "sum_list (map (size_of h) cs) \<le> 1000000 * length cs"
proof (induction cs)
  case (Cons c cs)
  have "size_of h c \<le> 1000000" using assms by (auto simp: sizes_def size_of_def split: option.splits)
  with Cons show ?case by simp
qed simp

lemma size_le_sum: "c \<in> set cs \<Longrightarrow> size_of h c \<le> sum_list (map (size_of h) cs)"
  by (rule member_le_sum_list) simp_all

lemma kids_few:
  assumes "tree h rt" "finite (dom h)" "card (dom h) \<le> n" shows "length (kids h p) \<le> n"
proof -
  have wf: "wf_tree (dom h) (par h) (kids h) rt" using assms(1) by (simp add: tree_def)
  have "length (kids h p) = card (set (kids h p))" using wf_treeD(4) [OF wf] distinct_card by metis
  also have "\<dots> \<le> card (dom h)" using wf_treeD(3) [OF wf] by (intro card_mono assms(2) subsetI) simp
  finally show ?thesis using assms(3) by simp
qed

lemma take_over_run:
  assumes inv: "tree (heap s) (root s)" "sizes (heap s)" "card (dom (heap s)) \<le> 1000000"
    and i: "heap s i = Some r" "content r = Split a cs" "cs \<noteq> []" "parent r = Some p"
    and p: "heap s p = Some pr" "content pr = Split pa pcs"
  shows "\<exists>s'. take_over i (relative_size r) a cs p idx s =
      (Ok (case cs of [] \<Rightarrow> Some p | [c] \<Rightarrow> Some c | _ \<Rightarrow> None), s') \<and>
    frame s s' \<and> root s' = root s \<and> sizes (heap s') \<and> dom (heap s') = dom (heap s) - {i} \<and>
    par (heap s') = (\<lambda>x. if x \<in> set cs then Some p else if x = i then None else par (heap s) x) \<and>
    kids (heap s') = (\<lambda>x. if x = p then splice_at idx cs pcs else if x = i then [] else kids (heap s) x) \<and>
    axis_of (heap s') = (axis_of (heap s))(i := None) \<and> leaf_of (heap s') = leaf_of (heap s)"
proof -
  let ?h = "heap s"
  have wf: "wf_tree (dom ?h) (par ?h) (kids ?h) (root s)" using inv(1) by (simp add: tree_def)
  have kids: "kids ?h i = cs" "par ?h i = Some p" using i by (simp_all add: kids_def par_def)
  note F = parent_facts [OF wf _ kids(2)] and W = wf_treeD [OF wf]
  have idom: "i \<in> dom ?h" using i by auto
  note F = F [OF idom]
  have cs: "distinct cs" "set cs \<subseteq> dom ?h" "i \<notin> set cs" "p \<notin> set cs"
    using W(3) [of _ i] W(4) [of i] F(3,5) kids by auto
  let ?s1 = "put_region i (r\<lparr>content := Split a []\<rparr>) s"
  have h1: "heap ?s1 = ?h(i \<mapsto> r\<lparr>content := Split a []\<rparr>)" using i(1) by simp
  have sz1: "map (size_of (heap ?s1)) cs = map (size_of ?h) cs" unfolding h1 using cs(3) by (auto simp: size_of_def)
  have "length cs \<le> 1000000" using kids_few [OF inv(1) finite_heap inv(3), of i] kids by simp
  then have bound: "sum_list (map (size_of ?h) cs) \<le> 1000000 * 1000000"
    using sum_sizes_bound [OF inv(2), of cs] by linarith
  have d1: "set cs \<subseteq> dom (heap ?s1)" unfolding h1 using cs(2) by auto
  have "0 + sum_list (map (size_of (heap ?s1)) cs) < 2 ^ 64" unfolding sz1 using bound by simp
  from adopt_run [OF cs(1) d1 this, of p] obtain s2 where
    2: "adopt p cs 0 ?s1 = (Ok (sum_list (map (size_of ?h) cs)), s2)" "frame ?s1 s2" "root s2 = root s"
      "heap s2 = adopted p (set cs) (heap ?s1)"
    unfolding sz1 by auto
  have r: "1 \<le> relative_size r" "relative_size r \<le> 1000000" using inv(2) i(1) by (auto simp: sizes_def)
  have s1: "sizes (heap ?s1)" unfolding h1 using inv(2) r by (intro sizes_upd) simp_all
  have pos: "0 < sum_list (map (size_of ?h) cs)"
  proof -
    obtain c where c: "c \<in> set cs" using i(3) by (cases cs) auto
    then obtain cr where "?h c = Some cr" using cs(2) by auto
    then have "1 \<le> size_of ?h c" using inv(2) by (auto simp: size_of_def sizes_def)
    with size_le_sum [OF c, of ?h] show ?thesis by simp
  qed
  have le: "size_of (heap s2) c \<le> sum_list (map (size_of ?h) cs)" if "c \<in> set cs" for c
  proof -
    have "size_of (heap s2) c = size_of ?h c" unfolding 2(4) h1 using that cs(3)
      by (auto simp: size_of_def adopted_def split: option.splits)
    with size_le_sum [OF that, of ?h] show ?thesis by simp
  qed
  have d2: "set cs \<subseteq> dom (heap s2)" "sizes (heap s2)" unfolding 2(4) using d1 s1 by simp_all
  from rescale_run [OF cs(1) d2 r(2,1) pos le] obtain s3 f where
    3: "rescale (relative_size r) (sum_list (map (size_of ?h) cs)) cs s2 = (Ok (), s3)" "frame s2 s3" "root s3 = root s2"
      "heap s3 = resize f (set cs) (heap s2)" "\<forall>i \<in> set cs. 1 \<le> f i \<and> f i \<le> 1000000" by blast
  have p3: "heap s3 p = Some pr" unfolding 3(4) 2(4) h1 using p cs(4) F(3) by (auto simp: resize_def adopted_def)
  let ?s4 = "put_region p (pr\<lparr>content := Split pa (splice_at idx cs pcs)\<rparr>) s3"
  have 4: "update_children p (splice_at idx cs) s3 = (Ok (), ?s4)"
    using p3 p(2) by (simp add: update_children_def get_split_eq update_region_eq)
  have h4: "heap ?s4 = (heap s3)(p \<mapsto> pr\<lparr>content := Split pa (splice_at idx cs pcs)\<rparr>)" using p3 by simp
  obtain v s5 where 5: "remove_region i ?s4 = (Ok v, s5)" "heap s5 = (heap ?s4)(i := None)" "frame ?s4 s5" "root s5 = root ?s4"
    using remove_region_run [of i ?s4] by blast
  have run: "take_over i (relative_size r) a cs p idx s =
      (Ok (case cs of [] \<Rightarrow> Some p | [c] \<Rightarrow> Some c | _ \<Rightarrow> None), s5)"
    unfolding take_over_def using 2(1) 3(1) 4 5(1) by (simp add: update_region_eq i(1) sret_def)
  have fr: "frame s s5"
    by (rule frame_trans [OF frame_put_region frame_trans [OF 2(2) frame_trans [OF 3(2) frame_trans [OF frame_put_region 5(3)]]]])
  have pr: "1 \<le> relative_size pr" "relative_size pr \<le> 1000000" using inv(2) p(1) by (auto simp: sizes_def)
  have sz: "sizes (heap s5)" unfolding 5(2) h4 3(4)
    using 3(5) d2(2) pr by (intro sizes_remove sizes_upd resize_sizes) auto
  have dm: "dom (heap s5) = dom ?h - {i}" unfolding 5(2) h4 3(4) 2(4) h1 using i(1) p(1) by auto
  have pa: "par (heap s5) = (\<lambda>x. if x \<in> set cs then Some p else if x = i then None else par ?h x)"
    unfolding 5(2) h4 3(4) 2(4) using d1 cs(3,4) p(1) i(1) by (auto simp: fun_eq_iff par_def adopted_def resize_def h1)
  have kd: "kids (heap s5) = (\<lambda>x. if x = p then splice_at idx cs pcs else if x = i then [] else kids ?h x)"
    unfolding 5(2) h4 3(4) 2(4) h1 using F(3) by (auto simp: fun_eq_iff)
  have ax: "axis_of (heap s5) = (axis_of ?h)(i := None)"
    unfolding 5(2) h4 3(4) 2(4) h1 using p i(1,2) by (auto simp: fun_eq_iff axis_of_def)
  have lf: "leaf_of (heap s5) = leaf_of ?h"
    unfolding 5(2) h4 3(4) 2(4) h1 using p i(1,2) by (auto simp: fun_eq_iff leaf_of_def)
  show ?thesis using run fr sz dm pa kd ax lf 2(3) 3(3) 5(4) by auto
qed


section \<open>Simplification restores the invariant\<close>

text \<open>What simplification keeps: the windows, the leaves, and no region is new.\<close>

definition simplified :: "'c Layout \<Rightarrow> 'c Layout \<Rightarrow> bool" where
  "simplified s s' \<longleftrightarrow> frame s s' \<and> dom (heap s') \<subseteq> dom (heap s) \<and> leaf_of (heap s') = leaf_of (heap s)"

lemma simplified_refl: "simplified s s"
  by (simp add: simplified_def)

lemma simplified_trans: "simplified s t \<Longrightarrow> simplified t u \<Longrightarrow> simplified s u"
  unfolding simplified_def by (metis frame_trans order_trans)

lemma simplified_inv:
  assumes "tree_ok X s" "simplified s s'" "tree (heap s') (root s')" "shaped Y (heap s')" "sizes (heap s')"
  shows "tree_ok Y s'"
proof -
  have "pools s'" using assms(1,2) by (simp add: tree_ok_def simplified_def frame_def)
  moreover have "card (dom (heap s')) \<le> 1000000"
    using card_mono [OF finite_heap, of "dom (heap s')" s] assms(1,2) by (simp add: tree_ok_def simplified_def)
  ultimately show ?thesis using assms(3-5) by (simp add: tree_ok_def)
qed

lemma tabs_of_leaf_of: "leaf_of h' = leaf_of h \<Longrightarrow> tabs_of h' = tabs_of h"
  by (simp add: tabs_of_def fun_eq_iff)

lemma shapedD:
  assumes "shaped X h" "axis_of h p = Some a"
  shows "p \<notin> X \<Longrightarrow> 2 \<le> length (kids h p)" "1 \<le> length (kids h p)"
    "c \<in> set (kids h p) \<Longrightarrow> c \<notin> X \<Longrightarrow> axis_of h c \<noteq> Some a"
  using assms by (auto simp: shaped_def split: if_splits)

lemma axis_of_kids: "kids h p \<noteq> [] \<Longrightarrow> \<exists>a. axis_of h p = Some a"
  by (auto simp: kids_def axis_of_def split: option.splits RegionContent.splits)

text \<open>The shape after \<open>i\<close> was merged into its parent.\<close>

lemma shaped_merged:
  assumes sh: "shaped {i} h" and wf: "wf_tree (dom h) (par h) (kids h) rt"
    and i: "i \<in> dom h" "par h i = Some p" "axis_of h i = Some a" "kids h i = cs" "axis_of h p = Some pa"
    and k: "idx < length (kids h p)" "kids h p ! idx = i"
    and one: "pa = a \<or> length cs = 1"
    and h': "kids h' = (\<lambda>x. if x = p then splice_at idx cs (kids h p) else if x = i then [] else kids h x)"
      "axis_of h' = (axis_of h)(i := None)"
  shows "shaped (if length cs = 1 then set cs else {}) h'"
  unfolding shaped_def
proof (intro allI impI)
  fix q b assume q: "axis_of h' q = Some b"
  let ?X = "if length cs = 1 then set cs else {}"
  note F = parent_facts [OF wf i(1,2)] and W = wf_treeD [OF wf]
  have qi: "q \<noteq> i" and qb: "axis_of h q = Some b" using q h'(2) by (auto split: if_splits)
  have len: "1 \<le> length cs" using shapedD(2) [OF sh i(3)] i(4) by simp
  note Q = shapedD [OF sh qb]
  have two: "2 \<le> length (kids h q)" using Q(1) qi by simp
  show "(if q \<in> ?X then 1 else 2) \<le> length (kids h' q) \<and> (\<forall>c \<in> set (kids h' q). c \<notin> ?X \<longrightarrow> axis_of h' c \<noteq> Some b)"
  proof (cases "q = p")
    case False
    then have kq: "kids h' q = kids h q" using qi h'(1) by simp
    have "axis_of h' c \<noteq> Some b" if "c \<in> set (kids h q)" for c
    proof (cases "c = i")
      case False
      then show ?thesis using Q(3) [OF that] h'(2) by simp
    qed (simp add: h'(2))
    then show ?thesis using kq two by auto
  next
    case True
    have kp: "kids h' p = splice_at idx cs (kids h p)" using h'(1) by simp
    have "length (kids h' p) = length (kids h p) + length cs - 1" unfolding kp by (rule length_splice_at [OF k(1)])
    then have l: "2 \<le> length (kids h' q)" using True two len by simp
    have disj: "set cs \<inter> set (kids h p) = {}" using W(3) F(3) i(4) by auto
    have st: "set (kids h' p) = set (kids h p) - {i} \<union> set cs"
      using set_splice_at(1) [OF W(4) k(1) _ disj] W(4) [of i] i(4) k(2) kp by simp
    have "axis_of h' c \<noteq> Some b" if c: "c \<in> set (kids h' q)" "c \<notin> ?X" for c
    proof (cases "c \<in> set cs")
      case True': True
      then have "pa = a" using c(2) one by (auto split: if_splits)
      moreover have "c \<notin> {i}" using True' W(3) [of c i] i(2,4) F(3) by auto
      ultimately have "axis_of h c \<noteq> Some b" using shapedD(3) [OF sh i(3)] True' True i(4,5) qb by auto
      then show ?thesis using h'(2) by simp
    next
      case False
      then have "c \<in> set (kids h q)" "c \<noteq> i" using c(1) st True by auto
      then show ?thesis using Q(3) h'(2) by simp
    qed
    with l show ?thesis by auto
  qed
qed

lemma shaped_clear:
  assumes "shaped {i} h" "\<And>a. axis_of h i = Some a \<Longrightarrow> 2 \<le> length (kids h i)"
    "\<And>p a. i \<in> set (kids h p) \<Longrightarrow> axis_of h p = Some a \<Longrightarrow> axis_of h i \<noteq> Some a"
  shows "shaped {} h"
  unfolding shaped_def
proof (intro allI impI)
  fix p a assume p: "axis_of h p = Some a"
  note P = shapedD [OF assms(1) p]
  show "(if p \<in> {} then 1 else 2) \<le> length (kids h p) \<and> (\<forall>c \<in> set (kids h p). c \<notin> {} \<longrightarrow> axis_of h c \<noteq> Some a)"
    using P(1) P(3) assms(2) [of a] assms(3) [OF _ p] p by (cases "p = i") auto
qed


lemma simplify_merge:
  assumes inv: "tree_ok {i} s" and i: "heap s i = Some r" "content r = Split a cs" "parent r = Some p"
    and j: "simplify_step i s = (x, s')"
  shows "\<exists>j. x = Ok j \<and> simplified s s' \<and>
    (case j of None \<Rightarrow> tree_ok {} s' | Some c \<Rightarrow> tree_ok {c} s' \<and> c \<in> dom (heap s'))"
proof -
  let ?h = "heap s"
  have tr: "tree ?h (root s)" "sizes ?h" "card (dom ?h) \<le> 1000000" "shaped {i} ?h"
    using inv by (simp_all add: tree_ok_def)
  then have wf: "wf_tree (dom ?h) (par ?h) (kids ?h) (root s)" by (simp add: tree_def)
  have i': "i \<in> dom ?h" "par ?h i = Some p" "axis_of ?h i = Some a" "kids ?h i = cs"
    using i by (auto simp: par_def axis_of_def kids_def)
  note F = parent_facts [OF wf i'(1,2)] and W = wf_treeD [OF wf]
  obtain pa where pa: "axis_of ?h p = Some pa" using axis_of_kids [of ?h p] F(2) by force
  then obtain pr pcs where p: "heap s p = Some pr" "content pr = Split pa pcs"
    by (auto simp: axis_of_def split: option.splits RegionContent.splits)
  have pcs: "kids ?h p = pcs" using p by (simp add: kids_def)
  have cs: "1 \<le> length cs" using shapedD(2) [OF tr(4) i'(3)] i'(4) by simp
  have step: "simplify_step i s = merge_into_parent i (relative_size r) a cs p s"
    using i by (simp add: simplify_step_def get_region_eq)
  show ?thesis
  proof (cases "pa \<noteq> a \<and> length cs > 1")
    case True
    then have x: "x = Ok None" "s' = s"
      using j step p by (simp_all add: merge_into_parent_def get_split_eq sret_def)
    have "shaped {} ?h"
    proof (rule shaped_clear [OF tr(4)])
      show "2 \<le> length (kids ?h i)" using True i'(4) by simp
      fix q b assume q: "i \<in> set (kids ?h q)" "axis_of ?h q = Some b"
      then have "q = p" using W(3) [of i q] i'(2) by simp
      with q pa i'(3) True show "axis_of ?h i \<noteq> Some b" by simp
    qed
    then show ?thesis using x inv by (simp add: simplified_refl tree_ok_def)
  next
    case False
    obtain idx where idx: "position i pcs = Some idx" "idx < length pcs" "pcs ! idx = i"
      using position_in [of i pcs] F(2) pcs by auto
    have run: "(x, s') = take_over i (relative_size r) a cs p idx s"
      using False j step p idx(1) by (auto simp: merge_into_parent_def get_split_eq position_of_def slift_def)
    have ne: "cs \<noteq> []" using cs by auto
    note T = take_over_run [OF tr(1-3) i(1,2) ne i(3) p, of idx, folded run, simplified]
    then have x: "x = Ok (case cs of [] \<Rightarrow> Some p | [c] \<Rightarrow> Some c | _ \<Rightarrow> None)" and fr: "frame s s'" and
      rt: "root s' = root s" and sz: "sizes (heap s')" and dm: "dom (heap s') = dom ?h - {i}" and
      pr: "par (heap s') = (\<lambda>x. if x \<in> set cs then Some p else if x = i then None else par ?h x)" and
      kd: "kids (heap s') = (\<lambda>x. if x = p then splice_at idx cs pcs else if x = i then [] else kids ?h x)" and
      ax: "axis_of (heap s') = (axis_of ?h)(i := None)" and lf: "leaf_of (heap s') = leaf_of ?h"
      by blast+
    have simp: "simplified s s'" using fr dm lf by (auto simp: simplified_def)
    have idx': "idx < length (kids ?h p)" "kids ?h p ! idx = i" using idx pcs by simp_all
    have "wf_tree (dom ?h - {i}) (\<lambda>x. if x \<in> set (kids ?h i) then Some p else par ?h x)
        (\<lambda>x. if x = p then splice_at idx (kids ?h i) (kids ?h p) else if x = i then [] else kids ?h x) (root s)"
      by (rule wf_tree_splice [OF wf i'(1,2) idx'])
    then have "wf_tree (dom ?h - {i}) (par (heap s')) (kids (heap s')) (root s)"
      by (rule wf_tree_cong) (auto simp: pr kd i'(4) pcs p(1) F(3))
    then have tree: "tree (heap s') (root s')" by (simp add: tree_def dm rt)
    have "pa = a \<or> length cs = 1" using False cs by auto
    then have shp: "shaped (if length cs = 1 then set cs else {}) (heap s')"
      by (rule shaped_merged [OF tr(4) wf i' pa idx' _ kd [folded pcs] ax])
    note R = simplified_inv [OF inv simp tree shp sz]
    show ?thesis
    proof (cases "length cs = 1")
      case True
      then obtain c where c: "cs = [c]" by (cases cs) auto
      have "c \<in> dom ?h" "c \<noteq> i" using W(3) [of c i] i'(2,4) F(3) c by auto
      then show ?thesis using R x simp c dm by simp
    next
      case False
      then obtain c d ds where "cs = c # d # ds" using cs by (cases cs rule: remdups_adj.cases) auto
      then show ?thesis using R x simp by simp
    qed
  qed
qed


lemma simplify_root_run:
  assumes inv: "tree_ok {i} s" and i: "heap s i = Some r" "content r = Split a cs" "parent r = None"
  shows "\<exists>s'. simplify_step i s = (Ok None, s') \<and> simplified s s' \<and> tree_ok {} s'"
proof -
  let ?h = "heap s"
  have tr: "tree ?h (root s)" "sizes ?h" "shaped {i} ?h" using inv by (simp_all add: tree_ok_def)
  then have wf: "wf_tree (dom ?h) (par ?h) (kids ?h) (root s)" by (simp add: tree_def)
  have i': "i \<in> dom ?h" "par ?h i = None" "axis_of ?h i = Some a" "kids ?h i = cs"
    using i by (auto simp: par_def axis_of_def kids_def)
  note W = wf_treeD [OF wf]
  have rt: "i = root s" using W(6) [OF i'(1)] i'(2) by (cases rule: climbs.cases) auto
  have cs: "1 \<le> length cs" using shapedD(2) [OF tr(3) i'(3)] i'(4) by simp
  have no: "i \<notin> set (kids ?h q)" for q using W(3) [of i q] i'(2) by simp
  have step: "simplify_step i s = (case simplify_root i cs s of (Ok _, s') \<Rightarrow> (Ok None, s')
      | (Err e, s') \<Rightarrow> (Err e, s') | (Panic, s') \<Rightarrow> (Panic, s'))"
    using i by (auto simp: simplify_step_def get_region_eq sret_def split: result.splits prod.splits)
  show ?thesis
  proof (cases "length cs = 1")
    case False
    then have "simplify_step i s = (Ok None, s)" using step rt cs by (auto simp: simplify_root_def)
    moreover have "shaped {} ?h"
      by (rule shaped_clear [OF tr(3)]) (use False cs i' no in auto)
    ultimately show ?thesis using inv by (simp add: simplified_refl tree_ok_def)
  next
    case True
    then obtain c where c: "cs = [c]" by (cases cs) auto
    have c': "c \<in> dom ?h" "par ?h c = Some i" "c \<noteq> i" using W(3) [of c i] i'(2,4) c by auto
    then obtain cr where cr: "?h c = Some cr" by auto
    let ?s1 = "s\<lparr>root := c\<rparr>" and ?s2 = "put_region c (cr\<lparr>parent := None\<rparr>) (s\<lparr>root := c\<rparr>)"
    have h2: "heap ?s2 = ?h(c \<mapsto> cr\<lparr>parent := None\<rparr>)" using cr by simp
    obtain s3 where 3: "remove_region i ?s2 = (Ok (heap ?s2 i), s3)" "heap s3 = (heap ?s2)(i := None)" "frame ?s2 s3"
        "root s3 = root ?s2"
      using remove_region_run [of i ?s2] by blast
    have live: "heap ?s2 i \<noteq> None" unfolding h2 using i(1) c'(3) by simp
    have run: "simplify_step i s = (Ok None, s3)"
      using step rt c cr 3(1) live by (simp add: simplify_root_def update_region_eq sret_def panics_def)
    have h3: "heap s3 = ?h(c \<mapsto> cr\<lparr>parent := None\<rparr>, i := None)" unfolding 3(2) h2 ..
    have fr: "frame s s3" by (rule frame_trans [OF frame_root frame_trans [OF frame_put_region 3(3)]])
    have sel: "dom (heap s3) = dom ?h - {i}" "par (heap s3) = (par ?h)(c := None, i := None)"
      "kids (heap s3) = (kids ?h)(i := [])" "axis_of (heap s3) = (axis_of ?h)(i := None)" "leaf_of (heap s3) = leaf_of ?h"
      unfolding h3 using cr i c'(3) by (auto simp: fun_eq_iff kids_def axis_of_def leaf_of_def par_def)
    have simp: "simplified s s3" using fr sel(1,5) by (auto simp: simplified_def)
    have "kids ?h (root s) = [c]" using i'(4) rt c by simp
    from wf_tree_new_root [OF wf this] have "wf_tree (dom ?h - {i}) ((par ?h)(c := None)) ((kids ?h)(i := [])) c"
      using rt by simp
    then have "wf_tree (dom ?h - {i}) (par (heap s3)) (kids (heap s3)) c"
      by (rule wf_tree_cong) (auto simp: sel domIff simp del: not_None_eq)
    then have tree: "tree (heap s3) (root s3)" using sel(1) 3(4) by (simp add: tree_def)
    have sz: "sizes (heap s3)" unfolding h3 using tr(2) cr by (intro sizes_remove sizes_upd) (auto simp: sizes_def)
    have "shaped {} (heap s3)" unfolding shaped_def
    proof (intro allI impI)
      fix q b assume "axis_of (heap s3) q = Some b"
      then have q: "q \<noteq> i" "axis_of ?h q = Some b" using sel(4) by (auto split: if_splits)
      note Q = shapedD [OF tr(3) q(2)]
      have "axis_of (heap s3) x \<noteq> Some b" if "x \<in> set (kids ?h q)" for x using Q(3) [OF that] sel(4) by simp
      then show "(if q \<in> {} then 1 else 2) \<le> length (kids (heap s3) q) \<and>
          (\<forall>c \<in> set (kids (heap s3) q). c \<notin> {} \<longrightarrow> axis_of (heap s3) c \<noteq> Some b)"
        using Q(1) q(1) sel(3) by auto
    qed
    from simplified_inv [OF inv simp tree this sz] run simp show ?thesis by blast
  qed
qed

lemma simplify_run:
  assumes "tree_ok {i} s" "i \<in> dom (heap s)"
  shows "\<exists>s'. simplify_splits i s = (Ok (), s') \<and> simplified s s' \<and> tree_ok {} s'"
  using assms
proof (induction i s rule: simplify_splits.induct)
  case (1 i s)
  let ?h = "heap s"
  obtain r where r: "?h i = Some r" using "1.prems"(2) by auto
  have wf: "wf_tree (dom ?h) (par ?h) (kids ?h) (root s)" and sh: "shaped {i} ?h"
    using "1.prems"(1) by (simp_all add: tree_ok_def tree_def)
  show ?case
  proof (cases "content r")
    case (Leaf l)
    then have "simplify_splits i s = (Ok (), s)" using r
      by (subst simplify_splits.simps) (simp add: simplify_step_def get_region_eq sret_def)
    moreover have "shaped {} ?h" by (rule shaped_clear [OF sh]) (use r Leaf in \<open>auto simp: axis_of_def\<close>)
    ultimately show ?thesis using "1.prems"(1) by (simp add: simplified_refl tree_ok_def)
  next
    case (Split a cs)
    show ?thesis
    proof (cases "parent r")
      case None
      from simplify_root_run [OF "1.prems"(1) r Split None] show ?thesis
        by (auto simp: simplify_splits.simps [of i s])
    next
      case (Some p)
      obtain x s1 where st: "simplify_step i s = (x, s1)" by fastforce
      from simplify_merge [OF "1.prems"(1) r Split Some st] obtain j where
        j: "x = Ok j" "simplified s s1"
          "case j of None \<Rightarrow> tree_ok {} s1 | Some c \<Rightarrow> tree_ok {c} s1 \<and> c \<in> dom (heap s1)" by blast
      show ?thesis
      proof (cases j)
        case None
        then show ?thesis using st j by (simp add: simplify_splits.simps [of i s])
      next
        case (Some c)
        with j have c: "tree_ok {c} s1" "c \<in> dom (heap s1)" by simp_all
        have "simplify_splits i s = simplify_splits c s1"
          using st j(1) Some by (simp add: simplify_splits.simps [of i s])
        with "1.IH" [OF st [symmetric] j(1) Some c] j(2) show ?thesis using simplified_trans by fastforce
      qed
    qed
  qed
qed

end
