(* ===== verification/LayoutOps.thy ===== *)
theory LayoutOps
  imports LayoutInv
begin

text \<open>
  Every operation of the layout succeeds under its precondition and keeps the invariant, and the
  invariant is what the assertions of \<open>Layout::build\<close> check: they hold on every frame.
\<close>

section \<open>Removing a leaf\<close>

lemma sum_sizes_run:
  assumes "set cs \<subseteq> dom (heap s)" "n + sum_list (map (size_of (heap s)) cs) < 2 ^ 64"
  shows "sum_sizes cs n s = (Ok (n + sum_list (map (size_of (heap s)) cs)), s)"
  using assms
proof (induction cs arbitrary: n)
  case (Cons c cs)
  then obtain r where r: "heap s c = Some r" by auto
  then have "size_of (heap s) c = relative_size r" by (simp add: size_of_def)
  with Cons r show ?case by (simp add: get_region_eq slift_def usize_def add.assoc)
qed (simp add: sret_def)

lemma renormalize_run:
  assumes "distinct cs" "set cs \<subseteq> dom (heap s)" "so_far + sum_list (map (size_of (heap s)) cs) \<le> tot"
    "0 < tot" "tot \<le> 1000000 * 1000000" "sizes (heap s)"
  shows "\<exists>s' f. renormalize tot so_far cs s = (Ok (), s') \<and> frame s s' \<and> root s' = root s \<and>
    heap s' = resize f (set cs) (heap s) \<and> (\<forall>i \<in> set cs. 1 \<le> f i \<and> f i \<le> 1000000)"
  using assms
proof (induction cs arbitrary: s so_far)
  case (Cons c cs)
  then obtain r where r: "heap s c = Some r" by auto
  let ?n = "so_far + relative_size r"
  let ?m = "max (?n * 1000000 div tot - so_far * 1000000 div tot) 1"
  let ?s = "put_region c (r\<lparr>relative_size := ?m\<rparr>) s"
  have h: "heap ?s = (heap s)(c \<mapsto> r\<lparr>relative_size := ?m\<rparr>)" using r by simp
  have sz: "size_of (heap s) c = relative_size r" using r by (simp add: size_of_def)
  have n: "?n \<le> tot" using Cons.prems(3) sz by simp
  have "?n * 1000000 div tot \<le> tot * 1000000 div tot" using n by (intro div_le_mono mult_le_mono1)
  then have m: "1 \<le> ?m" "?m \<le> 1000000" using Cons.prems(4) by simp_all
  have same: "map (size_of (heap ?s)) cs = map (size_of (heap s)) cs"
    unfolding h using Cons.prems(1) by (auto simp: size_of_def)
  have d: "distinct cs" "set cs \<subseteq> dom (heap ?s)" "?n + sum_list (map (size_of (heap ?s)) cs) \<le> tot" "sizes (heap ?s)"
    unfolding same unfolding h using Cons.prems(1-3,6) sz m by (auto simp: sizes_def)
  from Cons.IH [OF d(1-3) Cons.prems(4,5) d(4)] obtain s' f where
    I: "renormalize tot ?n cs ?s = (Ok (), s')" "frame ?s s'" "root s' = root ?s"
      "heap s' = resize f (set cs) (heap ?s)" "\<forall>i \<in> set cs. 1 \<le> f i \<and> f i \<le> 1000000" by blast
  have lt: "?n < 2 ^ 64" "?n * 1000000 < 2 ^ 64" "so_far * 1000000 < 2 ^ 64" using n Cons.prems(5) by simp_all
  have "renormalize tot so_far (c # cs) s = renormalize tot ?n cs ?s"
    using lt by (simp add: get_region_eq update_region_eq slift_def r usize_def)
  moreover have "heap s' = resize (f(c := ?m)) (set (c # cs)) (heap s)"
    unfolding I(4) h using resize_Cons [of c "set cs" "heap s" r f ?m] r Cons.prems(1) by simp
  moreover have "\<forall>i \<in> set (c # cs). 1 \<le> (f(c := ?m)) i \<and> (f(c := ?m)) i \<le> 1000000" using I(5) m by auto
  ultimately show ?case using I(1,3) frame_trans [OF frame_put_region I(2)] by auto
qed (auto simp: sret_def resize_def)

text \<open>Windows change their regions and nothing else.\<close>

definition moved :: "(Id \<Rightarrow> Id option) \<Rightarrow> Id set \<Rightarrow> (Id \<Rightarrow> 'c Window option) \<Rightarrow> Id \<Rightarrow> 'c Window option" where
  "moved f X w = (\<lambda>i. if i \<in> X then map_option (\<lambda>x. x\<lparr>win_region := f i\<rparr>) (w i) else w i)"

text \<open>What the operations on windows leave alone.\<close>

definition wframe :: "'c Layout \<Rightarrow> 'c Layout \<Rightarrow> bool" where
  "wframe s s' \<longleftrightarrow> regions s' = regions s \<and> active_window s' = active_window s \<and> root s' = root s \<and>
     (pools s \<longrightarrow> pools s') \<and> next_seqno (windows s') = next_seqno (windows s)"

lemma wframe_heap: "wframe s s' \<Longrightarrow> heap s' = heap s"
  by (simp add: wframe_def heap_def)

lemma update_window_run:
  assumes "wins s w = Some x"
  shows "\<exists>s'. update_window w f s = (Ok (), s') \<and> wframe s s' \<and> wins s' = (wins s)(w \<mapsto> f x)"
  using assms pool_inv_try_set [of "windows s" w "f x"]
  by (auto simp: update_window_def get_window_def wins_def wframe_def pools_def try_get_try_set)

lemma detach_run:
  assumes "distinct ws" "set ws \<subseteq> dom (wins s)"
  shows "\<exists>s'. detach_windows ws s = (Ok (), s') \<and> wframe s s' \<and> wins s' = moved (\<lambda>_. None) (set ws) (wins s)"
  using assms
proof (induction ws arbitrary: s)
  case (Cons w ws)
  then obtain x where x: "wins s w = Some x" by auto
  from update_window_run [OF this, of "\<lambda>x. x\<lparr>win_region := None\<rparr>"] obtain s1 where
    1: "update_window w (\<lambda>x. x\<lparr>win_region := None\<rparr>) s = (Ok (), s1)" "wframe s s1"
      "wins s1 = (wins s)(w \<mapsto> x\<lparr>win_region := None\<rparr>)" by blast
  have "set ws \<subseteq> dom (wins s1)" using Cons.prems(2) 1(3) by auto
  from Cons.IH [OF _ this] Cons.prems(1) obtain s' where
    I: "detach_windows ws s1 = (Ok (), s')" "wframe s1 s'" "wins s' = moved (\<lambda>_. None) (set ws) (wins s1)" by auto
  have "wins s' = moved (\<lambda>_. None) (set (w # ws)) (wins s)"
    unfolding I(3) 1(3) using x Cons.prems(1) by (auto simp: moved_def fun_eq_iff)
  moreover have "wframe s s'" using 1(2) I(2) by (simp add: wframe_def)
  ultimately show ?case using 1(1) I(1) by simp
qed (simp add: sret_def moved_def wframe_def)


lemma tabs_inv_detach:
  assumes "tabs_inv h w" "leaf_of h' = (leaf_of h)(i := None)"
  shows "tabs_inv h' (moved (\<lambda>_. None) (set (tabs_of h i)) w)"
proof -
  have t: "tabs_of h' j = (if j = i then [] else tabs_of h j)" for j using assms(2) by (simp add: tabs_of_def)
  have "x \<in> set (tabs_of h' j) \<longleftrightarrow>
      (\<exists>win. moved (\<lambda>_. None) (set (tabs_of h i)) w x = Some win \<and> win_region win = Some j)" for j x
  proof (cases "x \<in> set (tabs_of h i)")
    case True
    then have "j \<noteq> i \<Longrightarrow> x \<notin> set (tabs_of h j)" using assms(1) by (auto simp: tabs_inv_def)
    then show ?thesis using True by (auto simp: t moved_def)
  next
    case False
    then show ?thesis using assms(1) by (auto simp: t moved_def tabs_inv_def)
  qed
  then show ?thesis using assms(1) t by (auto simp: tabs_inv_def)
qed

lemma shaped_remove:
  assumes "shaped {} h" "axis_of h' = axis_of h" "kids h' = (kids h)(p := ks)" "set ks \<subseteq> set (kids h p)"
    "length (kids h p) \<le> Suc (length ks)"
  shows "shaped {p} h'"
  unfolding shaped_def
proof (intro allI impI)
  fix q a assume "axis_of h' q = Some a"
  then have q: "axis_of h q = Some a" using assms(2) by simp
  note Q = shapedD [OF assms(1) q]
  have "(if q \<in> {p} then 1 else 2) \<le> length (kids h' q)" using Q(1) assms(3,5) by auto
  moreover have "axis_of h' c \<noteq> Some a" if "c \<in> set (kids h' q)" for c
    using Q(3) [of c] that assms(2-4) by (auto split: if_splits)
  ultimately show "(if q \<in> {p} then 1 else 2) \<le> length (kids h' q) \<and>
      (\<forall>c \<in> set (kids h' q). c \<notin> {p} \<longrightarrow> axis_of h' c \<noteq> Some a)" by blast
qed

lemma leaf_of_Some: "leaf_of h i = Some l \<longleftrightarrow> (\<exists>r. h i = Some r \<and> content r = Leaf l)"
  by (auto simp: leaf_of_def split: option.splits RegionContent.splits)

lemma leaf_sel: "leaf_of h i = Some l \<Longrightarrow> kids h i = [] \<and> axis_of h i = None \<and> tabs_of h i = tabs l"
  by (auto simp: kids_def axis_of_def tabs_of_def leaf_of_def split: option.splits RegionContent.splits)

lemma tabs_invD:
  assumes "tabs_inv h w"
  shows "distinct (tabs_of h i)" "x \<in> set (tabs_of h i) \<longleftrightarrow> (\<exists>win. w x = Some win \<and> win_region win = Some i)"
    "set (tabs_of h i) \<subseteq> dom w"
  using assms unfolding tabs_inv_def by blast+

text \<open>The removal of a leaf up to the simplification of its parent.\<close>

lemma remove_leaf_run:
  assumes inv: "layout_inv s" and leaf: "leaf_of (heap s) i = Some l" and par: "par (heap s) i = Some p"
  shows "\<exists>s'. remove_leaf i s = (Ok (), s') \<and> layout_inv s' \<and> leaf_of (heap s') = (leaf_of (heap s))(i := None) \<and>
    dom (heap s') \<subseteq> dom (heap s) - {i} \<and> next_seqno (regions s') = next_seqno (regions s) \<and>
    wins s' = moved (\<lambda>_. None) (set (tabs l)) (wins s) \<and> active_window s' = active_window s"
proof -
  let ?h = "heap s"
  have tr: "pools s" "tree ?h (root s)" "shaped {} ?h" "sizes ?h" "tabs_inv ?h (wins s)" "card (dom ?h) \<le> 1000000"
    using inv by (simp_all add: layout_inv_def tree_ok_def)
  have wf: "wf_tree (dom ?h) (par ?h) (kids ?h) (root s)" using tr(2) by (simp add: tree_def)
  obtain r where r: "?h i = Some r" "content r = Leaf l" using leaf by (auto simp: leaf_of_Some)
  note L = leaf_sel [OF leaf]
  have pr: "parent r = Some p" using par r by (simp add: par_def)
  have idom: "i \<in> dom ?h" using r by auto
  note F = parent_facts [OF wf idom par] and W = wf_treeD [OF wf]
  obtain pa where "axis_of ?h p = Some pa" using axis_of_kids [of ?h p] F(2) by force
  then obtain p_r pcs where p: "?h p = Some p_r" "content p_r = Split pa pcs"
    by (auto simp: axis_of_def split: option.splits RegionContent.splits)
  have pcs: "kids ?h p = pcs" "axis_of ?h p = Some pa" using p by (simp_all add: kids_def axis_of_def)
  obtain idx where idx: "position i pcs = Some idx" "idx < length pcs" "pcs ! idx = i"
    using position_in [of i pcs] F(2) pcs by auto
  let ?cs = "remove_at idx pcs"
  have dp: "distinct pcs" using W(4) [of p] pcs by simp
  have cs: "set ?cs = set pcs - {i}" "distinct ?cs" "length ?cs = length pcs - 1"
    using set_remove_at [OF dp idx(2)] length_remove_at [OF idx(2)] idx(3) by simp_all
  have two: "2 \<le> length pcs" using shapedD(1) [OF tr(3) pcs(2)] pcs(1) by simp
  have kid: "c \<in> dom ?h" "par ?h c = Some p" if "c \<in> set pcs" for c using W(3) [of c p] pcs that by auto
  have "p \<notin> set ?cs" using kid(2) [of p] no_loop [OF W(6) W(2)] F(1) cs(1) by auto
  have "set (tabs l) \<subseteq> dom (wins s)" "distinct (tabs l)" using tabs_invD(1,3) [OF tr(5), of i] L by simp_all
  from detach_run [OF this(2,1)] obtain s1 where
    1: "detach_windows (tabs l) s = (Ok (), s1)" "wframe s s1" "wins s1 = moved (\<lambda>_. None) (set (tabs l)) (wins s)" by blast
  have h1: "heap s1 = ?h" using wframe_heap [OF 1(2)] .
  let ?s2 = "put_region p (p_r\<lparr>content := Split pa ?cs\<rparr>) s1"
  have 2: "update_children p (remove_at idx) s1 = (Ok (), ?s2)"
    using p h1 by (simp add: update_children_def get_split_eq update_region_eq)
  have h2: "heap ?s2 = ?h(p \<mapsto> p_r\<lparr>content := Split pa ?cs\<rparr>)" using p h1 by simp
  obtain v s3 where 3: "remove_region i ?s2 = (Ok v, s3)" "heap s3 = (heap ?s2)(i := None)" "frame ?s2 s3" "root s3 = root ?s2"
    using remove_region_run [of i ?s2] by blast
  have h3: "heap s3 = ?h(p \<mapsto> p_r\<lparr>content := Split pa ?cs\<rparr>, i := None)" unfolding 3(2) h2 ..
  have sz3: "sizes (heap s3)" unfolding h3 using tr(4) p(1) by (intro sizes_remove sizes_upd) (auto simp: sizes_def)
  have d3: "set ?cs \<subseteq> dom (heap s3)" unfolding h3 using kid(1) cs(1) by auto
  let ?tot = "sum_list (map (size_of (heap s3)) ?cs)"
  have "length pcs \<le> 1000000" using kids_few [OF tr(2) finite_heap tr(6), of p] pcs by simp
  then have bound: "?tot \<le> 1000000 * 1000000"
    using sum_sizes_bound [OF sz3, of ?cs] cs(3) two by linarith
  have 4: "sum_sizes ?cs 0 s3 = (Ok ?tot, s3)" using sum_sizes_run [OF d3, of 0] bound by simp
  have pos: "0 < ?tot"
  proof -
    obtain c where c: "c \<in> set ?cs" using cs(3) two by (cases ?cs) auto
    then have "1 \<le> size_of (heap s3) c" using sz3 d3 by (auto simp: sizes_alt)
    with size_le_sum [OF c, of "heap s3"] show ?thesis by simp
  qed
  have "0 + ?tot \<le> ?tot" by simp
  from renormalize_run [OF cs(2) d3 this pos bound sz3] obtain s5 f where
    5: "renormalize ?tot 0 ?cs s3 = (Ok (), s5)" "frame s3 s5" "root s5 = root s3"
      "heap s5 = resize f (set ?cs) (heap s3)" "\<forall>i \<in> set ?cs. 1 \<le> f i \<and> f i \<le> 1000000" by blast
  have run: "remove_leaf i s = simplify_splits p s5"
    using r pr 1(1) p h1 idx(1) 2 3(1) 4 pos 5(1)
    by (simp add: remove_leaf_def get_region_eq slift_def get_split_eq position_of_def del: sum_list_eq_0_iff)
  have fr: "frame s1 s5" by (rule frame_trans [OF frame_put_region frame_trans [OF 3(3) 5(2)]])
  have sel: "dom (heap s5) = dom ?h - {i}" "par (heap s5) = (par ?h)(i := None)" "kids (heap s5) = (kids ?h)(p := ?cs)"
    "axis_of (heap s5) = axis_of ?h" "leaf_of (heap s5) = (leaf_of ?h)(i := None)"
    unfolding 5(4) h3 using p r L pcs F(3) by (auto simp: fun_eq_iff leaf_of_def par_def)
  have idx': "idx < length (kids ?h p)" "kids ?h p ! idx = i" using idx pcs by simp_all
  have "wf_tree (dom ?h - {i}) (par ?h) ((kids ?h)(p := ?cs)) (root s)"
    using wf_tree_remove [OF wf idom par idx'] L pcs by simp
  then have "wf_tree (dom ?h - {i}) (par (heap s5)) (kids (heap s5)) (root s)"
    by (rule wf_tree_cong) (use F(3) in \<open>auto simp: sel domIff p L simp del: not_None_eq\<close>)
  moreover have "root s5 = root s" using 5(3) 3(4) 1(2) by (simp add: wframe_def)
  ultimately have tree: "tree (heap s5) (root s5)" using sel(1) by (simp add: tree_def)
  have w5: "wins s5 = moved (\<lambda>_. None) (set (tabs l)) (wins s)" using wins_frame [OF fr] 1(3) by simp
  have "tree_ok {p} s5" unfolding tree_ok_def
  proof (intro conjI)
    show "pools s5" using fr 1(2) tr(1) by (simp add: frame_def wframe_def)
    show "shaped {p} (heap s5)"
      by (rule shaped_remove [OF tr(3) sel(4,3)]) (use cs pcs in auto)
    show "sizes (heap s5)" unfolding 5(4) using sz3 5(5) by (intro resize_sizes) auto
    show "card (dom (heap s5)) \<le> 1000000"
      using card_mono [OF finite_heap, of "dom ?h - {i}" s] tr(6) by (simp add: sel(1))
  qed (rule tree)
  moreover have "p \<in> dom (heap s5)" using sel(1) F(1,3) by auto
  ultimately obtain s6 where 6: "simplify_splits p s5 = (Ok (), s6)" "simplified s5 s6" "tree_ok {} s6"
    using simplify_run by blast
  have l6: "leaf_of (heap s6) = (leaf_of ?h)(i := None)" using 6(2) sel(5) by (simp add: simplified_def)
  have "wins s6 = wins s5" "next_seqno (regions s6) = next_seqno (regions s)" "active_window s6 = active_window s"
    using 6(2) fr 1(2) by (auto simp: simplified_def frame_def wframe_def wins_def)
  moreover from this have "tabs_inv (heap s6) (wins s6)" using tabs_inv_detach [OF tr(5) l6] w5 L by simp
  ultimately show ?thesis using run 6 w5 l6 sel(1) by (auto simp: simplified_def layout_inv_def)
qed


section \<open>Splitting a region\<close>

text \<open>Identifiers for \<open>k\<close> more regions.\<close>

definition room :: "nat \<Rightarrow> 'c Layout \<Rightarrow> bool" where
  "room k s \<longleftrightarrow> next_seqno (regions s) + k < 2 ^ 64 \<and> card (dom (heap s)) + k \<le> 1000000"

definition aframe :: "'c Layout \<Rightarrow> 'c Layout \<Rightarrow> bool" where
  "aframe s s' \<longleftrightarrow> windows s' = windows s \<and> active_window s' = active_window s \<and> (pools s \<longrightarrow> pools s') \<and> root s' = root s"

lemma aframe_refl: "aframe s s"
  by (simp add: aframe_def)

lemma aframe_trans: "aframe s t \<Longrightarrow> aframe t u \<Longrightarrow> aframe s u"
  by (simp add: aframe_def)

lemma add_region_run:
  assumes "pools s" "room (Suc k) s"
  shows "\<exists>n s'. add_region r s = (Ok n, s') \<and> heap s' = (heap s)(n \<mapsto> r) \<and> heap s n = None \<and> aframe s s' \<and> room k s'"
proof -
  have inv: "pool_inv (regions s)" "pool_inv (windows s)" using assms(1) by (simp_all add: pools_def)
  obtain n p where a: "add r (regions s) = Ok (n, p)"
    using add_total [OF inv(1), of r] assms(2) by (auto simp: room_def)
  let ?s = "s\<lparr>regions := p\<rparr>"
  have h: "heap ?s = (heap s)(n \<mapsto> r)" using try_get_add [OF inv(1) a] by (simp add: heap_def)
  have fresh: "heap s n = None"
    using add_fresh [OF inv(1) a] try_get_issued [OF inv(1), of n] by (cases "heap s n") (auto simp: heap_def)
  have "next_seqno p = Suc (next_seqno (regions s))" using add_cases [OF inv(1) a] by simp
  moreover have "card (dom (heap ?s)) = Suc (card (dom (heap s)))"
    unfolding h using fresh finite_heap [of s] by (simp add: domIff)
  ultimately have "room k ?s" using assms(2) by (simp add: room_def)
  moreover have "aframe s ?s" using pool_inv_add [OF inv(1) a] inv by (simp add: aframe_def pools_def)
  ultimately show ?thesis using a h fresh by (auto simp: add_region_def)
qed

text \<open>The fresh leaves that the loop creates.\<close>

lemma split_children_run:
  assumes "pools s" "room k s" "length (filter (\<lambda>x. x \<noteq> e) ks) \<le> k" "distinct ks" "i \<in> dom (heap s)"
    "\<And>x. x \<in> set ks \<Longrightarrow> wall_size fl walls x \<le> 1000000"
  shows "\<exists>cs s' m f. split_children fl walls i n e ks s = (Ok cs, s') \<and> aframe s s' \<and> room (k - length (filter (\<lambda>x. x \<noteq> e) ks)) s' \<and>
    heap s' = (\<lambda>x. if x \<in> m then Some (default_region\<lparr>parent := Some n, relative_size := f x\<rparr>)
        else resize f (if e \<in> set ks then {i} else {}) (heap s) x) \<and>
    m \<inter> dom (heap s) = {} \<and> (\<forall>x. 1 \<le> f x \<and> f x \<le> 1000000) \<and> distinct cs \<and> length cs = length ks \<and>
    set cs = m \<union> (if e \<in> set ks then {i} else {}) \<and> (\<forall>j < length ks. ks ! j = e \<longleftrightarrow> cs ! j = i)"
  using assms
proof (induction ks arbitrary: s k)
  case Nil
  have "heap s = (\<lambda>x. if x \<in> {} then Some (default_region\<lparr>parent := Some n, relative_size := 1\<rparr>) else resize (\<lambda>_. 1) {} (heap s) x)"
    by (simp add: resize_def)
  then show ?case using Nil.prems
    by (intro exI [of _ "[]"] exI [of _ s] exI [of _ "{}"] exI [of _ "\<lambda>_. 1"]) (simp add: sret_def aframe_refl)
next
  case (Cons x ks)
  let ?w = "wall_size fl walls x"
  have w: "1 \<le> ?w" "?w \<le> 1000000" using Cons.prems(6) [of x] by (auto simp: wall_size_def)
  show ?case
  proof (cases "x = e")
    case True
    obtain r where r: "heap s i = Some r" using Cons.prems(5) by auto
    let ?s = "put_region i (r\<lparr>relative_size := ?w\<rparr>) s"
    have h: "heap ?s = (heap s)(i \<mapsto> r\<lparr>relative_size := ?w\<rparr>)" using r by simp
    have fr: "aframe s ?s" using frame_put_region [of s i] by (simp add: aframe_def frame_def)
    have "dom (heap ?s) = dom (heap s)" unfolding h using r by auto
    then have pre: "pools ?s" "room k ?s" using Cons.prems(1,2) frame_put_region [of s i "r\<lparr>relative_size := ?w\<rparr>"]
      by (simp_all add: frame_def room_def)
    have ne: "e \<notin> set ks" using True Cons.prems(4) by auto
    have pre2: "length (filter (\<lambda>x. x \<noteq> e) ks) \<le> k" "distinct ks" "i \<in> dom (heap ?s)"
      using Cons.prems(3,4) True h by auto
    have ws: "\<And>x. x \<in> set ks \<Longrightarrow> wall_size fl walls x \<le> 1000000" using Cons.prems(6) by simp
    have res: "resize f (if e \<in> set ks then {i} else {}) (heap ?s) = heap ?s" for f using ne by (simp add: resize_def)
    have st: "m \<union> (if e \<in> set ks then {i} else {}) = m" for m using ne by simp
    from Cons.IH [OF pre pre2 ws, unfolded res st] obtain cs s' m f where
      I: "split_children fl walls i n e ks ?s = (Ok cs, s')" "aframe ?s s'"
        "room (k - length (filter (\<lambda>x. x \<noteq> e) ks)) s'"
        "heap s' = (\<lambda>x. if x \<in> m then Some (default_region\<lparr>parent := Some n, relative_size := f x\<rparr>) else heap ?s x)"
        "m \<inter> dom (heap ?s) = {}" "\<forall>x. 1 \<le> f x \<and> f x \<le> 1000000" "distinct cs" "length cs = length ks"
        "set cs = m" "\<forall>j < length ks. ks ! j = e \<longleftrightarrow> cs ! j = i"
      by blast
    have m: "i \<notin> m" "m \<inter> dom (heap s) = {}" using I(5) h Cons.prems(5) by auto
    let ?f = "f(i := ?w)"
    have "split_children fl walls i n e (x # ks) s = (Ok (i # cs), s')"
      using True I(1) r by (simp add: update_region_eq sret_def)
    moreover have "heap s' = (\<lambda>y. if y \<in> m then Some (default_region\<lparr>parent := Some n, relative_size := ?f y\<rparr>)
        else resize ?f {i} (heap s) y)"
      unfolding I(4) h using m r by (auto simp: resize_def fun_eq_iff)
    moreover have "\<forall>j < length (x # ks). (x # ks) ! j = e \<longleftrightarrow> (i # cs) ! j = i"
      using I(10) True by (auto simp: nth_Cons split: nat.splits)
    moreover have "\<forall>y. 1 \<le> ?f y \<and> ?f y \<le> 1000000" using I(6) w by simp
    ultimately show ?thesis using I(3,7-9) m True ne aframe_trans [OF fr I(2)]
      by (intro exI [of _ "i # cs"] exI [of _ s'] exI [of _ m] exI [of _ ?f]) simp
  next
    case False
    let ?r = "default_region\<lparr>parent := Some n, relative_size := ?w\<rparr>"
    obtain k' where k: "k = Suc k'" using Cons.prems(3) False by (cases k) auto
    from add_region_run [OF Cons.prems(1), of k' ?r] Cons.prems(2) k obtain c s1 where
      1: "add_region ?r s = (Ok c, s1)" "heap s1 = (heap s)(c \<mapsto> ?r)" "heap s c = None" "aframe s s1" "room k' s1" by auto
    have pre: "pools s1" "i \<in> dom (heap s1)" "length (filter (\<lambda>x. x \<noteq> e) ks) \<le> k'" "distinct ks"
      using 1(2,4) Cons.prems(1,3-5) False k by (auto simp: aframe_def)
    have ci: "c \<noteq> i" using 1(3) Cons.prems(5) by auto
    have ws: "\<And>x. x \<in> set ks \<Longrightarrow> wall_size fl walls x \<le> 1000000" using Cons.prems(6) by simp
    from Cons.IH [OF pre(1) 1(5) pre(3,4,2) ws] obtain cs s' m f where
      I: "split_children fl walls i n e ks s1 = (Ok cs, s')" "aframe s1 s'"
        "room (k' - length (filter (\<lambda>x. x \<noteq> e) ks)) s'"
        "heap s' = (\<lambda>x. if x \<in> m then Some (default_region\<lparr>parent := Some n, relative_size := f x\<rparr>)
          else resize f (if e \<in> set ks then {i} else {}) (heap s1) x)"
        "m \<inter> dom (heap s1) = {}" "\<forall>x. 1 \<le> f x \<and> f x \<le> 1000000" "distinct cs" "length cs = length ks"
        "set cs = m \<union> (if e \<in> set ks then {i} else {})" "\<forall>j < length ks. ks ! j = e \<longleftrightarrow> cs ! j = i"
      by blast
    have cm: "c \<notin> m" "m \<inter> dom (heap s) = {}" using I(5) 1(2) by auto
    let ?f = "f(c := ?w)" and ?m = "insert c m"
    have "split_children fl walls i n e (x # ks) s = (Ok (c # cs), s')"
      using False 1(1) I(1) by (simp add: sret_def)
    moreover have "heap s' = (\<lambda>y. if y \<in> ?m then Some (default_region\<lparr>parent := Some n, relative_size := ?f y\<rparr>)
        else resize ?f (if e \<in> set (x # ks) then {i} else {}) (heap s) y)"
      unfolding I(4) 1(2) using cm ci False by (auto simp: resize_def fun_eq_iff)
    moreover have "\<forall>j < length (x # ks). (x # ks) ! j = e \<longleftrightarrow> (c # cs) ! j = i"
      using I(10) False ci by (auto simp: nth_Cons split: nat.splits)
    moreover have "\<forall>y. 1 \<le> ?f y \<and> ?f y \<le> 1000000" using I(6) w by simp
    moreover have "?m \<inter> dom (heap s) = {}" using cm 1(3) by (auto simp: domIff)
    moreover have "distinct (c # cs)" "set (c # cs) = ?m \<union> (if e \<in> set (x # ks) then {i} else {})"
      using I(7,9) cm ci False by (auto split: if_splits)
    ultimately show ?thesis using I(3,8) False k aframe_trans [OF 1(4) I(2)]
      by (intro exI [of _ "c # cs"] exI [of _ s'] exI [of _ ?m] exI [of _ ?f]) simp
  qed
qed


text \<open>The map after \<open>i\<close> was wrapped into \<open>n\<close>, with the new leaves \<open>m\<close>.\<close>

definition wrapped :: "(Id \<Rightarrow> Region option) \<Rightarrow> Id \<Rightarrow> Id \<Rightarrow> nat \<Rightarrow> Id list \<Rightarrow> nat \<Rightarrow> (Id \<Rightarrow> nat) \<Rightarrow> Id set \<Rightarrow> nat \<Rightarrow> Id \<Rightarrow> Region option" where
  "wrapped h i n a cs sz f m k = (\<lambda>x.
     if x \<in> m then Some (default_region\<lparr>parent := Some n, relative_size := f x\<rparr>)
     else if x = n then Some \<lparr>parent = par h i, content = Split a cs, relative_size = sz\<rparr>
     else if x = i then map_option (\<lambda>r. r\<lparr>relative_size := f i, parent := Some n\<rparr>) (h i)
     else if par h i = Some x then map_option (\<lambda>r. r\<lparr>content := (case content r of
         Split b ks \<Rightarrow> Split b (splice_at k [n] ks) | Leaf l \<Rightarrow> Leaf l)\<rparr>) (h x)
     else h x)"

lemma wrapped_sel:
  assumes "i \<in> dom h" "n \<notin> dom h" "m \<inter> insert n (dom h) = {}" "par h i \<noteq> Some i"
    "\<And>p. par h i = Some p \<Longrightarrow> kids h p \<noteq> []"
  shows "dom (wrapped h i n a cs sz f m k) = dom h \<union> insert n m"
    "par (wrapped h i n a cs sz f m k) x = (if x = i \<or> x \<in> m then Some n else if x = n then par h i else par h x)"
    "kids (wrapped h i n a cs sz f m k) x =
       (if x = n then cs else if par h i = Some x then splice_at k [n] (kids h x) else kids h x)"
    "axis_of (wrapped h i n a cs sz f m k) x = (if x = n then Some a else axis_of h x)"
    "leaf_of (wrapped h i n a cs sz f m k) x = (if x \<in> m then Some default_leaf else leaf_of h x)"
proof -
  obtain r where r: "h i = Some r" using assms(1) by auto
  have ne: "n \<noteq> i" "n \<notin> m" "i \<notin> m" using assms(1-3) by auto
  have mh: "x \<in> m \<Longrightarrow> h x = None" for x using assms(3) by auto
  have nh: "h n = None" using assms(2) by auto
  have split: "\<exists>q b ks. h p = Some q \<and> content q = Split b ks" if "par h i = Some p" for p
    using assms(5) [OF that] by (auto simp: kids_def split: option.splits RegionContent.splits)
  have pn: "par h i \<noteq> Some n" "par h i = Some x \<Longrightarrow> x \<notin> m" for x using split mh nh by force+
  show "dom (wrapped h i n a cs sz f m k) = dom h \<union> insert n m"
    using r by (auto simp: wrapped_def split: if_splits)
  show "par (wrapped h i n a cs sz f m k) x = (if x = i \<or> x \<in> m then Some n else if x = n then par h i else par h x)"
    using r ne by (auto simp: wrapped_def par_def default_region_def split: option.splits)
  show "kids (wrapped h i n a cs sz f m k) x =
       (if x = n then cs else if par h i = Some x then splice_at k [n] (kids h x) else kids h x)"
    using r ne mh nh pn split [of x] assms(4)
    by (auto simp: wrapped_def kids_def default_region_def)
  show "axis_of (wrapped h i n a cs sz f m k) x = (if x = n then Some a else axis_of h x)"
    using r ne mh nh split [of x] by (auto simp: wrapped_def axis_of_def default_region_def)
  show "leaf_of (wrapped h i n a cs sz f m k) x = (if x \<in> m then Some default_leaf else leaf_of h x)"
    using r ne mh nh split [of x] by (auto simp: wrapped_def leaf_of_def default_region_def)
qed

lemma wrapped_inv:
  assumes inv: "tree_ok {} s" and i: "heap s i = Some r" "\<not> same_axis r a"
    and new: "n \<notin> dom (heap s)" "m \<inter> insert n (dom (heap s)) = {}" and cs: "distinct cs" "set cs = insert i m"
    and k: "\<And>p. par (heap s) i = Some p \<Longrightarrow> k < length (kids (heap s) p) \<and> kids (heap s) p ! k = i"
    and f: "\<forall>x. 1 \<le> f x \<and> f x \<le> 1000000" and sz: "1 \<le> sz" "sz \<le> 1000000"
    and s': "heap s' = wrapped (heap s) i n a cs sz f m k" "root s' = (if par (heap s) i = None then n else root s)"
      "pools s'" "card (dom (heap s')) \<le> 1000000"
  shows "tree_ok {n} s'"
proof -
  let ?h = "heap s"
  have tr: "tree ?h (root s)" "shaped {} ?h" "sizes ?h" using inv by (simp_all add: tree_ok_def)
  have wf: "wf_tree (dom ?h) (par ?h) (kids ?h) (root s)" using tr(1) by (simp add: tree_def)
  note W = wf_treeD [OF wf]
  have idom: "i \<in> dom ?h" using i by auto
  have loop: "par ?h i \<noteq> Some i" using no_loop [OF W(6) [OF idom] W(2)] .
  have ne: "kids ?h p \<noteq> []" if "par ?h i = Some p" for p using k [OF that] by auto
  note S = wrapped_sel [where a = a and cs = cs and sz = sz and f = f and k = k, OF idom new loop ne]
  have ls: "m \<inter> insert n (dom ?h) = {}" by (rule new(2))
  have "wf_tree (dom ?h \<union> insert n m) (par (heap s')) (kids (heap s')) (if par ?h i = None then n else root s)"
    by (rule wf_tree_wrap [OF wf idom new(1) ls cs, where k = k]) (use S(2,3) k in \<open>auto simp: s'(1)\<close>)
  then have tree: "tree (heap s') (root s')" by (simp add: tree_def s'(1,2) S(1))
  have ni: "n \<notin> set (kids ?h q)" for q using W(3) [of n q] new(1) by auto
  have shp: "shaped {n} (heap s')" unfolding shaped_def
  proof (intro allI impI)
    fix q b assume q: "axis_of (heap s') q = Some b"
    show "(if q \<in> {n} then 1 else 2) \<le> length (kids (heap s') q) \<and>
        (\<forall>c \<in> set (kids (heap s') q). c \<notin> {n} \<longrightarrow> axis_of (heap s') c \<noteq> Some b)"
    proof (cases "q = n")
      case True
      have "axis_of ?h i \<noteq> Some a" using i by (auto simp: axis_of_def same_axis_def split: RegionContent.splits)
      moreover have "axis_of ?h c = None" if "c \<in> m" for c using that new(2) by (intro no_region) auto
      moreover have "b = a" using q True S(4) by (simp add: s'(1))
      moreover have "1 \<le> length cs" using cs(2) by (cases cs) auto
      ultimately show ?thesis using True cs(2) by (auto simp: s'(1) S(3,4))
    next
      case False
      then have qb: "axis_of ?h q = Some b" using q S(4) by (simp add: s'(1))
      note Q = shapedD [OF tr(2) qb]
      have sub: "set (kids (heap s') q) \<subseteq> insert n (set (kids ?h q))"
        using set_take_subset [of k "kids ?h q"] set_drop_subset [of "Suc k" "kids ?h q"] False
        by (auto simp: s'(1) S(3) splice_at_def)
      have "length (kids (heap s') q) = length (kids ?h q)"
        using False k [of q] by (auto simp: s'(1) S(3) length_splice_at)
      moreover have "axis_of (heap s') c \<noteq> Some b" if "c \<in> set (kids (heap s') q)" "c \<noteq> n" for c
        using that sub Q(3) [of c] by (auto simp: s'(1) S(4))
      ultimately show ?thesis using Q(1) False by auto
    qed
  qed
  have size: "sizes (heap s')" unfolding s'(1) using tr(3) f sz i
    by (auto simp: sizes_def wrapped_def split: if_splits)
  show ?thesis using s'(3,4) tree shp size by (simp add: tree_ok_def)
qed


lemma split_region_run:
  assumes inv: "tree_ok {} s" and i: "heap s i = Some r" "\<not> same_axis r a"
    and walls: "walls_ok fl walls" "\<And>k. k \<le> length walls \<Longrightarrow> wall_size fl walls k \<le> 1000000" "e \<le> length walls"
    and room: "room (Suc (length walls)) s"
  shows "\<exists>cs s'. split_region fl i a walls e s = (Ok cs, s') \<and> tree_ok {} s' \<and> length cs = Suc (length walls) \<and>
    distinct cs \<and> cs ! e = i \<and> set cs \<inter> dom (heap s) = {i} \<and>
    leaf_of (heap s') = (\<lambda>x. if x \<in> set cs - {i} then Some default_leaf else leaf_of (heap s) x) \<and>
    windows s' = windows s \<and> active_window s' = active_window s"
proof -
  let ?h = "heap s"
  have tr: "pools s" "tree ?h (root s)" "sizes ?h" using inv by (simp_all add: tree_ok_def)
  have wf: "wf_tree (dom ?h) (par ?h) (kids ?h) (root s)" using tr(2) by (simp add: tree_def)
  have idom: "i \<in> dom ?h" and pi: "par ?h i = parent r" using i by (auto simp: par_def)
  note W = wf_treeD [OF wf]
  have loop: "par ?h i \<noteq> Some i" using no_loop [OF W(6) [OF idom] W(2)] .
  let ?s1 = "put_region i (r\<lparr>parent := None\<rparr>) s"
  let ?N = "default_region\<lparr>parent := parent r, content := Split a [], relative_size := relative_size r\<rparr>"
  have h1: "heap ?s1 = ?h(i \<mapsto> r\<lparr>parent := None\<rparr>)" using i(1) by simp
  have f1: "frame s ?s1" by simp
  have "dom (heap ?s1) = dom ?h" unfolding h1 using idom by auto
  then have r1: "room (Suc (length walls)) ?s1" "pools ?s1" using f1 room tr(1) by (simp_all add: room_def frame_def)
  from add_region_run [OF r1(2,1)] obtain n s2 where
    2: "add_region ?N ?s1 = (Ok n, s2)" "heap s2 = (heap ?s1)(n \<mapsto> ?N)" "heap ?s1 n = None" "aframe ?s1 s2"
      "room (length walls) s2" by blast
  have n: "n \<notin> dom ?h" "n \<noteq> i" using 2(3) idom unfolding h1 by (auto split: if_splits)
  let ?ks = "[0..<length walls + 1]"
  have e: "e \<in> set ?ks" "?ks ! e = e" using walls(3) by (auto simp: nth_append simp del: upt_Suc)
  have "length (filter (\<lambda>x. x \<noteq> e) ?ks) < length ?ks" using e(1) by (intro length_filter_less) simp_all
  then have cnt: "length (filter (\<lambda>x. x \<noteq> e) ?ks) \<le> length walls" by simp
  have pre: "pools s2" "i \<in> dom (heap s2)" "distinct ?ks" using 2(2,4) r1(2) h1 by (simp_all add: aframe_def)
  have ws: "\<And>k. k \<in> set ?ks \<Longrightarrow> wall_size fl walls k \<le> 1000000" using walls(2) by auto
  have eif: "(if e \<in> set ?ks then {i} else {}) = {i}" using e(1) by simp
  from split_children_run [OF pre(1) 2(5) cnt pre(3,2) ws, of n, unfolded eif] obtain cs s3 m f where
    3: "split_children fl walls i n e ?ks s2 = (Ok cs, s3)" "aframe s2 s3" "\<exists>k. room k s3"
      "heap s3 = (\<lambda>x. if x \<in> m then Some (default_region\<lparr>parent := Some n, relative_size := f x\<rparr>)
        else resize f {i} (heap s2) x)"
      "m \<inter> dom (heap s2) = {}" "\<forall>x. 1 \<le> f x \<and> f x \<le> 1000000" "distinct cs" "length cs = length ?ks"
      "set cs = m \<union> {i}" "\<forall>j < length ?ks. ?ks ! j = e \<longleftrightarrow> cs ! j = i"
    by blast
  have m: "n \<notin> m" "i \<notin> m" "m \<inter> insert n (dom ?h) = {}" using 3(5) idom unfolding 2(2) h1 by auto
  have "e < length ?ks" using walls(3) by simp
  then have e3: "cs ! e = i" using 3(10) e(2) by blast
  have n3: "heap s3 n = Some ?N" unfolding 3(4) 2(2) using m n by (simp add: resize_def)
  let ?s4 = "put_region n (?N\<lparr>content := Split a cs\<rparr>) s3"
  have 4: "update_children n (\<lambda>_. cs) s3 = (Ok (), ?s4)" using n3 by (simp add: update_children_def get_split_eq update_region_eq)
  have h4: "heap ?s4 = (heap s3)(n \<mapsto> ?N\<lparr>content := Split a cs\<rparr>)" using n3 by simp
  let ?r5 = "r\<lparr>relative_size := f i, parent := Some n\<rparr>"
  let ?s5 = "put_region i ?r5 ?s4"
  have i4: "heap ?s4 i = Some (r\<lparr>parent := None, relative_size := f i\<rparr>)"
    unfolding h4 3(4) 2(2) h1 using m n by (simp add: resize_def)
  have 5: "update_region i (\<lambda>r. r\<lparr>parent := Some n\<rparr>) ?s4 = (Ok (), ?s5)" using i4 by (simp add: update_region_eq)
  have h5: "heap ?s5 = (heap s3)(n \<mapsto> ?N\<lparr>content := Split a cs\<rparr>, i \<mapsto> ?r5)" using i4 unfolding h4 [symmetric] by simp
  have fr5: "aframe s ?s5"
    using frame_put_region [of s i] 2(4) 3(2) frame_put_region [of s3 n] frame_put_region [of ?s4 i]
    by (simp add: aframe_def frame_def)
  have v5: "heap ?s5 x = (if x \<in> m then Some (default_region\<lparr>parent := Some n, relative_size := f x\<rparr>)
      else if x = n then Some \<lparr>parent = par ?h i, content = Split a cs, relative_size = relative_size r\<rparr>
      else if x = i then Some ?r5 else ?h x)" for x
    unfolding h5 3(4) 2(2) h1 using m(1,2) n(2) pi by (auto simp: resize_def default_region_def)
  have "\<exists>s6 k. (case parent r of None \<Rightarrow> (\<lambda>s. (Ok (), s\<lparr>root := n\<rparr>)) | Some p \<Rightarrow> set_child p i n) ?s5 = (Ok (), s6) \<and>
      heap s6 = wrapped ?h i n a cs (relative_size r) f m k \<and> (root s6 = (if par ?h i = None then n else root s)) \<and>
      windows s6 = windows s \<and> active_window s6 = active_window s \<and> pools s6 \<and>
      (\<forall>p. par ?h i = Some p \<longrightarrow> k < length (kids ?h p) \<and> kids ?h p ! k = i)"
  proof (cases "parent r")
    case None
    have "heap ?s5 = wrapped ?h i n a cs (relative_size r) f m 0"
    proof
      fix x show "heap ?s5 x = wrapped ?h i n a cs (relative_size r) f m 0 x"
        unfolding v5 using None pi i(1) by (simp add: wrapped_def)
    qed
    then show ?thesis using None pi fr5 tr(1)
      by (intro exI [of _ "?s5\<lparr>root := n\<rparr>"] exI [of _ 0]) (auto simp: aframe_def pools_def)
  next
    case (Some p)
    note F = parent_facts [OF wf idom] Some pi
    have pF: "p \<in> dom ?h" "i \<in> set (kids ?h p)" "i \<noteq> p" using F(1-3) [of p] Some pi by auto
    obtain pa where "axis_of ?h p = Some pa" using axis_of_kids [of ?h p] pF(2) by force
    then obtain p_r pcs where p: "?h p = Some p_r" "content p_r = Split pa pcs"
      by (auto simp: axis_of_def split: option.splits RegionContent.splits)
    have pcs: "kids ?h p = pcs" using p by (simp add: kids_def)
    obtain k where k: "position i pcs = Some k" "k < length pcs" "pcs ! k = i"
      using position_in [of i pcs] pF(2) pcs by auto
    have pnm: "p \<noteq> n" "p \<notin> m" using pF(1) n(1) m(3) by auto
    have p5: "heap ?s5 p = Some p_r" unfolding v5 using pF(3) pnm p by auto
    let ?s6 = "put_region p (p_r\<lparr>content := Split pa (pcs[k := n])\<rparr>) ?s5"
    have run: "set_child p i n ?s5 = (Ok (), ?s6)"
      using p5 p(2) k(1) by (simp add: set_child_def get_split_eq position_of_def slift_def update_children_def update_region_eq)
    have "heap ?s6 = wrapped ?h i n a cs (relative_size r) f m k"
    proof
      fix x
      have "heap ?s6 x = (if x = p then Some (p_r\<lparr>content := Split pa (pcs[k := n])\<rparr>) else heap ?s5 x)" unfolding heap_put_region [of p _ ?s5] using p5 by simp
      then show "heap ?s6 x = wrapped ?h i n a cs (relative_size r) f m k x"
        unfolding v5 using Some pi i(1) p pF(3) pnm k(2) by (auto simp: wrapped_def list_update_splice_at)
    qed
    moreover have "aframe ?s5 ?s6" using frame_put_region [of ?s5 p] by (simp add: aframe_def frame_def)
    ultimately show ?thesis using run Some pi k pcs fr5 tr(1)
      by (intro exI [of _ ?s6] exI [of _ k]) (auto simp: aframe_def)
  qed
  then obtain s6 k where
    6: "(case parent r of None \<Rightarrow> (\<lambda>s. (Ok (), s\<lparr>root := n\<rparr>)) | Some p \<Rightarrow> set_child p i n) ?s5 = (Ok (), s6)"
      "heap s6 = wrapped ?h i n a cs (relative_size r) f m k" "root s6 = (if par ?h i = None then n else root s)"
      "windows s6 = windows s" "active_window s6 = active_window s" "pools s6"
      "\<And>p. par ?h i = Some p \<Longrightarrow> k < length (kids ?h p) \<and> kids ?h p ! k = i" by blast
  have set_cs: "set cs = insert i m" using 3(9) by simp
  have kne: "kids ?h p \<noteq> []" if "par ?h i = Some p" for p using 6(7) [OF that] by auto
  note S = wrapped_sel [where a = a and cs = cs and sz = "relative_size r" and f = f and k = k, OF idom n(1) m(3) loop kne]
  have d6: "dom (heap s6) = dom ?h \<union> insert n m" unfolding 6(2) by (rule S(1))
  have "dom (heap s3) = dom (heap s6)" unfolding d6 3(4) 2(2) h1 using idom by (auto simp: resize_def split: if_splits)
  then have card: "card (dom (heap s6)) \<le> 1000000" using 3(3) by (auto simp: room_def)
  have rs: "1 \<le> relative_size r" "relative_size r \<le> 1000000" using tr(3) i(1) by (auto simp: sizes_def)
  have "tree_ok {n} s6"
    by (rule wrapped_inv [OF inv i n(1) m(3) 3(7) set_cs 6(7) 3(6) rs 6(2,3,6) card])
  moreover have "n \<in> dom (heap s6)" unfolding d6 by simp
  ultimately obtain s7 where 7: "simplify_splits n s6 = (Ok (), s7)" "simplified s6 s7" "tree_ok {} s7"
    using simplify_run by blast
  have run: "split_region fl i a walls e s = (Ok cs, s7)"
    using walls(1) i 2(1) 3(1) 4 5 6(1) 7(1)
    by (simp add: split_region_def get_region_eq update_region_eq [of i _ s] sret_def del: upt_Suc)
  have lf: "leaf_of (heap s7) = (\<lambda>x. if x \<in> set cs - {i} then Some default_leaf else leaf_of ?h x)"
    using 7(2) S(5) set_cs m(2) by (auto simp: simplified_def 6(2) fun_eq_iff)
  have "set cs \<inter> dom ?h = {i}" using set_cs m(3) idom by auto
  then show ?thesis using run 7(2,3) 3(7,8) e3 lf 6(4,5) by (auto simp: simplified_def frame_def)
qed

end
