(* ===== verification/LayoutMoves.thy ===== *)
theory LayoutMoves
  imports LayoutOps
begin

text \<open>
  Windows: creating, attaching and moving them keeps the invariant of the layout, and the
  assertions that \<open>Layout::build\<close> makes on every frame follow from the invariant.
\<close>

section \<open>Changes of a leaf\<close>

text \<open>The two maps have the same tree.\<close>

definition same_tree :: "(Id \<Rightarrow> Region option) \<Rightarrow> (Id \<Rightarrow> Region option) \<Rightarrow> bool" where
  "same_tree h h' \<longleftrightarrow> dom h' = dom h \<and> par h' = par h \<and> kids h' = kids h \<and> axis_of h' = axis_of h \<and> size_of h' = size_of h"

lemma same_tree_ok:
  "tree_ok X s \<Longrightarrow> same_tree (heap s) (heap s') \<Longrightarrow> root s' = root s \<Longrightarrow> pools s' \<Longrightarrow> tree_ok X s'"
  by (simp add: tree_ok_def tree_def shaped_def same_tree_def sizes_alt)

lemma update_leaf_run:
  assumes "leaf_of (heap s) i = Some l"
  shows "\<exists>s'. update_leaf i f s = (Ok (), s') \<and> frame s s' \<and> root s' = root s \<and> same_tree (heap s) (heap s') \<and>
    leaf_of (heap s') = (leaf_of (heap s))(i \<mapsto> f l)"
proof -
  obtain r where r: "heap s i = Some r" "content r = Leaf l" using assms by (auto simp: leaf_of_Some)
  let ?s = "put_region i (r\<lparr>content := Leaf (f l)\<rparr>) s"
  have run: "update_leaf i f s = (Ok (), ?s)"
    using r by (simp add: update_leaf_def get_leaf_def get_region_eq slift_def update_region_eq)
  have h: "heap ?s = (heap s)(i \<mapsto> r\<lparr>content := Leaf (f l)\<rparr>)" using r by simp
  have "same_tree (heap s) (heap ?s)" unfolding h using r
    by (auto simp: same_tree_def fun_eq_iff par_def kids_def axis_of_def size_of_def)
  moreover have "leaf_of (heap ?s) = (leaf_of (heap s))(i \<mapsto> f l)" unfolding h by simp
  ultimately show ?thesis using run by (auto simp del: heap_put_region)
qed

text \<open>A window that belongs to no region becomes a tab of \<open>i\<close>.\<close>

lemma tabs_inv_attach:
  assumes "tabs_inv h ws" "\<And>win. ws w = Some win \<Longrightarrow> win_region win = None"
    and "\<And>j. tabs_of h' j = (if j = i then ts else tabs_of h j)" "set ts = insert w (set (tabs_of h i))" "distinct ts"
    and "win_region x = Some i"
  shows "tabs_inv h' (ws(w \<mapsto> x))"
proof -
  note T = tabs_invD [OF assms(1)]
  have w: "w \<notin> set (tabs_of h j)" for j using T(2) [of w j] assms(2) by auto
  have "y \<in> set (tabs_of h' j) \<longleftrightarrow> (\<exists>win. (ws(w \<mapsto> x)) y = Some win \<and> win_region win = Some j)" for y j
    using T(2) [of y j] w [of j] assms(3,4,6) by (cases "y = w") auto
  then show ?thesis using T(1) assms(3,5) by (simp add: tabs_inv_def)
qed

text \<open>A window is taken out of its region.\<close>

lemma tabs_inv_release:
  assumes "tabs_inv h ws" "ws w = Some x" "win_region x = Some i"
    and "\<And>j. tabs_of h' j = (if j = i then ts else tabs_of h j)" "set ts = set (tabs_of h i) - {w}" "distinct ts"
    and "win_region x' = None"
  shows "tabs_inv h' (ws(w \<mapsto> x'))"
proof -
  note T = tabs_invD [OF assms(1)]
  have w: "w \<in> set (tabs_of h j) \<longleftrightarrow> j = i" for j using T(2) [of w j] assms(2,3) by auto
  have "y \<in> set (tabs_of h' j) \<longleftrightarrow> (\<exists>win. (ws(w \<mapsto> x')) y = Some win \<and> win_region win = Some j)" for y j
    using T(2) [of y j] w [of j] assms(4,5,7) by (cases "y = w") auto
  then show ?thesis using T(1) assms(4,6) by (simp add: tabs_inv_def)
qed

lemma tabs_of_upd: "leaf_of h' = (leaf_of h)(i \<mapsto> l) \<Longrightarrow> tabs_of h' j = (if j = i then tabs l else tabs_of h j)"
  by (simp add: tabs_of_def)

lemma attach_window_run:
  assumes "layout_inv s" "wins s w = Some x" "win_region x = None" "leaf_of (heap s) i = Some l"
  shows "\<exists>s'. attach_window i w s = (Ok (), s') \<and> layout_inv s' \<and> wins s' = (wins s)(w \<mapsto> x\<lparr>win_region := Some i\<rparr>)"
proof -
  from update_leaf_run [OF assms(4), of "\<lambda>l. l\<lparr>tabs := tabs l @ [w]\<rparr>"] obtain s1 where
    1: "update_leaf i (\<lambda>l. l\<lparr>tabs := tabs l @ [w]\<rparr>) s = (Ok (), s1)" "frame s s1" "root s1 = root s"
      "same_tree (heap s) (heap s1)" "leaf_of (heap s1) = (leaf_of (heap s))(i \<mapsto> l\<lparr>tabs := tabs l @ [w]\<rparr>)" by blast
  have w1: "wins s1 = wins s" by (rule wins_frame [OF 1(2)])
  from update_window_run [of s1 w x "\<lambda>x. x\<lparr>win_region := Some i\<rparr>"] w1 assms(2) obtain s2 where
    2: "update_window w (\<lambda>x. x\<lparr>win_region := Some i\<rparr>) s1 = (Ok (), s2)" "wframe s1 s2"
      "wins s2 = (wins s)(w \<mapsto> x\<lparr>win_region := Some i\<rparr>)" by auto
  have run: "attach_window i w s = (Ok (), s2)"
    using assms(2,3) 1(1) 2(1) by (simp add: attach_window_def get_window_def wins_def)
  have h2: "heap s2 = heap s1" by (rule wframe_heap [OF 2(2)])
  have T: "tabs_inv (heap s) (wins s)" using assms(1) by (simp add: layout_inv_def)
  have tabs: "tabs_of (heap s) i = tabs l" using leaf_sel [OF assms(4)] by simp
  have "w \<notin> set (tabs l)" using tabs_invD(2) [OF T, of w i] tabs assms(2,3) by auto
  then have "tabs_inv (heap s2) (wins s2)" unfolding 2(3) h2
    using tabs_inv_attach [OF T, where w = w and i = i and ts = "tabs l @ [w]"] assms(2,3) tabs_of_upd [OF 1(5)] tabs tabs_invD(1) [OF T, of i]
    by simp
  moreover have "tree_ok {} s2"
    using same_tree_ok [of "{}" s s2] assms(1) 1(2-4) 2(2) h2 by (simp add: layout_inv_def tree_ok_def frame_def wframe_def)
  ultimately show ?thesis using run 2(3) by (auto simp: layout_inv_def)
qed

lemma new_window_run:
  assumes "layout_inv s" "next_seqno (windows s) + 1 < 2 ^ 64" "leaf_of (heap s) i = Some l"
  shows "\<exists>w s'. new_window create (Some i) ty s = (Ok w, s') \<and> layout_inv s' \<and> wins s w = None \<and>
    wins s' = (wins s)(w \<mapsto> window_new create (Some i) ty)"
proof -
  let ?x = "window_new create (Some i) ty"
  have inv: "pool_inv (windows s)" "pools s" using assms(1) by (simp_all add: layout_inv_def tree_ok_def pools_def)
  obtain w p where a: "add ?x (windows s) = Ok (w, p)" using add_total [OF inv(1)] assms(2) by blast
  let ?s1 = "s\<lparr>windows := p\<rparr>"
  have w1: "wins ?s1 = (wins s)(w \<mapsto> ?x)" using try_get_add [OF inv(1) a] by (simp add: wins_def)
  have fresh: "wins s w = None"
    using add_fresh [OF inv(1) a] try_get_issued [OF inv(1), of w] by (cases "wins s w") (auto simp: wins_def)
  have h1: "heap ?s1 = heap s" by (simp add: heap_def)
  have p1: "pools ?s1" using inv(2) pool_inv_add [OF inv(1) a] by (simp add: pools_def)
  from update_leaf_run [of ?s1 i l "\<lambda>l. l\<lparr>tabs := tabs l @ [w]\<rparr>"] assms(3) h1 obtain s2 where
    2: "update_leaf i (\<lambda>l. l\<lparr>tabs := tabs l @ [w]\<rparr>) ?s1 = (Ok (), s2)" "frame ?s1 s2" "root s2 = root s"
      "same_tree (heap s) (heap s2)" "leaf_of (heap s2) = (leaf_of (heap s))(i \<mapsto> l\<lparr>tabs := tabs l @ [w]\<rparr>)" by auto
  have run: "new_window create (Some i) ty s = (Ok w, s2)"
    using a 2(1) by (simp add: new_window_def add_window_def sret_def)
  have w2: "wins s2 = (wins s)(w \<mapsto> ?x)" using wins_frame [OF 2(2)] w1 by simp
  have T: "tabs_inv (heap s) (wins s)" using assms(1) by (simp add: layout_inv_def)
  have tabs: "tabs_of (heap s) i = tabs l" using leaf_sel [OF assms(3)] by simp
  have "win_region ?x = Some i" by (simp add: window_new_def Let_def split: option.splits prod.splits)
  moreover have "w \<notin> set (tabs l)" using tabs_invD(2) [OF T, of w i] tabs fresh by auto
  ultimately have "tabs_inv (heap s2) (wins s2)" unfolding w2
    using tabs_inv_attach [OF T, where w = w and i = i and ts = "tabs l @ [w]"] fresh tabs_of_upd [OF 2(5)] tabs tabs_invD(1) [OF T, of i]
    by simp
  moreover have "tree_ok {} s2"
    using same_tree_ok [of "{}" s s2] assms(1) 2(2-4) p1 by (simp add: layout_inv_def frame_def)
  ultimately show ?thesis using run fresh w2 by (auto simp: layout_inv_def)
qed


section \<open>The assertions of \<open>build\<close> hold\<close>

lemma check_tabs_run:
  assumes "distinct ts" "set ts \<inter> set vw = {}" "\<And>w. w \<in> set ts \<Longrightarrow> \<exists>x. wins s w = Some x \<and> win_region x = Some i"
  shows "\<exists>vw'. check_tabs s i ts vw = Ok vw' \<and> set vw' = set ts \<union> set vw"
  using assms
proof (induction ts arbitrary: vw)
  case (Cons w ts)
  from Cons.prems(3) [of w] obtain x where x: "try_get (windows s) w = Some x" "win_region x = Some i"
    by (auto simp: wins_def)
  have "set ts \<inter> set (w # vw) = {}" using Cons.prems by auto
  from Cons.IH [OF _ this] Cons.prems(1,3) obtain vw' where
    "check_tabs s i ts (w # vw) = Ok vw'" "set vw' = set ts \<union> set (w # vw)" by auto
  then show ?case using x Cons.prems(2) by auto
qed simp

lemma check_parents_run: "(\<And>c. c \<in> set cs \<Longrightarrow> par (heap s) c = Some i) \<Longrightarrow> check_parents s i cs = Ok ()"
proof (induction cs)
  case (Cons c cs)
  from Cons.prems [of c] obtain r where "try_get (regions s) c = Some r" "parent r = Some i"
    by (auto simp: par_def heap_def split: option.splits)
  with Cons show ?case by simp
qed simp

lemma check_walk_run:
  assumes "layout_inv s" "walk_inv (dom (heap s)) (par (heap s)) (kids (heap s)) (root s) S (set vr)"
    "set vw = (\<Union>i \<in> set vr. set (tabs_of (heap s) i))"
  shows "\<exists>vr' vw'. check_walk s S vr vw = Ok (vr', vw') \<and> set vr' = dom (heap s) \<and>
    set vw' = (\<Union>i \<in> dom (heap s). set (tabs_of (heap s) i))"
  using assms
proof (induction s S vr vw rule: check_walk.induct)
  case (1 s vr vw)
  have "wf_tree (dom (heap s)) (par (heap s)) (kids (heap s)) (root s)"
    using "1.prems"(1) by (simp add: layout_inv_def tree_ok_def tree_def)
  from walk_end [OF this "1.prems"(2)] show ?case using "1.prems"(3) by simp
next
  case (2 s i S vr vw)
  let ?h = "heap s"
  have wf: "wf_tree (dom ?h) (par ?h) (kids ?h) (root s)" and sh: "shaped {} ?h" and T: "tabs_inv ?h (wins s)"
    using "2.prems"(1) by (simp_all add: layout_inv_def tree_ok_def tree_def)
  have i: "i \<in> dom ?h" "i \<notin> set vr" using "2.prems"(2) by (auto simp: walk_inv_def)
  then obtain r where r: "?h i = Some r" by auto
  note next_inv = walk_step [OF wf "2.prems"(2)]
  show ?case
  proof (cases "content r")
    case (Leaf l)
    have lf: "leaf_of ?h i = Some l" using r Leaf by (simp add: leaf_of_def)
    note L = leaf_sel [OF lf]
    have "w \<notin> set vw" if "w \<in> set (tabs l)" for w
    proof
      assume "w \<in> set vw"
      then obtain j where "j \<in> set vr" "w \<in> set (tabs_of ?h j)" using "2.prems"(3) by auto
      then show False using tabs_invD(2) [OF T, of w i] tabs_invD(2) [OF T, of w j] that L i(2) by auto
    qed
    then have "set (tabs l) \<inter> set vw = {}" by blast
    moreover have "\<exists>x. wins s w = Some x \<and> win_region x = Some i" if "w \<in> set (tabs l)" for w
      using tabs_invD(2) [OF T, of w i] that L by simp
    ultimately obtain vw' where c: "check_tabs s i (tabs l) vw = Ok vw'" "set vw' = set (tabs l) \<union> set vw"
      using check_tabs_run tabs_invD(1) [OF T, of i] L by metis
    have "walk_inv (dom ?h) (par ?h) (kids ?h) (root s) S (set (i # vr))" using next_inv L by simp
    moreover have "set vw' = (\<Union>i \<in> set (i # vr). set (tabs_of ?h i))" using c(2) "2.prems"(3) L by simp
    ultimately show ?thesis using "2.IH"(2) [OF i(2) r Leaf "2.prems"(1)] i(2) r Leaf c(1) by simp
  next
    case (Split a cs)
    have k: "kids ?h i = cs" "axis_of ?h i = Some a" "tabs_of ?h i = []" using r Split by (simp_all add: kids_def axis_of_def tabs_of_def leaf_of_def)
    have ne: "cs \<noteq> []" using shapedD(2) [OF sh k(2)] k(1) by auto
    have c: "check_parents s i cs = Ok ()" by (rule check_parents_run) (use wf_treeD(3) [OF wf] k in blast)
    have "walk_inv (dom ?h) (par ?h) (kids ?h) (root s) (cs @ S) (set (i # vr))" using next_inv k by simp
    moreover have "set vw = (\<Union>i \<in> set (i # vr). set (tabs_of ?h i))" using "2.prems"(3) k by simp
    ultimately show ?thesis using "2.IH"(1) [OF i(2) r Split ne "2.prems"(1)] i(2) r Split ne c by simp
  qed
qed

definition attached :: "'c Layout \<Rightarrow> bool" where
  "attached s \<longleftrightarrow> (\<forall>w x. wins s w = Some x \<longrightarrow> win_region x \<noteq> None)"

lemma build_checks_run:
  assumes "layout_inv s" "attached s"
  shows "build_checks s = Ok ()"
proof -
  let ?h = "heap s"
  have wf: "wf_tree (dom ?h) (par ?h) (kids ?h) (root s)" and T: "tabs_inv ?h (wins s)"
    using assms(1) by (simp_all add: layout_inv_def tree_ok_def tree_def)
  have "walk_inv (dom ?h) (par ?h) (kids ?h) (root s) [root s] (set [])" using walk_start [OF wf] by simp
  from check_walk_run [OF assms(1) this, of "[]"] obtain vr vw where
    w: "check_walk s [root s] [] [] = Ok (vr, vw)" "set vr = dom ?h" "set vw = (\<Union>i \<in> dom ?h. set (tabs_of ?h i))" by auto
  have "fst e \<in> set vr" if "e \<in> set (iter_mut (regions s))" for e
    using that iter_mut_set [of "fst e" "snd e" "regions s"] w(2) by (auto simp: heap_def)
  moreover have "fst e \<in> set vw" if "e \<in> set (iter_mut (windows s))" for e
  proof -
    have e: "wins s (fst e) = Some (snd e)" using that iter_mut_set [of "fst e" "snd e" "windows s"] by (simp add: wins_def)
    then obtain i where "win_region (snd e) = Some i" using assms(2) by (auto simp: attached_def)
    with e have i: "fst e \<in> set (tabs_of ?h i)" using tabs_invD(2) [OF T, of "fst e" i] by auto
    then have "i \<in> dom ?h" by (auto simp: tabs_of_def leaf_of_def split: option.splits)
    with i w(3) show ?thesis by auto
  qed
  ultimately show ?thesis using w(1) by (simp add: build_checks_def iter_eq_iter_mut list_all_iff)
qed


section \<open>Moving a window\<close>

lemma reorder_same:
  assumes "apply_action (Reorder a b) st ts = Ok (c, st', ts')" "distinct ts"
  shows "set ts' = set ts \<and> distinct ts'"
proof -
  obtain b' where b': "(if b \<le> a then b else b - 1) = b'" by blast
  show ?thesis
  proof (cases "b' \<noteq> a \<and> a < length ts \<and> b' < length ts")
    case True
    then have ts': "ts' = insert_at b' (ts ! a) (remove_at a ts)" using assms(1) by (simp add: Let_def b')
    from True have a: "a < length ts" by simp
    note R = set_remove_at [OF assms(2) a]
    have "ts ! a \<in> set ts" "ts ! a \<notin> set (remove_at a ts)" using a R(1) by simp_all
    then show ?thesis unfolding ts' using R distinct_insert_at [OF R(2), of "ts ! a" b'] by (auto simp: set_insert_at)
  next
    case False
    then show ?thesis using assms by (auto simp: Let_def b')
  qed
qed

lemma reorder_total: "\<exists>c st' ts'. apply_action (Reorder a b) st ts = Ok (c, st', ts')"
proof -
  obtain r where r: "apply_action (Reorder a b) st ts = Ok r" by (simp only: apply_action.simps Let_def)
  show ?thesis unfolding r by (cases r) simp
qed

lemma get_leaf_eq: "leaf_of (heap s) i = Some l \<Longrightarrow> get_leaf i s = (Ok l, s)"
  by (auto simp: leaf_of_Some get_leaf_def get_region_eq slift_def)

lemma window_in_leaf:
  assumes "layout_inv s" "wins s w = Some x" "win_region x = Some i"
  shows "\<exists>l k. leaf_of (heap s) i = Some l \<and> position w (tabs l) = Some k \<and> k < length (tabs l) \<and> tabs l ! k = w \<and> distinct (tabs l)"
proof -
  have T: "tabs_inv (heap s) (wins s)" using assms(1) by (simp add: layout_inv_def)
  have w: "w \<in> set (tabs_of (heap s) i)" using tabs_invD(2) [OF T] assms(2,3) by blast
  then obtain l where l: "leaf_of (heap s) i = Some l" "w \<in> set (tabs l)"
    by (cases "leaf_of (heap s) i") (simp_all add: tabs_of_def)
  then show ?thesis using position_in [OF l(2)] tabs_invD(1) [OF T, of i] leaf_sel [OF l(1)] by auto
qed

lemma remove_at_removeAll: "distinct xs \<Longrightarrow> i < length xs \<Longrightarrow> remove_at i xs = removeAll (xs ! i) xs"
proof -
  assume d: "distinct xs" and i: "i < length xs"
  note s = split_at [OF i]
  have "distinct (take i xs @ xs ! i # drop (Suc i) xs)" using d s by simp
  then have "removeAll (xs ! i) (take i xs @ xs ! i # drop (Suc i) xs) = remove_at i xs" by (simp add: remove_at_def)
  then show ?thesis using s by simp
qed

lemma leave_reorder_run:
  assumes "layout_inv s" "wins s w = Some x" "win_region x = Some i"
  shows "\<exists>s'. leave_region w i (AddTab k) x s = (Ok None, s') \<and> layout_inv s' \<and> wins s' = wins s \<and> active_window s' = active_window s \<and>
    (\<forall>j. j \<noteq> i \<longrightarrow> leaf_of (heap s') j = leaf_of (heap s) j)"
proof -
  obtain l idx where l: "leaf_of (heap s) i = Some l" "position w (tabs l) = Some idx" "distinct (tabs l)"
    using window_in_leaf [OF assms] by blast
  obtain c st ts where act: "apply_action (Reorder idx (min k (length (tabs l)))) (tabs_state l) (tabs l) = Ok (c, st, ts)"
    using reorder_total by blast
  have ts: "set ts = set (tabs l)" "distinct ts" using reorder_same [OF act l(3)] by simp_all
  from update_leaf_run [OF l(1), of "\<lambda>_. \<lparr>tabs = ts, tabs_state = st\<rparr>"] obtain s1 where
    1: "update_leaf i (\<lambda>_. \<lparr>tabs = ts, tabs_state = st\<rparr>) s = (Ok (), s1)" "frame s s1" "root s1 = root s"
      "same_tree (heap s) (heap s1)" "leaf_of (heap s1) = (leaf_of (heap s))(i \<mapsto> \<lparr>tabs = ts, tabs_state = st\<rparr>)" by blast
  have run: "leave_region w i (AddTab k) x s = (Ok None, s1)"
    using assms(3) l act 1(1) by (simp add: leave_region_def get_leaf_eq slift_def position_of_def sret_def)
  have w1: "wins s1 = wins s" by (rule wins_frame [OF 1(2)])
  have T: "tabs_inv (heap s) (wins s)" using assms(1) by (simp add: layout_inv_def)
  have "set (tabs_of (heap s1) j) = set (tabs_of (heap s) j)" "distinct (tabs_of (heap s1) j)" for j
    using tabs_of_upd [OF 1(5), of j] leaf_sel [OF l(1)] ts tabs_invD(1) [OF T, of j] by auto
  then have "tabs_inv (heap s1) (wins s1)" using T w1 by (simp add: tabs_inv_def)
  moreover have "tree_ok {} s1"
    using same_tree_ok [of "{}" s s1] assms(1) 1(2-4) by (simp add: layout_inv_def tree_ok_def frame_def)
  ultimately show ?thesis using run w1 1(2,5) by (auto simp: layout_inv_def frame_def)
qed

text \<open>The state between taking a window out of its region and putting it into another one.\<close>

definition in_flight :: "Id \<Rightarrow> 'c Window \<Rightarrow> 'c Layout \<Rightarrow> bool" where
  "in_flight w x s \<longleftrightarrow> tree_ok {} s \<and> wins s w = Some x \<and> tabs_inv (heap s) ((wins s)(w \<mapsto> x\<lparr>win_region := None\<rparr>))"

lemma leave_run:
  assumes "layout_inv s" "wins s w = Some x" "win_region x = None \<or> (\<exists>j. win_region x = Some j \<and> (j = i \<longrightarrow> (\<forall>k. rel \<noteq> AddTab k)))"
  shows "\<exists>s' js. leave_region w i rel x s = (Ok (Some js), s') \<and> in_flight w x s' \<and> frame s s' \<and> same_tree (heap s) (heap s') \<and>
    (\<forall>j. leaf_of (heap s') j = None \<longleftrightarrow> leaf_of (heap s) j = None) \<and>
    (\<forall>j. tabs_of (heap s') j = removeAll w (tabs_of (heap s) j)) \<and> js = (case win_region x of None \<Rightarrow> [] | Some j \<Rightarrow> [j])"
proof (cases "win_region x")
  case None
  have "(wins s)(w \<mapsto> x\<lparr>win_region := None\<rparr>) = wins s" using None assms(2) by (auto simp: fun_eq_iff)
  then have "in_flight w x s" using assms(1,2) by (simp add: in_flight_def layout_inv_def)
  moreover have "w \<notin> set (tabs_of (heap s) j)" for j
    using tabs_invD(2) [of "heap s" "wins s" w j] assms(1,2) None by (auto simp: layout_inv_def)
  ultimately show ?thesis using None by (auto simp: leave_region_def sret_def same_tree_def)
next
  case (Some j)
  obtain l idx where l: "leaf_of (heap s) j = Some l" "position w (tabs l) = Some idx" "idx < length (tabs l)"
    "tabs l ! idx = w" "distinct (tabs l)"
    using window_in_leaf [OF assms(1,2) Some] by blast
  let ?l = "\<lparr>tabs = remove_at idx (tabs l), tabs_state = tabs_closed idx (tabs_state l)\<rparr>"
  from update_leaf_run [OF l(1), of "\<lambda>_. ?l"] obtain s1 where
    1: "update_leaf j (\<lambda>_. ?l) s = (Ok (), s1)" "frame s s1" "root s1 = root s"
      "same_tree (heap s) (heap s1)" "leaf_of (heap s1) = (leaf_of (heap s))(j \<mapsto> ?l)" by blast
  have "rel \<noteq> AddTab k" if "j = i" for k using assms(3) Some that by auto
  then have "(case (j = i, rel) of (True, AddTab k) \<Rightarrow> f k | _ \<Rightarrow> g) = g" for f :: "nat \<Rightarrow> ('a, Id list option) lay" and g
    by (cases "j = i"; cases rel) auto
  then have run: "leave_region w i rel x s = (Ok (Some [j]), s1)"
    using Some l 1(1) by (simp add: leave_region_def get_leaf_eq slift_def position_of_def sret_def)
  have w1: "wins s1 = wins s" by (rule wins_frame [OF 1(2)])
  have T: "tabs_inv (heap s) (wins s)" using assms(1) by (simp add: layout_inv_def)
  have "set (remove_at idx (tabs l)) = set (tabs_of (heap s) j) - {w}" "distinct (remove_at idx (tabs l))"
    using set_remove_at [OF l(5,3)] l(4) leaf_sel [OF l(1)] by simp_all
  then have "tabs_inv (heap s1) ((wins s1)(w \<mapsto> x\<lparr>win_region := None\<rparr>))"
    unfolding w1 using tabs_inv_release [OF T assms(2) Some, where ts = "remove_at idx (tabs l)"] tabs_of_upd [OF 1(5)] by simp
  moreover have "tree_ok {} s1"
    using same_tree_ok [of "{}" s s1] assms(1) 1(2-4) by (simp add: layout_inv_def tree_ok_def frame_def)
  ultimately have "in_flight w x s1" using w1 assms(2) by (simp add: in_flight_def)
  moreover have "\<forall>k. leaf_of (heap s1) k = None \<longleftrightarrow> leaf_of (heap s) k = None" using 1(5) l(1) by simp
  moreover have "tabs_of (heap s1) k = removeAll w (tabs_of (heap s) k)" for k
  proof (cases "k = j")
    case True
    then show ?thesis using tabs_of_upd [OF 1(5), of j] remove_at_removeAll [OF l(5,3)] l(4) leaf_sel [OF l(1)] by simp
  next
    case False
    then have "w \<notin> set (tabs_of (heap s) k)" using tabs_invD(2) [OF T, of w k] assms(2) Some by auto
    then show ?thesis using tabs_of_upd [OF 1(5), of k] False by simp
  qed
  ultimately show ?thesis using run 1(2,4) Some by auto
qed

end
