(* ===== verification/Relocate.thy ===== *)
theory Relocate
  imports LayoutMoves
begin

text \<open>
  Moving a window by mouse (\<open>Layout::relocate_window\<close>): the window leaves its region, is put into
  another one or into a new one, and the regions that the move left empty or superfluous go away.
\<close>

section \<open>Putting the window down\<close>

text \<open>The window is now a tab of \<open>t\<close>, and the leaves other than \<open>t\<close> have kept their tabs.\<close>

definition landed :: "Id \<Rightarrow> 'c Window \<Rightarrow> Id \<Rightarrow> 'c Layout \<Rightarrow> 'c Layout \<Rightarrow> bool" where
  "landed w x t s s' \<longleftrightarrow> layout_inv s' \<and> wins s' = (wins s)(w \<mapsto> x\<lparr>win_region := Some t\<rparr>) \<and>
     w \<in> set (tabs_of (heap s') t) \<and> (\<forall>j. j \<noteq> t \<longrightarrow> leaf_of (heap s') j = leaf_of (heap s) j) \<and>
     active_window s' = active_window s"

lemma landedI:
  assumes "in_flight w x s" "tree_ok {} s'" "wins s' = (wins s)(w \<mapsto> x\<lparr>win_region := Some t\<rparr>)"
    "leaf_of (heap s') = (leaf_of (heap s))(t \<mapsto> l)" "set (tabs l) = insert w (set (tabs_of (heap s) t))" "distinct (tabs l)"
    "active_window s' = active_window s"
  shows "landed w x t s s'"
proof -
  have T: "tabs_inv (heap s) ((wins s)(w \<mapsto> x\<lparr>win_region := None\<rparr>))" using assms(1) by (simp add: in_flight_def)
  have "tabs_inv (heap s') ((wins s)(w \<mapsto> x\<lparr>win_region := None\<rparr>, w \<mapsto> x\<lparr>win_region := Some t\<rparr>))"
    by (rule tabs_inv_attach [OF T _ tabs_of_upd [OF assms(4)] assms(5,6)]) simp_all
  then have "layout_inv s'" using assms(2,3) by (simp add: layout_inv_def)
  then show ?thesis using assms(3-5,7) tabs_of_upd [OF assms(4), of t] by (simp add: landed_def)
qed

lemma shaped_add:
  assumes "shaped {} h" "axis_of h' = axis_of h" "kids h' = (kids h)(i := ks)" "set ks \<subseteq> insert n (set (kids h i))"
    "length (kids h i) \<le> length ks" "axis_of h n = None"
  shows "shaped {} h'"
  unfolding shaped_def
proof (intro allI impI)
  fix q a assume "axis_of h' q = Some a"
  then have q: "axis_of h q = Some a" using assms(2) by simp
  note Q = shapedD [OF assms(1) q]
  have "axis_of h' c \<noteq> Some a" if "c \<in> set (kids h' q)" for c
    using Q(3) [of c] that assms(2-4,6) by (cases "c = n") (auto split: if_splits)
  then show "(if q \<in> {} then 1 else 2) \<le> length (kids h' q) \<and> (\<forall>c \<in> set (kids h' q). c \<notin> {} \<longrightarrow> axis_of h' c \<noteq> Some a)"
    using Q(1) assms(3,5) by auto
qed

text \<open>The heap with a new leaf \<open>n\<close> among the children of \<open>i\<close>.\<close>

definition with_leaf :: "(Id \<Rightarrow> Region option) \<Rightarrow> Id \<Rightarrow> nat \<Rightarrow> Id \<Rightarrow> Region \<Rightarrow> RegionLeaf \<Rightarrow> nat \<Rightarrow> Id \<Rightarrow> Region option" where
  "with_leaf h i wall n r l sz = h(n \<mapsto> \<lparr>parent = Some i, content = Leaf l, relative_size = sz\<rparr>,
     i \<mapsto> r\<lparr>content := (case content r of Split a cs \<Rightarrow> Split a (insert_at wall n cs) | Leaf l \<Rightarrow> Leaf l)\<rparr>)"

lemma with_leaf_sel:
  assumes "h i = Some r" "content r = Split a cs" "n \<notin> dom h"
  shows "dom (with_leaf h i wall n r l sz) = insert n (dom h)" "par (with_leaf h i wall n r l sz) = (par h)(n \<mapsto> i)"
    "kids (with_leaf h i wall n r l sz) = (kids h)(i := insert_at wall n cs)" "axis_of (with_leaf h i wall n r l sz) = axis_of h"
    "leaf_of (with_leaf h i wall n r l sz) = (leaf_of h)(n \<mapsto> l)" "kids h i = cs" "n \<noteq> i"
proof -
  show ni: "n \<noteq> i" using assms by auto
  have n: "par h n = None" "kids h n = []" "axis_of h n = None" "leaf_of h n = None" using assms(3) by (simp_all add: domIff)
  have i: "par h i = parent r" "axis_of h i = Some a" "leaf_of h i = None" and k: "kids h i = cs"
    using assms(1,2) by (simp_all add: par_def axis_of_def leaf_of_def kids_def)
  show "kids h i = cs" by (rule k)
  show "dom (with_leaf h i wall n r l sz) = insert n (dom h)" using assms by (auto simp: with_leaf_def)
  show "par (with_leaf h i wall n r l sz) = (par h)(n \<mapsto> i)" using ni n i by (auto simp: with_leaf_def fun_eq_iff)
  show "kids (with_leaf h i wall n r l sz) = (kids h)(i := insert_at wall n cs)"
    using ni n k assms(2) by (auto simp: with_leaf_def fun_eq_iff)
  show "axis_of (with_leaf h i wall n r l sz) = axis_of h" using ni n i assms(2) by (auto simp: with_leaf_def fun_eq_iff)
  show "leaf_of (with_leaf h i wall n r l sz) = (leaf_of h)(n \<mapsto> l)" using ni n i assms(2) by (auto simp: with_leaf_def fun_eq_iff)
qed

lemma with_leaf_inv:
  assumes s: "tree_ok {} s" and i: "heap s i = Some r" "content r = Split a cs" and n: "n \<notin> dom (heap s)"
    and h: "heap s' = resize f X (with_leaf (heap s) i wall n r l sz)" and sz: "\<And>j. 1 \<le> f j \<and> f j \<le> 1000000" "1 \<le> sz" "sz \<le> 1000000"
    and rest: "root s' = root s" "pools s'" "card (dom (heap s')) \<le> 1000000"
  shows "tree_ok {} s'"
proof -
  let ?h = "heap s"
  have tr: "wf_tree (dom ?h) (par ?h) (kids ?h) (root s)" "shaped {} ?h" "sizes ?h" using s by (simp_all add: tree_ok_def tree_def)
  note S = with_leaf_sel [OF i n]
  have "wf_tree (insert n (dom ?h)) ((par ?h)(n \<mapsto> i)) ((kids ?h)(i := insert_at wall n (kids ?h i))) (root s)"
    by (rule wf_tree_add [OF tr(1) n]) (use i in auto)
  then have "tree (heap s') (root s')" unfolding h tree_def rest(1) by (simp add: S)
  moreover have "shaped {} (heap s')"
    by (rule shaped_add [OF tr(2), where i = i and n = n and ks = "insert_at wall n cs"])
      (use n in \<open>simp_all add: h S set_insert_at length_insert_at domIff\<close>)
  moreover have "sizes (heap s')" unfolding h
    by (rule resize_sizes) (use tr(3) i(1) sz in \<open>auto simp: with_leaf_def sizes_def\<close>)
  ultimately show ?thesis using rest by (simp add: tree_ok_def)
qed

lemma add_to_split_run:
  assumes fl: "in_flight w x s" and i: "heap s i = Some r" "content r = Split a cs" and wall: "1 \<le> wall" "wall < length cs"
    and room: "room (Suc k) s"
  shows "\<exists>n s'. add_to_split w i wall s = (Ok [n], s') \<and> landed w x n s s' \<and> n \<notin> dom (heap s)"
proof -
  let ?h = "heap s" and ?p = "cs ! (wall - 1)" and ?q = "cs ! wall"
  have ok: "tree_ok {} s" and wx: "wins s w = Some x" and T: "tabs_inv ?h ((wins s)(w \<mapsto> x\<lparr>win_region := None\<rparr>))"
    using fl by (simp_all add: in_flight_def)
  have tr: "pools s" "wf_tree (dom ?h) (par ?h) (kids ?h) (root s)" "sizes ?h" using ok by (simp_all add: tree_ok_def tree_def)
  note W = wf_treeD [OF tr(2)]
  have cs: "kids ?h i = cs" "distinct cs" using i W(4) [of i] by (simp_all add: kids_def)
  have kid: "?p \<in> set cs" "?q \<in> set cs" using wall by simp_all
  have ne: "?p \<noteq> ?q" using wall cs(2) by (simp add: nth_eq_iff_index_eq)
  have out: "c \<in> dom ?h \<and> c \<noteq> i" if "c \<in> set cs" for c
    using W(3) [of c i] cs(1) that no_loop [OF W(6) W(2), of c] by auto
  obtain p q where pq: "?h ?p = Some p" "?h ?q = Some q" using out [OF kid(1)] out [OF kid(2)] by auto
  have sz: "1 \<le> relative_size p" "relative_size p \<le> 1000000" "1 \<le> relative_size q" "relative_size q \<le> 1000000"
    using tr(3) pq unfolding sizes_def by blast+
  define z where "z = relative_size p + relative_size q"
  define a1 where "a1 = z div 3"
  define a2 where "a2 = (z - a1) div 2"
  have z: "z \<le> 2000000" "z < 2 ^ 64" using sz by (simp_all add: z_def)
  let ?N = "\<lparr>parent = Some i, content = Leaf (default_leaf\<lparr>tabs := [w]\<rparr>), relative_size = max a1 1\<rparr>"
  from add_region_run [OF tr(1) room, of ?N] obtain n s1 where
    1: "add_region ?N s = (Ok n, s1)" "heap s1 = ?h(n \<mapsto> ?N)" "?h n = None" "aframe s s1" "room k s1" by blast
  have n: "n \<noteq> i" "n \<noteq> ?p" "n \<noteq> ?q" "n \<notin> dom ?h" using 1(3) i(1) pq by auto
  let ?s2 = "put_region ?p (p\<lparr>relative_size := max a2 1\<rparr>) s1"
  let ?s3 = "put_region ?q (q\<lparr>relative_size := max (z - a1 - a2) 1\<rparr>) ?s2"
  let ?s4 = "put_region i (r\<lparr>content := Split a (insert_at wall n cs)\<rparr>) ?s3"
  let ?f = "(\<lambda>_. max a2 1)(?q := max (z - a1 - a2) 1)"
  have h2: "heap ?s2 = ?h(n \<mapsto> ?N, ?p \<mapsto> p\<lparr>relative_size := max a2 1\<rparr>)" using 1(2) pq n by simp
  have h3: "heap ?s3 = ?h(n \<mapsto> ?N, ?p \<mapsto> p\<lparr>relative_size := max a2 1\<rparr>, ?q \<mapsto> q\<lparr>relative_size := max (z - a1 - a2) 1\<rparr>)"
    unfolding heap_put_region [of ?q] h2 using pq n ne by simp
  have i3: "heap ?s3 i = Some r" unfolding h3 using i(1) n out [OF kid(1)] out [OF kid(2)] by auto
  have h4: "heap ?s4 = (heap ?s3)(i \<mapsto> r\<lparr>content := Split a (insert_at wall n cs)\<rparr>)" unfolding heap_put_region [of i] using i3 by simp
  have h4': "heap ?s4 = resize ?f {?p, ?q} (with_leaf ?h i wall n r (default_leaf\<lparr>tabs := [w]\<rparr>) (max a1 1))"
    unfolding h4 h3 with_leaf_def using pq n ne i out [OF kid(1)] out [OF kid(2)] by (auto simp: resize_def fun_eq_iff)
  have fr: "frame s1 ?s4" by (intro frame_trans [OF _ frame_put_region] frame_refl)
  have w4: "wins ?s4 = wins s" using wins_frame [OF fr] 1(4) by (simp add: aframe_def wins_def)
  from update_window_run [of ?s4 w x "\<lambda>x. x\<lparr>win_region := Some n\<rparr>"] w4 wx obtain s5 where
    5: "update_window w (\<lambda>x. x\<lparr>win_region := Some n\<rparr>) ?s4 = (Ok (), s5)" "wframe ?s4 s5"
      "wins s5 = (wins s)(w \<mapsto> x\<lparr>win_region := Some n\<rparr>)" by auto
  have h5: "heap s5 = heap ?s4" by (rule wframe_heap [OF 5(2)])
  have run: "add_to_split w i wall s = (Ok [n], s5)"
    using i wall pq z(2) 1(1) 5(1) 1(2) h2 i3 n ne
    by (simp add: add_to_split_def get_split_eq get_region_eq slift_def usize_def Let_def update_region_eq update_children_def sret_def
        z_def [symmetric] a1_def [symmetric] a2_def [symmetric] del: heap_put_region)
  have "card (dom (heap ?s4)) \<le> 1000000"
    unfolding h4' using 1(2,5) n(4) finite_heap [of s] i by (simp add: with_leaf_sel room_def)
  then have c5: "card (dom (heap s5)) \<le> 1000000" unfolding h5 .
  have f5: "root s5 = root s" "pools s5" "active_window s5 = active_window s"
    using fr 1(4) 5(2) tr(1) by (auto simp: frame_def wframe_def aframe_def)
  have "a1 \<le> 1000000" "a2 \<le> 1000000" "z - a1 - a2 \<le> 1000000" using z(1) by (auto simp: a1_def a2_def)
  then have b: "1 \<le> ?f j \<and> ?f j \<le> 1000000" "1 \<le> max a1 1" "max a1 1 \<le> 1000000" for j by auto
  have "heap s5 = resize ?f {?p, ?q} (with_leaf ?h i wall n r (default_leaf\<lparr>tabs := [w]\<rparr>) (max a1 1))"
    unfolding h5 by (rule h4')
  then have "tree_ok {} s5" by (rule with_leaf_inv [OF ok i n(4) _ b f5(1,2) c5])
  moreover have l5: "leaf_of (heap s5) = (leaf_of ?h)(n \<mapsto> default_leaf\<lparr>tabs := [w]\<rparr>)"
    unfolding h5 h4' using with_leaf_sel(5) [OF i n(4)] by simp
  ultimately have "landed w x n s s5"
    using landedI [OF fl _ 5(3) l5] f5 n(4) by (simp add: tabs_of_def domIff default_leaf_def)
  then show ?thesis using run n(4) by blast
qed

text \<open>A window becomes a tab of a leaf.\<close>

lemma into_leaf:
  assumes "in_flight w x s" "tree_ok {} s1" "wins s1 = wins s" "active_window s1 = active_window s"
    and l: "leaf_of (heap s1) t = Some l" "\<And>j. j \<noteq> t \<Longrightarrow> leaf_of (heap s1) j = leaf_of (heap s) j"
    and f: "set (tabs (f l)) = insert w (set (tabs_of (heap s) t))" "distinct (tabs (f l))"
  shows "\<exists>s2 s3. update_leaf t f s1 = (Ok (), s2) \<and> update_window w (\<lambda>x. x\<lparr>win_region := Some t\<rparr>) s2 = (Ok (), s3) \<and>
    landed w x t s s3"
proof -
  from update_leaf_run [OF l(1), of f] obtain s2 where
    2: "update_leaf t f s1 = (Ok (), s2)" "frame s1 s2" "root s2 = root s1" "same_tree (heap s1) (heap s2)"
      "leaf_of (heap s2) = (leaf_of (heap s1))(t \<mapsto> f l)" by blast
  have w2: "wins s2 = wins s" using wins_frame [OF 2(2)] assms(3) by simp
  have wx: "wins s w = Some x" using assms(1) by (simp add: in_flight_def)
  from update_window_run [of s2 w x "\<lambda>x. x\<lparr>win_region := Some t\<rparr>"] w2 wx obtain s3 where
    3: "update_window w (\<lambda>x. x\<lparr>win_region := Some t\<rparr>) s2 = (Ok (), s3)" "wframe s2 s3"
      "wins s3 = (wins s)(w \<mapsto> x\<lparr>win_region := Some t\<rparr>)" by auto
  have h3: "heap s3 = heap s2" by (rule wframe_heap [OF 3(2)])
  have p: "root s3 = root s1" "pools s3" "active_window s3 = active_window s"
    using assms(2,4) 2(2,3) 3(2) by (simp_all add: tree_ok_def frame_def wframe_def)
  have "tree_ok {} s3" by (rule same_tree_ok [OF assms(2)]) (use 2(4) p in \<open>simp_all add: h3\<close>)
  moreover have "leaf_of (heap s3) = (leaf_of (heap s))(t \<mapsto> f l)" unfolding h3 2(5) using l(2) by (auto simp: fun_eq_iff)
  ultimately have "landed w x t s s3" using landedI [OF assms(1) _ 3(3)] f p(3) by blast
  then show ?thesis using 2(1) 3(1) by blast
qed

text \<open>What the code that handles the mouse passes to \<open>relocate_window\<close>.\<close>

definition reloc_ok :: "'c Layout \<Rightarrow> Id \<Rightarrow> WindowRelocation \<Rightarrow> bool" where
  "reloc_ok s i rel \<longleftrightarrow> (case rel of
      AddTab k \<Rightarrow> leaf_of (heap s) i \<noteq> None
    | AddToExistingSplit wall \<Rightarrow> 1 \<le> wall \<and> wall < length (kids (heap s) i)
    | SplitLeaf a side \<Rightarrow> leaf_of (heap s) i \<noteq> None \<and> side \<le> 1)"

text \<open>\<open>0.5 - 0.0\<close> and \<open>1.0 - 0.5\<close>, in millionths, are at most a million.\<close>

definition halves :: "'f f64_ops \<Rightarrow> bool" where
  "halves fl \<longleftrightarrow> f_span fl (f_zero fl) (f_half fl) \<le> 1000000 \<and> f_span fl (f_half fl) (f_one fl) \<le> 1000000"

lemma halves_sizes: "halves fl \<Longrightarrow> k \<le> length [f_half fl] \<Longrightarrow> wall_size fl [f_half fl] k \<le> 1000000"
  by (cases k) (auto simp: halves_def wall_size_def)

lemma place_tab_run:
  assumes "in_flight w x s" "leaf_of (heap s) i = Some l"
  shows "\<exists>s'. place_window fl w i (AddTab k) s = (Ok [], s') \<and> landed w x i s s'"
proof -
  let ?k = "min k (length (tabs l))"
  let ?f = "\<lambda>l. \<lparr>tabs = insert_at ?k w (tabs l), tabs_state = tabs_select ?k (tabs_state l)\<rparr>"
  obtain r where r: "heap s i = Some r" "content r = Leaf l" using assms(2) by (auto simp: leaf_of_Some)
  have ok: "tree_ok {} s" and T: "tabs_inv (heap s) ((wins s)(w \<mapsto> x\<lparr>win_region := None\<rparr>))"
    using assms(1) by (simp_all add: in_flight_def)
  have t: "tabs_of (heap s) i = tabs l" using leaf_sel [OF assms(2)] by simp
  have "w \<notin> set (tabs l)" "distinct (tabs l)" using tabs_invD(1) [OF T, of i] tabs_invD(2) [OF T, of w i] t by auto
  then have "set (tabs (?f l)) = insert w (set (tabs_of (heap s) i))" "distinct (tabs (?f l))"
    by (simp_all add: set_insert_at t distinct_insert_at)
  from into_leaf [where f = ?f, OF assms(1) ok refl refl assms(2) refl this] obtain s2 s3 where
    "update_leaf i ?f s = (Ok (), s2)" "update_window w (\<lambda>x. x\<lparr>win_region := Some i\<rparr>) s2 = (Ok (), s3)" "landed w x i s s3" by blast
  then show ?thesis using r get_leaf_eq [OF assms(2)] by (simp add: place_window_def get_region_eq Let_def sret_def)
qed

lemma place_split_run:
  assumes fl: "in_flight w x s" and i: "leaf_of (heap s) i = Some l" and side: "side \<le> 1" and h: "halves fl" and room: "room 2 s"
  shows "\<exists>n s'. place_window fl w i (SplitLeaf a side) s = (Ok [n], s') \<and> landed w x n s s' \<and> n \<notin> dom (heap s)"
proof -
  obtain r where r: "heap s i = Some r" "content r = Leaf l" using i by (auto simp: leaf_of_Some)
  have ok: "tree_ok {} s" using fl by (simp add: in_flight_def)
  have pre: "\<not> same_axis r a" "walls_ok fl [f_half fl]" "1 - side \<le> length [f_half fl]" "room (Suc (length [f_half fl])) s"
    using r room by (simp_all add: same_axis_def walls_ok_def numeral_2_eq_2)
  from split_region_run [OF ok r(1) pre(1,2) halves_sizes [OF h] pre(3,4)] obtain cs s1 where
    1: "split_region fl i a [f_half fl] (1 - side) s = (Ok cs, s1)" "tree_ok {} s1" "length cs = Suc (length [f_half fl])"
      "distinct cs" "cs ! (1 - side) = i" "set cs \<inter> dom (heap s) = {i}"
      "leaf_of (heap s1) = (\<lambda>x. if x \<in> set cs - {i} then Some default_leaf else leaf_of (heap s) x)"
      "windows s1 = windows s" "active_window s1 = active_window s" by blast
  define n where "n = cs ! side"
  have len: "length cs = 2" using 1(3) by simp
  have "n \<noteq> i" "set cs = {i, n}" using len 1(4,5) side
    by (auto simp: n_def length_Suc_conv numeral_2_eq_2 le_Suc_eq)
  then have n: "set cs - {i} = {n}" "n \<notin> dom (heap s)" using 1(6) by auto
  have l1: "leaf_of (heap s1) n = Some default_leaf" using 1(7) n(1) by simp
  have "tabs_of (heap s) n = []" using n(2) by (simp add: tabs_of_def domIff)
  then have f: "set (tabs (default_leaf\<lparr>tabs := [w]\<rparr>)) = insert w (set (tabs_of (heap s) n))" "distinct (tabs (default_leaf\<lparr>tabs := [w]\<rparr>))"
    by (simp_all add: default_leaf_def)
  have other: "leaf_of (heap s1) j = leaf_of (heap s) j" if "j \<noteq> n" for j using 1(7) n(1) that by simp
  have "wins s1 = wins s" using 1(8) by (simp add: wins_def)
  from into_leaf [where f = "\<lambda>l. l\<lparr>tabs := [w]\<rparr>", OF fl 1(2) this 1(9) l1 other f] obtain s2 s3 where
    2: "update_leaf n (\<lambda>l. l\<lparr>tabs := [w]\<rparr>) s1 = (Ok (), s2)" "update_window w (\<lambda>x. x\<lparr>win_region := Some n\<rparr>) s2 = (Ok (), s3)"
      "landed w x n s s3" by blast
  have "place_window fl w i (SplitLeaf a side) s = (Ok [n], s3)"
    using r side 1(1) len 2(1,2) get_leaf_eq [OF l1]
    by (simp add: place_window_def get_region_eq n_def [symmetric] sret_def default_leaf_def)
  then show ?thesis using 2(3) n(2) by blast
qed

lemma place_run:
  assumes fl: "in_flight w x s" and ok: "reloc_ok s i rel" and h: "halves fl" and room: "room 2 s"
  shows "\<exists>more t s'. place_window fl w i rel s = (Ok more, s') \<and> landed w x t s s' \<and> set more \<subseteq> {t} \<and>
    (case rel of AddTab _ \<Rightarrow> t = i | _ \<Rightarrow> heap s t = None)"
proof (cases rel)
  case (AddTab k)
  then obtain l where "leaf_of (heap s) i = Some l" using ok by (auto simp: reloc_ok_def)
  from place_tab_run [OF fl this, of fl k] show ?thesis using AddTab by force
next
  case (SplitLeaf a side)
  then obtain l where "leaf_of (heap s) i = Some l" "side \<le> 1" using ok by (auto simp: reloc_ok_def)
  from place_split_run [OF fl this h room, of a] show ?thesis using SplitLeaf by force
next
  case (AddToExistingSplit wall)
  then have w: "1 \<le> wall" "wall < length (kids (heap s) i)" using ok by (simp_all add: reloc_ok_def)
  then obtain r a cs where r: "heap s i = Some r" "content r = Split a cs"
    by (auto simp: kids_def split: option.splits RegionContent.splits)
  then have "kids (heap s) i = cs" by (simp add: kids_def)
  with w(2) have "wall < length cs" by simp
  from add_to_split_run [OF fl r w(1) this, of 1] room show ?thesis using AddToExistingSplit r
    by (force simp: place_window_def get_region_eq numeral_2_eq_2)
qed


section \<open>Removing what the move left over\<close>

text \<open>A leaf with no parent is the only region.\<close>

lemma lone_root:
  assumes wf: "wf_tree D P K rt" and i: "i \<in> D" "P i = None" "K i = []" and j: "j \<in> D"
  shows "j = i"
proof -
  have "climbs P rt i" using wf_treeD(6) [OF wf] i(1) .
  then have rt: "rt = i" using i(2) by cases auto
  show ?thesis
  proof (rule tree_induct [OF wf j])
    show "i' = i" if "i' \<in> D" "P i' = Some p" "p = i" for i' p using wf_treeD(3) [OF wf, of i' i] i(3) that by simp
  qed (rule rt)
qed

lemma tree_ok_mono: assumes "tree_ok {} s" shows "tree_ok X s"
proof -
  have sh: "shaped {} (heap s)" using assms by (simp add: tree_ok_def)
  have "(if p \<in> X then 1 else 2) \<le> length (kids (heap s) p)" "\<forall>c \<in> set (kids (heap s) p). axis_of (heap s) c \<noteq> Some a"
    if "axis_of (heap s) p = Some a" for p a using shapedD(1,3) [OF sh that] by auto
  then have "shaped X (heap s)" unfolding shaped_def by blast
  then show ?thesis using assms by (simp add: tree_ok_def)
qed

text \<open>The leaf \<open>i\<close> goes if it has no tabs.\<close>

definition pruned :: "Id \<Rightarrow> (Id \<Rightarrow> RegionLeaf option) \<Rightarrow> Id \<Rightarrow> RegionLeaf option" where
  "pruned i m = (case m i of Some l \<Rightarrow> if tabs l = [] then m(i := None) else m | None \<Rightarrow> m)"

lemma simplify_region_run:
  assumes inv: "layout_inv s" and par: "leaf_of (heap s) i \<noteq> None \<Longrightarrow> tabs_of (heap s) i = [] \<Longrightarrow> par (heap s) i \<noteq> None"
  shows "\<exists>s'. simplify_region i s = (Ok (), s') \<and> layout_inv s' \<and> wins s' = wins s \<and> active_window s' = active_window s \<and>
    leaf_of (heap s') = pruned i (leaf_of (heap s))"
proof (cases "heap s i")
  case None
  then have "simplify_region i s = (Ok (), s)" by (simp add: simplify_region_def heap_def)
  then show ?thesis using inv None by (simp add: pruned_def)
next
  case (Some r)
  show ?thesis
  proof (cases "\<exists>l. content r = Leaf l \<and> tabs l = []")
    case True
    then obtain l where l: "leaf_of (heap s) i = Some l" "tabs l = []" "content r = Leaf l" using Some by (auto simp: leaf_of_Some)
    then obtain p where "par (heap s) i = Some p" using par leaf_sel [OF l(1)] by auto
    from remove_leaf_run [OF inv l(1) this] obtain s' where
      "remove_leaf i s = (Ok (), s')" "layout_inv s'" "leaf_of (heap s') = (leaf_of (heap s))(i := None)"
      "wins s' = moved (\<lambda>_. None) (set (tabs l)) (wins s)" "active_window s' = active_window s" by blast
    then show ?thesis using Some l by (simp add: simplify_region_def heap_def [symmetric] moved_def pruned_def)
  next
    case False
    then have run: "simplify_region i s = simplify_splits i s"
      using Some by (auto simp: simplify_region_def heap_def [symmetric] split: RegionContent.splits)
    have "tree_ok {i} s" "i \<in> dom (heap s)" using inv Some by (auto simp: layout_inv_def intro: tree_ok_mono)
    from simplify_run [OF this] obtain s' where s': "simplify_splits i s = (Ok (), s')" "simplified s s'" "tree_ok {} s'" by blast
    have w: "wins s' = wins s" "active_window s' = active_window s" "leaf_of (heap s') = leaf_of (heap s)"
      using s'(2) by (auto simp: simplified_def frame_def wins_def)
    then have "tabs_of (heap s') = tabs_of (heap s)" by (simp add: tabs_of_def fun_eq_iff)
    with w s'(3) inv have "layout_inv s'" by (simp add: layout_inv_def tabs_inv_def)
    moreover have "pruned i (leaf_of (heap s)) = leaf_of (heap s)" using False Some
      by (auto simp: pruned_def leaf_of_Some split: option.splits)
    ultimately show ?thesis using run s'(1) w by simp
  qed
qed

lemma pruned_keep: "m t = Some l \<Longrightarrow> tabs l \<noteq> [] \<Longrightarrow> pruned i m t = Some l"
  by (cases "i = t") (simp_all add: pruned_def split: option.splits)

lemma pruned_tabs: "case_option [] tabs (fold pruned is m j) = case_option [] tabs (m j)"
proof (induction "is" arbitrary: m)
  case (Cons i "is")
  have "case_option [] tabs (pruned i m j) = case_option [] tabs (m j)" by (simp add: pruned_def split: option.splits)
  with Cons [of "pruned i m"] show ?case by simp
qed simp

lemma pruned_none: "m j = None \<Longrightarrow> fold pruned is m j = None"
proof (induction "is" arbitrary: m)
  case (Cons i "is")
  have "pruned i m j = None" using Cons.prems by (simp add: pruned_def split: option.splits)
  with Cons.IH show ?case by simp
qed simp

lemma simplify_regions_run:
  assumes "layout_inv s" "leaf_of (heap s) t = Some l" "tabs l \<noteq> []"
  shows "\<exists>s'. simplify_regions is s = (Ok (), s') \<and> layout_inv s' \<and> wins s' = wins s \<and> active_window s' = active_window s \<and>
    leaf_of (heap s') = fold pruned is (leaf_of (heap s))"
  using assms
proof (induction "is" arbitrary: s)
  case (Cons i "is")
  let ?h = "heap s"
  have wf: "wf_tree (dom ?h) (par ?h) (kids ?h) (root s)" using Cons.prems(1) by (simp add: layout_inv_def tree_ok_def tree_def)
  have t: "t \<in> dom ?h" "tabs_of ?h t \<noteq> []" using Cons.prems(2,3) leaf_sel [OF Cons.prems(2)] by (auto simp: leaf_of_Some)
  have "par ?h i \<noteq> None" if "leaf_of ?h i \<noteq> None" "tabs_of ?h i = []"
  proof
    assume p: "par ?h i = None"
    from that(1) have "i \<in> dom ?h" "kids ?h i = []" by (auto simp: leaf_of_Some kids_def)
    from lone_root [OF wf this(1) p this(2) t(1)] show False using t(2) that(2) by simp
  qed
  from simplify_region_run [OF Cons.prems(1) this] obtain s1 where
    1: "simplify_region i s = (Ok (), s1)" "layout_inv s1" "wins s1 = wins s" "active_window s1 = active_window s"
      "leaf_of (heap s1) = pruned i (leaf_of ?h)" by blast
  have "leaf_of (heap s1) t = Some l" using 1(5) pruned_keep [of "leaf_of ?h" t l i] Cons.prems(2,3) by simp
  from Cons.IH [OF 1(2) this Cons.prems(3)] 1 show ?case by auto
qed (simp add: sret_def)


section \<open>The move\<close>

text \<open>What the move does: the window is in \<open>t\<close>, which is the leaf that it was dropped on or a new one.\<close>

definition relocated :: "Id \<Rightarrow> 'c Window \<Rightarrow> Id \<Rightarrow> WindowRelocation \<Rightarrow> 'c Layout \<Rightarrow> 'c Layout \<Rightarrow> bool" where
  "relocated w x i rel s s' \<longleftrightarrow> (\<exists>t. wins s' = (wins s)(w \<mapsto> x\<lparr>win_region := Some t\<rparr>) \<and>
     (case rel of AddTab _ \<Rightarrow> t = i | _ \<Rightarrow> heap s t = None) \<and>
     (\<forall>j. j \<noteq> t \<longrightarrow> tabs_of (heap s') j = removeAll w (tabs_of (heap s) j)) \<and>
     (\<forall>j. j \<noteq> t \<longrightarrow> tabs_of (heap s) j = [w] \<longrightarrow> leaf_of (heap s') j = None)) \<and> active_window s' = active_window s"

lemma relocate_run:
  assumes inv: "layout_inv s" and wx: "wins s w = Some x" and ok: "reloc_ok s i rel" and h: "halves fl" and room: "room 2 s"
  shows "\<exists>s'. relocate_window fl w i rel s = (Ok (), s') \<and> layout_inv s' \<and> relocated w x i rel s s'"
proof (cases "win_region x = Some i \<and> (\<exists>k. rel = AddTab k)")
  case True
  then obtain k where k: "rel = AddTab k" and xi: "win_region x = Some i" by blast
  from leave_reorder_run [OF inv wx xi, of k] obtain s' where
    s': "leave_region w i (AddTab k) x s = (Ok None, s')" "layout_inv s'" "wins s' = wins s" "active_window s' = active_window s"
      "\<forall>j. j \<noteq> i \<longrightarrow> leaf_of (heap s') j = leaf_of (heap s) j" by blast
  have run: "relocate_window fl w i rel s = (Ok (), s')"
    using wx s'(1) k by (simp add: relocate_window_def get_window_def wins_def sret_def)
  have out: "w \<notin> set (tabs_of (heap s) j)" if "j \<noteq> i" for j
    using tabs_invD(2) [of "heap s" "wins s" w j] inv wx xi that by (auto simp: layout_inv_def)
  then have "tabs_of (heap s) j \<noteq> [w]" if "j \<noteq> i" for j using that by fastforce
  moreover have "tabs_of (heap s') j = removeAll w (tabs_of (heap s) j)" if "j \<noteq> i" for j
    using s'(5) out [OF that] that by (simp add: tabs_of_def)
  moreover have "wins s' = (wins s)(w \<mapsto> x\<lparr>win_region := Some i\<rparr>)" using wx xi s'(3) by (auto simp: fun_eq_iff)
  ultimately have "relocated w x i rel s s'" using k s'(4) unfolding relocated_def by (auto intro!: exI [of _ i])
  then show ?thesis using run s'(2) by blast
next
  case False
  then have "win_region x = None \<or> (\<exists>j. win_region x = Some j \<and> (j = i \<longrightarrow> (\<forall>k. rel \<noteq> AddTab k)))" by (cases "win_region x") auto
  from leave_run [OF inv wx this] obtain s1 js where
    1: "leave_region w i rel x s = (Ok (Some js), s1)" "in_flight w x s1" "frame s s1" "same_tree (heap s) (heap s1)"
      "\<forall>j. leaf_of (heap s1) j = None \<longleftrightarrow> leaf_of (heap s) j = None"
      "\<forall>j. tabs_of (heap s1) j = removeAll w (tabs_of (heap s) j)" "js = (case win_region x of None \<Rightarrow> [] | Some j \<Rightarrow> [j])" by blast
  have "reloc_ok s1 i rel" "room 2 s1"
    using ok room 1(3-5) by (simp_all add: reloc_ok_def same_tree_def room_def frame_def split: WindowRelocation.splits)
  from place_run [OF 1(2) this(1) h this(2)] obtain more t s2 where
    2: "place_window fl w i rel s1 = (Ok more, s2)" "landed w x t s1 s2" "set more \<subseteq> {t}"
      "case rel of AddTab _ \<Rightarrow> t = i | _ \<Rightarrow> heap s1 t = None" by blast
  have L: "layout_inv s2" "wins s2 = (wins s1)(w \<mapsto> x\<lparr>win_region := Some t\<rparr>)" "w \<in> set (tabs_of (heap s2) t)"
    "\<And>j. j \<noteq> t \<Longrightarrow> leaf_of (heap s2) j = leaf_of (heap s1) j" "active_window s2 = active_window s1"
    using 2(2) by (simp_all add: landed_def)
  from L(3) obtain l where l: "leaf_of (heap s2) t = Some l" "tabs l \<noteq> []"
    by (cases "leaf_of (heap s2) t") (fastforce simp: tabs_of_def)+
  from simplify_regions_run [OF L(1) l, of "js @ more"] obtain s3 where
    3: "simplify_regions (js @ more) s2 = (Ok (), s3)" "layout_inv s3" "wins s3 = wins s2" "active_window s3 = active_window s2"
      "leaf_of (heap s3) = fold pruned (js @ more) (leaf_of (heap s2))" by blast
  have run: "relocate_window fl w i rel s = (Ok (), s3)"
    using wx 1(1) 2(1) 3(1) by (simp add: relocate_window_def get_window_def wins_def)
  have w3: "wins s3 = (wins s)(w \<mapsto> x\<lparr>win_region := Some t\<rparr>)" "active_window s3 = active_window s"
    using 3(3,4) L(2,5) wins_frame [OF 1(3)] 1(3) by (simp_all add: frame_def)
  have t: "case rel of AddTab _ \<Rightarrow> t = i | _ \<Rightarrow> heap s t = None"
    using 2(4) 1(4) by (auto simp: same_tree_def split: WindowRelocation.splits)
  have tb: "tabs_of (heap s3) j = removeAll w (tabs_of (heap s) j)" if "j \<noteq> t" for j
    using pruned_tabs [of "js @ more" "leaf_of (heap s2)" j] L(4) [OF that] 1(6) by (simp add: tabs_of_def 3(5))
  have "leaf_of (heap s3) j = None" if j: "j \<noteq> t" "tabs_of (heap s) j = [w]" for j
  proof -
    have "win_region x = Some j" using tabs_invD(2) [of "heap s" "wins s" w j] inv wx j(2) by (simp add: layout_inv_def)
    then have js: "js = [j]" using 1(7) by simp
    have "tabs_of (heap s1) j = []" using 1(6) j(2) by simp
    then have "pruned j (leaf_of (heap s2)) j = None"
      using L(4) [OF j(1)] by (cases "leaf_of (heap s1) j") (simp_all add: pruned_def tabs_of_def)
    then show ?thesis using 2(3) j(1) by (simp add: 3(5) js pruned_none)
  qed
  then have "relocated w x i rel s s3" unfolding relocated_def using w3 t tb by blast
  then show ?thesis using run 3(2) by blast
qed

end
