(* ===== verification/LayoutSession.thy ===== *)
theory LayoutSession
  imports Relocate
begin

text \<open>
  Sequences of layout operations, as the user interface performs them: none of them panics, and
  the assertions of \<open>Layout::build\<close> hold after each.
\<close>

section \<open>Operations\<close>

datatype 'f LayoutOp = SplitOp Id nat "'f list" nat | WindowOp Id WindowType | RelocateOp Id Id WindowRelocation
  | FixedSizeOp Id nat nat | HotkeyOp Id nat | ActivateOp Id

fun do_op :: "'f f64_ops \<Rightarrow> (WindowType \<Rightarrow> 'c) \<Rightarrow> 'f LayoutOp \<Rightarrow> ('c, unit) lay" where
  "do_op fl create (SplitOp i a walls e) = sbind (split_region fl i a walls e) (\<lambda>_. sret ())"
| "do_op fl create (WindowOp i ty) = sbind (new_window create (Some i) ty) (\<lambda>_. sret ())"
| "do_op fl create (RelocateOp w i rel) = relocate_window fl w i rel"
| "do_op fl create (FixedSizeOp w a n) = set_fixed_size w a n"
| "do_op fl create (HotkeyOp w n) = set_hotkey_number w n"
| "do_op fl create (ActivateOp w) = (\<lambda>s. (Ok (), s\<lparr>active_window := Some w\<rparr>))"

text \<open>
  What the callers guarantee: the identifiers name a region or a window of the right kind, walls are
  ascending fractions, and the counters of the pools are far from overflowing.
\<close>

definition roomy :: "nat \<Rightarrow> 'c Layout \<Rightarrow> bool" where
  "roomy k s \<longleftrightarrow> next_seqno (regions s) + k < 2 ^ 64 \<and> length (slots (regions s)) + k \<le> 1000000"

fun op_ok :: "'f f64_ops \<Rightarrow> 'f LayoutOp \<Rightarrow> 'c Layout \<Rightarrow> bool" where
  "op_ok fl (SplitOp i a walls e) s = (heap s i \<noteq> None \<and> axis_of (heap s) i \<noteq> Some a \<and> walls_ok fl walls \<and>
     list_all (\<lambda>k. wall_size fl walls k \<le> 1000000) [0..<Suc (length walls)] \<and> e \<le> length walls \<and> roomy (Suc (length walls)) s)"
| "op_ok fl (WindowOp i ty) s = (leaf_of (heap s) i \<noteq> None \<and> next_seqno (windows s) + 1 < 2 ^ 64)"
| "op_ok fl (RelocateOp w i rel) s = (wins s w \<noteq> None \<and> reloc_ok s i rel \<and> roomy 2 s)"
| "op_ok fl (FixedSizeOp w a n) s = (wins s w \<noteq> None \<and> a \<le> 1)"
| "op_ok fl (HotkeyOp w n) s = (wins s w \<noteq> None)"
| "op_ok fl (ActivateOp w) s = (wins s w \<noteq> None)"

fun do_ops :: "'f f64_ops \<Rightarrow> (WindowType \<Rightarrow> 'c) \<Rightarrow> 'f LayoutOp list \<Rightarrow> ('c, unit) lay" where
  "do_ops fl create [] = sret ()"
| "do_ops fl create (op # ops) = sbind (do_op fl create op) (\<lambda>_. do_ops fl create ops)"

fun ops_ok :: "'f f64_ops \<Rightarrow> (WindowType \<Rightarrow> 'c) \<Rightarrow> 'f LayoutOp list \<Rightarrow> 'c Layout \<Rightarrow> bool" where
  "ops_ok fl create [] s = True"
| "ops_ok fl create (op # ops) s = (op_ok fl op s \<and> ops_ok fl create ops (snd (do_op fl create op s)))"

lemma card_try_get: "card (dom (try_get p)) \<le> length (slots p)"
proof -
  have "card (dom (try_get p)) \<le> card ((\<lambda>k. \<lparr>slot = k, seqno = slot_seqno (slots p ! k)\<rparr>) ` {..<length (slots p)})"
    by (rule card_mono [OF _ dom_try_get]) simp
  also have "\<dots> \<le> card {..<length (slots p)}" by (rule card_image_le) simp
  finally show ?thesis by simp
qed

lemma roomy_room: "roomy k s \<Longrightarrow> room k s"
  using card_try_get [of "regions s"] by (simp add: roomy_def room_def heap_def)

section \<open>Every operation keeps the invariant\<close>

definition good :: "'c Layout \<Rightarrow> bool" where
  "good s \<longleftrightarrow> layout_inv s \<and> attached s"

lemma try_get_new: "try_get pool_new = Map.empty"
  by (auto simp: try_get_def pool_new_def)

lemma layout_new_good: "layout_new = Ok s \<Longrightarrow> good (s :: 'c Layout)"
proof -
  assume "layout_new = Ok s"
  then obtain i p where a: "add default_region pool_new = Ok (i, p)" and
    s: "s = \<lparr>windows = pool_new, active_window = None, regions = p, root = i\<rparr>"
    by (cases "add default_region pool_new") (auto simp: layout_new_def)
  have h: "heap s = [i \<mapsto> default_region]"
    using try_get_add [OF pool_inv_new a] by (simp add: heap_def s try_get_new)
  have rt: "root s = i" by (simp add: s)
  have w: "wins s = Map.empty" by (simp add: wins_def s try_get_new)
  have sel: "par (heap s) = Map.empty" "kids (heap s) = (\<lambda>_. [])" "axis_of (heap s) = Map.empty" "\<And>j. tabs_of (heap s) j = []"
    unfolding h by (auto simp: fun_eq_iff par_def kids_def axis_of_def tabs_of_def leaf_of_def default_region_def default_leaf_def)
  have "wf_tree (dom (heap s)) (par (heap s)) (kids (heap s)) (root s)"
    unfolding sel rt unfolding h by (rule wf_treeI) (auto intro: climbs.intros split: if_splits)
  moreover have "pools s" using pool_inv_new pool_inv_add [OF pool_inv_new a] by (simp add: pools_def s)
  ultimately have "tree_ok {} s" by (simp add: tree_ok_def tree_def shaped_def sel sizes_def) (simp add: h default_region_def)
  then show "good s" by (simp add: good_def layout_inv_def tabs_inv_def sel w attached_def)
qed

lemma window_field_run:
  assumes "good s" "wins s w \<noteq> None" "\<And>x. win_region (f x) = win_region x"
  shows "\<exists>s'. update_window w f s = (Ok (), s') \<and> good s'"
proof -
  obtain x where x: "wins s w = Some x" using assms(2) by auto
  from update_window_run [OF x, of f] obtain s' where
    s': "update_window w f s = (Ok (), s')" "wframe s s'" "wins s' = (wins s)(w \<mapsto> f x)" by blast
  have h: "heap s' = heap s" by (rule wframe_heap [OF s'(2)])
  have "tree_ok {} s'" using assms(1) s'(2) h by (simp add: good_def layout_inv_def tree_ok_def wframe_def)
  moreover have "(\<exists>y. wins s' v = Some y \<and> win_region y = z) \<longleftrightarrow> (\<exists>y. wins s v = Some y \<and> win_region y = z)" for v z
    using x assms(3) by (auto simp: s'(3))
  then have "tabs_inv (heap s') (wins s')" using assms(1) h by (simp add: good_def layout_inv_def tabs_inv_def)
  moreover have "attached s'" using assms(1,3) x by (auto simp: s'(3) good_def attached_def)
  ultimately show ?thesis using s'(1) by (auto simp: good_def layout_inv_def)
qed

lemma do_op_run:
  assumes "good s" "halves fl" "op_ok fl op s"
  shows "\<exists>s'. do_op fl create op s = (Ok (), s') \<and> good s'"
proof (cases op)
  case (SplitOp i a walls e)
  then obtain r where r: "heap s i = Some r" using assms(3) by auto
  have inv: "tree_ok {} s" "tabs_inv (heap s) (wins s)" using assms(1) by (simp_all add: good_def layout_inv_def)
  have pre: "\<not> same_axis r a" "walls_ok fl walls" "\<And>k. k \<le> length walls \<Longrightarrow> wall_size fl walls k \<le> 1000000" "e \<le> length walls"
    "room (Suc (length walls)) s"
    using assms(3) SplitOp r by (auto simp: same_axis_def axis_of_def list_all_iff roomy_room split: RegionContent.splits)
  from split_region_run [OF inv(1) r pre] obtain cs s' where
    s': "split_region fl i a walls e s = (Ok cs, s')" "tree_ok {} s'" "set cs \<inter> dom (heap s) = {i}"
      "leaf_of (heap s') = (\<lambda>x. if x \<in> set cs - {i} then Some default_leaf else leaf_of (heap s) x)" "windows s' = windows s" by blast
  have "tabs_of (heap s') j = tabs_of (heap s) j" for j
  proof (cases "j \<in> set cs - {i}")
    case True
    then have "heap s j = None" using s'(3) by auto
    then show ?thesis using True by (simp add: tabs_of_def s'(4) default_leaf_def)
  qed (auto simp: tabs_of_def s'(4))
  moreover have "wins s' = wins s" using s'(5) by (simp add: wins_def)
  ultimately have "good s'" using assms(1) s'(2) inv(2) by (simp add: good_def layout_inv_def tabs_inv_def attached_def)
  then show ?thesis using s'(1) SplitOp by (simp add: sret_def)
next
  case (WindowOp i ty)
  then obtain l where l: "leaf_of (heap s) i = Some l" "next_seqno (windows s) + 1 < 2 ^ 64" using assms(3) by auto
  have inv: "layout_inv s" using assms(1) by (simp add: good_def)
  from new_window_run [OF inv l(2,1), of create ty] obtain w s' where
    s': "new_window create (Some i) ty s = (Ok w, s')" "layout_inv s'" "wins s' = (wins s)(w \<mapsto> window_new create (Some i) ty)" by blast
  have "win_region (window_new create (Some i) ty) = Some i"
    by (simp add: window_new_def Let_def split: option.splits prod.splits)
  then have "good s'" using assms(1) s'(2,3) by (auto simp: good_def attached_def)
  then show ?thesis using s'(1) WindowOp by (simp add: sret_def)
next
  case (RelocateOp w i rel)
  then obtain x where x: "wins s w = Some x" "reloc_ok s i rel" "room 2 s" using assms(3) roomy_room by auto
  have inv: "layout_inv s" using assms(1) by (simp add: good_def)
  from relocate_run [OF inv x(1,2) assms(2) x(3)] obtain s' where
    s': "relocate_window fl w i rel s = (Ok (), s')" "layout_inv s'" "relocated w x i rel s s'" by blast
  from s'(3) obtain t where "wins s' = (wins s)(w \<mapsto> x\<lparr>win_region := Some t\<rparr>)" by (auto simp: relocated_def)
  then have "good s'" using assms(1) s'(2) by (auto simp: good_def attached_def)
  then show ?thesis using s'(1) RelocateOp by simp
next
  case (FixedSizeOp w a n)
  then show ?thesis using assms(3) by (auto simp: set_fixed_size_def intro!: window_field_run [OF assms(1)])
next
  case (HotkeyOp w n)
  then show ?thesis using assms(3) by (auto simp: set_hotkey_number_def intro!: window_field_run [OF assms(1)])
next
  case (ActivateOp w)
  have "good (s\<lparr>active_window := Some w\<rparr>)"
    using assms(1) by (simp add: good_def layout_inv_def tree_ok_def pools_def heap_def wins_def attached_def)
  then show ?thesis using ActivateOp by simp
qed

lemma do_ops_run:
  assumes "good s" "halves fl" "ops_ok fl create ops s"
  shows "\<exists>s'. do_ops fl create ops s = (Ok (), s') \<and> good s'"
  using assms
proof (induction ops arbitrary: s)
  case (Cons op ops)
  then have "op_ok fl op s" by simp
  from do_op_run [OF Cons.prems(1,2) this, of create] obtain s1 where s1: "do_op fl create op s = (Ok (), s1)" "good s1" by blast
  from Cons.IH [OF s1(2) Cons.prems(2)] Cons.prems(3) s1(1) show ?case by simp
qed (simp add: sret_def)

text \<open>
  (C38) From the layout of a fresh start, any sequence of splits, new windows, moves by mouse, size,
  hotkey and focus changes runs without a panic, and the assertions that \<open>Layout::build\<close> makes on the
  next frame hold: every region and window is reached exactly once from the root, parents agree
  with children, and every tab names its region.
\<close>

theorem layout_never_panics:
  assumes "layout_new = Ok s0" "halves fl" "ops_ok fl create ops s0"
  shows "\<exists>s'. do_ops fl create ops s0 = (Ok (), s') \<and> build_checks s' = Ok ()"
  using do_ops_run [OF layout_new_good [OF assms(1)] assms(2,3)] build_checks_run by (auto simp: good_def)

text \<open>Concrete runs are evaluated with walls given in millionths.\<close>

definition millionths :: "nat f64_ops" where
  "millionths = \<lparr>f_le = (\<le>), f_zero = 0, f_half = 500000, f_one = 1000000, f_span = (\<lambda>a b. b - a)\<rparr>"

definition small_layout :: "nat Layout" where
  "small_layout = \<lparr>windows = pool_new, active_window = None,
     regions = \<lparr>slots = [\<lparr>slot_seqno = 1, val = Some default_region\<rparr>], vacant = [], next_seqno = 2\<rparr>, root = \<lparr>slot = 0, seqno = 1\<rparr>\<rparr>"

definition small_ops :: "nat LayoutOp list" where
  "small_ops = [SplitOp \<lparr>slot = 0, seqno = 1\<rparr> 0 [300000] 0, WindowOp \<lparr>slot = 0, seqno = 1\<rparr> Code,
     WindowOp \<lparr>slot = 2, seqno = 3\<rparr> Stack, RelocateOp \<lparr>slot = 0, seqno = 1\<rparr> \<lparr>slot = 2, seqno = 3\<rparr> (SplitLeaf 1 0)]"

lemmas layout_eval = millionths_def add_def remove_def try_get_def try_set_def pool_new_def default_region_def default_leaf_def default_tabs_def
  get_region_def put_region_def update_region_def add_region_def remove_region_def get_window_def update_window_def
  get_leaf_def get_split_def update_leaf_def update_children_def position_of_def sret_def slift_def panics_def usize_def
  take_over_def merge_into_parent_def simplify_root_def simplify_step_def simplify_splits.simps
  walls_ok_def wall_size_def set_child_def same_axis_def split_region_def remove_leaf_def set_fixed_size_def set_hotkey_number_def
  window_new_def add_window_def new_window_def leave_region_def add_to_split_def place_window_def simplify_region_def
  relocate_window_def remove_at_def insert_at_def splice_at_def tabs_select_def tabs_closed_def Let_def
  heap_def wins_def leaf_of_def axis_of_def kids_def roomy_def reloc_ok_def small_layout_def

lemma layout_new_small: "layout_new = Ok small_layout"
  by (simp add: small_layout_def layout_new_def add_def pool_new_def Let_def)

lemma halves_millionths: "halves millionths"
  by (simp add: halves_def millionths_def)

lemma small_ops_ok: "ops_ok millionths (\<lambda>_. 0) small_ops small_layout"
  by (simp add: layout_eval small_ops_def)

theorem layout_never_panics_witness:
  "\<exists>s'. do_ops millionths (\<lambda>_. 0) small_ops small_layout = (Ok (), s') \<and> build_checks s' = Ok ()"
  by (rule layout_never_panics [OF layout_new_small halves_millionths small_ops_ok])


definition small_moved :: "nat Layout" where
  "small_moved = snd (do_ops millionths (\<lambda>_. 0) (take 3 small_ops) small_layout)"

lemma small_moved_run: "do_ops millionths (\<lambda>_. 0) (take 3 small_ops) small_layout = (Ok (), small_moved)"
  by (simp add: small_moved_def layout_eval small_ops_def)


lemma nth_insert_at: "n \<le> length xs \<Longrightarrow> insert_at n x xs ! k = (if k < n then xs ! k else if k = n then x else xs ! (k - 1))"
  by (auto simp: insert_at_def nth_append min_def nth_Cons' Suc_diff_le)

lemma nth_remove_at: "i < length xs \<Longrightarrow> remove_at i xs ! k = (if k < i then xs ! k else xs ! Suc k)"
  by (auto simp: remove_at_def nth_append min_def)

lemma reorder_selected_nth:
  assumes "s < length ts" "a < length ts" "n < length ts" "n \<noteq> a" "s' = (if s = a then n else let k = if s > a then s - 1 else s in if k \<ge> n then k + 1 else k)"
  shows "s' < length ts \<and> insert_at n (ts ! a) (remove_at a ts) ! s' = ts ! s"
proof -
  have n: "n \<le> length (remove_at a ts)" using assms(2,3) by (simp add: length_remove_at)
  note N = nth_insert_at [OF n] nth_remove_at [OF assms(2)]
  consider "s = a" | "s < a" "s < n" | "s < a" "n \<le> s" | k where "s = Suc k" "a \<le> k" "k < n" | k where "s = Suc k" "a \<le> k" "n \<le> k"
    by (cases s) (linarith | force simp: not_less)+
  then show ?thesis
  proof cases
    case 1 then show ?thesis using assms by (simp add: N)
  next
    case 2 then show ?thesis using assms by (simp add: N)
  next
    case 3 then show ?thesis using assms by (simp add: N)
  next
    case 4 then show ?thesis using assms by (simp add: N)
  next
    case 5 then show ?thesis using assms by (simp add: N)
  qed
qed

text \<open>
  Reordering the tabs of a leaf, or closing a tab other than the selected one, leaves the same
  tab selected, wherever it ends up.
\<close>

lemma tab_stays_selected:
  assumes "selected st < length ts" "(\<exists>a b. action = Reorder a b) \<or> (\<exists>i. action = Close i \<and> i \<noteq> selected st)"
    "apply_action action st ts = Ok (changed, st', ts')"
  shows "selected st' < length ts' \<and> ts' ! selected st' = ts ! selected st"
  using assms(2)
proof (elim disjE exE conjE)
  fix a b assume act: "action = Reorder a b"
  obtain n where n: "(if b \<le> a then b else b - 1) = n" by blast
  show ?thesis
  proof (cases "n \<noteq> a \<and> a < length ts \<and> n < length ts")
    case True
    then have "st' = reorder_selected a n st" "ts' = insert_at n (ts ! a) (remove_at a ts)" using assms(3) act n by (simp_all add: Let_def)
    moreover have "length ts' = length ts" using calculation(2) True by (auto simp: length_insert_at length_remove_at)
    ultimately show ?thesis using reorder_selected_nth [OF assms(1), of a n] True
      by (simp add: reorder_selected_def Let_def split: if_splits)
  next
    case False
    then show ?thesis using assms(1,3) act n by (auto simp: Let_def)
  qed
next
  fix i assume act: "action = Close i" "i \<noteq> selected st"
  then show ?thesis using assms(1,3) by (auto simp: tabs_closed_def remove_at_def nth_append min_def split: if_splits)
qed

lemma tab_stays_selected_example:
  "apply_action (Reorder 0 3) \<lparr>selected = 0, hscroll = 0, scroll_to_selected_tab = False\<rparr> [10 :: nat, 11, 12]
     = Ok (True, \<lparr>selected = 2, hscroll = 0, scroll_to_selected_tab = True\<rparr>, [11, 12, 10]) \<and> [11, 12, 10 :: nat] ! 2 = [10, 11, 12] ! 0"
proof
  show r: "apply_action (Reorder 0 3) \<lparr>selected = 0, hscroll = 0, scroll_to_selected_tab = False\<rparr> [10 :: nat, 11, 12]
     = Ok (True, \<lparr>selected = 2, hscroll = 0, scroll_to_selected_tab = True\<rparr>, [11, 12, 10])"
    by (simp add: reorder_selected_def insert_at_def remove_at_def)
  show "[11, 12, 10 :: nat] ! 2 = [10, 11, 12] ! 0" using tab_stays_selected [OF _ _ r] by simp
qed

end
