(* ===== verification/LayoutSave.thy ===== *)
theory LayoutSave
  imports LayoutSession ByteIO
begin

text \<open>
  Saving and loading the layout (\<open>save_state\<close> and \<open>load_state\<close> of \<open>src/layout.rs\<close>, and the
  checks that \<open>src/ui.rs\<close> makes on a loaded layout). The content of a window writes and reads its own
  part; its two functions are parameters. The loops follow links and input that no check bounds, so
  a run that does not end is the value \<open>None\<close>.
\<close>

section \<open>Types of windows\<close>

fun serialize_type :: "WindowType \<Rightarrow> u8" where
  "serialize_type Binaries = 0"
| "serialize_type Breakpoints = 1"
| "serialize_type Threads = 2"
| "serialize_type Stack = 3"
| "serialize_type Code = 4"
| "serialize_type Disassembly = 5"
| "serialize_type Locations = 6"
| "serialize_type Watches = 7"
| "serialize_type Terminal = 8"
| "serialize_type Hints = 9"
| "serialize_type Status = 10"

definition window_types :: "WindowType list" where
  "window_types = [Binaries, Breakpoints, Threads, Stack, Code, Disassembly, Locations, Watches, Terminal, Hints, Status]"

definition deserialize_type :: "u8 \<Rightarrow> WindowType eres" where
  "deserialize_type x = (if x \<le> 10 then Ok (window_types ! unat x) else Err Environment)"

section \<open>Saving\<close>

fun save_tabs :: "('c \<Rightarrow> bytes eres) \<Rightarrow> 'c Layout \<Rightarrow> Id list \<Rightarrow> bytes eres" where
  "save_tabs save s [] = Ok []"
| "save_tabs save s (w # ws) = (case try_get (windows s) w of
      None \<Rightarrow> Panic
    | Some x \<Rightarrow> rbind (save (win_content x)) (\<lambda>c. rbind (save_tabs save s ws) (\<lambda>rest.
        Ok (write_u8 (serialize_type (type_of x)) @ write_bool (active_window s = Some w) @ c @ rest))))"

text \<open>One turn of the loop: what it writes and the regions it pushes, the first on top.\<close>

definition save_region :: "('c \<Rightarrow> bytes eres) \<Rightarrow> 'c Layout \<Rightarrow> Id \<Rightarrow> (bytes \<times> Id list) eres" where
  "save_region save s i = (case try_get (regions s) i of
      None \<Rightarrow> Panic
    | Some r \<Rightarrow> (case content r of
        Split a cs \<Rightarrow> Ok (write_usize (relative_size r) @ write_bool True @ write_bool (a \<noteq> 0) @ write_usize (length cs), cs)
      | Leaf l \<Rightarrow> rbind (save_tabs save s (tabs l)) (\<lambda>ts.
          Ok (write_usize (relative_size r) @ write_bool False @ write_usize (length (tabs l)) @
              write_usize (selected (tabs_state l)) @ ts, []))))"

partial_function (option) save_walk :: "('c \<Rightarrow> bytes eres) \<Rightarrow> 'c Layout \<Rightarrow> Id list \<Rightarrow> bytes \<Rightarrow> bytes eres option" where
  "save_walk save s stack out = (case stack of
      [] \<Rightarrow> Some (Ok out)
    | i # rest \<Rightarrow> (case save_region save s i of
        Ok (b, cs) \<Rightarrow> save_walk save s (cs @ rest) (out @ b)
      | Err e \<Rightarrow> Some (Err e)
      | Panic \<Rightarrow> Some Panic))"

definition save_state :: "('c \<Rightarrow> bytes eres) \<Rightarrow> 'c Layout \<Rightarrow> bytes eres option" where
  "save_state save s = save_walk save s [root s] []"

section \<open>Loading\<close>

text \<open>The layout and the rest of the input.\<close>

type_synonym ('c, 'a) load = "('c Layout \<times> bytes, 'a, ErrorCode) sres"

definition rd :: "'a get \<Rightarrow> ('c, 'a) load" where
  "rd g st = (case g (snd st) of
      Ok (a, rest) \<Rightarrow> (Ok a, (fst st, rest))
    | Err e \<Rightarrow> (Err e, st)
    | Panic \<Rightarrow> (Panic, st))"

definition on_layout :: "('c, 'a) lay \<Rightarrow> ('c, 'a) load" where
  "on_layout m st = (case m (fst st) of
      (Ok a, s) \<Rightarrow> (Ok a, (s, snd st))
    | (Err _, s) \<Rightarrow> (Panic, (s, snd st))
    | (Panic, s) \<Rightarrow> (Panic, (s, snd st)))"

fun add_children :: "Id \<Rightarrow> nat \<Rightarrow> ('c, Id list) lay" where
  "add_children i 0 = sret []"
| "add_children i (Suc n) = sbind (add_region (default_region\<lparr>parent := Some i\<rparr>)) (\<lambda>c.
     sbind (add_children i n) (\<lambda>cs. sret (c # cs)))"

definition load_split :: "Id \<Rightarrow> ('c, RegionContent \<times> Id list) load" where
  "load_split i = sbind (rd read_bool) (\<lambda>ax. sbind (rd read_usize) (\<lambda>n.
     if n > 10000 then sthrow Sanity
     else if n = 0 then sthrow Sanity
     else sbind (on_layout (add_children i n)) (\<lambda>cs. sret (Split (if ax then 1 else 0) cs, cs))))"

definition activate :: "bool \<Rightarrow> Id \<Rightarrow> ('c, unit) load" where
  "activate act w st = (Ok (), if act then ((fst st)\<lparr>active_window := Some w\<rparr>, snd st) else st)"

text \<open>One tab: its window is created, and its content reads its own part of the input.\<close>

definition load_tab :: "(WindowType \<Rightarrow> 'c) \<Rightarrow> ('c \<Rightarrow> 'c get) \<Rightarrow> Id \<Rightarrow> ('c, Id) load" where
  "load_tab create load i = sbind (rd read_u8) (\<lambda>b. sbind (slift (deserialize_type b)) (\<lambda>ty.
     sbind (on_layout (new_window create None ty)) (\<lambda>w.
     sbind (rd read_bool) (\<lambda>act.
     sbind (activate act w) (\<lambda>_.
     sbind (on_layout (update_window w (\<lambda>x. x\<lparr>win_region := Some i\<rparr>))) (\<lambda>_.
     sbind (on_layout (get_window w)) (\<lambda>x.
     sbind (rd (load (win_content x))) (\<lambda>c.
     sbind (on_layout (update_window w (\<lambda>x. x\<lparr>win_content := c\<rparr>))) (\<lambda>_. sret w)))))))))"

fun load_tabs :: "(WindowType \<Rightarrow> 'c) \<Rightarrow> ('c \<Rightarrow> 'c get) \<Rightarrow> Id \<Rightarrow> nat \<Rightarrow> ('c, Id list) load" where
  "load_tabs create load i 0 = sret []"
| "load_tabs create load i (Suc n) = sbind (load_tab create load i) (\<lambda>w. sbind (load_tabs create load i n) (\<lambda>ws. sret (w # ws)))"

definition load_leaf :: "(WindowType \<Rightarrow> 'c) \<Rightarrow> ('c \<Rightarrow> 'c get) \<Rightarrow> Id \<Rightarrow> ('c, RegionContent \<times> Id list) load" where
  "load_leaf create load i = sbind (rd read_usize) (\<lambda>n. sbind (rd read_usize) (\<lambda>sel.
     sbind (load_tabs create load i n) (\<lambda>ts. sret (Leaf \<lparr>tabs = ts, tabs_state = tabs_select sel default_tabs\<rparr>, []))))"

definition load_region :: "(WindowType \<Rightarrow> 'c) \<Rightarrow> ('c \<Rightarrow> 'c get) \<Rightarrow> Id \<Rightarrow> ('c, Id list) load" where
  "load_region create load i = sbind (rd read_usize) (\<lambda>sz. sbind (rd read_bool) (\<lambda>split.
     sbind (if split then load_split i else load_leaf create load i) (\<lambda>(cont, cs).
     sbind (on_layout (update_region i (\<lambda>r. r\<lparr>content := cont, relative_size := sz\<rparr>))) (\<lambda>_. sret cs))))"

partial_function (option) load_walk :: "(WindowType \<Rightarrow> 'c) \<Rightarrow> ('c \<Rightarrow> 'c get) \<Rightarrow> Id list \<Rightarrow> 'c Layout \<times> bytes \<Rightarrow>
    ((unit, ErrorCode) result \<times> 'c Layout \<times> bytes) option" where
  "load_walk create load stack st = (case stack of
      [] \<Rightarrow> Some (Ok (), st)
    | i # rest \<Rightarrow> (case load_region create load i st of
        (Ok cs, st') \<Rightarrow> load_walk create load (cs @ rest) st'
      | (Err e, st') \<Rightarrow> Some (Err e, st')
      | (Panic, st') \<Rightarrow> Some (Panic, st')))"

definition load_state :: "(WindowType \<Rightarrow> 'c) \<Rightarrow> ('c \<Rightarrow> 'c get) \<Rightarrow> 'c Layout \<times> bytes \<Rightarrow>
    ((unit, ErrorCode) result \<times> 'c Layout \<times> bytes) option" where
  "load_state create load st = load_walk create load [root (fst st)] st"


section \<open>The tree that a layout shows\<close>

text \<open>Regions with their identifiers; a leaf with the selected tab and its windows.\<close>

datatype 'c LTree = TSplit (rid: Id) nat nat "'c LTree list" | TLeaf (rid: Id) nat nat "(Id \<times> WindowType \<times> 'c) list"

primrec ids :: "'c LTree \<Rightarrow> Id list" where
  "ids (TSplit i sz a ts) = concat (map ids ts)"
| "ids (TLeaf i sz sel ws) = map fst ws"

primrec rids :: "'c LTree \<Rightarrow> Id list" where
  "rids (TSplit i sz a ts) = i # concat (map rids ts)"
| "rids (TLeaf i sz sel ws) = [i]"

definition tab_shape :: "(Id \<Rightarrow> 'c Window option) \<Rightarrow> Id \<Rightarrow> Id \<times> WindowType \<times> 'c \<Rightarrow> bool" where
  "tab_shape wm i e = (case wm (fst e) of None \<Rightarrow> False
     | Some x \<Rightarrow> win_region x = Some i \<and> type_of x = fst (snd e) \<and> win_content x = snd (snd e))"

primrec shape :: "(Id \<Rightarrow> Region option) \<Rightarrow> (Id \<Rightarrow> 'c Window option) \<Rightarrow> 'c LTree \<Rightarrow> Id option \<Rightarrow> bool" where
  "shape h wm (TSplit i sz a ts) p = (case h i of None \<Rightarrow> False | Some r \<Rightarrow>
     parent r = p \<and> content r = Split a (map rid ts) \<and> relative_size r = sz \<and> ts \<noteq> [] \<and> list_all (\<lambda>f. f (Some i)) (map (shape h wm) ts))"
| "shape h wm (TLeaf i sz sel ws) p = (case h i of None \<Rightarrow> False | Some r \<Rightarrow>
     parent r = p \<and> relative_size r = sz \<and> (case content r of Split _ _ \<Rightarrow> False
       | Leaf l \<Rightarrow> selected (tabs_state l) = sel \<and> tabs l = map fst ws \<and> list_all (tab_shape wm i) ws))"

text \<open>What the user sees of it: no identifiers, and of the contents what is kept.\<close>

datatype 'c Look = LSplit nat nat "'c Look list" | LLeaf nat nat "(WindowType \<times> 'c) list"

primrec look :: "('c \<Rightarrow> 'd) \<Rightarrow> 'c LTree \<Rightarrow> 'd Look" where
  "look k (TSplit i sz a ts) = LSplit sz a (map (look k) ts)"
| "look k (TLeaf i sz sel ws) = LLeaf sz sel (map (\<lambda>(w, ty, c). (ty, k c)) ws)"

text \<open>The format: the tree in preorder.\<close>

definition enc_tab :: "('c \<Rightarrow> bytes) \<Rightarrow> Id option \<Rightarrow> Id \<times> WindowType \<times> 'c \<Rightarrow> bytes" where
  "enc_tab sc act e = write_u8 (serialize_type (fst (snd e))) @ write_bool (act = Some (fst e)) @ sc (snd (snd e))"

primrec enc :: "('c \<Rightarrow> bytes) \<Rightarrow> Id option \<Rightarrow> 'c LTree \<Rightarrow> bytes" where
  "enc sc act (TSplit i sz a ts) = write_usize sz @ write_bool True @ write_bool (a \<noteq> 0) @ write_usize (length ts) @ concat (map (enc sc act) ts)"
| "enc sc act (TLeaf i sz sel ws) = write_usize sz @ write_bool False @ write_usize (length ws) @ write_usize sel @
     concat (map (enc_tab sc act) ws)"

lemma shape_mono:
  assumes "h \<subseteq>\<^sub>m h'" "wm \<subseteq>\<^sub>m wm'" "shape h wm t p"
  shows "shape h' wm' t p"
  using assms(3)
proof (induction t arbitrary: p)
  case (TSplit i sz a ts)
  from TSplit.prems obtain r where "h i = Some r" by (auto split: option.splits)
  then have "h' i = Some r" using assms(1) by (auto simp: map_le_def dom_def)
  with \<open>h i = Some r\<close> TSplit show ?case by (auto simp: list_all_iff)
next
  case (TLeaf i sz sel ws)
  from TLeaf.prems obtain r where r: "h i = Some r" by (auto split: option.splits)
  then have "h' i = Some r" using assms(1) by (auto simp: map_le_def dom_def)
  moreover have "tab_shape wm' i e" if "tab_shape wm i e" for e
  proof -
    from that obtain x where "wm (fst e) = Some x" by (auto simp: tab_shape_def split: option.splits)
    moreover from this have "wm' (fst e) = Some x" using assms(2) by (auto simp: map_le_def dom_def)
    ultimately show ?thesis using that by (simp add: tab_shape_def)
  qed
  ultimately show ?case using r TLeaf.prems by (auto simp: list_all_iff split: RegionContent.splits)
qed

section \<open>Saving writes the tree\<close>

text \<open>The contents of the windows of a tree.\<close>

primrec entries :: "'c LTree \<Rightarrow> (Id \<times> WindowType \<times> 'c) list" where
  "entries (TSplit i sz a ts) = concat (map entries ts)"
| "entries (TLeaf i sz sel ws) = ws"

lemma save_tabs_run:
  assumes "list_all (tab_shape (wins s) i) ws" "\<And>e. e \<in> set ws \<Longrightarrow> save (snd (snd e)) = Ok (sc (snd (snd e)))"
  shows "save_tabs save s (map fst ws) = Ok (concat (map (enc_tab sc (active_window s)) ws))"
  using assms
proof (induction ws)
  case (Cons e ws)
  from Cons.prems(1) obtain x where "try_get (windows s) (fst e) = Some x" "type_of x = fst (snd e)" "win_content x = snd (snd e)"
    by (auto simp: tab_shape_def wins_def split: option.splits)
  with Cons show ?case by (simp add: enc_tab_def)
qed simp

lemma save_walk_run:
  assumes "shape (heap s) (wins s) t p" "\<And>e. e \<in> set (entries t) \<Longrightarrow> save (snd (snd e)) = Ok (sc (snd (snd e)))"
  shows "save_walk save s (rid t # rest) out = save_walk save s rest (out @ enc sc (active_window s) t)"
  using assms
proof (induction t arbitrary: p rest out)
  case (TSplit i sz a ts)
  from TSplit.prems(1) obtain r where r: "try_get (regions s) i = Some r" "content r = Split a (map rid ts)" "relative_size r = sz"
    by (auto simp: heap_def split: option.splits)
  have sub: "shape (heap s) (wins s) t (Some i)" if "t \<in> set ts" for t
    using TSplit.prems(1) that by (auto simp: list_all_iff split: option.splits)
  have many: "save_walk save s (map rid us @ rest) out = save_walk save s rest (out @ concat (map (enc sc (active_window s)) us))"
    if "set us \<subseteq> set ts" for us out
    using that
  proof (induction us arbitrary: out)
    case (Cons u us)
    have "save_walk save s (rid u # map rid us @ rest) out = save_walk save s (map rid us @ rest) (out @ enc sc (active_window s) u)"
    proof (rule TSplit.IH)
      show u: "u \<in> set ts" using Cons.prems by simp
      show "shape (heap s) (wins s) u (Some i)" by (rule sub [OF u])
      show "save (snd (snd e)) = Ok (sc (snd (snd e)))" if "e \<in> set (entries u)" for e using TSplit.prems(2) [of e] u that by auto
    qed
    with Cons show ?case by simp
  qed simp
  have "save_walk save s (i # rest) out = save_walk save s (map rid ts @ rest)
      (out @ write_usize sz @ write_bool True @ write_bool (a \<noteq> 0) @ write_usize (length ts))"
    by (subst save_walk.simps) (simp add: save_region_def r)
  then show ?case using many [of ts] by simp
next
  case (TLeaf i sz sel ws)
  from TLeaf.prems(1) obtain r l where r: "try_get (regions s) i = Some r" "content r = Leaf l" "relative_size r = sz"
    "selected (tabs_state l) = sel" "tabs l = map fst ws" "list_all (tab_shape (wins s) i) ws"
    by (auto simp: heap_def split: option.splits RegionContent.splits)
  have "save_tabs save s (tabs l) = Ok (concat (map (enc_tab sc (active_window s)) ws))"
    unfolding r(5) by (rule save_tabs_run [OF r(6)]) (use TLeaf.prems(2) in simp)
  then show ?case by (subst save_walk.simps) (simp add: save_region_def r)
qed


section \<open>Loading rebuilds the tree\<close>

lemma type_round_trip: "deserialize_type (serialize_type ty) = Ok ty"
  by (cases ty) (simp_all add: deserialize_type_def window_types_def)

lemma rd_codec: "codec wr g valid \<Longrightarrow> valid x \<Longrightarrow> rd g (s, wr x @ inp) = (Ok x, (s, inp))"
  by (simp add: rd_def codec.get_put)

lemmas rd_run = rd_codec [OF u8_codec.codec_axioms TrueI] rd_codec [OF bool_codec.codec_axioms TrueI] rd_codec [OF usize_codec.codec_axioms]

text \<open>What the loading operations leave alone, and how many identifiers they use.\<close>

definition loads :: "nat \<Rightarrow> nat \<Rightarrow> 'c Layout \<Rightarrow> 'c Layout \<Rightarrow> bool" where
  "loads m n s s' \<longleftrightarrow> pools s' \<and> root s' = root s \<and> next_seqno (regions s') = next_seqno (regions s) + m \<and>
     next_seqno (windows s') = next_seqno (windows s) + n"

definition can_load :: "nat \<Rightarrow> nat \<Rightarrow> 'c Layout \<Rightarrow> bool" where
  "can_load m n s \<longleftrightarrow> pools s \<and> next_seqno (regions s) + m < 2 ^ 64 \<and> next_seqno (windows s) + n < 2 ^ 64"

lemma can_load_after: "can_load (m + m') (n + n') s \<Longrightarrow> loads m n s s' \<Longrightarrow> can_load m' n' s'"
  by (simp add: can_load_def loads_def)

lemma loads_trans: "loads m n s s1 \<Longrightarrow> loads m' n' s1 s2 \<Longrightarrow> loads (m + m') (n + n') s s2"
  by (simp add: loads_def)

lemma can_load_le: "can_load m n s \<Longrightarrow> m' \<le> m \<Longrightarrow> n' \<le> n \<Longrightarrow> can_load m' n' s"
  by (simp add: can_load_def)

lemma fresh_region_run:
  assumes "can_load (Suc m) n s"
  shows "\<exists>c s'. add_region r s = (Ok c, s') \<and> heap s' = (heap s)(c \<mapsto> r) \<and> heap s c = None \<and> wins s' = wins s \<and>
    active_window s' = active_window s \<and> loads 1 0 s s'"
proof -
  have inv: "pool_inv (regions s)" "pool_inv (windows s)" using assms by (simp_all add: can_load_def pools_def)
  obtain c p where a: "add r (regions s) = Ok (c, p)" using add_total [OF inv(1), of r] assms by (auto simp: can_load_def)
  have "heap s c = None"
    using add_fresh [OF inv(1) a] try_get_issued [OF inv(1), of c] by (cases "heap s c") (auto simp: heap_def)
  moreover have "next_seqno p = Suc (next_seqno (regions s))" using add_cases [OF inv(1) a] by simp
  ultimately show ?thesis using a inv try_get_add [OF inv(1) a] pool_inv_add [OF inv(1) a]
    by (auto simp: add_region_def heap_def wins_def loads_def pools_def)
qed

lemma add_children_run:
  assumes "can_load n k s"
  shows "\<exists>cs s'. add_children i n s = (Ok cs, s') \<and> length cs = n \<and> distinct cs \<and> set cs \<inter> dom (heap s) = {} \<and>
    heap s' = heap s ++ (\<lambda>x. if x \<in> set cs then Some (default_region\<lparr>parent := Some i\<rparr>) else None) \<and> wins s' = wins s \<and>
    active_window s' = active_window s \<and> loads n 0 s s'"
  using assms
proof (induction n arbitrary: s)
  case 0
  then show ?case by (intro exI [of _ "[]"] exI [of _ s]) (auto simp: sret_def loads_def can_load_def map_add_def)
next
  case (Suc n)
  let ?r = "default_region\<lparr>parent := Some i\<rparr>"
  from fresh_region_run [OF Suc.prems, of ?r] obtain c s1 where
    1: "add_region ?r s = (Ok c, s1)" "heap s1 = (heap s)(c \<mapsto> ?r)" "heap s c = None" "wins s1 = wins s"
      "active_window s1 = active_window s" "loads 1 0 s s1" by blast
  have "can_load n k s1" using can_load_after [of 1 n 0 k s s1] Suc.prems 1(6) by simp
  from Suc.IH [OF this] obtain cs s2 where
    2: "add_children i n s1 = (Ok cs, s2)" "length cs = n" "distinct cs" "set cs \<inter> dom (heap s1) = {}"
      "heap s2 = heap s1 ++ (\<lambda>x. if x \<in> set cs then Some ?r else None)" "wins s2 = wins s1"
      "active_window s2 = active_window s1" "loads n 0 s1 s2" by blast
  have c: "c \<notin> set cs" "set cs \<inter> dom (heap s) = {}" using 2(4) 1(2) by auto
  have "heap s2 = heap s ++ (\<lambda>x. if x \<in> set (c # cs) then Some ?r else None)"
    unfolding 2(5) 1(2) using c(1) by (auto simp: map_add_def fun_eq_iff)
  then show ?case using 1 2 c loads_trans [OF 1(6) 2(8)]
    by (intro exI [of _ "c # cs"] exI [of _ s2]) (auto simp: sret_def domIff)
qed

lemma fresh_window_run:
  assumes "can_load m (Suc n) s"
  shows "\<exists>w s'. new_window create None ty s = (Ok w, s') \<and> wins s' = (wins s)(w \<mapsto> window_new create None ty) \<and> wins s w = None \<and>
    heap s' = heap s \<and> active_window s' = active_window s \<and> loads 0 1 s s'"
proof -
  let ?x = "window_new create None ty"
  have inv: "pool_inv (windows s)" "pool_inv (regions s)" using assms by (simp_all add: can_load_def pools_def)
  obtain w p where a: "add ?x (windows s) = Ok (w, p)" using add_total [OF inv(1), of ?x] assms by (auto simp: can_load_def)
  have "wins s w = None"
    using add_fresh [OF inv(1) a] try_get_issued [OF inv(1), of w] by (cases "wins s w") (auto simp: wins_def)
  moreover have "next_seqno p = Suc (next_seqno (windows s))" using add_cases [OF inv(1) a] by simp
  ultimately show ?thesis using a inv try_get_add [OF inv(1) a] pool_inv_add [OF inv(1) a]
    by (auto simp: new_window_def add_window_def sret_def heap_def wins_def loads_def pools_def)
qed

lemma update_window_loads:
  assumes "wins s w = Some x" "pools s"
  shows "\<exists>s'. on_layout (update_window w f) (s, inp) = (Ok (), (s', inp)) \<and> wins s' = (wins s)(w \<mapsto> f x) \<and> heap s' = heap s \<and>
    active_window s' = active_window s \<and> loads 0 0 s s'"
proof -
  from update_window_run [OF assms(1), of f] obtain s' where
    s': "update_window w f s = (Ok (), s')" "wframe s s'" "wins s' = (wins s)(w \<mapsto> f x)" by blast
  then show ?thesis using assms(2) wframe_heap [OF s'(2)] by (auto simp: on_layout_def wframe_def loads_def)
qed

text \<open>The content of a window reads back what it wrote, as far as it keeps it.\<close>

definition restores :: "(WindowType \<Rightarrow> 'c) \<Rightarrow> ('c \<Rightarrow> 'c get) \<Rightarrow> ('c \<Rightarrow> bytes) \<Rightarrow> ('c \<Rightarrow> 'c) \<Rightarrow> Id \<times> WindowType \<times> 'c \<Rightarrow> bool" where
  "restores create load sc keep e \<longleftrightarrow> (\<forall>inp. load (create (fst (snd e))) (sc (snd (snd e)) @ inp) = Ok (keep (snd (snd e)), inp))"

lemma load_tab_run:
  assumes "can_load m (Suc n) s" "restores create load sc keep e"
  shows "\<exists>w s'. load_tab create load i (s, enc_tab sc act e @ inp) = (Ok w, (s', inp)) \<and> heap s' = heap s \<and> wins s w = None \<and>
    (\<exists>x. wins s' = (wins s)(w \<mapsto> x) \<and> win_region x = Some i \<and> type_of x = fst (snd e) \<and> win_content x = keep (snd (snd e))) \<and>
    active_window s' = (if act = Some (fst e) then Some w else active_window s) \<and> loads 0 1 s s'"
proof -
  obtain v ty c where e: "e = (v, ty, c)" by (cases e)
  let ?x = "window_new create None ty"
  have x: "type_of ?x = ty" "win_content ?x = create ty"
    by (simp_all add: window_new_def Let_def split: option.splits prod.splits)
  from fresh_window_run [OF assms(1), of create ty] obtain w s1 where
    1: "new_window create None ty s = (Ok w, s1)" "wins s1 = (wins s)(w \<mapsto> ?x)" "wins s w = None" "heap s1 = heap s"
      "active_window s1 = active_window s" "loads 0 1 s s1" by blast
  define s2 where "s2 = (if act = Some v then s1\<lparr>active_window := Some w\<rparr> else s1)"
  have s2: "wins s2 = wins s1" "heap s2 = heap s1" "loads 0 1 s s2" "active_window s2 = (if act = Some v then Some w else active_window s)"
    using 1(5,6) by (simp_all add: s2_def wins_def heap_def loads_def pools_def)
  have p2: "pools s2" using s2(3) by (simp add: loads_def)
  from update_window_loads [where s = s2 and w = w and x = ?x and f = "\<lambda>x. x\<lparr>win_region := Some i\<rparr>" and inp = "sc c @ inp"] 1(2) s2(1) p2 obtain s3 where
    3: "on_layout (update_window w (\<lambda>x. x\<lparr>win_region := Some i\<rparr>)) (s2, sc c @ inp) = (Ok (), (s3, sc c @ inp))"
      "wins s3 = (wins s)(w \<mapsto> ?x\<lparr>win_region := Some i\<rparr>)" "heap s3 = heap s2" "active_window s3 = active_window s2" "loads 0 0 s2 s3" by auto
  have p3: "pools s3" using 3(5) by (simp add: loads_def)
  from update_window_loads [where s = s3 and w = w and x = "?x\<lparr>win_region := Some i\<rparr>" and f = "\<lambda>x. x\<lparr>win_content := keep c\<rparr>" and inp = inp] 3(2) p3 obtain s4 where
    4: "on_layout (update_window w (\<lambda>x. x\<lparr>win_content := keep c\<rparr>)) (s3, inp) = (Ok (), (s4, inp))"
      "wins s4 = (wins s)(w \<mapsto> ?x\<lparr>win_region := Some i, win_content := keep c\<rparr>)" "heap s4 = heap s3" "active_window s4 = active_window s3"
      "loads 0 0 s3 s4" by auto
  have get: "on_layout (get_window w) (s3, sc c @ inp) = (Ok (?x\<lparr>win_region := Some i\<rparr>), (s3, sc c @ inp))"
    using 3(2) by (simp add: on_layout_def get_window_def wins_def)
  have ld: "rd (load (create ty)) (s3, sc c @ inp) = (Ok (keep c), (s3, inp))" using assms(2) e by (simp add: rd_def restores_def)
  have new: "on_layout (new_window create None ty) (s, i) = (Ok w, (s1, i))" for i using 1(1) by (simp add: on_layout_def)
  have act: "activate (act = Some v) w (s1, i) = (Ok (), (s2, i))" for i
    by (simp add: s2_def activate_def)
  have run: "load_tab create load i (s, enc_tab sc act e @ inp) = (Ok w, (s4, inp))"
    unfolding load_tab_def enc_tab_def e using 3(1) 4(1) get ld new act x by (simp add: rd_run type_round_trip slift_def sret_def)
  have "loads 0 1 s s4" using loads_trans [OF s2(3) loads_trans [OF 3(5) 4(5)]] by simp
  moreover have "win_region (?x\<lparr>win_region := Some i, win_content := keep c\<rparr>) = Some i"
    "type_of (?x\<lparr>win_region := Some i, win_content := keep c\<rparr>) = ty" "win_content (?x\<lparr>win_region := Some i, win_content := keep c\<rparr>) = keep c"
    using x by simp_all
  ultimately show ?thesis using run 1(3,4) s2(2,4) 3(3,4) 4(2-4) unfolding e by auto
qed

text \<open>The active window after loading: the one that takes the place of the one that was active.\<close>

definition act_after :: "Id option \<Rightarrow> Id list \<Rightarrow> Id list \<Rightarrow> Id option \<Rightarrow> Id option" where
  "act_after act ws ws' a = fold (\<lambda>(w, w') a. if act = Some w then Some w' else a) (zip ws ws') a"

lemma act_after_append:
  "length ws = length ws' \<Longrightarrow> act_after act (ws @ vs) (ws' @ vs') a = act_after act vs vs' (act_after act ws ws' a)"
  by (simp add: act_after_def)

lemma act_after_Cons: "act_after act (w # ws) (w' # ws') a = act_after act ws ws' (if act = Some w then Some w' else a)"
  by (simp add: act_after_def)

lemma act_after_Nil [simp]: "act_after act [] [] a = a"
  by (simp add: act_after_def)

lemma tab_shape_mono: "wm \<subseteq>\<^sub>m wm' \<Longrightarrow> tab_shape wm i e \<Longrightarrow> tab_shape wm' i e"
  by (auto simp: tab_shape_def map_le_def dom_def split: option.splits)

lemma load_tabs_run:
  assumes "can_load m (length ws) s" "list_all (restores create load sc keep) ws"
  shows "\<exists>ws' s' wd. load_tabs create load i (length ws) (s, concat (map (enc_tab sc act) ws) @ inp) = (Ok (map fst ws'), (s', inp)) \<and>
    heap s' = heap s \<and> wins s' = wins s ++ wd \<and> dom wd = set (map fst ws') \<and> distinct (map fst ws') \<and> dom wd \<inter> dom (wins s) = {} \<and>
    list_all (tab_shape wd i) ws' \<and> map snd ws' = map (\<lambda>(w, ty, c). (ty, keep c)) ws \<and>
    active_window s' = act_after act (map fst ws) (map fst ws') (active_window s) \<and> loads 0 (length ws) s s'"
  using assms
proof (induction ws arbitrary: s)
  case Nil
  then show ?case by (intro exI [of _ "[]"] exI [of _ s] exI [of _ Map.empty]) (simp add: sret_def loads_def can_load_def)
next
  case (Cons e ws)
  let ?rest = "concat (map (enc_tab sc act) ws) @ inp"
  from load_tab_run [of m "length ws" s create load sc keep e i act ?rest] Cons.prems obtain w x s1 where
    1: "load_tab create load i (s, enc_tab sc act e @ ?rest) = (Ok w, (s1, ?rest))" "heap s1 = heap s" "wins s w = None"
      "wins s1 = (wins s)(w \<mapsto> x)" "win_region x = Some i" "type_of x = fst (snd e)" "win_content x = keep (snd (snd e))"
      "active_window s1 = (if act = Some (fst e) then Some w else active_window s)" "loads 0 1 s s1" by auto
  have "can_load m (length ws) s1" using can_load_after [of 0 m 1 "length ws" s s1] Cons.prems(1) 1(9) by simp
  moreover have "list_all (restores create load sc keep) ws" using Cons.prems(2) by simp
  ultimately obtain ws' s2 wd where
    2: "load_tabs create load i (length ws) (s1, ?rest) = (Ok (map fst ws'), (s2, inp))"
      "heap s2 = heap s1" "wins s2 = wins s1 ++ wd" "dom wd = set (map fst ws')" "distinct (map fst ws')" "dom wd \<inter> dom (wins s1) = {}"
      "list_all (tab_shape wd i) ws'" "map snd ws' = map (\<lambda>(w, ty, c). (ty, keep c)) ws"
      "active_window s2 = act_after act (map fst ws) (map fst ws') (active_window s1)" "loads 0 (length ws) s1 s2"
    using Cons.IH [of s1] by blast
  let ?e = "(w, fst (snd e), keep (snd (snd e)))" and ?wd = "[w \<mapsto> x] ++ wd"
  have w: "w \<notin> dom wd" "dom wd \<inter> dom (wins s) = {}" using 2(6) 1(4) by auto
  have "load_tabs create load i (length (e # ws)) (s, concat (map (enc_tab sc act) (e # ws)) @ inp) = (Ok (map fst (?e # ws')), (s2, inp))"
    using 1(1) 2(1) by (simp add: sret_def)
  moreover have "wins s2 = wins s ++ ?wd" unfolding 2(3) 1(4) by (simp add: map_add_assoc [symmetric])
  moreover have "tab_shape ?wd i ?e" using 1(5-7) w(1) by (simp add: tab_shape_def map_add_dom_app_simps)
  moreover have "list_all (tab_shape ?wd i) ws'" using 2(7) tab_shape_mono [OF map_le_map_add [of wd "[w \<mapsto> x]"]] by (auto simp: list_all_iff)
  moreover have "map snd (?e # ws') = map (\<lambda>(w, ty, c). (ty, keep c)) (e # ws)" using 2(8) by (simp add: case_prod_beta)
  ultimately show ?case using 1(2,3,8) 2(2,4,5,9) w loads_trans [OF 1(9) 2(10)]
    by (intro exI [of _ "?e # ws'"] exI [of _ s2] exI [of _ ?wd]) (auto simp: act_after_Cons domIff)
qed

primrec nsub :: "'c LTree \<Rightarrow> nat" where
  "nsub (TSplit i sz a ts) = length ts + sum_list (map nsub ts)"
| "nsub (TLeaf i sz sel ws) = 0"

primrec storable :: "'c LTree \<Rightarrow> bool" where
  "storable (TSplit i sz a ts) = (sz < 2 ^ 64 \<and> a \<le> 1 \<and> ts \<noteq> [] \<and> length ts \<le> 10000 \<and> list_all id (map storable ts))"
| "storable (TLeaf i sz sel ws) = (sz < 2 ^ 64 \<and> sel < 2 ^ 64 \<and> length ws < 2 ^ 64)"

text \<open>The regions \<open>is\<close> have become copies of the trees \<open>ts\<close>, with fresh identifiers below them.\<close>

definition reloaded :: "Id option \<Rightarrow> ('c \<Rightarrow> 'c) \<Rightarrow> Id option \<Rightarrow> Id list \<Rightarrow> 'c LTree list \<Rightarrow> 'c Layout \<Rightarrow> 'c Layout \<Rightarrow> bool" where
  "reloaded act keep p is ts s s' \<longleftrightarrow> (\<exists>ts' hd wd. map rid ts' = is \<and> heap s' = heap s ++ hd \<and> dom hd \<inter> dom (heap s) = set is \<and>
     dom hd = set (concat (map rids ts')) \<and> distinct (concat (map rids ts')) \<and> wins s' = wins s ++ wd \<and> dom wd \<inter> dom (wins s) = {} \<and>
     dom wd = set (concat (map ids ts')) \<and> distinct (concat (map ids ts')) \<and> (\<forall>t \<in> set ts'. shape hd wd t p) \<and>
     map (look id) ts' = map (look keep) ts \<and> length (concat (map ids ts')) = length (concat (map ids ts)) \<and>
     active_window s' = act_after act (concat (map ids ts)) (concat (map ids ts')) (active_window s)) \<and>
     loads (sum_list (map nsub ts)) (length (concat (map ids ts))) s s'"

lemma fresh_parts:
  assumes "A \<inter> S = {i}" "B \<inter> (S \<union> A) = I" "i \<notin> I" "I \<subseteq> S"
  shows "A \<inter> B = {}" "(B \<union> A) \<inter> S = insert i I"
proof -
  show "A \<inter> B = {}"
  proof (rule equals0I)
    fix x assume x: "x \<in> A \<inter> B"
    then have "x \<in> I" using assms(2) by auto
    with x assms(1,3,4) show False by auto
  qed
  have "B \<inter> S = I" using assms(2,4) by auto
  then show "(B \<union> A) \<inter> S = insert i I" using assms(1) by (simp add: Int_Un_distrib2)
qed

lemma reloaded_Cons:
  assumes "reloaded act keep p [i] [t] s s1" "reloaded act keep p is ts s1 s2" "i \<notin> set is" "set is \<subseteq> dom (heap s)"
  shows "reloaded act keep p (i # is) (t # ts) s s2"
proof -
  from assms(1) obtain ts1 hd1 wd1 where
    1: "map rid ts1 = [i]" "heap s1 = heap s ++ hd1" "dom hd1 \<inter> dom (heap s) = set [i]" "dom hd1 = set (concat (map rids ts1))"
      "distinct (concat (map rids ts1))" "wins s1 = wins s ++ wd1" "dom wd1 \<inter> dom (wins s) = {}" "dom wd1 = set (concat (map ids ts1))"
      "distinct (concat (map ids ts1))" "\<forall>t \<in> set ts1. shape hd1 wd1 t p" "map (look id) ts1 = map (look keep) [t]"
      "length (concat (map ids ts1)) = length (concat (map ids [t]))"
      "active_window s1 = act_after act (concat (map ids [t])) (concat (map ids ts1)) (active_window s)"
    unfolding reloaded_def by (elim conjE exE) (rule that; assumption)
  from assms(2) obtain ts2 hd2 wd2 where
    2: "map rid ts2 = is" "heap s2 = heap s1 ++ hd2" "dom hd2 \<inter> dom (heap s1) = set is" "dom hd2 = set (concat (map rids ts2))"
      "distinct (concat (map rids ts2))" "wins s2 = wins s1 ++ wd2" "dom wd2 \<inter> dom (wins s1) = {}" "dom wd2 = set (concat (map ids ts2))"
      "distinct (concat (map ids ts2))" "\<forall>t \<in> set ts2. shape hd2 wd2 t p" "map (look id) ts2 = map (look keep) ts"
      "length (concat (map ids ts2)) = length (concat (map ids ts))"
      "active_window s2 = act_after act (concat (map ids ts)) (concat (map ids ts2)) (active_window s1)"
    unfolding reloaded_def by (elim conjE exE) (rule that; assumption)
  have d1: "dom (heap s1) = dom (heap s) \<union> dom hd1" unfolding 1(2) by auto
  have one: "dom hd1 \<inter> dom (heap s) = {i}" using 1(3) by simp
  have dh: "dom hd1 \<inter> dom hd2 = {}" by (rule fresh_parts [OF one 2(3) [unfolded d1] assms(3,4)])
  have dw: "dom wd1 \<inter> dom wd2 = {}" using 2(7) unfolding 1(6) dom_map_add by blast
  have le: "hd1 \<subseteq>\<^sub>m hd1 ++ hd2" "wd1 \<subseteq>\<^sub>m wd1 ++ wd2" using dh dw by (metis map_add_comm map_le_map_add)+
  have "shape (hd1 ++ hd2) (wd1 ++ wd2) t p" if "t \<in> set (ts1 @ ts2)" for t
    using that 1(10) 2(10) shape_mono [OF le]
      shape_mono [of hd2 "hd1 ++ hd2" wd2 "wd1 ++ wd2", OF map_le_map_add map_le_map_add] by auto
  moreover have "loads (sum_list (map nsub (t # ts))) (length (concat (map ids (t # ts)))) s s2"
    using loads_trans assms(1,2) unfolding reloaded_def by fastforce
  moreover have "dom (hd1 ++ hd2) \<inter> dom (heap s) = set (i # is)" unfolding dom_map_add using fresh_parts(2) [OF one 2(3) [unfolded d1] assms(3,4)] by simp
  ultimately show ?thesis unfolding reloaded_def
    using 1(1,2,4-9,11-13) 2(1,2,4-9,11-13) dh dw
    by (intro conjI exI [of _ "ts1 @ ts2"] exI [of _ "hd1 ++ hd2"] exI [of _ "wd1 ++ wd2"]) (auto simp: act_after_append)
qed

lemma look_snd: "map (\<lambda>(w, ty, c). (ty, id c)) ws = map snd ws"
  by (induction ws) auto

text \<open>A leaf, and a split whose children have been loaded.\<close>

lemma reloaded_leaf:
  assumes "heap s i = Some r" "heap s' = (heap s)(i \<mapsto> r')" "parent r' = parent r" "relative_size r' = sz"
    "content r' = Leaf \<lparr>tabs = map fst ws', tabs_state = st\<rparr>" "selected st = sel"
    "wins s' = wins s ++ wd" "dom wd = set (map fst ws')" "distinct (map fst ws')" "dom wd \<inter> dom (wins s) = {}"
    "list_all (tab_shape wd i) ws'" "map snd ws' = map (\<lambda>(w, ty, c). (ty, keep c)) ws"
    "active_window s' = act_after act (map fst ws) (map fst ws') (active_window s)" "loads 0 (length ws) s s'"
  shows "reloaded act keep (parent r) [i] [TLeaf j sz sel ws] s s'"
proof -
  have len: "length ws' = length ws" using assms(12) by (metis length_map)
  have "shape [i \<mapsto> r'] wd (TLeaf i sz sel ws') (parent r)" using assms(3-6,11) by simp
  moreover have "look id (TLeaf i sz sel ws') = look keep (TLeaf j sz sel ws)"
    using assms(12) look_snd [of ws'] by (simp only: look.simps)
  moreover have "dom [i \<mapsto> r'] \<inter> dom (heap s) = set [i]" using assms(1) by auto
  ultimately show ?thesis unfolding reloaded_def using assms(2,7-10,13,14) len
    by (intro conjI exI [of _ "[TLeaf i sz sel ws']"] exI [of _ "[i \<mapsto> r']"] exI [of _ wd]) simp_all
qed

lemma reloaded_split:
  assumes "heap s i = Some r" "parent r' = parent r" "relative_size r' = sz" "content r' = Split a cs"
    and s1: "heap s1 = (heap s ++ new)(i \<mapsto> r')" "dom new = set cs" "set cs \<inter> dom (heap s) = {}" "distinct cs" "cs \<noteq> []"
      "wins s1 = wins s" "active_window s1 = active_window s" "loads (length cs) 0 s s1"
    and re: "reloaded act keep (Some i) cs ts s1 s2" "length ts = length cs"
  shows "reloaded act keep (parent r) [i] [TSplit j sz a ts] s s2"
proof -
  from re(1) obtain ts' hd wd where
    2: "map rid ts' = cs" "heap s2 = heap s1 ++ hd" "dom hd \<inter> dom (heap s1) = set cs" "dom hd = set (concat (map rids ts'))"
      "distinct (concat (map rids ts'))" "wins s2 = wins s1 ++ wd" "dom wd \<inter> dom (wins s1) = {}" "dom wd = set (concat (map ids ts'))"
      "distinct (concat (map ids ts'))" "\<forall>t \<in> set ts'. shape hd wd t (Some i)" "map (look id) ts' = map (look keep) ts"
      "length (concat (map ids ts')) = length (concat (map ids ts))"
      "active_window s2 = act_after act (concat (map ids ts)) (concat (map ids ts')) (active_window s1)"
    unfolding reloaded_def by (elim conjE exE) (rule that; assumption)
  let ?h = "[i \<mapsto> r'] ++ hd"
  have i: "i \<notin> set cs" using assms(1) s1(3) by auto
  have d1: "dom (heap s1) = dom (heap s) \<union> set cs" using s1(1,2) assms(1) by auto
  have ih: "i \<notin> dom hd" using 2(3) i assms(1) unfolding d1 by blast
  have "heap s2 x = (heap s ++ ?h) x" for x
  proof (cases "x \<in> dom hd")
    case True
    then show ?thesis unfolding 2(2) by (auto simp: map_add_dom_app_simps)
  next
    case False
    moreover from this have "x \<notin> dom new" using 2(3) s1(2) d1 by blast
    ultimately show ?thesis unfolding 2(2) s1(1) by (auto simp: map_add_def dom_def split: option.splits)
  qed
  then have h2: "heap s2 = heap s ++ ?h" by (rule ext)
  have "shape ?h wd t (Some i)" if "t \<in> set ts'" for t
    using 2(10) that shape_mono [of hd ?h wd wd, OF map_le_map_add map_le_refl] by blast
  then have "shape ?h wd (TSplit i sz a ts') (parent r)"
    using assms(2-4) ih 2(1) s1(5) by (auto simp: list_all_iff map_add_dom_app_simps)
  moreover have "dom ?h \<inter> dom (heap s) = set [i]"
    using 2(3) s1(3) assms(1) unfolding d1 by (simp add: dom_map_add) blast
  moreover have "loads (length cs + sum_list (map nsub ts)) (length (concat (map ids ts))) s s2"
    using loads_trans [OF s1(8)] re(1) unfolding reloaded_def by fastforce
  ultimately show ?thesis unfolding reloaded_def using h2 2(4-9,11-13) s1(6,7) ih re(2)
    by (intro conjI exI [of _ "[TSplit i sz a ts']"] exI [of _ ?h] exI [of _ wd]) simp_all
qed

lemma load_walk_step:
  "load_region create load i st = (Ok cs, st') \<Longrightarrow> load_walk create load (i # rest) st = load_walk create load (cs @ rest) st'"
  by (subst load_walk.simps) simp

lemma update_region_loads:
  assumes "heap s i = Some r" "pools s"
  shows "\<exists>s'. on_layout (update_region i f) (s, inp) = (Ok (), (s', inp)) \<and> heap s' = (heap s)(i \<mapsto> f r) \<and> wins s' = wins s \<and>
    active_window s' = active_window s \<and> loads 0 0 s s'"
proof -
  have "frame s (put_region i (f r) s)" by simp
  then show ?thesis using assms by (intro exI [of _ "put_region i (f r) s"])
      (auto simp: on_layout_def update_region_eq frame_def loads_def wins_def)
qed

lemma load_leaf_run:
  assumes "heap s i = Some r" "can_load 0 (length ws) s" "list_all (restores create load sc keep) ws"
    "sz < 2 ^ 64" "sel < 2 ^ 64" "length ws < 2 ^ 64"
  shows "\<exists>s'. load_walk create load (i # rest) (s, enc sc act (TLeaf j sz sel ws) @ inp) = load_walk create load rest (s', inp) \<and>
    reloaded act keep (parent r) [i] [TLeaf j sz sel ws] s s'"
proof -
  from load_tabs_run [OF assms(2,3), of i act inp] obtain ws' s1 wd where
    1: "load_tabs create load i (length ws) (s, concat (map (enc_tab sc act) ws) @ inp) = (Ok (map fst ws'), (s1, inp))"
      "heap s1 = heap s" "wins s1 = wins s ++ wd" "dom wd = set (map fst ws')" "distinct (map fst ws')" "dom wd \<inter> dom (wins s) = {}"
      "list_all (tab_shape wd i) ws'" "map snd ws' = map (\<lambda>(w, ty, c). (ty, keep c)) ws"
      "active_window s1 = act_after act (map fst ws) (map fst ws') (active_window s)" "loads 0 (length ws) s s1" by blast
  let ?l = "\<lparr>tabs = map fst ws', tabs_state = tabs_select sel default_tabs\<rparr>"
  let ?r = "r\<lparr>content := Leaf ?l, relative_size := sz\<rparr>"
  have i1: "heap s1 i = Some r" "pools s1" using assms(1) 1(2,10) by (simp_all add: loads_def)
  from update_region_loads [OF i1, of "\<lambda>r. r\<lparr>content := Leaf ?l, relative_size := sz\<rparr>" inp] obtain s2 where
    2: "on_layout (update_region i (\<lambda>r. r\<lparr>content := Leaf ?l, relative_size := sz\<rparr>)) (s1, inp) = (Ok (), (s2, inp))"
      "heap s2 = (heap s)(i \<mapsto> ?r)" "wins s2 = wins s1" "active_window s2 = active_window s1" "loads 0 0 s1 s2" using 1(2) by auto
  have "load_region create load i (s, enc sc act (TLeaf j sz sel ws) @ inp) = (Ok [], (s2, inp))"
    using 1(1) 2(1) assms(4-6) by (simp add: load_region_def load_leaf_def rd_run sret_def)
  from load_walk_step [OF this, of rest] have run: "load_walk create load (i # rest) (s, enc sc act (TLeaf j sz sel ws) @ inp) = load_walk create load rest (s2, inp)"
    by simp
  have "reloaded act keep (parent r) [i] [TLeaf j sz sel ws] s s2"
    by (rule reloaded_leaf [OF assms(1) 2(2), where ws' = ws' and wd = wd and st = "tabs_select sel default_tabs"])
      (use 1 2(3,4) loads_trans [OF 1(10) 2(5)] in \<open>simp_all add: tabs_select_def\<close>)
  then show ?thesis using run by blast
qed

lemma load_split_step:
  assumes "heap s i = Some r" "can_load n k s" "1 \<le> n" "n \<le> 10000" "sz < 2 ^ 64" "a \<le> 1"
  shows "\<exists>cs s1 r' new. load_region create load i (s, write_usize sz @ write_bool True @ write_bool (a \<noteq> 0) @ write_usize n @ inp) = (Ok cs, (s1, inp)) \<and>
    parent r' = parent r \<and> relative_size r' = sz \<and> content r' = Split a cs \<and> heap s1 = (heap s ++ new)(i \<mapsto> r') \<and>
    dom new = set cs \<and> (\<forall>c \<in> set cs. \<exists>x. new c = Some x \<and> parent x = Some i) \<and>
    set cs \<inter> dom (heap s) = {} \<and> distinct cs \<and> length cs = n \<and> wins s1 = wins s \<and> active_window s1 = active_window s \<and> loads n 0 s s1"
proof -
  let ?D = "default_region\<lparr>parent := Some i\<rparr>"
  from add_children_run [OF assms(2), of i] obtain cs s1 where
    1: "add_children i n s = (Ok cs, s1)" "length cs = n" "distinct cs" "set cs \<inter> dom (heap s) = {}"
      "heap s1 = heap s ++ (\<lambda>x. if x \<in> set cs then Some ?D else None)" "wins s1 = wins s"
      "active_window s1 = active_window s" "loads n 0 s s1" by blast
  let ?new = "\<lambda>x. if x \<in> set cs then Some ?D else None"
  let ?r = "r\<lparr>content := Split a cs, relative_size := sz\<rparr>"
  have "i \<notin> set cs" using 1(4) assms(1) by auto
  then have i1: "heap s1 i = Some r" "pools s1" using assms(1) 1(5,8) by (auto simp: loads_def map_add_def)
  from update_region_loads [OF i1, of "\<lambda>r. r\<lparr>content := Split a cs, relative_size := sz\<rparr>" inp] obtain s2 where
    2: "on_layout (update_region i (\<lambda>r. r\<lparr>content := Split a cs, relative_size := sz\<rparr>)) (s1, inp) = (Ok (), (s2, inp))"
      "heap s2 = (heap s1)(i \<mapsto> ?r)" "wins s2 = wins s1" "active_window s2 = active_window s1" "loads 0 0 s1 s2" by auto
  have new: "on_layout (add_children i n) (s, inp) = (Ok cs, (s1, inp))" for inp using 1(1) by (simp add: on_layout_def)
  have ax: "(if 0 < a then 1 else 0) = a" "\<not> 10000 < n" "n \<noteq> 0" "n < 2 ^ 64" using assms(3,4,6) by auto
  have "load_region create load i (s, write_usize sz @ write_bool True @ write_bool (a \<noteq> 0) @ write_usize n @ inp) = (Ok cs, (s2, inp))"
    using new 2(1) assms(5) ax by (simp add: load_region_def load_split_def rd_run sret_def)
  moreover have "loads n 0 s s2" using loads_trans [OF 1(8) 2(5)] by simp
  ultimately show ?thesis using 1 2
    by (intro exI [of _ cs] exI [of _ s2] exI [of _ ?r] exI [of _ ?new]) (auto simp: dom_def)
qed

lemma reloaded_Nil: "pools s \<Longrightarrow> reloaded act keep p [] [] s s"
  unfolding reloaded_def by (intro conjI exI [of _ "[]"] exI [of _ Map.empty]) (simp_all add: loads_def)

lemma reloaded_other:
  assumes "reloaded act keep p [i] ts s s'" "heap s j = Some r" "j \<noteq> i"
  shows "heap s' j = Some r"
proof -
  from assms(1) obtain hd where hd: "heap s' = heap s ++ hd" "dom hd \<inter> dom (heap s) = set [i]"
    unfolding reloaded_def by (elim conjE exE) (rule that; assumption)
  then have "j \<notin> dom hd" using assms(2,3) by auto
  then show ?thesis using hd(1) assms(2) by (simp add: map_add_dom_app_simps)
qed

text \<open>A forest loads when each of its trees does.\<close>

lemma load_forest_run:
  assumes "\<And>t i r s rest inp. t \<in> set ts \<Longrightarrow> heap s i = Some r \<Longrightarrow> can_load (nsub t) (length (ids t)) s \<Longrightarrow>
      \<exists>s'. load_walk create load (i # rest) (s, enc sc act t @ inp) = load_walk create load rest (s', inp) \<and> reloaded act keep (parent r) [i] [t] s s'"
    and "length cs = length ts" "distinct cs" "\<And>c. c \<in> set cs \<Longrightarrow> \<exists>r. heap s c = Some r \<and> parent r = p"
    "can_load (sum_list (map nsub ts)) (length (concat (map ids ts))) s"
  shows "\<exists>s'. load_walk create load (cs @ rest) (s, concat (map (enc sc act) ts) @ inp) = load_walk create load rest (s', inp) \<and>
    reloaded act keep p cs ts s s'"
  using assms
proof (induction ts arbitrary: cs s)
  case Nil
  then show ?case by (auto simp: can_load_def intro!: exI [of _ s] reloaded_Nil)
next
  case (Cons t ts)
  then obtain c cs' where cs: "cs = c # cs'" by (cases cs) auto
  obtain r where r: "heap s c = Some r" "parent r = p" using Cons.prems(4) [of c] cs by auto
  have "can_load (nsub t) (length (ids t)) s" using can_load_le [OF Cons.prems(5)] by simp
  from Cons.prems(1) [OF _ r(1) this, of "cs' @ rest" "concat (map (enc sc act) ts) @ inp"] r(2) obtain s1 where
    1: "load_walk create load (c # cs' @ rest) (s, enc sc act t @ concat (map (enc sc act) ts) @ inp)
        = load_walk create load (cs' @ rest) (s1, concat (map (enc sc act) ts) @ inp)" "reloaded act keep p [c] [t] s s1" by auto
  have "\<exists>r. heap s1 d = Some r \<and> parent r = p" if "d \<in> set cs'" for d
  proof -
    have "d \<noteq> c" using that Cons.prems(3) cs by auto
    then show ?thesis using Cons.prems(4) [of d] reloaded_other [OF 1(2)] cs that by auto
  qed
  moreover have "can_load (sum_list (map nsub ts)) (length (concat (map ids ts))) s1"
    using can_load_after [of "nsub t" _ "length (ids t)"] Cons.prems(5) 1(2) unfolding reloaded_def by fastforce
  moreover have "length cs' = length ts" "distinct cs'" using Cons.prems(2,3) cs by simp_all
  ultimately obtain s2 where
    2: "load_walk create load (cs' @ rest) (s1, concat (map (enc sc act) ts) @ inp) = load_walk create load rest (s2, inp)"
      "reloaded act keep p cs' ts s1 s2"
    using Cons.IH [of cs' s1] Cons.prems(1) by (metis list.set_intros(2))
  have "set cs' \<subseteq> dom (heap s)" "c \<notin> set cs'" using Cons.prems(3,4) cs by (auto simp: subset_iff)
  from reloaded_Cons [OF 1(2) 2(2) this(2,1)] show ?case using 1(1) 2(1) cs by auto
qed

lemma load_walk_run:
  assumes "storable t" "\<forall>e \<in> set (entries t). restores create load sc keep e" "heap s i = Some r" "can_load (nsub t) (length (ids t)) s"
  shows "\<exists>s'. load_walk create load (i # rest) (s, enc sc act t @ inp) = load_walk create load rest (s', inp) \<and>
    reloaded act keep (parent r) [i] [t] s s'"
  using assms
proof (induction t arbitrary: i r s rest inp)
  case (TLeaf j sz sel ws)
  then show ?case using load_leaf_run [of s i r ws create load sc keep sz sel rest act j inp] by (simp add: list_all_iff)
next
  case (TSplit j sz a ts)
  have v: "1 \<le> length ts" "length ts \<le> 10000" "sz < 2 ^ 64" "a \<le> 1" "ts \<noteq> []" and st: "\<And>t. t \<in> set ts \<Longrightarrow> storable t"
    using TSplit.prems(1) by (cases ts; auto simp: list_all_iff)+
  have cl: "can_load (length ts + sum_list (map nsub ts)) (length (concat (map ids ts))) s" using TSplit.prems(4) by simp
  have "can_load (length ts) (length (concat (map ids ts))) s" using can_load_le [OF cl] by simp
  from load_split_step [OF TSplit.prems(3) this v(1-4), of create load "concat (map (enc sc act) ts) @ inp"] obtain cs s1 r' new where
    1: "load_region create load i (s, write_usize sz @ write_bool True @ write_bool (a \<noteq> 0) @ write_usize (length ts) @ concat (map (enc sc act) ts) @ inp)
        = (Ok cs, (s1, concat (map (enc sc act) ts) @ inp))"
      "parent r' = parent r" "relative_size r' = sz" "content r' = Split a cs" "heap s1 = (heap s ++ new)(i \<mapsto> r')" "dom new = set cs"
      "\<forall>c \<in> set cs. \<exists>x. new c = Some x \<and> parent x = Some i" "set cs \<inter> dom (heap s) = {}" "distinct cs" "length cs = length ts"
      "wins s1 = wins s" "active_window s1 = active_window s" "loads (length ts) 0 s s1" by blast
  have kid: "\<exists>x. heap s1 c = Some x \<and> parent x = Some i" if c: "c \<in> set cs" for c
  proof -
    have "c \<noteq> i" using c 1(8) TSplit.prems(3) by auto
    then show ?thesis using 1(5,7) c by (auto simp: map_add_def)
  qed
  have cl1: "can_load (sum_list (map nsub ts)) (length (concat (map ids ts))) s1"
    using can_load_after [of "length ts" "sum_list (map nsub ts)" 0 "length (concat (map ids ts))" s s1] cl 1(13) by simp
  have step: "\<exists>s'. load_walk create load (i # rest) (s, enc sc act t @ inp) = load_walk create load rest (s', inp) \<and> reloaded act keep (parent r) [i] [t] s s'"
    if "t \<in> set ts" "heap s i = Some r" "can_load (nsub t) (length (ids t)) s" for t i r s rest inp
  proof -
    have "\<forall>e \<in> set (entries t). restores create load sc keep e" using TSplit.prems(2) that(1) by auto
    from TSplit.IH [OF that(1) st [OF that(1)] this that(2,3)] show ?thesis .
  qed
  from load_forest_run [OF step 1(10,9) kid cl1, of rest inp] obtain s2 where
    2: "load_walk create load (cs @ rest) (s1, concat (map (enc sc act) ts) @ inp) = load_walk create load rest (s2, inp)"
      "reloaded act keep (Some i) cs ts s1 s2" by blast
  have ne: "cs \<noteq> []" and n: "loads (length cs) 0 s s1" using 1(10,13) v(5) by auto
  have "reloaded act keep (parent r) [i] [TSplit j sz a ts] s s2"
    by (rule reloaded_split [OF TSplit.prems(3) 1(2-6,8,9) ne 1(11,12) n 2(2) 1(10) [symmetric]])
  moreover have "load_walk create load (i # rest) (s, enc sc act (TSplit j sz a ts) @ inp) = load_walk create load rest (s2, inp)"
    using load_walk_step [OF 1(1), of rest] 2(1) by simp
  ultimately show ?case by blast
qed

end
