(* ===== verification/LayoutReload.thy ===== *)
theory LayoutReload
  imports LayoutSave
begin

text \<open>
  A saved layout loads back as it was shown, with its active window, and the loaded layout passes
  the assertions of \<open>Layout::build\<close>.
\<close>

section \<open>Every layout shows a tree\<close>

text \<open>The links to the parents, as a relation.\<close>

definition above :: "('i \<Rightarrow> 'i option) \<Rightarrow> ('i \<times> 'i) set" where
  "above P = {(c, p). P c = Some p}"

lemma above_single_valued: "single_valued (above P)"
  by (simp add: single_valued_def above_def)

lemma climbs_no_cycle: "climbs P rt i \<Longrightarrow> P rt = None \<Longrightarrow> (i, i) \<notin> (above P)\<^sup>+"
proof (induction rule: climbs.induct)
  case top
  then show ?case by (auto simp: above_def dest: tranclD)
next
  case (up i p)
  show ?case
  proof
    assume "(i, i) \<in> (above P)\<^sup>+"
    then obtain q where q: "(i, q) \<in> above P" "(q, i) \<in> (above P)\<^sup>*" by (meson tranclD)
    then have "q = p" using up(1) by (simp add: above_def)
    moreover have "(i, p) \<in> above P" using up(1) by (simp add: above_def)
    ultimately have "(p, p) \<in> (above P)\<^sup>+" using q(2) by (meson rtrancl_into_trancl1)
    then show False using up(3,4) by blast
  qed
qed

lemma wf_above:
  assumes "wf_tree D P K rt" "finite D"
  shows "wf {(c, p). c \<in> D \<and> P c = Some p}"
proof (rule finite_acyclic_wf)
  let ?r = "{(c, p). c \<in> D \<and> P c = Some p}"
  have sub: "?r \<subseteq> above P" by (auto simp: above_def)
  show "finite ?r"
    by (rule finite_subset [of _ "(\<lambda>c. (c, the (P c))) ` D"]) (auto simp: image_iff assms(2))
  show "acyclic ?r" unfolding acyclic_def
  proof (intro allI notI)
    fix x assume x: "(x, x) \<in> ?r\<^sup>+"
    then have "x \<in> D" by (auto dest: tranclD)
    then have c: "climbs P rt x" by (rule wf_treeD(6) [OF assms(1)])
    from climbs_no_cycle [OF c wf_treeD(2) [OF assms(1)]] trancl_mono [OF x sub] show False by contradiction
  qed
qed

lemma shape_exists:
  assumes inv: "layout_inv s" and i: "i \<in> dom (heap s)"
  shows "\<exists>t. rid t = i \<and> shape (heap s) (wins s) t (par (heap s) i)"
proof -
  let ?h = "heap s"
  have wf: "wf_tree (dom ?h) (par ?h) (kids ?h) (root s)" and sh: "shaped {} ?h" and T: "tabs_inv ?h (wins s)"
    using inv by (simp_all add: layout_inv_def tree_ok_def tree_def)
  show ?thesis using wf_above [OF wf finite_heap] i
  proof (induction i rule: wf_induct_rule)
    case (less i)
    then obtain r where r: "?h i = Some r" by auto
    have p: "par ?h i = parent r" using r by (simp add: par_def)
    show ?case
    proof (cases "content r")
      case (Leaf l)
      have lf: "leaf_of ?h i = Some l" using r Leaf by (simp add: leaf_of_def)
      let ?ws = "map (\<lambda>w. (w, type_of (the (wins s w)), win_content (the (wins s w)))) (tabs l)"
      have "tab_shape (wins s) i (w, type_of (the (wins s w)), win_content (the (wins s w)))" if "w \<in> set (tabs l)" for w
        using tabs_invD(2) [OF T, of w i] leaf_sel [OF lf] that by (auto simp: tab_shape_def)
      then have "shape ?h (wins s) (TLeaf i (relative_size r) (selected (tabs_state l)) ?ws) (par ?h i)"
        using r Leaf p by (auto simp: list_all_iff comp_def)
      then show ?thesis by (metis LTree.sel(2))
    next
      case (Split a cs)
      have k: "kids ?h i = cs" "axis_of ?h i = Some a" using r Split by (simp_all add: kids_def axis_of_def)
      have ne: "cs \<noteq> []" using shapedD(2) [OF sh k(2)] k(1) by auto
      define f where "f c = (SOME t. rid t = c \<and> shape ?h (wins s) t (Some i))" for c
      have f: "rid (f c) = c \<and> shape ?h (wins s) (f c) (Some i)" if "c \<in> set cs" for c
      proof -
        have "c \<in> dom ?h" "par ?h c = Some i" using wf_treeD(3) [OF wf, of c i] k(1) that by auto
        then have "\<exists>t. rid t = c \<and> shape ?h (wins s) t (Some i)" using less.IH [of c] by auto
        then show ?thesis unfolding f_def by (rule someI_ex)
      qed
      then have "map rid (map f cs) = cs" by (simp add: map_idI)
      then have "shape ?h (wins s) (TSplit i (relative_size r) a (map f cs)) (par ?h i)"
        using r Split p f ne by (auto simp: list_all_iff)
      then show ?thesis by (metis LTree.sel(1))
    qed
  qed
qed

section \<open>Its identifiers are distinct\<close>

lemma shape_split:
  assumes "shape h wm (TSplit i sz a ts) p"
  shows "par h i = p" "kids h i = map rid ts" "\<And>t. t \<in> set ts \<Longrightarrow> shape h wm t (Some i)" "i \<in> dom h"
  using assms by (auto simp: par_def kids_def list_all_iff split: option.splits)

lemma shape_par: "shape h wm t p \<Longrightarrow> par h (rid t) = p"
  by (cases t) (auto simp: par_def split: option.splits)

lemma rids_dom: "shape h wm t p \<Longrightarrow> set (rids t) \<subseteq> dom h"
proof (induction t arbitrary: p)
  case (TSplit i sz a ts)
  then show ?case using shape_split [OF TSplit.prems] by fastforce
qed (auto split: option.splits)

lemma rid_in_rids: "rid t \<in> set (rids t)"
  by (cases t) simp_all

lemma rids_above: "shape h wm t p \<Longrightarrow> j \<in> set (rids t) \<Longrightarrow> (j, rid t) \<in> (above (par h))\<^sup>*"
proof (induction t arbitrary: p)
  case (TSplit i sz a ts)
  note S = shape_split [OF TSplit.prems(1)]
  consider "j = i" | u where "u \<in> set ts" "j \<in> set (rids u)" using TSplit.prems(2) by auto
  then show ?case
  proof cases
    case 2
    from TSplit.IH [OF 2(1) S(3) [OF 2(1)] 2(2)] have "(j, rid u) \<in> (above (par h))\<^sup>*" .
    moreover have "(rid u, i) \<in> above (par h)" using shape_par [OF S(3) [OF 2(1)]] by (simp add: above_def)
    ultimately show ?thesis by (simp add: rtrancl.rtrancl_into_rtrancl)
  qed simp
qed simp

lemma distinct_concat_map:
  "(\<And>t. t \<in> set ts \<Longrightarrow> distinct (f t)) \<Longrightarrow> distinct (map g ts) \<Longrightarrow>
    (\<And>t u. t \<in> set ts \<Longrightarrow> u \<in> set ts \<Longrightarrow> g t \<noteq> g u \<Longrightarrow> set (f t) \<inter> set (f u) = {}) \<Longrightarrow> distinct (concat (map f ts))"
proof (induction ts)
  case (Cons t ts)
  have "set (f t) \<inter> set (f u) = {}" if "u \<in> set ts" for u
    using Cons.prems(3) [of t u] Cons.prems(2) that by (auto simp: image_iff)
  moreover have "distinct (concat (map f ts))" using Cons by simp
  ultimately show ?case using Cons.prems(1) [of t] by auto
qed simp

text \<open>Two children of a region have no region in common below them.\<close>

lemma siblings_apart:
  assumes acyc: "\<And>x. x \<in> dom h \<Longrightarrow> (x, x) \<notin> (above (par h))\<^sup>+" and i: "i \<in> dom h"
    and c: "par h c = Some i" "par h d = Some i" "c \<noteq> d" and j: "(j, c) \<in> (above (par h))\<^sup>*" "(j, d) \<in> (above (par h))\<^sup>*"
  shows False
proof -
  have no: False if "par h a = Some i" "par h b = Some i" "a \<noteq> b" "(a, b) \<in> (above (par h))\<^sup>*" for a b
  proof -
    from that(3,4) obtain q where q: "(a, q) \<in> above (par h)" "(q, b) \<in> (above (par h))\<^sup>*" by (meson converse_rtranclE)
    then have "q = i" using that(1) by (simp add: above_def)
    moreover have "(b, i) \<in> above (par h)" using that(2) by (simp add: above_def)
    ultimately have "(i, i) \<in> (above (par h))\<^sup>+" using q(2) by (meson rtrancl_into_trancl1)
    then show False using acyc [OF i] by contradiction
  qed
  from single_valued_confluent [OF above_single_valued j] show False using no c by metis
qed

lemma rids_distinct:
  assumes acyc: "\<And>x. x \<in> dom h \<Longrightarrow> (x, x) \<notin> (above (par h))\<^sup>+" and d: "\<And>i. distinct (kids h i)" and "shape h wm t p"
  shows "distinct (rids t)"
  using assms(3)
proof (induction t arbitrary: p)
  case (TSplit i sz a ts)
  note S = shape_split [OF TSplit.prems]
  have p: "par h (rid u) = Some i" if "u \<in> set ts" for u using shape_par [OF S(3) [OF that]] .
  have "i \<notin> set (rids u)" if u: "u \<in> set ts" for u
  proof
    assume "i \<in> set (rids u)"
    from rids_above [OF S(3) [OF u] this] p [OF u] have "(i, i) \<in> (above (par h))\<^sup>+"
      by (auto simp: above_def intro: rtrancl_into_trancl1)
    then show False using acyc [OF S(4)] by contradiction
  qed
  moreover have "distinct (concat (map rids ts))"
  proof (rule distinct_concat_map [where g = rid])
    show "distinct (rids u)" if "u \<in> set ts" for u using TSplit.IH [OF that S(3) [OF that]] .
    show "distinct (map rid ts)" using d [of i] S(2) by simp
    show "set (rids u) \<inter> set (rids v) = {}" if "u \<in> set ts" "v \<in> set ts" "rid u \<noteq> rid v" for u v
      using siblings_apart [OF acyc S(4) p [OF that(1)] p [OF that(2)] that(3)]
        rids_above [OF S(3) [OF that(1)]] rids_above [OF S(3) [OF that(2)]] by blast
  qed
  ultimately show ?case by auto
qed simp

lemma ids_region: "shape h wm t p \<Longrightarrow> w \<in> set (ids t) \<Longrightarrow> \<exists>j \<in> set (rids t). \<exists>x. wm w = Some x \<and> win_region x = Some j"
proof (induction t arbitrary: p)
  case (TSplit i sz a ts)
  then obtain u where u: "u \<in> set ts" "w \<in> set (ids u)" by auto
  from TSplit.IH [OF u(1) shape_split(3) [OF TSplit.prems(1) u(1)] u(2)] u(1) show ?case by auto
next
  case (TLeaf i sz sel ws)
  then show ?case by (auto simp: list_all_iff tab_shape_def split: option.splits RegionContent.splits)
qed

lemma ids_distinct:
  assumes "shape h wm t p" "distinct (rids t)" "\<And>i. distinct (tabs_of h i)"
  shows "distinct (ids t)"
  using assms
proof (induction t arbitrary: p)
  case (TSplit i sz a ts)
  note S = shape_split [OF TSplit.prems(1)]
  have dr: "distinct (concat (map rids ts))" using TSplit.prems(2) by simp
  have apart: "set (ids u) \<inter> set (ids v) = {}" if "u \<in> set ts" "v \<in> set ts" "set (rids u) \<inter> set (rids v) = {}" for u v
    using ids_region [OF S(3) [OF that(1)]] ids_region [OF S(3) [OF that(2)]] that(3) by fastforce
  have "distinct (concat (map ids us))" if "set us \<subseteq> set ts" "distinct (concat (map rids us))" for us
    using that
  proof (induction us)
    case (Cons u us)
    have "distinct (ids u)" using TSplit.IH [of u] S(3) Cons.prems TSplit.prems(3) by auto
    moreover have "set (ids u) \<inter> set (ids v) = {}" if "v \<in> set us" for v
      by (rule apart) (use Cons.prems that in auto)
    ultimately show ?case using Cons by auto
  qed simp
  then show ?case using dr by simp
next
  case (TLeaf i sz sel ws)
  then have "tabs_of h i = map fst ws" by (auto simp: tabs_of_def leaf_of_def split: option.splits RegionContent.splits)
  then show ?case using TLeaf.prems(3) [of i] by simp
qed

section \<open>The assertions of \<open>build\<close> on a tree\<close>

lemma check_walk_shape:
  assumes "shape (heap s) (wins s) t p" "distinct (rids t)" "distinct (ids t)" "set (rids t) \<inter> set vr = {}" "set (ids t) \<inter> set vw = {}"
  shows "\<exists>vr' vw'. check_walk s (rid t # S) vr vw = check_walk s S vr' vw' \<and> set vr' = set vr \<union> set (rids t) \<and> set vw' = set vw \<union> set (ids t)"
  using assms
proof (induction t arbitrary: p S vr vw)
  case (TLeaf i sz sel ws)
  from TLeaf.prems(1) obtain r l where r: "heap s i = Some r" "content r = Leaf l" "tabs l = map fst ws" "list_all (tab_shape (wins s) i) ws"
    by (auto split: option.splits RegionContent.splits)
  have "\<exists>x. wins s w = Some x \<and> win_region x = Some i" if "w \<in> set (tabs l)" for w
    using that r(3,4) by (auto simp: list_all_iff tab_shape_def split: option.splits)
  then obtain vw' where "check_tabs s i (tabs l) vw = Ok vw'" "set vw' = set (tabs l) \<union> set vw"
    using check_tabs_run [of "tabs l" vw s i] TLeaf.prems(3,5) r(3) by auto
  then show ?case using r TLeaf.prems(4) by (intro exI [of _ "i # vr"] exI [of _ vw']) auto
next
  case (TSplit i sz a ts)
  from TSplit.prems(1) obtain r where r: "heap s i = Some r" "content r = Split a (map rid ts)" "ts \<noteq> []"
    by (auto split: option.splits)
  note S = shape_split [OF TSplit.prems(1)]
  have c: "check_parents s i (map rid ts) = Ok ()" by (rule check_parents_run) (use shape_par [OF S(3)] in auto)
  have run: "check_walk s (i # S) vr vw = check_walk s (map rid ts @ S) (i # vr) vw"
    using r c TSplit.prems(4) by simp
  have many: "\<exists>vr' vw'. check_walk s (map rid us @ S) vr vw = check_walk s S vr' vw' \<and>
      set vr' = set vr \<union> set (concat (map rids us)) \<and> set vw' = set vw \<union> set (concat (map ids us))"
    if "set us \<subseteq> set ts" "distinct (concat (map rids us))" "distinct (concat (map ids us))"
      "set (concat (map rids us)) \<inter> set vr = {}" "set (concat (map ids us)) \<inter> set vw = {}" for us vr vw
    using that
  proof (induction us arbitrary: vr vw)
    case Nil
    then show ?case by auto
  next
    case (Cons u us)
    have u: "u \<in> set ts" using Cons.prems(1) by simp
    have "distinct (rids u)" "distinct (ids u)" "set (rids u) \<inter> set vr = {}" "set (ids u) \<inter> set vw = {}" using Cons.prems by auto
    from TSplit.IH [OF u S(3) [OF u] this, of "map rid us @ S"] obtain v1 w1 where
      1: "check_walk s (rid u # map rid us @ S) vr vw = check_walk s (map rid us @ S) v1 w1"
        "set v1 = set vr \<union> set (rids u)" "set w1 = set vw \<union> set (ids u)" by blast
    have "set us \<subseteq> set ts" "distinct (concat (map rids us))" "distinct (concat (map ids us))"
      "set (concat (map rids us)) \<inter> set v1 = {}" "set (concat (map ids us)) \<inter> set w1 = {}" using Cons.prems 1(2,3) by auto
    from Cons.IH [OF this] obtain v2 w2 where
      "check_walk s (map rid us @ S) v1 w1 = check_walk s S v2 w2" "set v2 = set v1 \<union> set (concat (map rids us))"
      "set w2 = set w1 \<union> set (concat (map ids us))" by blast
    then show ?case using 1 by (intro exI [of _ v2] exI [of _ w2]) auto
  qed
  have "distinct (concat (map rids ts))" "distinct (concat (map ids ts))" "set (concat (map rids ts)) \<inter> set (i # vr) = {}"
    "set (concat (map ids ts)) \<inter> set vw = {}" using TSplit.prems(2-5) by auto
  from many [OF subset_refl this] obtain v2 w2 where
    "check_walk s (map rid ts @ S) (i # vr) vw = check_walk s S v2 w2" "set v2 = set (i # vr) \<union> set (concat (map rids ts))"
    "set w2 = set vw \<union> set (concat (map ids ts))" by blast
  then show ?case using run by (intro exI [of _ v2] exI [of _ w2]) auto
qed

lemma build_checks_shape:
  assumes "shape (heap s) (wins s) t p" "rid t = root s" "distinct (rids t)" "distinct (ids t)"
    "dom (heap s) = set (rids t)" "dom (wins s) = set (ids t)"
  shows "build_checks s = Ok ()"
proof -
  from check_walk_shape [OF assms(1,3,4), of "[]" "[]" "[]"] assms(2) obtain vr vw where
    w: "check_walk s [root s] [] [] = Ok (vr, vw)" "set vr = dom (heap s)" "set vw = dom (wins s)" using assms(5,6) by auto
  have "fst e \<in> set vr" if "e \<in> set (iter_mut (regions s))" for e
    using that iter_mut_set [of "fst e" "snd e" "regions s"] w(2) by (auto simp: heap_def)
  moreover have "fst e \<in> set vw" if "e \<in> set (iter_mut (windows s))" for e
    using that iter_mut_set [of "fst e" "snd e" "windows s"] w(3) by (auto simp: wins_def)
  ultimately show ?thesis using w(1) by (simp add: build_checks_def iter_eq_iter_mut list_all_iff)
qed

section \<open>The active window\<close>

lemma act_after_miss: "(\<And>w. w \<in> set ws \<Longrightarrow> act \<noteq> Some w) \<Longrightarrow> act_after act ws ws' a = a"
proof (induction ws arbitrary: ws' a)
  case (Cons w ws)
  then show ?case by (cases ws') (simp_all add: act_after_def)
qed (simp add: act_after_def)

lemma act_after_hit: "distinct ws \<Longrightarrow> length ws' = length ws \<Longrightarrow> k < length ws \<Longrightarrow> act_after (Some (ws ! k)) ws ws' a = Some (ws' ! k)"
proof (induction ws arbitrary: ws' a k)
  case (Cons w ws)
  then obtain w' vs where ws': "ws' = w' # vs" by (cases ws') auto
  show ?case
  proof (cases k)
    case 0
    have "act_after (Some w) ws vs (Some w') = Some w'" by (rule act_after_miss) (use Cons.prems(1) in auto)
    then show ?thesis using 0 ws' by (simp add: act_after_Cons)
  next
    case (Suc m)
    then have "ws ! m \<noteq> w" using Cons.prems(1,3) by (metis distinct.simps(2) length_Cons not_less_eq nth_mem)
    then show ?thesis using Suc ws' Cons by (simp add: act_after_Cons)
  qed
qed simp

lemma act_after_iff:
  assumes "distinct ws" "distinct ws'" "length ws' = length ws" "k < length ws"
  shows "act_after act ws ws' None = Some (ws' ! k) \<longleftrightarrow> act = Some (ws ! k)"
proof (cases "\<exists>m < length ws. act = Some (ws ! m)")
  case True
  then obtain m where m: "m < length ws" "act = Some (ws ! m)" by blast
  then show ?thesis using act_after_hit [OF assms(1,3) m(1)] assms by (simp add: nth_eq_iff_index_eq)
next
  case False
  then have "act_after act ws ws' None = None" by (intro act_after_miss) (auto simp: in_set_conv_nth)
  then show ?thesis using False assms(4) by auto
qed

section \<open>The round trip\<close>

text \<open>The limits of the format, and the contract of the contents.\<close>

definition region_storable :: "Region \<Rightarrow> bool" where
  "region_storable r = (case content r of Split a cs \<Rightarrow> a \<le> 1 \<and> length cs \<le> 10000
     | Leaf l \<Rightarrow> selected (tabs_state l) < 2 ^ 64 \<and> length (tabs l) < 2 ^ 64)"

definition saves_back :: "(WindowType \<Rightarrow> 'c) \<Rightarrow> ('c \<Rightarrow> bytes eres) \<Rightarrow> ('c \<Rightarrow> 'c get) \<Rightarrow> ('c \<Rightarrow> 'c) \<Rightarrow> 'c Window \<Rightarrow> bool" where
  "saves_back create save load keep x \<longleftrightarrow> (\<exists>b. save (win_content x) = Ok b \<and>
     (\<forall>inp. load (create (type_of x)) (b @ inp) = Ok (keep (win_content x), inp)))"

definition saved :: "('c \<Rightarrow> bytes eres) \<Rightarrow> 'c \<Rightarrow> bytes" where
  "saved save c = (case save c of Ok b \<Rightarrow> b | _ \<Rightarrow> [])"

lemma shape_storable:
  assumes "sizes h" "\<And>i r. h i = Some r \<Longrightarrow> region_storable r" "shape h wm t p"
  shows "storable t"
  using assms(3)
proof (induction t arbitrary: p)
  case (TSplit i sz a ts)
  from TSplit.prems obtain r where r: "h i = Some r" "content r = Split a (map rid ts)" "relative_size r = sz" "ts \<noteq> []"
    by (auto split: option.splits)
  moreover have "sz \<le> 1000000" using assms(1) r(1,3) by (auto simp: sizes_def)
  moreover have "storable u" if "u \<in> set ts" for u using TSplit.IH [OF that shape_split(3) [OF TSplit.prems that]] .
  ultimately show ?case using assms(2) [OF r(1)] by (simp add: region_storable_def list_all_iff)
next
  case (TLeaf i sz sel ws)
  from TLeaf.prems obtain r l where r: "h i = Some r" "content r = Leaf l" "relative_size r = sz" "selected (tabs_state l) = sel" "tabs l = map fst ws"
    by (auto split: option.splits RegionContent.splits)
  moreover have "sz \<le> 1000000" using assms(1) r(1,3) by (auto simp: sizes_def)
  ultimately show ?case using assms(2) [OF r(1)] by (simp add: region_storable_def)
qed

lemma shape_entries:
  "shape h wm t p \<Longrightarrow> e \<in> set (entries t) \<Longrightarrow> \<exists>x. wm (fst e) = Some x \<and> type_of x = fst (snd e) \<and> win_content x = snd (snd e)"
proof (induction t arbitrary: p)
  case (TSplit i sz a ts)
  then obtain u where u: "u \<in> set ts" "e \<in> set (entries u)" by auto
  from TSplit.IH [OF u(1) shape_split(3) [OF TSplit.prems(1) u(1)] u(2)] show ?case .
next
  case (TLeaf i sz sel ws)
  then show ?case by (auto simp: list_all_iff tab_shape_def split: option.splits RegionContent.splits)
qed

lemma length_rids: "length (rids t) = Suc (nsub t)"
proof (induction t)
  case (TSplit i sz a ts)
  then have "length (concat (map rids ts)) = length ts + sum_list (map nsub ts)" by (induction ts) auto
  then show ?case by simp
qed simp

lemma layout_new_facts:
  assumes "layout_new = Ok s0"
  shows "heap s0 = [root s0 \<mapsto> default_region]" "wins s0 = Map.empty" "active_window s0 = None" "pools s0"
    "next_seqno (regions s0) = 2" "next_seqno (windows s0) = 1"
proof -
  from assms obtain i p where a: "add default_region pool_new = Ok (i, p)" and
    s: "s0 = \<lparr>windows = pool_new, active_window = None, regions = p, root = i\<rparr>"
    by (cases "add default_region pool_new") (auto simp: layout_new_def)
  show "heap s0 = [root s0 \<mapsto> default_region]" using try_get_add [OF pool_inv_new a] by (simp add: heap_def s try_get_new)
  show "wins s0 = Map.empty" by (simp add: wins_def s try_get_new)
  show "pools s0" using pool_inv_new pool_inv_add [OF pool_inv_new a] by (simp add: pools_def s)
  show "active_window s0 = None" "next_seqno (windows s0) = 1" by (simp_all add: s pool_new_def)
  show "next_seqno (regions s0) = 2" using add_cases [OF pool_inv_new a] by (simp add: s pool_new_def)
qed

text \<open>A tree that is written loads into a fresh layout.\<close>

lemma load_state_run:
  assumes new: "layout_new = Ok s0" and t: "storable t" "\<forall>e \<in> set (entries t). restores create load sc keep e"
    and small: "length (rids t) \<le> 1000000" "length (ids t) + 1 < 2 ^ 64"
  shows "\<exists>s' t'. load_state create load (s0, enc sc act t) = Some (Ok (), s', []) \<and> shape (heap s') (wins s') t' None \<and> rid t' = root s' \<and>
    look id t' = look keep t \<and> length (ids t') = length (ids t) \<and> distinct (ids t') \<and>
    active_window s' = act_after act (ids t) (ids t') None \<and> build_checks s' = Ok ()"
proof -
  note N = layout_new_facts [OF new]
  have "can_load (nsub t) (length (ids t)) s0" using N(4-6) small by (simp add: can_load_def length_rids)
  moreover have "heap s0 (root s0) = Some default_region" using N(1) by simp
  ultimately obtain s' where
    1: "load_walk create load (root s0 # []) (s0, enc sc act t @ []) = load_walk create load [] (s', [])"
      "reloaded act keep (parent default_region) [root s0] [t] s0 s'" using load_walk_run [OF t] by blast
  from 1(2) obtain ts hd wd where
    2: "map rid ts = [root s0]" "heap s' = heap s0 ++ hd" "dom hd \<inter> dom (heap s0) = set [root s0]" "dom hd = set (concat (map rids ts))"
      "distinct (concat (map rids ts))" "wins s' = wins s0 ++ wd" "dom wd \<inter> dom (wins s0) = {}" "dom wd = set (concat (map ids ts))"
      "distinct (concat (map ids ts))" "\<forall>t \<in> set ts. shape hd wd t (parent default_region)" "map (look id) ts = map (look keep) [t]"
      "length (concat (map ids ts)) = length (concat (map ids [t]))"
      "active_window s' = act_after act (concat (map ids [t])) (concat (map ids ts)) (active_window s0)"
    unfolding reloaded_def by (elim conjE exE) (rule that; assumption)
  from 2(1) obtain t' where ts: "ts = [t']" and r: "rid t' = root s0" by auto
  have "root s0 \<in> dom hd" using 2(3) by auto
  then have h: "heap s' = hd" unfolding 2(2) N(1) by (auto simp: map_add_def fun_eq_iff dom_def split: option.splits)
  have w: "wins s' = wd" using 2(6) N(2) by simp
  have root: "root s' = root s0" using 1(2) by (simp add: reloaded_def loads_def)
  have sh: "shape (heap s') (wins s') t' None" using 2(10) ts h w by (simp add: default_region_def)
  have "build_checks s' = Ok ()"
    by (rule build_checks_shape [OF sh]) (use 2(4,5,8,9) ts r root h w in simp_all)
  moreover have "load_state create load (s0, enc sc act t) = Some (Ok (), s', [])"
    using 1(1) by (simp add: load_state_def load_walk.simps [of _ _ "[]"])
  ultimately show ?thesis using sh r root 2(9,11-13) ts N(3) by (intro exI [of _ s'] exI [of _ t']) simp
qed

text \<open>
  (C40) A layout that the operations built, saved by \<open>save_state\<close> and loaded by \<open>load_state\<close> into a
  fresh start, comes back: the same tree of splits with the same sizes, the same tabs in the same
  order with the same one selected and what their contents keep, and the same window active; no byte
  is left over, and the assertions of \<open>build\<close> hold.
\<close>

theorem saved_layout_loads_back:
  assumes "layout_new = Ok s0" "halves fl" "ops_ok fl create ops s0" "do_ops fl create ops s0 = (Ok (), s)"
    "list_all (\<lambda>e. region_storable (snd e)) (iter_mut (regions s))"
    "list_all (\<lambda>e. saves_back create save load keep (snd e)) (iter_mut (windows s))" "length (slots (windows s)) + 1 < 2 ^ 64"
  shows "\<exists>t bs s' t'. shape (heap s) (wins s) t None \<and> rid t = root s \<and> save_state save s = Some (Ok bs) \<and>
    load_state create load (s0, bs) = Some (Ok (), s', []) \<and> shape (heap s') (wins s') t' None \<and> rid t' = root s' \<and>
    look id t' = look keep t \<and> length (ids t') = length (ids t) \<and>
    (\<forall>k < length (ids t). active_window s' = Some (ids t' ! k) \<longleftrightarrow> active_window s = Some (ids t ! k)) \<and> build_checks s' = Ok ()"
proof -
  let ?h = "heap s" and ?sc = "saved save"
  have "good s" using do_ops_run [OF layout_new_good [OF assms(1)] assms(2,3)] assms(4) by auto
  then have inv: "layout_inv s" by (simp add: good_def)
  then have wf: "wf_tree (dom ?h) (par ?h) (kids ?h) (root s)" and sz: "sizes ?h" and T: "tabs_inv ?h (wins s)" and few: "card (dom ?h) \<le> 1000000"
    by (simp_all add: layout_inv_def tree_ok_def tree_def)
  obtain t where t: "rid t = root s" "shape ?h (wins s) t None"
    using shape_exists [OF inv, of "root s"] wf_treeD(1,2) [OF wf] by auto
  have acyc: "(x, x) \<notin> (above (par ?h))\<^sup>+" if "x \<in> dom ?h" for x
    using climbs_no_cycle [OF wf_treeD(6) [OF wf that] wf_treeD(2) [OF wf]] .
  have dr: "distinct (rids t)" by (rule rids_distinct [OF acyc wf_treeD(4) [OF wf] t(2)])
  have di: "distinct (ids t)" by (rule ids_distinct [OF t(2) dr tabs_invD(1) [OF T]])
  have "region_storable r" if "?h i = Some r" for i r
    using assms(5) iter_mut_set [of i r "regions s"] that by (auto simp: list_all_iff heap_def)
  then have st: "storable t" by (rule shape_storable [OF sz _ t(2)])
  have sb: "saves_back create save load keep x" if "wins s w = Some x" for w x
    using assms(6) iter_mut_set [of w x "windows s"] that by (auto simp: list_all_iff wins_def)
  have e: "save (snd (snd e)) = Ok (?sc (snd (snd e)))" "restores create load ?sc keep e" if "e \<in> set (entries t)" for e
    using shape_entries [OF t(2) that] sb by (force simp: saves_back_def saved_def restores_def)+
  have len: "length (rids t) \<le> 1000000"
    using card_mono [OF finite_heap rids_dom [OF t(2)]] distinct_card [OF dr] few by simp
  have "set (ids t) \<subseteq> dom (wins s)" using ids_region [OF t(2)] by blast
  then have "length (ids t) \<le> card (dom (try_get (windows s)))"
    using card_mono [OF finite_try_get] distinct_card [OF di] by (metis wins_def)
  also have "\<dots> \<le> length (slots (windows s))" by (rule card_try_get)
  finally have wl: "length (ids t) + 1 < 2 ^ 64" using assms(7) by simp
  have save: "save_state save s = Some (Ok (enc ?sc (active_window s) t))"
    using save_walk_run [where save = save and sc = ?sc and rest = "[]" and out = "[]", OF t(2) e(1)] t(1) by (simp add: save_state_def save_walk.simps [of _ _ "[]"])
  from load_state_run [OF assms(1) st _ len wl, of create load ?sc keep "active_window s"] e(2) obtain s' t' where
    L: "load_state create load (s0, enc ?sc (active_window s) t) = Some (Ok (), s', [])" "shape (heap s') (wins s') t' None" "rid t' = root s'"
      "look id t' = look keep t" "length (ids t') = length (ids t)" "distinct (ids t')"
      "active_window s' = act_after (active_window s) (ids t) (ids t') None" "build_checks s' = Ok ()" by blast
  have "\<forall>k < length (ids t). active_window s' = Some (ids t' ! k) \<longleftrightarrow> active_window s = Some (ids t ! k)"
    using act_after_iff [OF di L(6,5)] L(7) by simp
  then show ?thesis using t save L(1-5,8) by blast
qed


theorem saved_layout_loads_back_witness:
  "\<exists>bs s'. save_state (\<lambda>c. Ok (write_u8 (word_of_nat c))) small_moved = Some (Ok bs) \<and>
    load_state (\<lambda>_. 0) (\<lambda>_. gbind read_u8 (\<lambda>b. gret (unat b))) (small_layout, bs) = Some (Ok (), s', []) \<and> build_checks s' = Ok ()"
proof -
  have ok: "ops_ok millionths (\<lambda>_. 0) (take 3 small_ops) small_layout" by (simp add: layout_eval small_ops_def)
  have r: "list_all (\<lambda>e. region_storable (snd e)) (iter_mut (regions small_moved))"
    by (simp add: small_moved_def layout_eval small_ops_def iter_mut_def region_storable_def)
  have "\<forall>e \<in> set (iter_mut (windows small_moved)). win_content (snd e) = 0"
    by (simp add: small_moved_def layout_eval small_ops_def iter_mut_def)
  then have w: "list_all (\<lambda>e. saves_back (\<lambda>_. 0) (\<lambda>c. Ok (write_u8 (word_of_nat c))) (\<lambda>_. gbind read_u8 (\<lambda>b. gret (unat b))) id (snd e))
      (iter_mut (windows small_moved))"
    by (simp add: list_all_iff saves_back_def u8_codec.then_get gret_def)
  have n: "length (slots (windows small_moved)) + 1 < 2 ^ 64" by (simp add: small_moved_def layout_eval small_ops_def)
  from saved_layout_loads_back [OF layout_new_small halves_millionths ok small_moved_run r w n] show ?thesis by blast
qed

section \<open>Sizes of zero\<close>

text \<open>
  \<open>load_state\<close> rejects a split with no children, which would fail an assertion later, but accepts
  regions of size zero. Removing a leaf of such a split, as a move of its last window does, panics.
\<close>

definition zero_tree :: "'c LTree" where
  "zero_tree = TSplit \<lparr>slot = 0, seqno = 1\<rparr> 1 0 [TLeaf \<lparr>slot = 1, seqno = 2\<rparr> 0 0 [], TLeaf \<lparr>slot = 2, seqno = 3\<rparr> 0 0 []]"

lemma look_zero_tree: "look id t = look id zero_tree \<Longrightarrow> \<exists>p c d. t = TSplit p 1 0 [TLeaf c 0 0 [], TLeaf d 0 0 []]"
proof (cases t)
  case (TSplit p sz a ts)
  assume "look id t = look id zero_tree"
  then have t: "sz = 1" "a = 0" "map (look id) ts = [LLeaf 0 0 [], LLeaf 0 0 []]" using TSplit by (simp_all add: zero_tree_def)
  then obtain u v where ts: "ts = [u, v]" "look id u = LLeaf 0 0 []" "look id v = LLeaf 0 0 []" by (auto simp: map_eq_Cons_conv)
  then obtain c d where "u = TLeaf c 0 0 []" "v = TLeaf d 0 0 []" by (cases u; cases v) auto
  then show ?thesis using TSplit t(1,2) ts(1) by auto
qed (simp add: zero_tree_def)

lemma loaded_zero_size_panics:
  fixes s0 :: "'c Layout" and sc :: "'c \<Rightarrow> bytes"
  assumes new: "layout_new = Ok s0"
  shows "\<exists>s' c. load_state create load (s0, enc sc None zero_tree) = Some (Ok (), s', []) \<and> build_checks s' = Ok () \<and>
    fst (remove_leaf c s') = Panic"
proof -
  let ?t = "zero_tree :: 'c LTree"
  have "storable ?t" "\<forall>e \<in> set (entries ?t). restores create load sc id e" "length (rids ?t) \<le> 1000000" "length (ids ?t) + 1 < 2 ^ 64"
    by (simp_all add: zero_tree_def)
  from load_state_run [OF new this, of None] obtain s' t' where
    L: "load_state create load (s0, enc sc None ?t) = Some (Ok (), s', [])" "shape (heap s') (wins s') t' None" "look id t' = look id ?t"
      "build_checks s' = Ok ()" by blast
  from look_zero_tree [OF L(3)] obtain p c d where t': "t' = TSplit p 1 0 [TLeaf c 0 0 [], TLeaf d 0 0 []]" by blast
  from L(2) obtain rp rc rd l where r: "heap s' p = Some rp" "content rp = Split 0 [c, d]" "heap s' c = Some rc" "parent rc = Some p"
    "content rc = Leaf l" "tabs l = []" "heap s' d = Some rd" "relative_size rd = 0" "content rd \<noteq> content rp"
    unfolding t' by (auto split: option.splits RegionContent.splits)
  let ?s = "put_region p (rp\<lparr>content := Split 0 [d]\<rparr>) s'"
  obtain s3 where s3: "remove_region c ?s = (Ok (heap ?s c), s3)" "heap s3 = (heap ?s)(c := None)" using remove_region_eq by blast
  have ne: "c \<noteq> p" "d \<noteq> p" using r by auto
  show ?thesis
  proof (intro exI conjI)
    have "sum_sizes [d] 0 s3 = (Ok 0, s3) \<or> fst (sum_sizes [d] 0 s3) = Panic"
      using r ne s3(2) by (simp add: get_region_eq slift_def usize_def sret_def)
    then show "fst (remove_leaf c s') = Panic"
      using r ne s3(1)
      by (auto simp: remove_leaf_def get_region_eq slift_def sret_def get_split_eq position_of_def remove_at_def update_children_def update_region_eq panics_def
          split: result.splits prod.splits)
  qed (use L in simp_all)
qed

end
