(* ===== verification/Breakpoints.thy ===== *)
theory Breakpoints
  imports Pool ProcMaps
begin

text \<open>
  Breakpoints as the user sees them (\<open>src/debugger.rs\<close>): what a breakpoint is on, its condition and
  whether it is enabled. The parsed form of a condition, which its text determines, is left out.
\<close>

datatype PointOfInterest = MainFunction | LibraryLoad | PanicPoint | ExceptionPoint

datatype FunctionLocator = FunctionLocator (fn_binary: BinaryLocator) (fn_mangled: bytes) (fn_demangled: bytes) (fn_addr: nat)

datatype BreakpointOn = Line bytes nat "nat option" | Instruction "(FunctionLocator \<times> nat) option" nat u16 | InitialExec
  | PointOfInterest PointOfInterest | Data nat nat bool

fun is_data :: "BreakpointOn \<Rightarrow> bool" where
  "is_data (Data a n r) = True"
| "is_data _ = False"

text \<open>The addresses are \<open>Err NotCalculated\<close> until the symbols have been asked.\<close>

record Breakpoint =
  bp_on :: BreakpointOn
  bp_condition :: "bytes option"
  bp_hits :: nat
  bp_addrs :: "((nat \<times> u16) list, ErrorCode) result"
  bp_enabled :: bool
  bp_active :: bool
  bp_hidden :: bool
  bp_builtin :: bool

definition breakpoint_new :: "BreakpointOn \<Rightarrow> Breakpoint" where
  "breakpoint_new b = \<lparr>bp_on = b, bp_condition = None, bp_hits = 0, bp_addrs = Err NotCalculated, bp_enabled = True,
     bp_active = False, bp_hidden = False, bp_builtin = False\<rparr>"

end
