(* ===== verification/BreakLoc.thy ===== *)
theory BreakLoc
  imports Breakpoints
begin

text \<open>
  Breakpoint locations of a local process (\<open>src/debugger.rs\<close>): addresses where an \<open>int3\<close> is written
  over the code or a debug register is set, the four hardware slots, and the debug registers of the
  threads. The process is a parameter, \<open>tracee_ops\<close>: reading and writing its memory and its debug
  registers are system calls.
\<close>

section \<open>The process\<close>

datatype SysError = ESRCH | EINVAL | OtherSys nat

record 'm tracee_ops =
  t_read8 :: "'m \<Rightarrow> nat \<Rightarrow> SysError + u8"
  t_read64 :: "'m \<Rightarrow> nat \<Rightarrow> SysError + u64"
  t_poketext :: "'m \<Rightarrow> nat \<Rightarrow> nat \<Rightarrow> u64 \<Rightarrow> (SysError + unit) \<times> 'm"
  t_pokeuser :: "'m \<Rightarrow> nat \<Rightarrow> nat \<Rightarrow> u64 \<Rightarrow> (SysError + unit) \<times> 'm"
  t_read :: "'m \<Rightarrow> nat \<Rightarrow> nat \<Rightarrow> SysError + bytes"
  t_interrupt :: "'m \<Rightarrow> nat \<Rightarrow> (SysError + unit) \<times> 'm"

datatype BpError = Sys SysError | OutOfHw | BadSize | RangeTooLong

section \<open>State\<close>

datatype StepBreakpointType = Call | JumpOut | AfterRet | AfterRange | Catch | Cursor u16

datatype BreakpointRef = StepRef StepBreakpointType | IdRef Id u16

record BreakpointLocation =
  addr :: nat
  original_byte :: u8
  hardware :: bool
  active :: bool
  refs :: "BreakpointRef list"
  error :: "BpError option"
  no_retry :: bool

record HardwareBreakpoint =
  h_active :: bool
  thread_specific :: "nat option"
  h_addr :: nat
  data_breakpoint_id :: "Id option"
  stop_on_read :: bool
  data_size :: nat
  pushed_to_threads :: bool

definition no_hardware :: HardwareBreakpoint where
  "no_hardware = \<lparr>h_active = False, thread_specific = None, h_addr = 0, data_breakpoint_id = None, stop_on_read = False,
     data_size = 0, pushed_to_threads = False\<rparr>"

record Thread =
  running :: bool
  exiting :: bool
  sent_interrupt :: bool
  rip :: "nat option"
  after_debug_trap :: bool
  ignore_next_hit_at :: "nat option"

datatype ProcessState = NoProcess | Starting | Exiting | Running | Suspended | FromCoreDump | Stepping

fun process_ready :: "ProcessState \<Rightarrow> bool" where
  "process_ready Running = True"
| "process_ready Suspended = True"
| "process_ready Stepping = True"
| "process_ready _ = False"

text \<open>Of the current step only its thread matters here. The order of the threads is that of a hash map.\<close>

record 'm Dbg =
  locations :: "BreakpointLocation list"
  hardware_breakpoints :: "HardwareBreakpoint list"
  breakpoints :: "Breakpoint Pool"
  threads :: "(nat \<times> Thread) list"
  stepping :: "nat option"
  pending_step :: "(nat \<times> BreakpointOn) option"
  target_state :: ProcessState
  stopping_to_handle_breakpoints :: bool
  stopped_until_symbols_are_loaded :: "nat option"
  any_live_tid :: nat
  tracee :: 'm

type_synonym ('m, 'a) dbg = "('m Dbg, 'a, BpError) sres"

definition panic :: "('s, 'a, 'e) sres" where
  "panic s = (Panic, s)"

definition sys_read :: "('m \<Rightarrow> SysError + 'a) \<Rightarrow> ('m, 'a) dbg" where
  "sys_read f s = (case f (tracee s) of Inr a \<Rightarrow> (Ok a, s) | Inl e \<Rightarrow> (Err (Sys e), s))"

definition sys_write :: "('m \<Rightarrow> (SysError + unit) \<times> 'm) \<Rightarrow> ('m, unit) dbg" where
  "sys_write f s = (case f (tracee s) of (Inr _, m) \<Rightarrow> (Ok (), s\<lparr>tracee := m\<rparr>) | (Inl e, m) \<Rightarrow> (Err (Sys e), s\<lparr>tracee := m\<rparr>))"

definition get_location :: "nat \<Rightarrow> ('m, BreakpointLocation) dbg" where
  "get_location i s = (if i < length (locations s) then (Ok (locations s ! i), s) else (Panic, s))"

definition update_location :: "nat \<Rightarrow> (BreakpointLocation \<Rightarrow> BreakpointLocation) \<Rightarrow> ('m, unit) dbg" where
  "update_location i f s = (if i < length (locations s) then (Ok (), s\<lparr>locations := (locations s)[i := f (locations s ! i)]\<rparr>) else (Panic, s))"

section \<open>Locations\<close>

definition add_breakpoint_location :: "'m tracee_ops \<Rightarrow> BreakpointRef \<Rightarrow> nat \<Rightarrow> 'm Dbg \<Rightarrow> 'm Dbg" where
  "add_breakpoint_location tg r a s =
     (let ls = locations s; i = partition_point (\<lambda>l. addr l < a) ls in
      if i < length ls \<and> addr (ls ! i) = a
      then s\<lparr>locations := ls[i := (ls ! i)\<lparr>refs := refs (ls ! i) @ [r]\<rparr>]\<rparr>
      else (let b = (case t_read8 tg (tracee s) a of Inr x \<Rightarrow> x | Inl _ \<Rightarrow> 0) in
        s\<lparr>locations := take i ls @ \<lparr>addr = a, original_byte = b, hardware = False, active = False, refs = [r], error = None,
          no_retry = False\<rparr> # drop i ls\<rparr>))"

definition find_breakpoint_location :: "nat \<Rightarrow> 'm Dbg \<Rightarrow> nat option" where
  "find_breakpoint_location a s =
     (let i = partition_point (\<lambda>l. addr l < a) (locations s)
      in if i < length (locations s) \<and> addr (locations s ! i) = a then Some i else None)"

definition any_running :: "'m Dbg \<Rightarrow> bool" where
  "any_running s = list_ex (\<lambda>(_, t). running t \<and> \<not> exiting t) (threads s)"

text \<open>\<open>word & !(0xff << bit_idx) | (byte << bit_idx)\<close>\<close>

definition put_byte :: "u64 \<Rightarrow> nat \<Rightarrow> u8 \<Rightarrow> u64" where
  "put_byte w i b = (w AND NOT (push_bit (8 * i) 0xff)) OR push_bit (8 * i) (ucast b)"

definition byte_of :: "u64 \<Rightarrow> nat \<Rightarrow> u8" where
  "byte_of w i = ucast (drop_bit (8 * i) w)"

definition free_slot :: "HardwareBreakpoint list \<Rightarrow> nat option" where
  "free_slot hs = (let i = length (takeWhile h_active hs) in if i < length hs then Some i else None)"

definition for_all_threads :: "BreakpointLocation \<Rightarrow> bool" where
  "for_all_threads l = list_ex (\<lambda>r. case r of StepRef _ \<Rightarrow> False | IdRef _ _ \<Rightarrow> True) (refs l)"

definition take_slot :: "BreakpointLocation \<Rightarrow> ('m, unit) dbg" where
  "take_slot l s = (if any_running s then (Panic, s)
     else (case free_slot (hardware_breakpoints s) of
        None \<Rightarrow> (Err OutOfHw, s)
      | Some k \<Rightarrow> (Ok (), s\<lparr>hardware_breakpoints := (hardware_breakpoints s)[k := no_hardware\<lparr>h_active := True,
          thread_specific := (if for_all_threads l then None else stepping s), h_addr := addr l\<rparr>]\<rparr>)))"

definition poke_int3 :: "'m tracee_ops \<Rightarrow> nat \<Rightarrow> nat \<Rightarrow> BreakpointLocation \<Rightarrow> ('m, unit) dbg" where
  "poke_int3 tg tid i l = (let k = addr l mod 8 in
     sbind (sys_read (\<lambda>m. t_read64 tg m (addr l - k))) (\<lambda>w.
     sbind (update_location i (\<lambda>l. l\<lparr>original_byte := byte_of w k\<rparr>)) (\<lambda>_.
     sys_write (\<lambda>m. t_poketext tg m tid (addr l - k) (put_byte w k 0xcc)))))"

definition activate_breakpoint_location :: "'m tracee_ops \<Rightarrow> nat \<Rightarrow> nat \<Rightarrow> ('m, unit) dbg" where
  "activate_breakpoint_location tg tid i = sbind (get_location i) (\<lambda>l. if active l then sret ()
     else sbind (if hardware l then take_slot l else poke_int3 tg tid i l) (\<lambda>_.
       update_location i (\<lambda>l. l\<lparr>active := True\<rparr>)))"

definition free_slots :: "nat \<Rightarrow> 'm Dbg \<Rightarrow> 'm Dbg" where
  "free_slots a s = s\<lparr>hardware_breakpoints := map (\<lambda>h. if h_active h \<and> h_addr h = a then no_hardware else h) (hardware_breakpoints s)\<rparr>"

text \<open>A process that is gone needs no restoring.\<close>

definition unless_gone :: "('m, unit) dbg \<Rightarrow> ('m, unit) dbg" where
  "unless_gone f s = (case f s of (Err (Sys ESRCH), s') \<Rightarrow> (Ok (), s') | r \<Rightarrow> r)"

definition restore_byte :: "'m tracee_ops \<Rightarrow> nat \<Rightarrow> nat \<Rightarrow> u8 \<Rightarrow> ('m, unit) dbg" where
  "restore_byte tg tid a b = (let k = a mod 8 in
     sbind (sys_read (\<lambda>m. t_read64 tg m (a - k))) (\<lambda>w. sys_write (\<lambda>m. t_poketext tg m tid (a - k) (put_byte w k b))))"

definition deactivate_breakpoint_location :: "'m tracee_ops \<Rightarrow> nat \<Rightarrow> nat \<Rightarrow> ('m, unit) dbg" where
  "deactivate_breakpoint_location tg tid i = sbind (get_location i) (\<lambda>l. if \<not> active l then sret ()
     else sbind (if hardware l then (\<lambda>s. (Ok (), free_slots (addr l) s)) else unless_gone (restore_byte tg tid (addr l) (original_byte l)))
       (\<lambda>_. update_location i (\<lambda>l. l\<lparr>active := False\<rparr>)))"

section \<open>Breakpoints and their locations\<close>

definition get_breakpoint :: "Id \<Rightarrow> ('m, Breakpoint) dbg" where
  "get_breakpoint i s = (case try_get (breakpoints s) i of Some b \<Rightarrow> (Ok b, s) | None \<Rightarrow> (Panic, s))"

definition put_breakpoint :: "Id \<Rightarrow> Breakpoint \<Rightarrow> 'm Dbg \<Rightarrow> 'm Dbg" where
  "put_breakpoint i b s = s\<lparr>breakpoints := snd (try_set i b (breakpoints s))\<rparr>"

definition drop_refs :: "(BreakpointRef \<Rightarrow> bool) \<Rightarrow> 'm Dbg \<Rightarrow> 'm Dbg" where
  "drop_refs p s = s\<lparr>locations := map (\<lambda>l. l\<lparr>refs := filter (\<lambda>r. \<not> p r) (refs l)\<rparr>) (locations s)\<rparr>"

definition refers_to :: "Id \<Rightarrow> BreakpointRef \<Rightarrow> bool" where
  "refers_to i r = (case r of IdRef j _ \<Rightarrow> j = i | StepRef _ \<Rightarrow> False)"

definition drop_watch :: "Id \<Rightarrow> 'm Dbg \<Rightarrow> 'm Dbg" where
  "drop_watch i s = s\<lparr>hardware_breakpoints :=
     map (\<lambda>h. if h_active h \<and> data_breakpoint_id h = Some i then no_hardware else h) (hardware_breakpoints s)\<rparr>"

definition deactivate_breakpoint :: "Id \<Rightarrow> ('m, unit) dbg" where
  "deactivate_breakpoint i = sbind (get_breakpoint i) (\<lambda>b. if \<not> bp_active b then sret ()
     else (\<lambda>s. (Ok (), drop_watch i (drop_refs (refers_to i) (put_breakpoint i (b\<lparr>bp_active := False\<rparr>) s)))))"

definition remove_breakpoint :: "Id \<Rightarrow> ('m, bool) dbg" where
  "remove_breakpoint i s = (if try_get (breakpoints s) i = None then (Ok False, s)
     else sbind (deactivate_breakpoint i) (\<lambda>_ s. (Ok True, s\<lparr>breakpoints := snd (remove i (breakpoints s))\<rparr>)) s)"

definition cancel_stepping :: "'m Dbg \<Rightarrow> 'm Dbg" where
  "cancel_stepping s = (if stepping s = None then s
     else (drop_refs (\<lambda>r. case r of StepRef _ \<Rightarrow> True | IdRef _ _ \<Rightarrow> False) s)\<lparr>stepping := None\<rparr>)\<lparr>pending_step := None\<rparr>"

text \<open>
  The body of the loop in \<open>activate_breakpoints\<close>. The symbols are a parameter: \<open>resolve\<close> fills in the
  addresses. The result tells whether locations or slots have changed and whether symbols are to be
  waited for.
\<close>

fun should_wait_for_symbols :: "BreakpointOn \<Rightarrow> bool" where
  "should_wait_for_symbols (Data a n r) = False"
| "should_wait_for_symbols InitialExec = False"
| "should_wait_for_symbols (PointOfInterest PanicPoint) = False"
| "should_wait_for_symbols _ = True"

definition add_locations :: "'m tracee_ops \<Rightarrow> Id \<Rightarrow> (nat \<times> u16) list \<Rightarrow> 'm Dbg \<Rightarrow> 'm Dbg" where
  "add_locations tg i as s = fold (\<lambda>(a, lv). add_breakpoint_location tg (IdRef i lv) a) as s"

definition activate_data :: "Id \<Rightarrow> Breakpoint \<Rightarrow> nat \<Rightarrow> nat \<Rightarrow> bool \<Rightarrow> ('m, bool \<times> bool) dbg" where
  "activate_data i b a n r s = (case free_slot (hardware_breakpoints s) of
      Some k \<Rightarrow> (Ok (True, False), put_breakpoint i (b\<lparr>bp_active := True, bp_addrs := Err NotCalculated\<rparr>)
        (s\<lparr>hardware_breakpoints := (hardware_breakpoints s)[k := no_hardware\<lparr>h_active := True, h_addr := a,
           data_breakpoint_id := Some i, stop_on_read := r, data_size := n\<rparr>]\<rparr>))
    | None \<Rightarrow> (Ok (False, False), put_breakpoint i (b\<lparr>bp_enabled := False, bp_addrs := Err OutOfHardwareBreakpoints\<rparr>) s))"

definition activate_code :: "'m tracee_ops \<Rightarrow> (Breakpoint \<Rightarrow> Breakpoint) \<Rightarrow> Id \<Rightarrow> Breakpoint \<Rightarrow> ('m, bool \<times> bool) dbg" where
  "activate_code tg resolve i b s = (let b = (if is_Ok (bp_addrs b) then b else resolve b) in
     case bp_addrs b of
       Ok as \<Rightarrow> if as = [] then (Panic, put_breakpoint i b s)
         else (Ok (True, False), add_locations tg i as (put_breakpoint i (b\<lparr>bp_active := True\<rparr>) s))
     | Err e \<Rightarrow> (Ok (False, e = Loading \<and> should_wait_for_symbols (bp_on b)), put_breakpoint i b s)
     | Panic \<Rightarrow> (Panic, s))"

definition activate_one :: "'m tracee_ops \<Rightarrow> (Breakpoint \<Rightarrow> Breakpoint) \<Rightarrow> Id \<Rightarrow> ('m, bool \<times> bool) dbg" where
  "activate_one tg resolve i = sbind (get_breakpoint i) (\<lambda>b. if \<not> bp_enabled b \<or> bp_active b then sret (False, False)
     else (case bp_on b of Data a n r \<Rightarrow> activate_data i b a n r | _ \<Rightarrow> activate_code tg resolve i b))"

section \<open>Debug registers\<close>

definition dr_values :: "HardwareBreakpoint \<Rightarrow> nat \<Rightarrow> nat \<Rightarrow> ((nat \<times> u64) option, BpError) result" where
  "dr_values h i tid =
     (if \<not> h_active h \<or> (case thread_specific h of Some t \<Rightarrow> t \<noteq> tid | None \<Rightarrow> False) then Ok None
      else if data_breakpoint_id h = None then Ok (Some (h_addr h, push_bit (i * 2) 1))
      else rbind (if data_size h = 1 then Ok 0 else if data_size h = 2 then Ok 1 else if data_size h = 4 then Ok 3
                  else if data_size h = 8 then Ok 2 else Panic) (\<lambda>code.
        Ok (Some (h_addr h, push_bit (i * 2) 1 OR push_bit (16 + i * 4) (if stop_on_read h then 3 else 1) OR push_bit (18 + i * 4) code))))"

definition dr7_common :: u64 where
  "dr7_common = push_bit 10 1"

definition slot_values :: "nat \<Rightarrow> nat \<Rightarrow> ('m, (nat \<times> u64) option) dbg" where
  "slot_values i tid s = (if i < length (hardware_breakpoints s) then (dr_values (hardware_breakpoints s ! i) i tid, s) else (Panic, s))"

fun write_addresses :: "'m tracee_ops \<Rightarrow> nat \<Rightarrow> nat list \<Rightarrow> u64 \<Rightarrow> ('m, u64) dbg" where
  "write_addresses tg tid [] dr7 = sret dr7"
| "write_addresses tg tid (i # is) dr7 = sbind (slot_values i tid) (\<lambda>v. case v of
      None \<Rightarrow> write_addresses tg tid is dr7
    | Some (a, d7) \<Rightarrow> sbind (sys_write (\<lambda>m. t_pokeuser tg m tid i (word_of_nat a))) (\<lambda>_. write_addresses tg tid is (dr7 OR d7)))"

text \<open>A slot that the kernel refuses: its breakpoint or location is given up.\<close>

definition give_up :: "'m tracee_ops \<Rightarrow> nat \<Rightarrow> nat \<Rightarrow> ('m, unit) dbg" where
  "give_up tg tid i s = (let h = hardware_breakpoints s ! i in
     case data_breakpoint_id h of
       Some b \<Rightarrow> sbind (deactivate_breakpoint b) (\<lambda>_. sbind (get_breakpoint b) (\<lambda>x s. (Ok (), put_breakpoint b (x\<lparr>bp_addrs := Err IO\<rparr>) s))) s
     | None \<Rightarrow> (case find_breakpoint_location (h_addr h) s of
         None \<Rightarrow> (Panic, s)
       | Some k \<Rightarrow> if \<not> hardware (locations s ! k) then (Panic, s)
           else (case deactivate_breakpoint_location tg tid k s of
               (Ok _, s') \<Rightarrow> update_location k (\<lambda>l. l\<lparr>error := Some (Sys EINVAL), no_retry := True\<rparr>) s'
             | (_, s') \<Rightarrow> (Panic, s'))))"

text \<open>One at a time: the slots that work, with the last value of \<open>dr7\<close> that was written; \<open>err\<close> is \<open>error.is_some()\<close>.\<close>

fun try_slots :: "'m tracee_ops \<Rightarrow> nat \<Rightarrow> nat list \<Rightarrow> u64 \<Rightarrow> bool \<Rightarrow> u64 \<Rightarrow> u64 \<Rightarrow> ('m, u64 \<times> u64) dbg" where
  "try_slots tg tid [] dr7 err new assigned = sret (new, assigned)"
| "try_slots tg tid (i # is) dr7 err new assigned = sbind (slot_values i tid) (\<lambda>v. case v of
      None \<Rightarrow> try_slots tg tid is dr7 err new assigned
    | Some (a, d7) \<Rightarrow> (let single = d7 OR dr7_common;
          refused = sbind (give_up tg tid i) (\<lambda>_ s. if h_active (hardware_breakpoints s ! i) then (Panic, s)
            else try_slots tg tid is dr7 False new assigned s)
        in if single = dr7 then if err then refused else panic
           else (\<lambda>s. case sys_write (\<lambda>m. t_pokeuser tg m tid 7 single) s of
               (Ok _, s') \<Rightarrow> try_slots tg tid is dr7 err (new OR d7) single s'
             | (Err (Sys EINVAL), s') \<Rightarrow> refused s'
             | (Err e, s') \<Rightarrow> (Err e, s')
             | (Panic, s') \<Rightarrow> (Panic, s'))))"

text \<open>\<open>n\<close> is what is left of the six attempts.\<close>

fun write_dr7 :: "'m tracee_ops \<Rightarrow> nat \<Rightarrow> nat \<Rightarrow> u64 \<Rightarrow> u64 \<Rightarrow> ('m, unit) dbg" where
  "write_dr7 tg tid 0 dr7 assigned s = (Panic, s)"
| "write_dr7 tg tid (Suc n) dr7 assigned s =
     (if dr7 = assigned then (Ok (), s)
      else (case sys_write (\<lambda>m. t_pokeuser tg m tid 7 dr7) s of
          (Ok _, s') \<Rightarrow> (Ok (), s')
        | (Err (Sys EINVAL), s') \<Rightarrow> if n = 0 then (Err (Sys EINVAL), s')
            else sbind (try_slots tg tid [0..<4] dr7 True dr7_common assigned) (\<lambda>(new, assigned). write_dr7 tg tid n new assigned) s'
        | (Err e, s') \<Rightarrow> (Err e, s')
        | (Panic, s') \<Rightarrow> (Panic, s')))"

definition set_debug_registers_for_thread_impl :: "'m tracee_ops \<Rightarrow> nat \<Rightarrow> ('m, unit) dbg" where
  "set_debug_registers_for_thread_impl tg tid =
     sbind (sys_write (\<lambda>m. t_pokeuser tg m tid 7 dr7_common)) (\<lambda>_.
     sbind (write_addresses tg tid [0..<4] dr7_common) (\<lambda>dr7. write_dr7 tg tid 6 dr7 dr7_common))"

definition set_debug_registers_for_thread :: "'m tracee_ops \<Rightarrow> nat \<Rightarrow> ('m, unit) dbg" where
  "set_debug_registers_for_thread tg tid = unless_gone (set_debug_registers_for_thread_impl tg tid)"

section \<open>\<open>handle_breakpoints\<close>\<close>

definition swap_locations :: "nat \<Rightarrow> nat \<Rightarrow> ('m, unit) dbg" where
  "swap_locations i j s = (let ls = locations s in
     if i < length ls \<and> j < length ls then (Ok (), s\<lparr>locations := ls[i := ls ! j, j := ls ! i]\<rparr>) else (Panic, s))"

text \<open>Locations of removed breakpoints go; the others move to the front. The result is their number.\<close>

fun sweep :: "'m tracee_ops \<Rightarrow> nat list \<Rightarrow> nat \<Rightarrow> ('m, nat) dbg" where
  "sweep tg [] res = sret res"
| "sweep tg (i # is) res = sbind (get_location i) (\<lambda>l. if refs l = []
     then (\<lambda>s. sbind (deactivate_breakpoint_location tg (any_live_tid s) i) (\<lambda>_. sweep tg is res) s)
     else sbind (swap_locations res i) (\<lambda>_. sweep tg is (Suc res)))"

definition remove_stale :: "'m tracee_ops \<Rightarrow> ('m, unit) dbg" where
  "remove_stale tg s = sbind (sweep tg [0..<length (locations s)] 0) (\<lambda>n s. (Ok (), s\<lparr>locations := take n (locations s)\<rparr>)) s"

text \<open>The threads that stand at an address; those just after an \<open>int3\<close> of the program count, but are not listed.\<close>

definition thread_addresses :: "(nat \<times> Thread) list \<Rightarrow> nat \<Rightarrow> nat list option" where
  "thread_addresses ts a = (let here = filter (\<lambda>(_, t). rip t = Some a) ts in
     if here = [] then None else Some (map fst (filter (\<lambda>(_, t). \<not> after_debug_trap t) here)))"

definition ignore_next :: "nat \<Rightarrow> nat list \<Rightarrow> 'm Dbg \<Rightarrow> 'm Dbg" where
  "ignore_next a tids s = s\<lparr>threads := map (\<lambda>(tid, t). (tid, if tid \<in> set tids then t\<lparr>ignore_next_hit_at := Some a\<rparr> else t)) (threads s)\<rparr>"

definition convert :: "'m tracee_ops \<Rightarrow> (nat \<Rightarrow> nat list option) \<Rightarrow> nat \<Rightarrow> ('m, unit) dbg" where
  "convert tg ta i = sbind (get_location i) (\<lambda>l. case ta (addr l) of
      None \<Rightarrow> if hardware l then (\<lambda>s. sbind (deactivate_breakpoint_location tg (any_live_tid s) i) (\<lambda>_. update_location i (\<lambda>l. l\<lparr>hardware := False\<rparr>)) s)
        else sret ()
    | Some tids \<Rightarrow> if hardware l then sret ()
        else (\<lambda>s. sbind (deactivate_breakpoint_location tg (any_live_tid s) i) (\<lambda>_.
          sbind (update_location i (\<lambda>l. l\<lparr>hardware := True\<rparr>)) (\<lambda>_ s. (Ok (), ignore_next (addr l) tids s))) s))"

definition try_activate :: "'m tracee_ops \<Rightarrow> nat \<Rightarrow> ('m, unit) dbg" where
  "try_activate tg i = sbind (get_location i) (\<lambda>l. if no_retry l then sret ()
     else (\<lambda>s. case activate_breakpoint_location tg (any_live_tid s) i s of
         (Ok _, s') \<Rightarrow> update_location i (\<lambda>l. l\<lparr>error := None\<rparr>) s'
       | (Err e, s') \<Rightarrow> update_location i (\<lambda>l. l\<lparr>error := Some e\<rparr>) s'
       | (Panic, s') \<Rightarrow> (Panic, s')))"

fun for_each :: "('a \<Rightarrow> ('s, unit, 'e) sres) \<Rightarrow> 'a list \<Rightarrow> ('s, unit, 'e) sres" where
  "for_each f [] = sret ()"
| "for_each f (x # xs) = sbind (f x) (\<lambda>_. for_each f xs)"

definition push_registers :: "'m tracee_ops \<Rightarrow> ('m, unit) dbg" where
  "push_registers tg s = (if list_ex (\<lambda>h. h_active h \<and> \<not> pushed_to_threads h) (hardware_breakpoints s)
     then sbind (for_each (set_debug_registers_for_thread tg) (map fst (filter (\<lambda>(_, t). \<not> exiting t) (threads s))))
       (\<lambda>_ s. (Ok (), s\<lparr>hardware_breakpoints := map (\<lambda>h. h\<lparr>pushed_to_threads := True\<rparr>) (hardware_breakpoints s)\<rparr>)) s
     else (Ok (), s))"

definition on_each :: "(nat \<Rightarrow> ('m, unit) dbg) \<Rightarrow> ('m, unit) dbg" where
  "on_each f s = for_each f [0..<length (locations s)] s"

definition handle_breakpoints :: "'m tracee_ops \<Rightarrow> ('m, unit) dbg" where
  "handle_breakpoints tg = sbind (remove_stale tg) (\<lambda>_ s.
     sbind (on_each (convert tg (thread_addresses (threads s)))) (\<lambda>_.
     sbind (on_each (try_activate tg)) (\<lambda>_. push_registers tg)) s)"

end
