(* ===== verification/BreakInv.thy ===== *)
theory BreakInv
  imports BreakLoc
begin

text \<open>
  What the breakpoint locations guarantee: the code of the process is as it was except for an
  \<open>int3\<close> at each active software location, the locations are sorted, hardware slots belong to live
  breakpoints, and \<open>handle_breakpoints\<close> does not panic.
\<close>

section \<open>Bytes of a word\<close>

lemma bit_byte_of: "bit (byte_of w j) n \<longleftrightarrow> n < 8 \<and> bit w (8 * j + n)"
  by (auto simp: byte_of_def bit_simps)

lemma bit_ff: "bit (0xff :: u64) n \<longleftrightarrow> n < 8"
proof -
  have "(0xff :: u64) = mask 8" by (simp add: mask_eq_exp_minus_1)
  then have "bit (0xff :: u64) n = bit (mask 8 :: u64) n" by (simp only:)
  also have "\<dots> \<longleftrightarrow> n < 8" by (simp only: bit_mask_iff) auto
  finally show ?thesis .
qed

lemma bit_put_byte:
  "n < 64 \<Longrightarrow> i < 8 \<Longrightarrow> bit (put_byte w i b) n = (if 8 * i \<le> n \<and> n < 8 * i + 8 then bit b (n - 8 * i) else bit w n)"
  using bit_imp_le_length [of b "n - 8 * i"]
  by (auto simp: put_byte_def bit_or_iff bit_and_iff bit_not_iff bit_push_bit_iff bit_ff bit_ucast_iff simp del: bit_numeral_word_iff)

lemma byte_of_put_byte:
  assumes "i < 8" "j < 8"
  shows "byte_of (put_byte w i b) j = (if j = i then b else byte_of w j)"
proof (rule bit_eqI)
  fix n assume "possible_bit TYPE(8 word) n"
  then have n: "n < 8" by simp
  have "8 * i \<le> 8 * j + n \<and> 8 * j + n < 8 * i + 8 \<longleftrightarrow> j = i" using n by linarith
  then show "bit (byte_of (put_byte w i b) j) n = bit (if j = i then b else byte_of w j) n"
    using n assms by (auto simp: bit_byte_of bit_put_byte)
qed

section \<open>The process\<close>

text \<open>
  What the system calls promise: a word is read as its eight bytes, a successful write replaces
  them, a failed one nothing, debug registers are not memory, a range is read as its bytes, and
  asking a thread to stop does not write. \<open>mem\<close> is the memory.
\<close>

definition tracee_laws :: "'m tracee_ops \<Rightarrow> ('m \<Rightarrow> nat \<Rightarrow> u8) \<Rightarrow> bool" where
  "tracee_laws tg mem \<longleftrightarrow>
     (\<forall>m a w. t_read64 tg m a = Inr w \<longrightarrow> (\<forall>i < 8. byte_of w i = mem m (a + i))) \<and>
     (\<forall>m t a w m'. t_poketext tg m t a w = (Inr (), m') \<longrightarrow> mem m' = (\<lambda>x. if a \<le> x \<and> x < a + 8 then byte_of w (x - a) else mem m x)) \<and>
     (\<forall>m t a w e m'. t_poketext tg m t a w = (Inl e, m') \<longrightarrow> mem m' = mem m) \<and>
     (\<forall>m t i v. mem (snd (t_pokeuser tg m t i v)) = mem m) \<and>
     (\<forall>m a n bs. t_read tg m a n = Inr bs \<longrightarrow> bs = map (mem m) [a..<a + n]) \<and>
     (\<forall>m t. mem (snd (t_interrupt tg m t)) = mem m)"

text \<open>The process has not gone.\<close>

definition alive :: "'m tracee_ops \<Rightarrow> bool" where
  "alive tg \<longleftrightarrow> (\<forall>m a. t_read64 tg m a \<noteq> Inl ESRCH) \<and> (\<forall>m t a w. fst (t_poketext tg m t a w) \<noteq> Inl ESRCH)"

lemma lawsD:
  assumes "tracee_laws tg mem"
  shows "t_read64 tg m a = Inr w \<Longrightarrow> i < 8 \<Longrightarrow> byte_of w i = mem m (a + i)"
    "t_poketext tg m t a w = (Inr (), m') \<Longrightarrow> mem m' = (\<lambda>x. if a \<le> x \<and> x < a + 8 then byte_of w (x - a) else mem m x)"
    "t_poketext tg m t a w = (Inl e, m') \<Longrightarrow> mem m' = mem m"
    "mem (snd (t_pokeuser tg m t i v)) = mem m"
    "t_read tg m a n = Inr bs \<Longrightarrow> bs = map (mem m) [a..<a + n]"
    "mem (snd (t_interrupt tg m t)) = mem m"
  using assms unfolding tracee_laws_def by (elim conjE, simp)+

text \<open>Reading a word, changing one byte and writing it back changes that byte of the memory.\<close>

lemma poke_byte:
  assumes laws: "tracee_laws tg mem" and r: "t_read64 tg m (a - a mod 8) = Inr w"
    and p: "t_poketext tg m t (a - a mod 8) (put_byte w (a mod 8) b) = (Inr (), m')"
  shows "mem m' = (mem m)(a := b)"
proof
  fix x
  define base where "base = a - a mod 8"
  have k: "a mod 8 < 8" "a = base + a mod 8" by (simp_all add: base_def)
  show "mem m' x = ((mem m)(a := b)) x"
  proof (cases "base \<le> x \<and> x < base + 8")
    case True
    define j where "j = x - base"
    have j: "j < 8" "x = base + j" using True by (auto simp: j_def)
    have "mem m' x = byte_of (put_byte w (a mod 8) b) j"
      using lawsD(2) [OF laws p] True by (simp add: base_def j_def)
    also have "\<dots> = (if j = a mod 8 then b else byte_of w j)" by (rule byte_of_put_byte [OF k(1) j(1)])
    also have "byte_of w j = mem m x" using lawsD(1) [OF laws r j(1)] j(2) by (simp only: base_def)
    also have "j = a mod 8 \<longleftrightarrow> x = a" using k(2) j(2) by linarith
    finally show ?thesis by simp
  next
    case False
    then have "x \<noteq> a" using k by linarith
    have "mem m' x = mem m x" using False lawsD(2) [OF laws p] by (simp only: base_def if_False)
    with \<open>x \<noteq> a\<close> show ?thesis by simp
  qed
qed

section \<open>Runs\<close>

text \<open>\<open>f\<close> does not panic in \<open>s\<close>, and what it returns satisfies \<open>Q\<close>, or \<open>E\<close> when it is an error.\<close>

definition runs :: "('s, 'a, 'e) sres \<Rightarrow> 's \<Rightarrow> ('a \<Rightarrow> 's \<Rightarrow> bool) \<Rightarrow> ('s \<Rightarrow> bool) \<Rightarrow> bool" where
  "runs f s Q E \<longleftrightarrow> (case f s of (Ok a, s') \<Rightarrow> Q a s' | (Err e, s') \<Rightarrow> E s' | (Panic, s') \<Rightarrow> False)"

lemma runs_bind: "runs (sbind f k) s Q E \<longleftrightarrow> runs f s (\<lambda>a s'. runs (k a) s' Q E) E"
  by (auto simp: runs_def split: prod.splits result.splits)

declare sbind.simps [simp del]

lemma runs_mono: "runs f s Q E \<Longrightarrow> (\<And>a s'. Q a s' \<Longrightarrow> Q' a s') \<Longrightarrow> (\<And>s'. E s' \<Longrightarrow> E' s') \<Longrightarrow> runs f s Q' E'"
  by (auto simp: runs_def split: prod.splits result.splits)

lemma runs_Ok: "runs f s Q E \<Longrightarrow> f s = (Ok a, s') \<Longrightarrow> Q a s'"
  by (simp add: runs_def)

lemma runs_Err: "runs f s Q E \<Longrightarrow> f s = (Err e, s') \<Longrightarrow> E s'"
  by (simp add: runs_def)

lemma runs_no_panic: "runs f s Q E \<Longrightarrow> fst (f s) \<noteq> Panic"
  by (auto simp: runs_def split: prod.splits)

lemma runs_with: "runs (\<lambda>s. sbind (f s) (k s) s) s Q E \<longleftrightarrow> runs (f s) s (\<lambda>a s'. runs (k s a) s' Q E) E"
  unfolding runs_bind [symmetric] by (simp add: runs_def)

lemma runs_sret [simp]: "runs (sret a) s Q E \<longleftrightarrow> Q a s"
  by (simp add: runs_def sret_def)

lemma runs_get [simp]: "i < length (locations s) \<Longrightarrow> runs (get_location i) s Q E \<longleftrightarrow> Q (locations s ! i) s"
  by (simp add: runs_def get_location_def)

lemma runs_update [simp]: "i < length (locations s) \<Longrightarrow>
    runs (update_location i f) s Q E \<longleftrightarrow> Q () (s\<lparr>locations := (locations s)[i := f (locations s ! i)]\<rparr>)"
  by (simp add: runs_def update_location_def)

lemma runs_sys_read: "runs (sys_read f) s Q E \<longleftrightarrow> (case f (tracee s) of Inr a \<Rightarrow> Q a s | Inl e \<Rightarrow> E s)"
  by (auto simp: runs_def sys_read_def split: sum.splits)

lemma runs_sys_write: "runs (sys_write f) s Q E \<longleftrightarrow>
    (case f (tracee s) of (Inr _, m) \<Rightarrow> Q () (s\<lparr>tracee := m\<rparr>) | (Inl e, m) \<Rightarrow> E (s\<lparr>tracee := m\<rparr>))"
  by (auto simp: runs_def sys_write_def split: sum.splits prod.splits)

text \<open>A loop keeps what each round keeps and collects what each round leaves behind.\<close>

lemma runs_for_each:
  assumes "I s" and "\<And>x s. x \<in> set xs \<Longrightarrow> I s \<Longrightarrow> runs (f x) s (\<lambda>_. I) E"
  shows "runs (for_each f xs) s (\<lambda>_. I) E"
  using assms
proof (induction xs arbitrary: s)
  case (Cons x xs)
  have "runs (f x) s (\<lambda>_. I) E" using Cons.prems by simp
  moreover have "\<And>s. I s \<Longrightarrow> runs (for_each f xs) s (\<lambda>_. I) E" using Cons.prems by (intro Cons.IH) simp_all
  ultimately show ?case by (auto simp: runs_bind elim: runs_mono)
qed simp

lemma runs_for_upto:
  assumes "I 0 s" and "\<And>i s. i < n \<Longrightarrow> I i s \<Longrightarrow> runs (f i) s (\<lambda>_. I (Suc i)) E"
  shows "runs (for_each f [0..<n]) s (\<lambda>_. I n) E"
proof -
  have "k \<le> n \<Longrightarrow> I k s \<Longrightarrow> runs (for_each f [k..<n]) s (\<lambda>_. I n) E" for k s
  proof (induction "n - k" arbitrary: k s)
    case (Suc m)
    then have k: "[k..<n] = k # [Suc k..<n]" "k < n" by (auto simp: upt_conv_Cons)
    have "runs (f k) s (\<lambda>_. I (Suc k)) E" using assms(2) Suc.prems k(2) by blast
    moreover have "\<And>s. I (Suc k) s \<Longrightarrow> runs (for_each f [Suc k..<n]) s (\<lambda>_. I n) E"
      using Suc.hyps(2) k(2) by (intro Suc.hyps(1)) auto
    ultimately show ?case by (auto simp: k(1) runs_bind elim: runs_mono)
  qed simp
  then show ?thesis using assms(1) by blast
qed

section \<open>The invariant\<close>

definition soft :: "BreakpointLocation \<Rightarrow> bool" where
  "soft l \<longleftrightarrow> active l \<and> \<not> hardware l"

text \<open>The code with an \<open>int3\<close> at every active software location.\<close>

definition patched :: "(nat \<Rightarrow> u8) \<Rightarrow> BreakpointLocation list \<Rightarrow> nat \<Rightarrow> u8" where
  "patched code ls x = (if list_ex (\<lambda>l. soft l \<and> addr l = x) ls then 0xcc else code x)"

text \<open>\<open>text\<close> are the addresses of the program's code, which the process itself does not write to.\<close>

definition text_ok :: "(nat \<Rightarrow> u8) \<Rightarrow> nat set \<Rightarrow> (nat \<Rightarrow> u8) \<Rightarrow> BreakpointLocation list \<Rightarrow> bool" where
  "text_ok memory text code ls \<longleftrightarrow> (\<forall>x\<in>text. memory x = patched code ls x)
     \<and> (\<forall>l\<in>set ls. soft l \<longrightarrow> addr l \<in> text \<longrightarrow> original_byte l = code (addr l))"

definition retry_ok :: "BreakpointLocation list \<Rightarrow> bool" where
  "retry_ok ls \<longleftrightarrow> (\<forall>l\<in>set ls. no_retry l \<longrightarrow> \<not> active l \<and> error l \<noteq> None)"

fun size_ok :: "BreakpointOn \<Rightarrow> bool" where
  "size_ok (Data a n r) = (n \<in> {1, 2, 4, 8})"
| "size_ok _ = True"

text \<open>A breakpoint never has an empty list of addresses.\<close>

definition bp_ok :: "Breakpoint \<Rightarrow> bool" where
  "bp_ok b \<longleftrightarrow> size_ok (bp_on b) \<and> bp_addrs b \<noteq> Ok [] \<and> bp_addrs b \<noteq> Panic"

text \<open>An active slot belongs to an active hardware location or to an active data breakpoint.\<close>

definition slot_ok :: "BreakpointLocation list \<Rightarrow> Breakpoint Pool \<Rightarrow> HardwareBreakpoint \<Rightarrow> bool" where
  "slot_ok ls p h \<longleftrightarrow> (h_active h \<longrightarrow> (case data_breakpoint_id h of
      None \<Rightarrow> (\<exists>l\<in>set ls. addr l = h_addr h \<and> hardware l \<and> active l)
    | Some i \<Rightarrow> data_size h \<in> {1, 2, 4, 8} \<and> (\<exists>b. try_get p i = Some b \<and> bp_active b)))"

lemma slot_okE:
  assumes "slot_ok ls p h" "h_active h" "data_breakpoint_id h = None"
  obtains l where "l \<in> set ls" "addr l = h_addr h" "hardware l" "active l"
  using assms by (auto simp: slot_ok_def)

definition pool_ok :: "Breakpoint Pool \<Rightarrow> bool" where
  "pool_ok p \<longleftrightarrow> pool_inv p \<and> (\<forall>i b. try_get p i = Some b \<longrightarrow> bp_ok b)"

definition bp_inv :: "('m \<Rightarrow> nat \<Rightarrow> u8) \<Rightarrow> nat set \<Rightarrow> (nat \<Rightarrow> u8) \<Rightarrow> 'm Dbg \<Rightarrow> bool" where
  "bp_inv mem text code s \<longleftrightarrow> distinct (map addr (locations s)) \<and> text_ok (mem (tracee s)) text code (locations s)
     \<and> retry_ok (locations s) \<and> length (hardware_breakpoints s) = 4
     \<and> (\<forall>h\<in>set (hardware_breakpoints s). slot_ok (locations s) (breakpoints s) h) \<and> pool_ok (breakpoints s)"

lemma slot_ok_inactive [simp]: "\<not> h_active h \<Longrightarrow> slot_ok ls p h" and no_hardware_inactive [simp]: "\<not> h_active no_hardware"
  by (simp_all add: slot_ok_def no_hardware_def)

subsection \<open>Changing one location\<close>

lemma in_update:
  assumes "distinct (map addr ls)" "i < length ls" "addr l' = addr (ls ! i)"
  shows "l \<in> set (ls[i := l']) \<longleftrightarrow> l = l' \<or> l \<in> set ls \<and> addr l \<noteq> addr l'"
proof -
  have "set (ls[i := l']) = insert l' (set ls - {ls ! i})"
    using set_update_distinct [of ls i l'] assms(1,2) by (simp add: distinct_map)
  moreover have "l \<in> set ls \<Longrightarrow> l = ls ! i \<longleftrightarrow> addr l = addr (ls ! i)"
    using inj_on_eq_iff [of addr "set ls" l "ls ! i"] assms(1) nth_mem [OF assms(2)] by (simp add: distinct_map)
  ultimately show ?thesis using assms(3) by (simp, blast)
qed

lemma map_addr_update: "i < length ls \<Longrightarrow> addr l' = addr (ls ! i) \<Longrightarrow> map addr (ls[i := l']) = map addr ls"
  using list_update_id [of "map addr ls" i] by (simp add: map_update)

lemma patched_update:
  assumes "distinct (map addr ls)" "i < length ls" "addr l' = addr (ls ! i)"
  shows "patched code (ls[i := l']) x = (if x = addr l' then if soft l' then 0xcc else code x else patched code ls x)"
proof -
  have "(\<exists>l\<in>set (ls[i := l']). soft l \<and> addr l = x) \<longleftrightarrow> (if x = addr l' then soft l' else \<exists>l\<in>set ls. soft l \<and> addr l = x)"
  proof (cases "x = addr l'")
    case True
    then show ?thesis unfolding Bex_def in_update [OF assms] by auto
  next
    case False
    then show ?thesis unfolding Bex_def in_update [OF assms] by auto
  qed
  then show ?thesis by (simp add: patched_def list_ex_iff)
qed

lemma text_ok_update:
  assumes "distinct (map addr ls)" "i < length ls" "addr l' = addr (ls ! i)" and "text_ok M text code ls"
    and "\<forall>x\<in>text. M' x = (if x = addr l' then if soft l' then 0xcc else code x else M x)"
    and "soft l' \<Longrightarrow> addr l' \<in> text \<Longrightarrow> original_byte l' = code (addr l')"
  shows "text_ok M' text code (ls[i := l'])"
  using assms(4-6) by (auto simp: text_ok_def patched_update [OF assms(1-3)] in_update [OF assms(1-3)])

lemma retry_ok_update: "retry_ok ls \<Longrightarrow> (no_retry l' \<longrightarrow> \<not> active l' \<and> error l' \<noteq> None) \<Longrightarrow> retry_ok (ls[i := l'])"
  using set_update_subset_insert [of ls i l'] by (auto simp: retry_ok_def)

lemma slot_ok_update:
  assumes "distinct (map addr ls)" "i < length ls" "addr l' = addr (ls ! i)" "slot_ok ls p h"
    and "h_active h \<Longrightarrow> data_breakpoint_id h = None \<Longrightarrow> h_addr h = addr l' \<Longrightarrow> hardware l' \<and> active l'"
  shows "slot_ok (ls[i := l']) p h"
proof (cases "h_active h \<and> data_breakpoint_id h = None")
  case True
  then obtain l where "l \<in> set ls" "addr l = h_addr h" "hardware l" "active l" using assms(4) by (auto simp: slot_ok_def)
  then show ?thesis
    using True assms(5) in_update [OF assms(1-3)] by (cases "addr l = addr l'") (auto simp: slot_ok_def)
qed (use assms(4) in \<open>auto simp: slot_ok_def split: option.splits\<close>)

lemma mem_at:
  assumes "bp_inv mem text code s" "i < length (locations s)" "addr (locations s ! i) \<in> text"
  shows "mem (tracee s) (addr (locations s ! i)) = (if soft (locations s ! i) then 0xcc else code (addr (locations s ! i)))"
proof -
  have d: "distinct (map addr (locations s))" and m: "text_ok (mem (tracee s)) text code (locations s)"
    using assms(1) by (simp_all add: bp_inv_def)
  show ?thesis
    using m assms(3) patched_update [OF d assms(2) refl, of code "addr (locations s ! i)"] by (simp add: text_ok_def)
qed

lemma bp_inv_location:
  assumes "bp_inv mem text code s" and i: "i < length (locations s)" "addr l' = addr (locations s ! i)"
    and "locations s' = (locations s)[i := l']" "breakpoints s' = breakpoints s" "length (hardware_breakpoints s') = 4"
    and "\<And>h. h \<in> set (hardware_breakpoints s') \<Longrightarrow> h_active h \<Longrightarrow>
      slot_ok (locations s) (breakpoints s) h \<and> (data_breakpoint_id h = None \<longrightarrow> h_addr h = addr l' \<longrightarrow> hardware l' \<and> active l')
      \<or> slot_ok [l'] (breakpoints s) h"
    and "\<And>x. x \<in> text \<Longrightarrow> mem (tracee s') x = (if x = addr l' then if soft l' then 0xcc else code x else mem (tracee s) x)"
    and "soft l' \<Longrightarrow> addr l' \<in> text \<Longrightarrow> original_byte l' = code (addr l')"
    and "no_retry l' \<longrightarrow> \<not> active l' \<and> error l' \<noteq> None"
  shows "bp_inv mem text code s'"
proof -
  have d: "distinct (map addr (locations s))" using assms(1) by (simp add: bp_inv_def)
  have "slot_ok (locations s') (breakpoints s) h" if "h \<in> set (hardware_breakpoints s')" for h
  proof (cases "h_active h \<and> slot_ok [l'] (breakpoints s) h")
    case True
    then show ?thesis
      using in_update [OF d i, of l'] by (auto simp: slot_ok_def assms(4) split: option.splits)
  next
    case False
    then show ?thesis
      using assms(7) [OF that] slot_ok_update [OF d i] by (cases "h_active h") (auto simp: assms(4))
  qed
  moreover have "text_ok (mem (tracee s')) text code (locations s')"
    unfolding assms(4) by (rule text_ok_update [OF d i, of "mem (tracee s)"]) (use assms(1,8,9) in \<open>simp_all add: bp_inv_def\<close>)
  moreover have "retry_ok (locations s')"
    unfolding assms(4) by (rule retry_ok_update) (use assms(1,10) in \<open>simp_all add: bp_inv_def\<close>)
  ultimately show ?thesis
    using assms(1,5,6) map_addr_update [OF i] by (simp add: bp_inv_def assms(4))
qed

lemma location_eq: "distinct (map addr ls) \<Longrightarrow> l \<in> set ls \<Longrightarrow> l' \<in> set ls \<Longrightarrow> addr l = addr l' \<Longrightarrow> l = l'"
  unfolding distinct_map by (blast dest: inj_onD)

text \<open>What the operations on locations leave alone.\<close>

definition env :: "'m Dbg \<Rightarrow> ProcessState \<times> (nat \<times> BreakpointOn) option \<times> bool \<times> nat option" where
  "env s = (target_state s, pending_step s, stopping_to_handle_breakpoints s, stopped_until_symbols_are_loaded s)"

lemma env_updates [simp]: "env (s\<lparr>locations := ls\<rparr>) = env s" "env (s\<lparr>tracee := m\<rparr>) = env s" "env (s\<lparr>hardware_breakpoints := hs\<rparr>) = env s"
  "env (s\<lparr>breakpoints := p\<rparr>) = env s" "env (s\<lparr>threads := ts\<rparr>) = env s"
  by (simp_all add: env_def)

definition same_rest :: "'m Dbg \<Rightarrow> 'm Dbg \<Rightarrow> bool" where
  "same_rest s s' \<longleftrightarrow> breakpoints s' = breakpoints s \<and> threads s' = threads s \<and> stepping s' = stepping s \<and> any_live_tid s' = any_live_tid s
     \<and> env s' = env s"

lemma same_rest_refl [simp]: "same_rest s s" and same_rest_update [simp]:
  "same_rest s (s'\<lparr>locations := ls\<rparr>) = same_rest s s'" "same_rest s (s'\<lparr>tracee := m\<rparr>) = same_rest s s'"
  "same_rest s (s'\<lparr>hardware_breakpoints := hs\<rparr>) = same_rest s s'"
  by (simp_all add: same_rest_def)

lemma same_rest_trans: "same_rest s s' \<Longrightarrow> same_rest s' s'' \<Longrightarrow> same_rest s s''"
  by (simp add: same_rest_def)

lemma slot_location:
  assumes "bp_inv mem text code s" "i < length (locations s)" "h \<in> set (hardware_breakpoints s)" "h_active h"
    "data_breakpoint_id h = None" "h_addr h = addr (locations s ! i)"
  shows "hardware (locations s ! i) \<and> active (locations s ! i)"
proof -
  have h: "slot_ok (locations s) (breakpoints s) h" and d: "distinct (map addr (locations s))"
    using assms(1,3) by (simp_all add: bp_inv_def)
  from h assms(4,5) obtain l where l: "l \<in> set (locations s)" "addr l = h_addr h" "hardware l" "active l"
    by (rule slot_okE)
  then show ?thesis using location_eq [OF d l(1) nth_mem [OF assms(2)]] assms(6) by simp
qed

section \<open>Deactivating and activating a location\<close>

lemma restore_byte_runs:
  assumes laws: "tracee_laws tg mem" and "alive tg"
  shows "runs (unless_gone (restore_byte tg tid a b)) s
    (\<lambda>_ s'. \<exists>m. s' = s\<lparr>tracee := m\<rparr> \<and> mem m = (mem (tracee s))(a := b)) (\<lambda>s'. \<exists>m. s' = s\<lparr>tracee := m\<rparr> \<and> mem m = mem (tracee s))"
proof (cases "t_read64 tg (tracee s) (a - a mod 8)")
  case (Inl e)
  then have "e \<noteq> ESRCH" using assms(2) by (auto simp: alive_def)
  then have "runs (unless_gone (restore_byte tg tid a b)) s (\<lambda>_ _. False) (\<lambda>s'. s' = s)"
    using Inl by (cases e) (simp_all add: runs_def unless_gone_def restore_byte_def Let_def sbind.simps sys_read_def)
  then show ?thesis by (rule runs_mono) (auto intro: exI [of _ "tracee s"])
next
  case (Inr w)
  obtain r m where w: "t_poketext tg (tracee s) tid (a - a mod 8) (put_byte w (a mod 8) b) = (r, m)" by fastforce
  show ?thesis
  proof (cases r)
    case (Inl e)
    then have "e \<noteq> ESRCH" using assms(2) w by (metis alive_def fst_conv)
    then have "runs (unless_gone (restore_byte tg tid a b)) s (\<lambda>_ _. False) (\<lambda>s'. s' = s\<lparr>tracee := m\<rparr>)"
      using Inl Inr w
      by (cases e) (simp_all add: runs_def unless_gone_def restore_byte_def Let_def sbind.simps sys_read_def sys_write_def)
    moreover have "mem m = mem (tracee s)" using lawsD(3) [OF laws] w Inl by simp
    ultimately show ?thesis by (auto elim: runs_mono)
  next
    case (Inr u)
    have "runs (unless_gone (restore_byte tg tid a b)) s (\<lambda>_ s'. s' = s\<lparr>tracee := m\<rparr>) (\<lambda>_. False)"
      using Inr \<open>t_read64 _ _ _ = _\<close> w
      by (simp add: runs_def unless_gone_def restore_byte_def Let_def sbind.simps sys_read_def sys_write_def)
    moreover have "mem m = (mem (tracee s))(a := b)" using poke_byte [OF laws] \<open>t_read64 _ _ _ = _\<close> w Inr by simp
    ultimately show ?thesis by (auto elim: runs_mono)
  qed
qed

definition inactive :: "BreakpointLocation \<Rightarrow> BreakpointLocation" where
  "inactive l = l\<lparr>active := False\<rparr>"

lemma inactive_simps [simp]: "addr (inactive l) = addr l" "active (inactive l) = False" "hardware (inactive l) = hardware l"
  "refs (inactive l) = refs l" "error (inactive l) = error l" "no_retry (inactive l) = no_retry l" "soft (inactive l) = False"
  "original_byte (inactive l) = original_byte l"
  by (simp_all add: inactive_def soft_def)

lemma inactive_id [simp]: "\<not> active l \<Longrightarrow> inactive l = l"
  by (cases l) (simp add: inactive_def)

lemma free_slots_simps [simp]: "locations (free_slots a s) = locations s" "breakpoints (free_slots a s) = breakpoints s"
  "tracee (free_slots a s) = tracee s" "length (hardware_breakpoints (free_slots a s)) = length (hardware_breakpoints s)"
  "same_rest s' (free_slots a s) = same_rest s' s"
  by (simp_all add: free_slots_def)

lemma free_slots_slots: "h \<in> set (hardware_breakpoints (free_slots a s)) \<Longrightarrow> h_active h \<Longrightarrow> h \<in> set (hardware_breakpoints s) \<and> h_addr h \<noteq> a"
  by (auto simp: free_slots_def split: if_splits)

lemma deactivate_runs:
  assumes laws: "tracee_laws tg mem" "alive tg" and inv: "bp_inv mem text code s" and i: "i < length (locations s)"
  shows "runs (deactivate_breakpoint_location tg tid i) s
    (\<lambda>_ s'. bp_inv mem text code s' \<and> same_rest s s' \<and> locations s' = (locations s)[i := inactive (locations s ! i)]
       \<and> (hardware_breakpoints s' = hardware_breakpoints s \<or> hardware_breakpoints s' = hardware_breakpoints (free_slots (addr (locations s ! i)) s)
            \<and> hardware (locations s ! i)))
    (\<lambda>s'. bp_inv mem text code s' \<and> same_rest s s' \<and> locations s' = locations s)"
proof -
  let ?l = "locations s ! i"
  have lin: "?l \<in> set (locations s)" using i by simp
  have retry: "no_retry ?l \<longrightarrow> \<not> active ?l \<and> error ?l \<noteq> None" and slots: "\<forall>h\<in>set (hardware_breakpoints s). slot_ok (locations s) (breakpoints s) h"
    and four: "length (hardware_breakpoints s) = 4" and d: "distinct (map addr (locations s))"
    using inv lin by (auto simp: bp_inv_def retry_ok_def)
  have orig: "soft ?l \<Longrightarrow> addr ?l \<in> text \<Longrightarrow> original_byte ?l = code (addr ?l)"
    using inv lin by (simp add: bp_inv_def text_ok_def)
  consider (no) "\<not> active ?l" | (hw) "active ?l" "hardware ?l" | (sw) "soft ?l" by (auto simp: soft_def)
  then show ?thesis
  proof cases
    case no
    then show ?thesis using i inv by (simp add: deactivate_breakpoint_location_def runs_bind)
  next
    case hw
    let ?s = "(free_slots (addr ?l) s)\<lparr>locations := (locations s)[i := inactive ?l]\<rparr>"
    have m: "mem (tracee s) (addr ?l) = code (addr ?l)" if "addr ?l \<in> text" using mem_at [OF inv i] hw that by (simp add: soft_def)
    have fs: "slot_ok (locations s) (breakpoints s) h \<and> h_addr h \<noteq> addr ?l"
      if "h \<in> set (hardware_breakpoints (free_slots (addr ?l) s))" "h_active h" for h
      using free_slots_slots [OF that] slots by simp
    have "bp_inv mem text code ?s"
      by (rule bp_inv_location [OF inv i, of "inactive ?l"]) (use fs four retry m in auto)
    then show ?thesis
      using hw i by (simp add: deactivate_breakpoint_location_def runs_bind) (simp add: runs_def free_slots_def inactive_def update_location_def)
  next
    case sw
    then have a: "active ?l" "\<not> hardware ?l" by (simp_all add: soft_def)
    note exec = slot_location [OF inv i]
    have ok: "bp_inv mem text code (s\<lparr>tracee := m, locations := (locations s)[i := inactive ?l]\<rparr>)"
      if "mem m = (mem (tracee s))(addr ?l := original_byte ?l)" for m
      by (rule bp_inv_location [OF inv i, of "inactive ?l"]) (use slots four retry that orig [OF sw] exec a(2) in auto)
    have err: "bp_inv mem text code (s\<lparr>tracee := m\<rparr>)" if "mem m = mem (tracee s)" for m
      using inv that by (simp add: bp_inv_def)
    have "runs (unless_gone (restore_byte tg tid (addr ?l) (original_byte ?l))) s
        (\<lambda>_ s'. i < length (locations s') \<and> bp_inv mem text code (s'\<lparr>locations := (locations s)[i := inactive ?l]\<rparr>)
           \<and> locations s' = locations s \<and> hardware_breakpoints s' = hardware_breakpoints s \<and> same_rest s s')
        (\<lambda>s'. bp_inv mem text code s' \<and> same_rest s s' \<and> locations s' = locations s)"
      by (rule runs_mono [OF restore_byte_runs [OF laws]]; elim exE conjE) (simp_all add: ok err i)
    then show ?thesis
      using a i by (simp add: deactivate_breakpoint_location_def runs_bind) (erule runs_mono, simp_all add: inactive_def)
  qed
qed

lemma take_slot_runs:
  assumes "\<not> any_running s" "length (hardware_breakpoints s) = 4"
  shows "runs (take_slot l) s
    (\<lambda>_ s'. \<exists>k h. s' = s\<lparr>hardware_breakpoints := (hardware_breakpoints s)[k := h]\<rparr> \<and> h_addr h = addr l \<and> data_breakpoint_id h = None)
    (\<lambda>s'. s' = s)"
proof (cases "free_slot (hardware_breakpoints s)")
  case (Some k)
  let ?h = "no_hardware\<lparr>h_active := True, thread_specific := (if for_all_threads l then None else stepping s), h_addr := addr l\<rparr>"
  have "take_slot l s = (Ok (), s\<lparr>hardware_breakpoints := (hardware_breakpoints s)[k := ?h]\<rparr>)"
    using Some assms by (simp add: take_slot_def)
  then show ?thesis unfolding runs_def by (simp only: prod.case result.case) (rule exI [of _ k], rule exI [of _ ?h], simp add: no_hardware_def)
qed (simp add: runs_def take_slot_def assms)

lemma poke_int3_runs:
  assumes laws: "tracee_laws tg mem" and i: "i < length (locations s)" "l = locations s ! i"
  shows "runs (poke_int3 tg tid i l) s
    (\<lambda>_ s'. \<exists>m. s' = s\<lparr>locations := (locations s)[i := l\<lparr>original_byte := mem (tracee s) (addr l)\<rparr>], tracee := m\<rparr>
       \<and> mem m = (mem (tracee s))(addr l := 0xcc))
    (\<lambda>s'. \<exists>b m. s' = s\<lparr>locations := (locations s)[i := l\<lparr>original_byte := b\<rparr>], tracee := m\<rparr> \<and> mem m = mem (tracee s))"
proof (cases "t_read64 tg (tracee s) (addr l - addr l mod 8)")
  case (Inl e)
  show ?thesis using Inl i
    by (simp add: poke_int3_def Let_def runs_bind runs_sys_read) (rule exI [of _ "original_byte l"], rule exI [of _ "tracee s"], simp)
next
  case (Inr w)
  let ?k = "addr l mod 8"
  have b: "byte_of w ?k = mem (tracee s) (addr l)" using lawsD(1) [OF laws Inr, of ?k] by simp
  obtain r m where w: "t_poketext tg (tracee s) tid (addr l - ?k) (put_byte w ?k 0xcc) = (r, m)" by fastforce
  show ?thesis
  proof (cases r)
    case (Inl e)
    have "mem m = mem (tracee s)" using lawsD(3) [OF laws] w Inl by simp
    then show ?thesis using Inl Inr w i(1)
      by (simp add: poke_int3_def Let_def runs_bind runs_sys_read runs_sys_write b i(2) [symmetric]) (intro exI conjI, rule refl, assumption)
  next
    case (Inr u)
    have "mem m = (mem (tracee s))(addr l := 0xcc)" using poke_byte [OF laws] \<open>t_read64 _ _ _ = _\<close> w Inr by simp
    then show ?thesis using Inr \<open>t_read64 _ _ _ = _\<close> w i(1)
      by (simp add: poke_int3_def Let_def runs_bind runs_sys_read runs_sys_write b i(2) [symmetric]) (intro exI conjI, rule refl, assumption)
  qed
qed

text \<open>A location that is not active may change its other fields, or become active through a slot or an \<open>int3\<close>.\<close>

lemma bp_inv_inactive:
  assumes "bp_inv mem text code s" "i < length (locations s)" "\<not> active (locations s ! i)"
    and "addr l' = addr (locations s ! i)" "\<not> active l'" "no_retry l' \<longrightarrow> error l' \<noteq> None"
    and "locations s' = (locations s)[i := l']" "breakpoints s' = breakpoints s"
    "hardware_breakpoints s' = hardware_breakpoints s" "mem (tracee s') = mem (tracee s)"
  shows "bp_inv mem text code s'"
proof (rule bp_inv_location [OF assms(1,2,4,7,8)])
  fix x assume "x \<in> text"
  then show "mem (tracee s') x = (if x = addr l' then if soft l' then 0xcc else code x else mem (tracee s) x)"
    using mem_at [OF assms(1,2)] assms(3-5,10) by (auto simp: soft_def)
next
  fix h assume "h \<in> set (hardware_breakpoints s')" "h_active h"
  then show "slot_ok (locations s) (breakpoints s) h \<and> (data_breakpoint_id h = None \<longrightarrow> h_addr h = addr l' \<longrightarrow> hardware l' \<and> active l')
      \<or> slot_ok [l'] (breakpoints s) h"
    using slot_location [OF assms(1,2), of h] assms(1,3,4,9) by (auto simp: bp_inv_def)
qed (use assms in \<open>auto simp: bp_inv_def soft_def\<close>)

lemma bp_inv_slot:
  assumes "bp_inv mem text code s" "i < length (locations s)" "\<not> active (locations s ! i)"
    and "addr l' = addr (locations s ! i)" "active l'" "hardware l'" "\<not> no_retry l'" "h_addr h = addr l'" "data_breakpoint_id h = None"
  shows "bp_inv mem text code (s\<lparr>hardware_breakpoints := (hardware_breakpoints s)[k := h], locations := (locations s)[i := l']\<rparr>)"
proof (rule bp_inv_location [OF assms(1,2,4)])
  fix x assume "x \<in> text"
  then show "mem (tracee (s\<lparr>hardware_breakpoints := (hardware_breakpoints s)[k := h], locations := (locations s)[i := l']\<rparr>)) x
     = (if x = addr l' then if soft l' then 0xcc else code x else mem (tracee s) x)"
    using mem_at [OF assms(1,2)] assms(3-6) by (auto simp: soft_def)
next
  fix g assume "g \<in> set (hardware_breakpoints (s\<lparr>hardware_breakpoints := (hardware_breakpoints s)[k := h], locations := (locations s)[i := l']\<rparr>))"
  then have "g = h \<or> g \<in> set (hardware_breakpoints s)" using set_update_subset_insert by fastforce
  then show "slot_ok (locations s) (breakpoints s) g \<and> (data_breakpoint_id g = None \<longrightarrow> h_addr g = addr l' \<longrightarrow> hardware l' \<and> active l')
      \<or> slot_ok [l'] (breakpoints s) g"
    using assms(1,5,6,8,9) by (auto simp: bp_inv_def slot_ok_def)
qed (use assms in \<open>auto simp: bp_inv_def soft_def\<close>)

lemma bp_inv_int3:
  assumes "bp_inv mem text code s" "i < length (locations s)" "\<not> active (locations s ! i)"
    and "addr l' = addr (locations s ! i)" "active l'" "\<not> hardware l'" "\<not> no_retry l'"
    and "original_byte l' = mem (tracee s) (addr l')" "mem m = (mem (tracee s))(addr l' := 0xcc)"
  shows "bp_inv mem text code (s\<lparr>tracee := m, locations := (locations s)[i := l']\<rparr>)"
proof (rule bp_inv_location [OF assms(1,2,4)])
  fix h assume "h \<in> set (hardware_breakpoints (s\<lparr>tracee := m, locations := (locations s)[i := l']\<rparr>))" "h_active h"
  then show "slot_ok (locations s) (breakpoints s) h \<and> (data_breakpoint_id h = None \<longrightarrow> h_addr h = addr l' \<longrightarrow> hardware l' \<and> active l')
      \<or> slot_ok [l'] (breakpoints s) h"
    using slot_location [OF assms(1,2), of h] assms(1,3,4) by (auto simp: bp_inv_def)
qed (use assms mem_at [OF assms(1,2)] in \<open>auto simp: bp_inv_def soft_def\<close>)

lemma activate_runs:
  assumes laws: "tracee_laws tg mem" and inv: "bp_inv mem text code s" and i: "i < length (locations s)"
    and idle: "\<not> any_running s" and retry: "\<not> no_retry (locations s ! i)"
  shows "runs (activate_breakpoint_location tg tid i) s
    (\<lambda>_ s'. bp_inv mem text code s' \<and> same_rest s s' \<and> (\<exists>b. locations s' = (locations s)[i := (locations s ! i)\<lparr>original_byte := b, active := True\<rparr>]))
    (\<lambda>s'. bp_inv mem text code s' \<and> same_rest s s' \<and> \<not> active (locations s ! i) \<and> (\<exists>b. locations s' = (locations s)[i := (locations s ! i)\<lparr>original_byte := b\<rparr>]))"
    (is "runs _ s ?Q ?E")
proof -
  let ?l = "locations s ! i"
  have four: "length (hardware_breakpoints s) = 4" using inv by (simp add: bp_inv_def)
  consider (yes) "active ?l" | (hw) "\<not> active ?l" "hardware ?l" | (sw) "\<not> active ?l" "\<not> hardware ?l" by blast
  then show ?thesis
  proof cases
    case yes
    then have e: "?l\<lparr>original_byte := original_byte ?l, active := True\<rparr> = ?l" by (cases ?l) simp
    have "locations s = (locations s)[i := ?l\<lparr>original_byte := original_byte ?l, active := True\<rparr>]" unfolding e by simp
    then have "?Q () s" using inv by (intro conjI same_rest_refl exI)
    then show ?thesis using i yes by (simp add: activate_breakpoint_location_def runs_bind)
  next
    case hw
    have "runs (take_slot ?l) s (\<lambda>_ s'. i < length (locations s') \<and> ?Q () (s'\<lparr>locations := (locations s')[i := (locations s' ! i)\<lparr>active := True\<rparr>]\<rparr>)) ?E"
    proof (rule runs_mono [OF take_slot_runs [OF idle four]])
      fix s' assume "s' = s"
      then show "?E s'" using inv hw by (auto intro: exI [of _ "original_byte ?l"])
    next
      fix s' assume "\<exists>k h. s' = s\<lparr>hardware_breakpoints := (hardware_breakpoints s)[k := h]\<rparr> \<and> h_addr h = addr ?l \<and> data_breakpoint_id h = None"
      then obtain k h where s': "s' = s\<lparr>hardware_breakpoints := (hardware_breakpoints s)[k := h]\<rparr>" "h_addr h = addr ?l" "data_breakpoint_id h = None"
        by (elim exE conjE) (rule that; assumption)
      then show "i < length (locations s') \<and> ?Q () (s'\<lparr>locations := (locations s')[i := (locations s' ! i)\<lparr>active := True\<rparr>]\<rparr>)"
        using bp_inv_slot [OF inv i hw(1), of "?l\<lparr>active := True\<rparr>" h k] hw(2) retry i by (auto intro: exI [of _ "original_byte ?l"])
    qed
    then show ?thesis
      using i hw by (simp add: activate_breakpoint_location_def runs_bind) (erule runs_mono, simp_all)
  next
    case sw
    have "runs (poke_int3 tg tid i ?l) s (\<lambda>_ s'. i < length (locations s') \<and> ?Q () (s'\<lparr>locations := (locations s')[i := (locations s' ! i)\<lparr>active := True\<rparr>]\<rparr>)) ?E"
    proof (rule runs_mono [OF poke_int3_runs [OF laws i refl]])
      fix s' assume "\<exists>b m. s' = s\<lparr>locations := (locations s)[i := ?l\<lparr>original_byte := b\<rparr>], tracee := m\<rparr> \<and> mem m = mem (tracee s)"
      then obtain b m where "s' = s\<lparr>locations := (locations s)[i := ?l\<lparr>original_byte := b\<rparr>], tracee := m\<rparr>" "mem m = mem (tracee s)"
        by (elim exE conjE) (rule that; assumption)
      then show "?E s'"
        using bp_inv_inactive [OF inv i sw(1), of "?l\<lparr>original_byte := b\<rparr>" s'] sw(1) retry by auto
    next
      fix s' assume "\<exists>m. s' = s\<lparr>locations := (locations s)[i := ?l\<lparr>original_byte := mem (tracee s) (addr ?l)\<rparr>], tracee := m\<rparr>
        \<and> mem m = (mem (tracee s))(addr ?l := 0xcc)"
      then obtain m where "s' = s\<lparr>locations := (locations s)[i := ?l\<lparr>original_byte := mem (tracee s) (addr ?l)\<rparr>], tracee := m\<rparr>"
        "mem m = (mem (tracee s))(addr ?l := 0xcc)"
        by (elim exE conjE) (rule that; assumption)
      then show "i < length (locations s') \<and> ?Q () (s'\<lparr>locations := (locations s')[i := (locations s' ! i)\<lparr>active := True\<rparr>]\<rparr>)"
        using bp_inv_int3 [OF inv i sw(1), of "?l\<lparr>original_byte := mem (tracee s) (addr ?l), active := True\<rparr>" m] sw(2) retry i by auto
    qed
    then show ?thesis
      using i sw by (simp add: activate_breakpoint_location_def runs_bind) (erule runs_mono, simp_all)
  qed
qed

end
