(* ===== verification/BreakHandle.thy ===== *)
theory BreakHandle
  imports BreakInv "HOL-Library.Multiset"
begin

text \<open>
  The three passes over the breakpoint locations in \<open>handle_breakpoints\<close>: stale locations are
  removed, locations are made hardware or software, and all of them are activated. Each pass keeps
  the invariant, also when it stops at an error.
\<close>

section \<open>Removing stale locations\<close>

text \<open>The order does not matter for the invariant, nor do locations that are not active.\<close>

lemma bp_inv_subset:
  assumes "bp_inv mem text code s" "distinct (map addr ls)" "set ls \<subseteq> set (locations s)"
    and "\<And>l. l \<in> set (locations s) \<Longrightarrow> active l \<Longrightarrow> l \<in> set ls"
  shows "bp_inv mem text code (s\<lparr>locations := ls\<rparr>)"
proof -
  have "patched code ls x = patched code (locations s) x" for x
    using assms(3,4) by (auto simp: patched_def list_ex_iff soft_def)
  then have "text_ok (mem (tracee s)) text code ls"
    using assms(1,3) by (auto simp: bp_inv_def text_ok_def)
  moreover have "slot_ok ls (breakpoints s) h" if "slot_ok (locations s) (breakpoints s) h" for h
    using that assms(4) by (auto simp: slot_ok_def split: option.splits)
  ultimately show ?thesis using assms(1-3) by (auto simp: bp_inv_def retry_ok_def)
qed

lemma runs_swap:
  assumes "bp_inv mem text code s" "i \<le> j" "j < length (locations s)"
  shows "runs (swap_locations i j) s (\<lambda>_ s'. s' = s\<lparr>locations := (locations s)[i := locations s ! j, j := locations s ! i]\<rparr>
    \<and> bp_inv mem text code s') E"
proof -
  let ?ls = "(locations s)[i := locations s ! j, j := locations s ! i]"
  have m: "mset ?ls = mset (locations s)" using assms(2,3) by (intro mset_swap) simp_all
  then have "mset (map addr ?ls) = mset (map addr (locations s))" by (simp only: mset_map)
  from mset_eq_imp_distinct_iff [OF this] have "distinct (map addr ?ls)" using assms(1) by (simp only: bp_inv_def)
  then have "bp_inv mem text code (s\<lparr>locations := ?ls\<rparr>)"
    by (rule bp_inv_subset [OF assms(1)]) (use mset_eq_setD [OF m] in simp_all)
  then show ?thesis using assms(2,3) by (simp add: runs_def swap_locations_def Let_def)
qed

definition kept :: "BreakpointLocation list \<Rightarrow> BreakpointLocation list" where
  "kept ls = filter (\<lambda>l. refs l \<noteq> []) ls"

lemma sweep_runs:
  assumes laws: "tracee_laws tg mem" "alive tg"
  shows "bp_inv mem text code s \<Longrightarrow> length (locations s) = n \<Longrightarrow> k \<le> n \<Longrightarrow> res \<le> k \<Longrightarrow>
    (\<forall>j. res \<le> j \<longrightarrow> j < k \<longrightarrow> \<not> active (locations s ! j)) \<Longrightarrow>
    runs (sweep tg [k..<n] res) s
      (\<lambda>r s'. bp_inv mem text code s' \<and> same_rest s s' \<and> length (locations s') = n \<and> r \<le> n
         \<and> take r (locations s') = take res (locations s) @ kept (drop k (locations s))
         \<and> (\<forall>j. r \<le> j \<longrightarrow> j < n \<longrightarrow> \<not> active (locations s' ! j)))
      (\<lambda>s'. bp_inv mem text code s' \<and> same_rest s s')"
proof (induction "n - k" arbitrary: k res s)
  case 0
  then show ?case by (simp add: kept_def)
next
  case (Suc m)
  let ?ls = "locations s"
  have k: "[k..<n] = k # [Suc k..<n]" "k < n" "m = n - Suc k" using Suc.hyps(2) by (auto simp: upt_conv_Cons)
  have d: "drop k ?ls = ?ls ! k # drop (Suc k) ?ls" using k(2) Suc.prems(2) by (simp add: Cons_nth_drop_Suc)
  show ?case
  proof (cases "refs (?ls ! k) = []")
    case True
    have *: "runs (sweep tg [Suc k..<n] res) s1
      (\<lambda>r s'. bp_inv mem text code s' \<and> same_rest s s' \<and> length (locations s') = n \<and> r \<le> n
         \<and> take r (locations s') = take res ?ls @ kept (drop k ?ls)
         \<and> (\<forall>j. r \<le> j \<longrightarrow> j < n \<longrightarrow> \<not> active (locations s' ! j)))
      (\<lambda>s'. bp_inv mem text code s' \<and> same_rest s s')"
      if s1: "bp_inv mem text code s1" "same_rest s s1" "locations s1 = ?ls[k := inactive (?ls ! k)]" for s1
    proof (rule runs_mono [OF Suc.hyps(1) [OF k(3) s1(1)]], goal_cases)
      case (5 r s')
      then show ?case using s1 same_rest_trans [OF s1(2)] d True Suc.prems(4) by (simp add: kept_def)
    qed (use s1 Suc.prems k(2) same_rest_trans [OF s1(2)] in \<open>auto simp: nth_list_update less_Suc_eq\<close>)
    show ?thesis using True k(2) Suc.prems(2)
      by (simp add: k(1) runs_bind runs_with) (rule runs_mono [OF deactivate_runs [OF laws Suc.prems(1)]]; use * in simp)
  next
    case False
    let ?s = "s\<lparr>locations := ?ls[res := ?ls ! k, k := ?ls ! res]\<rparr>"
    have *: "runs (sweep tg [Suc k..<n] (Suc res)) ?s
      (\<lambda>r s'. bp_inv mem text code s' \<and> same_rest s s' \<and> length (locations s') = n \<and> r \<le> n
         \<and> take r (locations s') = take res ?ls @ kept (drop k ?ls)
         \<and> (\<forall>j. r \<le> j \<longrightarrow> j < n \<longrightarrow> \<not> active (locations s' ! j)))
      (\<lambda>s'. bp_inv mem text code s' \<and> same_rest s s')" if "bp_inv mem text code ?s"
    proof (rule runs_mono [OF Suc.hyps(1) [OF k(3) that]], goal_cases)
      case (4)
      then show ?case using Suc.prems k(2) by (auto simp: nth_list_update less_Suc_eq)
    next
      case (5 r s')
      have "take (Suc res) (?ls[res := ?ls ! k, k := ?ls ! res]) = take res ?ls @ [?ls ! k]"
        using Suc.prems k(2) by (cases "k = res") (simp_all add: take_Suc_conv_app_nth)
      with 5 show ?case using d False Suc.prems(4) same_rest_trans [of s ?s s'] by (simp add: kept_def)
    qed (use Suc.prems k(2) same_rest_trans [of s ?s] in auto)
    show ?thesis using False k(2) Suc.prems(2)
      by (simp add: k(1) runs_bind) (rule runs_mono [OF runs_swap [OF Suc.prems(1,4)]]; use * in simp)
  qed
qed

lemma distinct_kept: "distinct (map addr ls) \<Longrightarrow> distinct (map addr (kept ls))"
  by (simp add: kept_def distinct_map_filter)

lemma remove_stale_runs:
  assumes "tracee_laws tg mem" "alive tg" "bp_inv mem text code s"
  shows "runs (remove_stale tg) s
    (\<lambda>_ s'. bp_inv mem text code s' \<and> same_rest s s' \<and> locations s' = kept (locations s)) (bp_inv mem text code)"
proof -
  have *: "bp_inv mem text code (s'\<lparr>locations := take r (locations s')\<rparr>)"
    if "bp_inv mem text code s'" "\<forall>j. r \<le> j \<longrightarrow> j < length (locations s') \<longrightarrow> \<not> active (locations s' ! j)" for r s'
  proof (rule bp_inv_subset [OF that(1)])
    show "distinct (map addr (take r (locations s')))"
      using that(1) by (simp add: bp_inv_def take_map [symmetric])
    show "l \<in> set (take r (locations s'))" if l: "l \<in> set (locations s')" "active l" for l
    proof -
      obtain j where j: "j < length (locations s')" "l = locations s' ! j" using l(1) by (auto simp: in_set_conv_nth)
      then have "j < r" using l(2) \<open>\<forall>j. _\<close> not_less by blast
      then show ?thesis using j by (auto simp: in_set_conv_nth intro!: exI [of _ j])
    qed
  qed (simp add: set_take_subset)
  have "runs (sweep tg [0..<length (locations s)] 0) s
      (\<lambda>r s'. bp_inv mem text code s' \<and> same_rest s s' \<and> length (locations s') = length (locations s)
         \<and> take r (locations s') = kept (locations s) \<and> (\<forall>j. r \<le> j \<longrightarrow> j < length (locations s) \<longrightarrow> \<not> active (locations s' ! j)))
      (bp_inv mem text code)"
    by (rule runs_mono [OF sweep_runs [OF assms refl]]) simp_all
  then have "runs (sbind (sweep tg [0..<length (locations s)] 0) (\<lambda>n s. (Ok (), s\<lparr>locations := take n (locations s)\<rparr>))) s
    (\<lambda>_ s'. bp_inv mem text code s' \<and> same_rest s s' \<and> locations s' = kept (locations s)) (bp_inv mem text code)"
    unfolding runs_bind by (rule runs_mono) (use * in \<open>simp_all add: runs_def; metis\<close>)
  then show ?thesis by (simp add: runs_def remove_stale_def)
qed

section \<open>Hardware or software\<close>

lemma thread_addresses_None: "thread_addresses ts a = None \<longleftrightarrow> (\<forall>(tid, t) \<in> set ts. rip t \<noteq> Some a)"
  by (auto simp: thread_addresses_def Let_def filter_empty_conv)

text \<open>What a thread keeps while its next hit is ignored.\<close>

definition same_threads :: "'m Dbg \<Rightarrow> 'm Dbg \<Rightarrow> bool" where
  "same_threads s s' \<longleftrightarrow> map (\<lambda>(tid, t). (tid, rip t, running t, exiting t)) (threads s') = map (\<lambda>(tid, t). (tid, rip t, running t, exiting t)) (threads s)
     \<and> breakpoints s' = breakpoints s \<and> stepping s' = stepping s \<and> any_live_tid s' = any_live_tid s \<and> env s' = env s"

lemma same_threads_trans: "same_threads s s' \<Longrightarrow> same_threads s' s'' \<Longrightarrow> same_threads s s''"
  by (simp add: same_threads_def)

lemma same_rest_threads: "same_rest s s' \<Longrightarrow> same_threads s s'"
  by (simp add: same_rest_def same_threads_def)

lemma same_threads_ignore: "same_threads s (ignore_next a tids s')  = same_threads s s'"
  by (simp add: same_threads_def ignore_next_def comp_def case_prod_unfold if_distrib cong: if_cong)

lemma same_threads_running:
  fixes s s' :: "'m Dbg"
  assumes "same_threads s s'"
  shows "any_running s' = any_running s" "thread_addresses (threads s') a = None \<longleftrightarrow> thread_addresses (threads s) a = None"
proof -
  let ?f = "\<lambda>(tid, t). (tid, rip t, running t, exiting t)"
  have e: "map ?f (threads s') = map ?f (threads s)" using assms by (simp add: same_threads_def)
  have "any_running s = list_ex (\<lambda>(tid, r, x, y). x \<and> \<not> y) (map ?f (threads s))" for s :: "'m Dbg"
    by (force simp: any_running_def list_ex_iff)
  then show "any_running s' = any_running s" by (simp only: e)
  have "thread_addresses (threads s) a = None \<longleftrightarrow> (\<forall>(tid, r, x, y) \<in> set (map ?f (threads s)). r \<noteq> Some a)" for s :: "'m Dbg"
    by (auto simp: thread_addresses_None)
  then show "thread_addresses (threads s') a = None \<longleftrightarrow> thread_addresses (threads s) a = None" by (simp only: e)
qed

lemma bp_inv_ignore [simp]: "bp_inv mem text code (ignore_next a tids s) = bp_inv mem text code s"
  and locations_ignore [simp]: "locations (ignore_next a tids s) = locations s"
  by (simp_all add: bp_inv_def ignore_next_def)

lemma convert_runs:
  assumes laws: "tracee_laws tg mem" "alive tg" and inv: "bp_inv mem text code s" and i: "i < length (locations s)"
  shows "runs (convert tg ta i) s
    (\<lambda>_ s'. bp_inv mem text code s' \<and> same_threads s s' \<and> (\<exists>l'. locations s' = (locations s)[i := l'] \<and> addr l' = addr (locations s ! i)
       \<and> refs l' = refs (locations s ! i) \<and> (hardware l' \<longleftrightarrow> ta (addr l') \<noteq> None)))
    (bp_inv mem text code)"
proof -
  let ?l = "locations s ! i"
  have change: "bp_inv mem text code (s'\<lparr>locations := (locations s)[i := (inactive ?l)\<lparr>hardware := b\<rparr>]\<rparr>)"
    if "bp_inv mem text code s'" "locations s' = (locations s)[i := inactive ?l]" for s' b
    by (rule bp_inv_inactive [OF that(1), of i]) (use that i inv in \<open>auto simp: bp_inv_def retry_ok_def\<close>)
  consider (same) "hardware ?l \<longleftrightarrow> ta (addr ?l) \<noteq> None" | (sw) "hardware ?l" "ta (addr ?l) = None"
    | (hw) tids where "\<not> hardware ?l" "ta (addr ?l) = Some tids" by auto
  then show ?thesis
  proof cases
    case same
    then show ?thesis using i inv
      by (auto simp: convert_def runs_bind same_rest_threads split: option.splits intro!: exI [of _ ?l])
  next
    case sw
    then show ?thesis using i
      by (simp add: convert_def runs_bind runs_with)
        (rule runs_mono [OF deactivate_runs [OF laws inv i]]; use change in \<open>auto intro!: same_rest_threads\<close>)
  next
    case hw
    then show ?thesis using i
      by (simp add: convert_def runs_bind runs_with)
        (rule runs_mono [OF deactivate_runs [OF laws inv i]]; use change in
          \<open>auto simp: runs_def update_location_def sbind.simps same_threads_ignore intro!: same_rest_threads\<close>)
  qed
qed

lemma convert_all_runs:
  assumes laws: "tracee_laws tg mem" "alive tg" and inv: "bp_inv mem text code s"
  shows "runs (on_each (convert tg ta)) s
    (\<lambda>_ s'. bp_inv mem text code s' \<and> same_threads s s' \<and> map addr (locations s') = map addr (locations s)
       \<and> (\<forall>l\<in>set (locations s'). hardware l \<longleftrightarrow> ta (addr l) \<noteq> None)) (bp_inv mem text code)"
proof -
  let ?I = "\<lambda>k s'. bp_inv mem text code s' \<and> same_threads s s' \<and> map addr (locations s') = map addr (locations s)
     \<and> (\<forall>j < k. hardware (locations s' ! j) \<longleftrightarrow> ta (addr (locations s' ! j)) \<noteq> None)"
  have "runs (for_each (convert tg ta) [0..<length (locations s)]) s (\<lambda>_. ?I (length (locations s))) (bp_inv mem text code)"
  proof (rule runs_for_upto)
    show "?I 0 s" using inv by (simp add: same_rest_threads)
  next
    fix i s' assume i: "i < length (locations s)" and I: "?I i s'"
    then have len: "length (locations s') = length (locations s)" by (metis length_map)
    show "runs (convert tg ta i) s' (\<lambda>_. ?I (Suc i)) (bp_inv mem text code)"
    proof (rule runs_mono [OF convert_runs [OF laws]])
      show "bp_inv mem text code s'" "i < length (locations s')" using I i len by simp_all
    next
      fix s'' assume A: "bp_inv mem text code s'' \<and> same_threads s' s'' \<and> (\<exists>l'. locations s'' = (locations s')[i := l'] \<and> addr l' = addr (locations s' ! i)
       \<and> refs l' = refs (locations s' ! i) \<and> (hardware l' \<longleftrightarrow> ta (addr l') \<noteq> None))"
      then obtain l' where l': "locations s'' = (locations s')[i := l']" "addr l' = addr (locations s' ! i)" "hardware l' \<longleftrightarrow> ta (addr l') \<noteq> None"
        by (elim conjE exE) (rule that; assumption)
      have "map addr (locations s'') = map addr (locations s)"
        using map_addr_update [OF _ l'(2)] i len I by (simp add: l'(1))
      moreover have "\<forall>j < Suc i. hardware (locations s'' ! j) \<longleftrightarrow> ta (addr (locations s'' ! j)) \<noteq> None"
        using I i len l'(3) by (simp add: l'(1) nth_list_update less_Suc_eq)
      ultimately show "?I (Suc i) s''" using A I same_threads_trans by blast
    qed
  qed
  then have "runs (on_each (convert tg ta)) s (\<lambda>_. ?I (length (locations s))) (bp_inv mem text code)"
    by (simp add: runs_def on_each_def)
  then show ?thesis by (rule runs_mono) (metis in_set_conv_nth length_map)
qed

section \<open>Activation\<close>

lemma bp_inv_same:
  assumes "bp_inv mem text code s" "i < length (locations s)" "addr l' = addr (locations s ! i)"
    and "active l' = active (locations s ! i)" "hardware l' = hardware (locations s ! i)" "original_byte l' = original_byte (locations s ! i)"
    and "no_retry l' \<longrightarrow> \<not> active l' \<and> error l' \<noteq> None"
  shows "bp_inv mem text code (s\<lparr>locations := (locations s)[i := l']\<rparr>)"
proof (rule bp_inv_location [OF assms(1-3)])
  fix x assume "x \<in> text"
  then show "mem (tracee (s\<lparr>locations := (locations s)[i := l']\<rparr>)) x = (if x = addr l' then if soft l' then 0xcc else code x else mem (tracee s) x)"
    using mem_at [OF assms(1,2)] assms(3-5) by (auto simp: soft_def)
next
  fix h assume "h \<in> set (hardware_breakpoints (s\<lparr>locations := (locations s)[i := l']\<rparr>))" "h_active h"
  then show "slot_ok (locations s) (breakpoints s) h \<and> (data_breakpoint_id h = None \<longrightarrow> h_addr h = addr l' \<longrightarrow> hardware l' \<and> active l')
      \<or> slot_ok [l'] (breakpoints s) h"
    using slot_location [OF assms(1,2), of h] assms(1,3-5) by (auto simp: bp_inv_def)
next
  assume "soft l'" "addr l' \<in> text"
  then show "original_byte l' = code (addr l')"
    using assms nth_mem [OF assms(2)] by (auto simp: bp_inv_def text_ok_def soft_def)
qed (use assms in \<open>auto simp: bp_inv_def\<close>)

lemma try_activate_runs:
  assumes laws: "tracee_laws tg mem" and inv: "bp_inv mem text code s" and i: "i < length (locations s)" and idle: "\<not> any_running s"
  shows "runs (try_activate tg i) s
    (\<lambda>_ s'. bp_inv mem text code s' \<and> same_rest s s' \<and> (\<exists>l'. locations s' = (locations s)[i := l'] \<and> addr l' = addr (locations s ! i)
       \<and> hardware l' = hardware (locations s ! i) \<and> (active l' \<longleftrightarrow> error l' = None)))
    (\<lambda>_. False)" (is "runs _ s ?Q _")
proof (cases "no_retry (locations s ! i)")
  case True
  then have "active (locations s ! i) \<longleftrightarrow> error (locations s ! i) = None"
    using inv nth_mem [OF i] by (auto simp: bp_inv_def retry_ok_def)
  then have "?Q () s" using inv by (auto intro!: exI [of _ "locations s ! i"])
  then show ?thesis using i True by (simp add: try_activate_def runs_bind)
next
  case False
  let ?l = "locations s ! i"
  have up: "?Q () (s'\<lparr>locations := (locations s')[i := (locations s' ! i)\<lparr>error := e\<rparr>]\<rparr>)"
    if "bp_inv mem text code s'" "same_rest s s'" "locations s' = (locations s)[i := l]" "addr l = addr ?l" "hardware l = hardware ?l"
      "no_retry l = no_retry ?l" "active l \<longleftrightarrow> e = None" for s' l e
  proof -
    have i': "i < length (locations s')" using that(3) i by simp
    have "bp_inv mem text code (s'\<lparr>locations := (locations s')[i := (locations s' ! i)\<lparr>error := e\<rparr>]\<rparr>)"
      by (rule bp_inv_same [OF that(1) i']) (use that False i in simp_all)
    then show ?thesis using that i by (auto intro!: exI [of _ "l\<lparr>error := e\<rparr>"])
  qed
  have "runs (\<lambda>s. case activate_breakpoint_location tg (any_live_tid s) i s of
         (Ok _, s') \<Rightarrow> update_location i (\<lambda>l. l\<lparr>error := None\<rparr>) s'
       | (Err e, s') \<Rightarrow> update_location i (\<lambda>l. l\<lparr>error := Some e\<rparr>) s'
       | (Panic, s') \<Rightarrow> (Panic, s')) s ?Q (\<lambda>_. False)"
  proof (cases "activate_breakpoint_location tg (any_live_tid s) i s")
    case (Pair r s')
    note run = activate_runs [OF laws inv i idle False, of "any_live_tid s"]
    show ?thesis
    proof (cases r)
      case (Ok u)
      from runs_Ok [OF run Pair [unfolded Ok]] obtain b where
        "bp_inv mem text code s'" "same_rest s s'" and l: "locations s' = (locations s)[i := ?l\<lparr>original_byte := b, active := True\<rparr>]"
        by (elim conjE exE) (rule that; assumption)
      from up [OF this, of None] show ?thesis using Pair Ok i l by (simp add: runs_def update_location_def)
    next
      case (Err e)
      from runs_Err [OF run Pair [unfolded Err]] obtain b where
        "bp_inv mem text code s'" "same_rest s s'" and l: "locations s' = (locations s)[i := ?l\<lparr>original_byte := b\<rparr>]" and "\<not> active ?l"
        by (elim conjE exE) (rule that; assumption)
      from up [OF this(1-3), of "Some e"] this(4) show ?thesis using Pair Err i l by (simp add: runs_def update_location_def)
    next
      case Panic
      then show ?thesis using runs_no_panic [OF run] Pair by simp
    qed
  qed
  then show ?thesis using i False by (simp add: try_activate_def runs_bind)
qed

text \<open>A location is active or has an error.\<close>

definition settled :: "BreakpointLocation list \<Rightarrow> bool" where
  "settled ls \<longleftrightarrow> (\<forall>l\<in>set ls. active l \<longleftrightarrow> error l = None)"

definition addr_kind :: "BreakpointLocation \<Rightarrow> nat \<times> bool" where
  "addr_kind l = (addr l, hardware l)"

lemma map_addr_kind: "map addr_kind ls = map addr_kind ls' \<Longrightarrow> map addr ls = map addr ls'"
proof -
  assume "map addr_kind ls = map addr_kind ls'"
  then have "map (fst \<circ> addr_kind) ls = map (fst \<circ> addr_kind) ls'" unfolding map_map [symmetric] by simp
  moreover have "fst \<circ> addr_kind = addr" by (simp add: addr_kind_def fun_eq_iff)
  ultimately show ?thesis by simp
qed

lemma activate_all_runs:
  assumes laws: "tracee_laws tg mem" and inv: "bp_inv mem text code s" and idle: "\<not> any_running s"
  shows "runs (on_each (try_activate tg)) s
    (\<lambda>_ s'. bp_inv mem text code s' \<and> same_rest s s' \<and> map addr_kind (locations s') = map addr_kind (locations s) \<and> settled (locations s'))
    (\<lambda>_. False)"
proof -
  let ?I = "\<lambda>k s'. bp_inv mem text code s' \<and> same_rest s s' \<and> map addr_kind (locations s') = map addr_kind (locations s)
     \<and> (\<forall>j < k. active (locations s' ! j) \<longleftrightarrow> error (locations s' ! j) = None)"
  have "runs (for_each (try_activate tg) [0..<length (locations s)]) s (\<lambda>_. ?I (length (locations s))) (\<lambda>_. False)"
  proof (rule runs_for_upto)
    show "?I 0 s" using inv by simp
  next
    fix i s' assume i: "i < length (locations s)" and I: "?I i s'"
    then have len: "length (locations s') = length (locations s)" by (metis length_map)
    have idle': "\<not> any_running s'" using same_threads_running(1) [OF same_rest_threads] I idle by blast
    show "runs (try_activate tg i) s' (\<lambda>_. ?I (Suc i)) (\<lambda>_. False)"
    proof (rule runs_mono [OF try_activate_runs [OF laws _ _ idle']])
      show "bp_inv mem text code s'" "i < length (locations s')" using I i len by simp_all
    next
      fix s'' assume A: "bp_inv mem text code s'' \<and> same_rest s' s'' \<and> (\<exists>l'. locations s'' = (locations s')[i := l'] \<and> addr l' = addr (locations s' ! i)
       \<and> hardware l' = hardware (locations s' ! i) \<and> (active l' \<longleftrightarrow> error l' = None))"
      then obtain l' where l': "locations s'' = (locations s')[i := l']" "addr_kind l' = addr_kind (locations s' ! i)" "active l' \<longleftrightarrow> error l' = None"
        by (elim conjE exE) (rule that; simp add: addr_kind_def)
      have "map addr_kind (locations s'') = (map addr_kind (locations s'))[i := addr_kind (locations s' ! i)]"
        by (simp add: l'(1,2) map_update)
      also have "\<dots> = map addr_kind (locations s')"
        using i len list_update_id [of "map addr_kind (locations s')" i] by simp
      finally have "map addr_kind (locations s'') = map addr_kind (locations s)" using I by simp
      moreover have "\<forall>j < Suc i. active (locations s'' ! j) \<longleftrightarrow> error (locations s'' ! j) = None"
        using I i len l'(3) by (simp add: l'(1) nth_list_update less_Suc_eq)
      ultimately show "?I (Suc i) s''" using A I same_rest_trans [of s s' s''] by simp
    qed
  qed
  then have "runs (on_each (try_activate tg)) s (\<lambda>_. ?I (length (locations s))) (\<lambda>_. False)"
    by (simp add: runs_def on_each_def)
  then show ?thesis by (rule runs_mono) (metis in_set_conv_nth length_map settled_def)
qed

end
