(* ===== verification/BreakRegs.thy ===== *)
theory BreakRegs
  imports BreakHandle
begin

text \<open>
  The debug registers of the threads: writing them cannot panic and keeps the invariant; a slot
  that the kernel refuses is given up, together with its location or its data breakpoint.
\<close>

section \<open>Deactivating a breakpoint\<close>

text \<open>Slots are only ever cleared here.\<close>

definition shrunk :: "HardwareBreakpoint list \<Rightarrow> HardwareBreakpoint list \<Rightarrow> bool" where
  "shrunk hs hs' \<longleftrightarrow> length hs' = length hs \<and> (\<forall>j < length hs. hs' ! j = hs ! j \<or> \<not> h_active (hs' ! j))"

lemma shrunk_refl [simp]: "shrunk hs hs"
  and shrunk_trans: "shrunk hs hs' \<Longrightarrow> shrunk hs' hs'' \<Longrightarrow> shrunk hs hs''"
  by (auto simp: shrunk_def) metis

lemma shrunk_map: "shrunk hs (map (\<lambda>h. if p h then no_hardware else h) hs)"
  by (simp add: shrunk_def)

lemma shrunk_free_slots: "shrunk (hardware_breakpoints s) (hardware_breakpoints (free_slots a s))"
  unfolding free_slots_def by (simp add: shrunk_map)

definition no_watch :: "Id \<Rightarrow> 'm Dbg \<Rightarrow> bool" where
  "no_watch i s \<longleftrightarrow> (\<forall>h\<in>set (hardware_breakpoints s). h_active h \<longrightarrow> data_breakpoint_id h \<noteq> Some i)"

lemma bp_inv_put:
  assumes "bp_inv mem text code s" "try_get (breakpoints s) i \<noteq> None" "bp_ok b" "bp_active b \<or> no_watch i s"
  shows "bp_inv mem text code (put_breakpoint i b s)"
proof -
  have g: "try_get (snd (try_set i b (breakpoints s))) = (try_get (breakpoints s))(i \<mapsto> b)"
    using assms(2) by (auto simp: try_get_try_set)
  have "slot_ok (locations s) (snd (try_set i b (breakpoints s))) h" if "h \<in> set (hardware_breakpoints s)" for h
    using assms(1,4) that by (cases "data_breakpoint_id h") (auto simp: bp_inv_def slot_ok_def g no_watch_def)
  moreover have "pool_ok (snd (try_set i b (breakpoints s)))"
    using assms(1,3) by (auto simp: bp_inv_def pool_ok_def g pool_inv_try_set)
  ultimately show ?thesis using assms(1) by (simp add: bp_inv_def put_breakpoint_def)
qed

lemma bp_inv_slots:
  assumes "bp_inv mem text code s" "length hs = 4" "\<And>h. h \<in> set hs \<Longrightarrow> h_active h \<Longrightarrow> h \<in> set (hardware_breakpoints s)"
  shows "bp_inv mem text code (s\<lparr>hardware_breakpoints := hs\<rparr>)"
proof -
  have "slot_ok (locations s) (breakpoints s) h" if "h \<in> set hs" for h
    using assms(1) assms(3) [OF that] by (cases "h_active h") (auto simp: bp_inv_def)
  then show ?thesis using assms(1,2) by (simp add: bp_inv_def)
qed

lemma set_drop_refs: "set (locations (drop_refs p s)) = (\<lambda>l. l\<lparr>refs := filter (\<lambda>r. \<not> p r) (refs l)\<rparr>) ` set (locations s)"
  by (simp add: drop_refs_def)

lemma bp_inv_drop_refs: "bp_inv mem text code s \<Longrightarrow> bp_inv mem text code (drop_refs p s)"
proof -
  assume inv: "bp_inv mem text code s"
  let ?ls = "locations (drop_refs p s)"
  have "patched code ?ls = patched code (locations s)"
    by (auto simp: fun_eq_iff patched_def list_ex_iff set_drop_refs soft_def)
  then have "text_ok (mem (tracee s)) text code ?ls"
    using inv by (auto simp: bp_inv_def text_ok_def set_drop_refs soft_def)
  moreover have "slot_ok ?ls (breakpoints s) h" if "slot_ok (locations s) (breakpoints s) h" for h
    using that by (auto simp: slot_ok_def set_drop_refs split: option.splits)
  moreover have "map addr ?ls = map addr (locations s)" by (simp add: drop_refs_def comp_def)
  moreover have "retry_ok ?ls" using inv by (auto simp: bp_inv_def retry_ok_def set_drop_refs)
  moreover have "hardware_breakpoints (drop_refs p s) = hardware_breakpoints s" "breakpoints (drop_refs p s) = breakpoints s"
    "tracee (drop_refs p s) = tracee s" by (simp_all add: drop_refs_def)
  ultimately show ?thesis using inv by (simp add: bp_inv_def)
qed

text \<open>Breakpoints that are not active are left as they are.\<close>

definition idle_kept :: "'m Dbg \<Rightarrow> 'm Dbg \<Rightarrow> bool" where
  "idle_kept s s' \<longleftrightarrow> (\<forall>i b. try_get (breakpoints s) i = Some b \<longrightarrow> \<not> bp_active b \<longrightarrow> try_get (breakpoints s') i = Some b)"

lemma idle_kept_same: "breakpoints s' = breakpoints s \<Longrightarrow> idle_kept s s'"
  by (simp add: idle_kept_def)

lemma idle_kept_trans: "idle_kept s s' \<Longrightarrow> idle_kept s' s'' \<Longrightarrow> idle_kept s s''"
  by (simp add: idle_kept_def)

text \<open>What changes neither the kinds of the locations nor their state.\<close>

definition same_locations :: "'m Dbg \<Rightarrow> 'm Dbg \<Rightarrow> bool" where
  "same_locations s s' \<longleftrightarrow> map addr_kind (locations s') = map addr_kind (locations s) \<and> (settled (locations s) \<longrightarrow> settled (locations s'))
     \<and> threads s' = threads s \<and> any_live_tid s' = any_live_tid s \<and> env s' = env s"

lemma same_locations_refl [simp]: "same_locations s s"
  and same_locations_trans: "same_locations s s' \<Longrightarrow> same_locations s' s'' \<Longrightarrow> same_locations s s''"
  by (simp_all add: same_locations_def)

lemma same_locations_drop_refs: "same_locations s (drop_refs p s)"
  by (auto simp: same_locations_def drop_refs_def settled_def addr_kind_def)

lemma same_locations_updates [simp]:
  "same_locations s (put_breakpoint i b s') = same_locations s s'" "same_locations s (drop_watch i s') = same_locations s s'"
  "same_locations s (s'\<lparr>tracee := m\<rparr>) = same_locations s s'" "same_locations s (s'\<lparr>hardware_breakpoints := hs\<rparr>) = same_locations s s'"
  by (simp_all add: same_locations_def put_breakpoint_def drop_watch_def)

lemma deactivate_breakpoint_runs:
  assumes inv: "bp_inv mem text code s" and b: "try_get (breakpoints s) i = Some b"
  shows "runs (deactivate_breakpoint i) s (\<lambda>_ s'. bp_inv mem text code s' \<and> same_locations s s' \<and> no_watch i s' \<and> stepping s' = stepping s
    \<and> shrunk (hardware_breakpoints s) (hardware_breakpoints s') \<and> tracee s' = tracee s
    \<and> try_get (breakpoints s') = (try_get (breakpoints s))(i \<mapsto> b\<lparr>bp_active := False\<rparr>)) (\<lambda>_. False)"
proof (cases "bp_active b")
  case True
  let ?s1 = "drop_watch i s" and ?b = "b\<lparr>bp_active := False\<rparr>"
  have 1: "bp_inv mem text code ?s1" "no_watch i ?s1"
    using inv by (auto simp: drop_watch_def no_watch_def bp_inv_def intro!: bp_inv_slots [unfolded bp_inv_def] split: if_splits)
  have "bp_ok ?b" using inv b by (auto simp: bp_inv_def pool_ok_def bp_ok_def)
  then have 2: "bp_inv mem text code (put_breakpoint i ?b ?s1)"
    using bp_inv_put [OF 1(1), of i ?b] 1(2) b by (simp add: drop_watch_def)
  have e: "drop_watch i (drop_refs (refers_to i) (put_breakpoint i ?b s)) = drop_refs (refers_to i) (put_breakpoint i ?b ?s1)"
    by (simp add: drop_watch_def drop_refs_def put_breakpoint_def)
  have "runs (deactivate_breakpoint i) s (\<lambda>_ s'. s' = drop_refs (refers_to i) (put_breakpoint i ?b ?s1)) (\<lambda>_. False)"
    using b True e by (simp add: deactivate_breakpoint_def sbind.simps get_breakpoint_def runs_def)
  then show ?thesis
  proof (rule runs_mono)
    fix s' assume s': "s' = drop_refs (refers_to i) (put_breakpoint i ?b ?s1)"
    have "same_locations s s'" unfolding s' by (rule same_locations_trans [OF _ same_locations_drop_refs]) simp
    moreover have h: "hardware_breakpoints s' = hardware_breakpoints ?s1" by (simp add: s' drop_refs_def put_breakpoint_def)
    moreover have "shrunk (hardware_breakpoints s) (hardware_breakpoints s')"
      unfolding h drop_watch_def by (simp add: shrunk_map)
    moreover have "no_watch i s'" using 1(2) by (simp only: no_watch_def h)
    moreover have "try_get (breakpoints s') = (try_get (breakpoints s))(i \<mapsto> ?b)"
      using b by (simp add: s' drop_watch_def drop_refs_def put_breakpoint_def try_get_try_set)
    ultimately show "bp_inv mem text code s' \<and> same_locations s s' \<and> no_watch i s' \<and> stepping s' = stepping s
      \<and> shrunk (hardware_breakpoints s) (hardware_breakpoints s') \<and> tracee s' = tracee s
      \<and> try_get (breakpoints s') = (try_get (breakpoints s))(i \<mapsto> ?b)"
      using bp_inv_drop_refs [OF 2] by (simp add: s' drop_watch_def drop_refs_def put_breakpoint_def)
  qed
next
  case False
  then have "no_watch i s" using inv b by (fastforce simp: no_watch_def bp_inv_def slot_ok_def)
  moreover have e: "b\<lparr>bp_active := False\<rparr> = b" using False by (cases b) simp
  have "try_get (breakpoints s) = (try_get (breakpoints s))(i \<mapsto> b\<lparr>bp_active := False\<rparr>)" unfolding e using b by (simp add: fun_upd_idem)
  ultimately show ?thesis using b False inv by (simp add: deactivate_breakpoint_def get_breakpoint_def runs_def sbind.simps sret_def)
qed

section \<open>The values of the registers\<close>

text \<open>\<open>h\<close> is to be set for the thread.\<close>

definition wants :: "nat \<Rightarrow> HardwareBreakpoint \<Rightarrow> bool" where
  "wants tid h \<longleftrightarrow> h_active h \<and> (case thread_specific h of Some t \<Rightarrow> t = tid | None \<Rightarrow> True)"

lemma dr_values_cases:
  assumes "slot_ok ls p h"
  shows "dr_values h i tid = Ok (if wants tid h then Some (h_addr h, the (case dr_values h i tid of Ok v \<Rightarrow> map_option snd v)) else None)"
  using assms by (auto simp: dr_values_def wants_def slot_ok_def split: option.splits)

lemma bit_push1: "bit (push_bit k 1 :: u64) n \<longleftrightarrow> n = k \<and> k < 64"
  unfolding bit_push_bit_iff bit_1_iff by auto

lemma bit_small: "n < 8 \<Longrightarrow> 16 \<le> k \<Longrightarrow> \<not> bit (push_bit k w :: u64) n"
  by (simp add: bit_push_bit_iff)

lemma dr_values_bits:
  assumes "dr_values h i tid = Ok (Some (a, d))" "i < 4" "j < 4"
  shows "bit d (2 * j) \<longleftrightarrow> j = i"
  using assms by (auto simp: dr_values_def bit_or_iff bit_push1 bit_small simp del: push_bit_of_1 split: if_splits)

lemma dr7_common_bits: "j < 4 \<Longrightarrow> \<not> bit dr7_common (2 * j)"
  unfolding dr7_common_def bit_push1 by simp

section \<open>Giving up a slot\<close>

definition strict :: "'m Dbg \<Rightarrow> bool" where
  "strict s \<longleftrightarrow> sorted_wrt (<) (map addr (locations s))"

lemma strict_less: "strict s \<Longrightarrow> i < j \<Longrightarrow> j < length (locations s) \<Longrightarrow> addr (locations s ! i) < addr (locations s ! j)"
  using sorted_wrt_nth_less [of "(<)" "map addr (locations s)" i j] by (simp add: strict_def)

lemma partition_addr:
  assumes "strict s"
  shows "j < partition_point (\<lambda>l. addr l < a) (locations s) \<Longrightarrow> addr (locations s ! j) < a"
    "partition_point (\<lambda>l. addr l < a) (locations s) \<le> j \<Longrightarrow> j < length (locations s) \<Longrightarrow> a \<le> addr (locations s ! j)"
proof -
  have mono: "addr (locations s ! i) < a" if "i \<le> j" "j < length (locations s)" "addr (locations s ! j) < a" for i j
    using strict_less [OF assms, of i j] that by (cases "i = j") auto
  show "j < partition_point (\<lambda>l. addr l < a) (locations s) \<Longrightarrow> addr (locations s ! j) < a"
    "partition_point (\<lambda>l. addr l < a) (locations s) \<le> j \<Longrightarrow> j < length (locations s) \<Longrightarrow> a \<le> addr (locations s ! j)"
    using partition_point_spec [of "locations s" "\<lambda>l. addr l < a" j] mono not_less by blast+
qed

lemma find_location:
  assumes "strict s" "l \<in> set (locations s)" "addr l = a"
  obtains k where "find_breakpoint_location a s = Some k" "k < length (locations s)" "locations s ! k = l"
proof -
  let ?k = "partition_point (\<lambda>l. addr l < a) (locations s)"
  obtain k where k: "k < length (locations s)" "locations s ! k = l" using assms(2) by (auto simp: in_set_conv_nth)
  have "?k \<le> k" using partition_addr(1) [OF assms(1), of k a] k assms(3) by (metis less_irrefl not_less)
  moreover have "\<not> ?k < k" using partition_addr(2) [OF assms(1), of a ?k] strict_less [OF assms(1), of ?k k] k assms(3) by fastforce
  ultimately have "?k = k" by simp
  then show ?thesis using that [of k] k assms(3) by (simp add: find_breakpoint_location_def)
qed

lemma map_addr_kind_strict: "map addr_kind (locations s') = map addr_kind (locations s) \<Longrightarrow> strict s \<Longrightarrow> strict s'"
  using map_addr_kind [of "locations s'" "locations s"] by (simp add: strict_def)

lemma same_locations_strict: "same_locations s s' \<Longrightarrow> strict s \<Longrightarrow> strict s'"
  using map_addr_kind_strict [of s' s] by (simp add: same_locations_def)

lemma settled_update: "settled ls \<Longrightarrow> (active l \<longleftrightarrow> error l = None) \<Longrightarrow> settled (ls[i := l])"
  using set_update_subset_insert [of ls i l] by (auto simp: settled_def)

lemma addr_kind_update: "i < length ls \<Longrightarrow> addr_kind l = addr_kind (ls ! i) \<Longrightarrow> map addr_kind (ls[i := l]) = map addr_kind ls"
  using list_update_id [of "map addr_kind ls" i] by (simp add: map_update)

lemma give_up_location:
  assumes laws: "tracee_laws tg mem" "alive tg" and inv: "bp_inv mem text code s" and k: "k < length (locations s)"
    and l: "hardware (locations s ! k)" "active (locations s ! k)" "addr (locations s ! k) = a"
  shows "\<exists>s1. deactivate_breakpoint_location tg tid k s = (Ok (), s1) \<and> runs (update_location k (\<lambda>l. l\<lparr>error := Some e, no_retry := True\<rparr>)) s1
    (\<lambda>_ s'. bp_inv mem text code s' \<and> same_locations s s' \<and> breakpoints s' = breakpoints s \<and> stepping s' = stepping s \<and> tracee s' = tracee s
       \<and> hardware_breakpoints s' = hardware_breakpoints (free_slots a s)) (\<lambda>_. False)"
proof -
  let ?l = "locations s ! k"
  let ?s1 = "(free_slots a s)\<lparr>locations := (locations s)[k := inactive ?l]\<rparr>"
  let ?s2 = "?s1\<lparr>locations := (locations s)[k := (inactive ?l)\<lparr>error := Some e, no_retry := True\<rparr>]\<rparr>"
  have d: "deactivate_breakpoint_location tg tid k s = (Ok (), ?s1)"
    using k l by (simp add: deactivate_breakpoint_location_def sbind.simps get_location_def update_location_def inactive_def)
  have i1: "bp_inv mem text code ?s1" using runs_Ok [OF deactivate_runs [OF laws inv k] d] by simp
  have "bp_inv mem text code ?s2" by (rule bp_inv_inactive [OF i1, of k]) (use k in simp_all)
  moreover have "same_locations s ?s2"
    unfolding same_locations_def
    using addr_kind_update [OF k, of "(inactive ?l)\<lparr>error := Some e, no_retry := True\<rparr>"] settled_update
    by (simp add: addr_kind_def free_slots_def)
  ultimately show ?thesis using d k by (simp add: free_slots_def)
qed

lemma give_up_runs:
  assumes laws: "tracee_laws tg mem" "alive tg" and inv: "bp_inv mem text code s" and st: "strict s"
    and i: "i < 4" "h_active (hardware_breakpoints s ! i)"
  shows "runs (give_up tg tid i) s (\<lambda>_ s'. bp_inv mem text code s' \<and> same_locations s s' \<and> \<not> h_active (hardware_breakpoints s' ! i)
    \<and> idle_kept s s' \<and> shrunk (hardware_breakpoints s) (hardware_breakpoints s') \<and> tracee s' = tracee s) (\<lambda>_. False)"
proof -
  let ?h = "hardware_breakpoints s ! i"
  have four: "length (hardware_breakpoints s) = 4" and h: "?h \<in> set (hardware_breakpoints s)" "slot_ok (locations s) (breakpoints s) ?h"
    using inv i by (auto simp: bp_inv_def)
  show ?thesis
  proof (cases "data_breakpoint_id ?h")
    case (Some j)
    then obtain b where b: "try_get (breakpoints s) j = Some b" "bp_active b" using h(2) i(2) by (auto simp: slot_ok_def)
    have step: "runs (\<lambda>s. (Ok (), put_breakpoint j (b\<lparr>bp_active := False, bp_addrs := Err IO\<rparr>) s)) s1 (\<lambda>_ s'. bp_inv mem text code s' \<and> same_locations s s'
        \<and> \<not> h_active (hardware_breakpoints s' ! i) \<and> idle_kept s s' \<and> shrunk (hardware_breakpoints s) (hardware_breakpoints s') \<and> tracee s' = tracee s) (\<lambda>_. False)"
      if s1: "bp_inv mem text code s1" "same_locations s s1" "no_watch j s1" "shrunk (hardware_breakpoints s) (hardware_breakpoints s1)"
        "tracee s1 = tracee s" "try_get (breakpoints s1) = (try_get (breakpoints s))(j \<mapsto> b\<lparr>bp_active := False\<rparr>)" for s1
    proof -
      have "bp_ok (b\<lparr>bp_active := False, bp_addrs := Err IO\<rparr>)" using inv b by (auto simp: bp_inv_def pool_ok_def bp_ok_def)
      then have "bp_inv mem text code (put_breakpoint j (b\<lparr>bp_active := False, bp_addrs := Err IO\<rparr>) s1)"
        by (intro bp_inv_put [OF s1(1)]) (simp_all add: s1)
      moreover have "\<not> h_active (hardware_breakpoints s1 ! i)"
      proof
        assume a: "h_active (hardware_breakpoints s1 ! i)"
        then have "hardware_breakpoints s1 ! i = ?h" using s1(4) i(1) four by (auto simp: shrunk_def)
        moreover have "hardware_breakpoints s1 ! i \<in> set (hardware_breakpoints s1)" using s1(4) i(1) four by (simp add: shrunk_def)
        ultimately show False using s1(3) a Some by (auto simp: no_watch_def)
      qed
      moreover have "idle_kept s (put_breakpoint j (b\<lparr>bp_active := False, bp_addrs := Err IO\<rparr>) s1)"
        using b by (auto simp: idle_kept_def put_breakpoint_def try_get_try_set s1(6))
      ultimately show ?thesis using s1 by (simp add: runs_def) (simp add: put_breakpoint_def)
    qed
    have "runs (sbind (deactivate_breakpoint j) (\<lambda>_. sbind (get_breakpoint j) (\<lambda>x s. (Ok (), put_breakpoint j (x\<lparr>bp_addrs := Err IO\<rparr>) s)))) s
       (\<lambda>_ s'. bp_inv mem text code s' \<and> same_locations s s' \<and> \<not> h_active (hardware_breakpoints s' ! i)
         \<and> idle_kept s s' \<and> shrunk (hardware_breakpoints s) (hardware_breakpoints s') \<and> tracee s' = tracee s) (\<lambda>_. False)"
      unfolding runs_bind
      by (rule runs_mono [OF deactivate_breakpoint_runs [OF inv b(1)]]) (use step in \<open>simp_all add: runs_def get_breakpoint_def\<close>)
    then show ?thesis using Some by (simp add: runs_def give_up_def Let_def)
  next
    case None
    obtain l where l: "l \<in> set (locations s)" "addr l = h_addr ?h" "hardware l" "active l"
      using slot_okE [OF h(2) i(2) None] by blast
    obtain k where k: "find_breakpoint_location (h_addr ?h) s = Some k" "k < length (locations s)" "locations s ! k = l"
      using find_location [OF st l(1,2)] .
    obtain s1 where s1: "deactivate_breakpoint_location tg tid k s = (Ok (), s1)"
      "runs (update_location k (\<lambda>l. l\<lparr>error := Some (Sys EINVAL), no_retry := True\<rparr>)) s1
        (\<lambda>_ s'. bp_inv mem text code s' \<and> same_locations s s' \<and> breakpoints s' = breakpoints s \<and> stepping s' = stepping s \<and> tracee s' = tracee s
           \<and> hardware_breakpoints s' = hardware_breakpoints (free_slots (h_addr ?h) s)) (\<lambda>_. False)"
      using give_up_location [OF laws inv k(2), of "h_addr ?h" tid "Sys EINVAL"] k(3) l by blast
    have "give_up tg tid i s = update_location k (\<lambda>l. l\<lparr>error := Some (Sys EINVAL), no_retry := True\<rparr>) s1"
      using None k l s1(1) by (simp add: give_up_def Let_def)
    moreover have "\<not> h_active (hardware_breakpoints (free_slots (h_addr ?h) s) ! i)" using i four by (simp add: free_slots_def)
    ultimately show ?thesis using s1(2) shrunk_free_slots [of s] by (auto simp: runs_def idle_kept_same split: prod.splits result.splits)
  qed
qed

section \<open>Writing the registers\<close>

lemma bp_inv_pokeuser:
  assumes "tracee_laws tg mem" "bp_inv mem text code s" "t_pokeuser tg (tracee s) t i v = (r, m)"
  shows "bp_inv mem text code (s\<lparr>tracee := m\<rparr>)"
  using assms(2) lawsD(4) [OF assms(1), of "tracee s" t i v] assms(3) by (simp add: bp_inv_def)

lemma shrunk_wants: "shrunk hs hs' \<Longrightarrow> j < length hs \<Longrightarrow> wants tid (hs' ! j) \<Longrightarrow> wants tid (hs ! j)"
  by (auto simp: shrunk_def wants_def)

lemma length_slots: "bp_inv mem text code s \<Longrightarrow> length (hardware_breakpoints s) = 4"
  by (simp add: bp_inv_def)

lemma slot_values_cases:
  assumes "bp_inv mem text code s" "k < 4"
  obtains (none) "\<not> wants tid (hardware_breakpoints s ! k)" "slot_values k tid s = (Ok None, s)"
    | (some) a d where "wants tid (hardware_breakpoints s ! k)" "slot_values k tid s = (Ok (Some (a, d)), s)" "\<And>j. j < 4 \<Longrightarrow> bit d (2 * j) \<longleftrightarrow> j = k"
proof -
  have "slot_ok (locations s) (breakpoints s) (hardware_breakpoints s ! k)" using assms by (simp add: bp_inv_def)
  note c = dr_values_cases [OF this, of k tid]
  show ?thesis
  proof (cases "wants tid (hardware_breakpoints s ! k)")
    case True
    then obtain a d where "dr_values (hardware_breakpoints s ! k) k tid = Ok (Some (a, d))" using c by simp
    then show ?thesis using some [OF True, of a d] dr_values_bits [OF _ assms(2)] assms by (simp add: slot_values_def length_slots)
  next
    case False
    then show ?thesis using none c assms by (simp add: slot_values_def length_slots)
  qed
qed

text \<open>The bits of \<open>w\<close> cover the slots below \<open>k\<close> that the thread wants.\<close>

definition covers :: "'m Dbg \<Rightarrow> nat \<Rightarrow> nat \<Rightarrow> u64 \<Rightarrow> bool" where
  "covers s tid k w \<longleftrightarrow> (\<forall>j < k. wants tid (hardware_breakpoints s ! j) \<longrightarrow> bit w (2 * j))"

lemma covers_shrunk: "covers s tid k w \<Longrightarrow> shrunk (hardware_breakpoints s) (hardware_breakpoints s') \<Longrightarrow> k \<le> length (hardware_breakpoints s) \<Longrightarrow> covers s' tid k w"
  unfolding covers_def by (metis shrunk_wants less_le_trans)

lemma covers_Suc: "covers s tid k w \<Longrightarrow> (wants tid (hardware_breakpoints s ! k) \<Longrightarrow> bit v (2 * k)) \<Longrightarrow> covers s tid (Suc k) (w OR v)"
  by (auto simp: covers_def less_Suc_eq bit_or_iff)

lemma covers_Suc_same: "covers s tid k w \<Longrightarrow> \<not> wants tid (hardware_breakpoints s ! k) \<Longrightarrow> covers s tid (Suc k) w"
  by (auto simp: covers_def less_Suc_eq)

lemma covers_tracee [simp]: "covers (s\<lparr>tracee := m\<rparr>) tid k w = covers s tid k w"
  by (simp add: covers_def)

definition regs_post :: "('m \<Rightarrow> nat \<Rightarrow> u8) \<Rightarrow> nat set \<Rightarrow> (nat \<Rightarrow> u8) \<Rightarrow> 'm Dbg \<Rightarrow> 'm Dbg \<Rightarrow> bool" where
  "regs_post mem text code s s' \<longleftrightarrow> bp_inv mem text code s' \<and> same_locations s s' \<and> idle_kept s s' \<and> shrunk (hardware_breakpoints s) (hardware_breakpoints s')"

lemma regs_post_trans: "regs_post mem text code s s' \<Longrightarrow> regs_post mem text code s' s'' \<Longrightarrow> regs_post mem text code s s''"
  using same_locations_trans shrunk_trans idle_kept_trans unfolding regs_post_def by blast

lemma try_slots_runs:
  assumes laws: "tracee_laws tg mem" "alive tg"
  shows "bp_inv mem text code s \<Longrightarrow> strict s \<Longrightarrow> k \<le> 4 \<Longrightarrow> covers s tid 4 dr7 \<Longrightarrow> (\<not> err \<longrightarrow> (\<exists>j<k. bit dr7 (2 * j))) \<Longrightarrow> covers s tid k new \<Longrightarrow>
    runs (try_slots tg tid [k..<4] dr7 err new assigned) s (\<lambda>v s'. regs_post mem text code s s' \<and> covers s' tid 4 (fst v)) (regs_post mem text code s)"
proof (induction "4 - k" arbitrary: k s err new assigned)
  case 0
  then show ?case by (simp add: regs_post_def idle_kept_same)
next
  case (Suc n)
  have k: "[k..<4] = k # [Suc k..<4]" "k < 4" "n = 4 - Suc k" using Suc.hyps(2) by (auto simp: upt_conv_Cons)
  note IH = Suc.hyps(1) [OF k(3)]
  from Suc.prems(1) k(2) show ?case
  proof (cases rule: slot_values_cases [where tid = tid])
    case none
    have "\<not> err \<longrightarrow> (\<exists>j<Suc k. bit dr7 (2 * j))" using Suc.prems(5) less_Suc_eq by blast
    then show ?thesis using none IH [of s err new assigned] Suc.prems k
      by (simp add: k(1) runs_bind) (simp add: runs_def covers_Suc_same)
  next
    case (some a d)
    let ?single = "d OR dr7_common"
    let ?Q = "\<lambda>v s'. regs_post mem text code s s' \<and> covers s' tid 4 (fst v)"
    let ?refused = "sbind (give_up tg tid k) (\<lambda>_ s. if h_active (hardware_breakpoints s ! k) then (Panic, s)
            else try_slots tg tid [Suc k..<4] dr7 False new assigned s)"
    have bk: "bit dr7 (2 * k)" using Suc.prems(4) k(2) some(1) by (simp add: covers_def)
    have refused: "runs ?refused s1 ?Q (regs_post mem text code s)" if "s1 = s\<lparr>tracee := m\<rparr>" "bp_inv mem text code s1" for s1 m
    proof -
      have st: "strict s1" "h_active (hardware_breakpoints s1 ! k)" using that(1) Suc.prems(2) some(1) by (simp_all add: strict_def wants_def)
      show ?thesis unfolding runs_bind
      proof (rule runs_mono [OF give_up_runs [OF laws that(2) st(1) k(2) st(2), of tid]])
        fix s2 assume s2: "bp_inv mem text code s2 \<and> same_locations s1 s2 \<and> \<not> h_active (hardware_breakpoints s2 ! k)
          \<and> idle_kept s1 s2 \<and> shrunk (hardware_breakpoints s1) (hardware_breakpoints s2) \<and> tracee s2 = tracee s1"
        have post: "regs_post mem text code s s2" using s2 that(1) by (simp add: regs_post_def same_locations_def idle_kept_def)
        have sh: "shrunk (hardware_breakpoints s) (hardware_breakpoints s2)" using post by (simp add: regs_post_def)
        have "covers s2 tid 4 dr7" "covers s2 tid k new"
          using covers_shrunk [OF Suc.prems(4) sh] covers_shrunk [OF Suc.prems(6) sh] k(2) Suc.prems(1) by (simp_all add: length_slots)
        moreover have "\<not> wants tid (hardware_breakpoints s2 ! k)" using s2 by (simp add: wants_def)
        ultimately have "runs (try_slots tg tid [Suc k..<4] dr7 False new assigned) s2
            (\<lambda>v s'. regs_post mem text code s2 s' \<and> covers s' tid 4 (fst v)) (regs_post mem text code s2)"
          using s2 k(2) bk same_locations_strict st(1) by (intro IH) (auto intro: covers_Suc_same)
        then have "runs (try_slots tg tid [Suc k..<4] dr7 False new assigned) s2 ?Q (regs_post mem text code s)"
          by (rule runs_mono) (use regs_post_trans [OF post] in auto)
        then show "runs (\<lambda>s. if h_active (hardware_breakpoints s ! k) then (Panic, s) else try_slots tg tid [Suc k..<4] dr7 False new assigned s) s2
            ?Q (regs_post mem text code s)" using s2 by (simp add: runs_def)
      qed simp
    qed
    show ?thesis
    proof (cases "?single = dr7")
      case True
      have "err"
      proof (rule ccontr)
        assume "\<not> err"
        then obtain j where "j < k" "bit dr7 (2 * j)" using Suc.prems(5) by blast
        then show False using True some(3) [of j] dr7_common_bits [of j] k(2) by (auto simp: bit_or_iff)
      qed
      then have "try_slots tg tid [k..<4] dr7 err new assigned s = ?refused s"
        using True some(2) by (simp add: k(1) sbind.simps Let_def)
      then show ?thesis using refused [of s "tracee s"] Suc.prems(1) by (simp only: runs_def) simp
    next
      case False
      obtain r m where w: "t_pokeuser tg (tracee s) tid 7 ?single = (r, m)" by fastforce
      have inv: "bp_inv mem text code (s\<lparr>tracee := m\<rparr>)" by (rule bp_inv_pokeuser [OF laws(1) Suc.prems(1) w])
      have "try_slots tg tid [k..<4] dr7 err new assigned s = (case r of
          Inr _ \<Rightarrow> try_slots tg tid [Suc k..<4] dr7 err (new OR d) ?single (s\<lparr>tracee := m\<rparr>)
        | Inl e \<Rightarrow> if e = EINVAL then ?refused (s\<lparr>tracee := m\<rparr>) else (Err (Sys e), s\<lparr>tracee := m\<rparr>))"
        using some(2) w False by (cases r) (auto simp: k(1) sbind.simps Let_def sys_write_def split: SysError.splits)
      moreover have "runs (try_slots tg tid [Suc k..<4] dr7 err (new OR d) ?single) (s\<lparr>tracee := m\<rparr>) ?Q (regs_post mem text code s)"
        by (rule runs_mono [OF IH [OF inv]])
          (use Suc.prems k(2) some(3) in \<open>auto simp: strict_def regs_post_def same_locations_def idle_kept_def less_Suc_eq intro: covers_Suc\<close>)
      moreover have "regs_post mem text code s (s\<lparr>tracee := m\<rparr>)" using inv by (simp add: regs_post_def idle_kept_same)
      ultimately show ?thesis using refused [OF refl inv] by (cases r) (auto simp: runs_def split: if_splits)
    qed
  qed
qed

lemma write_addresses_runs:
  assumes laws: "tracee_laws tg mem"
  shows "bp_inv mem text code s \<Longrightarrow> k \<le> 4 \<Longrightarrow> covers s tid k dr7 \<Longrightarrow>
    runs (write_addresses tg tid [k..<4] dr7) s (\<lambda>v s'. regs_post mem text code s s' \<and> covers s' tid 4 v) (regs_post mem text code s)"
proof (induction "4 - k" arbitrary: k s dr7)
  case 0
  then show ?case by (simp add: regs_post_def idle_kept_same)
next
  case (Suc n)
  have k: "[k..<4] = k # [Suc k..<4]" "k < 4" "n = 4 - Suc k" using Suc.hyps(2) by (auto simp: upt_conv_Cons)
  note IH = Suc.hyps(1) [OF k(3)]
  from Suc.prems(1) k(2) show ?case
  proof (cases rule: slot_values_cases [where tid = tid])
    case none
    then show ?thesis using IH [of s dr7] Suc.prems k by (simp add: k(1) runs_bind) (simp add: runs_def covers_Suc_same)
  next
    case (some a d)
    obtain r m where w: "t_pokeuser tg (tracee s) tid k (word_of_nat a) = (r, m)" by fastforce
    have inv: "bp_inv mem text code (s\<lparr>tracee := m\<rparr>)" by (rule bp_inv_pokeuser [OF laws Suc.prems(1) w])
    then have post: "regs_post mem text code s (s\<lparr>tracee := m\<rparr>)" by (simp add: regs_post_def idle_kept_same)
    have "runs (write_addresses tg tid [Suc k..<4] (dr7 OR d)) (s\<lparr>tracee := m\<rparr>)
       (\<lambda>v s'. regs_post mem text code s s' \<and> covers s' tid 4 v) (regs_post mem text code s)"
      by (rule runs_mono [OF IH [OF inv]])
        (use Suc.prems(3) k(2) some(3) regs_post_trans [OF post] in \<open>auto intro: covers_Suc\<close>)
    moreover have "write_addresses tg tid [k..<4] dr7 s = (case r of Inr _ \<Rightarrow> write_addresses tg tid [Suc k..<4] (dr7 OR d) (s\<lparr>tracee := m\<rparr>)
        | Inl e \<Rightarrow> (Err (Sys e), s\<lparr>tracee := m\<rparr>))"
      using some(2) w by (cases r) (auto simp: k(1) sbind.simps sys_write_def)
    ultimately show ?thesis using post by (cases r) (auto simp: runs_def)
  qed
qed

lemma write_dr7_runs:
  assumes laws: "tracee_laws tg mem" "alive tg"
  shows "bp_inv mem text code s \<Longrightarrow> strict s \<Longrightarrow> covers s tid 4 dr7 \<Longrightarrow>
    runs (write_dr7 tg tid (Suc n) dr7 assigned) s (\<lambda>_. regs_post mem text code s) (regs_post mem text code s)"
proof (induction n arbitrary: s dr7 assigned)
  case (0 s dr7 assigned)
  obtain r m where w: "t_pokeuser tg (tracee s) tid 7 dr7 = (r, m)" by fastforce
  have "regs_post mem text code s (s\<lparr>tracee := m\<rparr>)" "regs_post mem text code s s"
    using 0 bp_inv_pokeuser [OF laws(1) 0(1) w] by (simp_all add: regs_post_def idle_kept_same)
  then show ?case using w by (cases r) (auto simp: runs_def sys_write_def split: SysError.splits)
next
  case (Suc n s dr7 assigned)
  obtain r m where w: "t_pokeuser tg (tracee s) tid 7 dr7 = (r, m)" by fastforce
  have inv: "bp_inv mem text code (s\<lparr>tracee := m\<rparr>)" by (rule bp_inv_pokeuser [OF laws(1) Suc.prems(1) w])
  then have post: "regs_post mem text code s (s\<lparr>tracee := m\<rparr>)" "regs_post mem text code s s"
    using Suc.prems by (simp_all add: regs_post_def idle_kept_same)
  have "runs (sbind (try_slots tg tid [0..<4] dr7 True dr7_common assigned) (\<lambda>(new, assigned). write_dr7 tg tid (Suc n) new assigned)) (s\<lparr>tracee := m\<rparr>)
     (\<lambda>_. regs_post mem text code s) (regs_post mem text code s)"
    unfolding runs_bind
  proof (rule runs_mono [OF try_slots_runs [OF laws inv]], goal_cases)
    case (6 v s')
    then have s': "regs_post mem text code s s'" using regs_post_trans [OF post(1)] by blast
    then have "runs (write_dr7 tg tid (Suc n) (fst v) (snd v)) s' (\<lambda>_. regs_post mem text code s') (regs_post mem text code s')"
      using 6 Suc.prems(2) same_locations_strict by (intro Suc.IH) (auto simp: regs_post_def)
    then show ?case unfolding case_prod_beta by (rule runs_mono) (use regs_post_trans [OF s'] in auto)
  qed (use Suc.prems regs_post_trans [OF post(1)] in \<open>auto simp: strict_def covers_def\<close>)
  then show ?case using w post
    by (cases r) (auto simp: runs_def sys_write_def simp del: write_dr7.simps(1) split: SysError.splits)
qed

lemma set_debug_registers_runs:
  assumes laws: "tracee_laws tg mem" "alive tg" and inv: "bp_inv mem text code s" and st: "strict s"
  shows "runs (set_debug_registers_for_thread tg tid) s (\<lambda>_. regs_post mem text code s) (regs_post mem text code s)"
proof -
  have first: "runs (sys_write (\<lambda>m. t_pokeuser tg m tid 7 dr7_common)) s (\<lambda>_. regs_post mem text code s) (regs_post mem text code s)"
    using bp_inv_pokeuser [OF laws(1) inv, of tid 7 dr7_common]
    by (auto simp: runs_sys_write regs_post_def idle_kept_same split: prod.splits sum.splits)
  have "runs (write_addresses tg tid [0..<4] dr7_common) s1
      (\<lambda>dr7 s2. runs (write_dr7 tg tid 6 dr7 dr7_common) s2 (\<lambda>_. regs_post mem text code s) (regs_post mem text code s)) (regs_post mem text code s)"
    if s1: "regs_post mem text code s s1" for s1
  proof (rule runs_mono [OF write_addresses_runs [OF laws(1)]])
    show "bp_inv mem text code s1" "covers s1 tid 0 dr7_common" using s1 by (simp_all add: regs_post_def covers_def)
  next
    fix v s2 assume s2: "regs_post mem text code s1 s2 \<and> covers s2 tid 4 v"
    then have post: "regs_post mem text code s s2" using regs_post_trans [OF s1] by blast
    then have "runs (write_dr7 tg tid (Suc 5) v dr7_common) s2 (\<lambda>_. regs_post mem text code s2) (regs_post mem text code s2)"
      using s2 same_locations_strict [OF _ st] by (intro write_dr7_runs [OF laws]) (auto simp: regs_post_def)
    then show "runs (write_dr7 tg tid 6 v dr7_common) s2 (\<lambda>_. regs_post mem text code s) (regs_post mem text code s)"
      by (simp add: eval_nat_numeral del: write_dr7.simps) (erule runs_mono; use regs_post_trans [OF post] in blast)
  qed (use regs_post_trans [OF s1] in auto)
  with first have "runs (set_debug_registers_for_thread_impl tg tid) s (\<lambda>_. regs_post mem text code s) (regs_post mem text code s)"
    unfolding set_debug_registers_for_thread_impl_def runs_bind by (rule runs_mono)
  then show ?thesis
    by (auto simp: runs_def set_debug_registers_for_thread_def unless_gone_def split: prod.splits result.splits BpError.splits SysError.splits)
qed

lemma push_registers_runs:
  assumes laws: "tracee_laws tg mem" "alive tg" and inv: "bp_inv mem text code s" and st: "strict s"
  shows "runs (push_registers tg) s (\<lambda>_ s'. bp_inv mem text code s' \<and> same_locations s s' \<and> idle_kept s s'
    \<and> (\<forall>h\<in>set (hardware_breakpoints s'). h_active h \<longrightarrow> pushed_to_threads h)) (bp_inv mem text code)"
proof (cases "list_ex (\<lambda>h. h_active h \<and> \<not> pushed_to_threads h) (hardware_breakpoints s)")
  case True
  let ?tids = "map fst (filter (\<lambda>(_, t). \<not> exiting t) (threads s))"
  have "runs (for_each (set_debug_registers_for_thread tg) ?tids) s (\<lambda>_. regs_post mem text code s) (bp_inv mem text code)"
  proof (rule runs_for_each)
    show "regs_post mem text code s s" using inv by (simp add: regs_post_def idle_kept_same)
  next
    fix tid s' assume s': "regs_post mem text code s s'"
    then have "bp_inv mem text code s'" "strict s'" using same_locations_strict [OF _ st] by (simp_all add: regs_post_def idle_kept_same)
    from set_debug_registers_runs [OF laws this] show "runs (set_debug_registers_for_thread tg tid) s' (\<lambda>_. regs_post mem text code s) (bp_inv mem text code)"
      by (rule runs_mono) (use regs_post_trans [OF s'] in \<open>auto simp: regs_post_def\<close>)
  qed
  moreover have "bp_inv mem text code (s'\<lparr>hardware_breakpoints := map (\<lambda>h. h\<lparr>pushed_to_threads := True\<rparr>) (hardware_breakpoints s')\<rparr>)"
    if "bp_inv mem text code s'" for s'
    using that by (auto simp: bp_inv_def slot_ok_def split: option.splits)
  ultimately have "runs (sbind (for_each (set_debug_registers_for_thread tg) ?tids)
       (\<lambda>_ s. (Ok (), s\<lparr>hardware_breakpoints := map (\<lambda>h. h\<lparr>pushed_to_threads := True\<rparr>) (hardware_breakpoints s)\<rparr>))) s
      (\<lambda>_ s'. bp_inv mem text code s' \<and> same_locations s s' \<and> idle_kept s s' \<and> (\<forall>h\<in>set (hardware_breakpoints s'). h_active h \<longrightarrow> pushed_to_threads h)) (bp_inv mem text code)"
    unfolding runs_bind by (elim runs_mono) (auto simp: runs_def regs_post_def idle_kept_def)
  then show ?thesis using True by (simp add: runs_def push_registers_def)
next
  case False
  then show ?thesis using inv by (auto simp: runs_def push_registers_def list_ex_iff idle_kept_same)
qed

section \<open>\<open>handle_breakpoints\<close>\<close>

text \<open>A location is hardware exactly when a thread stands there.\<close>

definition kinds_ok :: "'m Dbg \<Rightarrow> bool" where
  "kinds_ok s \<longleftrightarrow> (\<forall>l\<in>set (locations s). hardware l \<longleftrightarrow> thread_addresses (threads s) (addr l) \<noteq> None)"

lemma kinds_ok_addr_kind:
  assumes "\<forall>l\<in>set (locations s). hardware l \<longleftrightarrow> ta (addr l) \<noteq> None" "map addr_kind (locations s') = map addr_kind (locations s)"
    and "\<And>a. thread_addresses (threads s') a = None \<longleftrightarrow> ta a = None"
  shows "kinds_ok s'"
proof -
  have "set (map addr_kind (locations s')) = set (map addr_kind (locations s))" by (simp only: assms(2))
  then have "addr_kind l \<in> addr_kind ` set (locations s)" if "l \<in> set (locations s')" for l
    using that by (metis imageI set_map)
  then show ?thesis using assms(1,3) by (fastforce simp: kinds_ok_def addr_kind_def)
qed

lemma handle_breakpoints_runs:
  assumes laws: "tracee_laws tg mem" "alive tg" and inv: "bp_inv mem text code s" and st: "strict s" and idle: "\<not> any_running s"
  shows "runs (handle_breakpoints tg) s
    (\<lambda>_ s'. bp_inv mem text code s' \<and> strict s' \<and> map addr (locations s') = map addr (kept (locations s))
       \<and> idle_kept s s' \<and> env s' = env s \<and> settled (locations s') \<and> kinds_ok s' \<and> (\<forall>h\<in>set (hardware_breakpoints s'). h_active h \<longrightarrow> pushed_to_threads h))
    (bp_inv mem text code)" (is "runs _ s ?Q _")
proof -
  have last: "runs (push_registers tg) s3 ?Q (bp_inv mem text code)"
    if s1: "locations s1 = kept (locations s)" "same_rest s s1" and s2: "same_threads s1 s2" "map addr (locations s2) = map addr (locations s1)"
      "\<forall>l\<in>set (locations s2). hardware l \<longleftrightarrow> thread_addresses (threads s1) (addr l) \<noteq> None"
      and s3: "bp_inv mem text code s3" "same_rest s2 s3" "map addr_kind (locations s3) = map addr_kind (locations s2)" "settled (locations s3)" for s1 s2 s3
  proof -
    have a: "map addr (locations s3) = map addr (kept (locations s))" using map_addr_kind [OF s3(3)] s2(2) s1(1) by simp
    moreover have "sorted_wrt (<) (map addr (kept (locations s)))"
      using st by (simp add: strict_def kept_def sorted_wrt_map sorted_wrt_filter)
    ultimately have st3: "strict s3" by (simp add: strict_def)
    show ?thesis
    proof (rule runs_mono [OF push_registers_runs [OF laws s3(1) st3]])
      fix s4 assume s4: "bp_inv mem text code s4 \<and> same_locations s3 s4 \<and> idle_kept s3 s4 \<and> (\<forall>h\<in>set (hardware_breakpoints s4). h_active h \<longrightarrow> pushed_to_threads h)"
      then have k: "map addr_kind (locations s4) = map addr_kind (locations s3)" "threads s4 = threads s2"
        using s3(2) by (simp_all add: same_locations_def same_rest_def)
      have "kinds_ok s4"
        by (rule kinds_ok_addr_kind [OF s2(3)]) (use k s3(3) same_threads_running(2) [OF s2(1)] in simp_all)
      moreover have "env s4 = env s" using s1(2) s2(1) s3(2) s4 by (simp add: same_rest_def same_threads_def same_locations_def)
      moreover have "breakpoints s3 = breakpoints s" using s1(2) s2(1) s3(2) by (simp add: same_rest_def same_threads_def)
      then have "idle_kept s s4" using s4 by (simp add: idle_kept_def)
      ultimately show "?Q () s4"
        using s4 s3(4) a map_addr_kind [OF k(1)] same_locations_strict [OF _ st3] by (simp add: same_locations_def)
    qed simp
  qed
  have mid: "runs (on_each (try_activate tg)) s2 (\<lambda>_ s3. runs (push_registers tg) s3 ?Q (bp_inv mem text code)) (bp_inv mem text code)"
    if s1: "locations s1 = kept (locations s)" "same_rest s s1" and s2: "bp_inv mem text code s2" "same_threads s1 s2" "map addr (locations s2) = map addr (locations s1)"
      "\<forall>l\<in>set (locations s2). hardware l \<longleftrightarrow> thread_addresses (threads s1) (addr l) \<noteq> None" for s1 s2
  proof -
    have "\<not> any_running s2" using idle same_threads_running(1) [OF same_rest_threads [OF s1(2)]] same_threads_running(1) [OF s2(2)] by simp
    from activate_all_runs [OF laws(1) s2(1) this] show ?thesis
      by (rule runs_mono) (use last [OF s1 s2(2-4)] in auto)
  qed
  have "runs (\<lambda>s1. sbind (on_each (convert tg (thread_addresses (threads s1)))) (\<lambda>_. sbind (on_each (try_activate tg)) (\<lambda>_. push_registers tg)) s1) s1
      ?Q (bp_inv mem text code)" if s1: "bp_inv mem text code s1" "same_rest s s1" "locations s1 = kept (locations s)" for s1
    unfolding runs_with runs_bind
    by (rule runs_mono [OF convert_all_runs [OF laws s1(1), of "thread_addresses (threads s1)"]]) (use mid [OF s1(3,2)] in auto)
  then show ?thesis
    unfolding handle_breakpoints_def runs_bind by (intro runs_mono [OF remove_stale_runs [OF laws inv]]) auto
qed

end
