(* ===== verification/BreakOps.thy ===== *)
theory BreakOps
  imports BreakLoc
begin

text \<open>
  The commands on breakpoints (\<open>src/debugger.rs\<close>): adding, enabling and changing them, activating
  them when the process is ready, stopping all threads before the locations are handled, waiting for
  symbols, and reading code for the disassembler. The binaries are a parameter: a list of their
  identifiers, each with whether its symbols are loaded.
\<close>

section \<open>Stopping the threads\<close>

text \<open>The number of threads that run and have been asked to stop.\<close>

fun interrupt_threads :: "'m tracee_ops \<Rightarrow> (nat \<times> Thread) list \<Rightarrow> 'm \<Rightarrow> (nat, BpError) result \<times> (nat \<times> Thread) list \<times> 'm" where
  "interrupt_threads tg [] m = (Ok 0, [], m)"
| "interrupt_threads tg ((tid, t) # ts) m =
     (if running t \<and> \<not> exiting t then
        (let (r, m) = (if sent_interrupt t then (Inr (), m) else t_interrupt tg m tid) in
         if r \<noteq> Inr () \<and> r \<noteq> Inl ESRCH then (Err (Sys (projl r)), (tid, t) # ts, m)
         else (let (n, ts, m) = interrupt_threads tg ts m in (rbind n (\<lambda>n. Ok (Suc n)), (tid, t\<lparr>sent_interrupt := True\<rparr>) # ts, m)))
      else (let (n, ts, m) = interrupt_threads tg ts m in (n, (tid, t) # ts, m)))"

definition ptrace_interrupt_all_running_threads :: "'m tracee_ops \<Rightarrow> ('m, nat) dbg" where
  "ptrace_interrupt_all_running_threads tg s = (let (n, ts, m) = interrupt_threads tg (threads s) (tracee s) in (n, s\<lparr>threads := ts, tracee := m\<rparr>))"

definition arrange_handle_breakpoints :: "'m tracee_ops \<Rightarrow> ('m, unit) dbg" where
  "arrange_handle_breakpoints tg s = (if stopping_to_handle_breakpoints s then (Ok (), s)
     else sbind (ptrace_interrupt_all_running_threads tg) (\<lambda>n s. if n > 0 then (Ok (), s\<lparr>stopping_to_handle_breakpoints := True\<rparr>)
       else handle_breakpoints tg s) s)"

text \<open>The end of the event loop: once every thread has stopped, the locations are handled.\<close>

definition handle_when_stopped :: "'m tracee_ops \<Rightarrow> ('m, unit) dbg" where
  "handle_when_stopped tg s = (if stopping_to_handle_breakpoints s \<and> \<not> any_running s
     then sbind (handle_breakpoints tg) (\<lambda>_ s. (Ok (), s\<lparr>stopping_to_handle_breakpoints := False\<rparr>)) s
     else (Ok (), s))"

section \<open>Waiting for symbols\<close>

type_synonym binaries = "(nat \<times> bool) list"

definition needs_symbols :: "Breakpoint \<Rightarrow> bool" where
  "needs_symbols b \<longleftrightarrow> bp_enabled b \<and> bp_addrs b = Err Loading \<and> should_wait_for_symbols (bp_on b)"

definition check_if_we_should_wait_for_symbols_to_load :: "binaries \<Rightarrow> ('m, unit) dbg" where
  "check_if_we_should_wait_for_symbols_to_load bins s =
     (if \<not> process_ready (target_state s) then (Panic, s)
      else if pending_step s = None \<and> \<not> list_ex (\<lambda>(_, b). needs_symbols b) (iter_mut (breakpoints s))
      then (Ok (), s\<lparr>stopped_until_symbols_are_loaded := None\<rparr>)
      else if (case stopped_until_symbols_are_loaded s of Some i \<Rightarrow> map_of bins i = Some False | None \<Rightarrow> False) then (Ok (), s)
      else (case find (\<lambda>(_, loaded). \<not> loaded) bins of
          Some (i, _) \<Rightarrow> (Ok (), s\<lparr>stopped_until_symbols_are_loaded := Some i\<rparr>)
        | None \<Rightarrow> (Panic, s)))"

section \<open>Commands\<close>

fun activate_ids :: "'m tracee_ops \<Rightarrow> (Breakpoint \<Rightarrow> Breakpoint) \<Rightarrow> Id list \<Rightarrow> bool \<Rightarrow> bool \<Rightarrow> ('m, bool \<times> bool) dbg" where
  "activate_ids tg resolve [] handle wait = sret (handle, wait)"
| "activate_ids tg resolve (i # is) handle wait =
     sbind (activate_one tg resolve i) (\<lambda>(h, w). activate_ids tg resolve is (handle \<or> h) (wait \<or> w))"

definition wait_for_symbols :: "'m tracee_ops \<Rightarrow> binaries \<Rightarrow> ('m, unit) dbg" where
  "wait_for_symbols tg bins = sbind (check_if_we_should_wait_for_symbols_to_load bins) (\<lambda>_ s.
     if stopped_until_symbols_are_loaded s = None then (Panic, s)
     else sbind (ptrace_interrupt_all_running_threads tg) (\<lambda>_. sret ()) s)"

definition activate_breakpoints :: "'m tracee_ops \<Rightarrow> (Breakpoint \<Rightarrow> Breakpoint) \<Rightarrow> binaries \<Rightarrow> Id list \<Rightarrow> ('m, unit) dbg" where
  "activate_breakpoints tg resolve bins ids s = (if \<not> process_ready (target_state s) then (Panic, s)
     else sbind (activate_ids tg resolve ids False False) (\<lambda>(handle, wait).
       sbind (if handle then arrange_handle_breakpoints tg else sret ()) (\<lambda>_ s.
         if wait \<and> stopped_until_symbols_are_loaded s = None then wait_for_symbols tg bins s else (Ok (), s))) s)"

definition if_ready :: "('m, unit) dbg \<Rightarrow> ('m, unit) dbg" where
  "if_ready f s = (if process_ready (target_state s) then f s else (Ok (), s))"

definition add_to_pool :: "Breakpoint \<Rightarrow> ('m, Id) dbg" where
  "add_to_pool b s = (case add b (breakpoints s) of Ok (i, p) \<Rightarrow> (Ok i, s\<lparr>breakpoints := p\<rparr>) | _ \<Rightarrow> (Panic, s))"

definition add_breakpoint :: "'m tracee_ops \<Rightarrow> (Breakpoint \<Rightarrow> Breakpoint) \<Rightarrow> binaries \<Rightarrow> BreakpointOn \<Rightarrow> ('m, Id) dbg" where
  "add_breakpoint tg resolve bins on =
     (if (case on of Data a n r \<Rightarrow> n \<notin> {1, 2, 4, 8} | _ \<Rightarrow> False) then sthrow BadSize
      else sbind (add_to_pool (breakpoint_new on)) (\<lambda>i.
        sbind (if_ready (activate_breakpoints tg resolve bins [i])) (\<lambda>_. sret i)))"

definition set_breakpoint_enabled :: "'m tracee_ops \<Rightarrow> (Breakpoint \<Rightarrow> Breakpoint) \<Rightarrow> binaries \<Rightarrow> Id \<Rightarrow> bool \<Rightarrow> ('m, bool) dbg" where
  "set_breakpoint_enabled tg resolve bins i e s = (case try_get (breakpoints s) i of
      None \<Rightarrow> (Ok False, s)
    | Some b \<Rightarrow> if bp_enabled b = e then (Ok True, s)
        else sbind (if e then if_ready (activate_breakpoints tg resolve bins [i]) else deactivate_breakpoint i) (\<lambda>_. sret True)
          (put_breakpoint i (b\<lparr>bp_enabled := e\<rparr>) s))"

definition set_breakpoint_condition :: "Id \<Rightarrow> bytes option \<Rightarrow> 'm Dbg \<Rightarrow> 'm Dbg" where
  "set_breakpoint_condition i c s = (case try_get (breakpoints s) i of
      None \<Rightarrow> s | Some b \<Rightarrow> put_breakpoint i (b\<lparr>bp_condition := c\<rparr>) s)"

definition set_data_breakpoint_stop_on_read :: "'m tracee_ops \<Rightarrow> (Breakpoint \<Rightarrow> Breakpoint) \<Rightarrow> binaries \<Rightarrow> Id \<Rightarrow> bool \<Rightarrow> ('m, bool) dbg" where
  "set_data_breakpoint_stop_on_read tg resolve bins i r s = (case try_get (breakpoints s) i of
      None \<Rightarrow> (Ok False, s)
    | Some b \<Rightarrow> (case bp_on b of
          Data a n r' \<Rightarrow> if r' = r then (Ok False, s)
            else sbind (deactivate_breakpoint i) (\<lambda>_. sbind (if_ready (activate_breakpoints tg resolve bins [i])) (\<lambda>_. sret True))
              (put_breakpoint i (b\<lparr>bp_on := Data a n r\<rparr>) s)
        | _ \<Rightarrow> (Panic, s)))"

definition find_line_breakpoint_fuzzy :: "bytes \<Rightarrow> nat \<Rightarrow> 'm Dbg \<Rightarrow> Id option" where
  "find_line_breakpoint_fuzzy path ln s = map_option fst (find (\<lambda>(_, b). case bp_on b of
      Line p l adjusted \<Rightarrow> p = path \<and> (l = ln \<or> adjusted = Some ln) | _ \<Rightarrow> False) (iter_mut (breakpoints s)))"

section \<open>Code for the disassembler\<close>

text \<open>The loop over the locations below \<open>hi\<close>; an index out of range panics.\<close>

fun fix_up :: "BreakpointLocation list \<Rightarrow> nat \<Rightarrow> nat \<Rightarrow> bytes \<Rightarrow> (bytes, BpError) result" where
  "fix_up [] lo hi buf = Ok buf"
| "fix_up (l # ls) lo hi buf =
     (if addr l < hi then
        if \<not> hardware l \<and> active l
        then if lo \<le> addr l \<and> addr l - lo < length buf then fix_up ls lo hi (buf[addr l - lo := original_byte l]) else Panic
        else fix_up ls lo hi buf
      else Ok buf)"

definition load_code_for_decode :: "'m tracee_ops \<Rightarrow> nat \<Rightarrow> nat \<Rightarrow> 'm Dbg \<Rightarrow> (bytes, BpError) result" where
  "load_code_for_decode tg lo hi s =
     (if hi - lo > 100000000 then Err RangeTooLong
      else (case t_read tg (tracee s) lo (hi - lo) of
          Inl e \<Rightarrow> Err (Sys e)
        | Inr buf \<Rightarrow> fix_up (drop (partition_point (\<lambda>l. addr l < lo) (locations s)) (locations s)) lo hi buf))"

end
