(* ===== verification/BreakCmd.thy ===== *)
theory BreakCmd
  imports BreakRegs BreakOps
begin

text \<open>
  The commands on breakpoints keep the invariant and do not panic: adding locations, activating,
  removing and changing breakpoints, stopping the threads and waiting for symbols.
\<close>

section \<open>Adding locations\<close>

definition good :: "('m \<Rightarrow> nat \<Rightarrow> u8) \<Rightarrow> nat set \<Rightarrow> (nat \<Rightarrow> u8) \<Rightarrow> 'm Dbg \<Rightarrow> bool" where
  "good mem text code s \<longleftrightarrow> bp_inv mem text code s \<and> strict s"

lemma bp_inv_new_location:
  assumes "bp_inv mem text code s" "distinct (map addr ls)" "set ls = insert l (set (locations s))" "\<not> active l" "\<not> no_retry l"
  shows "bp_inv mem text code (s\<lparr>locations := ls\<rparr>)"
proof -
  have "patched code ls x = patched code (locations s) x" for x
    using assms(3,4) by (auto simp: patched_def list_ex_iff soft_def)
  then have "text_ok (mem (tracee s)) text code ls"
    using assms(1,3,4) by (auto simp: bp_inv_def text_ok_def soft_def)
  moreover have "slot_ok ls (breakpoints s) h" if "slot_ok (locations s) (breakpoints s) h" for h
    using that assms(3) by (auto simp: slot_ok_def split: option.splits)
  ultimately show ?thesis using assms by (auto simp: bp_inv_def retry_ok_def)
qed

lemma strict_insert:
  assumes "strict s" "i = partition_point (\<lambda>l. addr l < addr l') (locations s)"
    and "\<not> (i < length (locations s) \<and> addr (locations s ! i) = addr l')"
  shows "sorted_wrt (<) (map addr (take i (locations s) @ l' # drop i (locations s)))"
proof -
  have "addr l < addr l'" if "l \<in> set (take i (locations s))" for l
    using that partition_addr(1) [OF assms(1), of _ "addr l'"] by (auto simp: in_set_conv_nth assms(2))
  moreover have "addr l' < addr l" if l: "l \<in> set (drop i (locations s))" for l
  proof -
    obtain j where j: "i + j < length (locations s)" "l = locations s ! (i + j)"
    proof -
      from l obtain j where "j < length (drop i (locations s))" "drop i (locations s) ! j = l" unfolding in_set_conv_nth by blast
      then show thesis by (intro that [of j]) auto
    qed
    have "addr l' \<le> addr (locations s ! i)" using partition_addr(2) [OF assms(1), of "addr l'" i] assms(2) j(1) by simp
    moreover have "addr (locations s ! i) \<noteq> addr l'" using assms(3) j(1) by simp
    moreover have "addr (locations s ! i) \<le> addr l" using strict_less [OF assms(1), of i "i + j"] j by (cases "j = 0") auto
    ultimately show ?thesis by linarith
  qed
  moreover have "addr l < addr l''" if "l \<in> set (take i (locations s))" "l'' \<in> set (drop i (locations s))" for l l''
    using calculation that by fastforce
  moreover have "sorted_wrt (<) (map addr (take i (locations s)))" "sorted_wrt (<) (map addr (drop i (locations s)))"
    using assms(1) by (simp_all add: strict_def take_map [symmetric] drop_map [symmetric] sorted_wrt_take sorted_wrt_drop)
  ultimately show ?thesis by (simp add: sorted_wrt_append)
qed

lemma good_add_location: "good mem text code s \<Longrightarrow> good mem text code (add_breakpoint_location tg r a s)"
proof -
  assume "good mem text code s"
  then have inv: "bp_inv mem text code s" and st: "strict s" by (simp_all add: good_def)
  define i where "i = partition_point (\<lambda>l. addr l < a) (locations s)"
  show ?thesis
  proof (cases "i < length (locations s) \<and> addr (locations s ! i) = a")
    case True
    let ?l = "(locations s ! i)\<lparr>refs := refs (locations s ! i) @ [r]\<rparr>"
    have "bp_inv mem text code (s\<lparr>locations := (locations s)[i := ?l]\<rparr>)"
      by (rule bp_inv_same [OF inv]) (use True inv nth_mem [of i "locations s"] in \<open>auto simp: bp_inv_def retry_ok_def\<close>)
    moreover have "strict (s\<lparr>locations := (locations s)[i := ?l]\<rparr>)"
      using st True map_addr_update [of i "locations s" ?l] by (simp add: strict_def)
    ultimately show ?thesis using True by (simp add: good_def add_breakpoint_location_def Let_def i_def)
  next
    case False
    define l where "l = \<lparr>addr = a, original_byte = (case t_read8 tg (tracee s) a of Inr x \<Rightarrow> x | Inl _ \<Rightarrow> 0), hardware = False, active = False,
      refs = [r], error = None, no_retry = False\<rparr>"
    let ?ls = "take i (locations s) @ l # drop i (locations s)"
    have st': "sorted_wrt (<) (map addr ?ls)" by (rule strict_insert [OF st]) (use False in \<open>simp_all add: i_def l_def\<close>)
    have "set ?ls = insert l (set (locations s))"
      using set_append [of "take i (locations s)" "drop i (locations s)"] by simp
    moreover have "distinct (map addr ?ls)" using st' unfolding strict_sorted_iff by blast
    ultimately have "bp_inv mem text code (s\<lparr>locations := ?ls\<rparr>)"
      by (intro bp_inv_new_location [OF inv]) (assumption, assumption, simp_all add: l_def)
    moreover have "add_breakpoint_location tg r a s = s\<lparr>locations := ?ls\<rparr>"
      using False unfolding add_breakpoint_location_def Let_def i_def l_def by auto
    ultimately show ?thesis using st' by (simp add: good_def strict_def)
  qed
qed

lemma good_add_locations: "good mem text code s \<Longrightarrow> good mem text code (add_locations tg i as s)"
  unfolding add_locations_def by (induction as arbitrary: s) (auto intro: good_add_location)

section \<open>Breakpoints\<close>

lemma inactive_no_watch: "bp_inv mem text code s \<Longrightarrow> try_get (breakpoints s) i = Some b \<Longrightarrow> \<not> bp_active b \<Longrightarrow> no_watch i s"
  by (fastforce simp: no_watch_def bp_inv_def slot_ok_def)

lemma good_put:
  "good mem text code s \<Longrightarrow> try_get (breakpoints s) i \<noteq> None \<Longrightarrow> bp_ok b \<Longrightarrow> bp_active b \<or> no_watch i s \<Longrightarrow> good mem text code (put_breakpoint i b s)"
  using bp_inv_put [of mem "text" code s i b] by (simp add: good_def strict_def put_breakpoint_def)

lemma pool_bp_ok: "good mem text code s \<Longrightarrow> try_get (breakpoints s) i = Some b \<Longrightarrow> bp_ok b"
  by (auto simp: good_def bp_inv_def pool_ok_def)

text \<open>
  What the symbols promise: they keep the kind of a breakpoint and its flags, a breakpoint that is
  resolved has an address, and they are loading only while some binary is.
\<close>

definition resolve_ok :: "(Breakpoint \<Rightarrow> Breakpoint) \<Rightarrow> binaries \<Rightarrow> bool" where
  "resolve_ok resolve bins \<longleftrightarrow> (\<forall>b. \<not> is_data (bp_on b) \<longrightarrow> \<not> is_data (bp_on (resolve b))
     \<and> bp_addrs (resolve b) \<noteq> Ok [] \<and> bp_addrs (resolve b) \<noteq> Panic
     \<and> bp_active (resolve b) = bp_active b \<and> bp_enabled (resolve b) = bp_enabled b
     \<and> (bp_addrs (resolve b) = Err Loading \<longrightarrow> list_ex (\<lambda>(_, loaded). \<not> loaded) bins))"

lemma not_data_size: "\<not> is_data b \<Longrightarrow> size_ok b"
  by (cases b) simp_all

text \<open>What activating a breakpoint leaves alone.\<close>

definition only_breakpoint :: "Id \<Rightarrow> 'm Dbg \<Rightarrow> 'm Dbg \<Rightarrow> bool" where
  "only_breakpoint i s s' \<longleftrightarrow> (\<forall>j. j \<noteq> i \<longrightarrow> try_get (breakpoints s') j = try_get (breakpoints s) j) \<and> try_get (breakpoints s') i \<noteq> None
     \<and> env s' = env s \<and> threads s' = threads s"

lemma only_breakpoint_put: "try_get (breakpoints s) i \<noteq> None \<Longrightarrow> only_breakpoint i s (put_breakpoint i b s)"
  by (auto simp: only_breakpoint_def put_breakpoint_def try_get_try_set)

lemma good_activate_data:
  assumes g: "good mem text code s" and b: "try_get (breakpoints s) i = Some b" "\<not> bp_active b" "bp_on b = Data a n r"
  shows "runs (activate_data i b a n r) s (\<lambda>v s'. good mem text code s' \<and> only_breakpoint i s s' \<and> \<not> snd v) (\<lambda>_. False)"
proof (cases "free_slot (hardware_breakpoints s)")
  case None
  let ?b = "b\<lparr>bp_enabled := False, bp_addrs := Err OutOfHardwareBreakpoints\<rparr>"
  have "no_watch i s" using inactive_no_watch [OF _ b(1,2)] g by (auto simp: good_def)
  then have "good mem text code (put_breakpoint i ?b s)"
    using good_put [OF g, of i ?b] b(1) pool_bp_ok [OF g b(1)] by (simp add: bp_ok_def)
  then show ?thesis using None only_breakpoint_put [of s i ?b] b(1) by (simp add: runs_def activate_data_def)
next
  case (Some k)
  let ?b = "b\<lparr>bp_active := True, bp_addrs := Err NotCalculated\<rparr>"
  let ?h = "no_hardware\<lparr>h_active := True, h_addr := a, data_breakpoint_id := Some i, stop_on_read := r, data_size := n\<rparr>"
  let ?s = "(put_breakpoint i ?b s)\<lparr>hardware_breakpoints := (hardware_breakpoints s)[k := ?h]\<rparr>"
  have run: "activate_data i b a n r s = (Ok (True, False), ?s)" using Some by (simp add: activate_data_def put_breakpoint_def)
  have n: "n \<in> {1, 2, 4, 8}" using pool_bp_ok [OF g b(1)] b(3) by (simp add: bp_ok_def)
  have g': "good mem text code (put_breakpoint i ?b s)"
    by (rule good_put [OF g]) (use b pool_bp_ok [OF g b(1)] in \<open>simp_all add: bp_ok_def\<close>)
  have "try_get (breakpoints (put_breakpoint i ?b s)) i = Some ?b" using b(1) by (simp add: put_breakpoint_def try_get_try_set)
  then have "slot_ok (locations s) (breakpoints (put_breakpoint i ?b s)) ?h" using n by (simp add: slot_ok_def no_hardware_def)
  moreover have "h = ?h \<or> h \<in> set (hardware_breakpoints s)" if "h \<in> set ((hardware_breakpoints s)[k := ?h])" for h
    using that set_update_subset_insert by fastforce
  ultimately have "good mem text code ?s" using g' by (auto simp: good_def bp_inv_def strict_def put_breakpoint_def)
  moreover have "only_breakpoint i s ?s" using only_breakpoint_put [of s i ?b] b(1) by (simp add: only_breakpoint_def)
  ultimately show ?thesis unfolding runs_def run by simp
qed

text \<open>A breakpoint that waits for symbols.\<close>

definition waiting :: "'m Dbg \<Rightarrow> Id \<Rightarrow> bool" where
  "waiting s i \<longleftrightarrow> (\<exists>b. try_get (breakpoints s) i = Some b \<and> needs_symbols b \<and> \<not> bp_active b)"

lemma frame_add_locations: "breakpoints (add_locations tg i as s) = breakpoints s \<and> env (add_locations tg i as s) = env s
    \<and> threads (add_locations tg i as s) = threads s"
proof (induction as arbitrary: s)
  case (Cons x as)
  then show ?case by (cases x) (simp add: add_locations_def add_breakpoint_location_def Let_def)
qed (simp add: add_locations_def)

lemma good_activate_code:
  assumes g: "good mem text code s" and res: "resolve_ok resolve bins"
    and b: "try_get (breakpoints s) i = Some b" "\<not> bp_active b" "bp_enabled b" "\<not> is_data (bp_on b)"
  shows "runs (activate_code tg resolve i b) s (\<lambda>v s'. good mem text code s' \<and> only_breakpoint i s s'
    \<and> (snd v \<longrightarrow> waiting s' i \<and> list_ex (\<lambda>(_, loaded). \<not> loaded) bins)) (\<lambda>_. False)"
proof -
  define b' where "b' = (if is_Ok (bp_addrs b) then b else resolve b)"
  have r: "\<not> is_data (bp_on b')" "\<not> bp_active b'" "bp_enabled b'" "bp_addrs b' \<noteq> Ok []" "bp_addrs b' \<noteq> Panic"
    "bp_addrs b' = Err Loading \<longrightarrow> list_ex (\<lambda>(_, loaded). \<not> loaded) bins"
    using b res [unfolded resolve_ok_def, THEN spec, THEN mp, OF b(4)] pool_bp_ok [OF g b(1)] unfolding b'_def bp_ok_def
    by (cases "is_Ok (bp_addrs b)"; auto)+
  then have ok: "bp_ok b'" "bp_ok (b'\<lparr>bp_active := True\<rparr>)" by (simp_all add: bp_ok_def not_data_size)
  have nw: "no_watch i s" using inactive_no_watch [OF _ b(1,2)] g by (auto simp: good_def)
  show ?thesis
  proof (cases "bp_addrs b'")
    case (Ok as)
    have "good mem text code (add_locations tg i as (put_breakpoint i (b'\<lparr>bp_active := True\<rparr>) s))"
      using good_put [OF g _ ok(2), of i] nw b(1) by (intro good_add_locations) simp
    moreover have "only_breakpoint i s (add_locations tg i as (put_breakpoint i (b'\<lparr>bp_active := True\<rparr>) s))"
      using only_breakpoint_put [of s i "b'\<lparr>bp_active := True\<rparr>"] b(1) by (simp add: only_breakpoint_def frame_add_locations)
    ultimately show ?thesis using Ok r(4) by (simp add: runs_def activate_code_def Let_def b'_def [symmetric])
  next
    case (Err e)
    have "good mem text code (put_breakpoint i b' s)" using good_put [OF g _ ok(1), of i] nw b(1) by simp
    moreover have "waiting (put_breakpoint i b' s) i" if "e = Loading" "should_wait_for_symbols (bp_on b')"
      using that Err r b(1) by (simp add: waiting_def needs_symbols_def put_breakpoint_def try_get_try_set)
    ultimately show ?thesis
      using Err r(6) only_breakpoint_put [of s i b'] b(1) by (simp add: runs_def activate_code_def Let_def b'_def [symmetric])
  qed (use r(5) in simp)
qed

lemma activate_one_runs:
  assumes g: "good mem text code s" and res: "resolve_ok resolve bins" and b: "try_get (breakpoints s) i = Some b"
  shows "runs (activate_one tg resolve i) s (\<lambda>v s'. good mem text code s' \<and> only_breakpoint i s s'
    \<and> (snd v \<longrightarrow> waiting s' i \<and> list_ex (\<lambda>(_, loaded). \<not> loaded) bins)) (\<lambda>_. False)"
proof -
  have run: "activate_one tg resolve i s = (if \<not> bp_enabled b \<or> bp_active b then (Ok (False, False), s)
     else (case bp_on b of Data a n r \<Rightarrow> activate_data i b a n r s | _ \<Rightarrow> activate_code tg resolve i b s))"
    using b by (simp add: activate_one_def sbind.simps get_breakpoint_def sret_def split: BreakpointOn.splits)
  show ?thesis
  proof (cases "\<not> bp_enabled b \<or> bp_active b")
    case True
    then show ?thesis using run g b by (simp add: runs_def only_breakpoint_def)
  next
    case False
    show ?thesis
    proof (cases "is_data (bp_on b)")
      case True
      then obtain a n x where d: "bp_on b = Data a n x" by (cases "bp_on b") auto
      have "runs (activate_data i b a n x) s (\<lambda>v s'. good mem text code s' \<and> only_breakpoint i s s'
          \<and> (snd v \<longrightarrow> waiting s' i \<and> list_ex (\<lambda>(_, loaded). \<not> loaded) bins)) (\<lambda>_. False)"
        by (rule runs_mono [OF good_activate_data [OF g b _ d]]) (use False in auto)
      then show ?thesis using run False d by (simp add: runs_def)
    next
      case nd: False
      have "activate_one tg resolve i s = activate_code tg resolve i b s" using run False nd by (cases "bp_on b") simp_all
      then show ?thesis using good_activate_code [OF g res b _ _ nd] False by (simp add: runs_def)
    qed
  qed
qed

lemma good_deactivate:
  assumes "good mem text code s" "deactivate_breakpoint i s = (Ok r, s')"
  shows "good mem text code s' \<and> no_watch i s'"
proof -
  obtain b where b: "try_get (breakpoints s) i = Some b"
    using assms(2) by (auto simp: deactivate_breakpoint_def sbind.simps get_breakpoint_def split: option.splits)
  have inv: "bp_inv mem text code s" and st: "strict s" using assms(1) by (simp_all add: good_def)
  from runs_Ok [OF deactivate_breakpoint_runs [OF inv b] assms(2)] same_locations_strict [OF _ st] show ?thesis
    by (simp add: good_def)
qed

lemma good_remove:
  assumes "good mem text code s" "remove_breakpoint i s = (Ok r, s')"
  shows "good mem text code s'"
proof (cases "try_get (breakpoints s) i")
  case None
  then show ?thesis using assms by (simp add: remove_breakpoint_def)
next
  case (Some b)
  then obtain s1 where s1: "deactivate_breakpoint i s = (Ok (), s1)" "s' = s1\<lparr>breakpoints := snd (remove i (breakpoints s1))\<rparr>"
    using assms(2) by (auto simp: remove_breakpoint_def sbind.simps split: prod.splits result.splits)
  have g: "good mem text code s1" "no_watch i s1" using good_deactivate [OF assms(1) s1(1)] by simp_all
  have inv: "pool_inv (breakpoints s1)" using g(1) by (simp add: good_def bp_inv_def pool_ok_def)
  have "slot_ok (locations s1) (snd (remove i (breakpoints s1))) h" if "h \<in> set (hardware_breakpoints s1)" for h
    using g that by (cases "data_breakpoint_id h") (auto simp: good_def bp_inv_def slot_ok_def no_watch_def try_get_remove [OF inv])
  moreover have "pool_ok (snd (remove i (breakpoints s1)))"
    using g(1) by (auto simp: good_def bp_inv_def pool_ok_def try_get_remove [OF inv] pool_inv_remove)
  ultimately show ?thesis using g(1) by (simp add: s1(2) good_def bp_inv_def strict_def)
qed

lemma good_drop_refs: "good mem text code s \<Longrightarrow> good mem text code (drop_refs p s)"
  using bp_inv_drop_refs same_locations_strict [OF same_locations_drop_refs] by (auto simp: good_def)

lemma good_cancel: "good mem text code s \<Longrightarrow> good mem text code (cancel_stepping s)"
  using good_drop_refs [of mem "text" code s] by (auto simp: cancel_stepping_def good_def bp_inv_def strict_def)

lemma good_create:
  assumes "good mem text code s" "bp_ok b" "\<not> bp_active b" "add b (breakpoints s) = Ok (i, p)"
  shows "good mem text code (s\<lparr>breakpoints := p\<rparr>)"
proof -
  have inv: "pool_inv (breakpoints s)" using assms(1) by (simp add: good_def bp_inv_def pool_ok_def)
  have "try_get (breakpoints s) i = None"
    using add_fresh [OF inv assms(4)] try_get_issued [OF inv, of i] by (cases "try_get (breakpoints s) i") auto
  then have "slot_ok (locations s) p h" if "slot_ok (locations s) (breakpoints s) h" for h
    using that try_get_add [OF inv assms(4)] by (auto simp: slot_ok_def split: option.splits)
  moreover have "pool_ok p"
    using assms(1,2) pool_inv_add [OF inv assms(4)] try_get_add [OF inv assms(4)] by (auto simp: good_def bp_inv_def pool_ok_def)
  ultimately show ?thesis using assms(1) by (simp add: good_def bp_inv_def strict_def)
qed

section \<open>Stopping the threads\<close>

lemma interrupt_threads_spec:
  assumes laws: "tracee_laws tg mem" and "interrupt_threads tg ts m = (r, ts', m')"
  shows "mem m' = mem m \<and> r \<noteq> Panic \<and> (r = Ok 0 \<longrightarrow> \<not> list_ex (\<lambda>(_, t). running t \<and> \<not> exiting t) ts')"
  using assms(2)
proof (induction ts arbitrary: m r ts' m')
  case (Cons x ts)
  obtain tid t where x: "x = (tid, t)" by fastforce
  show ?case
  proof (cases "running t \<and> \<not> exiting t")
    case True
    obtain c m1 where c: "(if sent_interrupt t then (Inr (), m) else t_interrupt tg m tid) = (c, m1)" by fastforce
    have m1: "mem m1 = mem m" using c lawsD(6) [OF laws, of m tid] by (simp split: if_splits)
    obtain n ts1 m2 where rec: "interrupt_threads tg ts m1 = (n, ts1, m2)" by (metis prod_cases3)
    have IH: "mem m2 = mem m1" "n \<noteq> Panic" using Cons.IH [OF rec] by simp_all
    show ?thesis
      using Cons.prems IH m1 by (cases n) (auto simp: x True c rec Let_def split: if_splits)
  next
    case False
    obtain n ts1 m2 where rec: "interrupt_threads tg ts m = (n, ts1, m2)" by (metis prod_cases3)
    have "r = n \<and> ts' = (tid, t) # ts1 \<and> m' = m2" using Cons.prems by (simp add: x False rec Let_def)
    then show ?thesis using Cons.IH [OF rec] False by simp
  qed
qed simp

lemma interrupt_runs:
  assumes laws: "tracee_laws tg mem" and g: "good mem text code s"
  shows "runs (ptrace_interrupt_all_running_threads tg) s (\<lambda>n s'. good mem text code s' \<and> breakpoints s' = breakpoints s \<and> env s' = env s
    \<and> (n = 0 \<longrightarrow> \<not> any_running s')) (good mem text code)"
proof -
  obtain r ts m where i: "interrupt_threads tg (threads s) (tracee s) = (r, ts, m)" by (metis prod_cases3)
  note spec = interrupt_threads_spec [OF laws i]
  have "good mem text code (s\<lparr>threads := ts, tracee := m\<rparr>)" using g spec by (simp add: good_def bp_inv_def strict_def)
  then show ?thesis using spec
    by (cases r) (auto simp: runs_def ptrace_interrupt_all_running_threads_def i any_running_def)
qed

lemma good_stopping: "good mem text code (s\<lparr>stopping_to_handle_breakpoints := x\<rparr>) = good mem text code s"
  and good_stopped: "good mem text code (s\<lparr>stopped_until_symbols_are_loaded := y\<rparr>) = good mem text code s"
  by (simp_all add: good_def bp_inv_def strict_def)

lemma handle_runs:
  assumes "tracee_laws tg mem" "alive tg" "good mem text code s" "\<not> any_running s"
  shows "runs (handle_breakpoints tg) s (\<lambda>_ s'. good mem text code s' \<and> idle_kept s s' \<and> env s' = env s) (bp_inv mem text code)"
proof -
  have "bp_inv mem text code s" "strict s" using assms(3) by (simp_all add: good_def)
  from handle_breakpoints_runs [OF assms(1,2) this assms(4)] show ?thesis by (rule runs_mono) (auto simp: good_def)
qed

lemma arrange_runs:
  assumes laws: "tracee_laws tg mem" "alive tg" and g: "good mem text code s"
  shows "runs (arrange_handle_breakpoints tg) s (\<lambda>_ s'. good mem text code s' \<and> idle_kept s s' \<and> target_state s' = target_state s
    \<and> stopped_until_symbols_are_loaded s' = stopped_until_symbols_are_loaded s) (bp_inv mem text code)" (is "runs _ s ?Q _")
proof (cases "stopping_to_handle_breakpoints s")
  case True
  then show ?thesis using g by (simp add: runs_def arrange_handle_breakpoints_def idle_kept_same)
next
  case False
  have "runs (\<lambda>s. if n > 0 then (Ok (), s\<lparr>stopping_to_handle_breakpoints := True\<rparr>) else handle_breakpoints tg s) s1 ?Q (bp_inv mem text code)"
    if s1: "good mem text code s1 \<and> breakpoints s1 = breakpoints s \<and> env s1 = env s \<and> (n = 0 \<longrightarrow> \<not> any_running s1)" for n :: nat and s1
  proof (cases "n > 0")
    case True
    then show ?thesis using s1 by (simp add: runs_def good_stopping idle_kept_def env_def)
  next
    case n: False
    have "runs (handle_breakpoints tg) s1 ?Q (bp_inv mem text code)"
      by (rule runs_mono [OF handle_runs [OF laws]]) (use s1 n in \<open>auto simp: idle_kept_def env_def\<close>)
    then show ?thesis using n by (simp add: runs_def)
  qed
  then have "runs (sbind (ptrace_interrupt_all_running_threads tg) (\<lambda>n s. if n > 0 then (Ok (), s\<lparr>stopping_to_handle_breakpoints := True\<rparr>)
       else handle_breakpoints tg s)) s ?Q (bp_inv mem text code)"
    unfolding runs_bind by (intro runs_mono [OF interrupt_runs [OF laws(1) g]]) (auto simp: good_def)
  then show ?thesis using False by (simp add: runs_def arrange_handle_breakpoints_def)
qed

lemma handle_when_stopped_runs:
  assumes laws: "tracee_laws tg mem" "alive tg" and g: "good mem text code s"
  shows "runs (handle_when_stopped tg) s (\<lambda>_. good mem text code) (bp_inv mem text code)"
proof (cases "stopping_to_handle_breakpoints s \<and> \<not> any_running s")
  case True
  have "runs (sbind (handle_breakpoints tg) (\<lambda>_ s. (Ok (), s\<lparr>stopping_to_handle_breakpoints := False\<rparr>))) s (\<lambda>_. good mem text code) (bp_inv mem text code)"
    unfolding runs_bind by (rule runs_mono [OF handle_runs [OF laws g]]) (use True in \<open>auto simp: runs_def good_stopping\<close>)
  then show ?thesis using True by (simp add: runs_def handle_when_stopped_def)
next
  case False
  then have "handle_when_stopped tg s = (Ok (), s)" by (auto simp: handle_when_stopped_def)
  then show ?thesis using g by (simp add: runs_def)
qed

section \<open>Activating and waiting\<close>

lemma activate_ids_runs:
  assumes res: "resolve_ok resolve bins"
  shows "good mem text code s \<Longrightarrow> distinct ids \<Longrightarrow> (\<forall>i\<in>set ids. try_get (breakpoints s) i \<noteq> None) \<Longrightarrow>
    (wait \<longrightarrow> (\<exists>j. j \<notin> set ids \<and> waiting s j) \<and> list_ex (\<lambda>(_, loaded). \<not> loaded) bins) \<Longrightarrow>
    runs (activate_ids tg resolve ids handle wait) s (\<lambda>v s'. good mem text code s' \<and> env s' = env s
      \<and> (snd v \<longrightarrow> (\<exists>j. waiting s' j) \<and> list_ex (\<lambda>(_, loaded). \<not> loaded) bins)) (\<lambda>_. False)"
proof (induction ids arbitrary: s handle wait)
  case Nil
  then show ?case by auto
next
  case (Cons i ids)
  obtain b where b: "try_get (breakpoints s) i = Some b" using Cons.prems(3) by auto
  show ?case unfolding activate_ids.simps runs_bind
  proof (rule runs_mono [OF activate_one_runs [OF Cons.prems(1) res b]])
    fix v :: "bool \<times> bool" and s1
    assume s1: "good mem text code s1 \<and> only_breakpoint i s s1 \<and> (snd v \<longrightarrow> waiting s1 i \<and> list_ex (\<lambda>(_, loaded). \<not> loaded) bins)"
    then have keep: "waiting s1 j = waiting s j" if "j \<noteq> i" for j using that by (simp add: waiting_def only_breakpoint_def)
    have "runs (activate_ids tg resolve ids (handle \<or> fst v) (wait \<or> snd v)) s1 (\<lambda>v s'. good mem text code s' \<and> env s' = env s1
      \<and> (snd v \<longrightarrow> (\<exists>j. waiting s' j) \<and> list_ex (\<lambda>(_, loaded). \<not> loaded) bins)) (\<lambda>_. False)"
    proof (rule Cons.IH)
      show "\<forall>i\<in>set ids. try_get (breakpoints s1) i \<noteq> None" using s1 Cons.prems(2,3) by (auto simp: only_breakpoint_def)
      show "wait \<or> snd v \<longrightarrow> (\<exists>j. j \<notin> set ids \<and> waiting s1 j) \<and> list_ex (\<lambda>(_, loaded). \<not> loaded) bins"
        using s1 keep Cons.prems(2,4) by auto
    qed (use s1 Cons.prems in simp_all)
    then show "runs (case v of (h, w) \<Rightarrow> activate_ids tg resolve ids (handle \<or> h) (wait \<or> w)) s1 (\<lambda>v s'. good mem text code s' \<and> env s' = env s
      \<and> (snd v \<longrightarrow> (\<exists>j. waiting s' j) \<and> list_ex (\<lambda>(_, loaded). \<not> loaded) bins)) (\<lambda>_. False)"
      unfolding case_prod_beta by (rule runs_mono) (use s1 in \<open>auto simp: only_breakpoint_def\<close>)
  qed simp
qed

lemma wait_runs:
  assumes laws: "tracee_laws tg mem" and g: "good mem text code s" and w: "waiting s i" "list_ex (\<lambda>(_, loaded). \<not> loaded) bins"
    and ready: "process_ready (target_state s)" "stopped_until_symbols_are_loaded s = None"
  shows "runs (wait_for_symbols tg bins) s (\<lambda>_. good mem text code) (bp_inv mem text code)"
proof -
  obtain b where b: "try_get (breakpoints s) i = Some b" "needs_symbols b" using w(1) by (auto simp: waiting_def)
  then have l: "list_ex (\<lambda>(_, b). needs_symbols b) (iter_mut (breakpoints s))"
    using iter_mut_set [of i b "breakpoints s"] by (auto simp: list_ex_iff)
  obtain k x where f: "find (\<lambda>(_, loaded). \<not> loaded) bins = Some (k, x)"
    using w(2) find_None_iff [of "\<lambda>(_, loaded). \<not> loaded" bins] by (cases "find (\<lambda>(_, loaded). \<not> loaded) bins") (auto simp: list_ex_iff)
  let ?s = "s\<lparr>stopped_until_symbols_are_loaded := Some k\<rparr>"
  have c: "check_if_we_should_wait_for_symbols_to_load bins s = (Ok (), ?s)"
    using ready l f by (simp add: check_if_we_should_wait_for_symbols_to_load_def)
  have "good mem text code ?s" using g by (simp add: good_stopped)
  then have "runs (sbind (ptrace_interrupt_all_running_threads tg) (\<lambda>_. sret ())) ?s (\<lambda>_. good mem text code) (bp_inv mem text code)"
    unfolding runs_bind by (intro runs_mono [OF interrupt_runs [OF laws]]) (auto simp: good_def)
  then show ?thesis using c by (simp add: runs_def wait_for_symbols_def sbind.simps)
qed

lemma activate_breakpoints_runs:
  assumes laws: "tracee_laws tg mem" "alive tg" and res: "resolve_ok resolve bins" and g: "good mem text code s"
    and ids: "distinct ids" "\<forall>i\<in>set ids. try_get (breakpoints s) i \<noteq> None" and ready: "process_ready (target_state s)"
  shows "runs (activate_breakpoints tg resolve bins ids) s (\<lambda>_. good mem text code) (bp_inv mem text code)"
proof -
  have last: "runs (\<lambda>s. if wait \<and> stopped_until_symbols_are_loaded s = None then wait_for_symbols tg bins s else (Ok (), s)) s2
      (\<lambda>_. good mem text code) (bp_inv mem text code)"
    if s2: "good mem text code s2" "target_state s2 = target_state s" "wait \<longrightarrow> (\<exists>j. waiting s2 j) \<and> list_ex (\<lambda>(_, loaded). \<not> loaded) bins" for wait s2
  proof (cases "wait \<and> stopped_until_symbols_are_loaded s2 = None")
    case True
    then obtain j where "waiting s2 j" "list_ex (\<lambda>(_, loaded). \<not> loaded) bins" using s2(3) by auto
    from wait_runs [OF laws(1) s2(1) this] show ?thesis using ready s2(2) True by (simp add: runs_def)
  next
    case False
    then have "runs (\<lambda>s. (Ok (), s)) s2 (\<lambda>_. good mem text code) (bp_inv mem text code)" using s2(1) by (simp add: runs_def)
    then show ?thesis using False unfolding runs_def by auto
  qed
  have keep: "waiting s2 j" if "waiting s1 j" "idle_kept s1 s2" for s1 s2 :: "'m Dbg" and j
    using that by (auto simp: waiting_def idle_kept_def)
  have "runs (if fst v then arrange_handle_breakpoints tg else sret ()) s1 (\<lambda>_ s2. runs (\<lambda>s. if snd v \<and> stopped_until_symbols_are_loaded s = None
       then wait_for_symbols tg bins s else (Ok (), s)) s2 (\<lambda>_. good mem text code) (bp_inv mem text code)) (bp_inv mem text code)"
    if s1: "good mem text code s1 \<and> env s1 = env s \<and> (snd v \<longrightarrow> (\<exists>j. waiting s1 j) \<and> list_ex (\<lambda>(_, loaded). \<not> loaded) bins)" for v :: "bool \<times> bool" and s1
  proof (cases "fst v")
    case True
    show ?thesis unfolding if_P [OF True]
    proof (rule runs_mono [OF arrange_runs [OF laws]])
      fix s2 assume s2: "good mem text code s2 \<and> idle_kept s1 s2 \<and> target_state s2 = target_state s1
        \<and> stopped_until_symbols_are_loaded s2 = stopped_until_symbols_are_loaded s1"
      show "runs (\<lambda>s. if snd v \<and> stopped_until_symbols_are_loaded s = None then wait_for_symbols tg bins s else (Ok (), s)) s2
          (\<lambda>_. good mem text code) (bp_inv mem text code)"
        by (rule last) (use s1 s2 keep in \<open>auto simp: env_def\<close>)
    qed (use s1 in simp_all)
  next
    case False
    then show ?thesis using last [of s1 "snd v"] s1 by (simp add: env_def)
  qed
  moreover have "runs (activate_ids tg resolve ids False False) s (\<lambda>v s'. good mem text code s' \<and> env s' = env s
      \<and> (snd v \<longrightarrow> (\<exists>j. waiting s' j) \<and> list_ex (\<lambda>(_, loaded). \<not> loaded) bins)) (\<lambda>_. False)"
    by (rule activate_ids_runs [OF res g ids]) simp
  ultimately have "runs (sbind (activate_ids tg resolve ids False False) (\<lambda>(handle, wait).
       sbind (if handle then arrange_handle_breakpoints tg else sret ()) (\<lambda>_ s.
         if wait \<and> stopped_until_symbols_are_loaded s = None then wait_for_symbols tg bins s else (Ok (), s)))) s (\<lambda>_. good mem text code) (bp_inv mem text code)"
    unfolding runs_bind case_prod_beta by (elim runs_mono) (simp_all add: runs_bind)
  then show ?thesis using ready by (simp add: runs_def activate_breakpoints_def)
qed

section \<open>Commands\<close>

lemma if_ready_runs:
  assumes "tracee_laws tg mem" "alive tg" "resolve_ok resolve bins" "good mem text code s" "try_get (breakpoints s) i \<noteq> None"
  shows "runs (if_ready (activate_breakpoints tg resolve bins [i])) s (\<lambda>_. good mem text code) (bp_inv mem text code)"
  using activate_breakpoints_runs [OF assms(1-4), of "[i]"] assms(4,5) by (simp add: runs_def if_ready_def)

lemma add_breakpoint_runs:
  assumes laws: "tracee_laws tg mem" "alive tg" and res: "resolve_ok resolve bins" and g: "good mem text code s"
    and room: "next_seqno (breakpoints s) + 1 < 2 ^ 64"
  shows "runs (add_breakpoint tg resolve bins on) s (\<lambda>_. good mem text code) (bp_inv mem text code)"
proof (cases "size_ok on")
  case False
  then have "add_breakpoint tg resolve bins on = sthrow BadSize" by (cases on) (simp_all add: add_breakpoint_def)
  then show ?thesis using g by (simp add: runs_def sthrow_def good_def)
next
  case True
  have inv: "pool_inv (breakpoints s)" using g by (simp add: good_def bp_inv_def pool_ok_def)
  obtain i p where a: "add (breakpoint_new on) (breakpoints s) = Ok (i, p)" using add_total [OF inv room] by fastforce
  have "bp_ok (breakpoint_new on)" "\<not> bp_active (breakpoint_new on)" using True by (simp_all add: breakpoint_new_def bp_ok_def)
  then have g': "good mem text code (s\<lparr>breakpoints := p\<rparr>)" using good_create [OF g _ _ a] by simp
  have "try_get p i \<noteq> None" using try_get_add [OF inv a] by simp
  then have "runs (if_ready (activate_breakpoints tg resolve bins [i])) (s\<lparr>breakpoints := p\<rparr>) (\<lambda>_. good mem text code) (bp_inv mem text code)"
    using if_ready_runs [OF laws res g', of i] by simp
  then have "runs (sbind (add_to_pool (breakpoint_new on)) (\<lambda>i. sbind (if_ready (activate_breakpoints tg resolve bins [i])) (\<lambda>_. sret i))) s
      (\<lambda>_. good mem text code) (bp_inv mem text code)"
    unfolding runs_bind using a by (simp add: runs_def [of "add_to_pool _"] add_to_pool_def)
  moreover have "add_breakpoint tg resolve bins on
      = sbind (add_to_pool (breakpoint_new on)) (\<lambda>i. sbind (if_ready (activate_breakpoints tg resolve bins [i])) (\<lambda>_. sret i))"
    using True by (cases on) (auto simp: add_breakpoint_def)
  ultimately show ?thesis by simp
qed

lemma deactivate_runs_good:
  assumes "good mem text code s" "try_get (breakpoints s) i \<noteq> None"
  shows "runs (deactivate_breakpoint i) s (\<lambda>_ s'. good mem text code s' \<and> try_get (breakpoints s') i \<noteq> None \<and> no_watch i s') (\<lambda>_. False)"
proof -
  obtain b where b: "try_get (breakpoints s) i = Some b" using assms(2) by auto
  have inv: "bp_inv mem text code s" and st: "strict s" using assms(1) by (simp_all add: good_def)
  show ?thesis
    by (rule runs_mono [OF deactivate_breakpoint_runs [OF inv b]]) (use same_locations_strict [OF _ st] in \<open>auto simp: good_def\<close>)
qed

lemma remove_breakpoint_runs:
  assumes "good mem text code s"
  shows "runs (remove_breakpoint i) s (\<lambda>_. good mem text code) (\<lambda>_. False)"
proof (cases "try_get (breakpoints s) i")
  case None
  then show ?thesis using assms by (simp add: runs_def remove_breakpoint_def)
next
  case (Some b)
  obtain r s1 where s1: "deactivate_breakpoint i s = (r, s1)" by fastforce
  from deactivate_runs_good [OF assms, of i] Some s1 have "r = Ok ()" by (cases r) (simp_all add: runs_def)
  then have run: "remove_breakpoint i s = (Ok True, s1\<lparr>breakpoints := snd (remove i (breakpoints s1))\<rparr>)"
    using Some s1 by (simp add: remove_breakpoint_def sbind.simps)
  then show ?thesis using good_remove [OF assms run] by (simp add: runs_def)
qed

lemma put_live: "try_get (breakpoints s) i \<noteq> None \<Longrightarrow> try_get (breakpoints (put_breakpoint i b s)) i \<noteq> None"
  by (simp add: put_breakpoint_def try_get_try_set)

lemma good_change:
  assumes g: "good mem text code s" and b: "try_get (breakpoints s) i = Some b" and "bp_ok b'" "bp_active b' = bp_active b"
  shows "good mem text code (put_breakpoint i b' s)"
  using good_put [OF g _ assms(3), of i] inactive_no_watch [OF _ b] assms g b by (auto simp: good_def)

lemma set_enabled_runs:
  assumes laws: "tracee_laws tg mem" "alive tg" and res: "resolve_ok resolve bins" and g: "good mem text code s"
  shows "runs (set_breakpoint_enabled tg resolve bins i e) s (\<lambda>_. good mem text code) (bp_inv mem text code)"
proof (cases "try_get (breakpoints s) i")
  case None
  then show ?thesis using g by (simp add: runs_def set_breakpoint_enabled_def)
next
  case (Some b)
  let ?s = "put_breakpoint i (b\<lparr>bp_enabled := e\<rparr>) s"
  have g': "good mem text code ?s" by (rule good_change [OF g Some]) (use pool_bp_ok [OF g Some] in \<open>simp_all add: bp_ok_def\<close>)
  have live: "try_get (breakpoints ?s) i \<noteq> None" using Some by (intro put_live) simp
  have "runs (if e then if_ready (activate_breakpoints tg resolve bins [i]) else deactivate_breakpoint i) ?s (\<lambda>_. good mem text code) (bp_inv mem text code)"
    using if_ready_runs [OF laws res g' live] runs_mono [OF deactivate_runs_good [OF g' live]] by (cases e) auto
  then have "runs (sbind (if e then if_ready (activate_breakpoints tg resolve bins [i]) else deactivate_breakpoint i) (\<lambda>_. sret True)) ?s
      (\<lambda>_. good mem text code) (bp_inv mem text code)" by (simp add: runs_bind)
  then show ?thesis using Some g by (simp add: runs_def set_breakpoint_enabled_def)
qed

lemma set_stop_on_read_runs:
  assumes laws: "tracee_laws tg mem" "alive tg" and res: "resolve_ok resolve bins" and g: "good mem text code s"
    and data: "\<And>b. try_get (breakpoints s) i = Some b \<Longrightarrow> is_data (bp_on b)"
  shows "runs (set_data_breakpoint_stop_on_read tg resolve bins i r) s (\<lambda>_. good mem text code) (bp_inv mem text code)"
proof (cases "try_get (breakpoints s) i")
  case None
  then show ?thesis using g by (simp add: runs_def set_data_breakpoint_stop_on_read_def)
next
  case (Some b)
  then obtain a n r' where d: "bp_on b = Data a n r'" using data by (cases "bp_on b") auto
  let ?s = "put_breakpoint i (b\<lparr>bp_on := Data a n r\<rparr>) s"
  have g': "good mem text code ?s" by (rule good_change [OF g Some]) (use pool_bp_ok [OF g Some] d in \<open>simp_all add: bp_ok_def\<close>)
  have live: "try_get (breakpoints ?s) i \<noteq> None" using Some by (intro put_live) simp
  have "runs (sbind (deactivate_breakpoint i) (\<lambda>_. sbind (if_ready (activate_breakpoints tg resolve bins [i])) (\<lambda>_. sret True))) ?s
      (\<lambda>_. good mem text code) (bp_inv mem text code)"
    unfolding runs_bind by (rule runs_mono [OF deactivate_runs_good [OF g' live]]) (use if_ready_runs [OF laws res] in auto)
  then show ?thesis using Some d g by (simp add: runs_def set_data_breakpoint_stop_on_read_def)
qed

lemma good_set_condition: "good mem text code s \<Longrightarrow> good mem text code (set_breakpoint_condition i c s)"
proof (cases "try_get (breakpoints s) i")
  case (Some b)
  assume g: "good mem text code s"
  have "good mem text code (put_breakpoint i (b\<lparr>bp_condition := c\<rparr>) s)"
    by (rule good_change [OF g Some]) (use pool_bp_ok [OF g Some] in \<open>simp_all add: bp_ok_def\<close>)
  then show ?thesis using Some by (simp add: set_breakpoint_condition_def)
qed (simp add: set_breakpoint_condition_def)

section \<open>Code for the disassembler\<close>

lemma fix_up_spec:
  assumes "sorted_wrt (<) (map addr ls)" "\<forall>l\<in>set ls. lo \<le> addr l" "length buf = hi - lo"
  shows "\<exists>buf'. fix_up ls lo hi buf = Ok buf' \<and> length buf' = hi - lo
    \<and> (\<forall>k < hi - lo. buf' ! k = (case find (\<lambda>l. soft l \<and> addr l = lo + k) ls of Some l \<Rightarrow> original_byte l | None \<Rightarrow> buf ! k))"
  using assms
proof (induction ls arbitrary: buf)
  case (Cons l ls)
  show ?case
  proof (cases "addr l < hi")
    case True
    let ?buf = "if soft l then buf[addr l - lo := original_byte l] else buf"
    have "fix_up (l # ls) lo hi buf = fix_up ls lo hi ?buf" using True Cons.prems by (auto simp: soft_def)
    moreover have "length ?buf = hi - lo" "sorted_wrt (<) (map addr ls)" "\<forall>l\<in>set ls. lo \<le> addr l" using Cons.prems by simp_all
    from Cons.IH [OF this(2,3,1)] obtain buf' where b: "fix_up ls lo hi ?buf = Ok buf'" "length buf' = hi - lo"
      "\<forall>k < hi - lo. buf' ! k = (case find (\<lambda>l. soft l \<and> addr l = lo + k) ls of Some l \<Rightarrow> original_byte l | None \<Rightarrow> ?buf ! k)"
      by blast
    moreover have "buf' ! k = (case find (\<lambda>l. soft l \<and> addr l = lo + k) (l # ls) of Some l \<Rightarrow> original_byte l | None \<Rightarrow> buf ! k)" if k: "k < hi - lo" for k
    proof (cases "soft l \<and> addr l = lo + k")
      case here: True
      then have "find (\<lambda>l. soft l \<and> addr l = lo + k) ls = None" using Cons.prems(1) by (fastforce simp: find_None_iff)
      then show ?thesis using b(3) k here Cons.prems(3) by simp
    next
      case other: False
      then have "?buf ! k = buf ! k" using Cons.prems(2) by (auto simp: nth_list_update)
      then show ?thesis using b(3) k other by (auto split: option.splits if_splits)
    qed
    ultimately show ?thesis using b by auto
  next
    case False
    then have "find (\<lambda>l. soft l \<and> addr l = lo + k) (l # ls) = None" if "k < hi - lo" for k
      using Cons.prems(1) that by (fastforce simp: find_None_iff)
    then show ?thesis using False Cons.prems(3) by auto
  qed
qed simp

end
