(* ===== verification/BreakReach.thy ===== *)
theory BreakReach
  imports BreakCmd
begin

text \<open>
  Breakpoints over a whole session: every state that the commands, the steps of the event loop and
  the running process reach satisfies the invariant. The properties of the component follow.
\<close>

section \<open>Sessions\<close>

text \<open>
  What can happen to the breakpoint state. Breakpoints are loaded, added, enabled, changed, removed
  and activated (the symbols may know more each time), their hits are counted, steps begin and end,
  the process runs and the states change (it does not change its own code) and, when all threads have
  stopped, the event loop handles the locations. Commands count when they succeed.
\<close>

inductive bp_reach :: "'m tracee_ops \<Rightarrow> ('m \<Rightarrow> nat \<Rightarrow> u8) \<Rightarrow> nat set \<Rightarrow> (nat \<Rightarrow> u8) \<Rightarrow> 'm Dbg \<Rightarrow> bool"
  for tg mem "text" code where
  attach: "locations s = [] \<Longrightarrow> hardware_breakpoints s = replicate 4 no_hardware \<Longrightarrow> breakpoints s = pool_new \<Longrightarrow>
     \<forall>x\<in>text. mem (tracee s) x = code x \<Longrightarrow> bp_reach tg mem text code s"
| load: "bp_reach tg mem text code s \<Longrightarrow> bp_ok b \<Longrightarrow> \<not> bp_active b \<Longrightarrow> add b (breakpoints s) = Ok (i, p) \<Longrightarrow>
     bp_reach tg mem text code (s\<lparr>breakpoints := p\<rparr>)"
| add: "bp_reach tg mem text code s \<Longrightarrow> resolve_ok resolve bins \<Longrightarrow> next_seqno (breakpoints s) + 1 < 2 ^ 64 \<Longrightarrow>
     add_breakpoint tg resolve bins on s = (Ok i, s') \<Longrightarrow> bp_reach tg mem text code s'"
| remove: "bp_reach tg mem text code s \<Longrightarrow> remove_breakpoint i s = (Ok r, s') \<Longrightarrow> bp_reach tg mem text code s'"
| enable: "bp_reach tg mem text code s \<Longrightarrow> resolve_ok resolve bins \<Longrightarrow> set_breakpoint_enabled tg resolve bins i e s = (Ok r, s') \<Longrightarrow>
     bp_reach tg mem text code s'"
| condition: "bp_reach tg mem text code s \<Longrightarrow> bp_reach tg mem text code (set_breakpoint_condition i c s)"
| stop_on_read: "bp_reach tg mem text code s \<Longrightarrow> resolve_ok resolve bins \<Longrightarrow> try_get (breakpoints s) i = Some b \<Longrightarrow> is_data (bp_on b) \<Longrightarrow>
     set_data_breakpoint_stop_on_read tg resolve bins i e s = (Ok r, s') \<Longrightarrow> bp_reach tg mem text code s'"
| activate: "bp_reach tg mem text code s \<Longrightarrow> resolve_ok resolve bins \<Longrightarrow> process_ready (target_state s) \<Longrightarrow> distinct ids \<Longrightarrow>
     \<forall>i\<in>set ids. try_get (breakpoints s) i \<noteq> None \<Longrightarrow> activate_breakpoints tg resolve bins ids s = (Ok (), s') \<Longrightarrow> bp_reach tg mem text code s'"
| hit: "bp_reach tg mem text code s \<Longrightarrow> try_get (breakpoints s) i = Some b \<Longrightarrow> bp_reach tg mem text code (put_breakpoint i (b\<lparr>bp_hits := n\<rparr>) s)"
| step: "bp_reach tg mem text code s \<Longrightarrow> bp_reach tg mem text code (s\<lparr>stepping := Some tid\<rparr>)"
| step_location: "bp_reach tg mem text code s \<Longrightarrow> bp_reach tg mem text code (add_breakpoint_location tg (StepRef t) a s)"
| cancel: "bp_reach tg mem text code s \<Longrightarrow> bp_reach tg mem text code (cancel_stepping s)"
| run: "bp_reach tg mem text code s \<Longrightarrow> \<forall>x\<in>text. mem m x = mem (tracee s) x \<Longrightarrow>
     bp_reach tg mem text code (s\<lparr>threads := ts, any_live_tid := tid, tracee := m, target_state := st, pending_step := ps,
       stopping_to_handle_breakpoints := h, stopped_until_symbols_are_loaded := w\<rparr>)"
| stopped: "bp_reach tg mem text code s \<Longrightarrow> handle_when_stopped tg s = (Ok (), s') \<Longrightarrow> bp_reach tg mem text code s'"

lemma pool_new_lookup: "try_get pool_new i = None"
  by (simp add: try_get_def pool_new_def)

lemma good_attach: "locations s = [] \<Longrightarrow> hardware_breakpoints s = replicate 4 no_hardware \<Longrightarrow> breakpoints s = pool_new \<Longrightarrow>
     \<forall>x\<in>text. mem (tracee s) x = code x \<Longrightarrow> good mem text code s"
  by (auto simp: good_def bp_inv_def text_ok_def patched_def retry_ok_def strict_def pool_ok_def pool_inv_new pool_new_lookup)

lemma bp_reach_good:
  assumes laws: "tracee_laws tg mem" "alive tg"
  shows "bp_reach tg mem text code s \<Longrightarrow> good mem text code s"
proof (induction rule: bp_reach.induct)
  case (attach s)
  then show ?case by (rule good_attach)
next
  case (load s b i p)
  then show ?case by (intro good_create)
next
  case (add s resolve bins on i s')
  from runs_Ok [OF add_breakpoint_runs [OF laws add.hyps(2) add.IH add.hyps(3)] add.hyps(4)] show ?case .
next
  case (remove s i r s')
  from runs_Ok [OF remove_breakpoint_runs [OF remove.IH] remove.hyps(2)] show ?case .
next
  case (enable s resolve bins i e r s')
  from runs_Ok [OF set_enabled_runs [OF laws enable.hyps(2) enable.IH] enable.hyps(3)] show ?case .
next
  case (condition s i c)
  then show ?case by (intro good_set_condition)
next
  case (stop_on_read s resolve bins i b e r s')
  have "\<And>b'. try_get (breakpoints s) i = Some b' \<Longrightarrow> is_data (bp_on b')" using stop_on_read.hyps(3,4) by simp
  from runs_Ok [OF set_stop_on_read_runs [OF laws stop_on_read.hyps(2) stop_on_read.IH this] stop_on_read.hyps(5)] show ?case .
next
  case (activate s resolve bins ids s')
  from runs_Ok [OF activate_breakpoints_runs [OF laws activate.hyps(2) activate.IH activate.hyps(4,5,3)] activate.hyps(6)] show ?case .
next
  case (hit s i b n)
  show ?case by (rule good_change [OF hit.IH hit.hyps(2)]) (use pool_bp_ok [OF hit.IH hit.hyps(2)] in \<open>simp_all add: bp_ok_def\<close>)
next
  case (step s tid)
  then show ?case by (simp add: good_def bp_inv_def strict_def)
next
  case (step_location s t a)
  then show ?case by (intro good_add_location)
next
  case (cancel s)
  then show ?case by (intro good_cancel)
next
  case (run s m ts tid st ps h w)
  then show ?case by (auto simp: good_def bp_inv_def strict_def text_ok_def)
next
  case (stopped s s')
  from runs_Ok [OF handle_when_stopped_runs [OF laws stopped.IH] stopped.hyps(2)] show ?case .
qed

section \<open>A process whose system calls all succeed\<close>

definition flat_ops :: "(nat \<Rightarrow> u8) tracee_ops" where
  "flat_ops = \<lparr>t_read8 = (\<lambda>m a. Inr (m a)), t_read64 = (\<lambda>m a. Inr (from_le_bytes (map m [a..<a + 8]))),
     t_poketext = (\<lambda>m t a w. (Inr (), \<lambda>x. if a \<le> x \<and> x < a + 8 then byte_of w (x - a) else m x)),
     t_pokeuser = (\<lambda>m t i v. (Inr (), m)), t_read = (\<lambda>m a n. Inr (map m [a..<a + n])), t_interrupt = (\<lambda>m t. (Inr (), m))\<rparr>"

lemma byte_of_from_le: "length bs = 8 \<Longrightarrow> i < 8 \<Longrightarrow> byte_of (from_le_bytes bs) i = bs ! i"
proof -
  assume *: "length bs = 8" "i < 8"
  have "to_le_bytes 8 (from_le_bytes bs :: u64) ! i = bs ! i" by (subst to_from_le_bytes) (use * in simp_all)
  then show ?thesis using *(2) by (simp add: to_le_bytes_def byte_of_def)
qed

lemma flat_laws: "tracee_laws flat_ops id" and flat_alive: "alive flat_ops"
  by (auto simp: tracee_laws_def alive_def flat_ops_def byte_of_from_le)

text \<open>A step has put a location at address 100 of a process whose code is all \<open>nop\<close>; its thread is elsewhere.\<close>

definition nops :: "nat \<Rightarrow> u8" where
  "nops x = 0x90"

definition demo_start :: "(nat \<Rightarrow> u8) Dbg" where
  "demo_start = \<lparr>locations = [], hardware_breakpoints = replicate 4 no_hardware, breakpoints = pool_new,
     threads = [(7, \<lparr>running = False, exiting = False, sent_interrupt = False, rip = Some 200, after_debug_trap = False, ignore_next_hit_at = None\<rparr>)],
     stepping = None, pending_step = None, target_state = Stepping, stopping_to_handle_breakpoints = True, stopped_until_symbols_are_loaded = None,
     any_live_tid = 7, tracee = nops\<rparr>"

definition demo :: "(nat \<Rightarrow> u8) Dbg" where
  "demo = add_breakpoint_location flat_ops (StepRef Call) 100 (demo_start\<lparr>stepping := Some 7\<rparr>)"

lemma demo_reach: "bp_reach flat_ops id UNIV nops demo"
proof -
  have "bp_reach flat_ops id UNIV nops demo_start" by (rule bp_reach.attach) (simp_all add: demo_start_def)
  from bp_reach.step_location [OF bp_reach.step [OF this]] show ?thesis unfolding demo_def .
qed

lemma demo_resolve: "resolve_ok (\<lambda>b. b\<lparr>bp_addrs := Err NoFunction\<rparr>) []"
  by (simp add: resolve_ok_def)

lemma demo_eq: "demo = \<lparr>locations = [\<lparr>addr = 100, original_byte = 0x90, hardware = False, active = False, refs = [StepRef Call], error = None, no_retry = False\<rparr>],
    hardware_breakpoints = replicate 4 no_hardware, breakpoints = pool_new,
    threads = [(7, \<lparr>running = False, exiting = False, sent_interrupt = False, rip = Some 200, after_debug_trap = False, ignore_next_hit_at = None\<rparr>)],
    stepping = Some 7, pending_step = None, target_state = Stepping, stopping_to_handle_breakpoints = True, stopped_until_symbols_are_loaded = None,
    any_live_tid = 7, tracee = nops\<rparr>"
  by (simp add: demo_def demo_start_def add_breakpoint_location_def Let_def partition_point_def bisect.simps flat_ops_def nops_def)

lemma demo_idle: "\<not> any_running demo"
  by (simp add: demo_eq any_running_def)

lemmas handle_eval = handle_breakpoints_def remove_stale_def on_each_def convert_def try_activate_def push_registers_def sbind.simps sret_def
  get_location_def update_location_def swap_locations_def Let_def activate_breakpoint_location_def poke_int3_def sys_read_def sys_write_def
  thread_addresses_def deactivate_breakpoint_location_def

definition demo_handled :: "(nat \<Rightarrow> u8) Dbg" where
  "demo_handled = snd (handle_when_stopped flat_ops demo)"

lemma demo_handle: "handle_breakpoints flat_ops demo = (Ok (), demo_handled\<lparr>stopping_to_handle_breakpoints := True\<rparr>)"
  "map active (locations demo_handled) = [True]" "map addr (locations demo_handled) = [100]" "map hardware (locations demo_handled) = [False]"
    "handle_when_stopped flat_ops demo = (Ok (), demo_handled)"
  by (simp_all add: demo_handled_def handle_when_stopped_def any_running_def demo_eq handle_eval flat_ops_def list_ex_iff)

lemma demo_handled_reach: "bp_reach flat_ops id UNIV nops demo_handled"
  by (rule bp_reach.stopped [OF demo_reach demo_handle(5)])

section \<open>Properties\<close>



text \<open>
  (C2) With all threads stopped, \<open>handle_breakpoints\<close> does not panic, whatever the system calls
  return as long as the process exists. When it succeeds, the locations left are those that something refers to, in the same order;
  each is a hardware location exactly when a thread stands at its address, and is active unless it
  has an error to show; all slots have been pushed to the threads. When it fails, the code is still
  the original one except at active software locations.
\<close>

theorem handle_breakpoints_settles:
  assumes "tracee_laws tg mem" "alive tg" "bp_reach tg mem text code s" "\<not> any_running s"
  shows "case handle_breakpoints tg s of
      (Ok _, s') \<Rightarrow> map addr (locations s') = map addr (filter (\<lambda>l. refs l \<noteq> []) (locations s))
        \<and> (\<forall>l\<in>set (locations s'). (hardware l \<longleftrightarrow> list_ex (\<lambda>(tid, t). rip t = Some (addr l)) (threads s')) \<and> (active l \<longleftrightarrow> error l = None))
        \<and> list_all (\<lambda>h. h_active h \<longrightarrow> pushed_to_threads h) (hardware_breakpoints s')
    | (Err e, s') \<Rightarrow> \<forall>x\<in>text. mem (tracee s') x = patched code (locations s') x
    | (Panic, _) \<Rightarrow> False"
proof -
  have inv: "bp_inv mem text code s" "strict s" using bp_reach_good [OF assms(1-3)] by (simp_all add: good_def)
  have ta: "thread_addresses ts a \<noteq> None \<longleftrightarrow> list_ex (\<lambda>(tid, t). rip t = Some a) ts" for ts a
    by (auto simp: thread_addresses_None list_ex_iff)
  show ?thesis
    using handle_breakpoints_runs [OF assms(1,2) inv assms(4)]
    by (simp add: runs_def kept_def settled_def kinds_ok_def ta [simplified] list_all_iff bp_inv_def text_ok_def split: prod.splits result.splits)
qed

theorem handle_breakpoints_settles_witness:
  "list_all (\<lambda>l. \<not> hardware l \<and> error l = None) (locations demo_handled)"
proof -
  have "threads demo_handled = threads demo" by (simp add: demo_handled_def handle_when_stopped_def any_running_def demo_eq handle_eval flat_ops_def list_ex_iff)
  then show ?thesis
    using handle_breakpoints_settles [OF flat_laws flat_alive demo_reach demo_idle] demo_handle
    by (auto simp: list_all_iff demo_eq)
qed

text \<open>
  (C3) Once \<open>handle_breakpoints\<close> has succeeded, the code is restored wherever nothing refers to a
  breakpoint any more; in particular after all breakpoints and steps are gone no location is left
  and the process has its own code back.
\<close>

theorem removed_breakpoints_restore_code:
  assumes "tracee_laws tg mem" "alive tg" "bp_reach tg mem text code s" "\<not> any_running s"
    and "handle_breakpoints tg s = (Ok (), s')"
  shows "(\<forall>x\<in>text. list_all (\<lambda>l. addr l = x \<longrightarrow> refs l = []) (locations s) \<longrightarrow> mem (tracee s') x = code x)
    \<and> (list_all (\<lambda>l. refs l = []) (locations s) \<longrightarrow> locations s' = [] \<and> (\<forall>x\<in>text. mem (tracee s') x = code x))"
proof -
  have inv: "bp_inv mem text code s" "strict s" using bp_reach_good [OF assms(1-3)] by (simp_all add: good_def)
  have s': "bp_inv mem text code s'" and a: "map addr (locations s') = map addr (kept (locations s))"
    using runs_Ok [OF handle_breakpoints_runs [OF assms(1,2) inv assms(4)] assms(5)] by simp_all
  have "mem (tracee s') x = code x" if "x \<in> text" "\<forall>l\<in>set (locations s). addr l = x \<longrightarrow> refs l = []" for x
  proof -
    have "x \<notin> set (map addr (locations s'))" unfolding a using that(2) by (auto simp: kept_def)
    then show ?thesis using s' that(1) by (auto simp: bp_inv_def text_ok_def patched_def list_ex_iff)
  qed
  moreover have "locations s' = []" if "\<forall>l\<in>set (locations s). refs l = []"
    using a that by (simp add: kept_def filter_empty_conv)
  ultimately show ?thesis by (auto simp: list_all_iff)
qed

text \<open>The step is over: its location goes, and so does the \<open>int3\<close>.\<close>

definition demo_cancelled :: "(nat \<Rightarrow> u8) Dbg" where
  "demo_cancelled = cancel_stepping demo_handled"

theorem removed_breakpoints_restore_code_witness:
  "tracee demo_handled 100 = 0xcc \<and> tracee (snd (handle_breakpoints flat_ops demo_cancelled)) 100 = 0x90"
proof -
  have s: "stepping demo_handled = Some 7" "threads demo_handled = threads demo" "refs (hd (locations demo_handled)) = [StepRef Call]"
    "length (locations demo_handled) = 1" "tracee demo_handled 100 = 0xcc"
    by (simp_all add: demo_handled_def handle_when_stopped_def any_running_def demo_eq handle_eval flat_ops_def list_ex_iff byte_of_put_byte)
  then obtain l where l: "locations demo_handled = [l]" "refs l = [StepRef Call]" by (cases "locations demo_handled") auto
  have reach: "bp_reach flat_ops id UNIV nops demo_cancelled"
    unfolding demo_cancelled_def by (rule bp_reach.cancel [OF demo_handled_reach])
  have refs: "list_all (\<lambda>l. refs l = []) (locations demo_cancelled)" and idle: "\<not> any_running demo_cancelled"
    using l s demo_idle by (simp_all add: demo_cancelled_def cancel_stepping_def drop_refs_def any_running_def)
  have "handle_breakpoints flat_ops demo_cancelled = (Ok (), snd (handle_breakpoints flat_ops demo_cancelled))"
    by (simp add: demo_cancelled_def demo_handled_def handle_when_stopped_def any_running_def demo_eq handle_eval flat_ops_def list_ex_iff cancel_stepping_def drop_refs_def
        restore_byte_def unless_gone_def)
  from removed_breakpoints_restore_code [OF flat_laws flat_alive reach idle this] refs s(5) show ?thesis by (simp add: nops_def)
qed





end
