(* ===== verification/Spec2Isabelle.thy ===== *)
theory Spec2Isabelle
  imports GdbClient Pool RangeIndex CoreAttach Registers Parser ValueBlob ProcMaps TermInput LayoutReload BreakReach
begin

text \<open>
  A verification library for nnd, a debugger for Linux with a user interface in the terminal. The
  files it is about are those of \<open>src/\<close>, which are written in Rust and built with overflow checks and
  debug assertions, so that an overflow, a failed assertion and an index out of range all end in a
  panic.

  \<^bold>\<open>The program.\<close> The debugger core (\<open>debugger.rs\<close>) drives a process with \<open>ptrace\<close>, or a remote stub
  through \<open>gdb_remote.rs\<close>, whose packets \<open>gdbproto.rs\<close> frames. It reads the memory of the process, or
  of a core dump, through the readers of \<open>procfs.rs\<close> and \<open>elf.rs\<close>, and its registers through
  \<open>registers.rs\<close>; it learns from the maps of the process (\<open>procfs.rs\<close>) which files to open with
  \<open>open_elf\<close> (\<open>elf.rs\<close>), and finds functions by address with \<open>range_index.rs\<close>. Watch expressions are read
  by \<open>interp.rs\<close> and give values of \<open>expr.rs\<close>. The user interface takes input from \<open>terminal.rs\<close> and
  arranges its windows with \<open>layout.rs\<close>; windows, regions and breakpoints live in the pools of
  \<open>pool.rs\<close>, and what is kept between runs is written with the byte streams of \<open>util.rs\<close>. A
  separate command, \<open>core_dumper.rs\<close>, writes core dumps.

  \<^bold>\<open>How code becomes definitions.\<close> A struct is a record, an enum a datatype with the constructors of
  the source, an integer of fixed width a word, or a number with its bound written out where the code
  only computes in range or panics. \<open>Prelude\<close> has the type \<open>result\<close> with three outcomes, \<open>Ok\<close>, \<open>Err\<close>
  and \<open>Panic\<close>; a method that changes its object is a function from the state to an outcome and the
  next state (\<open>sbind\<close>, \<open>sret\<close>), with the early returns of the source as its branches. \<open>Prelude\<close> also
  has little-endian bytes, lossy and strict UTF-8, hexadecimal and decimal text, and the binary search
  of the standard library with its lemmas; \<open>Errors\<close> has the error codes of \<open>error.rs\<close>. Messages are left
  out of errors.

  \<^bold>\<open>Remote protocol.\<close> \<open>Gdbproto\<close> models the checksum, \<open>encode_packet\<close>, escaping and the decoder
  of \<open>gdbproto.rs\<close>. The interface of a packet codec is the locale \<open>packet_codec\<close>; its lemmas, proved once,
  give the theorems that the decoder recovers every packet however the stream is cut, that it is
  total, detects one corrupted byte and resynchronises. \<open>StopReply\<close> models \<open>parse_stop_reply\<close> and the
  helpers for hexadecimal text. \<open>GdbRemote\<close> models every method of the client of \<open>gdb_remote.rs\<close> on a
  connection that is the list of what each read will give and of which writes fail. \<open>GdbClient\<close> proves
  the invariant of reachable clients by the locale \<open>stream_invariant\<close> and rule induction over
  \<open>client_step\<close>: no command panics, commands are refused while the target runs, answers are returned and
  memory reads are complete.

  \<^bold>\<open>Data structures.\<close> \<open>Pool\<close> models the pool of \<open>pool.rs\<close>; it refines a finite map from identifiers to
  objects, and by the locale \<open>generational_map\<close> a removed identifier stays dead. \<open>RangeIndex\<close> models
  construction and lookups of \<open>range_index.rs\<close> for every order that the unstable sort may choose and
  compares a lookup with a scan of all ranges. The bound of 100001 ranges in its theorem is the number of
  steps after which the code's scan gives up.

  \<^bold>\<open>Memory and files.\<close> \<open>MemReader\<close> models the page cache \<open>CachedMemReader\<close> and the typed reads of
  the trait \<open>MemReader\<close>; the locale \<open>byte_memory\<close> says what a reader of memory promises, and \<open>CoreDump\<close>
  interprets it on the reader of core dumps, with the notes and address ranges of \<open>parse_core_dump\<close>.
  \<open>ElfOpen\<close> models \<open>open_elf\<close> as a whole: headers, segments, sections and their names, compressed
  sections (decompression is a parameter), the build id, the dynamic section and the interpreter; opening
  is shown not to panic on any file outside the two cases the theorem names, and what it returns to lie
  inside the file. \<open>ProcMaps\<close> models the parser of \<open>/proc/<pid>/maps\<close>, the list of
  executables and the address maps.

  \<^bold>\<open>Core dumps.\<close> \<open>CoreWriter\<close> models \<open>prepare_notes\<close>, \<open>write_headers\<close>, the layout of the ranges and the
  buffered writing of \<open>core_dumper.rs\<close>, and composes writer and reader: a dump that is written opens
  with \<open>open_elf\<close> and reads back as the memory of the process (\<open>dump_reads_back\<close>). Where the contents of notes come from and how
  many bytes each \<open>write\<close> takes are parameters. \<open>ForkInject\<close> models the fork that is injected into the
  process (\<open>do_the_fork_nonsense\<close>, \<open>inject_fork\<close>, \<open>restore_state_after_fork\<close>, \<open>cleanup\<close>) over a record of
  system calls \<open>inject_ops\<close> that satisfy \<open>inject_laws\<close>, and shows that code and registers are put back.
  \<open>ProcInfo\<close> models the parsers of \<open>stat\<close> and \<open>cmdline\<close>. \<open>CoreAttach\<close> models the attaching to all threads, the
  modes and the tool as a whole (\<open>try_dump\<close>, \<open>run_core_dumper_tool\<close>): attaching stops every thread, by
  \<open>attach_laws\<close> on what \<open>ptrace\<close> and \<open>waitpid\<close> promise, and the tool makes a dump and undoes everything.

  \<^bold>\<open>Registers.\<close> \<open>Registers\<close> models the register file of a frame, the wide registers, names and debug
  information numbers, and the loading of the XSAVE area; \<open>cpuid\<close> and \<open>ptrace\<close> are parameters.

  \<^bold>\<open>Expressions.\<close> \<open>Lexer\<close> and \<open>Parser\<close> model the lexer and the parser of \<open>interp.rs\<close>, with
  \<open>adjust_expression\<close> and \<open>make_expression_for_variable\<close>. \<open>ValueBlob\<close> models the byte blobs of \<open>expr.rs\<close> and
  the operations on their bits, related to lists of bits.

  \<^bold>\<open>Terminal and layout.\<close> \<open>Keys\<close> models keys and their names, \<open>TermInput\<close> the reader of terminal
  input with its escape sequences. \<open>Layout\<close> models \<open>layout.rs\<close> with the tabs of \<open>widgets.rs\<close>;
  \<open>RegionTree\<close> is the theory of trees stored with links both ways; \<open>LayoutInv\<close>, \<open>LayoutOps\<close>,
  \<open>LayoutMoves\<close> and \<open>Relocate\<close> show that each operation succeeds and keeps the invariant, \<open>LayoutSession\<close>
  puts operations in sequence. \<open>ByteIO\<close> models the streams of \<open>util.rs\<close> with the locale \<open>codec\<close> for each
  pair of a writer and a reader; \<open>LayoutSave\<close> models \<open>save_state\<close> and \<open>load_state\<close>, and \<open>LayoutReload\<close> shows
  that a saved layout comes back.

  \<^bold>\<open>Breakpoints.\<close> \<open>Breakpoints\<close> and \<open>BreakLoc\<close> model the breakpoints and their locations of \<open>debugger.rs\<close>
  for a local process: activating and deactivating a location (\<open>int3\<close> or a debug register), the
  three passes of \<open>handle_breakpoints\<close>, hardware slots and the debug registers of the threads.
  \<open>BreakOps\<close> models the commands, waiting for symbols and the reading of code for the disassembler.
  \<open>BreakInv\<close> states the invariant; \<open>BreakHandle\<close>, \<open>BreakRegs\<close> and \<open>BreakCmd\<close> show that every
  operation keeps it and does not panic; \<open>BreakReach\<close> defines the reachable states of a session
  inductively and has the properties. The tracee is a record of system calls \<open>tracee_ops\<close>: \<open>tracee_laws\<close>
  says that a read gives the memory and a successful write of a word changes eight bytes, \<open>alive\<close> that
  no call reports that the process is gone, and \<open>resolve_ok\<close> what resolving a breakpoint in the symbol tables
  gives. Each property with such a hypothesis has a witness with a concrete process.

  \<^bold>\<open>Loops.\<close> Most loops are functions with a termination proof by a measure: the reads left, the bytes
  left, the distance to the end of a buffer. The parser has fuel, chosen from the length of the text; one
  property shows that it always suffices and another that more fuel changes nothing. Walking over the
  regions when saving and loading, and the loops of the terminal reader, are partial functions where not to
  return is \<open>None\<close>; the properties show that they do return. The waits for threads in \<open>ForkInject\<close>
  and \<open>CoreAttach\<close> can go on for as long as the system call is interrupted, and have fuel; their properties are
  about a wait that has ended, and the witnesses about waits that end.

  \<^bold>\<open>What the models show of the code.\<close> Among other things: polling for a stop never acknowledges
  it; a reply that is not UTF-8 can panic the client; appending bits at an offset leaks bits; names with a single
  colon are not quoted; a block needs two opening braces; a layout file with a size of 0 loads and
  then fails an assertion; setting a register to a certain value keeps its mark as a guess; a \<open>.dynamic\<close>
  section near the end of the address space and a compression header with a huge size panic; and the
  practice run before injecting code cannot fail.

  \<^bold>\<open>Not modelled.\<close> In \<open>debugger.rs\<close>: starting, attaching and stopping processes, the event loop with
  its traps and stepping, and breakpoints of remote targets. In \<open>core_dumper.rs\<close>: the progress bar and the
  handler of fatal signals. In \<open>interp.rs\<close>: type checking and evaluation, which need the symbol
  tables. Symbols, line tables, types, the unwinder and the pretty printers (\<open>symbols.rs\<close>, \<open>dwarf.rs\<close>,
  \<open>types.rs\<close>, \<open>unwind.rs\<close>, \<open>pretty.rs\<close>) rest on a library for debug information and on pointers into arenas
  that threads fill in parallel. The user interface, drawing and terminal output (\<open>ui.rs\<close>, \<open>imgui.rs\<close>,
  \<open>widgets.rs\<close>, the rest of \<open>terminal.rs\<close>) are effects on a screen; the disassembler and the
  embedded terminal wrap libraries; settings, persistence, executor and log are input and output,
  threads and time.
\<close>

end
